(* ===== verification/Prelude.thy ===== *)
theory Prelude
  imports Main
begin

text \<open>
  Shared vocabulary of the development: the result type that stands for a failed
  \<open>assert\<close>, a dereferenced \<open>end()\<close> iterator or an out-of-range index of the C++
  code (and, for the loops that need not end, for the fuel that ran out), the \<open>std::vector\<close> operations that HOL lists do not have under the same
  meaning, and the generic lemmas on lists that several components use.
\<close>

section \<open>Errors as values\<close>

datatype error = Assert_failed | Out_of_range | Bad_deref | Aborted | Out_of_fuel

type_synonym 'a result = "error + 'a"

definition bind_r :: "'a result \<Rightarrow> ('a \<Rightarrow> 'b result) \<Rightarrow> 'b result" where
  "bind_r m f = (case m of Inl e \<Rightarrow> Inl e | Inr x \<Rightarrow> f x)"

definition assert_r :: "bool \<Rightarrow> 'a result \<Rightarrow> 'a result" where
  "assert_r b m = (if b then m else Inl Assert_failed)"

lemma bind_r_simps [simp]:
  "bind_r (Inr x) f = f x"
  "bind_r (Inl e) f = Inl e"
  by (simp_all add: bind_r_def)

lemma bind_r_eq_Inr: "bind_r m f = Inr y \<longleftrightarrow> (\<exists>x. m = Inr x \<and> f x = Inr y)"
  by (auto simp: bind_r_def split: sum.splits)

lemma bind_r_InrE [elim]:
  assumes "bind_r m f = Inr y"
  obtains x where "m = Inr x" "f x = Inr y"
  using assms by (auto simp: bind_r_eq_Inr)

lemma bind_r_cong [fundef_cong]:
  assumes "m = m'" and "\<And>x. m' = Inr x \<Longrightarrow> f x = f' x"
  shows "bind_r m f = bind_r m' f'"
  using assms by (auto simp: bind_r_def split: sum.splits)

lemma assert_r_simps [simp]:
  "assert_r True m = m"
  "assert_r False m = Inl Assert_failed"
  by (simp_all add: assert_r_def)

lemma assert_r_eq_Inr: "assert_r b m = Inr y \<longleftrightarrow> b \<and> m = Inr y"
  by (simp add: assert_r_def)

section \<open>Folding with errors\<close>

fun fold_r :: "('s \<Rightarrow> 'a \<Rightarrow> 's result) \<Rightarrow> 's \<Rightarrow> 'a list \<Rightarrow> 's result" where
  "fold_r g s [] = Inr s"
| "fold_r g s (x # xs) = bind_r (g s x) (\<lambda>s'. fold_r g s' xs)"

lemma fold_r_append: "fold_r g s (xs @ ys) = bind_r (fold_r g s xs) (\<lambda>s'. fold_r g s' ys)"
  by (induction xs arbitrary: s) (auto simp: bind_r_def split: sum.splits)

lemma fold_r_rel:
  assumes "fold_r g s xs = Inr s'" "\<And>s. R s s" "\<And>a b c. R a b \<Longrightarrow> R b c \<Longrightarrow> R a c"
    "\<And>s x s'. x \<in> set xs \<Longrightarrow> g s x = Inr s' \<Longrightarrow> R s s'"
  shows "R s s'"
  using assms(1,4)
proof (induction xs arbitrary: s)
  case Nil
  thus ?case using assms(2) by simp
next
  case (Cons x xs)
  obtain t where t: "g s x = Inr t" "fold_r g t xs = Inr s'" using Cons.prems(1) by (auto elim!: bind_r_InrE)
  have "R s t" using Cons.prems(2) [OF _ t(1)] by simp
  moreover have "R t s'" by (rule Cons.IH [OF t(2)]) (use Cons.prems(2) in \<open>meson list.set_intros(2)\<close>)
  ultimately show ?case by (rule assms(3))
qed

section \<open>Vectors\<close>

text \<open>Access that is checked, by an assertion or by \<open>at\<close>.\<close>

definition at_r :: "'a list \<Rightarrow> nat \<Rightarrow> 'a result" where
  "at_r xs i = (if i < length xs then Inr (xs ! i) else Inl Out_of_range)"

definition mut_r :: "'a list \<Rightarrow> nat \<Rightarrow> ('a \<Rightarrow> 'a) \<Rightarrow> 'a list result" where
  "mut_r xs i f = (if i < length xs then Inr (xs[i := f (xs ! i)]) else Inl Out_of_range)"

lemma at_r_simps [simp]:
  "i < length xs \<Longrightarrow> at_r xs i = Inr (xs ! i)"
  "length xs \<le> i \<Longrightarrow> at_r xs i = Inl Out_of_range"
  by (simp_all add: at_r_def)

lemma at_r_eq_Inr: "at_r xs i = Inr x \<longleftrightarrow> i < length xs \<and> x = xs ! i"
  by (auto simp: at_r_def)

lemma mut_r_simps [simp]:
  "i < length xs \<Longrightarrow> mut_r xs i f = Inr (xs[i := f (xs ! i)])"
  "length xs \<le> i \<Longrightarrow> mut_r xs i f = Inl Out_of_range"
  by (simp_all add: mut_r_def)

lemma mut_r_eq_Inr: "mut_r xs i f = Inr ys \<longleftrightarrow> i < length xs \<and> ys = xs[i := f (xs ! i)]"
  by (auto simp: mut_r_def)

text \<open>Maps: association lists, with a default for missing keys.\<close>

definition map_get :: "'b \<Rightarrow> ('a \<times> 'b) list \<Rightarrow> 'a \<Rightarrow> 'b" where
  "map_get d m k = (case map_of m k of Some v \<Rightarrow> v | None \<Rightarrow> d)"


text \<open>\<open>v.resize(n, x)\<close>: cut to \<open>n\<close> elements, or fill up with copies of \<open>x\<close>.\<close>

definition resize :: "nat \<Rightarrow> 'a \<Rightarrow> 'a list \<Rightarrow> 'a list" where
  "resize n x xs = take n xs @ replicate (n - length xs) x"

lemma length_resize [simp]: "length (resize n x xs) = n"
  by (simp add: resize_def)

lemma nth_resize: "i < n \<Longrightarrow> resize n x xs ! i = (if i < length xs then xs ! i else x)"
  by (auto simp: resize_def nth_append)

lemma resize_same [simp]: "resize (length xs) x xs = xs"
  by (simp add: resize_def)

lemma resize_shrink: "n \<le> length xs \<Longrightarrow> resize n x xs = take n xs"
  by (simp add: resize_def)

text \<open>Reading with a default outside the vector.\<close>

definition nth_or :: "'a \<Rightarrow> 'a list \<Rightarrow> nat \<Rightarrow> 'a" where
  "nth_or d xs i = (if i < length xs then xs ! i else d)"

lemma nth_or_resize [simp]: "length xs \<le> n \<Longrightarrow> nth_or d (resize n d xs) i = nth_or d xs i"
  by (auto simp: nth_or_def nth_resize)

lemma nth_or_update: "i < length xs \<Longrightarrow> nth_or d (xs[i := x]) j = (if j = i then x else nth_or d xs j)"
  by (auto simp: nth_or_def)

section \<open>Sorted and distinct lists\<close>

lemma sorted_wrt_less_nth_mono:
  "sorted_wrt (<) (xs :: 'a::linorder list) \<Longrightarrow> i < j \<Longrightarrow> j < length xs \<Longrightarrow> xs ! i < xs ! j"
  by (simp add: sorted_wrt_iff_nth_less)

lemma sorted_wrt_less_nth_less_iff:
  assumes "sorted_wrt (<) (xs :: 'a::linorder list)" "i < length xs" "j < length xs"
  shows "xs ! i < xs ! j \<longleftrightarrow> i < j"
  using assms by (metis linorder_neqE_nat order_less_asym order_less_irrefl sorted_wrt_less_nth_mono)

lemma sorted_wrt_less_nth_eq_iff:
  assumes "sorted_wrt (<) (xs :: 'a::linorder list)" "i < length xs" "j < length xs"
  shows "xs ! i = xs ! j \<longleftrightarrow> i = j"
  using assms by (metis linorder_neqE_nat order_less_irrefl sorted_wrt_less_nth_mono)

lemma sorted_wrt_less_distinct: "sorted_wrt (<) (xs :: 'a::linorder list) \<Longrightarrow> distinct xs"
  using strict_sorted_iff by blast

lemma set_take_Suc: "i < length xs \<Longrightarrow> set (take (Suc i) xs) = insert (xs ! i) (set (take i xs))"
  by (simp add: take_Suc_conv_app_nth)

lemma set_drop_nth: "i < length xs \<Longrightarrow> set (drop i xs) = insert (xs ! i) (set (drop (Suc i) xs))"
  by (simp add: Cons_nth_drop_Suc [symmetric])

section \<open>Decimal printing\<close>

text \<open>\<open>std::to_string\<close> and \<open>operator<<\<close> of a stream on integers.\<close>

fun dec_nat :: "nat \<Rightarrow> string" where
  "dec_nat n = (if n < 10 then [char_of (48 + n)] else dec_nat (n div 10) @ [char_of (48 + n mod 10)])"

declare dec_nat.simps [simp del]

definition dec_int :: "int \<Rightarrow> string" where
  "dec_int i = (if i < 0 then ''-'' @ dec_nat (nat (- i)) else dec_nat (nat i))"

lemma dec_nat_not_Nil [simp]: "dec_nat n \<noteq> []" "[] \<noteq> dec_nat n"
  by (simp_all add: dec_nat.simps [of n])

lemma char_of_digit_eq_iff: "m < 10 \<Longrightarrow> n < 10 \<Longrightarrow> char_of (48 + m) = char_of (48 + (n :: nat)) \<longleftrightarrow> m = n"
  by (auto dest: arg_cong [of _ _ "of_char :: char \<Rightarrow> nat"])

lemma set_dec_nat: "c \<in> set (dec_nat n) \<Longrightarrow> 48 \<le> (of_char c :: nat) \<and> (of_char c :: nat) < 58"
proof (induction n rule: dec_nat.induct)
  case (1 n)
  show ?case
  proof (cases "n < 10")
    case True
    thus ?thesis using "1.prems" by (simp add: dec_nat.simps [of n])
  next
    case False
    from "1.prems" consider "c \<in> set (dec_nat (n div 10))" | "c = char_of (48 + n mod 10)"
      using False by (auto simp: dec_nat.simps [of n])
    thus ?thesis
    proof cases
      case 1
      thus ?thesis by (rule "1.IH" [OF False])
    next
      case 2
      have "n mod 10 < 10" by simp
      hence "(48 + n mod 10) mod 256 = 48 + n mod 10" by simp
      thus ?thesis using 2 by simp
    qed
  qed
qed

lemma dec_nat_inject: "dec_nat m = dec_nat n \<longleftrightarrow> m = n"
proof (induction m arbitrary: n rule: dec_nat.induct)
  case (1 m)
  have d: "m mod 10 < 10" "n mod 10 < 10" by simp_all
  show ?case
  proof (cases "m < 10")
    case True
    thus ?thesis
      using char_of_digit_eq_iff [of m n] by (auto simp: dec_nat.simps [of m] dec_nat.simps [of n])
  next
    case False
    show ?thesis
    proof (cases "n < 10")
      case True
      thus ?thesis using False by (auto simp: dec_nat.simps [of m] dec_nat.simps [of n])
    next
      case n: False
      have "dec_nat m = dec_nat n \<longleftrightarrow> m div 10 = n div 10 \<and> m mod 10 = n mod 10"
        using False n "1.IH" [OF False, of "n div 10"] char_of_digit_eq_iff [OF d]
        by (simp add: dec_nat.simps [of m] dec_nat.simps [of n])
      also have "\<dots> \<longleftrightarrow> m = n" by (metis div_mult_mod_eq)
      finally show ?thesis .
    qed
  qed
qed

lemma dec_int_inject: "dec_int i = dec_int j \<longleftrightarrow> i = j"
proof -
  have "dec_nat k \<noteq> CHR ''-'' # s" for k s
    using set_dec_nat [of "CHR ''-''" k] by auto
  thus ?thesis by (auto simp: dec_int_def dec_nat_inject dest: sym)
qed

end
