(* ===== verification/VecSet.thy ===== *)
theory VecSet
  imports Prelude
begin

text \<open>
  \<open>VecSet<T>\<close> (src/src/vecset.h, vecset.tcc): a set kept as a sorted, duplicate-free
  vector. The one member \<open>vec\<close> is a list; every index loop of the C++ code is a
  recursive function over the same indices, so the in-place loops stay in-place updates.
\<close>

section \<open>The class and its operations\<close>

type_synonym 'a vec_set = "'a list"

fun vs_check_from :: "'a::linorder vec_set \<Rightarrow> nat \<Rightarrow> nat \<Rightarrow> bool" where
  "vs_check_from v i 0 = True"
| "vs_check_from v i (Suc k) = (if \<not> v ! (i - 1) < v ! i then False else vs_check_from v (Suc i) k)"

definition vs_check_invariant :: "'a::linorder vec_set \<Rightarrow> bool" where
  "vs_check_invariant v = vs_check_from v 1 (length v - 1)"

definition vs_singleton :: "'a \<Rightarrow> 'a vec_set" where
  "vs_singleton t = [t]"

definition vs_of_vector :: "'a::linorder list \<Rightarrow> 'a vec_set result" where
  "vs_of_vector v = assert_r (vs_check_invariant v) (Inr v)"

subsection \<open>Lookup by binary search\<close>

function vs_find_geq_loop :: "'a::linorder vec_set \<Rightarrow> 'a \<Rightarrow> nat \<Rightarrow> nat \<Rightarrow> nat" where
  "vs_find_geq_loop v t a b =
     (if a < b
      then (if v ! ((a + b) div 2) < t then vs_find_geq_loop v t ((a + b) div 2 + 1) b
            else if v ! ((a + b) div 2) = t then (a + b) div 2
            else vs_find_geq_loop v t a ((a + b) div 2))
      else a)"
  by pat_completeness auto
termination
  by (relation "measure (\<lambda>(v, t, a, b). b - a)") auto

declare vs_find_geq_loop.simps [simp del]

definition vs_find_geq :: "'a::linorder vec_set \<Rightarrow> 'a \<Rightarrow> nat" where
  "vs_find_geq v t = vs_find_geq_loop v t 0 (length v)"

definition vs_find :: "'a::linorder vec_set \<Rightarrow> 'a \<Rightarrow> int" where
  "vs_find v t =
     (let i = vs_find_geq v t
      in if i = length v \<or> v ! i \<noteq> t then - 1 else int i)"

definition vs_count :: "'a::linorder vec_set \<Rightarrow> 'a \<Rightarrow> nat" where
  "vs_count v t = (if 0 \<le> vs_find v t then 1 else 0)"

subsection \<open>Insertion\<close>

text \<open>The shifting loop \<open>for(j = size-2; j > i; j--) vec[j] = vec[j-1]\<close>.\<close>

fun vs_shift_up :: "'a vec_set \<Rightarrow> nat \<Rightarrow> nat \<Rightarrow> 'a vec_set" where
  "vs_shift_up v i 0 = v"
| "vs_shift_up v i (Suc j) = (if i < Suc j then vs_shift_up (v[Suc j := v ! j]) i j else v)"

definition vs_insert :: "'a::linorder vec_set \<Rightarrow> 'a \<Rightarrow> 'a vec_set \<times> nat \<times> bool" where
  "vs_insert v t =
     (let i = vs_find_geq v t
      in if i < length v \<and> v ! i = t then (v, i, False)
         else if length v = 0 then (v @ [t], i, True)
         else ((vs_shift_up (v @ [last v]) i (length v - 1))[i := t], i, True))"

definition vs_insert_geq :: "'a::linorder vec_set \<Rightarrow> 'a \<Rightarrow> ('a vec_set \<times> nat \<times> bool) result" where
  "vs_insert_geq v t =
     assert_r (v = [] \<or> last v \<le> t)
       (if v \<noteq> [] \<and> last v = t then Inr (v, length v - 1, False)
        else Inr (v @ [t], length v, True))"

definition vs_insert_gt :: "'a::linorder vec_set \<Rightarrow> 'a \<Rightarrow> 'a vec_set result" where
  "vs_insert_gt v t = assert_r (v = [] \<or> last v < t) (Inr (v @ [t]))"

text \<open>The range constructors: append while the input increases, insert otherwise.\<close>

definition vs_of_range_step :: "'a::linorder vec_set \<Rightarrow> 'a \<Rightarrow> 'a vec_set" where
  "vs_of_range_step v t = (if v \<noteq> [] \<and> last v < t then v @ [t] else fst (vs_insert v t))"

definition vs_of_range :: "'a::linorder list \<Rightarrow> 'a vec_set" where
  "vs_of_range ts = foldl vs_of_range_step [] ts"

subsection \<open>Union\<close>

declare sorted_list_of_set.sorted_key_list_of_set_insert_remove [simp del]

text \<open>First pass: how many elements of \<open>s\<close> are not in \<open>v\<close> (pointers \<open>a\<close>, \<open>b\<close>).\<close>

function vs_count_new :: "'a::linorder vec_set \<Rightarrow> 'a vec_set \<Rightarrow> nat \<Rightarrow> nat \<Rightarrow> nat \<Rightarrow> nat" where
  "vs_count_new v s a b c =
     (if a < length v \<and> b < length s
      then (if v ! a < s ! b then vs_count_new v s (a + 1) b c
            else if v ! a = s ! b then vs_count_new v s (a + 1) (b + 1) c
            else vs_count_new v s a (b + 1) (c + 1))
      else c + (length s - b))"
  by pat_completeness auto
termination
  by (relation "measure (\<lambda>(v, s, a, b, c). (length v - a) + (length s - b))") auto

declare vs_count_new.simps [simp del]

text \<open>
  Second pass: fill the resized vector from the back with the largest remaining element.
  The C++ indices \<open>a\<close> and \<open>b\<close> run down to \<open>-1\<close>; here they are the numbers of
  elements still to place, so \<open>vec[a]\<close> is \<open>v ! (a - 1)\<close>.
\<close>

fun vs_merge_down :: "'a::linorder vec_set \<Rightarrow> 'a vec_set \<Rightarrow> nat \<Rightarrow> nat \<Rightarrow> nat \<Rightarrow> 'a vec_set" where
  "vs_merge_down v s a b 0 = v"
| "vs_merge_down v s a b (Suc i) =
     (if a = 0 \<or> (b \<noteq> 0 \<and> v ! (a - 1) < s ! (b - 1))
      then vs_merge_down (v[i := s ! (b - 1)]) s a (b - 1) i
      else if a \<noteq> 0 \<and> b \<noteq> 0 \<and> v ! (a - 1) = s ! (b - 1)
      then vs_merge_down (v[i := v ! (a - 1)]) s (a - 1) (b - 1) i
      else vs_merge_down (v[i := v ! (a - 1)]) s (a - 1) b i)"

definition vs_insert_all :: "'a::linorder vec_set \<Rightarrow> 'a vec_set \<Rightarrow> 'a vec_set \<times> nat" where
  "vs_insert_all v s =
     (if length s = 0 then (v, 0)
      else if length s = 1
      then (let (v', i, new) = vs_insert v (s ! 0) in (v', if new then 1 else 0))
      else let c = vs_count_new v s 0 0 0
           in if c > 0
              then (vs_merge_down (resize (length v + c) (s ! 0) v) s (length v) (length s)
                      (length v + c), c)
              else (v, c))"

subsection \<open>Erasure\<close>

text \<open>The shifting loop \<open>for(j = i; j < size-1; ++j) vec[j] = vec[j+1]\<close>.\<close>

function vs_shift_down :: "'a vec_set \<Rightarrow> nat \<Rightarrow> 'a vec_set" where
  "vs_shift_down v j =
     (if j < length v - 1 then vs_shift_down (v[j := v ! (j + 1)]) (j + 1) else v)"
  by pat_completeness auto
termination
  by (relation "measure (\<lambda>(v, j). length v - j)") auto

declare vs_shift_down.simps [simp del]

definition vs_erase :: "'a::linorder vec_set \<Rightarrow> 'a \<Rightarrow> 'a vec_set \<times> nat" where
  "vs_erase v t =
     (let i = vs_find_geq v t
      in if length v \<le> i \<or> v ! i \<noteq> t then (v, 0)
         else (resize (length v - 1) t (vs_shift_down v i), 1))"

text \<open>
  \<open>erase(S)\<close>: \<open>a\<close> reads, \<open>ains\<close> writes, \<open>b\<close> walks \<open>S\<close>; then the rest of the
  vector is moved down and the vector cut to \<open>ains\<close> elements.
\<close>

function vs_erase_loop ::
  "'a::linorder vec_set \<Rightarrow> 'a vec_set \<Rightarrow> nat \<Rightarrow> nat \<Rightarrow> nat \<Rightarrow> nat \<Rightarrow> 'a vec_set \<times> nat \<times> nat \<times> nat" where
  "vs_erase_loop v s a b ains e =
     (if a < length v \<and> b < length s
      then (if v ! a = s ! b then vs_erase_loop v s (a + 1) (b + 1) ains (e + 1)
            else if v ! a < s ! b
            then vs_erase_loop (if ains \<noteq> a then v[ains := v ! a] else v) s (a + 1) b (ains + 1) e
            else vs_erase_loop v s a (b + 1) ains e)
      else (v, a, ains, e))"
  by pat_completeness auto
termination
  by (relation "measure (\<lambda>(v, s, a, b, ains, e). (length v - a) + (length s - b))") auto

declare vs_erase_loop.simps [simp del]

function vs_move_rest :: "'a vec_set \<Rightarrow> nat \<Rightarrow> nat \<Rightarrow> 'a vec_set \<times> nat" where
  "vs_move_rest v a ains =
     (if a < length v then vs_move_rest (v[ains := v ! a]) (a + 1) (ains + 1) else (v, ains))"
  by pat_completeness auto
termination
  by (relation "measure (\<lambda>(v, a, ains). length v - a)") auto

declare vs_move_rest.simps [simp del]

definition vs_erase_all :: "'a::linorder vec_set \<Rightarrow> 'a vec_set \<Rightarrow> 'a vec_set \<times> nat" where
  "vs_erase_all v s =
     (if v = [] then (v, 0)
      else if s = [] then (v, 0)
      else let (v1, a, ains, e) = vs_erase_loop v s 0 0 0 0
           in if ains \<noteq> a
              then (let (v2, n) = vs_move_rest v1 a ains in (resize n (v2 ! 0) v2, e))
              else (v1, e))"

subsection \<open>Comparison\<close>

text \<open>
  The loop of \<open>subset_of\<close> has no bound on \<open>b\<close>: the length test that leaves the loop keeps
  it below \<open>s.vec.size()\<close>.
\<close>

function vs_subset_loop :: "'a::linorder vec_set \<Rightarrow> 'a vec_set \<Rightarrow> nat \<Rightarrow> nat \<Rightarrow> bool" where
  "vs_subset_loop v s a b =
     (if a < length v
      then (if int (length v) - int a > int (length s) - int b then False
            else if v ! a < s ! b then False
            else if v ! a = s ! b then vs_subset_loop v s (a + 1) (b + 1)
            else vs_subset_loop v s a (b + 1))
      else True)"
  by pat_completeness auto
termination
  by (relation "measure (\<lambda>(v, s, a, b). (length v - a) + (length s - b))") auto

declare vs_subset_loop.simps [simp del]

definition vs_subset_of :: "'a::linorder vec_set \<Rightarrow> 'a vec_set \<Rightarrow> bool" where
  "vs_subset_of v s = (if length v > length s then False else vs_subset_loop v s 0 0)"

function vs_intersects_loop :: "'a::linorder vec_set \<Rightarrow> 'a vec_set \<Rightarrow> nat \<Rightarrow> nat \<Rightarrow> bool" where
  "vs_intersects_loop v s a b =
     (if a < length v \<and> b < length s
      then (if v ! a < s ! b then vs_intersects_loop v s (a + 1) b
            else if v ! a = s ! b then True
            else vs_intersects_loop v s a (b + 1))
      else False)"
  by pat_completeness auto
termination
  by (relation "measure (\<lambda>(v, s, a, b). (length v - a) + (length s - b))") auto

declare vs_intersects_loop.simps [simp del]

definition vs_intersects :: "'a::linorder vec_set \<Rightarrow> 'a vec_set \<Rightarrow> bool" where
  "vs_intersects v s = vs_intersects_loop v s 0 0"

text \<open>The remaining one-line members.\<close>

definition vs_size :: "'a vec_set \<Rightarrow> nat" where
  "vs_size v = length v"

definition vs_back :: "'a vec_set \<Rightarrow> 'a result" where
  "vs_back v = (if v = [] then Inl Out_of_range else Inr (last v))"

definition vs_pop_back :: "'a vec_set \<Rightarrow> 'a vec_set result" where
  "vs_pop_back v = (if v = [] then Inl Out_of_range else Inr (butlast v))"

definition vs_nth :: "'a vec_set \<Rightarrow> nat \<Rightarrow> 'a result" where
  "vs_nth v i = (if i < length v then Inr (v ! i) else Inl Out_of_range)"

definition vs_empty :: "'a vec_set \<Rightarrow> bool" where
  "vs_empty v = (v = [])"

definition vs_clear :: "'a vec_set \<Rightarrow> 'a vec_set" where
  "vs_clear v = []"

text \<open>\<open>operator==\<close> and \<open>operator<\<close> are those of \<open>std::vector\<close>: the latter is
  \<open>std::lexicographical_compare\<close>.\<close>

definition vs_equal :: "'a vec_set \<Rightarrow> 'a vec_set \<Rightarrow> bool" where
  "vs_equal v s = (v = s)"

fun vs_less :: "'a::linorder vec_set \<Rightarrow> 'a vec_set \<Rightarrow> bool" where
  "vs_less v [] = False"
| "vs_less [] (y # ys) = True"
| "vs_less (x # xs) (y # ys) = (if x < y then True else if y < x then False else vs_less xs ys)"

text \<open>\<open>const_iterator\<close>: an index into the vector; \<open>++\<close> stops at \<open>end()\<close>, \<open>--\<close> at
  \<open>begin()\<close>.\<close>

definition vs_begin :: "'a vec_set \<Rightarrow> nat" where
  "vs_begin v = 0"

definition vs_end :: "'a vec_set \<Rightarrow> nat" where
  "vs_end v = length v"

definition vs_iter_incr :: "'a vec_set \<Rightarrow> nat \<Rightarrow> nat" where
  "vs_iter_incr v i = (if i < length v then i + 1 else i)"

definition vs_iter_decr :: "'a vec_set \<Rightarrow> nat \<Rightarrow> nat" where
  "vs_iter_decr v i = (if i > 0 then i - 1 else i)"

definition vs_iter_deref :: "'a vec_set \<Rightarrow> nat \<Rightarrow> 'a result" where
  "vs_iter_deref v i = (if i < length v then Inr (v ! i) else Inl Bad_deref)"

fun vs_join_strings :: "string list \<Rightarrow> nat \<Rightarrow> string" where
  "vs_join_strings [] i = ''''"
| "vs_join_strings (s # ss) i = (if i \<noteq> 0 then '', '' else '''') @ s @ vs_join_strings ss (Suc i)"

definition vs_to_string_one_line :: "('a \<Rightarrow> string) \<Rightarrow> 'a vec_set \<Rightarrow> string" where
  "vs_to_string_one_line f v = ''{'' @ vs_join_strings (map f v) 0 @ ''}''"

section \<open>The invariant\<close>

abbreviation vs_ok :: "'a::linorder vec_set \<Rightarrow> bool" where
  "vs_ok v \<equiv> sorted_wrt (<) v"

lemma vs_check_from_iff:
  "1 \<le> i \<Longrightarrow> vs_check_from v i k \<longleftrightarrow> (\<forall>j\<in>{i..<i + k}. v ! (j - 1) < v ! j)"
proof (induction k arbitrary: i)
  case 0
  then show ?case by simp
next
  case (Suc k)
  have "{i..<i + Suc k} = insert i {Suc i..<Suc i + k}"
    by auto
  then show ?case using Suc by simp
qed

lemma vs_check_invariant_iff: "vs_check_invariant v \<longleftrightarrow> vs_ok v"
proof -
  have "vs_check_invariant v \<longleftrightarrow> (\<forall>j\<in>{1..<1 + (length v - 1)}. v ! (j - 1) < v ! j)"
    unfolding vs_check_invariant_def by (rule vs_check_from_iff) simp
  also have "\<dots> \<longleftrightarrow> (\<forall>i. Suc i < length v \<longrightarrow> v ! i < v ! Suc i)"
  proof (safe, goal_cases)
    case (1 i)
    then show ?case by (auto dest: bspec [of _ _ "Suc i"])
  next
    case (2 j)
    then show ?case by (cases j) auto
  qed
  also have "\<dots> \<longleftrightarrow> vs_ok v"
    by (simp add: sorted_wrt_iff_nth_Suc_transp)
  finally show ?thesis .
qed

section \<open>Lookup\<close>

lemma vs_find_geq_loop_spec:
  assumes "vs_ok v" "a \<le> b" "b \<le> length v"
    and "\<forall>i<a. v ! i < t" and "\<forall>i. b \<le> i \<and> i < length v \<longrightarrow> t < v ! i"
  shows "vs_find_geq_loop v t a b \<le> length v
    \<and> (\<forall>i<vs_find_geq_loop v t a b. v ! i < t)
    \<and> (\<forall>i. vs_find_geq_loop v t a b \<le> i \<and> i < length v \<longrightarrow> t \<le> v ! i)"
  using assms
proof (induction v t a b rule: vs_find_geq_loop.induct)
  case (1 v t a b)
  let ?c = "(a + b) div 2"
  show ?case
  proof (cases "a < b")
    case False
    then have "vs_find_geq_loop v t a b = a"
      by (simp add: vs_find_geq_loop.simps [of v t a b])
    then show ?thesis
      using False "1.prems" by (auto intro: less_imp_le)
  next
    case True
    then have c: "a \<le> ?c" "?c < b" "?c < length v"
      using "1.prems"(3) by auto
    consider "v ! ?c < t" | "v ! ?c = t" | "t < v ! ?c"
      by (rule linorder_cases)
    then show ?thesis
    proof cases
      case 1
      have "\<forall>i<?c + 1. v ! i < t"
        using \<open>vs_ok v\<close> 1 c(3) by (metis Suc_eq_plus1 less_Suc_eq order_less_trans sorted_wrt_less_nth_mono)
      then show ?thesis
        using "1.IH"(1) True 1 "1.prems" c by (simp add: vs_find_geq_loop.simps [of v t a b])
    next
      case 2
      have "\<forall>i<?c. v ! i < t" "\<forall>i. ?c \<le> i \<and> i < length v \<longrightarrow> t \<le> v ! i"
        using \<open>vs_ok v\<close> 2 c(3)
        by (auto simp: le_eq_less_or_eq dest: sorted_wrt_less_nth_mono)
      then show ?thesis
        using True 2 c by (simp add: vs_find_geq_loop.simps [of v t a b])
    next
      case 3
      have "\<forall>i. ?c \<le> i \<and> i < length v \<longrightarrow> t < v ! i"
        using \<open>vs_ok v\<close> 3 by (metis le_eq_less_or_eq order_less_trans sorted_wrt_less_nth_mono)
      then show ?thesis
        using "1.IH"(2) True less_not_sym [OF 3] less_imp_neq [OF 3] "1.prems" c
        by (simp add: vs_find_geq_loop.simps [of v t a b])
    qed
  qed
qed

lemma vs_find_geq_spec:
  "vs_ok v \<Longrightarrow> vs_find_geq v t \<le> length v
    \<and> (\<forall>i<vs_find_geq v t. v ! i < t)
    \<and> (\<forall>i. vs_find_geq v t \<le> i \<and> i < length v \<longrightarrow> t \<le> v ! i)"
  unfolding vs_find_geq_def by (rule vs_find_geq_loop_spec) auto

lemma vs_find_geq_bound: "vs_ok v \<Longrightarrow> vs_find_geq v t \<le> length v"
  and vs_find_geq_below: "vs_ok v \<Longrightarrow> i < vs_find_geq v t \<Longrightarrow> v ! i < t"
  and vs_find_geq_above: "vs_ok v \<Longrightarrow> vs_find_geq v t \<le> i \<Longrightarrow> i < length v \<Longrightarrow> t \<le> v ! i"
  using vs_find_geq_spec [of v t] by auto

lemma vs_find_geq_hit:
  assumes "vs_ok v"
  shows "vs_find_geq v t < length v \<and> v ! vs_find_geq v t = t \<longleftrightarrow> t \<in> set v"
proof
  assume "t \<in> set v"
  then obtain k where k: "k < length v" "v ! k = t"
    by (auto simp: in_set_conv_nth)
  have "\<not> k < vs_find_geq v t"
    using vs_find_geq_below [OF assms, of k t] k by auto
  moreover have "\<not> vs_find_geq v t < k"
    using vs_find_geq_above [OF assms, of t "vs_find_geq v t"] sorted_wrt_less_nth_mono [OF assms, of _ k] k
    by force
  ultimately show "vs_find_geq v t < length v \<and> v ! vs_find_geq v t = t"
    using k by (metis linorder_neqE_nat)
qed (auto simp: in_set_conv_nth)

lemma vs_count_iff: "vs_ok v \<Longrightarrow> vs_count v t = (if t \<in> set v then 1 else 0)"
  using vs_find_geq_hit [of v t] vs_find_geq_bound [of v t]
  by (auto simp: vs_count_def vs_find_def Let_def)

section \<open>Insertion\<close>

lemma length_vs_shift_up [simp]: "length (vs_shift_up v i j) = length v"
  by (induction v i j rule: vs_shift_up.induct) auto

lemma nth_vs_shift_up:
  "j < length v \<Longrightarrow> k < length v
    \<Longrightarrow> vs_shift_up v i j ! k = (if i < k \<and> k \<le> j then v ! (k - 1) else v ! k)"
proof (induction v i j rule: vs_shift_up.induct)
  case (2 v i j)
  then show ?case by (auto simp: nth_list_update le_Suc_eq)
qed auto

lemma vs_insert_new:
  assumes "vs_ok v" "t \<notin> set v"
  shows "vs_insert v t = (take (vs_find_geq v t) v @ t # drop (vs_find_geq v t) v, vs_find_geq v t, True)"
proof -
  let ?i = "vs_find_geq v t"
  have i: "?i \<le> length v" and miss: "\<not> (?i < length v \<and> v ! ?i = t)"
    using vs_find_geq_bound [OF assms(1)] vs_find_geq_hit [OF assms(1)] assms(2) by auto
  have "(vs_shift_up (v @ [last v]) ?i (length v - 1))[?i := t] = take ?i v @ t # drop ?i v" if "v \<noteq> []"
  proof (rule nth_equalityI)
    show "length ((vs_shift_up (v @ [last v]) ?i (length v - 1))[?i := t]) = length (take ?i v @ t # drop ?i v)"
      using i by simp
    fix k
    assume "k < length ((vs_shift_up (v @ [last v]) ?i (length v - 1))[?i := t])"
    then have k: "k \<le> length v" by simp
    show "(vs_shift_up (v @ [last v]) ?i (length v - 1))[?i := t] ! k = (take ?i v @ t # drop ?i v) ! k"
      using i k that
      by (auto simp: nth_vs_shift_up nth_list_update nth_append nth_Cons' last_conv_nth min_def)
  qed
  then show ?thesis
    using miss i by (auto simp: vs_insert_def Let_def)
qed

lemma vs_insert_old:
  "vs_ok v \<Longrightarrow> t \<in> set v \<Longrightarrow> vs_insert v t = (v, vs_find_geq v t, False)"
  using vs_find_geq_hit [of v t] by (simp add: vs_insert_def Let_def)

lemma vs_ok_insert_at:
  assumes "vs_ok v" "t \<notin> set v"
  shows "vs_ok (take (vs_find_geq v t) v @ t # drop (vs_find_geq v t) v)"
proof -
  let ?i = "vs_find_geq v t"
  have i: "?i \<le> length v" by (rule vs_find_geq_bound [OF assms(1)])
  have lo: "x < t" if "x \<in> set (take ?i v)" for x
    using that i vs_find_geq_below [OF assms(1)] by (auto simp: in_set_conv_nth)
  have hi: "t < x" if "x \<in> set (drop ?i v)" for x
  proof -
    have "t \<le> x"
      using that i vs_find_geq_above [OF assms(1), of t] by (auto simp: in_set_conv_nth)
    moreover have "x \<noteq> t"
      using that assms(2) by (metis in_set_dropD)
    ultimately show ?thesis by simp
  qed
  have "vs_ok (take ?i v @ drop ?i v)" using assms(1) by simp
  then show ?thesis using lo hi by (auto simp: sorted_wrt_append simp del: append_take_drop_id dest: order_less_trans)
qed

lemma vs_insert_ok: "vs_ok v \<Longrightarrow> vs_ok (fst (vs_insert v t))"
  by (cases "t \<in> set v") (simp_all add: vs_insert_old vs_insert_new vs_ok_insert_at)

lemma vs_insert_set: "vs_ok v \<Longrightarrow> set (fst (vs_insert v t)) = insert t (set v)"
proof (cases "t \<in> set v")
  case False
  assume "vs_ok v"
  have "set (take n v) \<union> set (drop n v) = set v" for n
    by (metis append_take_drop_id set_append)
  then show ?thesis using \<open>vs_ok v\<close> False by (auto simp: vs_insert_new)
qed (auto simp: vs_insert_old)

lemma vs_insert_new_iff: "vs_ok v \<Longrightarrow> snd (snd (vs_insert v t)) \<longleftrightarrow> t \<notin> set v"
  by (cases "t \<in> set v") (simp_all add: vs_insert_old vs_insert_new)

lemma vs_insert_index:
  assumes "vs_ok v"
  shows "fst (snd (vs_insert v t)) < length (fst (vs_insert v t))
    \<and> fst (vs_insert v t) ! fst (snd (vs_insert v t)) = t"
  using vs_find_geq_bound [OF assms, of t] vs_find_geq_hit [OF assms, of t]
  by (cases "t \<in> set v") (simp_all add: vs_insert_old vs_insert_new assms nth_append min_def)

lemma vs_of_range_step_ok: "vs_ok v \<Longrightarrow> vs_ok (vs_of_range_step v t) \<and> set (vs_of_range_step v t) = insert t (set v)"
proof (cases "v \<noteq> [] \<and> last v < t")
  case True
  assume "vs_ok v"
  have "x < t" if "x \<in> set v" for x
    using that True \<open>vs_ok v\<close> by (cases v rule: rev_cases) (auto simp: sorted_wrt_append)
  then show ?thesis using True \<open>vs_ok v\<close> by (auto simp: vs_of_range_step_def sorted_wrt_append)
next
  case False
  assume "vs_ok v"
  then show ?thesis
    using False by (simp only: vs_of_range_step_def if_False vs_insert_ok vs_insert_set)
qed

lemma vs_of_range_fold:
  "vs_ok v \<Longrightarrow> vs_ok (foldl vs_of_range_step v ts) \<and> set (foldl vs_of_range_step v ts) = set v \<union> set ts"
  by (induction ts arbitrary: v) (auto simp: vs_of_range_step_ok)


section \<open>Union\<close>

declare sorted_list_of_set.sorted_key_list_of_set_insert_remove [simp del]

lemma strict_sorted_unique:
  "vs_ok xs \<Longrightarrow> vs_ok ys \<Longrightarrow> set xs = set ys \<Longrightarrow> xs = (ys :: 'a::linorder list)"
  by (rule strict_sorted_equal)

lemma vs_ok_sorted_list_of_set: "vs_ok (sorted_list_of_set A)"
  by (simp add: strict_sorted_list_of_set)

lemma sorted_list_of_set_insert_max:
  assumes "finite A" "\<forall>x\<in>A. x < (m::'a::linorder)"
  shows "sorted_list_of_set (insert m A) = sorted_list_of_set A @ [m]"
proof (rule strict_sorted_unique)
  show "vs_ok (sorted_list_of_set (insert m A))"
    by (rule vs_ok_sorted_list_of_set)
  show "vs_ok (sorted_list_of_set A @ [m])"
    using assms by (simp add: sorted_wrt_append vs_ok_sorted_list_of_set)
  show "set (sorted_list_of_set (insert m A)) = set (sorted_list_of_set A @ [m])"
    using assms(1) by (simp only: set_sorted_list_of_set finite_insert set_append) simp
qed

lemma vs_ok_take_less:
  assumes "vs_ok v" "i < length v" "x \<in> set (take i v)"
  shows "x < v ! i"
proof -
  obtain j where "j < i" "x = v ! j"
    using assms(2,3) by (auto simp: in_set_conv_nth)
  then show ?thesis using assms(1,2) by (simp add: sorted_wrt_less_nth_mono)
qed

lemma vs_ok_drop_less:
  assumes "vs_ok v" "i < length v" "x \<in> set (drop (Suc i) v)"
  shows "v ! i < x"
proof -
  obtain j where "j < length v - Suc i" "x = v ! (Suc i + j)"
    using assms(3) by (auto simp: in_set_conv_nth)
  then show ?thesis using assms(1,2) by (simp add: sorted_wrt_less_nth_mono)
qed

lemma take_Suc_last: "0 < a \<Longrightarrow> a \<le> length v \<Longrightarrow> set (take a v) = insert (v ! (a - 1)) (set (take (a - 1) v))"
  using set_take_Suc [of "a - 1" v] by simp

lemma vs_merge_down_spec:
  assumes "vs_ok (take a v)" "vs_ok s" "a \<le> i" "i \<le> length v" "b \<le> length s"
    and "card (set (take a v) \<union> set (take b s)) = i"
  shows "vs_merge_down v s a b i = sorted_list_of_set (set (take a v) \<union> set (take b s)) @ drop i v"
  using assms
proof (induction i arbitrary: v a b)
  case 0
  then show ?case by simp
next
  case (Suc i)
  let ?A = "set (take a v)" and ?B = "set (take b s)"
  have last_v: "v ! (a - 1) \<notin> set (take (a - 1) v)" "\<forall>x\<in>set (take (a - 1) v). x < v ! (a - 1)" if "0 < a"
  proof -
    have "take (a - 1) (take a v) = take (a - 1) v" "take a v ! (a - 1) = v ! (a - 1)" "length (take a v) = a"
      using that Suc.prems(3,4) by (auto simp: min_def)
    then show "\<forall>x\<in>set (take (a - 1) v). x < v ! (a - 1)"
      using vs_ok_take_less [OF Suc.prems(1), of "a - 1"] that by auto
    then show "v ! (a - 1) \<notin> set (take (a - 1) v)" by auto
  qed
  have last_s: "s ! (b - 1) \<notin> set (take (b - 1) s)" "\<forall>x\<in>set (take (b - 1) s). x < s ! (b - 1)" if "0 < b"
  proof -
    have "b - 1 < length s" using Suc.prems(5) that by simp
    then show "\<forall>x\<in>set (take (b - 1) s). x < s ! (b - 1)"
      using vs_ok_take_less [OF Suc.prems(2)] by blast
    then show "s ! (b - 1) \<notin> set (take (b - 1) s)" by auto
  qed
  have A: "?A = insert (v ! (a - 1)) (set (take (a - 1) v))" if "0 < a"
    using take_Suc_last [OF that le_trans [OF Suc.prems(3,4)]] .
  have B: "?B = insert (s ! (b - 1)) (set (take (b - 1) s))" if "0 < b"
    using take_Suc_last [OF that Suc.prems(5)] .
  have step: "vs_merge_down (v[i := m]) s a' b' i = sorted_list_of_set (?A \<union> ?B) @ drop (Suc i) v"
    if m: "?A \<union> ?B = insert m (set (take a' v) \<union> set (take b' s))"
      and max: "\<forall>x\<in>set (take a' v) \<union> set (take b' s). x < m"
      and le: "a' \<le> a" "b' \<le> b" "a' \<le> i" for m a' b'
  proof -
    let ?U = "set (take a' v) \<union> set (take b' s)"
    have ok: "vs_ok (take a' (v[i := m]))"
      using sorted_wrt_take [OF Suc.prems(1), of a'] le by (simp add: min_def)
    have U: "set (take a' (v[i := m])) = set (take a' v)"
      using le by simp
    have "m \<notin> ?U" using max by blast
    then have "card ?U = i"
      using Suc.prems(6) m by (metis List.finite_set card_insert_disjoint diff_Suc_1 finite_UnI)
    then have "vs_merge_down (v[i := m]) s a' b' i = sorted_list_of_set ?U @ drop i (v[i := m])"
      using Suc.IH [of a' "v[i := m]" b'] ok U Suc.prems le by simp
    also have "drop i (v[i := m]) = m # drop (Suc i) v"
      using Suc.prems(4) by (simp add: drop_update_swap Cons_nth_drop_Suc [symmetric])
    also have "sorted_list_of_set ?U @ m # drop (Suc i) v = sorted_list_of_set (insert m ?U) @ drop (Suc i) v"
      using max by (simp add: sorted_list_of_set_insert_max)
    finally show ?thesis using m by simp
  qed
  have "b \<noteq> 0" if "a = 0"
    using that Suc.prems(6) by (intro notI) simp
  show ?case
  proof (cases "a = 0 \<or> (b \<noteq> 0 \<and> v ! (a - 1) < s ! (b - 1))")
    case True
    then have b: "0 < b" using \<open>a = 0 \<Longrightarrow> b \<noteq> 0\<close> by auto
    have "a \<le> i"
    proof (rule ccontr)
      assume "\<not> a \<le> i"
      then have "a = Suc i" using Suc.prems(3) by simp
      then have "card ?A = card (?A \<union> ?B)"
        using Suc.prems(1,4,6) distinct_card [of "take a v"] sorted_wrt_less_distinct by fastforce
      then have "?B \<subseteq> ?A"
        by (metis List.finite_set Un_upper1 Un_upper2 card_subset_eq finite_UnI)
      then show False
        using True \<open>a = Suc i\<close> A B b last_v by fastforce
    qed
    then show ?thesis
      using True step [of "s ! (b - 1)" a "b - 1"] B [OF b] A last_s [OF b] last_v by fastforce
  next
    case False
    then have a: "0 < a" by simp
    show ?thesis
    proof (cases "b \<noteq> 0 \<and> v ! (a - 1) = s ! (b - 1)")
      case True
      then show ?thesis
        using False step [of "v ! (a - 1)" "a - 1" "b - 1"] A [OF a] B last_s last_v [OF a] Suc.prems(3)
        by fastforce
    next
      case neq: False
      have "\<forall>x\<in>?B. x < v ! (a - 1)"
        using neq False B last_s by (cases "b = 0") (auto dest: order_less_trans)
      then have max: "\<forall>x\<in>set (take (a - 1) v) \<union> ?B. x < v ! (a - 1)"
        using last_v(2) [OF a] by blast
      have "a - 1 \<le> i" using Suc.prems(3) by simp
      then have "vs_merge_down (v[i := v ! (a - 1)]) s (a - 1) b i
          = sorted_list_of_set (?A \<union> ?B) @ drop (Suc i) v"
        using A [OF a] max by (intro step) auto
      moreover have "vs_merge_down v s a b (Suc i) = vs_merge_down (v[i := v ! (a - 1)]) s (a - 1) b i"
      proof -
        have "\<not> (a \<noteq> 0 \<and> b \<noteq> 0 \<and> v ! (a - 1) = s ! (b - 1))" using neq by blast
        then show ?thesis using False by (simp only: vs_merge_down.simps if_False)
      qed
      ultimately show ?thesis by simp
    qed
  qed
qed


lemma vs_count_new_spec:
  assumes "vs_ok v" "vs_ok s"
    and "\<forall>x\<in>set (drop b s). x \<notin> set (take a v)"
  shows "vs_count_new v s a b c = c + card (set (drop b s) - set v)"
  using assms
proof (induction v s a b c rule: vs_count_new.induct)
  case (1 v s a b c)
  have split: "set v = set (take a v) \<union> set (drop a v)"
    by (metis append_take_drop_id set_append)
  show ?case
  proof (cases "a < length v \<and> b < length s")
    case False
    have "set (drop b s) - set v = set (drop b s)"
      using False "1.prems"(3) by (cases "a < length v") auto
    moreover have "card (set (drop b s)) = length s - b"
      using distinct_card [of "drop b s"] sorted_wrt_less_distinct [OF "1.prems"(2)] by simp
    moreover have "vs_count_new v s a b c = c + (length s - b)"
      by (subst vs_count_new.simps) (simp only: False if_False)
    ultimately show ?thesis by simp
  next
    case True
    then have a: "a < length v" and b: "b < length s" by simp_all
    have drop_b: "set (drop b s) = insert (s ! b) (set (drop (Suc b) s))"
      by (rule set_drop_nth [OF b])
    have above: "\<forall>x\<in>set (drop (Suc b) s). s ! b < x"
      using vs_ok_drop_less [OF "1.prems"(2) b] by blast
    have take_a: "set (take (Suc a) v) = insert (v ! a) (set (take a v))"
      by (rule set_take_Suc [OF a])
    consider "v ! a < s ! b" | "v ! a = s ! b" | "s ! b < v ! a"
      by (rule linorder_cases)
    then show ?thesis
    proof cases
      case lt: 1
      have "\<forall>x\<in>set (drop b s). x \<notin> set (take (a + 1) v)"
        using "1.prems"(3) lt above by (auto simp: drop_b take_a dest: order_less_trans)
      then show ?thesis
        using "1.IH"(1) True lt "1.prems"(1,2) by (simp add: vs_count_new.simps [of v s a b c])
    next
      case eq: 2
      have "\<forall>x\<in>set (drop (b + 1) s). x \<notin> set (take (a + 1) v)"
        using "1.prems"(3) eq above by (auto simp: drop_b take_a)
      moreover have "set (drop b s) - set v = set (drop (b + 1) s) - set v"
        using eq nth_mem [OF a] by (auto simp: drop_b)
      ultimately show ?thesis
        using "1.IH"(2) True eq "1.prems"(1,2) by (simp add: vs_count_new.simps [of v s a b c])
    next
      case gt: 3
      have "s ! b \<notin> set (drop a v)"
        using gt vs_ok_drop_less [OF "1.prems"(1) a] by (auto simp: set_drop_nth [OF a] dest: order_less_trans)
      then have new: "s ! b \<notin> set v"
        using "1.prems"(3) drop_b split by auto
      have "\<forall>x\<in>set (drop (b + 1) s). x \<notin> set (take a v)"
        using "1.prems"(3) by (auto simp: drop_b)
      moreover have "card (set (drop b s) - set v) = Suc (card (set (drop (b + 1) s) - set v))"
        using new above by (auto simp: drop_b insert_Diff_if)
      ultimately show ?thesis
        using "1.IH"(3) True less_not_sym [OF gt] less_imp_neq [OF gt] "1.prems"(1,2)
        by (simp add: vs_count_new.simps [of v s a b c])
    qed
  qed
qed

lemma vs_insert_all_eq:
  assumes "vs_ok v" "vs_ok s"
  shows "vs_insert_all v s = (sorted_list_of_set (set v \<union> set s), card (set s - set v))"
proof -
  have id: "sorted_list_of_set (set v) = v"
    using assms(1) by (intro strict_sorted_unique) (simp_all add: vs_ok_sorted_list_of_set)
  consider "length s = 0" | "length s = 1" | "length s > 1" by linarith
  then show ?thesis
  proof cases
    case 1
    then show ?thesis using id by (simp add: vs_insert_all_def)
  next
    case 2
    then obtain x where s: "s = [x]" by (auto simp: length_Suc_conv)
    have "fst (vs_insert v x) = sorted_list_of_set (set v \<union> {x})"
      by (rule strict_sorted_unique)
         (simp_all only: vs_insert_ok vs_insert_set assms(1) vs_ok_sorted_list_of_set
            set_sorted_list_of_set finite_UnI List.finite_set finite.intros Un_insert_right Un_empty_right)
    moreover have "card ({x} - set v) = (if snd (snd (vs_insert v x)) then 1 else 0)"
      by (simp add: vs_insert_new_iff [OF assms(1)] insert_Diff_if)
    ultimately show ?thesis
      by (cases "vs_insert v x") (simp add: vs_insert_all_def s)
  next
    case 3
    let ?c = "card (set s - set v)"
    have c: "vs_count_new v s 0 0 0 = ?c"
      using vs_count_new_spec [OF assms, of 0 0 0] by simp
    show ?thesis
    proof (cases "?c = 0")
      case True
      then have "set v \<union> set s = set v" by auto
      then show ?thesis using 3 c True id by (simp add: vs_insert_all_def)
    next
      case False
      let ?w = "resize (length v + ?c) (s ! 0) v"
      have w: "take (length v) ?w = v" "length ?w = length v + ?c"
        by (simp_all add: resize_def)
      have "card (set v \<union> set s) = card (set v \<union> (set s - set v))" by simp
      also have "\<dots> = card (set v) + ?c" by (rule card_Un_disjoint) auto
      also have "card (set v) = length v"
        using assms(1) by (simp add: distinct_card sorted_wrt_less_distinct)
      finally have "vs_merge_down ?w s (length v) (length s) (length v + ?c)
          = sorted_list_of_set (set v \<union> set s)"
        using vs_merge_down_spec [of "length v" ?w s "length v + ?c" "length s"] assms w by simp
      then show ?thesis
        using 3 c False by (auto simp: vs_insert_all_def Let_def card_gt_0_iff)
    qed
  qed
qed

section \<open>Erasure\<close>

lemma length_vs_shift_down [simp]: "length (vs_shift_down v j) = length v"
proof (induction v j rule: vs_shift_down.induct)
  case (1 v j)
  then show ?case by (cases "j < length v - 1") (simp_all add: vs_shift_down.simps [of v j])
qed

lemma nth_vs_shift_down:
  "k < length v - 1 \<Longrightarrow> vs_shift_down v j ! k = (if j \<le> k then v ! Suc k else v ! k)"
proof (induction v j rule: vs_shift_down.induct)
  case (1 v j)
  show ?case
  proof (cases "j < length v - 1")
    case True
    then have "vs_shift_down v j ! k
        = (if Suc j \<le> k then v[j := v ! Suc j] ! Suc k else v[j := v ! Suc j] ! k)"
      using 1 by (simp add: vs_shift_down.simps [of v j])
    also have "\<dots> = (if j \<le> k then v ! Suc k else v ! k)"
      using True by (cases "j = k") (auto simp: nth_list_update)
    finally show ?thesis .
  next
    case False
    then show ?thesis
      using "1.prems" by (simp add: vs_shift_down.simps [of v j])
  qed
qed

lemma vs_erase_eq:
  assumes "vs_ok v"
  shows "vs_erase v t = (filter (\<lambda>x. x \<noteq> t) v, if t \<in> set v then 1 else 0)"
proof (cases "t \<in> set v")
  case False
  then have "filter (\<lambda>x. x \<noteq> t) v = v"
    by (auto simp: filter_id_conv)
  then show ?thesis
    using False vs_find_geq_hit [OF assms, of t] by (auto simp: vs_erase_def Let_def)
next
  case True
  let ?i = "vs_find_geq v t"
  have i: "?i < length v" "v ! ?i = t"
    using True vs_find_geq_hit [OF assms, of t] by simp_all
  have "resize (length v - 1) t (vs_shift_down v ?i) = take ?i v @ drop (Suc ?i) v"
  proof (rule nth_equalityI)
    show "length (resize (length v - 1) t (vs_shift_down v ?i)) = length (take ?i v @ drop (Suc ?i) v)"
      using i(1) by simp
    fix k
    assume "k < length (resize (length v - 1) t (vs_shift_down v ?i))"
    then have k: "k < length v - 1" by simp
    then show "resize (length v - 1) t (vs_shift_down v ?i) ! k = (take ?i v @ drop (Suc ?i) v) ! k"
      using i(1) by (cases "?i \<le> k") (auto simp: nth_resize nth_vs_shift_down nth_append)
  qed
  also have "\<dots> = filter (\<lambda>x. x \<noteq> t) v"
  proof -
    have "filter (\<lambda>x. x \<noteq> t) (take ?i v) = take ?i v"
      using vs_ok_take_less [OF assms i(1)] i(2) by (auto simp: filter_id_conv)
    moreover have "filter (\<lambda>x. x \<noteq> t) (drop (Suc ?i) v) = drop (Suc ?i) v"
      using vs_ok_drop_less [OF assms i(1)] i(2) by (auto simp: filter_id_conv)
    moreover have "filter (\<lambda>x. x \<noteq> t) v
        = filter (\<lambda>x. x \<noteq> t) (take ?i v) @ filter (\<lambda>x. x \<noteq> t) (drop (Suc ?i) v)"
      by (subst id_take_nth_drop [OF i(1)]) (simp add: i(2))
    ultimately show ?thesis by simp
  qed
  finally show ?thesis
    using True i by (simp add: vs_erase_def Let_def)
qed


lemma vs_erase_loop_spec:
  assumes "vs_ok v0" "vs_ok s" "length v = length v0" "a \<le> length v0" "ains \<le> a"
    and "drop a v = drop a v0"
    and "take ains v = filter (\<lambda>x. x \<notin> set s) (take a v0)"
    and "\<forall>x\<in>set (drop a v0). \<forall>y\<in>set (take b s). y < x"
    and "e = a - ains"
    and "vs_erase_loop v s a b ains e = (v', a', ains', e')"
  shows "length v' = length v0 \<and> a' \<le> length v0 \<and> ains' \<le> a' \<and> drop a' v' = drop a' v0
    \<and> take ains' v' = filter (\<lambda>x. x \<notin> set s) (take a' v0)
    \<and> (\<forall>x\<in>set (drop a' v0). x \<notin> set s) \<and> e' = a' - ains'"
  using assms
proof (induction v s a b ains e rule: vs_erase_loop.induct)
  case (1 v s a b ains e)
  have split: "set s = set (take b s) \<union> set (drop b s)"
    by (metis append_take_drop_id set_append)
  show ?case
  proof (cases "a < length v \<and> b < length s")
    case False
    then have "(v', a', ains', e') = (v, a, ains, e)"
      using "1.prems"(10) by (subst (asm) vs_erase_loop.simps) (simp only: if_False)
    moreover have "\<forall>x\<in>set (drop a v0). x \<notin> set s"
      using False "1.prems"(3,8) by (cases "a < length v0") auto
    ultimately show ?thesis using "1.prems" by simp
  next
    case True
    then have a: "a < length v0" and b: "b < length s" using "1.prems"(3) by simp_all
    have va: "v ! a = v0 ! a"
      using "1.prems"(3,6) a by (metis hd_drop_conv_nth)
    have take_a: "take (Suc a) v0 = take a v0 @ [v0 ! a]"
      by (rule take_Suc_conv_app_nth [OF a])
    have lo: "\<forall>y\<in>set (take b s). y < v0 ! a"
      using "1.prems"(8) by (simp add: set_drop_nth [OF a])
    have hi: "\<forall>y\<in>set (drop (Suc b) s). s ! b < y"
      using vs_ok_drop_less [OF "1.prems"(2) b] by blast
    have above: "\<forall>x\<in>set (drop (Suc a) v0). v0 ! a < x"
      using vs_ok_drop_less [OF "1.prems"(1) a] by blast
    have rest: "drop (Suc a) w = drop (Suc a) v0" if "drop a w = drop a v0" for w
      using that by (metis drop_Suc tl_drop)
    consider "v ! a = s ! b" | "v ! a < s ! b" | "s ! b < v ! a"
      by (metis linorder_cases)
    then show ?thesis
    proof cases
      case eq: 1
      have f: "take ains v = filter (\<lambda>x. x \<notin> set s) (take (a + 1) v0)"
        using eq va nth_mem [OF b] "1.prems"(7) by (simp add: take_a)
      have d: "\<forall>x\<in>set (drop (a + 1) v0). \<forall>y\<in>set (take (b + 1) s). y < x"
        using above lo eq va by (auto simp: set_take_Suc [OF b] dest: order_less_trans)
      have l: "vs_erase_loop v s (a + 1) (b + 1) ains (e + 1) = (v', a', ains', e')"
        using "1.prems"(10) True eq by (subst (asm) vs_erase_loop.simps) simp
      have n: "a + 1 \<le> length v0" "ains \<le> a + 1" "e + 1 = a + 1 - ains"
        using a "1.prems"(5,9) by simp_all
      have r: "drop (a + 1) v = drop (a + 1) v0"
        using rest [OF "1.prems"(6)] by simp
      show ?thesis
        by (rule "1.IH"(1) [OF True eq "1.prems"(1-3) n(1,2) r f d n(3) l])
    next
      case lt: 2
      let ?w = "if ains \<noteq> a then v[ains := v ! a] else v"
      have "v0 ! a \<notin> set (take b s)"
        using lo by blast
      moreover have "v0 ! a \<notin> set (drop b s)"
        using lt va hi by (auto simp: set_drop_nth [OF b] dest: order_less_asym)
      ultimately have "v0 ! a \<notin> set s"
        using split by blast
      then have "filter (\<lambda>x. x \<notin> set s) (take (a + 1) v0) = filter (\<lambda>x. x \<notin> set s) (take a v0) @ [v0 ! a]"
        by (simp add: take_a)
      moreover have "take (ains + 1) ?w = take ains v @ [v0 ! a]"
        using "1.prems"(3,5) a va by (auto simp: take_Suc_conv_app_nth)
      ultimately have f: "take (ains + 1) ?w = filter (\<lambda>x. x \<notin> set s) (take (a + 1) v0)"
        using "1.prems"(7) by simp
      have r: "drop (a + 1) ?w = drop (a + 1) v0"
        using rest [OF "1.prems"(6)] "1.prems"(5) by simp
      have d: "\<forall>x\<in>set (drop (a + 1) v0). \<forall>y\<in>set (take b s). y < x"
        using "1.prems"(8) by (simp add: set_drop_nth [OF a])
      have l: "vs_erase_loop ?w s (a + 1) b (ains + 1) e = (v', a', ains', e')"
        using "1.prems"(10) True lt less_imp_neq [OF lt] by (subst (asm) vs_erase_loop.simps) simp
      have n: "length ?w = length v0" "a + 1 \<le> length v0" "ains + 1 \<le> a + 1" "e = a + 1 - (ains + 1)"
        using a "1.prems"(3,5,9) by simp_all
      show ?thesis
        by (rule "1.IH"(2) [OF True less_imp_neq [OF lt] lt "1.prems"(1,2) n(1-3) r f d n(4) l])
    next
      case gt: 3
      have d: "\<forall>x\<in>set (drop a v0). \<forall>y\<in>set (take (b + 1) s). y < x"
        using "1.prems"(8) gt va above by (auto simp: set_take_Suc [OF b] set_drop_nth [OF a] dest: order_less_trans)
      have l: "vs_erase_loop v s a (b + 1) ains e = (v', a', ains', e')"
        using "1.prems"(10) True less_not_sym [OF gt] less_imp_neq [OF gt] by (subst (asm) vs_erase_loop.simps) simp
      show ?thesis
        by (rule "1.IH"(3) [OF True less_imp_neq [OF gt, symmetric] less_not_sym [OF gt] "1.prems"(1-7) d "1.prems"(9) l])
    qed
  qed
qed

lemma vs_move_rest_spec:
  assumes "vs_move_rest v a ains = (v', n)" "ains < a" "a \<le> length v"
  shows "length v' = length v \<and> n = ains + (length v - a) \<and> take n v' = take ains v @ drop a v"
  using assms
proof (induction v a ains rule: vs_move_rest.induct)
  case (1 v a ains)
  show ?case
  proof (cases "a < length v")
    case False
    then have "(v', n) = (v, ains)"
      using "1.prems"(1) by (subst (asm) vs_move_rest.simps) (simp only: if_False)
    then show ?thesis
      using False "1.prems" by simp
  next
    case True
    have "vs_move_rest (v[ains := v ! a]) (a + 1) (ains + 1) = (v', n)"
      using "1.prems"(1) True by (simp add: vs_move_rest.simps [of v a ains])
    then have ih: "length v' = length (v[ains := v ! a])
        \<and> n = ains + 1 + (length (v[ains := v ! a]) - (a + 1))
        \<and> take n v' = take (ains + 1) (v[ains := v ! a]) @ drop (a + 1) (v[ains := v ! a])"
      by (rule "1.IH" [OF True]) (use True "1.prems"(2) in simp_all)
    have "take (ains + 1) (v[ains := v ! a]) @ drop (a + 1) (v[ains := v ! a]) = take ains v @ drop a v"
      using True "1.prems"(2) by (simp add: take_Suc_conv_app_nth Cons_nth_drop_Suc)
    then have "take n v' = take ains v @ drop a v"
      using ih by metis
    moreover have "length v' = length v" "n = ains + (length v - a)"
      using ih True by simp_all
    ultimately show ?thesis by blast
  qed
qed

lemma vs_erase_all_eq:
  assumes "vs_ok v" "vs_ok s"
  shows "vs_erase_all v s = (filter (\<lambda>x. x \<notin> set s) v, card (set v \<inter> set s))"
proof (cases "v = [] \<or> s = []")
  case True
  then show ?thesis by (auto simp: vs_erase_all_def)
next
  case False
  obtain v1 a ains e where loop: "vs_erase_loop v s 0 0 0 0 = (v1, a, ains, e)"
    by (metis prod_cases4)
  let ?f = "filter (\<lambda>x. x \<notin> set s)"
  have inv: "length v1 = length v" "a \<le> length v" "ains \<le> a" "drop a v1 = drop a v"
      "take ains v1 = ?f (take a v)" "\<forall>x\<in>set (drop a v). x \<notin> set s" "e = a - ains"
    using vs_erase_loop_spec [OF assms, of v 0 0 0 0 v1 a ains e] loop by auto
  have rest: "?f (drop a v) = drop a v"
    using inv(6) by (auto simp: filter_id_conv)
  have f: "?f v = take ains v1 @ drop a v"
    by (metis append_take_drop_id filter_append inv(5) rest)
  have "length (?f v) = ains + (length v - a)"
    using f inv(1,2,3) by simp
  moreover have "card (set v \<inter> set s) + length (?f v) = length v"
  proof -
    have "card (set v) = card (set v \<inter> set s) + card (set v - set s)"
      by (rule card_Int_Diff) simp
    moreover have "card (set v - set s) = length (?f v)"
      using distinct_card [of "?f v"] sorted_wrt_less_distinct [OF assms(1)]
      by (simp add: set_diff_eq Collect_conj_eq)
    ultimately show ?thesis
      using distinct_card [OF sorted_wrt_less_distinct [OF assms(1)]] by simp
  qed
  ultimately have e: "e = card (set v \<inter> set s)"
    using inv(2,3,7) by simp
  show ?thesis
  proof (cases "ains = a")
    case True
    then have "v1 = ?f v"
      using f inv(4) by (metis append_take_drop_id)
    then show ?thesis
      using False True loop e by (simp add: vs_erase_all_def)
  next
    case less: False
    obtain v2 n where move: "vs_move_rest v1 a ains = (v2, n)"
      by (metis prod.exhaust)
    have n: "length v2 = length v1 \<and> n = ains + (length v1 - a) \<and> take n v2 = take ains v1 @ drop a v1"
      using less inv by (intro vs_move_rest_spec [OF move]) auto
    then have "resize n (v2 ! 0) v2 = take n v2"
      using inv by (intro resize_shrink) linarith
    also have "\<dots> = ?f v"
      using n f inv(4) by metis
    finally have "resize n (v2 ! 0) v2 = ?f v" .
    then show ?thesis
      using False less loop move e by (simp add: vs_erase_all_def)
  qed
qed


section \<open>Comparison\<close>

lemma vs_intersects_loop_iff:
  assumes "vs_ok v" "vs_ok s"
  shows "vs_intersects_loop v s a b \<longleftrightarrow> set (drop a v) \<inter> set (drop b s) \<noteq> {}"
  using assms
proof (induction v s a b rule: vs_intersects_loop.induct)
  case (1 v s a b)
  show ?case
  proof (cases "a < length v \<and> b < length s")
    case False
    then have "vs_intersects_loop v s a b = False"
      by (subst vs_intersects_loop.simps) (simp only: if_False)
    moreover have "drop a v = [] \<or> drop b s = []" using False by auto
    ultimately show ?thesis by auto
  next
    case True
    then have a: "a < length v" and b: "b < length s" by simp_all
    note drops = set_drop_nth [OF a] set_drop_nth [OF b]
    note up = vs_ok_drop_less [OF "1.prems"(1) a] vs_ok_drop_less [OF "1.prems"(2) b]
    consider "v ! a < s ! b" | "v ! a = s ! b" | "s ! b < v ! a"
      by (rule linorder_cases)
    then show ?thesis
    proof cases
      case lt: 1
      have "vs_intersects_loop v s a b = vs_intersects_loop v s (a + 1) b"
        using True lt by (simp add: vs_intersects_loop.simps [of v s a b])
      moreover have "v ! a \<notin> set (drop b s)"
        using lt up(2) by (auto simp: drops dest: order_less_asym)
      ultimately show ?thesis
        using "1.IH"(1) [OF True lt "1.prems"] by (simp add: drops(1))
    next
      case eq: 2
      then show ?thesis
        using True by (simp add: vs_intersects_loop.simps [of v s a b] drops)
    next
      case gt: 3
      have "vs_intersects_loop v s a b = vs_intersects_loop v s a (b + 1)"
        using True less_not_sym [OF gt] less_imp_neq [OF gt] by (simp add: vs_intersects_loop.simps [of v s a b])
      moreover have "s ! b \<notin> set (drop a v)"
        using gt up(1) by (auto simp: drops dest: order_less_asym)
      ultimately show ?thesis
        using "1.IH"(2) [OF True less_not_sym [OF gt] less_imp_neq [OF gt, symmetric] "1.prems"]
        by (simp add: drops(2))
    qed
  qed
qed

lemma vs_intersects_iff: "vs_ok v \<Longrightarrow> vs_ok s \<Longrightarrow> vs_intersects v s \<longleftrightarrow> set v \<inter> set s \<noteq> {}"
  by (simp add: vs_intersects_def vs_intersects_loop_iff)

lemma vs_subset_card:
  assumes "vs_ok v" "vs_ok s" "set (drop a v) \<subseteq> set (drop b s)"
  shows "length v - a \<le> length s - b"
proof -
  have "card (set (drop a v)) \<le> card (set (drop b s))"
    using assms(3) by (simp add: card_mono)
  then show ?thesis
    using assms(1,2) by (simp add: distinct_card sorted_wrt_less_distinct)
qed

lemma vs_subset_loop_iff:
  assumes "vs_ok v" "vs_ok s" "b \<le> length s"
  shows "vs_subset_loop v s a b \<longleftrightarrow> set (drop a v) \<subseteq> set (drop b s)"
  using assms
proof (induction v s a b rule: vs_subset_loop.induct)
  case (1 v s a b)
  show ?case
  proof (cases "a < length v")
    case False
    then show ?thesis by (simp add: vs_subset_loop.simps [of v s a b])
  next
    case a: True
    show ?thesis
    proof (cases "int (length v) - int a > int (length s) - int b")
      case True
      then have "\<not> length v - a \<le> length s - b"
        using a "1.prems"(3) by linarith
      then have "\<not> set (drop a v) \<subseteq> set (drop b s)"
        using vs_subset_card [OF "1.prems"(1,2)] by blast
      then show ?thesis
        using a True by (simp add: vs_subset_loop.simps [of v s a b])
    next
      case len: False
      then have b: "b < length s" using a by linarith
      note drops = set_drop_nth [OF a] set_drop_nth [OF b]
      note up = vs_ok_drop_less [OF "1.prems"(1) a] vs_ok_drop_less [OF "1.prems"(2) b]
      consider "v ! a < s ! b" | "v ! a = s ! b" | "s ! b < v ! a"
        by (rule linorder_cases)
      then show ?thesis
      proof cases
        case lt: 1
        have "v ! a \<notin> set (drop b s)"
          using lt up(2) by (auto simp: drops dest: order_less_asym)
        then show ?thesis
          using a len lt by (simp add: vs_subset_loop.simps [of v s a b] drops(1))
      next
        case eq: 2
        have "vs_subset_loop v s a b = vs_subset_loop v s (a + 1) (b + 1)"
          using a len eq by (simp add: vs_subset_loop.simps [of v s a b])
        also have "\<dots> \<longleftrightarrow> set (drop (a + 1) v) \<subseteq> set (drop (b + 1) s)"
          using b by (intro "1.IH"(1) [OF a len _ eq "1.prems"(1,2)]) (simp_all add: eq)
        also have "\<dots> \<longleftrightarrow> set (drop a v) \<subseteq> set (drop b s)"
          using up eq by (auto simp: drops)
        finally show ?thesis .
      next
        case gt: 3
        have "vs_subset_loop v s a b = vs_subset_loop v s a (b + 1)"
          using a len less_not_sym [OF gt] less_imp_neq [OF gt]
          by (simp add: vs_subset_loop.simps [of v s a b])
        also have "\<dots> \<longleftrightarrow> set (drop a v) \<subseteq> set (drop (b + 1) s)"
          using b by (intro "1.IH"(2) [OF a len less_not_sym [OF gt] less_imp_neq [OF gt, symmetric] "1.prems"(1,2)]) simp
        also have "\<dots> \<longleftrightarrow> set (drop a v) \<subseteq> set (drop b s)"
          using up(1) gt by (auto simp: drops dest: order_less_asym)
        finally show ?thesis .
      qed
    qed
  qed
qed

lemma vs_subset_of_iff:
  assumes "vs_ok v" "vs_ok s"
  shows "vs_subset_of v s \<longleftrightarrow> set v \<subseteq> set s"
  using vs_subset_loop_iff [OF assms, of 0 0] vs_subset_card [OF assms, of 0 0]
  by (auto simp: vs_subset_of_def)

section \<open>The set interface\<close>

text \<open>
  What the clients of \<open>VecSet\<close> rely on: a representation with an invariant, whose operations
  act on the represented set and report what they changed.
\<close>

locale finite_set_impl =
  fixes empty :: "'s"
    and ins :: "'s \<Rightarrow> 'a \<Rightarrow> 's"
    and union :: "'s \<Rightarrow> 's \<Rightarrow> 's \<times> nat"
    and diff :: "'s \<Rightarrow> 's \<Rightarrow> 's \<times> nat"
    and mem :: "'s \<Rightarrow> 'a \<Rightarrow> bool"
    and subset :: "'s \<Rightarrow> 's \<Rightarrow> bool"
    and meets :: "'s \<Rightarrow> 's \<Rightarrow> bool"
    and abs :: "'s \<Rightarrow> 'a set"
    and inv :: "'s \<Rightarrow> bool"
  assumes empty: "inv empty" "abs empty = {}"
    and finite_abs: "inv s \<Longrightarrow> finite (abs s)"
    and ins: "inv s \<Longrightarrow> inv (ins s x)" "inv s \<Longrightarrow> abs (ins s x) = insert x (abs s)"
    and union: "inv s \<Longrightarrow> inv t \<Longrightarrow> inv (fst (union s t))"
      "inv s \<Longrightarrow> inv t \<Longrightarrow> abs (fst (union s t)) = abs s \<union> abs t"
      "inv s \<Longrightarrow> inv t \<Longrightarrow> snd (union s t) = card (abs t - abs s)"
    and diff: "inv s \<Longrightarrow> inv t \<Longrightarrow> inv (fst (diff s t))"
      "inv s \<Longrightarrow> inv t \<Longrightarrow> abs (fst (diff s t)) = abs s - abs t"
      "inv s \<Longrightarrow> inv t \<Longrightarrow> snd (diff s t) = card (abs s \<inter> abs t)"
    and mem: "inv s \<Longrightarrow> mem s x \<longleftrightarrow> x \<in> abs s"
    and subset: "inv s \<Longrightarrow> inv t \<Longrightarrow> subset s t \<longleftrightarrow> abs s \<subseteq> abs t"
    and meets: "inv s \<Longrightarrow> inv t \<Longrightarrow> meets s t \<longleftrightarrow> abs s \<inter> abs t \<noteq> {}"
begin

lemma diff_disjoint: "inv s \<Longrightarrow> inv t \<Longrightarrow> \<not> meets (fst (diff s t)) t"
  by (auto simp: meets diff)

lemma union_upper: "inv s \<Longrightarrow> inv t \<Longrightarrow> subset s (fst (union s t)) \<and> subset t (fst (union s t))"
  by (auto simp: subset union)

lemma diff_union_cancel:
  "inv s \<Longrightarrow> inv t \<Longrightarrow> \<not> meets s t \<Longrightarrow> abs (fst (diff (fst (union s t)) t)) = abs s"
  by (auto simp: meets diff union)

lemma counts_agree:
  assumes "inv s" "inv t"
  shows "snd (union s t) + snd (diff t s) = card (abs t)"
proof -
  have "card (abs t \<inter> abs s) + card (abs t - abs s) = card (abs t)"
    using card_Int_Diff [OF finite_abs [OF assms(2)], of "abs s"] by simp
  then show ?thesis using assms by (simp add: union diff)
qed

end

interpretation vsi: finite_set_impl "[]" "\<lambda>v t. fst (vs_insert v t)" vs_insert_all vs_erase_all
    "\<lambda>v t. vs_count v t = 1" vs_subset_of vs_intersects set
    "vs_ok :: 'a::linorder vec_set \<Rightarrow> bool"
proof (unfold_locales, goal_cases)
  case (8 s t)
  then show ?case by (simp add: vs_insert_all_eq)
qed (auto simp: vs_insert_ok vs_insert_set vs_insert_all_eq vs_ok_sorted_list_of_set
  vs_erase_all_eq sorted_wrt_filter vs_count_iff vs_subset_of_iff vs_intersects_iff)

section \<open>Properties\<close>

text \<open>inserting keeps the vector strictly increasing, adds exactly the element, reports
  whether it was new, and returns the index at which it now stands; binary search then finds it
  there.\<close>

theorem vs_insert_correct:
  assumes "vs_check_invariant v"
  shows "case vs_insert v t of (v', i, new) \<Rightarrow>
    vs_check_invariant v' \<and> set v' = insert t (set v) \<and> (new \<longleftrightarrow> t \<notin> set v) \<and>
    length v' = length v + (if new then 1 else 0) \<and> i < length v' \<and> v' ! i = t \<and> vs_find v' t = int i"
proof -
  have ok: "vs_ok v" using assms by (simp add: vs_check_invariant_iff)
  obtain v' i new where r: "vs_insert v t = (v', i, new)" by (cases "vs_insert v t")
  have ok': "vs_ok v'" and s: "set v' = insert t (set v)" and n: "new \<longleftrightarrow> t \<notin> set v"
    and i: "i < length v'" "v' ! i = t"
    using vs_insert_ok [OF ok, of t] vs_insert_set [OF ok, of t] vs_insert_new_iff [OF ok, of t]
      vs_insert_index [OF ok, of t] r by simp_all
  have hit: "vs_find_geq v' t < length v'" "v' ! vs_find_geq v' t = t"
    using vs_find_geq_hit [OF ok', of t] s by simp_all
  hence "vs_find_geq v' t = i"
    using sorted_wrt_less_nth_eq_iff [OF ok' hit(1) i(1)] i(2) by simp
  moreover have "length v' = length v + (if new then 1 else 0)"
    using distinct_card [OF sorted_wrt_less_distinct [OF ok]] distinct_card [OF sorted_wrt_less_distinct [OF ok']] s n
    by (auto simp: card_insert_if split: if_splits)
  ultimately show ?thesis
    using r ok' s n i hit by (simp add: vs_check_invariant_iff vs_find_def)
qed

theorem vs_insert_correct_witness:
  "set (fst (vs_insert [1, 4, 9] (6 :: nat))) = {1, 4, 6, 9} \<and> vs_find [1, 4, 9] (4 :: nat) = 1"
proof -
  have "vs_check_invariant [1, 4, 9 :: nat]"
    by (simp add: vs_check_invariant_def numeral_2_eq_2)
  from vs_insert_correct [OF this, of 6] vs_insert_correct [OF this, of 4] show ?thesis
    by (auto simp: vs_find_def vs_find_geq_def vs_find_geq_loop.simps split: prod.splits)
qed

text \<open>C39: \<open>insert(S)\<close>, which counts the new elements and then merges from the back in place,
  computes the sorted vector of the union, and \<open>erase(S)\<close>, which compacts in place, the
  difference; both return the number of elements that came or went.\<close>

theorem vs_bulk_operations:
  assumes "vs_check_invariant v" "vs_check_invariant s"
  shows "vs_insert_all v s = (sorted_list_of_set (set v \<union> set s), card (set s - set v)) \<and>
    vs_erase_all v s = (filter (\<lambda>x. x \<notin> set s) v, card (set v \<inter> set s)) \<and>
    fst (vs_erase_all (fst (vs_insert_all v s)) s) = filter (\<lambda>x. x \<notin> set s) v"
proof -
  have ok: "vs_ok v" "vs_ok s" using assms by (simp_all add: vs_check_invariant_iff)
  have u: "vs_ok (fst (vs_insert_all v s))" using vsi.union(1) [OF ok] .
  have "fst (vs_erase_all (fst (vs_insert_all v s)) s) = filter (\<lambda>x. x \<notin> set s) (fst (vs_insert_all v s))"
    by (simp add: vs_erase_all_eq [OF u ok(2)])
  also have "\<dots> = filter (\<lambda>x. x \<notin> set s) v"
    by (rule sorted_distinct_set_unique)
      (use u ok vsi.union(2) [OF ok] in \<open>auto simp: strict_sorted_iff distinct_filter intro: sorted_filter [where f = id, simplified]\<close>)
  finally show ?thesis by (simp add: vs_insert_all_eq [OF ok] vs_erase_all_eq [OF ok])
qed

theorem vs_bulk_operations_witness:
  "vs_erase_all [1, 3, 5 :: nat] [3, 4] = ([1, 5], 1)"
proof -
  have "vs_check_invariant [1, 3, 5 :: nat]" "vs_check_invariant [3, 4 :: nat]"
    by (simp_all add: vs_check_invariant_def numeral_2_eq_2)
  from vs_bulk_operations [OF this] show ?thesis by simp
qed

text \<open>the two-pointer loops \<open>subset_of\<close> and \<open>intersects\<close> and the lookup \<open>count\<close> decide
  inclusion, non-empty intersection and membership.\<close>

theorem vs_comparisons:
  assumes "vs_check_invariant v" "vs_check_invariant s"
  shows "(vs_subset_of v s \<longleftrightarrow> set v \<subseteq> set s) \<and> (vs_intersects v s \<longleftrightarrow> set v \<inter> set s \<noteq> {}) \<and>
    (vs_count v x = 1 \<longleftrightarrow> x \<in> set v) \<and> \<not> vs_intersects (fst (vs_erase_all v s)) s"
proof -
  have ok: "vs_ok v" "vs_ok s" using assms by (simp_all add: vs_check_invariant_iff)
  show ?thesis
    using vsi.subset [OF ok] vsi.meets [OF ok] vsi.mem [OF ok(1)] vsi.diff_disjoint [OF ok] by simp
qed

theorem vs_comparisons_witness: "vs_subset_of [2, 7] [1, 2, 7 :: nat] \<and> \<not> vs_intersects [2 :: nat] [1, 7]"
proof -
  have i: "vs_check_invariant [2, 7 :: nat]" "vs_check_invariant [1, 2, 7 :: nat]"
    "vs_check_invariant [2 :: nat]" "vs_check_invariant [1, 7 :: nat]"
    by (simp_all add: vs_check_invariant_def numeral_2_eq_2)
  show ?thesis
    using vs_comparisons [OF i(1,2)] vs_comparisons [OF i(3,4)] by simp
qed

end
