(* ===== verification/Iid.thy ===== *)
theory Iid
  imports Prelude "HOL-Library.Word"
begin

unbundle bit_operations_syntax

text \<open>
  \<open>IID<Pid_t>\<close> (src/src/IID.h, IID.tcc): the identifier \<open>(pid, idx)\<close> of an event. The
  template is polymorphic in the process identifier; \<open>IID<int>\<close> has its own comparisons,
  which go through one packed 64-bit value.
\<close>

section \<open>The class\<close>

datatype 'p iid = IID (iid_pid: 'p) (iid_idx: nat)

definition iid_valid :: "'p iid \<Rightarrow> bool" where
  "iid_valid i = (iid_idx i > 0)"

definition iid_is_null :: "'p iid \<Rightarrow> bool" where
  "iid_is_null i = (iid_idx i = 0)"

definition iid_null :: "int iid" where
  "iid_null = IID 0 0"

definition iid_make :: "'p \<Rightarrow> int \<Rightarrow> 'p iid result" where
  "iid_make p i = assert_r (i \<ge> 0) (Inr (IID p (nat i)))"

definition iid_incr :: "'p iid \<Rightarrow> 'p iid" where
  "iid_incr i = IID (iid_pid i) (iid_idx i + 1)"

definition iid_decr :: "'p iid \<Rightarrow> 'p iid result" where
  "iid_decr i = assert_r (iid_idx i > 0) (Inr (IID (iid_pid i) (iid_idx i - 1)))"

definition iid_plus :: "'p iid \<Rightarrow> int \<Rightarrow> 'p iid result" where
  "iid_plus i d = iid_make (iid_pid i) (int (iid_idx i) + d)"

definition iid_minus :: "'p iid \<Rightarrow> int \<Rightarrow> 'p iid result" where
  "iid_minus i d = iid_make (iid_pid i) (int (iid_idx i) - d)"

definition iid_to_string :: "int iid \<Rightarrow> string" where
  "iid_to_string i =
     (if iid_is_null i then ''null''
      else ''('' @ dec_int (iid_pid i) @ '','' @ dec_nat (iid_idx i) @ '')'')"

subsection \<open>The generic comparisons\<close>

definition iid_eq :: "'p iid \<Rightarrow> 'p iid \<Rightarrow> bool" where
  "iid_eq a b = (iid_idx a = iid_idx b \<and> iid_pid a = iid_pid b)"

definition iid_less :: "'p::linorder iid \<Rightarrow> 'p iid \<Rightarrow> bool" where
  "iid_less a b = (iid_pid a < iid_pid b \<or> (iid_pid a = iid_pid b \<and> iid_idx a < iid_idx b))"

definition iid_leq :: "'p::linorder iid \<Rightarrow> 'p iid \<Rightarrow> bool" where
  "iid_leq a b = (iid_less a b \<or> iid_eq a b)"

text \<open>They are the order of the type class.\<close>

instantiation iid :: (linorder) linorder
begin

definition less_iid :: "'a iid \<Rightarrow> 'a iid \<Rightarrow> bool" where
  "less_iid = iid_less"

definition less_eq_iid :: "'a iid \<Rightarrow> 'a iid \<Rightarrow> bool" where
  "less_eq_iid = iid_leq"

instance
proof
  fix x y z :: "'a iid"
  show "(x < y) = (x \<le> y \<and> \<not> y \<le> x)"
    by (auto simp: less_iid_def less_eq_iid_def iid_less_def iid_leq_def iid_eq_def)
  show "x \<le> x"
    by (simp add: less_eq_iid_def iid_leq_def iid_eq_def)
  show "x \<le> y \<Longrightarrow> y \<le> z \<Longrightarrow> x \<le> z"
    by (auto simp: less_iid_def less_eq_iid_def iid_less_def iid_leq_def iid_eq_def)
  show "x \<le> y \<Longrightarrow> y \<le> x \<Longrightarrow> x = y"
    by (cases x; cases y) (auto simp: less_iid_def less_eq_iid_def iid_less_def iid_leq_def iid_eq_def)
  show "x \<le> y \<or> y \<le> x"
    by (auto simp: less_iid_def less_eq_iid_def iid_less_def iid_leq_def iid_eq_def)
qed

end

subsection \<open>The comparisons of IID<int>\<close>

definition iid_comp_value :: "int iid \<Rightarrow> 64 word" where
  "iid_comp_value i =
     (of_nat (iid_idx i) OR push_bit 32 (ucast (word_of_int (iid_pid i) :: 32 word)))"

definition iid_int_eq :: "int iid \<Rightarrow> int iid \<Rightarrow> bool" where
  "iid_int_eq a b = (iid_comp_value a = iid_comp_value b)"

definition iid_int_less :: "int iid \<Rightarrow> int iid \<Rightarrow> bool" where
  "iid_int_less a b = (iid_comp_value a < iid_comp_value b)"

definition iid_int_leq :: "int iid \<Rightarrow> int iid \<Rightarrow> bool" where
  "iid_int_leq a b = (iid_comp_value a \<le> iid_comp_value b)"

text \<open>\<open>std::hash<IID<int>>\<close> uses the same layout.\<close>

definition iid_hash :: "int iid \<Rightarrow> 64 word" where
  "iid_hash i =
     (of_nat (iid_idx i) OR push_bit 32 (ucast (word_of_int (iid_pid i) :: 32 word)))"

text \<open>The range of the two members: \<open>unsigned idx\<close>, \<open>int pid\<close>.\<close>

definition iid_fits :: "int iid \<Rightarrow> bool" where
  "iid_fits i = (iid_idx i < 2 ^ 32 \<and> - (2 ^ 31) \<le> iid_pid i \<and> iid_pid i < 2 ^ 31)"

section \<open>The packed value\<close>

lemma unat_low_or_high:
  fixes h :: "32 word"
  assumes n: "n < 2 ^ 32"
  shows "unat (of_nat n OR push_bit 32 (ucast h) :: 64 word) = n + unat h * 2 ^ 32"
proof -
  have h: "unat h < 2 ^ 32"
    using unsigned_less [of h, where ?'a = nat] by simp
  have low: "unat (of_nat n :: 64 word) = n"
    using n by (simp add: unat_of_nat)
  have "unat (push_bit 32 (ucast h) :: 64 word) = (unat h * 2 ^ 32) mod 2 ^ 64"
    using h by (simp add: push_bit_eq_mult unat_word_ariths unsigned_ucast_eq take_bit_eq_mod mult.commute)
  also have "\<dots> = unat h * 2 ^ 32"
    using h by simp
  finally have high: "unat (push_bit 32 (ucast h) :: 64 word) = push_bit 32 (unat h)"
    by (simp add: push_bit_eq_mult)
  have "n = take_bit 32 n"
    using n by (simp add: take_bit_eq_mod)
  hence "\<not> bit n k \<or> \<not> bit (push_bit 32 (unat h)) k" for k
    by (metis bit_push_bit_iff_nat bit_take_bit_iff linorder_not_le)
  hence "n + push_bit 32 (unat h) = n OR push_bit 32 (unat h)"
    by (rule disjunctive_add)
  thus ?thesis
    by (simp only: unsigned_or_eq low high) (simp add: push_bit_eq_mult)
qed

lemma unat_word_of_int_32: "unat (word_of_int p :: 32 word) = nat (p mod 2 ^ 32)"
  by (simp add: unat_eq_nat_uint uint_word_of_int take_bit_eq_mod)

lemma unat_comp_value:
  assumes "iid_fits i"
  shows "unat (iid_comp_value i) = iid_idx i + nat (iid_pid i mod 2 ^ 32) * 2 ^ 32"
  using assms unfolding iid_comp_value_def iid_fits_def
  by (subst unat_low_or_high) (simp_all only: unat_word_of_int_32)

lemma pack_eq_iff:
  fixes m n p q :: nat
  assumes "m < 2 ^ 32" "n < 2 ^ 32"
  shows "m + p * 2 ^ 32 = n + q * 2 ^ 32 \<longleftrightarrow> m = n \<and> p = q"
  using assms by (auto dest: arg_cong [of _ _ "\<lambda>x. x mod 2 ^ 32"] arg_cong [of _ _ "\<lambda>x. x div 2 ^ 32"])

lemma pack_less_iff:
  fixes m n p q :: nat
  assumes "m < 2 ^ 32" "n < 2 ^ 32"
  shows "m + p * 2 ^ 32 < n + q * 2 ^ 32 \<longleftrightarrow> p < q \<or> p = q \<and> m < n"
proof (cases p q rule: linorder_cases)
  case less
  hence "(p + 1) * 2 ^ 32 \<le> q * 2 ^ 32" by simp
  thus ?thesis using less assms by simp
next
  case greater
  hence "(q + 1) * 2 ^ 32 \<le> p * 2 ^ 32" by simp
  thus ?thesis using greater assms by simp
qed simp

lemma mod_32_cases:
  assumes "- (2 ^ 31) \<le> p" "p < (2 ^ 31 :: int)"
  shows "p mod 2 ^ 32 = (if p < 0 then p + 2 ^ 32 else p)"
proof (cases "p < 0")
  case True
  have "p mod 2 ^ 32 = (p + 2 ^ 32) mod 2 ^ 32" by simp
  also have "\<dots> = p + 2 ^ 32" by (rule mod_pos_pos_trivial) (use assms True in auto)
  finally show ?thesis using True by simp
next
  case False
  thus ?thesis using assms by (simp add: mod_pos_pos_trivial)
qed

lemma nat_mod_32_eq_iff:
  assumes "- (2 ^ 31) \<le> p" "p < 2 ^ 31" "- (2 ^ 31) \<le> q" "q < (2 ^ 31 :: int)"
  shows "nat (p mod 2 ^ 32) = nat (q mod 2 ^ 32) \<longleftrightarrow> p = q"
proof -
  have "nat (p mod 2 ^ 32) = nat (q mod 2 ^ 32) \<longleftrightarrow> p mod 2 ^ 32 = q mod 2 ^ 32"
    by (rule eq_nat_nat_iff) simp_all
  thus ?thesis
    unfolding mod_32_cases [OF assms(1,2)] mod_32_cases [OF assms(3,4)]
    using assms by auto
qed

lemma iid_int_eq_iff:
  assumes "iid_fits a" "iid_fits b"
  shows "iid_int_eq a b \<longleftrightarrow> a = b"
proof -
  have "iid_int_eq a b \<longleftrightarrow> unat (iid_comp_value a) = unat (iid_comp_value b)"
    by (simp add: iid_int_eq_def word_unat_eq_iff)
  also have "\<dots> \<longleftrightarrow> iid_idx a = iid_idx b \<and> nat (iid_pid a mod 2 ^ 32) = nat (iid_pid b mod 2 ^ 32)"
    unfolding unat_comp_value [OF assms(1)] unat_comp_value [OF assms(2)]
    by (rule pack_eq_iff) (use assms in \<open>simp_all add: iid_fits_def\<close>)
  also have "\<dots> \<longleftrightarrow> a = b"
    using assms nat_mod_32_eq_iff [of "iid_pid a" "iid_pid b"]
    by (cases a; cases b) (auto simp: iid_fits_def)
  finally show ?thesis .
qed

lemma iid_int_less_iff:
  assumes "iid_fits a" "iid_fits b"
  shows "iid_int_less a b \<longleftrightarrow>
    iid_pid a mod 2 ^ 32 < iid_pid b mod 2 ^ 32 \<or> iid_pid a = iid_pid b \<and> iid_idx a < iid_idx b"
proof -
  have "iid_int_less a b \<longleftrightarrow> unat (iid_comp_value a) < unat (iid_comp_value b)"
    by (simp add: iid_int_less_def word_less_nat_alt)
  also have "\<dots> \<longleftrightarrow> nat (iid_pid a mod 2 ^ 32) < nat (iid_pid b mod 2 ^ 32)
      \<or> nat (iid_pid a mod 2 ^ 32) = nat (iid_pid b mod 2 ^ 32) \<and> iid_idx a < iid_idx b"
    unfolding unat_comp_value [OF assms(1)] unat_comp_value [OF assms(2)]
    by (rule pack_less_iff) (use assms in \<open>simp_all add: iid_fits_def\<close>)
  also have "\<dots> \<longleftrightarrow> iid_pid a mod 2 ^ 32 < iid_pid b mod 2 ^ 32 \<or> iid_pid a = iid_pid b \<and> iid_idx a < iid_idx b"
    using assms nat_mod_32_eq_iff [of "iid_pid a" "iid_pid b"] by (auto simp: iid_fits_def)
  finally show ?thesis .
qed

lemma iid_int_leq_iff:
  assumes "iid_fits a" "iid_fits b"
  shows "iid_int_leq a b \<longleftrightarrow> iid_int_less a b \<or> a = b"
  using iid_int_eq_iff [OF assms]
  by (auto simp: iid_int_leq_def iid_int_less_def iid_int_eq_def)

section \<open>Properties\<close>

text \<open>on pids and indices that fit the members, the one 64-bit comparison of
  \<open>IID<int>\<close> is equality, and \<open><\<close> on identifiers of non-negative pids is the lexicographic
  order of the generic template.\<close>

theorem iid_packed_order:
  assumes "iid_fits a" "iid_fits b"
  shows "(iid_int_eq a b \<longleftrightarrow> iid_eq a b) \<and>
    (0 \<le> iid_pid a \<and> 0 \<le> iid_pid b \<longrightarrow> (iid_int_less a b \<longleftrightarrow> iid_less a b) \<and> (iid_int_leq a b \<longleftrightarrow> iid_leq a b))"
  using assms iid_int_eq_iff [OF assms] iid_int_less_iff [OF assms] iid_int_leq_iff [OF assms]
  by (cases a; cases b) (auto simp: iid_eq_def less_iid_def less_eq_iid_def iid_less_def iid_leq_def iid_fits_def)

theorem iid_packed_order_witness:
  "iid_fits (IID 1 7) \<and> iid_fits (IID 2 3) \<and> iid_int_less (IID 1 7) (IID 2 3) \<and> \<not> iid_int_eq (IID 1 7) (IID 2 3)"
  using iid_packed_order [of "IID 1 7" "IID 2 3"] by (simp add: iid_fits_def iid_eq_def iid_less_def)

end
