(* ===== verification/SopFormula.thy ===== *)
theory SopFormula
  imports Prelude Iid
begin

text \<open>
  Sums of products of (read event, value) pairs (src/src/SOPFormula.h, SOPFormula.cpp): the
  formulas that say which reads-from choices of a lead are forbidden. The first half is the
  code, the second the semantics of a formula under an assignment of values to reads, the
  invariant the constructors establish, and the soundness of each operation.
\<close>

section \<open>Product terms\<close>

datatype RESULT = R_TRUE | R_FALSE | R_DEPENDENT

type_synonym rv_term = "int iid \<times> int"

record product_term =
  pt_terms :: "rv_term list"
  pt_result :: RESULT

definition pt_empty :: product_term where
  "pt_empty = \<lparr>pt_terms = [], pt_result = R_FALSE\<rparr>"

definition pt_single :: "rv_term \<Rightarrow> product_term" where
  "pt_single t = \<lparr>pt_terms = [t], pt_result = R_DEPENDENT\<rparr>"

definition pt_unit :: "product_term \<Rightarrow> bool" where
  "pt_unit p = (length (pt_terms p) = 1)"

fun pt_has_loop :: "rv_term list \<Rightarrow> rv_term \<Rightarrow> bool" where
  "pt_has_loop [] t = False"
| "pt_has_loop (x # xs) t = (if x = t then True else pt_has_loop xs t)"

definition pt_has :: "product_term \<Rightarrow> rv_term \<Rightarrow> bool" where
  "pt_has p t = pt_has_loop (pt_terms p) t"

definition pt_add_term :: "product_term \<Rightarrow> rv_term \<Rightarrow> product_term" where
  "pt_add_term p t =
     (if pt_has p t then p else p\<lparr>pt_terms := pt_terms p @ [t], pt_result := R_DEPENDENT\<rparr>)"

definition pt_check_evaluation :: "product_term \<Rightarrow> rv_term \<Rightarrow> RESULT" where
  "pt_check_evaluation p t =
     (if \<not> pt_unit p then pt_result p
      else if hd (pt_terms p) = t then R_TRUE
      else if fst (hd (pt_terms p)) = fst t then R_FALSE
      else pt_result p)"

text \<open>
  The loop of \<open>evaluate\<close>: \<open>pre\<close> are the elements before the iterator, so that \<open>unit()\<close> sees
  \<open>pre @ x # xs\<close>. The test \<open>it->second != it->second\<close> is kept as it is written.
\<close>

fun pt_evaluate_loop :: "rv_term \<Rightarrow> rv_term list \<Rightarrow> rv_term list \<Rightarrow> RESULT \<Rightarrow> rv_term list \<times> RESULT" where
  "pt_evaluate_loop t pre [] r = (pre, r)"
| "pt_evaluate_loop t pre (x # xs) r =
     (if fst x \<noteq> fst t then pt_evaluate_loop t (pre @ [x]) xs r
      else if snd x \<noteq> snd x then (pre @ x # xs, R_FALSE)
      else if length (pre @ x # xs) = 1 then (pre @ x # xs, R_TRUE)
      else pt_evaluate_loop t pre xs r)"

definition pt_evaluate :: "product_term \<Rightarrow> rv_term \<Rightarrow> product_term \<times> RESULT" where
  "pt_evaluate p t =
     (if pt_result p = R_FALSE \<or> pt_result p = R_TRUE then (p, pt_result p)
      else let (ts, r) = pt_evaluate_loop t [] (pt_terms p) (pt_result p)
           in (p\<lparr>pt_terms := ts, pt_result := r\<rparr>, r))"

fun pt_reduce_loop :: "rv_term \<Rightarrow> rv_term list \<Rightarrow> rv_term list \<Rightarrow> RESULT \<Rightarrow> rv_term list \<times> RESULT" where
  "pt_reduce_loop t pre [] r = (pre, r)"
| "pt_reduce_loop t pre (x # xs) r =
     (if x = t then (pre @ xs, if length (pre @ x # xs) = 1 then R_TRUE else r)
      else if fst x = fst t then (pre @ x # xs, R_FALSE)
      else pt_reduce_loop t (pre @ [x]) xs r)"

definition pt_reduce :: "product_term \<Rightarrow> rv_term \<Rightarrow> product_term \<times> RESULT" where
  "pt_reduce p t =
     (let (ts, r) = pt_reduce_loop t [] (pt_terms p) (pt_result p)
      in (p\<lparr>pt_terms := ts, pt_result := r\<rparr>, r))"

definition pt_eq :: "product_term \<Rightarrow> product_term \<Rightarrow> bool" where
  "pt_eq p q =
     (if length (pt_terms p) \<noteq> length (pt_terms q) then False
      else list_all (pt_has q) (pt_terms p))"

definition pt_and :: "product_term \<Rightarrow> product_term \<Rightarrow> product_term" where
  "pt_and p q = foldl pt_add_term p (pt_terms q)"

fun pt_to_string_loop :: "rv_term list \<Rightarrow> string result" where
  "pt_to_string_loop [] = Inl Bad_deref"
| "pt_to_string_loop [(i, v)] =
     Inr (''['' @ dec_int (iid_pid i) @ '':'' @ dec_nat (iid_idx i) @ '']('' @ dec_int v @ ''))'')"
| "pt_to_string_loop ((i, v) # xs) =
     bind_r (pt_to_string_loop xs) (\<lambda>s.
       Inr (''['' @ dec_int (iid_pid i) @ '':'' @ dec_nat (iid_idx i) @ '']('' @ dec_int v @ '') ^ '' @ s))"

definition pt_to_string :: "product_term \<Rightarrow> string result" where
  "pt_to_string p = bind_r (pt_to_string_loop (pt_terms p)) (\<lambda>s. Inr (''('' @ s))"

fun result_to_string :: "RESULT \<Rightarrow> string" where
  "result_to_string R_TRUE = ''TRUE''"
| "result_to_string R_FALSE = ''FALSE''"
| "result_to_string R_DEPENDENT = ''DEPENDENT''"

section \<open>Sums of products\<close>

record sop_formula =
  sf_terms :: "product_term list"
  sf_result :: RESULT

definition sop_false :: sop_formula where
  "sop_false = \<lparr>sf_terms = [], sf_result = R_FALSE\<rparr>"

definition sop_single :: "rv_term \<Rightarrow> sop_formula" where
  "sop_single t = \<lparr>sf_terms = [pt_single t], sf_result = R_DEPENDENT\<rparr>"

definition sop_empty :: "sop_formula \<Rightarrow> bool" where
  "sop_empty f = (sf_terms f = [])"

definition sop_size :: "sop_formula \<Rightarrow> nat" where
  "sop_size f = length (sf_terms f)"

fun sop_check_loop :: "rv_term \<Rightarrow> product_term list \<Rightarrow> bool \<Rightarrow> RESULT" where
  "sop_check_loop t [] result_false = (if result_false then R_FALSE else R_DEPENDENT)"
| "sop_check_loop t (p # ps) result_false =
     (if pt_check_evaluation p t = R_TRUE then R_TRUE
      else sop_check_loop t ps
             (if pt_check_evaluation p t = R_DEPENDENT then False else result_false))"

definition sop_check_evaluation :: "sop_formula \<Rightarrow> rv_term \<Rightarrow> RESULT" where
  "sop_check_evaluation f t = sop_check_loop t (sf_terms f) True"

text \<open>The loop returns the terms it leaves behind and whether it stopped at a true one.\<close>

fun sop_evaluate_loop :: "rv_term \<Rightarrow> product_term list \<Rightarrow> product_term list \<times> bool" where
  "sop_evaluate_loop t [] = ([], False)"
| "sop_evaluate_loop t (p # ps) =
     (let (p', r) = pt_evaluate p t in
      if r = R_TRUE then (p' # ps, True)
      else if r = R_FALSE then sop_evaluate_loop t ps
      else let (ps', b) = sop_evaluate_loop t ps in (p' # ps', b))"

definition sop_evaluate :: "sop_formula \<Rightarrow> rv_term \<Rightarrow> sop_formula \<times> RESULT" where
  "sop_evaluate f t =
     (if sf_result f = R_FALSE \<or> sf_result f = R_TRUE then (f, sf_result f)
      else let (ps, result_true) = sop_evaluate_loop t (sf_terms f) in
        if result_true then (\<lparr>sf_terms = [], sf_result = R_TRUE\<rparr>, R_TRUE)
        else if ps = [] then (\<lparr>sf_terms = [], sf_result = R_FALSE\<rparr>, R_FALSE)
        else (f\<lparr>sf_terms := ps\<rparr>, sf_result f))"

fun sop_has_loop :: "product_term list \<Rightarrow> rv_term \<Rightarrow> bool" where
  "sop_has_loop [] t = False"
| "sop_has_loop (p # ps) t =
     (if \<not> pt_unit p then sop_has_loop ps t
      else if pt_has p t then True else sop_has_loop ps t)"

definition sop_has :: "sop_formula \<Rightarrow> rv_term \<Rightarrow> bool" where
  "sop_has f t = sop_has_loop (sf_terms f) t"

definition sop_has_product_term :: "sop_formula \<Rightarrow> product_term \<Rightarrow> bool" where
  "sop_has_product_term f q = list_ex (\<lambda>p. pt_eq p q) (sf_terms f)"

fun sop_reduce_loop :: "rv_term \<Rightarrow> product_term list \<Rightarrow> product_term list \<times> bool" where
  "sop_reduce_loop t [] = ([], False)"
| "sop_reduce_loop t (p # ps) =
     (let (p', r) = pt_reduce p t in
      if r = R_TRUE then (p' # ps, True)
      else if r = R_FALSE then sop_reduce_loop t ps
      else let (ps', b) = sop_reduce_loop t ps in (p' # ps', b))"

definition sop_reduce :: "sop_formula \<Rightarrow> rv_term \<Rightarrow> sop_formula" where
  "sop_reduce f t =
     (let (ps, stopped) = sop_reduce_loop t (sf_terms f);
          r = (if stopped then R_TRUE else sf_result f) in
      if r = R_TRUE then \<lparr>sf_terms = [], sf_result = R_TRUE\<rparr>
      else if ps = [] then \<lparr>sf_terms = [], sf_result = R_FALSE\<rparr>
      else \<lparr>sf_terms = ps, sf_result = r\<rparr>)"

definition sop_remove_terms_of_term :: "sop_formula \<Rightarrow> rv_term \<Rightarrow> sop_formula" where
  "sop_remove_terms_of_term f t = f\<lparr>sf_terms := filter (\<lambda>p. \<not> pt_has p t) (sf_terms f)\<rparr>"

definition sop_or_pt :: "sop_formula \<Rightarrow> product_term \<Rightarrow> sop_formula" where
  "sop_or_pt f p =
     (if sf_result f = R_TRUE then f
      else if sop_has_product_term f p then f
      else f\<lparr>sf_terms := sf_terms f @ [p], sf_result := R_DEPENDENT\<rparr>)"

definition sop_or :: "sop_formula \<Rightarrow> sop_formula \<Rightarrow> sop_formula" where
  "sop_or f g =
     (if sf_result f = R_TRUE \<or> sf_result g = R_FALSE then f
      else if sf_result g = R_TRUE then \<lparr>sf_terms = [], sf_result = R_TRUE\<rparr>
      else if sf_result f = R_FALSE then \<lparr>sf_terms = sf_terms g, sf_result = sf_result g\<rparr>
      else foldl sop_or_pt f (sf_terms g))"

definition sop_or_term :: "sop_formula \<Rightarrow> rv_term \<Rightarrow> sop_formula" where
  "sop_or_term f t = sop_or_pt f (pt_single t)"

text \<open>
  \<open>result == RESULT::DEPENDENT;\<close> in the two overloads below is a comparison whose value is
  dropped: the result stays \<open>TRUE\<close>.
\<close>

definition sop_and_pt :: "sop_formula \<Rightarrow> product_term \<Rightarrow> sop_formula" where
  "sop_and_pt f p =
     (if sf_result f = R_FALSE then f
      else if sf_result f = R_TRUE then f\<lparr>sf_terms := sf_terms f @ [p]\<rparr>
      else f\<lparr>sf_terms := map (\<lambda>q. pt_and q p) (sf_terms f)\<rparr>)"

definition sop_and_term :: "sop_formula \<Rightarrow> rv_term \<Rightarrow> sop_formula" where
  "sop_and_term f t =
     (if sf_result f = R_FALSE then f
      else if sf_result f = R_TRUE then f\<lparr>sf_terms := sf_terms f @ [pt_single t]\<rparr>
      else f\<lparr>sf_terms := map (\<lambda>q. pt_add_term q t) (sf_terms f)\<rparr>)"

definition sop_and_step :: "sop_formula \<Rightarrow> sop_formula \<Rightarrow> product_term \<Rightarrow> sop_formula" where
  "sop_and_step f conjunction p = sop_or conjunction (sop_and_pt f p)"

definition sop_and :: "sop_formula \<Rightarrow> sop_formula \<Rightarrow> sop_formula result" where
  "sop_and f g =
     (if sf_result g = R_TRUE then Inr f
      else if sf_result f = R_FALSE then Inr f
      else if sf_result g = R_FALSE then Inr \<lparr>sf_terms = [], sf_result = R_FALSE\<rparr>
      else if sf_result f = R_TRUE then Inr \<lparr>sf_terms = sf_terms g, sf_result = sf_result g\<rparr>
      else case sf_terms g of
        [] \<Rightarrow> Inl Bad_deref
      | p # ps \<Rightarrow> Inr (foldl (sop_and_step f) (sop_and_pt f p) ps))"

definition sop_eq :: "sop_formula \<Rightarrow> sop_formula \<Rightarrow> bool" where
  "sop_eq f g =
     (if sop_size f \<noteq> sop_size g then False
      else list_all (sop_has_product_term g) (sf_terms f))"

definition sop_clear :: "sop_formula \<Rightarrow> sop_formula" where
  "sop_clear f = \<lparr>sf_terms = [], sf_result = R_FALSE\<rparr>"

fun sop_to_string_loop :: "product_term list \<Rightarrow> string result" where
  "sop_to_string_loop [] = Inl Bad_deref"
| "sop_to_string_loop [p] = bind_r (pt_to_string p) (\<lambda>s. Inr (s @ '')''))"
| "sop_to_string_loop (p # ps) =
     bind_r (pt_to_string p) (\<lambda>s. bind_r (sop_to_string_loop ps) (\<lambda>s'. Inr (s @ '' v '' @ s')))"

definition sop_to_string :: "sop_formula \<Rightarrow> string result" where
  "sop_to_string f =
     (if sf_result f = R_FALSE then Inr ''FALSE''
      else if sf_result f = R_TRUE then Inr ''TRUE''
      else bind_r (sop_to_string_loop (sf_terms f)) (\<lambda>s. Inr (''('' @ s)))"

section \<open>Semantics and invariant\<close>

definition pt_sat :: "(int iid \<Rightarrow> int) \<Rightarrow> product_term \<Rightarrow> bool" where
  "pt_sat \<sigma> p = list_all (\<lambda>(e, v). \<sigma> e = v) (pt_terms p)"

definition sop_sat :: "(int iid \<Rightarrow> int) \<Rightarrow> sop_formula \<Rightarrow> bool" where
  "sop_sat \<sigma> f =
     (sf_result f = R_TRUE \<or> sf_result f = R_DEPENDENT \<and> list_ex (pt_sat \<sigma>) (sf_terms f))"

definition pt_ok :: "product_term \<Rightarrow> bool" where
  "pt_ok p = (pt_terms p \<noteq> [] \<and> distinct (pt_terms p) \<and> pt_result p = R_DEPENDENT)"

definition sop_ok :: "sop_formula \<Rightarrow> bool" where
  "sop_ok f =
     (if sf_result f = R_DEPENDENT then sf_terms f \<noteq> [] \<and> list_all pt_ok (sf_terms f)
      else sf_terms f = [])"

lemma pt_sat_iff: "pt_sat \<sigma> p \<longleftrightarrow> (\<forall>x\<in>set (pt_terms p). \<sigma> (fst x) = snd x)"
  by (auto simp: pt_sat_def list_all_iff)

lemma sop_sat_dependent:
  "sf_result f = R_DEPENDENT \<Longrightarrow> sop_sat \<sigma> f \<longleftrightarrow> (\<exists>p\<in>set (sf_terms f). pt_sat \<sigma> p)"
  by (simp add: sop_sat_def list_ex_iff)

lemma sop_sat_TRUE [simp]: "sf_result f = R_TRUE \<Longrightarrow> sop_sat \<sigma> f"
  by (simp add: sop_sat_def)

lemma sop_sat_FALSE [simp]: "sf_result f = R_FALSE \<Longrightarrow> \<not> sop_sat \<sigma> f"
  by (simp add: sop_sat_def)

lemma sop_ok_dependent:
  "sf_result f = R_DEPENDENT \<Longrightarrow> sop_ok f \<longleftrightarrow> sf_terms f \<noteq> [] \<and> (\<forall>p\<in>set (sf_terms f). pt_ok p)"
  by (simp add: sop_ok_def list_all_iff)

lemma sop_ok_constant [simp]:
  "sop_ok \<lparr>sf_terms = [], sf_result = R_FALSE\<rparr>" "sop_ok \<lparr>sf_terms = [], sf_result = R_TRUE\<rparr>"
  by (simp_all add: sop_ok_def)

lemma sop_copy_terms:
  assumes "sf_result g = R_DEPENDENT"
  shows "sop_ok \<lparr>sf_terms = sf_terms g, sf_result = R_DEPENDENT\<rparr> \<longleftrightarrow> sop_ok g"
    "sop_sat \<sigma> \<lparr>sf_terms = sf_terms g, sf_result = R_DEPENDENT\<rparr> \<longleftrightarrow> sop_sat \<sigma> g"
  using assms by (simp_all add: sop_ok_def sop_sat_def)

lemma sop_ok_FALSE_terms: "sop_ok f \<Longrightarrow> sf_result f = R_FALSE \<Longrightarrow> sf_terms f = []"
  by (simp add: sop_ok_def)

subsection \<open>Product terms\<close>

lemma pt_has_loop_iff: "pt_has_loop xs t \<longleftrightarrow> t \<in> set xs"
  by (induction xs) auto

lemma pt_has_iff: "pt_has p t \<longleftrightarrow> t \<in> set (pt_terms p)"
  by (simp add: pt_has_def pt_has_loop_iff)

lemma pt_single_ok [simp]: "pt_ok (pt_single t)"
  by (simp add: pt_ok_def pt_single_def)

lemma pt_single_sat [simp]: "pt_sat \<sigma> (pt_single t) \<longleftrightarrow> \<sigma> (fst t) = snd t"
  by (simp add: pt_sat_iff pt_single_def)

lemma pt_add_term_set: "set (pt_terms (pt_add_term p t)) = insert t (set (pt_terms p))"
  by (auto simp: pt_add_term_def pt_has_iff)

lemma pt_add_term_ok: "pt_ok p \<Longrightarrow> pt_ok (pt_add_term p t)"
  by (auto simp: pt_add_term_def pt_has_iff pt_ok_def)

lemma pt_and_set: "set (pt_terms (pt_and p q)) = set (pt_terms p) \<union> set (pt_terms q)"
proof -
  have "set (pt_terms (foldl pt_add_term p ts)) = set (pt_terms p) \<union> set ts" for ts
    by (induction ts arbitrary: p) (auto simp: pt_add_term_set)
  thus ?thesis by (simp add: pt_and_def)
qed

lemma pt_and_ok: "pt_ok p \<Longrightarrow> pt_ok (pt_and p q)"
proof -
  have "pt_ok p \<Longrightarrow> pt_ok (foldl pt_add_term p ts)" for ts
    by (induction ts arbitrary: p) (auto simp: pt_add_term_ok)
  thus "pt_ok p \<Longrightarrow> pt_ok (pt_and p q)" by (simp add: pt_and_def)
qed

lemma pt_and_sat: "pt_sat \<sigma> (pt_and p q) \<longleftrightarrow> pt_sat \<sigma> p \<and> pt_sat \<sigma> q"
  by (auto simp: pt_sat_iff pt_and_set)

lemma pt_add_term_sat: "pt_sat \<sigma> (pt_add_term p t) \<longleftrightarrow> pt_sat \<sigma> p \<and> \<sigma> (fst t) = snd t"
  by (auto simp: pt_sat_iff pt_add_term_set)

lemma pt_eq_iff:
  assumes "distinct (pt_terms p)" "distinct (pt_terms q)"
  shows "pt_eq p q \<longleftrightarrow> set (pt_terms p) = set (pt_terms q)"
proof
  assume "pt_eq p q"
  hence "set (pt_terms p) \<subseteq> set (pt_terms q)" "length (pt_terms p) = length (pt_terms q)"
    by (auto simp: pt_eq_def list_all_iff pt_has_iff split: if_splits)
  thus "set (pt_terms p) = set (pt_terms q)"
    using assms by (metis List.finite_set card_subset_eq distinct_card)
next
  assume "set (pt_terms p) = set (pt_terms q)"
  thus "pt_eq p q"
    using assms distinct_card [of "pt_terms p"] distinct_card [of "pt_terms q"]
    by (simp add: pt_eq_def list_all_iff pt_has_iff)
qed

lemma pt_eq_sat: "pt_ok p \<Longrightarrow> pt_ok q \<Longrightarrow> pt_eq p q \<Longrightarrow> pt_sat \<sigma> p \<longleftrightarrow> pt_sat \<sigma> q"
  by (simp add: pt_eq_iff pt_ok_def pt_sat_iff)

lemma pt_reduce_loop_sound:
  assumes "pt_reduce_loop t pre xs R_DEPENDENT = (ts, r)"
    and "distinct (pre @ xs)" "pre @ xs \<noteq> []" "\<sigma> (fst t) = snd t"
  shows "(r = R_TRUE \<longrightarrow> (\<forall>x\<in>set (pre @ xs). \<sigma> (fst x) = snd x))
    \<and> (r = R_FALSE \<longrightarrow> \<not> (\<forall>x\<in>set (pre @ xs). \<sigma> (fst x) = snd x))
    \<and> (r = R_DEPENDENT \<longrightarrow> ts \<noteq> [] \<and> distinct ts \<and>
         ((\<forall>x\<in>set ts. \<sigma> (fst x) = snd x) \<longleftrightarrow> (\<forall>x\<in>set (pre @ xs). \<sigma> (fst x) = snd x)))"
  using assms
proof (induction xs arbitrary: pre)
  case Nil
  thus ?case by simp
next
  case (Cons x xs)
  consider "x = t" | "x \<noteq> t" "fst x = fst t" | "x \<noteq> t" "fst x \<noteq> fst t" by blast
  thus ?case
  proof cases
    case 1
    thus ?thesis using Cons.prems by (auto split: if_splits)
  next
    case 2
    hence "snd x \<noteq> snd t" by (simp add: prod_eq_iff)
    thus ?thesis using 2 Cons.prems by auto
  next
    case 3
    have "pt_reduce_loop t (pre @ [x]) xs R_DEPENDENT = (ts, r)"
      using 3 Cons.prems(1) by simp
    from Cons.IH [OF this] show ?thesis using Cons.prems by simp
  qed
qed

lemma pt_reduce_sound:
  assumes "pt_reduce p t = (p', r)" "pt_ok p" "\<sigma> (fst t) = snd t"
  shows "r = R_TRUE \<Longrightarrow> pt_sat \<sigma> p" "r = R_FALSE \<Longrightarrow> \<not> pt_sat \<sigma> p"
    "r = R_DEPENDENT \<Longrightarrow> pt_ok p' \<and> (pt_sat \<sigma> p' \<longleftrightarrow> pt_sat \<sigma> p)"
proof -
  obtain ts where ts: "pt_reduce_loop t [] (pt_terms p) R_DEPENDENT = (ts, r)"
    and p': "p' = p\<lparr>pt_terms := ts, pt_result := r\<rparr>"
    using assms(1,2) by (auto simp: pt_reduce_def pt_ok_def split: prod.splits)
  note sound = pt_reduce_loop_sound [where \<sigma> = \<sigma>, OF ts]
  show "r = R_TRUE \<Longrightarrow> pt_sat \<sigma> p" "r = R_FALSE \<Longrightarrow> \<not> pt_sat \<sigma> p"
    "r = R_DEPENDENT \<Longrightarrow> pt_ok p' \<and> (pt_sat \<sigma> p' \<longleftrightarrow> pt_sat \<sigma> p)"
    using sound assms(2,3) p' by (auto simp: pt_ok_def pt_sat_iff)
qed

lemma pt_evaluate_loop_eq:
  assumes "pre @ xs \<noteq> []" "\<forall>x\<in>set pre. fst x \<noteq> fst t"
  shows "pt_evaluate_loop t pre xs r =
    (if \<forall>x\<in>set (pre @ xs). fst x = fst t then ([last xs], R_TRUE)
     else (pre @ filter (\<lambda>x. fst x \<noteq> fst t) xs, r))"
  using assms
proof (induction xs arbitrary: pre)
  case Nil
  thus ?case by (cases pre) auto
next
  case (Cons x xs)
  show ?case
  proof (cases "fst x = fst t")
    case False
    thus ?thesis using Cons.prems Cons.IH [of "pre @ [x]"] by auto
  next
    case True
    show ?thesis
    proof (cases "pre @ xs = []")
      case True
      thus ?thesis using \<open>fst x = fst t\<close> by simp
    next
      case False
      thus ?thesis using True Cons.prems Cons.IH [of pre] by (cases pre) auto
    qed
  qed
qed

lemma pt_evaluate_eq:
  assumes "pt_ok p"
  shows "pt_evaluate p t =
    (if \<forall>x\<in>set (pt_terms p). fst x = fst t
     then (p\<lparr>pt_terms := [last (pt_terms p)], pt_result := R_TRUE\<rparr>, R_TRUE)
     else (p\<lparr>pt_terms := filter (\<lambda>x. fst x \<noteq> fst t) (pt_terms p), pt_result := R_DEPENDENT\<rparr>, R_DEPENDENT))"
  using assms by (simp add: pt_evaluate_def pt_ok_def pt_evaluate_loop_eq)

lemma pt_check_evaluation_TRUE_iff:
  "pt_ok p \<Longrightarrow> pt_check_evaluation p t = R_TRUE \<longleftrightarrow> pt_terms p = [t]"
  by (cases "pt_terms p") (auto simp: pt_check_evaluation_def pt_unit_def pt_ok_def)

lemma pt_check_evaluation_FALSE_iff:
  "pt_ok p \<Longrightarrow> pt_check_evaluation p t = R_FALSE \<longleftrightarrow> (\<exists>w. pt_terms p = [(fst t, w)] \<and> w \<noteq> snd t)"
  by (cases t; cases "pt_terms p") (auto simp: pt_check_evaluation_def pt_unit_def pt_ok_def)

subsection \<open>Disjunction\<close>

lemma sop_has_product_term_iff: "sop_has_product_term f q \<longleftrightarrow> (\<exists>p\<in>set (sf_terms f). pt_eq p q)"
  by (simp add: sop_has_product_term_def list_ex_iff)

lemma sop_or_pt_ok: "sop_ok f \<Longrightarrow> pt_ok p \<Longrightarrow> sop_ok (sop_or_pt f p)"
  by (cases "sf_result f") (auto simp: sop_or_pt_def sop_ok_def)

lemma sop_or_pt_sat:
  assumes "sop_ok f" "pt_ok p"
  shows "sop_sat \<sigma> (sop_or_pt f p) \<longleftrightarrow> sop_sat \<sigma> f \<or> pt_sat \<sigma> p"
proof (cases "sf_result f")
  case R_TRUE
  thus ?thesis by (simp add: sop_or_pt_def)
next
  case R_FALSE
  thus ?thesis using assms
    by (simp add: sop_or_pt_def sop_ok_def sop_has_product_term_def sop_sat_def)
next
  case R_DEPENDENT
  hence ok: "\<forall>q\<in>set (sf_terms f). pt_ok q" using assms by (simp add: sop_ok_dependent)
  show ?thesis
  proof (cases "sop_has_product_term f p")
    case True
    then obtain q where q: "q \<in> set (sf_terms f)" "pt_eq q p"
      by (auto simp: sop_has_product_term_iff)
    hence "pt_sat \<sigma> q \<longleftrightarrow> pt_sat \<sigma> p" using ok assms pt_eq_sat by blast
    hence "pt_sat \<sigma> p \<Longrightarrow> sop_sat \<sigma> f" using q(1) R_DEPENDENT by (auto simp: sop_sat_dependent)
    thus ?thesis using True R_DEPENDENT by (auto simp: sop_or_pt_def)
  next
    case False
    thus ?thesis using R_DEPENDENT by (auto simp: sop_or_pt_def sop_sat_def)
  qed
qed

lemma foldl_sop_or_pt:
  assumes "sop_ok f" "list_all pt_ok ps"
  shows "sop_ok (foldl sop_or_pt f ps)
    \<and> (sop_sat \<sigma> (foldl sop_or_pt f ps) \<longleftrightarrow> sop_sat \<sigma> f \<or> (\<exists>p\<in>set ps. pt_sat \<sigma> p))"
  using assms
proof (induction ps arbitrary: f)
  case (Cons p ps)
  thus ?case using Cons.IH [of "sop_or_pt f p"] by (auto simp: sop_or_pt_ok sop_or_pt_sat)
qed simp

lemma sop_or_sound:
  assumes "sop_ok f" "sop_ok g"
  shows "sop_ok (sop_or f g) \<and> (sop_sat \<sigma> (sop_or f g) \<longleftrightarrow> sop_sat \<sigma> f \<or> sop_sat \<sigma> g)"
proof (cases "sf_result f = R_DEPENDENT \<and> sf_result g = R_DEPENDENT")
  case True
  hence "list_all pt_ok (sf_terms g)" using assms by (simp add: sop_ok_def)
  from foldl_sop_or_pt [OF assms(1) this, of \<sigma>] show ?thesis
    using True by (simp add: sop_or_def sop_sat_dependent)
next
  case False
  thus ?thesis using assms
    by (cases "sf_result f"; cases "sf_result g") (simp_all add: sop_or_def sop_copy_terms)
qed

lemmas sop_or_ok = sop_or_sound [THEN conjunct1]
lemmas sop_or_sat = sop_or_sound [THEN conjunct2]

lemma sop_or_term_ok: "sop_ok f \<Longrightarrow> sop_ok (sop_or_term f t)"
  by (simp add: sop_or_term_def sop_or_pt_ok)

lemma sop_or_term_sat: "sop_ok f \<Longrightarrow> sop_sat \<sigma> (sop_or_term f t) \<longleftrightarrow> sop_sat \<sigma> f \<or> \<sigma> (fst t) = snd t"
  by (simp add: sop_or_term_def sop_or_pt_sat)

subsection \<open>Conjunction\<close>

lemma sop_and_pt_dependent:
  assumes "sop_ok f" "sf_result f = R_DEPENDENT"
  shows "sop_ok (sop_and_pt f p)" "sf_result (sop_and_pt f p) = R_DEPENDENT"
    "sop_sat \<sigma> (sop_and_pt f p) \<longleftrightarrow> sop_sat \<sigma> f \<and> pt_sat \<sigma> p"
  using assms
  by (auto simp: sop_and_pt_def sop_ok_dependent sop_sat_dependent pt_and_ok pt_and_sat)

lemma sop_and_term_dependent:
  assumes "sop_ok f" "sf_result f = R_DEPENDENT"
  shows "sop_ok (sop_and_term f t)" "sf_result (sop_and_term f t) = R_DEPENDENT"
    "sop_sat \<sigma> (sop_and_term f t) \<longleftrightarrow> sop_sat \<sigma> f \<and> \<sigma> (fst t) = snd t"
  using assms
  by (auto simp: sop_and_term_def sop_ok_dependent sop_sat_dependent pt_add_term_ok pt_add_term_sat)

lemma foldl_sop_and_step:
  assumes "sop_ok f" "sf_result f = R_DEPENDENT" "sop_ok c"
  shows "sop_ok (foldl (sop_and_step f) c ps)
    \<and> (sop_sat \<sigma> (foldl (sop_and_step f) c ps)
        \<longleftrightarrow> sop_sat \<sigma> c \<or> sop_sat \<sigma> f \<and> (\<exists>p\<in>set ps. pt_sat \<sigma> p))"
  using assms(3)
proof (induction ps arbitrary: c)
  case (Cons p ps)
  note p = sop_and_pt_dependent [where p = p, OF assms(1,2)]
  have "sop_ok (sop_and_step f c p)"
    "sop_sat \<sigma> (sop_and_step f c p) \<longleftrightarrow> sop_sat \<sigma> c \<or> sop_sat \<sigma> f \<and> pt_sat \<sigma> p"
    unfolding sop_and_step_def using sop_or_ok [OF Cons.prems p(1)] sop_or_sat [OF Cons.prems p(1)] p(3)
    by auto
  thus ?case using Cons.IH by auto
qed simp

lemma sop_and_sound:
  assumes "sop_ok f" "sop_ok g"
  shows "\<exists>h. sop_and f g = Inr h \<and> sop_ok h \<and> (\<forall>\<sigma>. sop_sat \<sigma> h \<longleftrightarrow> sop_sat \<sigma> f \<and> sop_sat \<sigma> g)"
proof (cases "sf_result f = R_DEPENDENT \<and> sf_result g = R_DEPENDENT")
  case True
  hence f: "sf_result f = R_DEPENDENT" and g: "sf_result g = R_DEPENDENT" by simp_all
  then obtain p ps where ps: "sf_terms g = p # ps"
    using assms(2) by (cases "sf_terms g") (auto simp: sop_ok_def)
  note p = sop_and_pt_dependent [where p = p, OF assms(1) f]
  show ?thesis
    using foldl_sop_and_step [where ps = ps, OF assms(1) f p(1)] p(3) f g ps
    by (auto simp: sop_and_def sop_sat_dependent [OF g])
next
  case False
  thus ?thesis using assms
    by (cases "sf_result f"; cases "sf_result g") (simp_all add: sop_and_def sop_copy_terms)
qed

subsection \<open>Grounding a read\<close>

lemma sop_reduce_loop_sound:
  assumes "sop_reduce_loop t ps = (qs, b)" "list_all pt_ok ps" "\<sigma> (fst t) = snd t"
  shows "(b \<longrightarrow> (\<exists>p\<in>set ps. pt_sat \<sigma> p))
    \<and> (\<not> b \<longrightarrow> list_all pt_ok qs \<and> ((\<exists>p\<in>set qs. pt_sat \<sigma> p) \<longleftrightarrow> (\<exists>p\<in>set ps. pt_sat \<sigma> p)))"
  using assms
proof (induction ps arbitrary: qs b)
  case (Cons p ps)
  obtain p' r where r: "pt_reduce p t = (p', r)" by fastforce
  obtain qs' b' where l: "sop_reduce_loop t ps = (qs', b')" by fastforce
  have "pt_ok p" using Cons.prems by simp
  note p = pt_reduce_sound [where \<sigma> = \<sigma>, OF r this Cons.prems(3)]
  have IH: "(b' \<longrightarrow> (\<exists>p\<in>set ps. pt_sat \<sigma> p))
    \<and> (\<not> b' \<longrightarrow> list_all pt_ok qs' \<and> ((\<exists>p\<in>set qs'. pt_sat \<sigma> p) \<longleftrightarrow> (\<exists>p\<in>set ps. pt_sat \<sigma> p)))"
    by (rule Cons.IH [OF l]) (use Cons.prems in auto)
  show ?case
    using Cons.prems(1) r l p IH by (cases r) auto
qed simp

lemma sop_reduce_sound:
  assumes "sop_ok f" "\<sigma> (fst t) = snd t"
  shows "sop_ok (sop_reduce f t) \<and> (sop_sat \<sigma> (sop_reduce f t) \<longleftrightarrow> sop_sat \<sigma> f)"
proof (cases "sf_result f = R_DEPENDENT")
  case True
  obtain qs b where l: "sop_reduce_loop t (sf_terms f) = (qs, b)" by fastforce
  have "list_all pt_ok (sf_terms f)" using assms(1) True by (simp add: sop_ok_def)
  from sop_reduce_loop_sound [where \<sigma> = \<sigma>, OF l this assms(2)] show ?thesis
    using True l by (auto simp: sop_reduce_def sop_sat_dependent sop_sat_def sop_ok_def list_ex_iff)
next
  case False
  thus ?thesis using assms(1)
    by (cases "sf_result f") (simp_all add: sop_ok_def sop_reduce_def)
qed

lemma sop_evaluate_loop_value:
  "sop_evaluate_loop (e, v) ps = sop_evaluate_loop (e, w) ps"
proof -
  have loop: "pt_evaluate_loop (e, v) pre xs r = pt_evaluate_loop (e, w) pre xs r" for pre xs r
    by (induction xs arbitrary: pre) auto
  have "pt_evaluate p (e, v) = pt_evaluate p (e, w)" for p
    by (simp only: pt_evaluate_def loop)
  thus ?thesis by (induction ps) (auto split: prod.splits)
qed

lemma sop_evaluate_loop_sound:
  assumes "sop_evaluate_loop t ps = (qs, b)" "list_all pt_ok ps"
  shows "(b \<longleftrightarrow> (\<exists>p\<in>set ps. \<forall>x\<in>set (pt_terms p). fst x = fst t))
    \<and> (\<not> b \<longrightarrow> list_all pt_ok qs \<and> length qs = length ps \<and> ((\<exists>p\<in>set qs. pt_sat \<sigma> p) \<longleftrightarrow>
        (\<exists>p\<in>set ps. \<forall>x\<in>set (pt_terms p). fst x = fst t \<or> \<sigma> (fst x) = snd x)))"
  using assms
proof (induction ps arbitrary: qs b)
  case (Cons p ps)
  obtain qs' b' where l: "sop_evaluate_loop t ps = (qs', b')" by fastforce
  have ok: "pt_ok p" "list_all pt_ok ps" using Cons.prems by simp_all
  note p = pt_evaluate_eq [OF ok(1), of t]
  note IH = Cons.IH [OF l ok(2)]
  show ?case
  proof (cases "\<forall>x\<in>set (pt_terms p). fst x = fst t")
    case True
    thus ?thesis using Cons.prems(1) p by auto
  next
    case False
    let ?q = "p\<lparr>pt_terms := filter (\<lambda>x. fst x \<noteq> fst t) (pt_terms p), pt_result := R_DEPENDENT\<rparr>"
    have "pt_ok ?q" using False ok(1) by (auto simp: pt_ok_def filter_empty_conv)
    moreover have "pt_sat \<sigma> ?q \<longleftrightarrow> (\<forall>x\<in>set (pt_terms p). fst x = fst t \<or> \<sigma> (fst x) = snd x)"
      unfolding pt_sat_iff by (auto simp del: split_paired_All)
    moreover have "pt_evaluate p t = (?q, R_DEPENDENT)"
      using p False by (simp only: if_False)
    hence "qs = ?q # qs'" "b = b'"
      using Cons.prems(1) l by auto
    ultimately show ?thesis using IH False by auto
  qed
qed simp

lemma sop_check_loop_TRUE:
  "list_all pt_ok ps \<Longrightarrow> sop_check_loop t ps b = R_TRUE \<longleftrightarrow> (\<exists>p\<in>set ps. pt_terms p = [t])"
  by (induction ps arbitrary: b) (auto simp: pt_check_evaluation_TRUE_iff)

lemma sop_check_loop_FALSE:
  "list_all pt_ok ps \<Longrightarrow> sop_check_loop t ps b = R_FALSE \<longleftrightarrow>
    b \<and> (\<forall>p\<in>set ps. \<exists>w. pt_terms p = [(fst t, w)] \<and> w \<noteq> snd t)"
proof (induction ps arbitrary: b)
  case (Cons p ps)
  have ok: "pt_ok p" using Cons.prems by simp
  note T = pt_check_evaluation_TRUE_iff [OF ok, of t]
  note F = pt_check_evaluation_FALSE_iff [OF ok, of t]
  show ?case
    using T F Cons by (cases "pt_check_evaluation p t") auto
qed simp

lemma sop_has_iff: "sop_has f t \<longleftrightarrow> (\<exists>p\<in>set (sf_terms f). pt_terms p = [t])"
proof -
  have "sop_has_loop ps t \<longleftrightarrow> (\<exists>p\<in>set ps. pt_terms p = [t])" for ps
    proof (induction ps)
    case (Cons p ps)
    have "pt_unit p \<and> pt_has p t \<longleftrightarrow> pt_terms p = [t]"
      by (cases "pt_terms p") (auto simp: pt_unit_def pt_has_iff)
    thus ?case using Cons.IH by auto
  qed simp
  thus ?thesis by (simp add: sop_has_def)
qed

section \<open>The interface of forbidden formulas\<close>

text \<open>
  What the trace builder relies on when it combines, extends and grounds the forbidden
  formulas of leads, whatever their representation.
\<close>

locale forbidden_formula =
  fixes ok :: "'f \<Rightarrow> bool"
    and sat :: "(int iid \<Rightarrow> int) \<Rightarrow> 'f \<Rightarrow> bool"
    and bot :: "'f"
    and disj_term :: "'f \<Rightarrow> rv_term \<Rightarrow> 'f"
    and disj :: "'f \<Rightarrow> 'f \<Rightarrow> 'f"
    and conj :: "'f \<Rightarrow> 'f \<Rightarrow> 'f result"
    and ground :: "'f \<Rightarrow> rv_term \<Rightarrow> 'f"
  assumes bot_ok: "ok bot" and bot_sat: "\<not> sat \<sigma> bot"
    and disj_term_ok: "ok f \<Longrightarrow> ok (disj_term f t)"
    and disj_term_sat: "ok f \<Longrightarrow> sat \<sigma> (disj_term f t) \<longleftrightarrow> sat \<sigma> f \<or> \<sigma> (fst t) = snd t"
    and disj_ok: "ok f \<Longrightarrow> ok g \<Longrightarrow> ok (disj f g)"
    and disj_sat: "ok f \<Longrightarrow> ok g \<Longrightarrow> sat \<sigma> (disj f g) \<longleftrightarrow> sat \<sigma> f \<or> sat \<sigma> g"
    and conj_total: "ok f \<Longrightarrow> ok g \<Longrightarrow>
      \<exists>h. conj f g = Inr h \<and> ok h \<and> (\<forall>\<sigma>. sat \<sigma> h \<longleftrightarrow> sat \<sigma> f \<and> sat \<sigma> g)"
    and ground_ok: "ok f \<Longrightarrow> ok (ground f t)"
    and ground_sat: "ok f \<Longrightarrow> \<sigma> (fst t) = snd t \<Longrightarrow> sat \<sigma> (ground f t) \<longleftrightarrow> sat \<sigma> f"
begin

lemma disj_terms:
  "ok f \<Longrightarrow> ok (foldl disj_term f ts) \<and>
    (sat \<sigma> (foldl disj_term f ts) \<longleftrightarrow> sat \<sigma> f \<or> (\<exists>t\<in>set ts. \<sigma> (fst t) = snd t))"
proof (induction ts arbitrary: f)
  case (Cons t ts)
  thus ?case using Cons.IH [OF disj_term_ok [OF Cons.prems, of t]] disj_term_sat [OF Cons.prems] by auto
qed simp

lemma disj_all:
  "ok f \<Longrightarrow> (\<forall>g\<in>set gs. ok g) \<Longrightarrow> ok (foldl disj f gs) \<and>
    (sat \<sigma> (foldl disj f gs) \<longleftrightarrow> sat \<sigma> f \<or> (\<exists>g\<in>set gs. sat \<sigma> g))"
proof (induction gs arbitrary: f)
  case (Cons g gs)
  have "ok g" using Cons.prems by simp
  thus ?case using Cons.IH [OF disj_ok [OF Cons.prems(1)]] Cons.prems disj_sat by auto
qed simp

lemma ground_all:
  "ok f \<Longrightarrow> ok (foldl ground f ts) \<and>
    ((\<forall>t\<in>set ts. \<sigma> (fst t) = snd t) \<longrightarrow> (sat \<sigma> (foldl ground f ts) \<longleftrightarrow> sat \<sigma> f))"
proof (induction ts arbitrary: f)
  case (Cons t ts)
  thus ?case using Cons.IH [OF ground_ok [OF Cons.prems, of t]] ground_sat [OF Cons.prems] by auto
qed simp

lemma conj_total_ok: "ok f \<Longrightarrow> ok g \<Longrightarrow> conj f g = Inr h \<Longrightarrow> ok h"
  using conj_total by fastforce

lemma conj_sat: "ok f \<Longrightarrow> ok g \<Longrightarrow> conj f g = Inr h \<Longrightarrow> sat \<sigma> h \<longleftrightarrow> sat \<sigma> f \<and> sat \<sigma> g"
  using conj_total by fastforce

end

lemma sop_reduce_ok:
  assumes "sop_ok f"
  shows "sop_ok (sop_reduce f t)"
  using sop_reduce_sound [where \<sigma> = "\<lambda>_. snd t" and t = t, OF assms] by simp

interpretation sop: forbidden_formula sop_ok sop_sat sop_false sop_or_term sop_or sop_and sop_reduce
proof unfold_locales
  show "sop_ok sop_false" "\<And>\<sigma>. \<not> sop_sat \<sigma> sop_false"
    by (simp_all add: sop_false_def)
qed (simp_all add: sop_or_term_ok sop_or_term_sat sop_or_ok sop_or_sat sop_and_sound
       sop_reduce_ok sop_reduce_sound)

section \<open>Properties\<close>

text \<open>C37: disjunction and conjunction of formulas are total on well-formed formulas, keep
  them well formed, and mean disjunction and conjunction of the forbidden valuations.\<close>

theorem sop_connectives:
  assumes "sop_ok f" "sop_ok g"
  shows "sop_ok (sop_or f g) \<and> (\<forall>\<sigma>. sop_sat \<sigma> (sop_or f g) \<longleftrightarrow> sop_sat \<sigma> f \<or> sop_sat \<sigma> g) \<and>
    (\<exists>h. sop_and f g = Inr h \<and> sop_ok h \<and> (\<forall>\<sigma>. sop_sat \<sigma> h \<longleftrightarrow> sop_sat \<sigma> f \<and> sop_sat \<sigma> g))"
  using sop.disj_ok [OF assms] sop.disj_sat [OF assms] sop.conj_total [OF assms] by blast

theorem sop_connectives_witness:
  "sop_ok (sop_or (sop_single (IID 1 2, 5)) (sop_single (IID 2 1, 0))) \<and>
   sop_sat (\<lambda>_. 0) (sop_or (sop_single (IID 1 2, 5)) (sop_single (IID 2 1, 0)))"
proof -
  have ok: "sop_ok (sop_single (IID 1 2, 5))" "sop_ok (sop_single (IID 2 1, 0))"
    by (simp_all add: sop_ok_def sop_single_def)
  from sop_connectives [OF ok] show ?thesis
    by (simp add: sop_sat_def sop_single_def)
qed

text \<open>C38: grounding a formula with the value its reads really had (\<open>reduce\<close> for each executed
  read) keeps it well formed and does not change whether that execution is forbidden.\<close>

theorem sop_ground_sound:
  assumes "sop_ok f" "\<forall>t\<in>set ts. \<sigma> (fst t) = snd t"
  shows "sop_ok (foldl sop_reduce f ts) \<and> (sop_sat \<sigma> (foldl sop_reduce f ts) \<longleftrightarrow> sop_sat \<sigma> f)"
  using sop.ground_all [OF assms(1), of ts \<sigma>] assms(2) by simp

theorem sop_ground_sound_witness:
  "\<not> sop_sat (\<lambda>_. 3) (foldl sop_reduce (sop_or_term (sop_single (IID 1 2, 5)) (IID 2 1, 0)) [(IID 2 1, 3)])"
  using sop_ground_sound [of "sop_or_term (sop_single (IID 1 2, 5)) (IID 2 1, 0)" "[(IID 2 1, 3)]" "\<lambda>_. 3"]
  by (simp add: sop_ok_def sop_single_def sop_or_term_def sop_or_pt_def sop_sat_def pt_sat_def pt_single_def
      pt_ok_def sop_has_product_term_def pt_eq_def pt_has_def)

text \<open>\<open>check_evaluation\<close> on a dependent formula answers TRUE exactly when the pair alone
  is a product term, FALSE exactly when every product is that read with another value; both
  answers are right for every valuation that gives the read this value. On the formula TRUE
  it answers FALSE.\<close>

theorem sop_check_evaluation_sound:
  assumes "sop_ok f" "sf_result f = R_DEPENDENT"
  shows "(sop_check_evaluation f t = R_TRUE \<longleftrightarrow> sop_has f t) \<and>
    (sop_check_evaluation f t = R_TRUE \<longrightarrow> (\<forall>\<sigma>. \<sigma> (fst t) = snd t \<longrightarrow> sop_sat \<sigma> f)) \<and>
    (sop_check_evaluation f t = R_FALSE \<longrightarrow> (\<forall>\<sigma>. \<sigma> (fst t) = snd t \<longrightarrow> \<not> sop_sat \<sigma> f)) \<and>
    sop_check_evaluation \<lparr>sf_terms = [], sf_result = R_TRUE\<rparr> t = R_FALSE"
proof -
  have ok: "list_all pt_ok (sf_terms f)" using assms by (simp add: sop_ok_def)
  have F: "sop_check_evaluation f t = R_FALSE \<longleftrightarrow>
      (\<forall>p\<in>set (sf_terms f). \<exists>w. pt_terms p = [(fst t, w)] \<and> w \<noteq> snd t)"
    by (simp add: sop_check_evaluation_def sop_check_loop_FALSE [OF ok])
  have T: "sop_check_evaluation f t = R_TRUE \<longleftrightarrow> sop_has f t"
    by (simp add: sop_check_evaluation_def sop_check_loop_TRUE [OF ok] sop_has_iff)
  show ?thesis
    using assms(2) T F by (fastforce simp: sop_has_iff sop_sat_dependent pt_sat_iff sop_check_evaluation_def)
qed

theorem sop_check_evaluation_sound_witness:
  "sop_has (sop_single (IID 1 2, 5)) (IID 1 2, 5) \<and>
   sop_check_evaluation (sop_single (IID 1 2, 5)) (IID 1 2, 5) = R_TRUE"
  using sop_check_evaluation_sound [of "sop_single (IID 1 2, 5)" "(IID 1 2, 5)"]
  by (simp add: sop_ok_def sop_single_def sop_has_def pt_unit_def pt_single_def pt_ok_def pt_has_def)

text \<open>\<open>evaluate\<close> as written ignores the value of the pair it grounds (the test
  \<open>it->second != it->second\<close> never holds): whatever value is passed, the result is the same, and
  the formula it leaves holds exactly when some product holds without its conditions on that
  read, so a pair of the read with a different value is taken for true.\<close>

theorem sop_evaluate_ignores_value:
  assumes "sop_ok f" "sf_result f = R_DEPENDENT"
  shows "sop_evaluate f (e, v) = sop_evaluate f (e, w) \<and>
    (case sop_evaluate f (e, v) of (g, r) \<Rightarrow> sop_ok g \<and> r = sf_result g \<and>
      (sop_sat \<sigma> g \<longleftrightarrow> (\<exists>p\<in>set (sf_terms f). \<forall>x\<in>set (pt_terms p). fst x = e \<or> \<sigma> (fst x) = snd x)))"
proof -
  have same: "sop_evaluate f (e, v) = sop_evaluate f (e, w)"
    by (simp only: sop_evaluate_def sop_evaluate_loop_value [of e v _ w])
  obtain qs b where l: "sop_evaluate_loop (e, v) (sf_terms f) = (qs, b)" by fastforce
  have ok: "list_all pt_ok (sf_terms f)" "sf_terms f \<noteq> []"
    using assms by (simp_all add: sop_ok_def)
  note sound = sop_evaluate_loop_sound [where \<sigma> = \<sigma>, OF l ok(1)]
  show ?thesis
  proof (cases b)
    case True
    thus ?thesis using same sound l assms(2) by (auto simp: sop_evaluate_def)
  next
    case False
    hence qs: "list_all pt_ok qs" "qs \<noteq> []" "(\<exists>p\<in>set qs. pt_sat \<sigma> p) \<longleftrightarrow>
        (\<exists>p\<in>set (sf_terms f). \<forall>x\<in>set (pt_terms p). fst x = e \<or> \<sigma> (fst x) = snd x)"
      using sound ok(2) by auto
    have "sop_evaluate f (e, v) = (f\<lparr>sf_terms := qs\<rparr>, R_DEPENDENT)"
      using False l qs(2) assms(2) by (simp add: sop_evaluate_def)
    moreover have "sop_ok (f\<lparr>sf_terms := qs\<rparr>)" "sop_sat \<sigma> (f\<lparr>sf_terms := qs\<rparr>) \<longleftrightarrow> (\<exists>p\<in>set qs. pt_sat \<sigma> p)"
      using qs(1,2) assms(2) by (simp_all add: sop_ok_def sop_sat_def list_ex_iff)
    ultimately show ?thesis using same qs(3) assms(2) by simp
  qed
qed

theorem sop_evaluate_ignores_value_witness:
  "snd (sop_evaluate (sop_single (IID 1 2, 5)) (IID 1 2, 6)) = R_TRUE"
  using sop_evaluate_ignores_value [of "sop_single (IID 1 2, 5)" "IID 1 2" 6 5]
  by (simp add: sop_ok_def sop_single_def sop_evaluate_def pt_evaluate_def pt_single_def pt_ok_def)

text \<open>conjunction with a single pair or with a product restricts a dependent formula as it
  should, but leaves the formula TRUE true: the assignment of \<open>DEPENDENT\<close> is written as a
  comparison, so the pair is recorded among the terms and has no effect on the meaning.\<close>

theorem sop_and_single:
  assumes "sop_ok f"
  shows "(sf_result f \<noteq> R_TRUE \<longrightarrow> sop_ok (sop_and_term f t) \<and>
      (sop_sat \<sigma> (sop_and_term f t) \<longleftrightarrow> sop_sat \<sigma> f \<and> \<sigma> (fst t) = snd t) \<and>
      (sop_sat \<sigma> (sop_and_pt f p) \<longleftrightarrow> sop_sat \<sigma> f \<and> pt_sat \<sigma> p)) \<and>
    (sf_result f = R_TRUE \<longrightarrow> sop_sat \<sigma> (sop_and_term f t) \<and> sop_sat \<sigma> (sop_and_pt f p) \<and>
      \<not> sop_ok (sop_and_term f t))"
proof (cases "sf_result f")
  case R_DEPENDENT
  thus ?thesis using sop_and_term_dependent [OF assms R_DEPENDENT] sop_and_pt_dependent [OF assms R_DEPENDENT]
    by simp
qed (use assms in \<open>simp_all add: sop_and_term_def sop_and_pt_def sop_ok_def\<close>)

theorem sop_and_single_witness:
  "sop_sat (\<lambda>_. 0) (sop_and_term \<lparr>sf_terms = [], sf_result = R_TRUE\<rparr> (IID 1 2, 5))"
  using sop_and_single [where f = "\<lparr>sf_terms = [], sf_result = R_TRUE\<rparr>" and \<sigma> = "\<lambda>_. 0" and t = "(IID 1 2, 5)"] by simp

end
