(* ===== verification/ViewHash.thy ===== *)
theory ViewHash
  imports Prelude "HOL-Library.Word"
begin

text \<open>
  The two hash functions of src/src/ViewEqTraceBuilder.h: \<open>HashFn\<close> on memory objects and
  \<open>StringHash\<close> on strings.
\<close>

section \<open>HashFn\<close>

text \<open>The arithmetic is on \<open>unsigned\<close>, so it wraps at \<open>2 ^ 32\<close> before the result is widened.\<close>

definition hash_fn :: "32 word \<times> 32 word \<Rightarrow> 64 word" where
  "hash_fn p =
     ucast (((fst p + snd p) * (fst p + snd p + 1)) div 2 + snd p)"

text \<open>The pairing function it computes when nothing wraps.\<close>

definition pairing :: "nat \<Rightarrow> nat \<Rightarrow> nat" where
  "pairing a b = ((a + b) * (a + b + 1)) div 2 + b"

section \<open>StringHash\<close>

text \<open>The C++ remainder takes the sign of the dividend; \<open>char\<close> is signed.\<close>

definition c_rem :: "int \<Rightarrow> int \<Rightarrow> int" where
  "c_rem a m = (if a < 0 then - ((- a) mod m) else a mod m)"

definition char_code :: "char \<Rightarrow> int" where
  "char_code c = (if (of_char c :: int) < 128 then of_char c else of_char c - 256)"

definition sh_modulus :: int where
  "sh_modulus = 1000000009"

fun sh_loop :: "string \<Rightarrow> int \<Rightarrow> int \<Rightarrow> int" where
  "sh_loop [] pw hash_val = hash_val"
| "sh_loop (c # cs) pw hash_val =
     sh_loop cs (c_rem (pw * 31) sh_modulus)
       (c_rem (hash_val + (char_code c - 97 + 1) * pw) sh_modulus)"

definition polynomial_rolling_hash :: "string \<Rightarrow> int" where
  "polynomial_rolling_hash s =
     (let hash_val = sh_loop s 1 0
      in c_rem (c_rem hash_val sh_modulus + sh_modulus) sh_modulus)"

section \<open>Lemmas\<close>

lemma pairing_double: "2 * pairing a b = (a + b) * (a + b + 1) + 2 * b"
proof -
  have "even ((a + b) * (a + b + 1))" by simp
  hence "2 * (((a + b) * (a + b + 1)) div 2) = (a + b) * (a + b + 1)" by simp
  thus ?thesis by (simp add: pairing_def)
qed

lemma triangle_gap: "s < (t :: nat) \<Longrightarrow> s * (s + 1) + 2 * s + 2 \<le> t * (t + 1)"
proof -
  assume "s < t"
  hence "(s + 1) * (s + 2) \<le> t * (t + 1)" by (intro mult_le_mono) simp_all
  thus ?thesis by (simp add: algebra_simps)
qed

lemma pairing_mono:
  assumes "a + b < c + d"
  shows "pairing a b < pairing c d"
proof -
  define s t where "s = a + b" and "t = c + d"
  have "s * (s + 1) + 2 * s + 2 \<le> t * (t + 1)"
    by (rule triangle_gap) (use assms in \<open>simp add: s_def t_def\<close>)
  moreover have "b \<le> s" by (simp add: s_def)
  ultimately have "s * (s + 1) + 2 * b < t * (t + 1) + 2 * d" by linarith
  hence "2 * pairing a b < 2 * pairing c d" by (simp only: pairing_double s_def t_def)
  thus ?thesis by simp
qed

lemma pairing_inject: "pairing a b = pairing c d \<longleftrightarrow> a = c \<and> b = d"
proof
  assume eq: "pairing a b = pairing c d"
  hence "a + b = c + d"
    using pairing_mono [of a b c d] pairing_mono [of c d a b] by (cases "a + b" "c + d" rule: linorder_cases) auto
  moreover have "2 * pairing a b = 2 * pairing c d" using eq by simp
  ultimately have "b = d" by (simp only: pairing_double)
  thus "a = c \<and> b = d" using \<open>a + b = c + d\<close> by simp
qed simp

lemma unat_hash_fn:
  assumes "(unat (fst p) + unat (snd p)) * (unat (fst p) + unat (snd p) + 1) < 2 ^ 32"
  shows "unat (hash_fn p) = pairing (unat (fst p)) (unat (snd p))"
proof -
  let ?s = "unat (fst p) + unat (snd p)"
  have le: "?s \<le> ?s * (?s + 1)" by simp
  hence s: "unat (fst p + snd p) = ?s"
    using assms by (simp add: unat_word_ariths)
  have s1: "unat (fst p + snd p + 1) = ?s + 1"
  proof -
    have "?s + 1 < 2 ^ 32"
    proof (cases "?s = 0")
      case False
      hence "1 * (?s + 1) \<le> ?s * (?s + 1)" by (intro mult_le_mono1) linarith
      hence "?s + 1 \<le> ?s * (?s + 1)" by (simp only: mult_1)
      thus ?thesis using assms by (rule le_less_trans)
    qed simp
    thus ?thesis using s by (simp add: unat_word_ariths)
  qed
  have m: "unat ((fst p + snd p) * (fst p + snd p + 1)) = ?s * (?s + 1)"
    using assms s s1 by (simp add: unat_word_ariths(2))
  have d: "unat (((fst p + snd p) * (fst p + snd p + 1)) div 2) = (?s * (?s + 1)) div 2"
    by (simp add: unat_div m)
  have half: "(?s * (?s + 1)) div 2 + unat (snd p) < 2 ^ 32"
  proof (cases "?s = 0")
    case False
    hence "2 \<le> ?s + 1" by linarith
    hence "?s * 2 \<le> ?s * (?s + 1)" by (rule mult_le_mono2)
    hence "unat (snd p) \<le> (?s * (?s + 1)) div 2" by simp
    thus ?thesis using assms by linarith
  qed simp
  have "unat (((fst p + snd p) * (fst p + snd p + 1)) div 2 + snd p)
      = (?s * (?s + 1)) div 2 + unat (snd p)"
    using half by (simp only: unat_word_ariths(1) d) simp
  thus ?thesis
    using half by (simp add: hash_fn_def pairing_def unsigned_ucast_eq take_bit_nat_eq_self)
qed

text \<open>The polynomial the loop evaluates modulo the prime.\<close>

fun poly_value :: "string \<Rightarrow> int" where
  "poly_value [] = 0"
| "poly_value (c # cs) = (char_code c - 96) + 31 * poly_value cs"

lemma c_rem_mod: "m > 0 \<Longrightarrow> c_rem a m mod m = a mod m"
  by (simp add: c_rem_def mod_minus_eq)

lemma c_rem_bounds: "m > 0 \<Longrightarrow> \<bar>c_rem a m\<bar> < m"
  by (simp add: c_rem_def)

lemma sh_loop_mod:
  "sh_loop s pw h mod sh_modulus = (h + pw * poly_value s) mod sh_modulus"
proof (induction s arbitrary: pw h)
  case (Cons c cs)
  have m: "sh_modulus > 0" by (simp add: sh_modulus_def)
  have "sh_loop (c # cs) pw h mod sh_modulus =
      (c_rem (h + (char_code c - 97 + 1) * pw) sh_modulus + c_rem (pw * 31) sh_modulus * poly_value cs) mod sh_modulus"
    by (simp add: Cons.IH)
  also have "\<dots> = (h + (char_code c - 97 + 1) * pw + pw * 31 * poly_value cs) mod sh_modulus"
    by (metis (no_types, lifting) c_rem_mod [OF m] mod_add_cong mod_mult_cong)
  also have "h + (char_code c - 97 + 1) * pw + pw * 31 * poly_value cs
      = h + pw * poly_value (c # cs)"
    by (simp add: algebra_simps)
  finally show ?case .
qed simp

lemma polynomial_rolling_hash_eq: "polynomial_rolling_hash s = poly_value s mod sh_modulus"
proof -
  have m: "sh_modulus > 0" by (simp add: sh_modulus_def)
  let ?h = "c_rem (sh_loop s 1 0) sh_modulus"
  have pos: "0 \<le> ?h + sh_modulus" using c_rem_bounds [OF m, of "sh_loop s 1 0"] by linarith
  have "polynomial_rolling_hash s = (?h + sh_modulus) mod sh_modulus"
    using pos by (simp add: polynomial_rolling_hash_def Let_def c_rem_def [of "_ + _"])
  also have "\<dots> = sh_loop s 1 0 mod sh_modulus" by (simp add: c_rem_mod [OF m])
  also have "\<dots> = poly_value s mod sh_modulus" by (simp add: sh_loop_mod)
  finally show ?thesis .
qed

section \<open>Properties\<close>

text \<open>as long as the product fits 32 bits, \<open>HashFn\<close> has no collisions on memory objects.\<close>

theorem hash_fn_injective:
  assumes "(unat (fst p) + unat (snd p)) * (unat (fst p) + unat (snd p) + 1) < 2 ^ 32"
    and "(unat (fst q) + unat (snd q)) * (unat (fst q) + unat (snd q) + 1) < 2 ^ 32"
  shows "hash_fn p = hash_fn q \<longleftrightarrow> p = q"
proof
  assume "hash_fn p = hash_fn q"
  hence "unat (fst p) = unat (fst q) \<and> unat (snd p) = unat (snd q)"
    using unat_hash_fn [OF assms(1)] unat_hash_fn [OF assms(2)] pairing_inject by metis
  thus "p = q" by (simp add: prod_eq_iff word_unat_eq_iff)
qed simp

theorem hash_fn_injective_witness: "hash_fn (3, 4) \<noteq> hash_fn (4, 3)"
  using hash_fn_injective [of "(3, 4)" "(4, 3)"] by simp

text \<open>the rolling hash of any string is the value of its polynomial in 31 modulo
  \<open>10 ^ 9 + 9\<close>, hence a number in \<open>[0, 10 ^ 9 + 9)\<close>, whatever signs the truncated remainders
  of the loop took.\<close>

theorem rolling_hash_correct:
  "polynomial_rolling_hash s = poly_value s mod 1000000009 \<and>
   0 \<le> polynomial_rolling_hash s \<and> polynomial_rolling_hash s < 1000000009"
  using polynomial_rolling_hash_eq [of s] by (simp add: sh_modulus_def)

end
