(* ===== verification/Cpid.thy ===== *)
theory Cpid
  imports Prelude
begin

text \<open>
  Complex process identifiers (\<open>CPid\<close>) and the systems of them that hand out fresh ones
  (\<open>CPidSystem\<close>), from \<open>CPid.h\<close> and \<open>CPid.cpp\<close>.
\<close>

section \<open>Identifiers\<close>

text \<open>The leading 0 is not stored; \<open>aux_idx\<close> is -1 for real processes.\<close>

record cpid =
  pid_seq :: "int list"
  pid_aux :: int

definition pid_init :: cpid where
  "pid_init = \<lparr>pid_seq = [], pid_aux = - 1\<rparr>"

definition pid_of_vec :: "int list \<Rightarrow> cpid result" where
  "pid_of_vec v = assert_r (length v > 0) (assert_r (v ! 0 = 0) (Inr \<lparr>pid_seq = tl v, pid_aux = - 1\<rparr>))"

definition pid_of_vec_aux :: "int list \<Rightarrow> int \<Rightarrow> cpid result" where
  "pid_of_vec_aux v i =
     assert_r (length v > 0) (assert_r (v ! 0 = 0) (assert_r (i \<ge> 0) (Inr \<lparr>pid_seq = tl v, pid_aux = i\<rparr>)))"

definition pid_is_auxiliary :: "cpid \<Rightarrow> bool" where
  "pid_is_auxiliary c = (pid_aux c \<ge> 0)"

definition pid_spawn :: "cpid \<Rightarrow> int \<Rightarrow> cpid result" where
  "pid_spawn c n = assert_r (\<not> pid_is_auxiliary c) (assert_r (0 \<le> n) (Inr (c\<lparr>pid_seq := pid_seq c @ [n]\<rparr>)))"

definition pid_aux_of :: "cpid \<Rightarrow> int \<Rightarrow> cpid result" where
  "pid_aux_of c i = assert_r (\<not> pid_is_auxiliary c) (assert_r (0 \<le> i) (Inr (c\<lparr>pid_aux := i\<rparr>)))"

definition pid_has_parent :: "cpid \<Rightarrow> bool" where
  "pid_has_parent c = (pid_seq c \<noteq> [] \<or> pid_is_auxiliary c)"

definition pid_parent :: "cpid \<Rightarrow> cpid result" where
  "pid_parent c =
     assert_r (pid_has_parent c)
       (if pid_is_auxiliary c then Inr (c\<lparr>pid_aux := - 1\<rparr>) else Inr (c\<lparr>pid_seq := butlast (pid_seq c)\<rparr>))"

definition pid_get_aux_index :: "cpid \<Rightarrow> int result" where
  "pid_get_aux_index c = assert_r (pid_is_auxiliary c) (Inr (pid_aux c))"

definition pid_to_string :: "cpid \<Rightarrow> string" where
  "pid_to_string c =
     ''<0'' @ concat (map (\<lambda>p. ''.'' @ dec_int p) (pid_seq c)) @
     (if pid_is_auxiliary c then ''/'' @ dec_int (pid_aux c) else []) @ ''>''"

text \<open>The loop of \<open>compare\<close>; \<open>None\<close> when one sequence is a prefix of the other, with what is left.\<close>

fun pid_compare_seq :: "int list \<Rightarrow> int list \<Rightarrow> int option" where
  "pid_compare_seq (x # xs) (y # ys) =
     (if x < y then Some (- 1) else if x > y then Some 1 else pid_compare_seq xs ys)"
| "pid_compare_seq [] (y # ys) = Some (- 1)"
| "pid_compare_seq (x # xs) [] = Some 1"
| "pid_compare_seq [] [] = None"

definition pid_compare :: "cpid \<Rightarrow> cpid \<Rightarrow> int" where
  "pid_compare a b =
     (case pid_compare_seq (pid_seq a) (pid_seq b) of
        Some r \<Rightarrow> r
      | None \<Rightarrow>
          if pid_aux a = pid_aux b \<or> \<not> pid_is_auxiliary a \<and> \<not> pid_is_auxiliary b then 0
          else if pid_aux a < pid_aux b then - 1 else 1)"

definition pid_eq :: "cpid \<Rightarrow> cpid \<Rightarrow> bool" where
  "pid_eq a b = (pid_compare a b = 0)"

definition pid_less :: "cpid \<Rightarrow> cpid \<Rightarrow> bool" where
  "pid_less a b = (pid_compare a b < 0)"

definition pid_leq :: "cpid \<Rightarrow> cpid \<Rightarrow> bool" where
  "pid_leq a b = (pid_compare a b \<le> 0)"

section \<open>Systems\<close>

text \<open>\<open>identifiers\<close> is a \<open>std::map\<close>, whose keys are the same when neither is less; \<open>operator[]\<close> on a
  key it lacks inserts 0.\<close>

record cpid_system =
  cps_real_children :: "nat list list"
  cps_aux_children :: "nat list list"
  cps_parent :: "int list"
  cps_cpids :: "cpid list"
  cps_identifiers :: "(cpid \<times> nat) list"

fun ident_find :: "(cpid \<times> nat) list \<Rightarrow> cpid \<Rightarrow> nat option" where
  "ident_find [] c = None"
| "ident_find ((k, v) # m) c = (if pid_eq k c then Some v else ident_find m c)"

fun ident_set :: "(cpid \<times> nat) list \<Rightarrow> cpid \<Rightarrow> nat \<Rightarrow> (cpid \<times> nat) list" where
  "ident_set [] c n = [(c, n)]"
| "ident_set ((k, v) # m) c n = (if pid_eq k c then (k, n) # m else (k, v) # ident_set m c n)"

definition ident_index :: "(cpid \<times> nat) list \<Rightarrow> cpid \<Rightarrow> nat \<times> (cpid \<times> nat) list" where
  "ident_index m c = (case ident_find m c of Some v \<Rightarrow> (v, m) | None \<Rightarrow> (0, ident_set m c 0))"

definition cps_init :: cpid_system where
  "cps_init = \<lparr>cps_real_children = [[]], cps_aux_children = [[]], cps_parent = [- 1], cps_cpids = [pid_init],
               cps_identifiers = [(pid_init, 0)]\<rparr>"

definition cps_add :: "cpid_system \<Rightarrow> (cpid \<times> nat) list \<Rightarrow> nat \<Rightarrow> cpid \<Rightarrow> nat list list \<Rightarrow> nat list list \<Rightarrow> cpid_system" where
  "cps_add s m c_id c2 real_ch aux_ch =
     \<lparr>cps_real_children = real_ch @ [[]], cps_aux_children = aux_ch @ [[]], cps_parent = cps_parent s @ [int c_id],
      cps_cpids = cps_cpids s @ [c2], cps_identifiers = ident_set m c2 (length (cps_cpids s))\<rparr>"

definition cps_spawn :: "cpid_system \<Rightarrow> cpid \<Rightarrow> (cpid \<times> cpid_system) result" where
  "cps_spawn s c =
     (let (c_id, m) = ident_index (cps_identifiers s) c; ch = cps_real_children s in
      if c_id < length ch
      then bind_r (pid_spawn c (int (length (ch ! c_id)))) (\<lambda>c2.
             Inr (c2, cps_add s m c_id c2 (ch[c_id := ch ! c_id @ [length (cps_cpids s)]]) (cps_aux_children s)))
      else Inl Out_of_range)"

definition cps_new_aux :: "cpid_system \<Rightarrow> cpid \<Rightarrow> (cpid \<times> cpid_system) result" where
  "cps_new_aux s c =
     (let (c_id, m) = ident_index (cps_identifiers s) c; ch = cps_aux_children s in
      if c_id < length ch
      then bind_r (pid_aux_of c (int (length (ch ! c_id)))) (\<lambda>c2.
             Inr (c2, cps_add s m c_id c2 (cps_real_children s) (ch[c_id := ch ! c_id @ [length (cps_cpids s)]])))
      else Inl Out_of_range)"

section \<open>The order\<close>

definition pid_ok :: "cpid \<Rightarrow> bool" where
  "pid_ok c = (pid_aux c \<ge> - 1 \<and> (\<forall>n\<in>set (pid_seq c). n \<ge> 0))"

lemma pid_compare_seq_None [simp]: "pid_compare_seq xs ys = None \<longleftrightarrow> xs = ys"
  by (induction xs ys rule: pid_compare_seq.induct) auto

lemma pid_compare_seq_flip: "pid_compare_seq ys xs = map_option uminus (pid_compare_seq xs ys)"
  by (induction xs ys rule: pid_compare_seq.induct) auto

lemma pid_compare_seq_range: "pid_compare_seq xs ys = Some r \<Longrightarrow> r = 1 \<or> r = - 1"
  by (induction xs ys rule: pid_compare_seq.induct) (auto split: if_splits)

text \<open>It is the lexicographic order.\<close>

lemma pid_compare_seq_lexord: "pid_compare_seq xs ys = Some (- 1) \<longleftrightarrow> (xs, ys) \<in> lexord {(x, y). x < y}"
  by (induction xs ys rule: pid_compare_seq.induct) auto

lemma pid_compare_seq_trans:
  assumes "pid_compare_seq xs ys = Some (- 1)" "pid_compare_seq ys zs = Some (- 1)"
  shows "pid_compare_seq xs zs = Some (- 1)"
proof -
  have "trans {(x, y). x < (y :: int)}" by (auto simp: trans_def)
  thus ?thesis using assms lexord_trans unfolding pid_compare_seq_lexord by blast
qed

lemma pid_compare_seq_refl [simp]: "pid_compare_seq xs xs = None"
  by simp

lemma pid_compare_zero:
  assumes "pid_aux a \<ge> - 1" "pid_aux b \<ge> - 1"
  shows "pid_compare a b = 0 \<longleftrightarrow> a = b"
proof (cases "pid_compare_seq (pid_seq a) (pid_seq b)")
  case None
  thus ?thesis using assms by (cases a; cases b) (auto simp: pid_compare_def pid_is_auxiliary_def)
next
  case (Some r)
  thus ?thesis using pid_compare_seq_range [OF Some] by (auto simp: pid_compare_def)
qed

lemma pid_compare_flip: "pid_compare b a = - pid_compare a b"
proof (cases "pid_compare_seq (pid_seq a) (pid_seq b)")
  case None
  thus ?thesis by (auto simp: pid_compare_def pid_is_auxiliary_def)
next
  case (Some r)
  hence "pid_compare_seq (pid_seq b) (pid_seq a) = Some (- r)"
    using pid_compare_seq_flip [of "pid_seq b" "pid_seq a"] by simp
  thus ?thesis using Some by (simp add: pid_compare_def)
qed

lemma pid_compare_less:
  "pid_compare a b < 0 \<longleftrightarrow> pid_compare_seq (pid_seq a) (pid_seq b) = Some (- 1) \<or>
     pid_seq a = pid_seq b \<and> pid_aux a < pid_aux b \<and> pid_is_auxiliary b"
proof (cases "pid_compare_seq (pid_seq a) (pid_seq b)")
  case None
  thus ?thesis by (auto simp: pid_compare_def pid_is_auxiliary_def)
next
  case (Some r)
  hence "pid_seq a \<noteq> pid_seq b" by auto
  thus ?thesis using Some pid_compare_seq_range [OF Some] by (auto simp: pid_compare_def)
qed

lemma pid_less_trans: "pid_less a b \<Longrightarrow> pid_less b d \<Longrightarrow> pid_less a d"
  unfolding pid_less_def pid_compare_less
  using pid_compare_seq_trans by fastforce

section \<open>The abstract system: a set of identifiers\<close>

definition child_real :: "cpid \<Rightarrow> nat \<Rightarrow> cpid" where
  "child_real c k = c\<lparr>pid_seq := pid_seq c @ [int k]\<rparr>"

definition child_aux :: "cpid \<Rightarrow> nat \<Rightarrow> cpid" where
  "child_aux c k = c\<lparr>pid_aux := int k\<rparr>"

definition cps_abs :: "cpid_system \<Rightarrow> cpid set" where
  "cps_abs s = set (cps_cpids s)"

text \<open>
  The tables agree with the set: distinct identifiers with their indices, one list of children per
  identifier, which for a real process says which children there are, and parents included.
\<close>

definition cps_idents_ok :: "cpid_system \<Rightarrow> bool" where
  "cps_idents_ok s =
     ((\<forall>c\<in>cps_abs s. pid_aux c \<ge> - 1) \<and> (\<forall>(k, i)\<in>set (cps_identifiers s). pid_aux k \<ge> - 1) \<and>
      (\<forall>c i. pid_aux c \<ge> - 1 \<longrightarrow>
         (ident_find (cps_identifiers s) c = Some i \<longleftrightarrow> i < length (cps_cpids s) \<and> cps_cpids s ! i = c)))"

definition cps_children_ok :: "cpid_system \<Rightarrow> bool" where
  "cps_children_ok s =
     (\<forall>i<length (cps_cpids s). \<not> pid_is_auxiliary (cps_cpids s ! i) \<longrightarrow>
        (\<forall>k. (child_real (cps_cpids s ! i) k \<in> cps_abs s \<longleftrightarrow> k < length (cps_real_children s ! i)) \<and>
             (child_aux (cps_cpids s ! i) k \<in> cps_abs s \<longleftrightarrow> k < length (cps_aux_children s ! i))))"

definition cps_parents_ok :: "cpid_system \<Rightarrow> bool" where
  "cps_parents_ok s =
     (\<forall>c k. \<not> pid_is_auxiliary c \<longrightarrow> pid_aux c \<ge> - 1 \<longrightarrow>
        child_real c k \<in> cps_abs s \<or> child_aux c k \<in> cps_abs s \<longrightarrow> c \<in> cps_abs s)"

definition cps_ok :: "cpid_system \<Rightarrow> bool" where
  "cps_ok s =
     (length (cps_real_children s) = length (cps_cpids s) \<and> length (cps_aux_children s) = length (cps_cpids s) \<and>
      length (cps_parent s) = length (cps_cpids s) \<and> distinct (cps_cpids s) \<and>
      cps_idents_ok s \<and> cps_children_ok s \<and> cps_parents_ok s)"

lemma ident_find_set:
  assumes "\<forall>(k, i)\<in>set m. pid_aux k \<ge> - 1" "pid_aux c \<ge> - 1" "pid_aux d \<ge> - 1"
  shows "ident_find (ident_set m c n) d = (if d = c then Some n else ident_find m d)"
  using assms
  by (induction m c n rule: ident_set.induct) (auto simp: pid_eq_def pid_compare_zero)

lemma ident_set_keys:
  "\<forall>(k, i)\<in>set m. pid_aux k \<ge> - 1 \<Longrightarrow> pid_aux c \<ge> - 1 \<Longrightarrow> \<forall>(k, i)\<in>set (ident_set m c n). pid_aux k \<ge> - 1"
  by (induction m c n rule: ident_set.induct) auto

lemma child_inject [simp]:
  "child_real c k = child_real d l \<longleftrightarrow> c = d \<and> k = l"
  by (cases c; cases d) (auto simp: child_real_def)

lemma child_aux_inject:
  "\<not> pid_is_auxiliary c \<Longrightarrow> \<not> pid_is_auxiliary d \<Longrightarrow> pid_aux c \<ge> - 1 \<Longrightarrow> pid_aux d \<ge> - 1 \<Longrightarrow>
   child_aux c k = child_aux d l \<longleftrightarrow> c = d \<and> k = l"
  by (cases c; cases d) (auto simp: child_aux_def pid_is_auxiliary_def)

lemma child_is_aux [simp]:
  "pid_is_auxiliary (child_real c k) = pid_is_auxiliary c" "pid_is_auxiliary (child_aux c k)"
  "pid_aux (child_real c k) = pid_aux c" "pid_aux (child_aux c k) = int k" "child_real c k \<noteq> c"
  by (cases c; simp add: child_real_def child_aux_def pid_is_auxiliary_def)+

lemma child_real_not_aux: "\<not> pid_is_auxiliary c \<Longrightarrow> child_real c k \<noteq> child_aux d l"
  by (metis child_is_aux(1,2))

lemma cps_init_ok: "cps_ok cps_init" "cps_abs cps_init = {pid_init}"
proof -
  have c: "child_real c k \<noteq> pid_init" "\<not> pid_is_auxiliary pid_init" for c k
    by (cases c; simp add: child_real_def pid_init_def pid_is_auxiliary_def)+
  have d: "child_aux c k \<noteq> pid_init" for c k using c(2) child_is_aux(2) by metis
  have e: "pid_eq pid_init c \<longleftrightarrow> c = pid_init" if "pid_aux c \<ge> - 1" for c
    using that pid_compare_zero [of pid_init c] by (auto simp: pid_eq_def pid_init_def)
  show "cps_ok cps_init" using c d e by (auto simp: cps_ok_def cps_idents_ok_def cps_children_ok_def cps_parents_ok_def cps_init_def cps_abs_def) (simp_all add: pid_init_def)
  show "cps_abs cps_init = {pid_init}" by (simp add: cps_abs_def cps_init_def)
qed

lemma cps_okD:
  assumes "cps_ok s"
  shows "length (cps_real_children s) = length (cps_cpids s)" "length (cps_aux_children s) = length (cps_cpids s)"
    "length (cps_parent s) = length (cps_cpids s)" "distinct (cps_cpids s)"
    "c \<in> cps_abs s \<Longrightarrow> pid_aux c \<ge> - 1" "\<forall>(k, i)\<in>set (cps_identifiers s). pid_aux k \<ge> - 1"
    "pid_aux c \<ge> - 1 \<Longrightarrow> ident_find (cps_identifiers s) c = Some i \<longleftrightarrow> i < length (cps_cpids s) \<and> cps_cpids s ! i = c"
  using assms by (simp_all add: cps_ok_def cps_idents_ok_def)

lemma cps_ok_children:
  assumes "cps_ok s" "i < length (cps_cpids s)" "\<not> pid_is_auxiliary (cps_cpids s ! i)"
  shows "child_real (cps_cpids s ! i) k \<in> cps_abs s \<longleftrightarrow> k < length (cps_real_children s ! i)"
    "child_aux (cps_cpids s ! i) k \<in> cps_abs s \<longleftrightarrow> k < length (cps_aux_children s ! i)"
  using assms by (simp_all add: cps_ok_def cps_children_ok_def)

lemma cps_ok_parents:
  assumes "cps_ok s" "\<not> pid_is_auxiliary c" "pid_aux c \<ge> - 1" "child_real c k \<in> cps_abs s \<or> child_aux c k \<in> cps_abs s"
  shows "c \<in> cps_abs s"
  using assms unfolding cps_ok_def cps_parents_ok_def by blast

lemma ident_index_known:
  assumes "cps_ok s" "c \<in> cps_abs s"
  obtains i where "ident_index (cps_identifiers s) c = (i, cps_identifiers s)" "i < length (cps_cpids s)"
    "cps_cpids s ! i = c"
proof -
  obtain i where i: "i < length (cps_cpids s)" "cps_cpids s ! i = c"
    using assms(2) by (auto simp: cps_abs_def in_set_conv_nth)
  hence "ident_find (cps_identifiers s) c = Some i"
    using cps_okD(7) [OF assms(1), of c i] cps_okD(5) [OF assms] by simp
  thus thesis using that i by (simp add: ident_index_def)
qed

text \<open>Adding the next child of \<open>c\<close>, real or auxiliary, keeps the tables in order.\<close>

lemma cps_add_ok:
  assumes ok: "cps_ok s" and i: "i < length (cps_cpids s)" "cps_cpids s ! i = c" "\<not> pid_is_auxiliary c"
    and new: "c2 \<notin> cps_abs s" "pid_aux c2 \<ge> - 1"
    and len: "length R = length (cps_cpids s)" "length A = length (cps_cpids s)"
    and R: "\<forall>j k. j < length (cps_cpids s) \<longrightarrow> \<not> pid_is_auxiliary (cps_cpids s ! j) \<longrightarrow>
       (k < length (R ! j) \<longleftrightarrow> k < length (cps_real_children s ! j) \<or> child_real (cps_cpids s ! j) k = c2)"
    and A: "\<forall>j k. j < length (cps_cpids s) \<longrightarrow> \<not> pid_is_auxiliary (cps_cpids s ! j) \<longrightarrow>
       (k < length (A ! j) \<longleftrightarrow> k < length (cps_aux_children s ! j) \<or> child_aux (cps_cpids s ! j) k = c2)"
    and par: "\<forall>d k. \<not> pid_is_auxiliary d \<longrightarrow> pid_aux d \<ge> - 1 \<longrightarrow> child_real d k = c2 \<or> child_aux d k = c2 \<longrightarrow> d = c"
  shows "cps_ok (cps_add s (cps_identifiers s) i c2 R A)" (is "cps_ok ?s")
    and "cps_abs (cps_add s (cps_identifiers s) i c2 R A) = insert c2 (cps_abs s)"
proof -
  note D = cps_okD [OF ok]
  let ?n = "length (cps_cpids s)"
  show abs: "cps_abs ?s = insert c2 (cps_abs s)" by (simp add: cps_add_def cps_abs_def)
  have c: "c \<in> cps_abs s" "c2 \<noteq> c" using i new(1) by (auto simp: cps_abs_def)
  have fields: "cps_cpids ?s = cps_cpids s @ [c2]" "cps_real_children ?s = R @ [[]]" "cps_aux_children ?s = A @ [[]]"
    "cps_parent ?s = cps_parent s @ [int i]" "cps_identifiers ?s = ident_set (cps_identifiers s) c2 ?n"
    by (simp_all add: cps_add_def)
  have no_child: "child_real c2 k \<notin> cps_abs ?s" "child_aux c2 k \<notin> cps_abs ?s" if "\<not> pid_is_auxiliary c2" for k
    using cps_ok_parents [OF ok that new(2), of k] par that new c(2) abs child_is_aux(2,5) by auto
  have ids: "ident_find (cps_identifiers ?s) d = Some j \<longleftrightarrow> j < Suc ?n \<and> (cps_cpids s @ [c2]) ! j = d"
    if "pid_aux d \<ge> - 1" for d j
    using ident_find_set [OF D(6) new(2) that, of ?n] D(7) [OF that, of j] new(1)
    by (auto simp: fields nth_append less_Suc_eq cps_abs_def)
  have children: "(child_real (cps_cpids ?s ! j) k \<in> cps_abs ?s \<longleftrightarrow> k < length (cps_real_children ?s ! j)) \<and>
      (child_aux (cps_cpids ?s ! j) k \<in> cps_abs ?s \<longleftrightarrow> k < length (cps_aux_children ?s ! j))"
    if "j < Suc ?n" "\<not> pid_is_auxiliary (cps_cpids ?s ! j)" for j k
  proof (cases "j = ?n")
    case True
    thus ?thesis using no_child that(2) len by (simp add: fields nth_append)
  next
    case False
    hence j: "j < ?n" "\<not> pid_is_auxiliary (cps_cpids s ! j)" using that by (simp_all add: fields nth_append)
    thus ?thesis
      using R A cps_ok_children [OF ok j, of k] len abs by (simp add: fields nth_append) blast
  qed
  have parents: "d \<in> cps_abs ?s"
    if "\<not> pid_is_auxiliary d" "pid_aux d \<ge> - 1" "child_real d k \<in> cps_abs ?s \<or> child_aux d k \<in> cps_abs ?s" for d k
    using that cps_ok_parents [OF ok that(1,2), of k] par c(1) unfolding abs by blast
  have "cps_idents_ok ?s"
    unfolding cps_idents_ok_def
    using ident_set_keys [OF D(6) new(2), of ?n] abs new(2) D(5) ids fields by simp
  moreover have "cps_children_ok ?s" unfolding cps_children_ok_def using children fields(1) by auto
  moreover have "cps_parents_ok ?s" unfolding cps_parents_ok_def using parents by blast
  moreover have "distinct (cps_cpids ?s)" using D(4) new(1) by (simp add: fields cps_abs_def)
  ultimately show "cps_ok ?s" by (simp add: cps_ok_def fields len D(3))
qed

lemma cps_spawn_ok:
  assumes ok: "cps_ok s" and c: "c \<in> cps_abs s" "\<not> pid_is_auxiliary c"
  shows "\<exists>k s'. cps_spawn s c = Inr (child_real c k, s') \<and> cps_ok s' \<and>
    cps_abs s' = insert (child_real c k) (cps_abs s) \<and> (\<forall>j. child_real c j \<in> cps_abs s \<longleftrightarrow> j < k)"
proof -
  note D = cps_okD [OF ok]
  obtain i where i: "ident_index (cps_identifiers s) c = (i, cps_identifiers s)" "i < length (cps_cpids s)"
    "cps_cpids s ! i = c" using ident_index_known [OF ok c(1)] .
  let ?k = "length (cps_real_children s ! i)" and ?R = "cps_real_children s"
  let ?R' = "?R[i := ?R ! i @ [length (cps_cpids s)]]"
  let ?s' = "cps_add s (cps_identifiers s) i (child_real c ?k) ?R' (cps_aux_children s)"
  have ch: "child_real c j \<in> cps_abs s \<longleftrightarrow> j < ?k" for j using cps_ok_children(1) [OF ok i(2)] i c(2) by simp
  have run: "cps_spawn s c = Inr (child_real c ?k, ?s')"
    using i D(1) c(2) by (simp add: cps_spawn_def Let_def pid_spawn_def child_real_def)
  have same: "cps_cpids s ! j = c \<longleftrightarrow> j = i" if "j < length (cps_cpids s)" for j
    using that i D(4) nth_eq_iff_index_eq by fastforce
  have len: "length (?R' ! j) = (if j = i then Suc ?k else length (?R ! j))" for j
    using i(2) D(1) by (cases "j = i") simp_all
  have new: "child_real c ?k \<notin> cps_abs s" "pid_aux (child_real c ?k) \<ge> - 1" "length ?R' = length (cps_cpids s)"
    using ch D(1) D(5) [OF c(1)] by simp_all
  have R: "\<forall>j k. j < length (cps_cpids s) \<longrightarrow> \<not> pid_is_auxiliary (cps_cpids s ! j) \<longrightarrow>
       (k < length (?R' ! j) \<longleftrightarrow> k < length (?R ! j) \<or> child_real (cps_cpids s ! j) k = child_real c ?k)"
    unfolding child_inject len using same by auto
  have A: "\<forall>j k. j < length (cps_cpids s) \<longrightarrow> \<not> pid_is_auxiliary (cps_cpids s ! j) \<longrightarrow>
       (k < length (cps_aux_children s ! j) \<longleftrightarrow>
          k < length (cps_aux_children s ! j) \<or> child_aux (cps_cpids s ! j) k = child_real c ?k)"
    using child_real_not_aux [OF c(2), of ?k] by metis
  have par: "\<forall>d k. \<not> pid_is_auxiliary d \<longrightarrow> pid_aux d \<ge> - 1 \<longrightarrow>
      child_real d k = child_real c ?k \<or> child_aux d k = child_real c ?k \<longrightarrow> d = c"
    using child_real_not_aux [OF c(2), of ?k] child_inject by metis
  show ?thesis using run ch cps_add_ok [OF ok i(2,3) c(2) new D(2) R A par] by blast
qed

lemma cps_new_aux_ok:
  assumes ok: "cps_ok s" and c: "c \<in> cps_abs s" "\<not> pid_is_auxiliary c"
  shows "\<exists>k s'. cps_new_aux s c = Inr (child_aux c k, s') \<and> cps_ok s' \<and>
    cps_abs s' = insert (child_aux c k) (cps_abs s) \<and> (\<forall>j. child_aux c j \<in> cps_abs s \<longleftrightarrow> j < k)"
proof -
  note D = cps_okD [OF ok]
  obtain i where i: "ident_index (cps_identifiers s) c = (i, cps_identifiers s)" "i < length (cps_cpids s)"
    "cps_cpids s ! i = c" using ident_index_known [OF ok c(1)] .
  let ?k = "length (cps_aux_children s ! i)" and ?A = "cps_aux_children s"
  let ?A' = "?A[i := ?A ! i @ [length (cps_cpids s)]]"
  let ?s' = "cps_add s (cps_identifiers s) i (child_aux c ?k) (cps_real_children s) ?A'"
  have ch: "child_aux c j \<in> cps_abs s \<longleftrightarrow> j < ?k" for j using cps_ok_children(2) [OF ok i(2)] i c(2) by simp
  have run: "cps_new_aux s c = Inr (child_aux c ?k, ?s')"
    using i D(2) c(2) by (simp add: cps_new_aux_def Let_def pid_aux_of_def child_aux_def)
  have same: "cps_cpids s ! j = c \<longleftrightarrow> j = i" if "j < length (cps_cpids s)" for j
    using that i D(4) nth_eq_iff_index_eq by fastforce
  have len: "length (?A' ! j) = (if j = i then Suc ?k else length (?A ! j))" for j
    using i(2) D(2) by (cases "j = i") simp_all
  have inj: "child_aux d k = child_aux c ?k \<longleftrightarrow> d = c \<and> k = ?k" if "\<not> pid_is_auxiliary d" "pid_aux d \<ge> - 1" for d k
    using child_aux_inject [OF that(1) c(2) that(2) D(5) [OF c(1)]] .
  have real: "child_real d k \<noteq> child_aux c ?k" if "\<not> pid_is_auxiliary d" for d k
    using child_real_not_aux [OF that] .
  have new: "child_aux c ?k \<notin> cps_abs s" "pid_aux (child_aux c ?k) \<ge> - 1" and l: "length ?A' = length (cps_cpids s)"
    using ch D(2) by simp_all
  have R: "\<forall>j k. j < length (cps_cpids s) \<longrightarrow> \<not> pid_is_auxiliary (cps_cpids s ! j) \<longrightarrow>
       (k < length (cps_real_children s ! j) \<longleftrightarrow>
          k < length (cps_real_children s ! j) \<or> child_real (cps_cpids s ! j) k = child_aux c ?k)"
    using real by metis
  have A: "\<forall>j k. j < length (cps_cpids s) \<longrightarrow> \<not> pid_is_auxiliary (cps_cpids s ! j) \<longrightarrow>
       (k < length (?A' ! j) \<longleftrightarrow> k < length (?A ! j) \<or> child_aux (cps_cpids s ! j) k = child_aux c ?k)"
    unfolding len using same inj D(5) by (auto simp: cps_abs_def)
  have par: "\<forall>d k. \<not> pid_is_auxiliary d \<longrightarrow> pid_aux d \<ge> - 1 \<longrightarrow>
      child_real d k = child_aux c ?k \<or> child_aux d k = child_aux c ?k \<longrightarrow> d = c"
    using real inj by metis
  show ?thesis using run ch cps_add_ok [OF ok i(2,3) c(2) new D(1) l R A par] by blast
qed

section \<open>What the builders rely on\<close>

text \<open>\<open>n\<close> children of \<open>p\<close> taken one after another.\<close>

fun take_children :: "('s \<Rightarrow> 'p \<Rightarrow> ('p \<times> 's) result) \<Rightarrow> nat \<Rightarrow> 's \<Rightarrow> 'p \<Rightarrow> ('p list \<times> 's) result" where
  "take_children fresh 0 s p = Inr ([], s)"
| "take_children fresh (Suc n) s p =
     bind_r (fresh s p) (\<lambda>(q, s1). bind_r (take_children fresh n s1 p) (\<lambda>(qs, s2). Inr (q # qs, s2)))"

locale process_system =
  fixes ok :: "'s \<Rightarrow> bool" and members :: "'s \<Rightarrow> 'p set" and parental :: "'p \<Rightarrow> bool"
    and child :: "'p \<Rightarrow> nat \<Rightarrow> 'p" and fresh :: "'s \<Rightarrow> 'p \<Rightarrow> ('p \<times> 's) result"
  assumes fresh_child: "ok s \<Longrightarrow> p \<in> members s \<Longrightarrow> parental p \<Longrightarrow>
      \<exists>k s'. fresh s p = Inr (child p k, s') \<and> ok s' \<and> members s' = insert (child p k) (members s) \<and>
             (\<forall>j. child p j \<in> members s \<longleftrightarrow> j < k)"
    and child_distinct: "child p j = child p k \<Longrightarrow> j = k"
begin

lemma fresh_at:
  assumes "ok s" "p \<in> members s" "parental p" "\<forall>j. child p j \<in> members s \<longleftrightarrow> j < k"
  obtains s' where "fresh s p = Inr (child p k, s')" "ok s'" "members s' = insert (child p k) (members s)"
    "\<forall>j. child p j \<in> members s' \<longleftrightarrow> j < Suc k"
proof -
  obtain m s' where m: "fresh s p = Inr (child p m, s')" "ok s'" "members s' = insert (child p m) (members s)"
    "\<forall>j. child p j \<in> members s \<longleftrightarrow> j < m" using fresh_child [OF assms(1-3)] by blast
  hence "m = k" using assms(4) by (metis linorder_neqE_nat less_irrefl)
  moreover have "\<forall>j. child p j \<in> members s' \<longleftrightarrow> j < Suc m"
    using m(3,4) child_distinct unfolding less_Suc_eq by blast
  ultimately show thesis using that [of s'] m by simp
qed

lemma take_children_names:
  assumes "ok s" "p \<in> members s" "parental p" "\<forall>j. child p j \<in> members s \<longleftrightarrow> j < k"
  shows "\<exists>s'. take_children fresh n s p = Inr (map (child p) [k..<k + n], s') \<and> ok s' \<and>
    members s' = members s \<union> child p ` {k..<k + n}"
  using assms
proof (induction n arbitrary: s k)
  case (Suc n)
  obtain s1 where s1: "fresh s p = Inr (child p k, s1)" "ok s1" "members s1 = insert (child p k) (members s)"
    "\<forall>j. child p j \<in> members s1 \<longleftrightarrow> j < Suc k" using fresh_at [OF Suc.prems] .
  obtain s2 where s2: "take_children fresh n s1 p = Inr (map (child p) [Suc k..<Suc k + n], s2)" "ok s2"
    "members s2 = members s1 \<union> child p ` {Suc k..<Suc k + n}"
    using Suc.IH [OF s1(2) _ Suc.prems(3) s1(4)] s1(3) Suc.prems(2) by auto
  have "{k..<k + Suc n} = insert k {Suc k..<Suc k + n}" by auto
  moreover have "[k..<k + Suc n] = k # [Suc k..<Suc k + n]" by (simp add: upt_rec)
  ultimately show ?case using s1 s2 by (auto simp: bind_r_def)
qed simp

end

definition pid_real :: "cpid \<Rightarrow> bool" where
  "pid_real c = (\<not> pid_is_auxiliary c)"

lemma child_aux_index: "child_aux c j = child_aux c k \<Longrightarrow> j = k"
  by (metis child_is_aux(4) of_nat_eq_iff)

interpretation spawns: process_system cps_ok cps_abs pid_real child_real cps_spawn
  by unfold_locales (use cps_spawn_ok pid_real_def in auto)

interpretation auxes: process_system cps_ok cps_abs pid_real child_aux cps_new_aux
  by unfold_locales (use cps_new_aux_ok pid_real_def child_aux_index in auto)

section \<open>Properties\<close>

text \<open>C33: \<open>CPidSystem\<close> implements the set of identifiers its comment describes: from a system in order,
  \<open>spawn\<close> and \<open>new_aux\<close> on a real member \<open>c\<close> return, without failing an assertion, the first child
  \<open><c.k>\<close> (\<open><c/k>\<close>) that is not yet a member, every smaller one being a member, add exactly it to the
  set and leave the tables in order.\<close>

theorem cps_refines:
  assumes "cps_ok s" "c \<in> cps_abs s" "pid_real c"
  shows "(\<exists>k s'. cps_spawn s c = Inr (child_real c k, s') \<and> cps_ok s' \<and>
      cps_abs s' = insert (child_real c k) (cps_abs s) \<and> (\<forall>j. child_real c j \<in> cps_abs s \<longleftrightarrow> j < k)) \<and>
    (\<exists>k s'. cps_new_aux s c = Inr (child_aux c k, s') \<and> cps_ok s' \<and>
      cps_abs s' = insert (child_aux c k) (cps_abs s) \<and> (\<forall>j. child_aux c j \<in> cps_abs s \<longleftrightarrow> j < k))"
  using spawns.fresh_child [OF assms] auxes.fresh_child [OF assms] by blast

lemma pid_init_real [simp]: "pid_real pid_init"
  by (simp add: pid_real_def pid_init_def pid_is_auxiliary_def)

theorem cps_refines_witness:
  "\<exists>k s'. cps_spawn cps_init pid_init = Inr (child_real pid_init k, s') \<and> cps_ok s' \<and>
     cps_abs s' = insert (child_real pid_init k) {pid_init}"
  using cps_refines [of cps_init pid_init] cps_init_ok by auto

text \<open>\<open>n\<close> threads started one after another by the initial process are \<open><0.0>\<close> to \<open><0.(n-1)>\<close>, and
  \<open>m\<close> auxiliary processes after them are \<open><0/0>\<close> to \<open><0/(m-1)>\<close>: no name is given twice.\<close>

theorem cps_names:
  "\<exists>s s'. take_children cps_spawn n cps_init pid_init = Inr (map (child_real pid_init) [0..<n], s) \<and>
     take_children cps_new_aux m s pid_init = Inr (map (child_aux pid_init) [0..<m], s') \<and>
     cps_abs s' = {pid_init} \<union> child_real pid_init ` {0..<n} \<union> child_aux pid_init ` {0..<m}"
proof -
  have real: "child_real pid_init j \<noteq> pid_init" for j by (rule child_is_aux(5))
  have aux: "child_aux pid_init j \<noteq> pid_init" "child_aux pid_init j \<noteq> child_real pid_init i" for i j
    using pid_init_real child_is_aux(1,2) unfolding pid_real_def by metis+
  obtain s where s: "take_children cps_spawn n cps_init pid_init = Inr (map (child_real pid_init) [0..<0 + n], s)"
    "cps_ok s" "cps_abs s = cps_abs cps_init \<union> child_real pid_init ` {0..<0 + n}"
    using spawns.take_children_names [of cps_init pid_init 0 n] cps_init_ok real by auto
  obtain s' where s': "take_children cps_new_aux m s pid_init = Inr (map (child_aux pid_init) [0..<0 + m], s')"
    "cps_abs s' = cps_abs s \<union> child_aux pid_init ` {0..<0 + m}"
  proof -
    have "\<forall>j. child_aux pid_init j \<in> cps_abs s \<longleftrightarrow> j < 0" using s(3) cps_init_ok(2) aux by auto
    moreover have "pid_init \<in> cps_abs s" using s(3) cps_init_ok(2) by simp
    ultimately show thesis using that auxes.take_children_names [OF s(2), of pid_init 0 m] pid_init_real by blast
  qed
  show ?thesis using s s' cps_init_ok by auto
qed

text \<open>the comparison of identifiers is a total order on those the constructors make: 0 exactly on
  equal identifiers, opposite when the arguments are swapped, and transitive.\<close>

theorem pid_compare_total_order:
  assumes "pid_aux a \<ge> - 1" "pid_aux b \<ge> - 1"
  shows "(pid_eq a b \<longleftrightarrow> a = b) \<and> pid_compare b a = - pid_compare a b \<and> (pid_leq a b \<longleftrightarrow> pid_less a b \<or> a = b) \<and>
    (pid_less a b \<and> pid_less b d \<longrightarrow> pid_less a d)"
proof (intro conjI impI)
  show "pid_eq a b \<longleftrightarrow> a = b" using pid_compare_zero [OF assms] by (simp add: pid_eq_def)
  show "pid_leq a b \<longleftrightarrow> pid_less a b \<or> a = b"
    using pid_compare_zero [OF assms] by (auto simp: pid_leq_def pid_less_def)
qed (use pid_compare_flip pid_less_trans in blast)+

theorem pid_compare_total_order_witness:
  "pid_less pid_init (child_real pid_init 1)"
proof -
  have "pid_less pid_init (child_real pid_init 0)" "pid_less (child_real pid_init 0) (child_real pid_init 1)"
    by (simp_all add: pid_init_def child_real_def pid_less_def pid_compare_def)
  thus ?thesis
    using pid_compare_total_order [of pid_init "child_real pid_init 0" "child_real pid_init 1"]
    by (simp add: pid_init_def)
qed

text \<open>C40: \<open>parent\<close> undoes \<open>spawn\<close> and \<open>aux\<close>, which succeed on a real process.\<close>

theorem pid_parent_child:
  assumes "pid_aux c \<ge> - 1" "pid_real c"
  shows "bind_r (pid_spawn c (int k)) pid_parent = Inr c \<and> bind_r (pid_aux_of c (int k)) pid_parent = Inr c"
proof -
  have "pid_aux c = - 1" using assms by (simp add: pid_real_def pid_is_auxiliary_def)
  thus ?thesis
    by (cases c) (simp add: pid_parent_def pid_has_parent_def pid_is_auxiliary_def pid_spawn_def pid_aux_of_def)
qed

theorem pid_parent_child_witness: "bind_r (pid_aux_of pid_init 3) pid_parent = Inr pid_init"
proof -
  have "pid_aux pid_init \<ge> - 1" by (simp add: pid_init_def)
  thus ?thesis using pid_parent_child [of pid_init 3] pid_init_real by simp
qed

end
