(* ===== verification/SymAddr.thy ===== *)
theory SymAddr
  imports Prelude "HOL-Library.Word"
begin

unbundle bit_operations_syntax

text \<open>
  Symbolic addresses (src/src/SymAddr.h, SymAddr.cpp): a memory block (\<open>SymMBlock\<close>), an offset in
  it (\<open>SymAddr\<close>), a byte range (\<open>SymAddrSize\<close>) and a byte range with its contents
  (\<open>SymData\<close>). Every member keeps the width it has in the code; the signed 16-bit \<open>alloc\<close> is
  read with \<open>sint\<close>.
\<close>

section \<open>Memory blocks\<close>

record sym_mblock =
  mb_pid :: "16 word"
  mb_alloc :: "16 word"

definition mb_make :: "int \<Rightarrow> int \<Rightarrow> sym_mblock result" where
  "mb_make p a =
     assert_r (0 \<le> p \<and> p \<le> 65535)
       (assert_r (- 32768 \<le> a \<and> a \<le> 32767)
         (Inr \<lparr>mb_pid = word_of_int p, mb_alloc = word_of_int a\<rparr>))"

definition mb_null :: sym_mblock where
  "mb_null = \<lparr>mb_pid = word_of_int 65535, mb_alloc = word_of_int (- 1)\<rparr>"

definition mb_global :: "nat \<Rightarrow> sym_mblock result" where
  "mb_global n = assert_r (n \<le> 32767) (mb_make 65535 (int n))"

definition mb_stack :: "int \<Rightarrow> nat \<Rightarrow> sym_mblock result" where
  "mb_stack p n = assert_r (n \<le> 32767) (mb_make p (- 1 - int n))"

definition mb_heap :: "int \<Rightarrow> nat \<Rightarrow> sym_mblock result" where
  "mb_heap p n = assert_r (n \<le> 32767) (mb_make p (int n))"

definition mb_leq :: "sym_mblock \<Rightarrow> sym_mblock \<Rightarrow> bool" where
  "mb_leq a b =
     (mb_pid a < mb_pid b \<or> (mb_pid a = mb_pid b \<and> sint (mb_alloc a) \<le> sint (mb_alloc b)))"

definition mb_less :: "sym_mblock \<Rightarrow> sym_mblock \<Rightarrow> bool" where
  "mb_less a b = (mb_leq a b \<and> a \<noteq> b)"

definition mb_is_null :: "sym_mblock \<Rightarrow> bool" where
  "mb_is_null b = (uint (mb_pid b) = 65535 \<and> sint (mb_alloc b) = - 1)"

definition mb_is_global :: "sym_mblock \<Rightarrow> bool" where
  "mb_is_global b = (uint (mb_pid b) = 65535)"

definition mb_is_stack :: "sym_mblock \<Rightarrow> bool" where
  "mb_is_stack b = (\<not> mb_is_global b \<and> sint (mb_alloc b) < 0)"

definition mb_is_heap :: "sym_mblock \<Rightarrow> bool" where
  "mb_is_heap b = (\<not> mb_is_global b \<and> sint (mb_alloc b) \<ge> 0)"

definition mb_get_no :: "sym_mblock \<Rightarrow> nat" where
  "mb_get_no b =
     (if sint (mb_alloc b) < 0 then nat (- 1 - sint (mb_alloc b)) else nat (sint (mb_alloc b)))"

definition mb_to_string :: "(int \<Rightarrow> string) \<Rightarrow> sym_mblock \<Rightarrow> string" where
  "mb_to_string pid_str b =
     (if mb_is_null b then ''Null()''
      else (if mb_is_global b then ''Global(''
            else (if mb_is_stack b then ''Stack('' else ''Heap('') @ pid_str (uint (mb_pid b)) @ '','')
           @ dec_nat (mb_get_no b) @ '')'')"

section \<open>Addresses\<close>

record sym_addr =
  sa_block :: sym_mblock
  sa_offset :: "32 word"

definition sa_null :: sym_addr where
  "sa_null = \<lparr>sa_block = mb_null, sa_offset = 0\<rparr>"

definition sa_make :: "sym_mblock \<Rightarrow> nat \<Rightarrow> sym_addr result" where
  "sa_make b off =
     assert_r (\<not> mb_is_null b)
       (assert_r (off \<le> 4294967295) (Inr \<lparr>sa_block = b, sa_offset = of_nat off\<rparr>))"

definition sa_leq :: "sym_addr \<Rightarrow> sym_addr \<Rightarrow> bool" where
  "sa_leq a b =
     (mb_less (sa_block a) (sa_block b) \<or> (sa_block a = sa_block b \<and> sa_offset a \<le> sa_offset b))"

definition sa_less :: "sym_addr \<Rightarrow> sym_addr \<Rightarrow> bool" where
  "sa_less a b = (sa_leq a b \<and> a \<noteq> b)"

definition sa_incr :: "sym_addr \<Rightarrow> sym_addr" where
  "sa_incr a = a\<lparr>sa_offset := sa_offset a + 1\<rparr>"

definition sa_decr :: "sym_addr \<Rightarrow> sym_addr" where
  "sa_decr a = a\<lparr>sa_offset := sa_offset a - 1\<rparr>"

text \<open>The 64-bit addend is added modulo \<open>2 ^ 32\<close>.\<close>

definition sa_plus :: "sym_addr \<Rightarrow> int \<Rightarrow> sym_addr" where
  "sa_plus a d = a\<lparr>sa_offset := sa_offset a + word_of_int d\<rparr>"

definition sa_minus :: "sym_addr \<Rightarrow> int \<Rightarrow> sym_addr" where
  "sa_minus a d = a\<lparr>sa_offset := sa_offset a - word_of_int d\<rparr>"

text \<open>The difference is computed in \<open>uint32_t\<close> and then widened.\<close>

definition sa_diff :: "sym_addr \<Rightarrow> sym_addr \<Rightarrow> int result" where
  "sa_diff a b = assert_r (sa_block a = sa_block b) (Inr (uint (sa_offset a - sa_offset b)))"

definition sa_to_string :: "(int \<Rightarrow> string) \<Rightarrow> sym_addr \<Rightarrow> string" where
  "sa_to_string pid_str a =
     (if sa_offset a = 0 then mb_to_string pid_str (sa_block a)
      else ''('' @ mb_to_string pid_str (sa_block a) @ ''+'' @ dec_nat (unat (sa_offset a)) @ '')'')"

definition sa_hash :: "sym_addr \<Rightarrow> 64 word" where
  "sa_hash a =
     (ucast (mb_pid (sa_block a)) OR push_bit 16 (ucast (mb_alloc (sa_block a)))
      OR push_bit 32 (ucast (sa_offset a)))"

section \<open>Byte ranges\<close>

record sym_addr_size =
  sas_addr :: sym_addr
  sas_size :: "16 word"

definition sas_make :: "sym_addr \<Rightarrow> nat \<Rightarrow> sym_addr_size result" where
  "sas_make a n = assert_r (n \<le> 65535) (Inr \<lparr>sas_addr = a, sas_size = of_nat n\<rparr>)"

text \<open>The bounds of a range as \<open>uintptr_t\<close> values.\<close>

definition sas_low :: "sym_addr_size \<Rightarrow> 64 word" where
  "sas_low s = ucast (sa_offset (sas_addr s))"

definition sas_high :: "sym_addr_size \<Rightarrow> 64 word" where
  "sas_high s = sas_low s + ucast (sas_size s)"

definition sas_subsetof :: "sym_addr_size \<Rightarrow> sym_addr_size \<Rightarrow> bool" where
  "sas_subsetof s t =
     (if sa_block (sas_addr s) \<noteq> sa_block (sas_addr t) then False
      else sas_low s \<ge> sas_low t \<and> sas_high s \<le> sas_high t)"

definition sas_overlaps :: "sym_addr_size \<Rightarrow> sym_addr_size \<Rightarrow> bool" where
  "sas_overlaps s t =
     (if sa_block (sas_addr s) \<noteq> sa_block (sas_addr t) then False
      else sas_low t < sas_high s \<and> sas_low s < sas_high t)"

text \<open>Here \<open>addr.offset + size\<close> is a 32-bit sum.\<close>

definition sas_includes :: "sym_addr_size \<Rightarrow> sym_addr \<Rightarrow> bool" where
  "sas_includes s a =
     (sa_block (sas_addr s) = sa_block a \<and> sa_offset (sas_addr s) \<le> sa_offset a
      \<and> sa_offset (sas_addr s) + ucast (sas_size s) > sa_offset a)"

definition sas_to_string :: "(int \<Rightarrow> string) \<Rightarrow> sym_addr_size \<Rightarrow> string" where
  "sas_to_string pid_str s =
     sa_to_string pid_str (sas_addr s) @ ''('' @ dec_nat (unat (sas_size s)) @ '')''"

text \<open>The iterator over the bytes of a range is an address.\<close>

definition sas_begin :: "sym_addr_size \<Rightarrow> sym_addr" where
  "sas_begin s = sas_addr s"

definition sas_end :: "sym_addr_size \<Rightarrow> sym_addr" where
  "sas_end s = sa_plus (sas_addr s) (uint (sas_size s))"

section \<open>Data\<close>

text \<open>
  \<open>block_type\<close> is a shared pointer to bytes: \<open>None\<close> is the null pointer. Nothing in the modelled
  code writes through it, so the block is its contents.
\<close>

type_synonym block_type = "8 word list option"

record sym_data =
  sd_ref :: sym_addr_size
  sd_block :: block_type

definition sd_make :: "sym_addr_size \<Rightarrow> block_type \<Rightarrow> sym_data" where
  "sd_make r b = \<lparr>sd_ref = r, sd_block = b\<rparr>"

definition sd_nth :: "sym_data \<Rightarrow> sym_addr \<Rightarrow> 8 word result" where
  "sd_nth d a =
     assert_r (sas_includes (sd_ref d) a)
       (bind_r (sa_diff a (sas_addr (sd_ref d))) (\<lambda>i.
         case sd_block d of
           None \<Rightarrow> Inl Bad_deref
         | Some bs \<Rightarrow> if nat i < length bs then Inr (bs ! nat i) else Inl Out_of_range))"

section \<open>Blocks: lemmas\<close>

lemma sint_word_of_int_16: "- 32768 \<le> a \<Longrightarrow> a \<le> 32767 \<Longrightarrow> sint (word_of_int a :: 16 word) = a"
  by (simp add: sint_sbintrunc' signed_take_bit_int_eq_self)

lemma uint_word_of_int_16: "0 \<le> p \<Longrightarrow> p \<le> 65535 \<Longrightarrow> uint (word_of_int p :: 16 word) = p"
  by (simp add: uint_word_of_int take_bit_eq_mod)

lemma mb_make_Inr:
  assumes "mb_make p a = Inr b"
  shows "uint (mb_pid b) = p" "sint (mb_alloc b) = a" "0 \<le> p \<and> p \<le> 65535" "- 32768 \<le> a \<and> a \<le> 32767"
  using assms by (auto simp: mb_make_def assert_r_eq_Inr sint_word_of_int_16 uint_word_of_int_16)

section \<open>Ranges as sets of bytes\<close>

definition sas_bytes :: "sym_addr_size \<Rightarrow> (sym_mblock \<times> nat) set" where
  "sas_bytes s =
     {sa_block (sas_addr s)} \<times>
     {unat (sa_offset (sas_addr s)) ..< unat (sa_offset (sas_addr s)) + unat (sas_size s)}"

lemma unat_ucast_up:
  fixes w :: "'a::len word"
  assumes "LENGTH('a) \<le> LENGTH('b)"
  shows "unat (ucast w :: 'b::len word) = unat w"
proof -
  have "unat w < 2 ^ LENGTH('b)"
    using unsigned_less [of w, where ?'a = nat] assms
    by (meson less_le_trans one_le_numeral power_increasing)
  thus ?thesis by (simp add: unsigned_ucast_eq take_bit_nat_eq_self)
qed

lemma unat_sas_low: "unat (sas_low s) = unat (sa_offset (sas_addr s))"
  by (simp add: sas_low_def unat_ucast_up)

lemma unat_sas_high: "unat (sas_high s) = unat (sa_offset (sas_addr s)) + unat (sas_size s)"
proof -
  have "unat (sa_offset (sas_addr s)) < 2 ^ 32" "unat (sas_size s) < 2 ^ 16"
    using unsigned_less [of "sa_offset (sas_addr s)", where ?'a = nat]
      unsigned_less [of "sas_size s", where ?'a = nat] by simp_all
  thus ?thesis
    by (simp add: sas_high_def unat_word_ariths unat_sas_low unat_ucast_up)
qed

lemma sas_overlaps_iff:
  "sas_size s \<noteq> 0 \<Longrightarrow> sas_size t \<noteq> 0 \<Longrightarrow> sas_overlaps s t \<longleftrightarrow> sas_bytes s \<inter> sas_bytes t \<noteq> {}"
proof -
  assume ne: "sas_size s \<noteq> 0" "sas_size t \<noteq> 0"
  have iv: "{a..<a + m} \<inter> {b..<b + n} \<noteq> {} \<longleftrightarrow> b < a + m \<and> a < b + n" if "0 < m" "0 < n" for a b m n :: nat
  proof
    assume "b < a + m \<and> a < b + n"
    hence "max a b \<in> {a..<a + m} \<inter> {b..<b + n}" using that by auto
    thus "{a..<a + m} \<inter> {b..<b + n} \<noteq> {}" by blast
  qed auto
  have pos: "0 < unat (sas_size s)" "0 < unat (sas_size t)"
    using ne by (simp_all add: unat_gt_0)
  show ?thesis
    using iv [OF pos, of "unat (sa_offset (sas_addr s))" "unat (sa_offset (sas_addr t))"]
    by (auto simp: sas_overlaps_def sas_bytes_def word_less_nat_alt unat_sas_low unat_sas_high Times_Int_Times)
qed

lemma sas_subsetof_iff:
  "sas_size s \<noteq> 0 \<Longrightarrow> sas_subsetof s t \<longleftrightarrow> sas_bytes s \<subseteq> sas_bytes t"
proof -
  assume "sas_size s \<noteq> 0"
  hence "0 < unat (sas_size s)" by (simp add: unat_gt_0)
  thus ?thesis
    by (simp add: sas_subsetof_def sas_bytes_def word_le_nat_alt unat_sas_low unat_sas_high
        times_subset_iff ivl_subset)
qed

lemma sas_includes_iff:
  assumes "unat (sa_offset (sas_addr s)) + unat (sas_size s) < 2 ^ 32"
  shows "sas_includes s a \<longleftrightarrow> (sa_block a, unat (sa_offset a)) \<in> sas_bytes s"
proof -
  have "unat (sa_offset (sas_addr s) + ucast (sas_size s)) = unat (sa_offset (sas_addr s)) + unat (sas_size s)"
    using assms by (simp add: unat_word_ariths unat_ucast_up)
  thus ?thesis
    by (auto simp: sas_includes_def sas_bytes_def word_less_nat_alt word_le_nat_alt)
qed

section \<open>Properties\<close>

text \<open>a block built by one of the three constructors is of that kind only, and
  \<open>get_no\<close> returns the number it was built from, for every process id below \<open>UINT16_MAX\<close>; with
  \<open>pid = UINT16_MAX\<close> the assertions pass as well but a stack or heap block is then a global one.\<close>

theorem mb_roundtrip:
  assumes "n \<le> 32767" "0 \<le> p" "p < 65535"
  shows "(\<exists>b. mb_global n = Inr b \<and> mb_is_global b \<and> \<not> mb_is_stack b \<and> \<not> mb_is_heap b \<and> \<not> mb_is_null b \<and> mb_get_no b = n)
    \<and> (\<exists>b. mb_stack p n = Inr b \<and> mb_is_stack b \<and> \<not> mb_is_global b \<and> \<not> mb_is_heap b \<and> mb_get_no b = n)
    \<and> (\<exists>b. mb_heap p n = Inr b \<and> mb_is_heap b \<and> \<not> mb_is_global b \<and> \<not> mb_is_stack b \<and> mb_get_no b = n)
    \<and> mb_heap 65535 n = mb_global n"
proof -
  have make: "\<exists>b. mb_make q a = Inr b \<and> uint (mb_pid b) = q \<and> sint (mb_alloc b) = a"
    if "0 \<le> q" "q \<le> 65535" "- 32768 \<le> a" "a \<le> 32767" for q a
    using that by (auto simp: mb_make_def sint_word_of_int_16 uint_word_of_int_16)
  obtain g s h where g: "mb_make 65535 (int n) = Inr g" "uint (mb_pid g) = 65535" "sint (mb_alloc g) = int n"
    and s: "mb_make p (- 1 - int n) = Inr s" "uint (mb_pid s) = p" "sint (mb_alloc s) = - 1 - int n"
    and h: "mb_make p (int n) = Inr h" "uint (mb_pid h) = p" "sint (mb_alloc h) = int n"
    using make [of 65535 "int n"] make [of p "- 1 - int n"] make [of p "int n"] assms by auto
  have "mb_is_global g \<and> \<not> mb_is_stack g \<and> \<not> mb_is_heap g \<and> \<not> mb_is_null g \<and> mb_get_no g = n"
    "mb_is_stack s \<and> \<not> mb_is_global s \<and> \<not> mb_is_heap s \<and> mb_get_no s = n"
    "mb_is_heap h \<and> \<not> mb_is_global h \<and> \<not> mb_is_stack h \<and> mb_get_no h = n"
    using g s h assms
    by (simp_all add: mb_is_global_def mb_is_stack_def mb_is_heap_def mb_is_null_def mb_get_no_def)
  thus ?thesis using g s h assms(1) by (simp add: mb_global_def mb_stack_def mb_heap_def)
qed

theorem mb_roundtrip_witness: "\<exists>b. mb_stack 3 7 = Inr b \<and> mb_is_stack b \<and> mb_get_no b = 7"
  using mb_roundtrip [of 7 3] by auto

text \<open>on non-empty ranges \<open>overlaps\<close> is "share a byte" and \<open>subsetof\<close> is inclusion of the
  bytes, for all offsets, since the bounds are computed in 64 bits.\<close>

theorem sas_range_tests:
  assumes "sas_size s \<noteq> 0" "sas_size t \<noteq> 0"
  shows "(sas_overlaps s t \<longleftrightarrow> sas_bytes s \<inter> sas_bytes t \<noteq> {}) \<and>
    (sas_subsetof s t \<longleftrightarrow> sas_bytes s \<subseteq> sas_bytes t) \<and>
    (sas_subsetof s t \<longrightarrow> sas_overlaps s t) \<and> (sas_overlaps s t \<longleftrightarrow> sas_overlaps t s)"
proof -
  have "sas_bytes s \<noteq> {}" using assms(1) by (simp add: sas_bytes_def unat_gt_0)
  moreover have "sas_overlaps s t \<longleftrightarrow> sas_overlaps t s" by (auto simp: sas_overlaps_def)
  ultimately show ?thesis
    using sas_overlaps_iff [OF assms] sas_subsetof_iff [OF assms(1), of t] by blast
qed

theorem sas_range_tests_witness:
  "sas_overlaps \<lparr>sas_addr = \<lparr>sa_block = mb_null, sa_offset = 4\<rparr>, sas_size = 4\<rparr>
     \<lparr>sas_addr = \<lparr>sa_block = mb_null, sa_offset = 6\<rparr>, sas_size = 1\<rparr>"
  using sas_range_tests [of "\<lparr>sas_addr = \<lparr>sa_block = mb_null, sa_offset = 6\<rparr>, sas_size = 1\<rparr>"
      "\<lparr>sas_addr = \<lparr>sa_block = mb_null, sa_offset = 4\<rparr>, sas_size = 4\<rparr>"]
  by (simp add: sas_bytes_def times_subset_iff) blast

text \<open>\<open>includes\<close> is membership of the byte when the end of the range fits 32 bits; for a range
  that ends at \<open>2 ^ 32\<close> its end wraps to 0 and it includes nothing, not even its first byte,
  although it overlaps itself.\<close>

theorem sas_includes_bytes:
  assumes "unat (sa_offset (sas_addr s)) + unat (sas_size s) < 2 ^ 32"
  shows "(sas_includes s a \<longleftrightarrow> (sa_block a, unat (sa_offset a)) \<in> sas_bytes s) \<and>
    \<not> sas_includes \<lparr>sas_addr = \<lparr>sa_block = b, sa_offset = - 4\<rparr>, sas_size = 4\<rparr> \<lparr>sa_block = b, sa_offset = - 4\<rparr>"
  using sas_includes_iff [OF assms, of a] by (simp add: sas_includes_def)

theorem sas_includes_bytes_witness:
  "sas_includes \<lparr>sas_addr = \<lparr>sa_block = mb_null, sa_offset = 4\<rparr>, sas_size = 4\<rparr> \<lparr>sa_block = mb_null, sa_offset = 7\<rparr>"
  using sas_includes_bytes [of "\<lparr>sas_addr = \<lparr>sa_block = mb_null, sa_offset = 4\<rparr>, sas_size = 4\<rparr>"
      "\<lparr>sa_block = mb_null, sa_offset = 7\<rparr>" mb_null]
  by (simp add: sas_bytes_def)

end
