(* ===== verification/SymEv.thy ===== *)
theory SymEv
  imports Prelude SymAddr
begin

text \<open>
  Symbolic events (src/src/SymEv.h, SymEv.cpp): what an instruction did, as the interpreter reports it
  to the trace builder. The \<open>union arg\<close> is a datatype; reading the member that is not the active one
  is undefined in C++ and gives \<open>None\<close> here, which no guarded use in the code does.
\<close>

section \<open>The event\<close>

datatype sev_kind_t =
    NONE | NONDET | LOAD | STORE | FULLMEM | RMW | CMPXHG | CMPXHGFAIL
  | M_INIT | M_LOCK | M_TRYLOCK | M_TRYLOCK_FAIL | M_UNLOCK | M_DELETE
  | C_INIT | C_SIGNAL | C_BRDCST | C_WAIT | C_AWAKE | C_DELETE
  | SPAWN | JOIN | UNOBS_STORE

datatype sev_arg_t = Arg_none | Arg_addr sym_addr_size | Arg_num int

fun arg_addr :: "sev_arg_t \<Rightarrow> sym_addr_size option" where
  "arg_addr (Arg_addr a) = Some a"
| "arg_addr Arg_none = None"
| "arg_addr (Arg_num n) = None"

fun arg_num :: "sev_arg_t \<Rightarrow> int option" where
  "arg_num (Arg_num n) = Some n"
| "arg_num Arg_none = None"
| "arg_num (Arg_addr a) = None"

record sym_ev =
  sev_kind :: sev_kind_t
  sev_arg :: sev_arg_t
  sev_expected :: block_type
  sev_written :: block_type

section \<open>Constructors\<close>

definition sev_plain :: "sev_kind_t \<Rightarrow> sev_arg_t \<Rightarrow> sym_ev" where
  "sev_plain k a = \<lparr>sev_kind = k, sev_arg = a, sev_expected = None, sev_written = None\<rparr>"

definition sev_data_ev :: "sev_kind_t \<Rightarrow> sym_data \<Rightarrow> sym_ev" where
  "sev_data_ev k d =
     \<lparr>sev_kind = k, sev_arg = Arg_addr (sd_ref d), sev_expected = None, sev_written = sd_block d\<rparr>"

definition sev_data_exp_ev :: "sev_kind_t \<Rightarrow> sym_data \<Rightarrow> block_type \<Rightarrow> sym_ev" where
  "sev_data_exp_ev k d e =
     \<lparr>sev_kind = k, sev_arg = Arg_addr (sd_ref d), sev_expected = e, sev_written = sd_block d\<rparr>"

definition sev_none :: sym_ev where
  "sev_none = sev_plain NONE Arg_none"

definition sev_nondet :: "int \<Rightarrow> sym_ev" where
  "sev_nondet n = sev_plain NONDET (Arg_num n)"

definition sev_store :: "sym_data \<Rightarrow> sym_ev" where
  "sev_store d = sev_data_ev STORE d"

definition sev_rmw :: "sym_data \<Rightarrow> sym_ev" where
  "sev_rmw d = sev_data_ev RMW d"

definition sev_cmpxhg :: "sym_data \<Rightarrow> block_type \<Rightarrow> sym_ev" where
  "sev_cmpxhg d e = sev_data_exp_ev CMPXHG d e"

definition sev_cmpxhgfail :: "sym_data \<Rightarrow> block_type \<Rightarrow> sym_ev" where
  "sev_cmpxhgfail d e = sev_data_exp_ev CMPXHGFAIL d e"

definition sev_fullmem :: sym_ev where
  "sev_fullmem = sev_plain FULLMEM Arg_none"

definition sev_unobs_store :: "sym_data \<Rightarrow> sym_ev" where
  "sev_unobs_store d = sev_data_ev UNOBS_STORE d"

definition sev_spawn :: "int \<Rightarrow> sym_ev" where
  "sev_spawn p = sev_plain SPAWN (Arg_num p)"

definition sev_join :: "int \<Rightarrow> sym_ev" where
  "sev_join p = sev_plain JOIN (Arg_num p)"

definition sev_load :: "sym_addr_size \<Rightarrow> sym_ev" where
  "sev_load a = sev_plain LOAD (Arg_addr a)"

definition sev_m_init :: "sym_addr_size \<Rightarrow> sym_ev" where
  "sev_m_init a = sev_plain M_INIT (Arg_addr a)"

definition sev_m_lock :: "sym_addr_size \<Rightarrow> sym_ev" where
  "sev_m_lock a = sev_plain M_LOCK (Arg_addr a)"

definition sev_m_trylock :: "sym_addr_size \<Rightarrow> sym_ev" where
  "sev_m_trylock a = sev_plain M_TRYLOCK (Arg_addr a)"

definition sev_m_trylock_fail :: "sym_addr_size \<Rightarrow> sym_ev" where
  "sev_m_trylock_fail a = sev_plain M_TRYLOCK_FAIL (Arg_addr a)"

definition sev_m_unlock :: "sym_addr_size \<Rightarrow> sym_ev" where
  "sev_m_unlock a = sev_plain M_UNLOCK (Arg_addr a)"

definition sev_m_delete :: "sym_addr_size \<Rightarrow> sym_ev" where
  "sev_m_delete a = sev_plain M_DELETE (Arg_addr a)"

definition sev_c_init :: "sym_addr_size \<Rightarrow> sym_ev" where
  "sev_c_init a = sev_plain C_INIT (Arg_addr a)"

definition sev_c_signal :: "sym_addr_size \<Rightarrow> sym_ev" where
  "sev_c_signal a = sev_plain C_SIGNAL (Arg_addr a)"

definition sev_c_brdcst :: "sym_addr_size \<Rightarrow> sym_ev" where
  "sev_c_brdcst a = sev_plain C_BRDCST (Arg_addr a)"

definition sev_c_wait :: "sym_addr_size \<Rightarrow> sym_ev" where
  "sev_c_wait a = sev_plain C_WAIT (Arg_addr a)"

definition sev_c_awake :: "sym_addr_size \<Rightarrow> sym_ev" where
  "sev_c_awake a = sev_plain C_AWAKE (Arg_addr a)"

definition sev_c_delete :: "sym_addr_size \<Rightarrow> sym_ev" where
  "sev_c_delete a = sev_plain C_DELETE (Arg_addr a)"

section \<open>Classification\<close>

fun sev_has_addr_kind :: "sev_kind_t \<Rightarrow> bool" where
  "sev_has_addr_kind LOAD = True"
| "sev_has_addr_kind STORE = True"
| "sev_has_addr_kind M_INIT = True"
| "sev_has_addr_kind M_LOCK = True"
| "sev_has_addr_kind M_UNLOCK = True"
| "sev_has_addr_kind M_DELETE = True"
| "sev_has_addr_kind M_TRYLOCK = True"
| "sev_has_addr_kind M_TRYLOCK_FAIL = True"
| "sev_has_addr_kind C_INIT = True"
| "sev_has_addr_kind C_SIGNAL = True"
| "sev_has_addr_kind C_BRDCST = True"
| "sev_has_addr_kind C_DELETE = True"
| "sev_has_addr_kind C_WAIT = True"
| "sev_has_addr_kind C_AWAKE = True"
| "sev_has_addr_kind UNOBS_STORE = True"
| "sev_has_addr_kind RMW = True"
| "sev_has_addr_kind CMPXHG = True"
| "sev_has_addr_kind CMPXHGFAIL = True"
| "sev_has_addr_kind NONE = False"
| "sev_has_addr_kind FULLMEM = False"
| "sev_has_addr_kind NONDET = False"
| "sev_has_addr_kind SPAWN = False"
| "sev_has_addr_kind JOIN = False"

fun sev_has_num_kind :: "sev_kind_t \<Rightarrow> bool" where
  "sev_has_num_kind SPAWN = True"
| "sev_has_num_kind JOIN = True"
| "sev_has_num_kind NONDET = True"
| "sev_has_num_kind NONE = False"
| "sev_has_num_kind FULLMEM = False"
| "sev_has_num_kind LOAD = False"
| "sev_has_num_kind STORE = False"
| "sev_has_num_kind M_INIT = False"
| "sev_has_num_kind M_LOCK = False"
| "sev_has_num_kind M_UNLOCK = False"
| "sev_has_num_kind M_DELETE = False"
| "sev_has_num_kind M_TRYLOCK = False"
| "sev_has_num_kind M_TRYLOCK_FAIL = False"
| "sev_has_num_kind C_INIT = False"
| "sev_has_num_kind C_SIGNAL = False"
| "sev_has_num_kind C_BRDCST = False"
| "sev_has_num_kind C_DELETE = False"
| "sev_has_num_kind C_WAIT = False"
| "sev_has_num_kind C_AWAKE = False"
| "sev_has_num_kind UNOBS_STORE = False"
| "sev_has_num_kind RMW = False"
| "sev_has_num_kind CMPXHG = False"
| "sev_has_num_kind CMPXHGFAIL = False"

definition sev_has_addr :: "sym_ev \<Rightarrow> bool" where
  "sev_has_addr e = sev_has_addr_kind (sev_kind e)"

definition sev_has_num :: "sym_ev \<Rightarrow> bool" where
  "sev_has_num e = sev_has_num_kind (sev_kind e)"

definition sev_has_data :: "sym_ev \<Rightarrow> bool" where
  "sev_has_data e =
     (if sev_kind e \<in> {STORE, UNOBS_STORE, RMW, CMPXHG, CMPXHGFAIL} then sev_written e \<noteq> None else False)"

text \<open>As written, \<open>has_expected\<close> looks at \<open>_written\<close>.\<close>

definition sev_has_expected :: "sym_ev \<Rightarrow> bool" where
  "sev_has_expected e =
     (if sev_kind e \<in> {CMPXHG, CMPXHGFAIL} then sev_written e \<noteq> None else False)"

definition sev_empty :: "sym_ev \<Rightarrow> bool" where
  "sev_empty e = (sev_kind e = NONE)"

definition sev_addr :: "sym_ev \<Rightarrow> sym_addr_size result" where
  "sev_addr e =
     assert_r (sev_has_addr e) (case arg_addr (sev_arg e) of Some a \<Rightarrow> Inr a | None \<Rightarrow> Inl Bad_deref)"

definition sev_num :: "sym_ev \<Rightarrow> int result" where
  "sev_num e =
     assert_r (sev_has_num e) (case arg_num (sev_arg e) of Some n \<Rightarrow> Inr n | None \<Rightarrow> Inl Bad_deref)"

definition sev_data :: "sym_ev \<Rightarrow> sym_data result" where
  "sev_data e =
     assert_r (sev_has_data e)
       (case arg_addr (sev_arg e) of
          Some a \<Rightarrow> Inr \<lparr>sd_ref = a, sd_block = sev_written e\<rparr> | None \<Rightarrow> Inl Bad_deref)"

definition sev_expected_data :: "sym_ev \<Rightarrow> sym_data result" where
  "sev_expected_data e =
     assert_r (sev_has_expected e)
       (case arg_addr (sev_arg e) of
          Some a \<Rightarrow> Inr \<lparr>sd_ref = a, sd_block = sev_expected e\<rparr> | None \<Rightarrow> Inl Bad_deref)"

section \<open>Comparison and update\<close>

definition sev_eq :: "sym_ev \<Rightarrow> sym_ev \<Rightarrow> bool" where
  "sev_eq a b =
     (if sev_kind a \<noteq> sev_kind b then False
      else if sev_has_addr a \<and> arg_addr (sev_arg a) \<noteq> arg_addr (sev_arg b) then False
      else if sev_has_num a \<and> arg_num (sev_arg a) \<noteq> arg_num (sev_arg b) then False
      else True)"

definition sev_is_compatible_with :: "sym_ev \<Rightarrow> sym_ev \<Rightarrow> bool" where
  "sev_is_compatible_with a b =
     (if sev_kind a \<noteq> sev_kind b
         \<and> \<not> (sev_kind a = STORE \<and> sev_kind b = UNOBS_STORE)
         \<and> \<not> (sev_kind a = M_TRYLOCK \<and> sev_kind b = M_TRYLOCK_FAIL)
         \<and> \<not> (sev_kind a = M_TRYLOCK_FAIL \<and> sev_kind b = M_TRYLOCK)
      then False
      else if sev_kind a \<in> {LOAD, M_INIT, M_LOCK, M_UNLOCK, M_DELETE, M_TRYLOCK, M_TRYLOCK_FAIL,
                C_INIT, C_SIGNAL, C_BRDCST, C_DELETE, C_WAIT, C_AWAKE,
                RMW, CMPXHG, CMPXHGFAIL, STORE, UNOBS_STORE}
      then (if arg_addr (sev_arg a) \<noteq> arg_addr (sev_arg b) then False else True)
      else if sev_kind a \<in> {SPAWN, JOIN, NONDET}
      then (if arg_num (sev_arg a) \<noteq> arg_num (sev_arg b) then False else True)
      else True)"

definition sev_purge_data :: "sym_ev \<Rightarrow> sym_ev" where
  "sev_purge_data e = e\<lparr>sev_written := None, sev_expected := None\<rparr>"

definition sev_set_observed :: "bool \<Rightarrow> sym_ev \<Rightarrow> sym_ev result" where
  "sev_set_observed observed e =
     (if observed
      then (if sev_kind e = UNOBS_STORE then Inr (e\<lparr>sev_kind := STORE\<rparr>)
            else assert_r (sev_kind e = STORE) (Inr e))
      else (if sev_kind e = STORE then Inr (e\<lparr>sev_kind := UNOBS_STORE\<rparr>)
            else assert_r (sev_kind e = UNOBS_STORE) (Inr e)))"

section \<open>Printing\<close>

definition hex_digit :: "nat \<Rightarrow> char" where
  "hex_digit n = char_of (if n < 10 then 48 + n else 87 + n)"

definition hex_byte :: "8 word \<Rightarrow> string" where
  "hex_byte b =
     (if unat b < 16 then [hex_digit (unat b)] else [hex_digit (unat b div 16), hex_digit (unat b mod 16)])"

text \<open>The loop that skips leading zero bytes stops at the last byte.\<close>

fun skip_zero_bytes :: "8 word list \<Rightarrow> 8 word list" where
  "skip_zero_bytes (b # c # bs) = (if b = 0 then skip_zero_bytes (c # bs) else b # c # bs)"
| "skip_zero_bytes bs = bs"

text \<open>\<open>res.width(2)\<close> holds for the next output only, so only the second byte is padded.\<close>

definition hex_padded :: "8 word \<Rightarrow> string" where
  "hex_padded b = (if length (hex_byte b) < 2 then CHR ''0'' # hex_byte b else hex_byte b)"

definition block_to_string :: "block_type \<Rightarrow> nat \<Rightarrow> string result" where
  "block_to_string blk sz =
     (case blk of
        None \<Rightarrow> Inr ''-''
      | Some bs \<Rightarrow>
          if sz = 0 \<or> length bs < sz then Inl Out_of_range
          else case skip_zero_bytes (rev (take sz bs)) of
                 [] \<Rightarrow> Inl Out_of_range
               | [b] \<Rightarrow> Inr (''0x'' @ hex_byte b)
               | b # c # cs \<Rightarrow> Inr (''0x'' @ hex_byte b @ hex_padded c @ concat (map hex_byte cs)))"

definition sev_show_addr :: "(int \<Rightarrow> string) \<Rightarrow> string \<Rightarrow> sym_ev \<Rightarrow> (sym_addr_size \<Rightarrow> string result) \<Rightarrow> string result" where
  "sev_show_addr pid_str name e rest =
     (case arg_addr (sev_arg e) of
        None \<Rightarrow> Inl Bad_deref
      | Some a \<Rightarrow> bind_r (rest a) (\<lambda>r. Inr (name @ ''('' @ sas_to_string pid_str a @ r @ '')'')))"

definition sev_show_num :: "(int \<Rightarrow> string) \<Rightarrow> string \<Rightarrow> sym_ev \<Rightarrow> string result" where
  "sev_show_num f name e =
     (case arg_num (sev_arg e) of None \<Rightarrow> Inl Bad_deref | Some n \<Rightarrow> Inr (name @ ''('' @ f n @ '')''))"

definition sev_show_block :: "block_type \<Rightarrow> sym_addr_size \<Rightarrow> string result" where
  "sev_show_block b a = bind_r (block_to_string b (unat (sas_size a))) (\<lambda>s. Inr ('','' @ s))"

definition sev_to_string :: "(int \<Rightarrow> string) \<Rightarrow> sym_ev \<Rightarrow> string result" where
  "sev_to_string pid_str e =
     (let plain = (\<lambda>name. sev_show_addr pid_str name e (\<lambda>a. Inr ''''));
          written = (\<lambda>name. sev_show_addr pid_str name e (sev_show_block (sev_written e)));
          both = (\<lambda>name. sev_show_addr pid_str name e (\<lambda>a.
                    bind_r (sev_show_block (sev_expected e) a) (\<lambda>x.
                      bind_r (sev_show_block (sev_written e) a) (\<lambda>w. Inr (x @ w)))))
      in case sev_kind e of
        NONE \<Rightarrow> Inr ''None()''
      | NONDET \<Rightarrow> sev_show_num dec_int ''Nondet'' e
      | FULLMEM \<Rightarrow> Inr ''Fullmem()''
      | STORE \<Rightarrow> written ''Store''
      | UNOBS_STORE \<Rightarrow> written ''UnobsStore''
      | RMW \<Rightarrow> written ''Rmw''
      | CMPXHG \<Rightarrow> both ''CmpXhg''
      | CMPXHGFAIL \<Rightarrow> both ''CmpXhgFail''
      | SPAWN \<Rightarrow> sev_show_num pid_str ''Spawn'' e
      | JOIN \<Rightarrow> sev_show_num pid_str ''Join'' e
      | LOAD \<Rightarrow> plain ''Load''
      | M_INIT \<Rightarrow> plain ''MInit''
      | M_LOCK \<Rightarrow> plain ''MLock''
      | M_TRYLOCK \<Rightarrow> plain ''MTryLock''
      | M_TRYLOCK_FAIL \<Rightarrow> plain ''MTryLockFail''
      | M_UNLOCK \<Rightarrow> plain ''MUnlock''
      | M_DELETE \<Rightarrow> plain ''MDelete''
      | C_INIT \<Rightarrow> plain ''CInit''
      | C_SIGNAL \<Rightarrow> plain ''CSignal''
      | C_BRDCST \<Rightarrow> plain ''CBrdcst''
      | C_WAIT \<Rightarrow> plain ''CWait''
      | C_AWAKE \<Rightarrow> plain ''CAwake''
      | C_DELETE \<Rightarrow> plain ''CDelete'')"

section \<open>Well-formed events\<close>

text \<open>The events the constructors build: the active member of the union fits the kind.\<close>

definition sev_wf :: "sym_ev \<Rightarrow> bool" where
  "sev_wf e =
     (if sev_has_addr e then arg_addr (sev_arg e) \<noteq> None
      else if sev_has_num e then arg_num (sev_arg e) \<noteq> None
      else sev_arg e = Arg_none)"

lemma arg_addr_eq_Some: "arg_addr x = Some a \<longleftrightarrow> x = Arg_addr a"
  by (cases x) auto

lemma arg_num_eq_Some: "arg_num x = Some n \<longleftrightarrow> x = Arg_num n"
  by (cases x) auto

lemma sev_addr_not_num: "sev_has_addr e \<Longrightarrow> \<not> sev_has_num e"
  by (cases "sev_kind e") (simp_all add: sev_has_addr_def sev_has_num_def)

lemma sev_wf_cases:
  assumes "sev_wf e"
  obtains (addr) x where "sev_has_addr e" "\<not> sev_has_num e" "sev_arg e = Arg_addr x"
  | (num) n where "\<not> sev_has_addr e" "sev_has_num e" "sev_arg e = Arg_num n"
  | (none) "\<not> sev_has_addr e" "\<not> sev_has_num e" "sev_arg e = Arg_none"
  using assms sev_addr_not_num [of e]
  by (cases "sev_arg e"; cases "sev_has_addr e"; cases "sev_has_num e") (simp_all add: sev_wf_def)

lemma sev_eq_iff:
  assumes "sev_wf a" "sev_wf b"
  shows "sev_eq a b \<longleftrightarrow> sev_kind a = sev_kind b \<and> sev_arg a = sev_arg b"
proof (cases "sev_kind a = sev_kind b")
  case True
  hence "sev_has_addr a = sev_has_addr b" "sev_has_num a = sev_has_num b"
    by (simp_all add: sev_has_addr_def sev_has_num_def)
  thus ?thesis
    by (cases rule: sev_wf_cases [OF assms(1)]; cases rule: sev_wf_cases [OF assms(2)])
      (simp_all add: sev_eq_def True)
qed (simp add: sev_eq_def)

lemma sev_kind_sets:
  "k \<in> {LOAD, M_INIT, M_LOCK, M_UNLOCK, M_DELETE, M_TRYLOCK, M_TRYLOCK_FAIL,
     C_INIT, C_SIGNAL, C_BRDCST, C_DELETE, C_WAIT, C_AWAKE,
     RMW, CMPXHG, CMPXHGFAIL, STORE, UNOBS_STORE} \<longleftrightarrow> sev_has_addr_kind k"
  "k \<in> {SPAWN, JOIN, NONDET} \<longleftrightarrow> sev_has_num_kind k"
  by (cases k; simp)+

definition sev_kinds_agree :: "sev_kind_t \<Rightarrow> sev_kind_t \<Rightarrow> bool" where
  "sev_kinds_agree j k = (j = k \<or> (j, k) \<in>
      {(STORE, UNOBS_STORE), (M_TRYLOCK, M_TRYLOCK_FAIL), (M_TRYLOCK_FAIL, M_TRYLOCK)})"

lemma sev_kinds_agree_iff:
  "sev_kinds_agree j k \<longleftrightarrow> \<not> (j \<noteq> k \<and> \<not> (j = STORE \<and> k = UNOBS_STORE)
     \<and> \<not> (j = M_TRYLOCK \<and> k = M_TRYLOCK_FAIL) \<and> \<not> (j = M_TRYLOCK_FAIL \<and> k = M_TRYLOCK))"
  unfolding sev_kinds_agree_def by blast

lemma guarded_tests:
  "(if a then False else if p then (if \<not> q then False else True)
    else if r then (if \<not> s then False else True) else True) \<longleftrightarrow>
   \<not> a \<and> (if p then q else if r then s else True)"
  by simp

lemma sev_is_compatible_with_eq:
  "sev_is_compatible_with a b \<longleftrightarrow> sev_kinds_agree (sev_kind a) (sev_kind b) \<and>
      (if sev_has_addr a then arg_addr (sev_arg a) = arg_addr (sev_arg b)
       else if sev_has_num a then arg_num (sev_arg a) = arg_num (sev_arg b) else True)"
  unfolding sev_is_compatible_with_def sev_kind_sets sev_kinds_agree_iff
    sev_has_addr_def sev_has_num_def by (rule guarded_tests)

lemma sev_kinds_agree_classes:
  assumes "sev_kinds_agree (sev_kind a) (sev_kind b)"
  shows "sev_has_addr a = sev_has_addr b \<and> sev_has_num a = sev_has_num b"
proof -
  have "sev_has_addr_kind j = sev_has_addr_kind k \<and> sev_has_num_kind j = sev_has_num_kind k"
    if "sev_kinds_agree j k" for j k
    using that unfolding sev_kinds_agree_def by auto
  thus ?thesis using assms by (simp add: sev_has_addr_def sev_has_num_def)
qed

lemma sev_compatible_iff:
  assumes "sev_wf a" "sev_wf b"
  shows "sev_is_compatible_with a b \<longleftrightarrow> sev_kinds_agree (sev_kind a) (sev_kind b) \<and> sev_arg a = sev_arg b"
proof (cases "sev_kinds_agree (sev_kind a) (sev_kind b)")
  case True
  note same = sev_kinds_agree_classes [OF True]
  show ?thesis
    unfolding sev_is_compatible_with_eq using same
    by (cases rule: sev_wf_cases [OF assms(1)]; cases rule: sev_wf_cases [OF assms(2)]) simp_all
qed (simp add: sev_is_compatible_with_eq)

text \<open>Two 3-byte values that print alike: only the second byte is padded.\<close>

lemma block_to_string_ambiguous:
  "block_to_string (Some [1, 0, 1]) 3 = Inr ''0x1001''"
  "block_to_string (Some [1, 16, 0]) 3 = Inr ''0x1001''"
  by code_simp+

section \<open>Properties\<close>

text \<open>\<open>==\<close> of events is equality of kind and argument (the data is ignored), it is kept by
  \<open>purge_data\<close>, and every event is compatible with the events it is equal to; compatibility also
  accepts a recorded store against an unobserved one, but not the other way round.\<close>

theorem sev_eq_compatible:
  assumes "sev_wf a" "sev_wf b"
  shows "(sev_eq a b \<longleftrightarrow> sev_kind a = sev_kind b \<and> sev_arg a = sev_arg b) \<and>
    sev_eq (sev_purge_data a) a \<and> (sev_eq a b \<longrightarrow> sev_is_compatible_with a b) \<and>
    (sev_is_compatible_with a b \<and> \<not> sev_is_compatible_with b a \<longleftrightarrow>
      sev_kind a = STORE \<and> sev_kind b = UNOBS_STORE \<and> sev_arg a = sev_arg b)"
proof -
  have "sev_wf (sev_purge_data a)"
    using assms(1) by (simp add: sev_wf_def sev_purge_data_def sev_has_addr_def sev_has_num_def)
  hence "sev_eq (sev_purge_data a) a"
    using sev_eq_iff [OF _ assms(1)] by (simp add: sev_purge_data_def)
  moreover have "sev_kinds_agree j k \<and> \<not> sev_kinds_agree k j \<longleftrightarrow> j = STORE \<and> k = UNOBS_STORE" for j k
    unfolding sev_kinds_agree_def by auto
  moreover have "sev_kinds_agree j j" for j by (simp add: sev_kinds_agree_def)
  ultimately show ?thesis
    unfolding sev_eq_iff [OF assms] sev_compatible_iff [OF assms] sev_compatible_iff [OF assms(2,1)]
    by metis
qed

theorem sev_eq_compatible_witness:
  "sev_eq (sev_spawn 3) (sev_spawn 3) \<and> \<not> sev_eq (sev_spawn 3) (sev_join 3)"
  using sev_eq_compatible [of "sev_spawn 3" "sev_spawn 3"] sev_eq_compatible [of "sev_spawn 3" "sev_join 3"]
  by (simp add: sev_wf_def sev_spawn_def sev_join_def sev_plain_def sev_has_addr_def sev_has_num_def)

text \<open>\<open>set_observed\<close> succeeds exactly on stores, sets the observed status and nothing else,
  and undoes its opposite.\<close>

theorem sev_set_observed_spec:
  "((\<exists>e'. sev_set_observed b e = Inr e') \<longleftrightarrow> sev_kind e \<in> {STORE, UNOBS_STORE}) \<and>
   (\<forall>e'. sev_set_observed b e = Inr e' \<longrightarrow>
     e' = e\<lparr>sev_kind := if b then STORE else UNOBS_STORE\<rparr> \<and>
     sev_set_observed (sev_kind e = STORE) e' = Inr e)"
  by (cases e) (auto simp: sev_set_observed_def)

theorem sev_set_observed_spec_witness:
  "\<forall>d. sev_set_observed True (sev_unobs_store d) = Inr (sev_store d)"
proof
  fix d
  show "sev_set_observed True (sev_unobs_store d) = Inr (sev_store d)"
    using sev_set_observed_spec [of True "sev_unobs_store d"]
    by (auto simp: sev_unobs_store_def sev_store_def sev_data_ev_def)
qed

end
