(* ===== verification/ViewEvent.thy ===== *)
theory ViewEvent
  imports Prelude Iid SymEv "HOL-Library.AList"
begin

unbundle bit_operations_syntax

text \<open>
  Events of the view-equivalence trace builder (class \<open>ViewEqTraceBuilder::Event\<close> in
  src/src/ViewEqTraceBuilder.h and .cpp), the computation of a read-modify-write, and the part of
  the builder that sequences consult through their \<open>container\<close> pointer: the events of the
  threads and the spawn and join summaries.
\<close>

section \<open>Events\<close>

text \<open>\<open>T_unset\<close> is the uninitialised \<open>type\<close> of an event built from an identifier only.\<close>

datatype access_type = T_READ | T_WRITE | T_SPAWN | T_JOIN | T_unset

datatype rmw_operation =
    Op_CMPXCHG | Op_XCHG | Op_ADD | Op_SUB | Op_AND | Op_NAND | Op_OR | Op_XOR
  | Op_MAX | Op_MIN | Op_UMAX | Op_UMIN

type_synonym obj = "nat \<times> nat"

record event =
  ev_type :: access_type
  ev_iid :: "int iid"
  ev_sym :: "sym_ev list"
  ev_md :: "nat option"
  ev_value :: int
  ev_object :: obj
  ev_is_rmw :: bool
  ev_rmw_op :: rmw_operation
  ev_rmw_value :: int
  ev_expected :: int

text \<open>
  \<open>Event()\<close>. The members without initialiser are indeterminate in C++; a value is 0, as the
  comment on the member says, and the others are arbitrary constants here.
\<close>

definition ev_default :: event where
  "ev_default =
     \<lparr>ev_type = T_unset, ev_iid = iid_null, ev_sym = [], ev_md = None, ev_value = 0, ev_object = (0, 0),
      ev_is_rmw = False, ev_rmw_op = Op_CMPXCHG, ev_rmw_value = 0, ev_expected = - 42\<rparr>"

definition ev_of_sym :: "sym_ev \<Rightarrow> event" where
  "ev_of_sym s = ev_default\<lparr>ev_sym := [s], ev_md := None\<rparr>"

definition ev_of_iid :: "int iid \<Rightarrow> event" where
  "ev_of_iid i = ev_default\<lparr>ev_iid := i, ev_md := None\<rparr>"

definition ev_sym_event :: "event \<Rightarrow> sym_ev" where
  "ev_sym_event e = (if length (ev_sym e) > 0 then ev_sym e ! 0 else sev_none)"

text \<open>
  \<open>sym_event().addr().addr.block.is_global()\<close> for an event with one symbolic event. On a spawn or
  join the union holds a thread number instead of an address (with assertions, \<open>addr()\<close> aborts);
  no such event counts as global.
\<close>

definition ev_is_global :: "event \<Rightarrow> bool" where
  "ev_is_global e =
     (length (ev_sym e) = 1 \<and>
      (case arg_addr (sev_arg (ev_sym_event e)) of
         Some a \<Rightarrow> mb_is_global (sa_block (sas_addr a)) | None \<Rightarrow> False))"

definition ev_is_read :: "event \<Rightarrow> bool" where
  "ev_is_read e = (ev_is_global e \<and> ev_type e = T_READ)"

definition ev_is_write :: "event \<Rightarrow> bool" where
  "ev_is_write e = (ev_is_global e \<and> ev_type e = T_WRITE)"

definition ev_pid :: "event \<Rightarrow> int" where
  "ev_pid e = iid_pid (ev_iid e)"

definition ev_index :: "event \<Rightarrow> nat" where
  "ev_index e = iid_idx (ev_iid e)"

definition ev_make_spawn :: "event \<Rightarrow> event" where
  "ev_make_spawn e = e\<lparr>ev_type := T_SPAWN\<rparr>"

definition ev_make_join :: "event \<Rightarrow> event" where
  "ev_make_join e = e\<lparr>ev_type := T_JOIN\<rparr>"

text \<open>The object of an access: the block number and, for an array element, its index.\<close>

definition ev_object_of :: "sym_addr_size \<Rightarrow> obj result" where
  "ev_object_of a =
     (let no = mb_get_no (sa_block (sas_addr a)); off = unat (sa_offset (sas_addr a)) in
      if off \<noteq> 0
      then (if sas_size a = 0 then Inl Aborted else Inr (no, off div unat (sas_size a)))
      else Inr (no, 0))"

definition ev_make_read :: "event \<Rightarrow> event result" where
  "ev_make_read e =
     bind_r (sev_addr (ev_sym_event e)) (\<lambda>a.
       bind_r (ev_object_of a) (\<lambda>ob. Inr (e\<lparr>ev_type := T_READ, ev_object := ob\<rparr>)))"

text \<open>The value of a write is the first byte of the written block.\<close>

definition ev_make_write :: "event \<Rightarrow> event result" where
  "ev_make_write e =
     (case sev_written (ev_sym_event e) of
        None \<Rightarrow> Inl Bad_deref
      | Some [] \<Rightarrow> Inl Out_of_range
      | Some (b # bs) \<Rightarrow>
          bind_r (sev_addr (ev_sym_event e)) (\<lambda>a.
            bind_r (ev_object_of a) (\<lambda>ob.
              Inr (e\<lparr>ev_type := T_WRITE, ev_value := uint b, ev_object := ob\<rparr>))))"

definition ev_same_object :: "event \<Rightarrow> event \<Rightarrow> bool" where
  "ev_same_object a b =
     (fst (ev_object a) = fst (ev_object b) \<and> snd (ev_object a) = snd (ev_object b))"

definition ev_RWpair :: "event \<Rightarrow> event \<Rightarrow> bool" where
  "ev_RWpair a b =
     (if \<not> ev_same_object a b then False
      else if ev_is_write a \<and> ev_is_read b then True
      else if ev_is_read a \<and> ev_is_write b then True
      else False)"

definition ev_corresponding_rmw_store :: "event \<Rightarrow> event \<Rightarrow> bool" where
  "ev_corresponding_rmw_store a b =
     (if \<not> ev_is_rmw a \<or> \<not> ev_is_rmw b then False
      else if ev_pid a \<noteq> ev_pid b then False
      else if int (ev_index a) \<noteq> int (ev_index b) - 1 then False
      else True)"

definition ev_eq :: "event \<Rightarrow> event \<Rightarrow> bool" where
  "ev_eq a b =
     (if ev_value a \<noteq> ev_value b then False else list_all2 sev_eq (ev_sym a) (ev_sym b))"

definition ev_type_to_string :: "event \<Rightarrow> string" where
  "ev_type_to_string e =
     (if ev_is_rmw e \<and> ev_type e = T_WRITE then ''rmw-Write''
      else if ev_is_rmw e \<and> ev_type e = T_READ then ''rmw-Read''
      else case ev_type e of
        T_WRITE \<Rightarrow> ''Write'' | T_READ \<Rightarrow> ''Read'' | T_JOIN \<Rightarrow> ''Join'' | T_SPAWN \<Rightarrow> ''Spawn'' | T_unset \<Rightarrow> '''')"

definition ev_to_string :: "event \<Rightarrow> string" where
  "ev_to_string e =
     (let hd_s = ''['' @ dec_int (ev_pid e) @ '':'' @ dec_nat (ev_index e) @ ''] ('' @ ev_type_to_string e in
      if ev_type e = T_READ \<or> ev_type e = T_WRITE
      then hd_s @ ''('' @ dec_nat (fst (ev_object e))
           @ (if snd (ev_object e) = 0 then '''' else ''+'' @ dec_nat (snd (ev_object e)))
           @ '','' @ dec_int (ev_value e) @ ''))''
      else hd_s @ '':thread'' @ dec_nat (fst (ev_object e)) @ '')'')"

section \<open>Read-modify-write\<close>

text \<open>The sums are those of the 32-bit \<open>int\<close>, two's complement. Where a signed sum overflows, which C++ leaves
  undefined, it is taken to wrap around.\<close>

definition wrap32 :: "int \<Rightarrow> int" where
  "wrap32 i = signed_take_bit 31 i"

fun compute_modified_value :: "rmw_operation \<Rightarrow> int \<Rightarrow> int \<Rightarrow> int \<Rightarrow> int" where
  "compute_modified_value Op_CMPXCHG r n x = (if r = x then n else r)"
| "compute_modified_value Op_XCHG r n x = n"
| "compute_modified_value Op_ADD r n x = wrap32 (r + n)"
| "compute_modified_value Op_SUB r n x = wrap32 (r - n)"
| "compute_modified_value Op_AND r n x = r AND n"
| "compute_modified_value Op_NAND r n x = NOT (r AND n)"
| "compute_modified_value Op_OR r n x = r OR n"
| "compute_modified_value Op_XOR r n x = r XOR n"
| "compute_modified_value Op_MAX r n x = (if r > n then r else n)"
| "compute_modified_value Op_UMAX r n x = (if r > n then r else n)"
| "compute_modified_value Op_MIN r n x = (if r < n then r else n)"
| "compute_modified_value Op_UMIN r n x = (if r < n then r else n)"

section \<open>What sequences see of the builder\<close>

text \<open>\<open>unordered_map<IPid, unordered_map<IPid, int>>\<close> as nested association lists.\<close>

type_synonym summary = "(int \<times> (int \<times> nat) list) list"

record vctx =
  vc_threads :: "event list list"
  vc_spawn :: summary
  vc_join :: summary

definition inner_map :: "summary \<Rightarrow> int \<Rightarrow> (int \<times> nat) list" where
  "inner_map m t = (case map_of m t of Some l \<Rightarrow> l | None \<Rightarrow> [])"

text \<open>
  \<open>get_event\<close> indexes two vectors without a bounds check; identifiers of events that do not exist
  give \<open>Event()\<close> here.
\<close>

definition get_event :: "vctx \<Rightarrow> int iid \<Rightarrow> event" where
  "get_event c i =
     (if 0 \<le> iid_pid i \<and> iid_pid i < int (length (vc_threads c))
      then nth_or ev_default (vc_threads c ! nat (iid_pid i)) (iid_idx i)
      else ev_default)"

definition ordered_by_join :: "vctx \<Rightarrow> int iid \<Rightarrow> int iid \<Rightarrow> bool" where
  "ordered_by_join c e1 e2 =
     (case map_of (inner_map (vc_join c) (iid_pid e2)) (iid_pid e1) of
        None \<Rightarrow> False
      | Some k \<Rightarrow> if iid_idx e2 < k then False else True)"

definition ordered_by_spawn :: "vctx \<Rightarrow> int iid \<Rightarrow> int iid \<Rightarrow> bool" where
  "ordered_by_spawn c e1 e2 =
     (case map_of (inner_map (vc_spawn c) (iid_pid e1)) (iid_pid e2) of
        None \<Rightarrow> False
      | Some k \<Rightarrow> if iid_idx e1 > k then False else True)"

definition update_join_summary :: "summary \<Rightarrow> event \<Rightarrow> summary" where
  "update_join_summary m e =
     (let joined = int (fst (ev_object e)); mine = inner_map m (ev_pid e) in
      if map_of mine joined \<noteq> None then m
      else
        let mine = AList.update joined (ev_index e) mine;
            m1 = AList.update (ev_pid e) mine m;
            mine = foldl (\<lambda>acc (t, k). if map_of acc t = None then AList.update t (ev_index e) acc else acc)
                     mine (inner_map m1 joined)
        in AList.update (ev_pid e) mine m1)"

definition update_spawn_summary :: "summary \<Rightarrow> event \<Rightarrow> summary" where
  "update_spawn_summary m e =
     (let spawned = int (fst (ev_object e));
          m1 = AList.update (ev_pid e) (AList.update spawned (ev_index e) (inner_map m (ev_pid e))) m
      in map (\<lambda>(t, l). case map_of l (ev_pid e) of
                  None \<Rightarrow> (t, l) | Some k \<Rightarrow> (t, AList.update spawned k l)) m1)"

section \<open>Lemmas\<close>

lemma ev_same_object_iff: "ev_same_object a b \<longleftrightarrow> ev_object a = ev_object b"
  by (simp add: ev_same_object_def prod_eq_iff)

lemma ev_RWpair_iff:
  "ev_RWpair a b \<longleftrightarrow> ev_object a = ev_object b \<and>
     (ev_is_write a \<and> ev_is_read b \<or> ev_is_read a \<and> ev_is_write b)"
  by (auto simp: ev_RWpair_def ev_same_object_iff)

lemma ev_RWpair_sym: "ev_RWpair a b \<longleftrightarrow> ev_RWpair b a"
  by (auto simp: ev_RWpair_iff)

lemma ev_read_not_write: "ev_is_read e \<Longrightarrow> \<not> ev_is_write e"
  by (simp add: ev_is_read_def ev_is_write_def)

lemma ev_RWpair_irrefl: "\<not> ev_RWpair e e"
  using ev_read_not_write by (auto simp: ev_RWpair_iff)

definition in_int32 :: "int \<Rightarrow> bool" where
  "in_int32 i = (- (2 ^ 31) \<le> i \<and> i < 2 ^ 31)"

lemma in_int32_iff: "in_int32 i \<longleftrightarrow> signed_take_bit 31 i = i"
  by (simp add: in_int32_def signed_take_bit_int_eq_self_iff)

lemma wrap32_in: "in_int32 (wrap32 i)"
  by (simp add: in_int32_iff wrap32_def)

lemma in_int32_bitwise:
  assumes "in_int32 a" "in_int32 b"
  shows "in_int32 (a AND b)" "in_int32 (a OR b)" "in_int32 (a XOR b)" "in_int32 (NOT (a AND b))"
proof -
  have "signed_take_bit 31 (a AND b) = signed_take_bit 31 a AND signed_take_bit 31 b"
    "signed_take_bit 31 (a OR b) = signed_take_bit 31 a OR signed_take_bit 31 b"
    "signed_take_bit 31 (a XOR b) = signed_take_bit 31 a XOR signed_take_bit 31 b"
    "signed_take_bit 31 (NOT (a AND b)) = NOT (signed_take_bit 31 a AND signed_take_bit 31 b)"
    by (rule bit_eqI; auto simp: bit_simps min_def)+
  thus "in_int32 (a AND b)" "in_int32 (a OR b)" "in_int32 (a XOR b)" "in_int32 (NOT (a AND b))"
    using assms unfolding in_int32_iff by simp_all
qed

lemma compute_modified_value_in:
  assumes "in_int32 r" "in_int32 n"
  shows "in_int32 (compute_modified_value op r n x)"
  using assms in_int32_bitwise [OF assms] by (cases op) (simp_all add: wrap32_in)

lemma inner_map_update:
  "inner_map (AList.update t l m) u = (if u = t then l else inner_map m u)"
  by (simp add: inner_map_def update_conv')

lemma map_of_foldl_update_if:
  "distinct (map fst l) \<Longrightarrow>
   map_of (foldl (\<lambda>acc (t, k). if map_of acc t = None then AList.update t v acc else acc) m l) u =
   (if map_of m u = None \<and> u \<in> fst ` set l then Some v else map_of m u)"
proof (induction l arbitrary: m)
  case (Cons p l)
  obtain t k where p: "p = (t, k)" by fastforce
  have d: "distinct (map fst l)" "t \<notin> fst ` set l" using Cons.prems p by simp_all
  show ?case
    using Cons.IH [OF d(1)] d(2) p by (auto simp: update_conv')
qed simp

lemma map_of_map_values:
  "map_of (map (\<lambda>(t, l). (t, f t l)) m) u = map_option (f u) (map_of m u)"
  by (induction m) auto

section \<open>Properties\<close>

text \<open>the value a read-modify-write stores is again a 32-bit \<open>int\<close>; addition and subtraction
  are those modulo \<open>2 ^ 32\<close>, a failed compare-exchange stores what was read, and the unsigned
  maximum and minimum are computed as the signed ones, so that \<open>UMAX(-1, 0)\<close> is 0.\<close>

theorem compute_modified_value_int32:
  assumes "in_int32 r" "in_int32 n"
  shows "in_int32 (compute_modified_value op r n x) \<and>
    (word_of_int (compute_modified_value Op_ADD r n x) :: 32 word) = word_of_int r + word_of_int n \<and>
    (word_of_int (compute_modified_value Op_SUB r n x) :: 32 word) = word_of_int r - word_of_int n \<and>
    (r \<noteq> x \<longrightarrow> compute_modified_value Op_CMPXCHG r n x = r) \<and>
    compute_modified_value Op_UMAX r n x = max r n \<and> compute_modified_value Op_UMIN r n x = min r n"
proof -
  have w: "(word_of_int (wrap32 i) :: 32 word) = word_of_int i" for i
  proof (rule bit_word_eqI)
    fix k assume "k < LENGTH(32)"
    hence "min 31 k = k" by simp
    thus "bit (word_of_int (wrap32 i) :: 32 word) k = bit (word_of_int i :: 32 word) k"
      by (simp add: wrap32_def bit_signed_take_bit_iff bit_word_of_int_iff)
  qed
  show ?thesis
    using compute_modified_value_in [OF assms] w [of "r + n"] w [of "r - n"] by simp
qed

theorem compute_modified_value_int32_witness: "compute_modified_value Op_UMAX (- 1) 0 7 = 0"
  using compute_modified_value_int32 [of "- 1" 0 Op_UMAX 7] by (simp add: in_int32_def)

text \<open>a join event \<open>e\<close> of thread \<open>u\<close> makes every event of the joined thread, and of the threads that
  had joined in it, ordered before the events of \<open>e\<close>'s thread from \<open>e\<close> on, and before no
  earlier one; orderings recorded before are kept.\<close>

theorem update_join_summary_spec:
  assumes "\<forall>t. distinct (map fst (inner_map m t))" "ev_pid e \<noteq> int (fst (ev_object e))"
    and "map_of (inner_map m (ev_pid e)) (int (fst (ev_object e))) = None"
  shows "map_of (inner_map (update_join_summary m e) t) u =
    (if t = ev_pid e \<and> map_of (inner_map m t) u = None \<and>
        (u = int (fst (ev_object e)) \<or> map_of (inner_map m (int (fst (ev_object e)))) u \<noteq> None)
     then Some (ev_index e) else map_of (inner_map m t) u)"
proof -
  let ?j = "int (fst (ev_object e))" and ?p = "ev_pid e"
  let ?mine = "AList.update ?j (ev_index e) (inner_map m ?p)"
  have jm: "inner_map (AList.update ?p ?mine m) ?j = inner_map m ?j"
    using assms(2) by (simp add: inner_map_update)
  have dom: "u \<in> fst ` set (inner_map m ?j) \<longleftrightarrow> map_of (inner_map m ?j) u \<noteq> None"
    by (simp add: map_of_eq_None_iff)
  have d: "distinct (map fst (inner_map m ?j))" using assms(1) by blast
  show ?thesis
    using assms(2,3) assms(2) [symmetric]
    by (auto simp: update_join_summary_def Let_def inner_map_update jm map_of_foldl_update_if [OF d] dom update_conv')
qed

theorem update_join_summary_spec_witness:
  "ordered_by_join
     \<lparr>vc_threads = [], vc_spawn = [],
      vc_join = update_join_summary [(1, [(2, 4)])] (ev_default\<lparr>ev_iid := IID 0 5, ev_object := (1, 0)\<rparr>)\<rparr>
     (IID 2 3) (IID 0 6)"
proof -
  let ?e = "ev_default\<lparr>ev_iid := IID 0 5, ev_object := (1, 0)\<rparr>"
  have d: "\<forall>t. distinct (map fst (inner_map [(1, [(2, 4)])] t))" by (simp add: inner_map_def)
  have "map_of (inner_map (update_join_summary [(1, [(2, 4)])] ?e) 0) 2 = Some 5"
    using update_join_summary_spec [OF d, of ?e 0 2] by (simp add: inner_map_def ev_pid_def ev_index_def)
  thus ?thesis by (simp add: ordered_by_join_def)
qed

text \<open>a spawn event \<open>e\<close> orders every event of its thread up to \<open>e\<close> before the spawned thread, and
  for every thread that had spawned \<open>e\<close>'s thread the events up to that spawn; nothing else
  changes.\<close>

theorem update_spawn_summary_spec:
  assumes "map_of (inner_map m (ev_pid e)) (ev_pid e) = None" "ev_pid e \<noteq> int (fst (ev_object e))"
  shows "map_of (inner_map (update_spawn_summary m e) t) u =
    (if u = int (fst (ev_object e))
     then (if t = ev_pid e then Some (ev_index e)
           else case map_of (inner_map m t) (ev_pid e) of
                  Some k \<Rightarrow> Some k | None \<Rightarrow> map_of (inner_map m t) u)
     else map_of (inner_map m t) u)"
proof -
  let ?s = "int (fst (ev_object e))" and ?p = "ev_pid e"
  let ?mine = "AList.update ?s (ev_index e) (inner_map m ?p)"
  let ?f = "\<lambda>t l. case map_of l ?p of None \<Rightarrow> l | Some k \<Rightarrow> AList.update ?s k l"
  let ?m1 = "AList.update ?p ?mine m"
  have eq: "(\<lambda>(t, l). case map_of l ?p of None \<Rightarrow> (t, l) | Some k \<Rightarrow> (t, AList.update ?s k l))
      = (\<lambda>(t, l). (t, ?f t l))"
    by (auto simp: fun_eq_iff split: option.splits)
  have "map_of (update_spawn_summary m e) t = map_option (?f t) (map_of ?m1 t)"
    unfolding update_spawn_summary_def Let_def eq by (rule map_of_map_values)
  hence "inner_map (update_spawn_summary m e) t = ?f t (inner_map ?m1 t)"
    by (simp add: inner_map_def split: option.splits)
  thus ?thesis
    using assms by (auto simp: inner_map_update update_conv' split: option.splits)
qed

theorem update_spawn_summary_spec_witness:
  "map_of (inner_map (update_spawn_summary [(0, [(1, 2)])] (ev_default\<lparr>ev_iid := IID 1 0, ev_object := (2, 0)\<rparr>)) 0) 2 = Some 2"
  using update_spawn_summary_spec [of "[(0, [(1, 2)])]" "ev_default\<lparr>ev_iid := IID 1 0, ev_object := (2, 0)\<rparr>" 0 2]
  by (simp add: inner_map_def ev_pid_def)

end
