(* ===== verification/ViewSequence.thy ===== *)
theory ViewSequence
  imports Prelude ViewEvent "HOL-Library.Multiset"
begin

text \<open>
  Sequences of event identifiers (\<open>ViewEqTraceBuilder::Sequence\<close>): the vector operations, the
  search for a reversed pair, the adjustment that moves a thread's events behind another event,
  and the causal order. The events behind the identifiers come from the \<open>container\<close> \<open>c\<close>.
\<close>

section \<open>Vector operations\<close>

type_synonym seq = "int iid list"

definition seq_index_of :: "seq \<Rightarrow> int iid \<Rightarrow> nat" where
  "seq_index_of s e = length (takeWhile (\<lambda>x. x \<noteq> e) s)"

definition seq_has :: "seq \<Rightarrow> int iid \<Rightarrow> bool" where
  "seq_has s e = (seq_index_of s e \<noteq> length s)"

text \<open>\<open>IID<IPid>(-1,-1)\<close> on an empty sequence runs into the assertion of the constructor.\<close>

definition seq_last :: "seq \<Rightarrow> int iid result" where
  "seq_last s = (if s = [] then iid_make (- 1) (- 1) else Inr (last s))"

definition seq_head :: "seq \<Rightarrow> int iid result" where
  "seq_head s = (case s of [] \<Rightarrow> Inl Out_of_range | x # xs \<Rightarrow> Inr x)"

definition seq_push_front :: "seq \<Rightarrow> int iid \<Rightarrow> seq" where
  "seq_push_front s e = e # s"

definition seq_push_back :: "seq \<Rightarrow> int iid \<Rightarrow> seq" where
  "seq_push_back s e = s @ [e]"

definition insert_at :: "nat \<Rightarrow> 'a \<Rightarrow> 'a list \<Rightarrow> 'a list" where
  "insert_at i x xs = take i xs @ x # drop i xs"

definition erase_at :: "nat \<Rightarrow> 'a list \<Rightarrow> 'a list result" where
  "erase_at i xs = (if i < length xs then Inr (take i xs @ drop (Suc i) xs) else Inl Out_of_range)"

definition seq_push_at :: "seq \<Rightarrow> nat \<Rightarrow> int iid \<Rightarrow> seq" where
  "seq_push_at s loc e = insert_at loc e s"

definition pop_back :: "'a list \<Rightarrow> 'a list result" where
  "pop_back s = (if s = [] then Inl Out_of_range else Inr (butlast s))"

definition seq_pop_front :: "seq \<Rightarrow> seq result" where
  "seq_pop_front s = erase_at 0 s"

definition seq_tail :: "seq \<Rightarrow> seq result" where
  "seq_tail s = seq_pop_front s"

definition seq_erase :: "seq \<Rightarrow> int iid \<Rightarrow> seq result" where
  "seq_erase s e = erase_at (seq_index_of s e) s"

definition seq_concatenate :: "seq \<Rightarrow> seq \<Rightarrow> seq" where
  "seq_concatenate s t = s @ t"

definition seq_subsequence :: "seq \<Rightarrow> nat \<Rightarrow> nat \<Rightarrow> seq" where
  "seq_subsequence s b e = map (\<lambda>i. s ! i) [b..<e]"

definition seq_add_rmw_write :: "seq \<Rightarrow> int iid \<Rightarrow> int iid \<Rightarrow> seq" where
  "seq_add_rmw_write s r w =
     (if seq_index_of s r \<noteq> length s then seq_push_at s (seq_index_of s r + 1) w else s)"

fun seq_hasRW_inner :: "vctx \<Rightarrow> event \<Rightarrow> seq \<Rightarrow> bool" where
  "seq_hasRW_inner c e1 [] = False"
| "seq_hasRW_inner c e1 (j # js) =
     (let e2 = get_event c j in
      if ev_same_object e1 e2 \<and> ev_is_read e1 \<and> ev_is_write e2 then True
      else if ev_same_object e1 e2 \<and> ev_is_write e1 \<and> ev_is_read e2 then True
      else seq_hasRW_inner c e1 js)"

fun seq_hasRWpairs :: "vctx \<Rightarrow> seq \<Rightarrow> seq \<Rightarrow> bool" where
  "seq_hasRWpairs c [] t = False"
| "seq_hasRWpairs c (i # is) t =
     (if seq_hasRW_inner c (get_event c i) t then True else seq_hasRWpairs c is t)"

fun seq_isprefix :: "seq \<Rightarrow> seq \<Rightarrow> bool result" where
  "seq_isprefix [] t = Inr True"
| "seq_isprefix (x # xs) [] = Inl Out_of_range"
| "seq_isprefix (x # xs) (y # ys) = (if x \<noteq> y then Inr False else seq_isprefix xs ys)"

definition iid_show :: "int iid \<Rightarrow> string" where
  "iid_show i = ''('' @ dec_int (iid_pid i) @ '':'' @ dec_nat (iid_idx i) @ '')''"

definition seq_to_string :: "seq \<Rightarrow> string" where
  "seq_to_string s =
     (case s of [] \<Rightarrow> ''<>''
      | x # xs \<Rightarrow> ''<'' @ iid_show x @ concat (map (\<lambda>y. '', '' @ iid_show y) xs) @ ''>'')"

section \<open>Reversed pairs\<close>

fun seq_conflicts_inner :: "seq \<Rightarrow> int iid \<Rightarrow> seq \<Rightarrow> (int iid \<times> int iid) option" where
  "seq_conflicts_inner t x [] = None"
| "seq_conflicts_inner t x (y # ys) =
     (if seq_has t x \<and> seq_has t y
      then (if int (seq_index_of t x) - int (seq_index_of t y) > 0 then Some (x, y)
            else seq_conflicts_inner t x ys)
      else seq_conflicts_inner t x ys)"

fun seq_conflicts_with :: "seq \<Rightarrow> seq \<Rightarrow> (int iid \<times> int iid) option" where
  "seq_conflicts_with [] t = None"
| "seq_conflicts_with (x # xs) t =
     (case seq_conflicts_inner t x xs of Some p \<Rightarrow> Some p | None \<Rightarrow> seq_conflicts_with xs t)"

section \<open>View adjustment\<close>

text \<open>
  The two loops of \<open>view_adjust\<close>, shared by \<open>Sequence\<close> and \<open>EventSequence\<close>: \<open>g\<close> gives the event of
  an element. The inner loop runs \<open>j\<close> over \<open>i, ..., n2 - delim - 1\<close> and returns \<open>None\<close> when a
  read and a write of one object would be exchanged; the outer one runs \<open>i\<close> down to \<open>n1\<close>.
\<close>

fun va_inner :: "('a \<Rightarrow> event) \<Rightarrow> 'a list \<Rightarrow> nat \<Rightarrow> nat \<Rightarrow> 'a list option result" where
  "va_inner g ev j 0 = Inr (Some ev)"
| "va_inner g ev j (Suc k) =
     (if length ev \<le> j + 1 then Inl Out_of_range
      else if ev_RWpair (g (ev ! j)) (g (ev ! (j + 1))) then Inr None
      else va_inner g (ev[j := ev ! (j + 1), j + 1 := ev ! j]) (j + 1) k)"

fun va_outer :: "('a \<Rightarrow> event) \<Rightarrow> ('a \<Rightarrow> int) \<Rightarrow> int \<Rightarrow> nat \<Rightarrow> nat \<Rightarrow> 'a list \<Rightarrow> nat \<Rightarrow> nat \<Rightarrow> 'a list option result" where
  "va_outer g pid p n1 n2 ev delim 0 = Inr (Some ev)"
| "va_outer g pid p n1 n2 ev delim (Suc k) =
     (if length ev \<le> n1 + k then Inl Out_of_range
      else if pid (ev ! (n1 + k)) \<noteq> p then va_outer g pid p n1 n2 ev delim k
      else bind_r (va_inner g ev (n1 + k) (n2 - delim - (n1 + k))) (\<lambda>r.
        case r of
          None \<Rightarrow> Inr None
        | Some ev' \<Rightarrow> va_outer g pid p n1 n2 ev' (delim + 1) k))"

text \<open>The result is the new sequence and the success flag; on failure the original is restored.\<close>

definition seq_view_adjust :: "vctx \<Rightarrow> seq \<Rightarrow> int iid \<Rightarrow> int iid \<Rightarrow> (seq \<times> bool) result" where
  "seq_view_adjust c s e1 e2 =
     (if ordered_by_join c e1 e2 \<or> ordered_by_spawn c e1 e2 then Inr (s, False)
      else let n2 = seq_index_of s e2; n1 = seq_index_of s e1 in
        bind_r (va_outer (get_event c) iid_pid (iid_pid e1) n1 n2 s 0 (n2 - n1)) (\<lambda>r.
          case r of None \<Rightarrow> Inr (s, False) | Some s' \<Rightarrow> Inr (s', True)))"

section \<open>Causal order\<close>

record co_state =
  cos_last_write :: "(obj \<times> int iid) list"
  cos_prev :: "(int \<times> int iid) list"
  cos_co :: "(int iid \<times> int iid) list"

definition co_step :: "vctx \<Rightarrow> co_state \<Rightarrow> int iid \<Rightarrow> co_state" where
  "co_step c st i =
     (let co1 = (case map_of (cos_prev st) (iid_pid i) of
                   Some q \<Rightarrow> cos_co st @ [(q, i)] | None \<Rightarrow> cos_co st);
          prev = AList.update (iid_pid i) i (cos_prev st);
          e = get_event c i;
          co2 = (if ev_is_read e
                 then (case map_of (cos_last_write st) (ev_object e) of
                         Some w \<Rightarrow> co1 @ [(w, i)] | None \<Rightarrow> co1)
                 else co1);
          lw = (if ev_is_write e then AList.update (ev_object e) i (cos_last_write st)
                else cos_last_write st)
      in \<lparr>cos_last_write = lw, cos_prev = prev, cos_co = co2\<rparr>)"

definition seq_get_causal_order :: "vctx \<Rightarrow> seq \<Rightarrow> (int iid \<times> int iid) list" where
  "seq_get_causal_order c s =
     cos_co (foldl (co_step c) \<lparr>cos_last_write = [], cos_prev = [], cos_co = []\<rparr> s)"

definition seq_co_sanity :: "vctx \<Rightarrow> seq \<Rightarrow> seq \<Rightarrow> seq \<Rightarrow> bool" where
  "seq_co_sanity c s s1 s2 =
     (if s = [] then False
      else
        let co = seq_get_causal_order c s;
            co1 = seq_get_causal_order c s1;
            co2 = seq_get_causal_order c s2
        in list_all (\<lambda>p. p \<in> set co) co1 \<and> list_all (\<lambda>p. p \<in> set co) co2
           \<and> list_all (\<lambda>p. p \<in> set co1 \<or> p \<in> set co2) co)"

section \<open>Merging\<close>

text \<open>
  \<open>join_prefix\<close> on the parts of the two sequences between the iterators, given as lists. The inner
  loop over \<open>itp\<close>: \<open>pre\<close> are the elements from \<open>primary_next\<close> to \<open>itp\<close>, both lists with
  what follows. \<open>None\<close> is the abort that clears the merged sequence.
\<close>

definition ordered_before :: "vctx \<Rightarrow> int iid \<Rightarrow> int iid \<Rightarrow> bool" where
  "ordered_before c a b = (ordered_by_join c a b \<or> ordered_by_spawn c a b)"

definition jp_cyclic :: "vctx \<Rightarrow> seq \<Rightarrow> seq \<Rightarrow> bool" where
  "jp_cyclic c other_rest prim_upto =
     list_ex (\<lambda>o'. list_ex (\<lambda>p'. ordered_before c o' p') prim_upto) other_rest"

text \<open>The events of primary before \<open>itp\<close> are pushed; a write among them must not overtake a read of
  what is left of other.\<close>

fun jp_push_primary :: "vctx \<Rightarrow> seq \<Rightarrow> seq \<Rightarrow> seq \<Rightarrow> seq option" where
  "jp_push_primary c other_after merged [] = Some merged"
| "jp_push_primary c other_after merged (p # ps) =
     (let ep2 = get_event c p in
      if ev_is_write ep2 \<and> list_ex (\<lambda>o2. ev_RWpair ep2 (get_event c o2)) other_after then None
      else jp_push_primary c other_after (merged @ [p]) ps)"

text \<open>
  The scan for one \<open>eo\<close>: \<open>done\<close> are the elements from \<open>primary_next\<close> to before \<open>itp\<close>, \<open>rest\<close> those
  from \<open>itp\<close> on. A read of an rmw takes its write, the next element, with it, so \<open>itp\<close> skips it.
  The result is the merged sequence and what is left of primary.
\<close>

fun jp_scan :: "vctx \<Rightarrow> int iid \<Rightarrow> seq \<Rightarrow> seq \<Rightarrow> seq \<Rightarrow> seq \<Rightarrow> (seq \<times> seq) option" where
  "jp_scan c o1 other_after merged dn [] = Some (merged, dn)"
| "jp_scan c o1 other_after merged dn (p # rest) =
     (let eo = get_event c o1; ep = get_event c p in
      if ev_is_write eo \<and> ev_RWpair eo ep \<or> ordered_before c p o1
      then (if jp_cyclic c (o1 # other_after) (dn @ [p]) then None
            else case jp_push_primary c other_after merged dn of
              None \<Rightarrow> None
            | Some merged1 \<Rightarrow>
                (case rest of
                   w # rest' \<Rightarrow>
                     if ev_is_rmw ep then jp_scan c o1 other_after (merged1 @ [p, w]) [] rest'
                     else jp_scan c o1 other_after (merged1 @ [p]) [] rest
                 | [] \<Rightarrow> jp_scan c o1 other_after (merged1 @ [p]) [] rest))
      else jp_scan c o1 other_after merged (dn @ [p]) rest)"

text \<open>The last write to the object of \<open>r\<close> after position \<open>k\<close> of the merged sequence, by its value.\<close>

definition jp_racing :: "vctx \<Rightarrow> event \<Rightarrow> seq \<Rightarrow> int option" where
  "jp_racing c r after =
     foldl (\<lambda>acc i. if ev_RWpair r (get_event c i) then Some (ev_value (get_event c i)) else acc) None after"

text \<open>\<open>merged_sequence.end()-1\<close> and \<open>*(ito-1)\<close>: the read of the rmw whose write is \<open>eo\<close>. When it is not
  in the merged sequence, \<open>*ito_read_in_merged\<close> dereferences \<open>end()\<close>.\<close>

definition jp_rmw_read_to_end :: "vctx \<Rightarrow> int iid \<Rightarrow> seq \<Rightarrow> seq option result" where
  "jp_rmw_read_to_end c r merged =
     (let k = seq_index_of merged r in
      if Suc k = length merged then Inr (Some merged)
      else if k = length merged then Inl Bad_deref
      else let rit = get_event c r in
        case jp_racing c rit (drop (Suc k) merged) of
          Some v \<Rightarrow> if v \<noteq> ev_value rit then Inr None
                   else Inr (Some (take k merged @ drop (Suc k) merged @ [ev_iid rit]))
        | None \<Rightarrow> Inr (Some (take k merged @ drop (Suc k) merged @ [ev_iid rit])))"

text \<open>The loop over other; \<open>prev\<close> is the element before \<open>ito\<close> in the whole of other, when there is one.\<close>

fun jp_loop :: "vctx \<Rightarrow> seq \<Rightarrow> int iid option \<Rightarrow> seq \<Rightarrow> seq \<Rightarrow> (seq \<times> seq) option result" where
  "jp_loop c merged prev [] primary = Inr (Some (merged, primary))"
| "jp_loop c merged prev (o1 # os) primary =
     (case jp_scan c o1 os merged [] primary of
        None \<Rightarrow> Inr None
      | Some (merged1, primary1) \<Rightarrow>
          let eo = get_event c o1 in
          if ev_is_write eo \<and> ev_is_rmw eo
          then (case prev of
                  None \<Rightarrow> Inl Out_of_range
                | Some r \<Rightarrow> bind_r (jp_rmw_read_to_end c r merged1) (\<lambda>m.
                    case m of
                      None \<Rightarrow> Inr None
                    | Some merged2 \<Rightarrow> jp_loop c (merged2 @ [o1]) (Some o1) os primary1))
          else jp_loop c (merged1 @ [o1]) (Some o1) os primary1)"

definition seq_join_prefix :: "vctx \<Rightarrow> seq \<Rightarrow> seq \<Rightarrow> int iid option \<Rightarrow> seq \<Rightarrow> seq result" where
  "seq_join_prefix c merged primary prev other =
     (if primary = [] then Inr (merged @ other)
      else if other = [] then Inr (merged @ primary)
      else bind_r (jp_loop c merged prev other primary) (\<lambda>r.
        case r of None \<Rightarrow> Inr [] | Some (merged1, primary1) \<Rightarrow> Inr (merged1 @ primary1)))"

text \<open>
  \<open>join\<close>: \<open>pseg\<close> are the elements of primary since \<open>next_index_primary\<close>, \<open>k\<close> is
  \<open>next_index_other\<close>. A common event that stands before \<open>next_index_other\<close> would make
  \<open>join_prefix\<close> run past the end of other.
\<close>

definition prev_of :: "seq \<Rightarrow> nat \<Rightarrow> int iid option" where
  "prev_of s k = (if k = 0 then None else Some (s ! (k - 1)))"

fun seq_join_loop :: "vctx \<Rightarrow> seq \<Rightarrow> seq \<Rightarrow> nat \<Rightarrow> seq \<Rightarrow> seq \<Rightarrow> seq result" where
  "seq_join_loop c oth merged k pseg [] = seq_join_prefix c merged pseg (prev_of oth k) (drop k oth)"
| "seq_join_loop c oth merged k pseg (x # xs) =
     (let n = seq_index_of oth x in
      if n = length oth then seq_join_loop c oth merged k (pseg @ [x]) xs
      else if pseg \<noteq> [] \<or> n \<noteq> k
      then (if n < k then Inl Out_of_range
            else bind_r (seq_join_prefix c merged pseg (prev_of oth k) (take (n - k) (drop k oth))) (\<lambda>m.
              if m = [] then Inr [] else seq_join_loop c oth (m @ [x]) (n + 1) [] xs))
      else seq_join_loop c oth (merged @ [x]) (n + 1) [] xs)"

definition seq_join :: "vctx \<Rightarrow> seq \<Rightarrow> seq \<Rightarrow> seq result" where
  "seq_join c primary oth = seq_join_loop c oth [] 0 [] primary"

text \<open>
  The loop of \<open>consistent_merge\<close> need not end, so it has fuel: \<open>None\<close> is a conflict that neither
  sequence can be adjusted to. Both operands are references and keep their adjustments.
\<close>

fun cm_loop :: "vctx \<Rightarrow> nat \<Rightarrow> seq \<Rightarrow> seq \<Rightarrow> (seq \<times> seq) option result" where
  "cm_loop c 0 primary oth = Inl Out_of_fuel"
| "cm_loop c (Suc n) primary oth =
     (case seq_conflicts_with primary oth of
        None \<Rightarrow> Inr (Some (primary, oth))
      | Some (e1, e2) \<Rightarrow>
          bind_r (seq_view_adjust c primary e1 e2) (\<lambda>(primary', ok).
            if ok then cm_loop c n primary' oth
            else bind_r (seq_view_adjust c oth e2 e1) (\<lambda>(oth', ok').
              if ok' then cm_loop c n primary oth' else Inr None)))"

text \<open>The result with the two operands as the call leaves them.\<close>

definition seq_consistent_merge :: "vctx \<Rightarrow> nat \<Rightarrow> seq \<Rightarrow> seq \<Rightarrow> (seq \<times> seq \<times> seq) result" where
  "seq_consistent_merge c fuel primary oth =
     (if primary = [] then Inr (oth, primary, oth)
      else if oth = [] then Inr (primary, primary, oth)
      else bind_r (cm_loop c fuel primary oth) (\<lambda>r.
        case r of
          None \<Rightarrow> Inr ([], primary, oth)
        | Some (primary', oth') \<Rightarrow>
            bind_r (seq_join c primary' oth') (\<lambda>res.
              if \<not> seq_co_sanity c res primary' oth' then Inr ([], primary', oth')
              else Inr (res, primary', oth'))))"

section \<open>Order in a list\<close>

definition before :: "'a list \<Rightarrow> 'a \<Rightarrow> 'a \<Rightarrow> bool" where
  "before xs u v = (\<exists>A B C. xs = A @ u # B @ v # C)"

lemma before_Nil [simp]: "\<not> before [] u v"
  by (simp add: before_def)

lemma before_Cons: "before (x # xs) u v \<longleftrightarrow> (x = u \<and> v \<in> set xs) \<or> before xs u v"
proof
  assume "before (x # xs) u v"
  then obtain A B C where e: "x # xs = A @ u # B @ v # C" by (auto simp: before_def)
  show "(x = u \<and> v \<in> set xs) \<or> before xs u v"
  proof (cases A)
    case Nil
    thus ?thesis using e by simp
  next
    case (Cons a A')
    thus ?thesis using e by (auto simp: before_def)
  qed
next
  assume r: "(x = u \<and> v \<in> set xs) \<or> before xs u v"
  show "before (x # xs) u v"
  proof (cases "before xs u v")
    case True
    then obtain A B C where "xs = A @ u # B @ v # C" by (auto simp: before_def)
    hence "x # xs = (x # A) @ u # B @ v # C" by simp
    thus ?thesis unfolding before_def by blast
  next
    case False
    then obtain B C where "xs = B @ v # C" "x = u" using r by (metis split_list)
    hence "x # xs = [] @ u # B @ v # C" by simp
    thus ?thesis unfolding before_def by blast
  qed
qed

lemma before_append:
  "before (xs @ ys) u v \<longleftrightarrow> before xs u v \<or> before ys u v \<or> (u \<in> set xs \<and> v \<in> set ys)"
  by (induction xs) (auto simp: before_Cons)

lemma before_filter: "before (filter P xs) u v \<longleftrightarrow> P u \<and> P v \<and> before xs u v"
  by (induction xs) (auto simp: before_Cons)

lemma before_in_set: "before xs u v \<Longrightarrow> u \<in> set xs \<and> v \<in> set xs"
  by (auto simp: before_def)

lemma before_total: "u \<in> set xs \<Longrightarrow> v \<in> set xs \<Longrightarrow> u \<noteq> v \<Longrightarrow> before xs u v \<or> before xs v u"
  by (induction xs) (auto simp: before_Cons)

lemma before_asym: "distinct xs \<Longrightarrow> before xs u v \<Longrightarrow> \<not> before xs v u"
  by (induction xs) (auto simp: before_Cons dest: before_in_set)

section \<open>Index and membership\<close>

lemma seq_index_of_less_iff: "seq_index_of s e < length s \<longleftrightarrow> e \<in> set s"
  by (induction s) (auto simp: seq_index_of_def)

lemma seq_index_of_le: "seq_index_of s e \<le> length s"
  by (simp add: seq_index_of_def length_takeWhile_le)

lemma seq_has_iff: "seq_has s e \<longleftrightarrow> e \<in> set s"
  using seq_index_of_less_iff [of s e] seq_index_of_le [of s e] by (auto simp: seq_has_def)

lemma seq_index_of_split: "e \<notin> set A \<Longrightarrow> seq_index_of (A @ e # B) e = length A"
  by (induction A) (auto simp: seq_index_of_def)

lemma seq_index_of_nth: "e \<in> set s \<Longrightarrow> s ! seq_index_of s e = e"
  by (induction s) (auto simp: seq_index_of_def)

lemma seq_index_of_before:
  "distinct s \<Longrightarrow> u \<in> set s \<Longrightarrow> v \<in> set s \<Longrightarrow> seq_index_of s u < seq_index_of s v \<longleftrightarrow> before s u v"
proof (induction s)
  case (Cons x xs)
  show ?case
  proof (cases "x = u \<or> x = v")
    case True
    thus ?thesis using Cons.prems by (auto simp: seq_index_of_def before_Cons dest: before_in_set)
  next
    case False
    thus ?thesis using Cons by (auto simp: seq_index_of_def before_Cons)
  qed
qed simp

section \<open>Adjustment: what the loops compute\<close>

lemma va_inner_eq:
  "va_inner g (A @ x # B @ C) (length A) (length B) =
     Inr (if \<exists>y\<in>set B. ev_RWpair (g x) (g y) then None else Some (A @ B @ x # C))"
proof (induction B arbitrary: A)
  case (Cons y B)
  have upd: "(A @ x # (y # B) @ C)[length A := y, length A + 1 := x] = (A @ [y]) @ x # B @ C"
    by (simp add: list_update_append)
  have nth: "(A @ x # (y # B) @ C) ! length A = x" "(A @ x # (y # B) @ C) ! (length A + 1) = y"
    by (simp_all add: nth_append)
  show ?case
  proof (cases "ev_RWpair (g x) (g y)")
    case True
    thus ?thesis by (simp add: nth_append)
  next
    case False
    have "va_inner g (A @ x # (y # B) @ C) (length A) (length (y # B)) =
        va_inner g ((A @ [y]) @ x # B @ C) (length (A @ [y])) (length B)"
      using False upd nth by (simp del: append_assoc)
    thus ?thesis using Cons.IH [of "A @ [y]"] False by simp
  qed
qed simp

definition va_blocked :: "('a \<Rightarrow> event) \<Rightarrow> ('a \<Rightarrow> int) \<Rightarrow> int \<Rightarrow> 'a list \<Rightarrow> 'a list \<Rightarrow> bool" where
  "va_blocked g pid p P N =
     (\<exists>x y. pid x = p \<and> ev_RWpair (g x) (g y) \<and>
       (before P x y \<and> pid y \<noteq> p \<or> x \<in> set P \<and> y \<in> set N))"

lemma va_blocked_snoc:
  "va_blocked g pid p (P @ [x]) N \<longleftrightarrow>
     (if pid x \<noteq> p then va_blocked g pid p P (x # N)
      else (\<exists>y\<in>set N. ev_RWpair (g x) (g y)) \<or> va_blocked g pid p P N)"
  unfolding va_blocked_def before_append before_Cons by auto

lemma va_outer_eq:
  "Suc n2 = length A + length P + length N + length Q \<Longrightarrow> N \<noteq> [] \<Longrightarrow>
   va_outer g pid p (length A) n2 (A @ P @ N @ Q @ C) (length Q) (length P) =
     Inr (if va_blocked g pid p P N then None
          else Some (A @ filter (\<lambda>x. pid x \<noteq> p) P @ N @ filter (\<lambda>x. pid x = p) P @ Q @ C))"
proof (induction P arbitrary: N Q rule: rev_induct)
  case Nil
  thus ?case by (simp add: va_blocked_def)
next
  case (snoc x P)
  let ?ev = "A @ (P @ [x]) @ N @ Q @ C"
  have nth: "?ev ! (length A + length P) = x"
    by (simp add: nth_append)
  have len: "\<not> length ?ev \<le> length A + length P" by simp
  show ?case
  proof (cases "pid x = p")
    case False
    have "va_outer g pid p (length A) n2 ?ev (length Q) (length (P @ [x])) =
        va_outer g pid p (length A) n2 (A @ P @ (x # N) @ Q @ C) (length Q) (length P)"
      using nth len False by simp
    thus ?thesis using snoc.IH [of "x # N" Q] snoc.prems False by (simp add: va_blocked_snoc)
  next
    case True
    have cnt: "n2 - length Q - (length A + length P) = length N"
      using snoc.prems by simp
    have inner: "va_inner g ?ev (length A + length P) (length N) =
        Inr (if \<exists>y\<in>set N. ev_RWpair (g x) (g y) then None else Some ((A @ P) @ N @ x # Q @ C))"
      using va_inner_eq [of g "A @ P" x N "Q @ C"] by simp
    show ?thesis
    proof (cases "\<exists>y\<in>set N. ev_RWpair (g x) (g y)")
      case blocked: True
      thus ?thesis using nth len True inner cnt by (simp add: va_blocked_snoc)
    next
      case free: False
      have "va_outer g pid p (length A) n2 ?ev (length Q) (length (P @ [x])) =
          va_outer g pid p (length A) n2 (A @ P @ N @ (x # Q) @ C) (length (x # Q)) (length P)"
        using nth len True inner cnt free by simp
      thus ?thesis
        using snoc.IH [of N "x # Q"] snoc.prems True free by (simp add: va_blocked_snoc)
    qed
  qed
qed

lemma seq_view_adjust_eq:
  assumes "distinct (A @ M @ e2 # C)" "M = e1 # M'"
  shows "seq_view_adjust c (A @ M @ e2 # C) e1 e2 =
    (if ordered_by_join c e1 e2 \<or> ordered_by_spawn c e1 e2
        \<or> va_blocked (get_event c) iid_pid (iid_pid e1) M [e2]
     then Inr (A @ M @ e2 # C, False)
     else Inr (A @ filter (\<lambda>x. iid_pid x \<noteq> iid_pid e1) M @ e2 #
               filter (\<lambda>x. iid_pid x = iid_pid e1) M @ C, True))"
proof -
  have n1: "seq_index_of (A @ M @ e2 # C) e1 = length A"
    using seq_index_of_split [of e1 A "M' @ e2 # C"] assms by simp
  have n2: "seq_index_of (A @ M @ e2 # C) e2 = length A + length M"
    using seq_index_of_split [of e2 "A @ M" C] assms by auto
  have "va_outer (get_event c) iid_pid (iid_pid e1) (length A) (length A + length M)
      (A @ M @ e2 # C) 0 (length M) =
    Inr (if va_blocked (get_event c) iid_pid (iid_pid e1) M [e2] then None
      else Some (A @ filter (\<lambda>x. iid_pid x \<noteq> iid_pid e1) M @ e2 #
               filter (\<lambda>x. iid_pid x = iid_pid e1) M @ C))"
    using va_outer_eq [of "length A + length M" A M "[e2]" "[]" "get_event c" iid_pid "iid_pid e1" C] by simp
  thus ?thesis by (simp add: seq_view_adjust_def Let_def n1 n2)
qed

lemma before_splitE:
  assumes "before s u v"
  obtains A M C where "s = A @ (u # M) @ v # C"
  using assms by (auto simp: before_def)

definition adjusted_by :: "('a \<Rightarrow> event) \<Rightarrow> ('a \<Rightarrow> int) \<Rightarrow> 'a list \<Rightarrow> 'a list \<Rightarrow> bool" where
  "adjusted_by g pid s t =
     (mset t = mset s \<and> (\<forall>k. filter (\<lambda>x. pid x = k) t = filter (\<lambda>x. pid x = k) s) \<and>
      (\<forall>u v. ev_RWpair (g u) (g v) \<longrightarrow> (before t u v \<longleftrightarrow> before s u v)))"

abbreviation adjusted :: "vctx \<Rightarrow> seq \<Rightarrow> seq \<Rightarrow> bool" where
  "adjusted c \<equiv> adjusted_by (get_event c) iid_pid"

lemmas adjusted_def = adjusted_by_def

lemma adjusted_refl [simp]: "adjusted_by g pid s s"
  by (simp add: adjusted_def)

lemma adjusted_trans: "adjusted_by g pid s t \<Longrightarrow> adjusted_by g pid t u \<Longrightarrow> adjusted_by g pid s u"
  by (simp add: adjusted_def)

lemma adjusted_set: "adjusted_by g pid s t \<Longrightarrow> set t = set s"
  by (metis adjusted_def set_mset_mset)

lemma adjusted_distinct: "adjusted_by g pid s t \<Longrightarrow> distinct s \<Longrightarrow> distinct t"
  unfolding adjusted_def by (metis mset_eq_imp_distinct_iff)

lemma adjusted_same_thread:
  assumes "adjusted_by g pid s t" "pid u = pid v"
  shows "before t u v \<longleftrightarrow> before s u v"
  using assms before_filter [of "\<lambda>x. pid x = pid v" t u v] before_filter [of "\<lambda>x. pid x = pid v" s u v]
  by (simp add: adjusted_def)

lemma before_move:
  assumes "\<not> P w" "u \<noteq> v"
    and "\<not> (P u \<and> \<not> P v \<and> before M u v)" "\<not> (P v \<and> \<not> P u \<and> before M v u)"
    and "\<not> (P u \<and> u \<in> set M \<and> v = w)" "\<not> (P v \<and> v \<in> set M \<and> u = w)"
  shows "before (filter (\<lambda>x. \<not> P x) M @ w # filter P M) u v \<longleftrightarrow> before (M @ [w]) u v"
proof -
  have tot: "u \<in> set M \<Longrightarrow> v \<in> set M \<Longrightarrow> before M u v \<or> before M v u"
    using assms(2) by (simp add: before_total)
  have mem: "before M u v \<Longrightarrow> u \<in> set M \<and> v \<in> set M" by (rule before_in_set)
  show ?thesis
  proof (cases "P u")
    case True
    thus ?thesis using assms(1,3,5) by (cases "P v") (auto simp: before_append before_Cons before_filter)
  next
    case False
    thus ?thesis using assms(1,4,6) tot mem
      by (cases "P v") (auto simp: before_append before_Cons before_filter)
  qed
qed

lemma before_context:
  assumes "set X = set Y" "before X u v \<longleftrightarrow> before Y u v"
  shows "before (A @ X @ C) u v \<longleftrightarrow> before (A @ Y @ C) u v"
  using assms by (simp add: before_append)

lemma va_moved_adjusted:
  fixes g :: "'a \<Rightarrow> event" and pid :: "'a \<Rightarrow> int"
  defines "moved \<equiv> \<lambda>p M w. filter (\<lambda>x. pid x \<noteq> p) M @ w # filter (\<lambda>x. pid x = p) M"
  assumes "pid w \<noteq> p" "\<not> va_blocked g pid p M [w]"
  shows "adjusted_by g pid (A @ M @ w # C) (A @ moved p M w @ C)"
  unfolding adjusted_def
proof (intro conjI allI impI)
  show "mset (A @ moved p M w @ C) = mset (A @ M @ w # C)"
    by (simp add: moved_def multiset_eq_iff)
next
  fix k
  show "filter (\<lambda>x. pid x = k) (A @ moved p M w @ C) = filter (\<lambda>x. pid x = k) (A @ M @ w # C)"
    using assms(2) unfolding moved_def
    by (cases "k = p") (auto simp: filter_empty_conv intro!: filter_cong)
next
  fix u v assume rw: "ev_RWpair (g u) (g v)"
  hence rw': "ev_RWpair (g v) (g u)" by (simp add: ev_RWpair_sym)
  have f: "\<not> (pid x = p \<and> ev_RWpair (g x) (g y) \<and>
      (before M x y \<and> pid y \<noteq> p \<or> x \<in> set M \<and> y \<in> set [w]))" for x y
    using assms(3) unfolding va_blocked_def by blast
  have uv: "u \<noteq> v" using rw ev_RWpair_irrefl by auto
  have "before (filter (\<lambda>x. \<not> pid x = p) M @ w # filter (\<lambda>x. pid x = p) M) u v \<longleftrightarrow> before (M @ [w]) u v"
  proof (rule before_move)
    show "\<not> pid w = p" by (rule assms(2))
    show "u \<noteq> v" by (rule uv)
    show "\<not> (pid u = p \<and> \<not> pid v = p \<and> before M u v)" using f [of u v] rw by blast
    show "\<not> (pid v = p \<and> \<not> pid u = p \<and> before M v u)" using f [of v u] rw' by blast
    show "\<not> (pid u = p \<and> u \<in> set M \<and> v = w)" using f [of u v] rw by (metis list.set_intros(1))
    show "\<not> (pid v = p \<and> v \<in> set M \<and> u = w)" using f [of v u] rw' by (metis list.set_intros(1))
  qed
  hence "before (A @ moved p M w @ C) u v \<longleftrightarrow> before (A @ (M @ [w]) @ C) u v"
    unfolding moved_def by (intro before_context) auto
  thus "before (A @ moved p M w @ C) u v \<longleftrightarrow> before (A @ M @ w # C) u v" by simp
qed

lemma seq_view_adjust_sound:
  assumes "distinct s" "before s e1 e2" "iid_pid e1 \<noteq> iid_pid e2"
  obtains t ok where "seq_view_adjust c s e1 e2 = Inr (t, ok)" "adjusted c s t" "ok \<Longrightarrow> before t e2 e1" "\<not> ok \<Longrightarrow> t = s"
proof -
  obtain A M' C where s: "s = A @ (e1 # M') @ e2 # C" using assms(2) by (rule before_splitE)
  let ?p = "iid_pid e1"
  let ?M = "e1 # M'"
  let ?t = "A @ (filter (\<lambda>x. iid_pid x \<noteq> ?p) ?M @ e2 # filter (\<lambda>x. iid_pid x = ?p) ?M) @ C"
  note eq = seq_view_adjust_eq [OF assms(1) [unfolded s] refl, of c, folded s]
  show thesis
  proof (cases "ordered_by_join c e1 e2 \<or> ordered_by_spawn c e1 e2
        \<or> va_blocked (get_event c) iid_pid ?p ?M [e2]")
    case True
    hence "seq_view_adjust c s e1 e2 = Inr (s, False)" using eq by (simp only: if_True)
    thus thesis by (rule that) simp_all
  next
    case False
    have adj: "adjusted c s ?t"
      unfolding s by (rule va_moved_adjusted) (use False assms(3) in auto)
    have bef: "before ?t e2 e1" by (simp add: before_append before_Cons)
    have res: "seq_view_adjust c s e1 e2 = Inr (?t, True)" using eq False by simp
    show thesis by (rule that [OF res adj]) (simp_all add: bef [simplified])
  qed
qed

section \<open>Reversed pairs and the merge loop\<close>

lemma seq_conflicts_inner_None:
  "seq_conflicts_inner t x ys = None \<longleftrightarrow>
    (\<forall>y\<in>set ys. x \<in> set t \<and> y \<in> set t \<longrightarrow> seq_index_of t x \<le> seq_index_of t y)"
  by (induction ys) (auto simp: seq_has_iff)

lemma seq_conflicts_inner_Some:
  "seq_conflicts_inner t x ys = Some (u, v) \<Longrightarrow>
    u = x \<and> v \<in> set ys \<and> u \<in> set t \<and> v \<in> set t \<and> seq_index_of t v < seq_index_of t u"
  by (induction ys) (auto simp: seq_has_iff split: if_splits)

lemma seq_conflicts_with_None:
  "seq_conflicts_with s t = None \<longleftrightarrow>
    (\<forall>u v. before s u v \<and> u \<in> set t \<and> v \<in> set t \<longrightarrow> seq_index_of t u \<le> seq_index_of t v)"
proof (induction s)
  case (Cons x s)
  show ?case
  proof (cases "seq_conflicts_inner t x s")
    case None
    hence "\<forall>y\<in>set s. x \<in> set t \<and> y \<in> set t \<longrightarrow> seq_index_of t x \<le> seq_index_of t y"
      by (simp add: seq_conflicts_inner_None)
    thus ?thesis using None Cons.IH by (auto simp: before_Cons)
  next
    case (Some p)
    then obtain v where "v \<in> set s" "x \<in> set t" "v \<in> set t" "seq_index_of t v < seq_index_of t x"
      using seq_conflicts_inner_Some [of t x s "fst p" "snd p"] by auto
    hence "\<exists>u v. before (x # s) u v \<and> u \<in> set t \<and> v \<in> set t \<and> \<not> seq_index_of t u \<le> seq_index_of t v"
      by (auto simp: before_Cons not_le)
    thus ?thesis using Some by auto
  qed
qed simp

lemma seq_conflicts_with_Some:
  "seq_conflicts_with s t = Some (u, v) \<Longrightarrow>
    before s u v \<and> u \<in> set t \<and> v \<in> set t \<and> seq_index_of t v < seq_index_of t u"
  by (induction s) (auto simp: before_Cons dest: seq_conflicts_inner_Some split: option.splits)

text \<open>Two sequences order the events of each thread alike.\<close>

definition threads_agree :: "seq \<Rightarrow> seq \<Rightarrow> bool" where
  "threads_agree s t = (\<forall>u v. iid_pid u = iid_pid v \<longrightarrow> before s u v \<longrightarrow> \<not> before t v u)"

definition conflict_free :: "seq \<Rightarrow> seq \<Rightarrow> bool" where
  "conflict_free s t = (\<forall>u v. before s u v \<longrightarrow> \<not> before t v u)"

lemma threads_agree_sym: "threads_agree s t \<Longrightarrow> threads_agree t s"
  unfolding threads_agree_def by metis

lemma threads_agree_adjusted: "threads_agree s t \<Longrightarrow> adjusted c s s' \<Longrightarrow> threads_agree s' t"
  unfolding threads_agree_def using adjusted_same_thread by metis

lemma cm_loop_sound:
  assumes "distinct p" "distinct q" "threads_agree p q"
  shows "case cm_loop c n p q of
      Inl e \<Rightarrow> e = Out_of_fuel
    | Inr None \<Rightarrow> True
    | Inr (Some (p', q')) \<Rightarrow> adjusted c p p' \<and> adjusted c q q' \<and> conflict_free p' q'"
  using assms
proof (induction n arbitrary: p q)
  case (Suc n)
  show ?case
  proof (cases "seq_conflicts_with p q")
    case None
    have "conflict_free p q"
      unfolding conflict_free_def
    proof (intro allI impI notI)
      fix u v assume "before p u v" "before q v u"
      hence "seq_index_of q u \<le> seq_index_of q v" "seq_index_of q v < seq_index_of q u"
        using None Suc.prems(2) before_in_set [of q v u]
        by (auto simp: seq_conflicts_with_None seq_index_of_before)
      thus False by simp
    qed
    thus ?thesis using None by simp
  next
    case (Some uv)
    obtain u v where uv: "uv = (u, v)" by fastforce
    have c: "before p u v" "u \<in> set q" "v \<in> set q" "before q v u"
      using seq_conflicts_with_Some [of p q u v] Some uv Suc.prems(2) by (auto simp: seq_index_of_before)
    have pid: "iid_pid u \<noteq> iid_pid v" using Suc.prems(3) c by (auto simp: threads_agree_def)
    obtain p' ok where p': "seq_view_adjust c p u v = Inr (p', ok)" "adjusted c p p'" "\<not> ok \<Longrightarrow> p' = p"
      using seq_view_adjust_sound [OF Suc.prems(1) c(1) pid] by metis
    obtain q' ok' where q': "seq_view_adjust c q v u = Inr (q', ok')" "adjusted c q q'"
      using seq_view_adjust_sound [OF Suc.prems(2) c(4)] pid by metis
    have IH1: "case cm_loop c n p' q of
      Inl e \<Rightarrow> e = Out_of_fuel | Inr None \<Rightarrow> True
    | Inr (Some (p'', q'')) \<Rightarrow> adjusted c p' p'' \<and> adjusted c q q'' \<and> conflict_free p'' q''"
      by (rule Suc.IH) (use Suc.prems p'(2) in \<open>auto intro: adjusted_distinct threads_agree_adjusted\<close>)
    have IH2: "case cm_loop c n p q' of
      Inl e \<Rightarrow> e = Out_of_fuel | Inr None \<Rightarrow> True
    | Inr (Some (p'', q'')) \<Rightarrow> adjusted c p p'' \<and> adjusted c q' q'' \<and> conflict_free p'' q''"
      by (rule Suc.IH)
        (use Suc.prems q'(2) threads_agree_sym [OF threads_agree_adjusted [OF threads_agree_sym [OF Suc.prems(3)] q'(2)]]
         in \<open>auto intro: adjusted_distinct\<close>)
    show ?thesis
    proof (cases ok)
      case True
      hence "cm_loop c (Suc n) p q = cm_loop c n p' q" using Some uv p' by simp
      thus ?thesis using IH1 p'(2) by (auto split: sum.splits option.splits intro: adjusted_trans)
    next
      case False
      hence "cm_loop c (Suc n) p q = (if ok' then cm_loop c n p q' else Inr None)"
        using Some uv p' q' by simp
      thus ?thesis using IH2 q'(2) by (auto split: sum.splits option.splits intro: adjusted_trans)
    qed
  qed
qed simp

lemma cm_loop_more_fuel:
  "cm_loop c n p q \<noteq> Inl Out_of_fuel \<Longrightarrow> cm_loop c (n + m) p q = cm_loop c n p q"
proof (induction n arbitrary: p q)
  case (Suc n)
  show ?case
  proof (cases "seq_conflicts_with p q")
    case (Some uv)
    thus ?thesis
      using Suc.prems Suc.IH
      by (cases uv; cases "seq_view_adjust c p (fst uv) (snd uv)";
          cases "seq_view_adjust c q (snd uv) (fst uv)") (auto split: if_splits)
  qed simp
qed simp

section \<open>What joining produces\<close>

lemma jp_push_primary_eq: "jp_push_primary c oa merged ps = Some m \<Longrightarrow> m = merged @ ps"
proof (induction ps arbitrary: merged)
  case (Cons a ps)
  from Cons.prems have "jp_push_primary c oa (merged @ [a]) ps = Some m"
    by (auto simp: Let_def split: if_splits)
  from Cons.IH [OF this] show ?case by simp
qed simp

lemma jp_scan_split:
  "jp_scan c o1 oa merged dn prim = Some (m, p) \<Longrightarrow> \<exists>X. m = merged @ X \<and> dn @ prim = X @ p"
proof (induction c o1 oa merged dn prim rule: jp_scan.induct)
  case (2 c o1 oa merged dn x rest)
  show ?case
  proof (cases "ev_is_write (get_event c o1) \<and> ev_RWpair (get_event c o1) (get_event c x) \<or> ordered_before c x o1")
    case False
    hence "jp_scan c o1 oa merged dn (x # rest) = jp_scan c o1 oa merged (dn @ [x]) rest"
      by (simp only: jp_scan.simps Let_def if_False)
    thus ?thesis using "2.prems" "2.IH"(4) [OF refl refl False] by simp
  next
    case True
    then obtain m1 where cyc: "\<not> jp_cyclic c (o1 # oa) (dn @ [x])"
      and m1: "jp_push_primary c oa merged dn = Some m1"
      using "2.prems" by (auto simp: Let_def split: if_splits option.splits)
    note m1eq = jp_push_primary_eq [OF m1]
    show ?thesis
    proof (cases rest)
      case Nil
      thus ?thesis using "2.prems" "2.IH"(1) [OF refl refl True cyc m1 Nil] True cyc m1 m1eq by (auto simp: Let_def)
    next
      case (Cons w rest')
      show ?thesis
      proof (cases "ev_is_rmw (get_event c x)")
        case rmw: True
        thus ?thesis
          using "2.prems" "2.IH"(2) [OF refl refl True cyc m1 Cons rmw] Cons True cyc m1 m1eq
          by (auto simp: Let_def)
      next
        case rmw: False
        thus ?thesis
          using "2.prems" "2.IH"(3) [OF refl refl True cyc m1 Cons rmw] Cons True cyc m1 m1eq
          by (auto simp: Let_def)
      qed
    qed
  qed
qed simp

lemma shuffles_step:
  "z \<in> shuffles X2 os \<Longrightarrow> X1 @ o1 # z \<in> shuffles (X1 @ X2) (o1 # os)"
  by (induction X1) (auto intro: Cons_in_shuffles_leftI Cons_in_shuffles_rightI)

lemma shuffles_append_left: "z \<in> shuffles X os \<Longrightarrow> z @ p \<in> shuffles (X @ p) os"
proof (induction X os arbitrary: z rule: shuffles.induct)
  case (1 ys)
  have "ys @ p \<in> shuffles p ys" for ys
    by (induction ys) (auto intro: Cons_in_shuffles_rightI)
  thus ?case using 1 by simp
next
  case (3 x xs y ys)
  thus ?case by (auto intro: Cons_in_shuffles_leftI Cons_in_shuffles_rightI)
qed simp

definition no_rmw_write :: "vctx \<Rightarrow> seq \<Rightarrow> bool" where
  "no_rmw_write c s = (\<forall>i\<in>set s. \<not> (ev_is_write (get_event c i) \<and> ev_is_rmw (get_event c i)))"

lemma jp_loop_shuffle:
  assumes "no_rmw_write c os" "jp_loop c merged prev os prim = Inr (Some (m, p))"
  shows "\<exists>X z. m = merged @ z \<and> prim = X @ p \<and> z \<in> shuffles X os"
  using assms
proof (induction os arbitrary: merged prev prim)
  case (Cons o1 os)
  obtain m1 p1 where s: "jp_scan c o1 os merged [] prim = Some (m1, p1)"
    and l: "jp_loop c (m1 @ [o1]) (Some o1) os p1 = Inr (Some (m, p))"
    using Cons.prems by (auto simp: no_rmw_write_def Let_def split: option.splits if_splits)
  obtain X1 where X1: "m1 = merged @ X1" "prim = X1 @ p1"
    using jp_scan_split [OF s] by auto
  obtain X2 z where z: "m = (m1 @ [o1]) @ z" "p1 = X2 @ p" "z \<in> shuffles X2 os"
    using Cons.IH [OF _ l] Cons.prems(1) by (auto simp: no_rmw_write_def)
  have "m = merged @ (X1 @ o1 # z)" "prim = (X1 @ X2) @ p" using X1 z by simp_all
  thus ?case using shuffles_step [OF z(3)] by blast
qed simp

lemma jp_loop_no_error:
  assumes "no_rmw_write c os"
  shows "jp_loop c merged prev os prim \<noteq> Inl e"
  using assms
proof (induction os arbitrary: merged prev prim)
  case (Cons o1 os)
  thus ?case by (auto simp: no_rmw_write_def Let_def split: option.splits)
qed simp

lemma seq_join_prefix_shuffle:
  assumes "no_rmw_write c oth"
  obtains r where "seq_join_prefix c merged prim prev oth = Inr r"
    "r = [] \<or> (\<exists>z\<in>shuffles prim oth. r = merged @ z)"
proof (cases "prim = [] \<or> oth = []")
  case True
  thus thesis by (intro that [of "merged @ (if prim = [] then oth else prim)"]) (auto simp: seq_join_prefix_def)
next
  case False
  show thesis
  proof (cases "jp_loop c merged prev oth prim")
    case (Inl e)
    thus thesis using jp_loop_no_error [OF assms] by blast
  next
    case (Inr r)
    show thesis
    proof (cases r)
      case None
      thus thesis using False Inr by (intro that [of "[]"]) (auto simp: seq_join_prefix_def)
    next
      case (Some mp)
      obtain m p where mp: "mp = (m, p)" by fastforce
      obtain X z where z: "m = merged @ z" "prim = X @ p" "z \<in> shuffles X oth"
        using jp_loop_shuffle [OF assms, of merged prev prim m p] Inr Some mp by auto
      show thesis
        using False Inr Some mp z shuffles_append_left [OF z(3), of p]
        by (intro that [of "merged @ z @ p"]) (auto simp: seq_join_prefix_def)
    qed
  qed
qed

text \<open>The result holds the events of both sequences once each, in the order of either.\<close>

definition merges :: "seq \<Rightarrow> seq \<Rightarrow> seq \<Rightarrow> bool" where
  "merges p q r =
     (set r = set p \<union> set q \<and> distinct r \<and> (\<forall>u v. before p u v \<or> before q u v \<longrightarrow> before r u v))"

lemma shuffles_before:
  "z \<in> shuffles p q \<Longrightarrow> before p u v \<or> before q u v \<Longrightarrow> before z u v"
proof (induction p q arbitrary: z rule: shuffles.induct)
  case (3 x xs y ys)
  consider z' where "z = x # z'" "z' \<in> shuffles xs (y # ys)"
    | z' where "z = y # z'" "z' \<in> shuffles (x # xs) ys"
    using "3.prems"(1) by auto
  thus ?case
  proof cases
    case 1
    have "set z' = set xs \<union> set (y # ys)" using 1(2) by (rule set_shuffles)
    thus ?thesis using 1 "3.IH"(1) [OF 1(2)] "3.prems"(2) by (auto simp: before_Cons)
  next
    case 2
    have "set z' = set (x # xs) \<union> set ys" using 2(2) by (rule set_shuffles)
    thus ?thesis using 2 "3.IH"(2) [OF 2(2)] "3.prems"(2) by (auto simp: before_Cons)
  qed
qed auto

lemma shuffles_merges:
  assumes "z \<in> shuffles p q" "distinct p" "distinct q" "set p \<inter> set q = {}"
  shows "merges p q z"
  unfolding merges_def
  using assms set_shuffles [OF assms(1)] distinct_disjoint_shuffles [OF assms(2,3,4,1)] shuffles_before [OF assms(1)]
  by blast

lemma merges_common:
  assumes "merges p1 q1 z" "merges p2 q2 r" "distinct (p1 @ x # p2)" "distinct (q1 @ x # q2)"
    and "set p1 \<inter> set q2 = {}" "set q1 \<inter> set p2 = {}"
  shows "merges (p1 @ x # p2) (q1 @ x # q2) (z @ x # r)"
  using assms unfolding merges_def
  by (auto simp: before_append before_Cons)

lemma merges_Nil: "distinct q \<Longrightarrow> merges [] q q" "distinct p \<Longrightarrow> merges p [] p"
  by (simp_all add: merges_def)

lemma no_rmw_write_subset: "no_rmw_write c s \<Longrightarrow> set t \<subseteq> set s \<Longrightarrow> no_rmw_write c t"
  by (auto simp: no_rmw_write_def)

lemma seq_join_loop_merges:
  assumes "distinct oth" "no_rmw_write c oth"
  shows "k \<le> length oth \<Longrightarrow> set pseg \<inter> set oth = {} \<Longrightarrow> distinct (pseg @ xs) \<Longrightarrow>
    set xs \<inter> set (take k oth) = {} \<Longrightarrow>
    (\<And>u v. before xs u v \<Longrightarrow> u \<in> set oth \<Longrightarrow> v \<in> set oth \<Longrightarrow> before oth u v) \<Longrightarrow>
    \<exists>r. seq_join_loop c oth merged k pseg xs = Inr r \<and>
      (r = [] \<or> (\<exists>z. r = merged @ z \<and> merges (pseg @ xs) (drop k oth) z))"
proof (induction xs arbitrary: merged k pseg)
  case Nil
  have sub: "set (drop k oth) \<subseteq> set oth" by (rule set_drop_subset)
  obtain r where r: "seq_join_prefix c merged pseg (prev_of oth k) (drop k oth) = Inr r"
    "r = [] \<or> (\<exists>z\<in>shuffles pseg (drop k oth). r = merged @ z)"
    using seq_join_prefix_shuffle [OF no_rmw_write_subset [OF assms(2) sub]] by metis
  have "merges pseg (drop k oth) z" if "z \<in> shuffles pseg (drop k oth)" for z
    by (rule shuffles_merges [OF that]) (use Nil assms sub in auto)
  thus ?case using r by auto
next
  case (Cons x xs)
  let ?n = "seq_index_of oth x"
  have order: "before oth u v" if "before xs u v" "u \<in> set oth" "v \<in> set oth" for u v
    using Cons.prems(5) [of u v] that by (simp add: before_Cons)
  show ?case
  proof (cases "x \<in> set oth")
    case False
    hence "?n = length oth" using seq_index_of_less_iff [of oth x] seq_index_of_le [of oth x] by linarith
    moreover have "\<exists>r. seq_join_loop c oth merged k (pseg @ [x]) xs = Inr r \<and>
      (r = [] \<or> (\<exists>z. r = merged @ z \<and> merges ((pseg @ [x]) @ xs) (drop k oth) z))"
      by (rule Cons.IH) (use Cons.prems False order in auto)
    ultimately show ?thesis by simp
  next
    case True
    hence n: "?n < length oth" by (simp add: seq_index_of_less_iff)
    have nx: "oth ! ?n = x" using True by (rule seq_index_of_nth)
    have kn: "k \<le> ?n"
    proof (rule ccontr)
      assume "\<not> k \<le> ?n"
      hence "x \<in> set (take k oth)" using n nx by (auto simp: in_set_conv_nth intro!: exI [of _ ?n])
      thus False using Cons.prems(4) by auto
    qed
    let ?q1 = "take (?n - k) (drop k oth)" and ?q2 = "drop (?n + 1) oth"
    have whole: "drop k oth = ?q1 @ x # ?q2"
    proof -
      have "drop (?n - k) (drop k oth) = x # ?q2"
        using kn n nx Cons_nth_drop_Suc [of ?n oth] by simp
      thus ?thesis by (metis append_take_drop_id)
    qed
    have q1: "set ?q1 \<subseteq> set (take ?n oth)"
      using kn by (metis drop_take le_add_diff_inverse set_drop_subset take_drop)
    have fresh: "set xs \<inter> set (take (?n + 1) oth) = {}"
    proof (rule ccontr)
      assume "set xs \<inter> set (take (?n + 1) oth) \<noteq> {}"
      then obtain y where y: "y \<in> set xs" "y \<in> set (take (?n + 1) oth)" by blast
      hence yx: "y \<noteq> x" using Cons.prems(3) by auto
      have tk: "take (?n + 1) oth = take ?n oth @ [x]" using n nx by (simp add: take_Suc_conv_app_nth)
      have oth: "oth = take ?n oth @ x # ?q2" using n nx by (metis Suc_eq_plus1 id_take_nth_drop)
      have yt: "y \<in> set (take ?n oth)" using y yx tk by simp
      have "before (take ?n oth @ x # ?q2) y x" using yt by (simp add: before_append before_Cons)
      hence "before oth y x" using oth by simp
      moreover have "before oth x y"
        using Cons.prems(5) [of x y] y True in_set_takeD [OF y(2)] by (simp add: before_Cons)
      ultimately show False using before_asym [OF assms(1)] by blast
    qed
    have IH: "\<exists>r. seq_join_loop c oth m (?n + 1) [] xs = Inr r \<and>
      (r = [] \<or> (\<exists>z. r = m @ z \<and> merges ([] @ xs) ?q2 z))" for m
      by (rule Cons.IH) (use Cons.prems n fresh order in auto)
    have common: "merges (pseg @ x # xs) (?q1 @ x # ?q2) (z1 @ x # z2)"
      if "merges pseg ?q1 z1" "merges xs ?q2 z2" for z1 z2
    proof (rule merges_common [OF that])
      show "distinct (?q1 @ x # ?q2)" using assms(1) whole distinct_drop [of oth k] by metis
      show "set pseg \<inter> set ?q2 = {}" using Cons.prems(2) set_drop_subset [of "?n + 1" oth] by blast
      show "set ?q1 \<inter> set xs = {}" using q1 fresh set_take_subset_set_take [of ?n "?n + 1" oth] by auto
    qed (use Cons.prems(3) in simp)
    note common' = common [folded whole]
    show ?thesis
    proof (cases "pseg \<noteq> [] \<or> ?n \<noteq> k")
      case False
      obtain r where r: "seq_join_loop c oth (merged @ [x]) (?n + 1) [] xs = Inr r"
        "r = [] \<or> (\<exists>z. r = (merged @ [x]) @ z \<and> merges ([] @ xs) ?q2 z)" using IH by blast
      have "merges pseg ?q1 []" using False by (simp add: merges_def)
      thus ?thesis using r False n common' [of "[]"] by (auto simp: Let_def)
    next
      case seg: True
      have sub: "set ?q1 \<subseteq> set oth" using q1 set_take_subset [of ?n oth] by blast
      obtain m where m: "seq_join_prefix c merged pseg (prev_of oth k) ?q1 = Inr m"
        "m = [] \<or> (\<exists>z\<in>shuffles pseg ?q1. m = merged @ z)"
        using seq_join_prefix_shuffle [OF no_rmw_write_subset [OF assms(2) sub]] by metis
      have step: "seq_join_loop c oth merged k pseg (x # xs) =
          (if m = [] then Inr [] else seq_join_loop c oth (m @ [x]) (?n + 1) [] xs)"
        using seg n kn m(1) by (simp add: Let_def)
      show ?thesis
      proof (cases "m = []")
        case True
        thus ?thesis using step by simp
      next
        case False
        then obtain z1 where z1: "z1 \<in> shuffles pseg ?q1" "m = merged @ z1" using m(2) by blast
        have "merges pseg ?q1 z1"
          by (rule shuffles_merges [OF z1(1)])
            (use Cons.prems(2,3) assms(1) sub in \<open>auto intro: distinct_take distinct_drop\<close>)
        moreover obtain r where r: "seq_join_loop c oth (m @ [x]) (?n + 1) [] xs = Inr r"
          "r = [] \<or> (\<exists>z. r = (m @ [x]) @ z \<and> merges ([] @ xs) ?q2 z)" using IH by blast
        ultimately show ?thesis using step False z1(2) common' by auto
      qed
    qed
  qed
qed

lemma seq_join_merges:
  assumes "distinct p" "distinct q" "conflict_free p q" "no_rmw_write c q"
  obtains r where "seq_join c p q = Inr r" "r = [] \<or> merges p q r"
proof -
  have "before q u v" if "before p u v" "u \<in> set q" "v \<in> set q" for u v
  proof -
    have "u \<noteq> v" using that(1) assms(1) before_asym [OF assms(1), of u v] by auto
    thus ?thesis using that assms(3) before_total [of u q v] by (auto simp: conflict_free_def)
  qed
  hence "\<exists>r. seq_join_loop c q [] 0 [] p = Inr r \<and> (r = [] \<or> (\<exists>z. r = [] @ z \<and> merges ([] @ p) (drop 0 q) z))"
    by (intro seq_join_loop_merges [OF assms(2,4)]) (use assms(1) in auto)
  thus thesis using that by (auto simp: seq_join_def)
qed

text \<open>Where the write of a read-modify-write comes behind another event of its thread (its read), no step of
  \<open>join\<close> fails: the event before it in \<open>other\<close> is in the merged sequence already.\<close>

definition rmw_write :: "vctx \<Rightarrow> int iid \<Rightarrow> bool" where
  "rmw_write c i = (ev_is_write (get_event c i) \<and> ev_is_rmw (get_event c i))"

definition rmw_follows :: "vctx \<Rightarrow> seq \<Rightarrow> bool" where
  "rmw_follows c s = (\<forall>w\<in>set s. rmw_write c w \<longrightarrow> (\<exists>r. iid_pid r = iid_pid w \<and> before s r w))"

lemma rmw_follows_adjusted:
  assumes "rmw_follows c s" "adjusted c s s'"
  shows "rmw_follows c s'"
  using assms adjusted_same_thread [OF assms(2)] adjusted_set [OF assms(2)] unfolding rmw_follows_def by metis

lemma rmw_follows_hd:
  assumes "rmw_follows c (x # s)" "distinct (x # s)"
  shows "\<not> rmw_write c x"
  using assms before_in_set [of s] by (auto simp: rmw_follows_def before_Cons)

lemma jp_rmw_read_ok:
  assumes "r \<in> set merged"
  shows "\<exists>m. jp_rmw_read_to_end c r merged = Inr m"
proof -
  have "seq_index_of merged r < length merged" using assms by (simp add: seq_index_of_less_iff)
  thus ?thesis by (auto simp: jp_rmw_read_to_end_def Let_def split: option.split)
qed

lemma jp_loop_safe:
  assumes "case prev of None \<Rightarrow> (case os of [] \<Rightarrow> True | x # _ \<Rightarrow> \<not> rmw_write c x) | Some r \<Rightarrow> r \<in> set merged"
  shows "jp_loop c merged prev os prim \<noteq> Inl e"
  using assms
proof (induction os arbitrary: merged prev prim)
  case (Cons o1 os)
  show ?case
  proof (cases "jp_scan c o1 os merged [] prim")
    case None
    thus ?thesis by simp
  next
    case (Some mp)
    obtain m1 p1 where s: "jp_scan c o1 os merged [] prim = Some (m1, p1)" using Some by (cases mp) auto
    obtain X where X: "m1 = merged @ X" using jp_scan_split [OF s] by blast
    have IH: "jp_loop c (m @ [o1]) (Some o1) os q \<noteq> Inl e" for m q
      by (rule Cons.IH) simp
    show ?thesis
    proof (cases "rmw_write c o1")
      case False
      hence "jp_loop c merged prev (o1 # os) prim = jp_loop c (m1 @ [o1]) (Some o1) os p1" using s by (auto simp: rmw_write_def Let_def)
      thus ?thesis using IH by simp
    next
      case True
      then obtain r where r: "prev = Some r" "r \<in> set m1" using Cons.prems X by (auto split: option.splits)
      obtain m where m: "jp_rmw_read_to_end c r m1 = Inr m" using jp_rmw_read_ok [OF r(2)] by blast
      show ?thesis using s True r(1) m IH by (cases m) (auto simp: rmw_write_def Let_def)
    qed
  qed
qed (auto split: option.splits)

lemma seq_join_prefix_safe:
  assumes "case prev of None \<Rightarrow> (case oth of [] \<Rightarrow> True | x # _ \<Rightarrow> \<not> rmw_write c x) | Some r \<Rightarrow> r \<in> set merged"
  shows "\<exists>r. seq_join_prefix c merged prim prev oth = Inr r"
  using jp_loop_safe [OF assms, of prim] unfolding seq_join_prefix_def
  by (cases "jp_loop c merged prev oth prim") (auto split: option.split)

lemma take_drop_hd: "case take n (drop 0 xs) of [] \<Rightarrow> True | x # _ \<Rightarrow> xs \<noteq> [] \<and> x = hd xs"
  by (cases xs; cases n) simp_all

text \<open>At index \<open>k\<close> of \<open>other\<close> the event before it has been merged.\<close>

lemma seq_join_loop_safe:
  assumes "distinct oth" "oth \<noteq> [] \<longrightarrow> \<not> rmw_write c (hd oth)"
  shows "k \<le> length oth \<Longrightarrow> k = 0 \<or> oth ! (k - 1) \<in> set merged \<Longrightarrow> set xs \<inter> set (take k oth) = {} \<Longrightarrow> distinct xs \<Longrightarrow>
    (\<And>u v. before xs u v \<Longrightarrow> u \<in> set oth \<Longrightarrow> v \<in> set oth \<Longrightarrow> before oth u v) \<Longrightarrow>
    \<exists>r. seq_join_loop c oth merged k pseg xs = Inr r"
proof (induction xs arbitrary: merged k pseg)
  case Nil
  have "case prev_of oth k of None \<Rightarrow> (case drop k oth of [] \<Rightarrow> True | x # _ \<Rightarrow> \<not> rmw_write c x) | Some r \<Rightarrow> r \<in> set merged"
    using Nil assms(2) by (auto simp: prev_of_def split: list.split)
  thus ?case using seq_join_prefix_safe by simp
next
  case (Cons x xs)
  let ?n = "seq_index_of oth x"
  have order: "before oth u v" if "before xs u v" "u \<in> set oth" "v \<in> set oth" for u v
    using Cons.prems(5) [of u v] that by (simp add: before_Cons)
  show ?case
  proof (cases "x \<in> set oth")
    case False
    hence "?n = length oth" using seq_index_of_less_iff [of oth x] seq_index_of_le [of oth x] by linarith
    moreover have "\<exists>r. seq_join_loop c oth merged k (pseg @ [x]) xs = Inr r"
      by (rule Cons.IH) (use Cons.prems order in auto)
    ultimately show ?thesis by simp
  next
    case True
    hence n: "?n < length oth" by (simp add: seq_index_of_less_iff)
    have nx: "oth ! ?n = x" using True by (rule seq_index_of_nth)
    have kn: "k \<le> ?n"
    proof (rule ccontr)
      assume "\<not> k \<le> ?n"
      hence "x \<in> set (take k oth)" using n nx by (auto simp: in_set_conv_nth intro!: exI [of _ ?n])
      thus False using Cons.prems(3) by auto
    qed
    have tk: "take (?n + 1) oth = take ?n oth @ [x]" using n nx by (simp add: take_Suc_conv_app_nth)
    have fresh: "set xs \<inter> set (take (?n + 1) oth) = {}"
    proof (rule ccontr)
      assume "set xs \<inter> set (take (?n + 1) oth) \<noteq> {}"
      then obtain y where y: "y \<in> set xs" "y \<in> set (take (?n + 1) oth)" by blast
      hence yt: "y \<in> set (take ?n oth)" using Cons.prems(4) tk by auto
      have "oth = take ?n oth @ x # drop (Suc ?n) oth" using n nx by (metis id_take_nth_drop)
      moreover have "before (take ?n oth @ x # drop (Suc ?n) oth) y x" using yt by (simp add: before_append before_Cons)
      ultimately have "before oth y x" by simp
      moreover have "before oth x y"
        using Cons.prems(5) [of x y] y True in_set_takeD [OF y(2)] by (simp add: before_Cons)
      ultimately show False using before_asym [OF assms(1)] by blast
    qed
    have IH: "\<exists>r. seq_join_loop c oth (m @ [x]) (?n + 1) [] xs = Inr r" for m
      by (rule Cons.IH) (use Cons.prems n nx fresh order in auto)
    have "case prev_of oth k of None \<Rightarrow> (case take (?n - k) (drop k oth) of [] \<Rightarrow> True | x # _ \<Rightarrow> \<not> rmw_write c x)
        | Some r \<Rightarrow> r \<in> set merged"
      using Cons.prems(1,2) assms(2) take_drop_hd [where n = ?n and xs = oth] by (auto simp: prev_of_def split: list.splits)
    then obtain m where "seq_join_prefix c merged pseg (prev_of oth k) (take (?n - k) (drop k oth)) = Inr m"
      using seq_join_prefix_safe by blast
    thus ?thesis using IH n kn by (auto simp: Let_def)
  qed
qed

lemma seq_join_safe:
  assumes "distinct p" "distinct q" "conflict_free p q" "rmw_follows c q"
  shows "\<exists>r. seq_join c p q = Inr r"
proof -
  have "before q u v" if "before p u v" "u \<in> set q" "v \<in> set q" for u v
  proof -
    have "u \<noteq> v" using that(1) assms(1) before_asym [OF assms(1), of u v] by auto
    thus ?thesis using that assms(3) before_total [of u q v] by (auto simp: conflict_free_def)
  qed
  moreover have "q \<noteq> [] \<longrightarrow> \<not> rmw_write c (hd q)" using assms(2,4) rmw_follows_hd [of c "hd q" "tl q"] by (cases q) auto
  ultimately show ?thesis unfolding seq_join_def
    by (intro seq_join_loop_safe [OF assms(2)]) (use assms(1) in auto)
qed

text \<open>A sequence that begins with the write of a read-modify-write makes \<open>join_prefix\<close> look for the event before
  the first one.\<close>

lemma seq_join_head_fails:
  assumes "p \<noteq> []" "q \<noteq> []" "set p \<inter> set q = {}" "rmw_write c (hd q)" "jp_scan c (hd q) (tl q) [] [] p \<noteq> None"
  shows "seq_join c p q = Inl Out_of_range"
proof -
  have "seq_join_loop c q [] 0 ps xs = seq_join_prefix c [] (ps @ xs) None q" if "set xs \<inter> set q = {}" for ps xs
    using that
  proof (induction xs arbitrary: ps)
    case (Cons x xs)
    hence "seq_index_of q x = length q" using seq_index_of_less_iff [of q x] seq_index_of_le [of q x] by auto
    thus ?case using Cons by simp
  qed (simp add: prev_of_def)
  moreover obtain x s where "q = x # s" using assms(2) by (cases q) auto
  ultimately show ?thesis using assms by (auto simp: seq_join_def seq_join_prefix_def rmw_write_def Let_def split: option.splits)
qed

lemma co_sanity_set:
  "seq_co_sanity c r p q \<Longrightarrow> r \<noteq> [] \<and>
    set (seq_get_causal_order c r) = set (seq_get_causal_order c p) \<union> set (seq_get_causal_order c q)"
  by (auto simp: seq_co_sanity_def Let_def list_all_iff split: if_splits)

lemma seq_consistent_merge_cases:
  assumes "distinct p" "distinct q" "threads_agree p q" "no_rmw_write c q"
  shows "case seq_consistent_merge c n p q of
      Inl e \<Rightarrow> e = Out_of_fuel
    | Inr (r, p', q') \<Rightarrow> adjusted c p p' \<and> adjusted c q q' \<and> (r = [] \<or> merges p' q' r \<and>
        (p \<noteq> [] \<and> q \<noteq> [] \<longrightarrow> set (seq_get_causal_order c r)
           = set (seq_get_causal_order c p') \<union> set (seq_get_causal_order c q')))"
proof (cases "p = [] \<or> q = []")
  case True
  thus ?thesis using merges_Nil [OF assms(2)] merges_Nil [OF assms(1)]
    by (auto simp: seq_consistent_merge_def)
next
  case False
  note sound = cm_loop_sound [OF assms(1-3), of c n]
  show ?thesis
  proof (cases "cm_loop c n p q")
    case (Inl e)
    thus ?thesis using False sound by (simp add: seq_consistent_merge_def)
  next
    case (Inr res)
    show ?thesis
    proof (cases res)
      case None
      thus ?thesis using False Inr by (simp add: seq_consistent_merge_def)
    next
      case (Some pq)
      obtain p' q' where pq: "pq = (p', q')" by fastforce
      have a: "adjusted c p p'" "adjusted c q q'" "conflict_free p' q'"
        using sound Inr Some pq by simp_all
      have nrw: "no_rmw_write c q'"
        using no_rmw_write_subset [OF assms(4)] adjusted_set [OF a(2)] by simp
      obtain r where r: "seq_join c p' q' = Inr r" "r = [] \<or> merges p' q' r"
        using seq_join_merges [OF adjusted_distinct [OF a(1) assms(1)] adjusted_distinct [OF a(2) assms(2)] a(3) nrw]
        by metis
      show ?thesis
        using False Inr Some pq a r co_sanity_set [of c r p' q']
        by (auto simp: seq_consistent_merge_def)
    qed
  qed
qed

section \<open>Properties\<close>

text \<open>\<open>view_adjust\<close> on two events of different threads never leaves the bounds of the sequence; it
  either gives the sequence back, or a permutation in which \<open>e2\<close> now precedes \<open>e1\<close> and
  where program order of every thread and the order of every read and write of one object are
  as before.\<close>

theorem view_adjust_preserves:
  assumes "distinct s" "before s e1 e2" "iid_pid e1 \<noteq> iid_pid e2"
  shows "\<exists>t ok. seq_view_adjust c s e1 e2 = Inr (t, ok) \<and> mset t = mset s \<and>
    (\<forall>u v. iid_pid u = iid_pid v \<longrightarrow> (before t u v \<longleftrightarrow> before s u v)) \<and>
    (\<forall>u v. ev_RWpair (get_event c u) (get_event c v) \<longrightarrow> (before t u v \<longleftrightarrow> before s u v)) \<and>
    (if ok then seq_index_of t e2 < seq_index_of t e1 else t = s)"
proof -
  obtain t ok where t: "seq_view_adjust c s e1 e2 = Inr (t, ok)" "adjusted c s t"
    "ok \<Longrightarrow> before t e2 e1" "\<not> ok \<Longrightarrow> t = s"
    using seq_view_adjust_sound [OF assms] by metis
  have "distinct t" using adjusted_distinct [OF t(2) assms(1)] .
  hence "ok \<Longrightarrow> seq_index_of t e2 < seq_index_of t e1"
    using t(3) before_in_set [of t e2 e1] seq_index_of_before [of t e2 e1] by blast
  thus ?thesis
    using t(1,4) adjusted_same_thread [OF t(2)] t(2) by (auto simp: adjusted_def)
qed

theorem view_adjust_preserves_witness:
  "\<exists>t ok. seq_view_adjust \<lparr>vc_threads = [], vc_spawn = [], vc_join = []\<rparr>
     [IID 1 0, IID 1 1, IID 2 0] (IID 1 0) (IID 2 0) = Inr (t, ok) \<and> mset t = {#IID 1 0, IID 1 1, IID 2 0#}"
proof -
  have "distinct [IID 1 0, IID 1 1, IID 2 0 :: int iid]" by simp
  moreover have "before [IID 1 0, IID 1 1, IID 2 0 :: int iid] (IID 1 0) (IID 2 0)" by (simp add: before_Cons)
  ultimately show ?thesis
    using view_adjust_preserves [of "[IID 1 0, IID 1 1, IID 2 0]" "IID 1 0" "IID 2 0"] by fastforce
qed

text \<open>C23: for two sequences that have the events of every thread in one order, the second without writes of
  read-modify-writes: a non-empty result of \<open>consistent_merge\<close> holds the events of both, each once, keeps the
  program order of either and the order of every read and write of one object within either, and its
  causal order (program order and reads-from) is exactly the union of the causal orders of the two
  sequences as the adjustment leaves them (\<open>p'\<close>, \<open>q'\<close>). These can differ from those of \<open>p\<close> and \<open>q\<close>, as
  adjusting may exchange two writes of one object.\<close>

theorem consistent_merge_sound:
  assumes "distinct p" "distinct q" "threads_agree p q" "no_rmw_write c q"
    and "seq_consistent_merge c n p q = Inr (r, p', q')" "r \<noteq> []"
  shows "set r = set p \<union> set q \<and> distinct r \<and>
    (\<forall>u v. (iid_pid u = iid_pid v \<or> ev_RWpair (get_event c u) (get_event c v)) \<and>
        (before p u v \<or> before q u v) \<longrightarrow> before r u v) \<and>
    (p \<noteq> [] \<and> q \<noteq> [] \<longrightarrow> set (seq_get_causal_order c r)
       = set (seq_get_causal_order c p') \<union> set (seq_get_causal_order c q'))"
proof -
  have a: "adjusted c p p'" "adjusted c q q'" and m: "merges p' q' r"
    and co: "p \<noteq> [] \<and> q \<noteq> [] \<longrightarrow> set (seq_get_causal_order c r)
       = set (seq_get_causal_order c p') \<union> set (seq_get_causal_order c q')"
    using seq_consistent_merge_cases [OF assms(1-4), of n] assms(5,6) by auto
  have "before p' u v \<longleftrightarrow> before p u v" "before q' u v \<longleftrightarrow> before q u v"
    if "iid_pid u = iid_pid v \<or> ev_RWpair (get_event c u) (get_event c v)" for u v
    using that adjusted_same_thread [OF a(1)] adjusted_same_thread [OF a(2)] a
    by (auto simp: adjusted_def)
  thus ?thesis
    using m co adjusted_set [OF a(1)] adjusted_set [OF a(2)] by (auto simp: merges_def)
qed

theorem consistent_merge_sound_witness:
  "(let c = \<lparr>vc_threads = [], vc_spawn = [], vc_join = []\<rparr> in
    set (seq_get_causal_order c [IID 2 0, IID 1 0, IID 1 1]) =
    set (seq_get_causal_order c [IID 1 0, IID 1 1]) \<union> set (seq_get_causal_order c [IID 2 0, IID 1 1]))"
proof -
  let ?c = "\<lparr>vc_threads = [], vc_spawn = [], vc_join = []\<rparr>"
  let ?p = "[IID 1 0, IID 1 1] :: seq" and ?q = "[IID 2 0, IID 1 1] :: seq"
  have ev: "get_event ?c i = ev_default" for i by (auto simp: get_event_def)
  have d: "\<not> ev_is_write ev_default" "\<not> ev_is_read ev_default"
    by (simp_all add: ev_is_write_def ev_is_read_def ev_default_def)
  have ta: "threads_agree ?p ?q" by (auto simp: threads_agree_def before_Cons)
  have nrw: "no_rmw_write ?c ?q" by (simp add: no_rmw_write_def ev d)
  have run: "seq_consistent_merge ?c 1 ?p ?q = Inr ([IID 2 0, IID 1 0, IID 1 1], ?p, ?q)"
    by (simp add: seq_consistent_merge_def seq_has_def seq_index_of_def seq_join_def seq_join_prefix_def
        prev_of_def ev d ordered_before_def ordered_by_join_def ordered_by_spawn_def inner_map_def
        seq_co_sanity_def seq_get_causal_order_def co_step_def)
  show ?thesis
    using consistent_merge_sound [OF _ _ ta nrw run] by (simp only: Let_def) simp
qed



text \<open>\<open>conflicts_with\<close> finds a pair exactly when two common events stand in opposite orders, and the
  pair it returns is such a pair.\<close>

theorem conflicts_with_correct:
  assumes "distinct s" "distinct t"
  shows "(seq_conflicts_with s t = None \<longleftrightarrow> conflict_free s t) \<and>
    (\<forall>u v. seq_conflicts_with s t = Some (u, v) \<longrightarrow> before s u v \<and> before t v u)"
proof -
  have le: "seq_index_of t u \<le> seq_index_of t v \<longleftrightarrow> \<not> before t v u" if "u \<in> set t" "v \<in> set t" for u v
    using seq_index_of_before [OF assms(2) that(2,1)] by auto
  have "seq_conflicts_with s t = None \<longleftrightarrow> conflict_free s t"
    unfolding seq_conflicts_with_None conflict_free_def using le before_in_set [of t] by blast
  moreover have "before s u v \<and> before t v u" if "seq_conflicts_with s t = Some (u, v)" for u v
    using seq_conflicts_with_Some [OF that] seq_index_of_before [OF assms(2)] by blast
  ultimately show ?thesis by blast
qed

theorem conflicts_with_correct_witness:
  "\<not> conflict_free [IID 1 0, IID 2 0] [IID 2 0, IID 1 (0 :: nat)]"
  using conflicts_with_correct [of "[IID 1 0, IID 2 0]" "[IID 2 0, IID 1 0]"]
  by (simp add: seq_has_def seq_index_of_def)

end
