(* ===== verification/ViewEventSeq.thy ===== *)
theory ViewEventSeq
  imports Prelude ViewSequence
begin

text \<open>
  Sequences of events with their values (\<open>ViewEqTraceBuilder::EventSequence\<close>), the evaluation of a
  sequence of identifiers to one (\<open>Sequence::to_event_sequence\<close>), and the comparisons up to
  view adjustment. Memory maps are association lists from objects to values.
\<close>

type_synonym eseq = "event list"
type_synonym mem = "(obj \<times> int) list"

section \<open>Vector operations\<close>

definition es_find_iid :: "eseq \<Rightarrow> int iid \<Rightarrow> nat" where
  "es_find_iid s i = length (takeWhile (\<lambda>e. ev_iid e \<noteq> i) s)"

definition es_has_iid :: "eseq \<Rightarrow> int iid \<Rightarrow> bool" where
  "es_has_iid s i = (es_find_iid s i \<noteq> length s)"

definition es_index_of :: "eseq \<Rightarrow> event \<Rightarrow> nat" where
  "es_index_of s e = length (takeWhile (\<lambda>x. \<not> ev_eq x e) s)"

definition es_has :: "eseq \<Rightarrow> event \<Rightarrow> bool" where
  "es_has s e = (es_index_of s e \<noteq> length s)"

text \<open>\<open>*find_iid(i)\<close>\<close>

definition es_deref :: "eseq \<Rightarrow> int iid \<Rightarrow> event result" where
  "es_deref s i = (if es_find_iid s i < length s then Inr (s ! es_find_iid s i) else Inl Bad_deref)"

definition es_last :: "eseq \<Rightarrow> event" where
  "es_last s = (if s = [] then ev_default else last s)"

definition es_head :: "eseq \<Rightarrow> event result" where
  "es_head s = (case s of [] \<Rightarrow> Inl Out_of_range | e # es \<Rightarrow> Inr e)"

definition es_tail :: "eseq \<Rightarrow> eseq result" where
  "es_tail s = erase_at 0 s"

definition es_pop_front :: "eseq \<Rightarrow> eseq result" where
  "es_pop_front s = erase_at 0 s"

definition es_erase_event :: "eseq \<Rightarrow> event \<Rightarrow> eseq result" where
  "es_erase_event s e = erase_at (es_index_of s e) s"

definition es_erase_iid :: "eseq \<Rightarrow> int iid \<Rightarrow> eseq result" where
  "es_erase_iid s i = erase_at (es_find_iid s i) s"

definition es_concatenate :: "eseq \<Rightarrow> eseq \<Rightarrow> eseq" where
  "es_concatenate s t = s @ t"

definition es_to_iid_sequence :: "eseq \<Rightarrow> seq" where
  "es_to_iid_sequence s = map ev_iid s"

definition rv_step :: "(int iid \<times> int) list \<Rightarrow> event \<Rightarrow> (int iid \<times> int) list" where
  "rv_step m e = (if \<not> ev_is_read e then m else AList.update (ev_iid e) (ev_value e) m)"

definition es_read_value_map :: "eseq \<Rightarrow> (int iid \<times> int) list" where
  "es_read_value_map s = foldl rv_step [] s"

definition es_show_event :: "event \<Rightarrow> string" where
  "es_show_event e =
     ''('' @ dec_int (ev_pid e) @ '':'' @ dec_nat (ev_index e) @ '')'' @
     (if ev_is_write e then ''='' @ dec_int (ev_value e) else ''['' @ dec_int (ev_value e) @ '']'')"

definition es_to_string :: "eseq \<Rightarrow> string" where
  "es_to_string s =
     (case s of [] \<Rightarrow> ''<>''
      | x # xs \<Rightarrow> ''<'' @ es_show_event x @ concat (map (\<lambda>y. '', '' @ es_show_event y) xs) @ ''>'')"

section \<open>Evaluation\<close>

definition tes_read_value :: "mem \<Rightarrow> mem \<Rightarrow> obj \<Rightarrow> int" where
  "tes_read_value mem mem_map ob =
     (case map_of mem_map ob of Some v \<Rightarrow> v
      | None \<Rightarrow> (case map_of mem ob of Some v \<Rightarrow> v | None \<Rightarrow> 0))"

text \<open>One turn of the loop of \<open>to_event_sequence\<close> for the event \<open>e\<close>: the sequence built so far and
  \<open>mem_map\<close>.\<close>

definition tes_step :: "mem \<Rightarrow> eseq \<times> mem \<Rightarrow> event \<Rightarrow> eseq \<times> mem" where
  "tes_step mem st e =
     (let (out, mem_map) = st in
      if ev_is_write e
      then (let e' = (if ev_is_rmw e
                      then e\<lparr>ev_value := compute_modified_value (ev_rmw_op e) (ev_value (es_last out))
                                          (ev_rmw_value e) (ev_expected e)\<rparr>
                      else e)
            in (out @ [e'], AList.update (ev_object e') (ev_value e') mem_map))
      else if ev_is_read e
      then (out @ [e\<lparr>ev_value := tes_read_value mem mem_map (ev_object e)\<rparr>], mem_map)
      else (out @ [e], mem_map))"

definition to_event_sequence :: "vctx \<Rightarrow> mem \<Rightarrow> seq \<Rightarrow> eseq" where
  "to_event_sequence c mem s = fst (foldl (tes_step mem) ([], []) (map (get_event c) s))"

text \<open>
  The overload with a source. The \<open>else\<close> belongs to the outer test, so an event that its thread does
  not have yet stays \<open>Event()\<close>, and the source is asked only for threads that do not exist.
\<close>

definition tes_source_event :: "vctx \<Rightarrow> eseq \<Rightarrow> int iid \<Rightarrow> event result" where
  "tes_source_event c source i =
     (if 0 \<le> iid_pid i \<and> int (length (vc_threads c)) > iid_pid i
      then (if length (vc_threads c ! nat (iid_pid i)) > iid_idx i then Inr (get_event c i)
            else Inr ev_default)
      else es_deref source i)"

fun tes_source_loop :: "vctx \<Rightarrow> eseq \<Rightarrow> mem \<Rightarrow> eseq \<times> mem \<Rightarrow> seq \<Rightarrow> eseq result" where
  "tes_source_loop c source mem st [] = Inr (fst st)"
| "tes_source_loop c source mem st (i # is) =
     bind_r (tes_source_event c source i) (\<lambda>e. tes_source_loop c source mem (tes_step mem st e) is)"

definition to_event_sequence_source :: "vctx \<Rightarrow> eseq \<Rightarrow> mem \<Rightarrow> seq \<Rightarrow> eseq result" where
  "to_event_sequence_source c source mem s = tes_source_loop c source mem ([], []) s"

text \<open>\<open>add_rmw_write\<close>: insert the write behind its read and evaluate again; \<open>(it-1)\<close> is the element before.\<close>

fun arw_refresh :: "event option \<Rightarrow> mem \<Rightarrow> eseq \<Rightarrow> eseq result" where
  "arw_refresh prev mem_map [] = Inr []"
| "arw_refresh prev mem_map (e # es) =
     (if ev_is_write e
      then bind_r (if ev_is_rmw e
                   then (case prev of
                           None \<Rightarrow> Inl Out_of_range
                         | Some r \<Rightarrow> Inr (e\<lparr>ev_value := compute_modified_value (ev_rmw_op e) (ev_value r)
                                                     (ev_rmw_value e) (ev_expected e)\<rparr>))
                   else Inr e) (\<lambda>e'.
             bind_r (arw_refresh (Some e') (AList.update (ev_object e') (ev_value e') mem_map) es) (\<lambda>es'.
               Inr (e' # es')))
      else (let e' = (if ev_is_read e
                      then (case map_of mem_map (ev_object e) of Some v \<Rightarrow> e\<lparr>ev_value := v\<rparr> | None \<Rightarrow> e)
                      else e)
            in bind_r (arw_refresh (Some e') mem_map es) (\<lambda>es'. Inr (e' # es'))))"

definition es_add_rmw_write :: "vctx \<Rightarrow> eseq \<Rightarrow> int iid \<Rightarrow> int iid \<Rightarrow> eseq result" where
  "es_add_rmw_write c s r w =
     assert_r (es_has_iid s r)
       (arw_refresh None [] (insert_at (es_find_iid s r + 1) (get_event c w) s))"

section \<open>Comparison\<close>

text \<open>
  \<open>conflicts_with\<close>: an OpenMP loop fills the buffer of positions in the other sequence, one
  iteration per event in the order \<open>order\<close> in which the threads happen to run them; then a
  sequential loop looks for a reversed pair.
\<close>

definition es_fill_buffer :: "nat list \<Rightarrow> eseq \<Rightarrow> eseq \<Rightarrow> nat list" where
  "es_fill_buffer order s t =
     foldl (\<lambda>buf i. buf[i := es_find_iid t (ev_iid (s ! i))]) (replicate (length s) 0) order"

fun es_consume_inner :: "eseq \<Rightarrow> nat \<Rightarrow> nat list \<Rightarrow> (event \<times> event) option" where
  "es_consume_inner t it1 [] = None"
| "es_consume_inner t it1 (it2 # its) =
     (if it2 \<noteq> length t \<and> int it1 - int it2 > 0 then Some (t ! it1, t ! it2)
      else es_consume_inner t it1 its)"

fun es_consume :: "eseq \<Rightarrow> nat list \<Rightarrow> (event \<times> event) option" where
  "es_consume t [] = None"
| "es_consume t (it1 # its) =
     (if it1 \<noteq> length t
      then (case es_consume_inner t it1 its of Some p \<Rightarrow> Some p | None \<Rightarrow> es_consume t its)
      else es_consume t its)"

definition es_conflicts_sched :: "nat list \<Rightarrow> eseq \<Rightarrow> eseq \<Rightarrow> (event \<times> event) option" where
  "es_conflicts_sched order s t = es_consume t (es_fill_buffer order s t)"

definition es_conflicts_with :: "eseq \<Rightarrow> eseq \<Rightarrow> (event \<times> event) option" where
  "es_conflicts_with s t = es_conflicts_sched [0..<length s] s t"

definition es_view_adjust :: "eseq \<Rightarrow> event \<Rightarrow> event \<Rightarrow> (eseq \<times> bool) result" where
  "es_view_adjust s e1 e2 =
     (let n1 = es_find_iid s (ev_iid e1); n2 = es_find_iid s (ev_iid e2) in
      bind_r (va_outer (\<lambda>e. e) ev_pid (ev_pid e1) n1 n2 s 0 (n2 - n1)) (\<lambda>r.
        case r of None \<Rightarrow> Inr (s, False) | Some s' \<Rightarrow> Inr (s', True)))"

fun es_VA_equal_loop :: "nat \<Rightarrow> eseq \<Rightarrow> eseq \<Rightarrow> bool result" where
  "es_VA_equal_loop 0 this s = Inl Out_of_fuel"
| "es_VA_equal_loop (Suc n) this s =
     (case es_conflicts_with this s of
        None \<Rightarrow> Inr (es_to_iid_sequence this = es_to_iid_sequence s)
      | Some (a, b) \<Rightarrow>
          bind_r (es_view_adjust s b a) (\<lambda>(s', ok).
            if ok then es_VA_equal_loop n this s' else Inr False))"

definition es_VA_equal :: "nat \<Rightarrow> eseq \<Rightarrow> eseq \<Rightarrow> bool result" where
  "es_VA_equal fuel this s = es_VA_equal_loop fuel this s"

text \<open>\<open>operator==\<close> stops at the end of the shorter sequence.\<close>

fun es_eq :: "eseq \<Rightarrow> eseq \<Rightarrow> bool" where
  "es_eq (a # as) (b # bs) = (if ev_iid a \<noteq> ev_iid b then False else es_eq as bs)"
| "es_eq [] bs = True"
| "es_eq as [] = True"

definition es_neq :: "eseq \<Rightarrow> eseq \<Rightarrow> bool" where
  "es_neq a b = (\<not> es_eq a b)"

section \<open>What evaluation computes\<close>

text \<open>The value of the last write to \<open>ob\<close> in a sequence, with a default.\<close>

definition last_value :: "obj \<Rightarrow> eseq \<Rightarrow> int \<Rightarrow> int" where
  "last_value ob es d = foldl (\<lambda>acc e. if ev_is_write e \<and> ev_object e = ob then ev_value e else acc) d es"

definition mem_value :: "mem \<Rightarrow> obj \<Rightarrow> int" where
  "mem_value m ob = (case map_of m ob of Some v \<Rightarrow> v | None \<Rightarrow> 0)"

lemma last_value_snoc [simp]:
  "last_value ob (es @ [e]) d = (if ev_is_write e \<and> ev_object e = ob then ev_value e else last_value ob es d)"
  by (simp add: last_value_def)

lemma ev_value_update_simps [simp]:
  "ev_is_write (e\<lparr>ev_value := v\<rparr>) = ev_is_write e" "ev_is_read (e\<lparr>ev_value := v\<rparr>) = ev_is_read e"
  by (simp_all add: ev_is_write_def ev_is_read_def ev_is_global_def ev_sym_event_def)

text \<open>The event that stands at the end after \<open>out\<close>.\<close>

definition tes_event :: "mem \<Rightarrow> eseq \<Rightarrow> event \<Rightarrow> event" where
  "tes_event mem out e =
     e\<lparr>ev_value :=
         if ev_is_write e
         then (if ev_is_rmw e
               then compute_modified_value (ev_rmw_op e) (ev_value (es_last out)) (ev_rmw_value e) (ev_expected e)
               else ev_value e)
         else if ev_is_read e then last_value (ev_object e) out (mem_value mem (ev_object e))
         else ev_value e\<rparr>"

definition tes_inv :: "mem \<Rightarrow> eseq \<times> mem \<Rightarrow> bool" where
  "tes_inv mem st = (\<forall>ob. tes_read_value mem (snd st) ob = last_value ob (fst st) (mem_value mem ob))"

lemma tes_read_value_update:
  "tes_read_value mem (AList.update ob v mm) ob' = (if ob' = ob then v else tes_read_value mem mm ob')"
  by (simp add: tes_read_value_def update_conv')

lemma tes_event_simps [simp]:
  "ev_is_write (tes_event mem out e) = ev_is_write e" "ev_is_read (tes_event mem out e) = ev_is_read e"
  "ev_object (tes_event mem out e) = ev_object e" "ev_iid (tes_event mem out e) = ev_iid e"
  by (simp_all add: tes_event_def)

lemma tes_step_eq:
  assumes "tes_inv mem st"
  shows "fst (tes_step mem st e) = fst st @ [tes_event mem (fst st) e]" "tes_inv mem (tes_step mem st e)"
proof -
  obtain out mm where st: "st = (out, mm)" by fastforce
  let ?e = "tes_event mem out e"
  have step: "tes_step mem (out, mm) e =
      (out @ [?e], if ev_is_write e then AList.update (ev_object e) (ev_value ?e) mm else mm)"
  proof -
    have "tes_read_value mem mm (ev_object e) = last_value (ev_object e) out (mem_value mem (ev_object e))"
      using assms st by (simp only: tes_inv_def fst_conv snd_conv)
    thus ?thesis by (simp add: tes_step_def tes_event_def Let_def)
  qed
  show "fst (tes_step mem st e) = fst st @ [tes_event mem (fst st) e]"
    using step st by simp
  show "tes_inv mem (tes_step mem st e)"
    using step st assms by (simp add: tes_inv_def tes_read_value_update)
qed

lemma tes_loop_inv: "tes_inv mem (foldl (tes_step mem) ([], []) es)"
proof (induction es rule: rev_induct)
  case Nil
  show ?case by (simp add: tes_inv_def tes_read_value_def mem_value_def last_value_def)
next
  case (snoc e es)
  thus ?case using tes_step_eq(2) by simp
qed

lemma tes_snoc:
  "fst (foldl (tes_step mem) ([], []) (es @ [e])) =
   (let out = fst (foldl (tes_step mem) ([], []) es) in out @ [tes_event mem out e])"
  using tes_step_eq(1) [OF tes_loop_inv] by (simp add: Let_def)

lemma to_event_sequence_Nil [simp]: "to_event_sequence c mem [] = []"
  by (simp add: to_event_sequence_def)

lemma to_event_sequence_snoc:
  "to_event_sequence c mem (s @ [i]) =
   to_event_sequence c mem s @ [tes_event mem (to_event_sequence c mem s) (get_event c i)]"
  using tes_snoc [of mem "map (get_event c) s" "get_event c i"] by (simp add: to_event_sequence_def Let_def)

lemma length_to_event_sequence [simp]: "length (to_event_sequence c mem s) = length s"
  by (induction s rule: rev_induct) (simp_all add: to_event_sequence_snoc)

lemma to_event_sequence_take:
  "take k (to_event_sequence c mem s) = to_event_sequence c mem (take k s)"
proof (induction s rule: rev_induct)
  case (snoc i s)
  show ?case
  proof (cases "k \<le> length s")
    case True
    thus ?thesis using snoc by (simp add: to_event_sequence_snoc)
  next
    case False
    thus ?thesis by (simp add: to_event_sequence_snoc)
  qed
qed simp

lemma to_event_sequence_nth:
  assumes "k < length s"
  shows "to_event_sequence c mem s ! k = tes_event mem (to_event_sequence c mem (take k s)) (get_event c (s ! k))"
proof -
  have "to_event_sequence c mem s ! k = take (Suc k) (to_event_sequence c mem s) ! k"
    by simp
  also have "\<dots> = to_event_sequence c mem (take k s @ [s ! k]) ! k"
    using assms by (simp only: to_event_sequence_take take_Suc_conv_app_nth)
  also have "\<dots> = tes_event mem (to_event_sequence c mem (take k s)) (get_event c (s ! k))"
    using assms by (simp add: to_event_sequence_snoc nth_append)
  finally show ?thesis .
qed

section \<open>Adjusting keeps the values\<close>

text \<open>The writes to \<open>ob\<close> before \<open>i\<close>, in order.\<close>

definition writes_before :: "vctx \<Rightarrow> obj \<Rightarrow> seq \<Rightarrow> int iid \<Rightarrow> seq" where
  "writes_before c ob s i =
     filter (\<lambda>w. ev_is_write (get_event c w) \<and> ev_object (get_event c w) = ob \<and> before s w i) s"

definition plain_write_value :: "vctx \<Rightarrow> seq \<Rightarrow> int \<Rightarrow> int" where
  "plain_write_value c ws d = (if ws = [] then d else ev_value (get_event c (last ws)))"

lemma last_value_plain:
  assumes "no_rmw_write c s"
  shows "last_value ob (to_event_sequence c mem s) d =
    plain_write_value c (filter (\<lambda>w. ev_is_write (get_event c w) \<and> ev_object (get_event c w) = ob) s) d"
  using assms
proof (induction s rule: rev_induct)
  case Nil
  show ?case by (simp add: last_value_def plain_write_value_def)
next
  case (snoc i s)
  hence "no_rmw_write c s" "ev_is_write (get_event c i) \<longrightarrow> \<not> ev_is_rmw (get_event c i)"
    by (auto simp: no_rmw_write_def)
  thus ?case using snoc.IH
    by (auto simp: to_event_sequence_snoc plain_write_value_def tes_event_def)
qed

lemma before_take:
  assumes "distinct s" "k < length s"
  shows "filter P (take k s) = filter (\<lambda>w. P w \<and> before s w (s ! k)) s"
proof -
  have s: "s = take k s @ s ! k # drop (Suc k) s" using assms(2) by (simp add: id_take_nth_drop)
  let ?A = "take k s" and ?x = "s ! k" and ?B = "drop (Suc k) s"
  have d: "distinct (?A @ ?x # ?B)" using assms(1) s by simp
  have iff: "before s w ?x \<longleftrightarrow> w \<in> set ?A" for w
  proof -
    have "before (?A @ ?x # ?B) w ?x \<longleftrightarrow> w \<in> set ?A"
      using d before_in_set [of ?A w ?x] before_in_set [of ?B w ?x]
      by (auto simp: before_append before_Cons)
    thus ?thesis using s by simp
  qed
  have "filter (\<lambda>w. P w \<and> w \<in> set ?A) s = filter (\<lambda>w. P w \<and> w \<in> set ?A) (?A @ ?x # ?B)"
    using s by simp
  also have "\<dots> = filter P ?A @ filter (\<lambda>w. P w \<and> w \<in> set ?A) (?x # ?B)"
    by (simp add: filter_append cong: filter_cong)
  also have "filter (\<lambda>w. P w \<and> w \<in> set ?A) (?x # ?B) = []"
    using d by (auto simp: filter_empty_conv)
  finally show ?thesis by (simp add: iff)
qed

lemma tes_value_plain:
  assumes "distinct s" "no_rmw_write c s" "k < length s"
  shows "to_event_sequence c mem s ! k =
    (let i = s ! k; e = get_event c i in
     if ev_is_read e
     then e\<lparr>ev_value := plain_write_value c (writes_before c (ev_object e) s i) (mem_value mem (ev_object e))\<rparr>
     else e)"
proof -
  let ?e = "get_event c (s ! k)"
  have nrw: "no_rmw_write c (take k s)"
    using assms(2) by (rule no_rmw_write_subset) (rule set_take_subset)
  have "ev_is_write ?e \<longrightarrow> \<not> ev_is_rmw ?e" using assms(2,3) by (simp add: no_rmw_write_def)
  moreover have "last_value (ev_object ?e) (to_event_sequence c mem (take k s)) d =
      plain_write_value c (writes_before c (ev_object ?e) s (s ! k)) d" for d
    by (simp only: last_value_plain [OF nrw] before_take [OF assms(1,3)] writes_before_def conj_assoc)
  ultimately show ?thesis
    using ev_read_not_write [of ?e]
    by (auto simp: to_event_sequence_nth [OF assms(3)] tes_event_def Let_def)
qed

definition writes_by_one_thread :: "vctx \<Rightarrow> seq \<Rightarrow> bool" where
  "writes_by_one_thread c s =
     (\<forall>u\<in>set s. \<forall>v\<in>set s. ev_is_write (get_event c u) \<and> ev_is_write (get_event c v) \<and>
        ev_object (get_event c u) = ev_object (get_event c v) \<longrightarrow> iid_pid u = iid_pid v)"

lemma writes_before_adjusted:
  assumes "adjusted c s t" "writes_by_one_thread c s" "ev_is_read (get_event c i)" "ob = ev_object (get_event c i)"
  shows "writes_before c ob t i = writes_before c ob s i"
proof -
  let ?W = "\<lambda>w. ev_is_write (get_event c w) \<and> ev_object (get_event c w) = ob"
  have same: "filter ?W t = filter ?W s"
  proof (cases "\<exists>w\<in>set s. ?W w")
    case True
    then obtain w0 where w0: "w0 \<in> set s" "?W w0" by blast
    have one: "iid_pid w = iid_pid w0" if "w \<in> set s" "?W w" for w
      using assms(2) w0 that unfolding writes_by_one_thread_def by metis
    have f: "filter ?W u = filter ?W (filter (\<lambda>w. iid_pid w = iid_pid w0) u)" if "set u = set s" for u
      using one that by (auto intro!: filter_cong)
    have "filter ?W t = filter ?W (filter (\<lambda>w. iid_pid w = iid_pid w0) t)"
      by (rule f) (rule adjusted_set [OF assms(1)])
    also have "\<dots> = filter ?W (filter (\<lambda>w. iid_pid w = iid_pid w0) s)"
      using assms(1) by (simp add: adjusted_def)
    also have "\<dots> = filter ?W s" by (rule f [symmetric]) simp
    finally show ?thesis .
  next
    case False
    hence "filter ?W s = []" "filter ?W t = []"
      using adjusted_set [OF assms(1)] by (auto simp: filter_empty_conv)
    thus ?thesis by simp
  qed
  have bef: "before t w i \<longleftrightarrow> before s w i" if "?W w" for w
    using assms(1,3,4) that by (simp add: adjusted_def ev_RWpair_iff)
  have "writes_before c ob u i = filter (\<lambda>w. before u w i) (filter ?W u)" for u
    by (simp add: writes_before_def conj_commute conj_left_commute)
  moreover have "filter (\<lambda>w. before t w i) (filter ?W t) = filter (\<lambda>w. before s w i) (filter ?W s)"
    unfolding same by (rule filter_cong) (use bef in auto)
  ultimately show ?thesis by simp
qed

section \<open>The comparison of event sequences\<close>

lemma es_find_iid_eq: "es_find_iid t i = seq_index_of (map ev_iid t) i"
  by (induction t) (simp_all add: es_find_iid_def seq_index_of_def)

lemma es_fill_buffer_nth:
  assumes "set order \<subseteq> {..<length s}" "length buf = length s"
  shows "length (foldl (\<lambda>buf i. buf[i := es_find_iid t (ev_iid (s ! i))]) buf order) = length s \<and>
    (\<forall>k<length s. foldl (\<lambda>buf i. buf[i := es_find_iid t (ev_iid (s ! i))]) buf order ! k =
      (if k \<in> set order then es_find_iid t (ev_iid (s ! k)) else buf ! k))"
  using assms
proof (induction order arbitrary: buf)
  case (Cons j order)
  thus ?case using Cons.IH [of "buf[j := es_find_iid t (ev_iid (s ! j))]"] by auto
qed simp

lemma es_fill_buffer_eq:
  assumes "set order = {..<length s}"
  shows "es_fill_buffer order s t = map (\<lambda>e. es_find_iid t (ev_iid e)) s"
  using es_fill_buffer_nth [of order s "replicate (length s) 0" t] assms
  by (auto simp: es_fill_buffer_def intro!: nth_equalityI)

lemma es_consume_inner_eq:
  assumes "x \<in> set (map ev_iid t)"
  shows "es_consume_inner t (seq_index_of (map ev_iid t) x) (map (seq_index_of (map ev_iid t)) ys) =
    map_option (\<lambda>(u, v). (t ! seq_index_of (map ev_iid t) u, t ! seq_index_of (map ev_iid t) v))
      (seq_conflicts_inner (map ev_iid t) x ys)"
proof -
  have "seq_has (map ev_iid t) x" using assms by (simp only: seq_has_iff)
  thus ?thesis by (induction ys) (auto simp: seq_has_def)
qed

lemma es_consume_eq:
  "es_consume t (map (seq_index_of (map ev_iid t)) xs) =
    map_option (\<lambda>(u, v). (t ! seq_index_of (map ev_iid t) u, t ! seq_index_of (map ev_iid t) v))
      (seq_conflicts_with xs (map ev_iid t))"
proof (induction xs)
  case (Cons x xs)
  show ?case
  proof (cases "x \<in> set (map ev_iid t)")
    case True
    hence "seq_index_of (map ev_iid t) x \<noteq> length t"
      using seq_has_iff [of "map ev_iid t" x] by (simp add: seq_has_def)
    thus ?thesis using Cons.IH es_consume_inner_eq [OF True, of xs]
      by (cases "seq_conflicts_inner (map ev_iid t) x xs") auto
  next
    case False
    hence "seq_index_of (map ev_iid t) x = length t" "\<not> seq_has (map ev_iid t) x"
      using seq_has_iff [of "map ev_iid t" x] by (simp_all add: seq_has_def)
    moreover have "seq_conflicts_inner (map ev_iid t) x ys = None" if "\<not> seq_has (map ev_iid t) x" for ys
      using that by (induction ys) auto
    ultimately show ?thesis using Cons.IH by simp
  qed
qed simp

lemma es_conflicts_sched_eq:
  assumes "set order = {..<length s}"
  shows "es_conflicts_sched order s t =
    map_option (\<lambda>(u, v). (t ! es_find_iid t u, t ! es_find_iid t v))
      (seq_conflicts_with (es_to_iid_sequence s) (es_to_iid_sequence t))"
  using es_consume_eq [of t "map ev_iid s"]
  by (simp add: es_conflicts_sched_def es_fill_buffer_eq [OF assms] es_find_iid_eq es_to_iid_sequence_def comp_def)

lemma before_mapD: "before (map f s) x y \<Longrightarrow> \<exists>u v. before s u v \<and> x = f u \<and> y = f v"
  by (induction s) (auto simp: before_Cons)

lemma before_mapI: "before s u v \<Longrightarrow> before (map f s) (f u) (f v)"
  by (induction s) (auto simp: before_Cons)

lemma before_map_inj:
  assumes "distinct (map f s)" "u \<in> set s" "v \<in> set s"
  shows "before (map f s) (f u) (f v) \<longleftrightarrow> before s u v"
proof
  assume "before (map f s) (f u) (f v)"
  then obtain u' v' where b: "before s u' v'" "f u = f u'" "f v = f v'" by (blast dest: before_mapD)
  moreover have "inj_on f (set s)" using assms(1) by (simp add: distinct_map)
  ultimately show "before s u v"
    using before_in_set [OF b(1)] assms(2,3) by (metis inj_onD)
qed (rule before_mapI)

lemma es_view_adjust_sound:
  assumes "distinct (map ev_iid s)" "before s e1 e2" "ev_pid e1 \<noteq> ev_pid e2"
  obtains t ok where "es_view_adjust s e1 e2 = Inr (t, ok)" "adjusted_by (\<lambda>e. e) ev_pid s t" "\<not> ok \<Longrightarrow> t = s"
proof -
  obtain A M' C where s: "s = A @ (e1 # M') @ e2 # C" using assms(2) by (rule before_splitE)
  let ?M = "e1 # M'"
  have n1: "es_find_iid s (ev_iid e1) = length A"
    using assms(1) seq_index_of_split [of "ev_iid e1" "map ev_iid A" "map ev_iid (M' @ e2 # C)"]
    by (simp add: s es_find_iid_eq)
  have "ev_iid e2 \<notin> set (map ev_iid (A @ ?M))" using assms(1) unfolding s by auto
  hence n2: "es_find_iid s (ev_iid e2) = length A + length ?M"
    using seq_index_of_split [of "ev_iid e2" "map ev_iid (A @ ?M)" "map ev_iid C"]
    by (simp add: s es_find_iid_eq)
  have run: "va_outer (\<lambda>e. e) ev_pid (ev_pid e1) (length A) (length A + length ?M) s 0 (length ?M) =
      Inr (if va_blocked (\<lambda>e. e) ev_pid (ev_pid e1) ?M [e2] then None
        else Some (A @ filter (\<lambda>x. ev_pid x \<noteq> ev_pid e1) ?M @ e2 # filter (\<lambda>x. ev_pid x = ev_pid e1) ?M @ C))"
    using va_outer_eq [of "length A + length ?M" A ?M "[e2]" "[]" "\<lambda>e. e" ev_pid "ev_pid e1" C] unfolding s by simp
  have adj: "es_view_adjust s e1 e2 =
      (if va_blocked (\<lambda>e. e) ev_pid (ev_pid e1) ?M [e2] then Inr (s, False)
       else Inr (A @ (filter (\<lambda>x. ev_pid x \<noteq> ev_pid e1) ?M @ e2 # filter (\<lambda>x. ev_pid x = ev_pid e1) ?M) @ C, True))"
    unfolding es_view_adjust_def Let_def n1 n2 using run by simp
  show thesis
  proof (cases "va_blocked (\<lambda>e. e) ev_pid (ev_pid e1) ?M [e2]")
    case True
    thus thesis using adj by (intro that [of s False]) simp_all
  next
    case False
    have res: "adjusted_by (\<lambda>e. e) ev_pid s
        (A @ (filter (\<lambda>x. ev_pid x \<noteq> ev_pid e1) ?M @ e2 # filter (\<lambda>x. ev_pid x = ev_pid e1) ?M) @ C)"
      unfolding s by (rule va_moved_adjusted) (use False assms(3) in auto)
    show thesis using adj False by (intro that [OF _ res, of True]) simp_all
  qed
qed

definition es_threads_agree :: "eseq \<Rightarrow> eseq \<Rightarrow> bool" where
  "es_threads_agree s t = threads_agree (map ev_iid s) (map ev_iid t)"

lemma es_adjusted_iids:
  assumes "adjusted_by (\<lambda>e. e) ev_pid s t" "distinct (map ev_iid s)"
  shows "distinct (map ev_iid t)" "set (map ev_iid t) = set (map ev_iid s)"
    "iid_pid u = iid_pid v \<Longrightarrow> before (map ev_iid t) u v \<longleftrightarrow> before (map ev_iid s) u v"
proof -
  have m: "mset t = mset s" using assms(1) by (simp add: adjusted_def)
  hence mi: "mset (map ev_iid t) = mset (map ev_iid s)" by simp
  show d: "distinct (map ev_iid t)" using mi assms(2) mset_eq_imp_distinct_iff by blast
  show set_eq: "set (map ev_iid t) = set (map ev_iid s)" using mi mset_eq_setD by blast
  have sets: "set t = set s" using m mset_eq_setD by blast
  assume pid: "iid_pid u = iid_pid v"
  show "before (map ev_iid t) u v \<longleftrightarrow> before (map ev_iid s) u v"
  proof (cases "u \<in> set (map ev_iid s) \<and> v \<in> set (map ev_iid s)")
    case True
    then obtain a b where ab: "a \<in> set s" "b \<in> set s" "u = ev_iid a" "v = ev_iid b" by auto
    have "before t a b \<longleftrightarrow> before s a b"
      using adjusted_same_thread [OF assms(1), of a b] pid ab by (simp add: ev_pid_def)
    thus ?thesis
      using before_map_inj [OF assms(2) ab(1,2)] before_map_inj [OF d, of a b] ab sets by simp
  next
    case False
    thus ?thesis using set_eq before_in_set [of "map ev_iid t" u v] before_in_set [of "map ev_iid s" u v] by blast
  qed
qed

lemma es_VA_equal_loop_sound:
  assumes "distinct (map ev_iid s)" "es_threads_agree this s"
  shows "case es_VA_equal_loop n this s of
     Inl e \<Rightarrow> e = Out_of_fuel
   | Inr b \<Rightarrow> b \<longrightarrow> (\<exists>t. adjusted_by (\<lambda>e. e) ev_pid s t \<and> es_to_iid_sequence t = es_to_iid_sequence this)"
  using assms
proof (induction n arbitrary: s)
  case (Suc n)
  have eq: "es_conflicts_with this s =
      map_option (\<lambda>(u, v). (s ! es_find_iid s u, s ! es_find_iid s v))
        (seq_conflicts_with (map ev_iid this) (map ev_iid s))"
    unfolding es_conflicts_with_def
    using es_conflicts_sched_eq [of "[0..<length this]" this s] by (auto simp: es_to_iid_sequence_def atLeast0LessThan)
  show ?case
  proof (cases "seq_conflicts_with (map ev_iid this) (map ev_iid s)")
    case None
    hence "es_VA_equal_loop (Suc n) this s = Inr (es_to_iid_sequence this = es_to_iid_sequence s)"
      using eq by simp
    thus ?thesis by (auto intro: exI [of _ s])
  next
    case (Some uv)
    obtain u v where uv: "uv = (u, v)" by fastforce
    let ?a = "s ! es_find_iid s u" and ?b = "s ! es_find_iid s v"
    have c: "before (map ev_iid this) u v" "u \<in> set (map ev_iid s)" "v \<in> set (map ev_iid s)"
      "seq_index_of (map ev_iid s) v < seq_index_of (map ev_iid s) u"
      using seq_conflicts_with_Some Some uv by blast+
    have idx: "es_find_iid s u < length s" "es_find_iid s v < length s"
      using c(2,3) seq_index_of_less_iff [of "map ev_iid s"] by (simp_all add: es_find_iid_eq)
    have iids: "ev_iid ?a = u" "ev_iid ?b = v"
      using seq_index_of_nth [OF c(2)] seq_index_of_nth [OF c(3)] idx by (simp_all add: es_find_iid_eq)
    have bvu: "before (map ev_iid s) v u"
      using c seq_index_of_before [OF Suc.prems(1) c(3,2)] by blast
    hence bef: "before s ?b ?a"
      using before_map_inj [OF Suc.prems(1), of ?b ?a] idx iids by simp
    have pid: "ev_pid ?b \<noteq> ev_pid ?a"
      using Suc.prems(2) c(1) bvu iids unfolding es_threads_agree_def threads_agree_def ev_pid_def by metis
    obtain t ok where t: "es_view_adjust s ?b ?a = Inr (t, ok)" "adjusted_by (\<lambda>e. e) ev_pid s t"
      using es_view_adjust_sound [OF Suc.prems(1) bef pid] by metis
    have step: "es_VA_equal_loop (Suc n) this s = (if ok then es_VA_equal_loop n this t else Inr False)"
      using eq Some uv t(1) by simp
    have "es_threads_agree this t"
      using Suc.prems(2) es_adjusted_iids(3) [OF t(2) Suc.prems(1)]
      unfolding es_threads_agree_def threads_agree_def by metis
    note IH = Suc.IH [OF es_adjusted_iids(1) [OF t(2) Suc.prems(1)] this]
    show ?thesis
      using step IH adjusted_trans [OF t(2)] by (auto split: sum.splits)
  qed
qed simp

lemma es_eq_iff:
  "es_eq a b \<longleftrightarrow> (let n = min (length a) (length b) in take n (map ev_iid a) = take n (map ev_iid b))"
  by (induction a b rule: es_eq.induct) (auto simp: Let_def)

definition event_exists :: "vctx \<Rightarrow> int iid \<Rightarrow> bool" where
  "event_exists c i =
     (0 \<le> iid_pid i \<and> iid_pid i < int (length (vc_threads c)) \<and>
      iid_idx i < length (vc_threads c ! nat (iid_pid i)))"

lemma tes_source_loop_exists:
  assumes "\<forall>i\<in>set s. event_exists c i"
  shows "tes_source_loop c source mem st s = Inr (fst (foldl (tes_step mem) st (map (get_event c) s)))"
  using assms by (induction s arbitrary: st) (simp_all add: tes_source_event_def event_exists_def)

section \<open>Properties\<close>

text \<open>C31: evaluating a sequence keeps every event and gives each read the value of the last write to its
  object before it, or the value in memory, or 0, and each write of a read-modify-write the
  value computed from its predecessor; with a source the result is the same whenever all events
  exist.\<close>

theorem to_event_sequence_correct:
  "length (to_event_sequence c mem s) = length s \<and>
   (\<forall>k<length s. to_event_sequence c mem s ! k =
      (let out = take k (to_event_sequence c mem s); e = get_event c (s ! k) in
       e\<lparr>ev_value :=
           if ev_is_write e
           then (if ev_is_rmw e
                 then compute_modified_value (ev_rmw_op e) (ev_value (es_last out)) (ev_rmw_value e) (ev_expected e)
                 else ev_value e)
           else if ev_is_read e then last_value (ev_object e) out (mem_value mem (ev_object e))
           else ev_value e\<rparr>)) \<and>
   ((\<forall>i\<in>set s. event_exists c i) \<longrightarrow>
      to_event_sequence_source c source mem s = Inr (to_event_sequence c mem s))"
proof (intro conjI allI impI)
  show "length (to_event_sequence c mem s) = length s" by simp
next
  fix k assume "k < length s"
  thus "to_event_sequence c mem s ! k =
      (let out = take k (to_event_sequence c mem s); e = get_event c (s ! k) in
       e\<lparr>ev_value :=
           if ev_is_write e
           then (if ev_is_rmw e
                 then compute_modified_value (ev_rmw_op e) (ev_value (es_last out)) (ev_rmw_value e) (ev_expected e)
                 else ev_value e)
           else if ev_is_read e then last_value (ev_object e) out (mem_value mem (ev_object e))
           else ev_value e\<rparr>)"
    by (simp only: to_event_sequence_nth to_event_sequence_take tes_event_def Let_def)
next
  assume "\<forall>i\<in>set s. event_exists c i"
  thus "to_event_sequence_source c source mem s = Inr (to_event_sequence c mem s)"
    by (simp only: to_event_sequence_source_def tes_source_loop_exists to_event_sequence_def)
qed

definition ex_addr :: sym_addr_size where
  "ex_addr = \<lparr>sas_addr = \<lparr>sa_block = \<lparr>mb_pid = 65535, mb_alloc = 0\<rparr>, sa_offset = 0\<rparr>, sas_size = 4\<rparr>"

definition ex_access :: "access_type \<Rightarrow> int \<Rightarrow> nat \<Rightarrow> int \<Rightarrow> event" where
  "ex_access t p k v =
     ev_default\<lparr>ev_type := t, ev_iid := IID p k, ev_sym := [sev_load ex_addr], ev_value := v\<rparr>"

definition ex_ctx :: vctx where
  "ex_ctx =
     \<lparr>vc_threads = [[ex_access T_WRITE 0 0 1], [ex_access T_WRITE 1 0 2], [ex_access T_READ 2 0 0]],
      vc_spawn = [], vc_join = []\<rparr>"

lemma ex_access_simps [simp]:
  "ev_is_write (ex_access t p k v) \<longleftrightarrow> t = T_WRITE" "ev_is_read (ex_access t p k v) \<longleftrightarrow> t = T_READ"
  "ev_object (ex_access t p k v) = (0, 0)" "ev_value (ex_access t p k v) = v"
  "ev_is_rmw (ex_access t p k v) = False" "ev_iid (ex_access t p k v) = IID p k"
  by (simp_all add: ev_is_write_def ev_is_read_def ev_is_global_def ev_sym_event_def ex_access_def sev_load_def
      sev_plain_def ex_addr_def mb_is_global_def ev_default_def)

lemma ex_ctx_events [simp]:
  "get_event ex_ctx (IID 0 0) = ex_access T_WRITE 0 0 1"
  "get_event ex_ctx (IID 1 0) = ex_access T_WRITE 1 0 2"
  "get_event ex_ctx (IID 2 0) = ex_access T_READ 2 0 0"
  by (simp_all add: get_event_def ex_ctx_def nth_or_def numeral_2_eq_2)

theorem to_event_sequence_correct_witness:
  "ev_value (to_event_sequence ex_ctx [] [IID 0 0, IID 2 0] ! 1) = 1"
  using to_event_sequence_correct [of ex_ctx "[]" "[IID 0 0, IID 2 0]"]
  by (auto simp: Let_def last_value_def take_Suc_conv_app_nth less_Suc_eq numeral_2_eq_2)

text \<open>when the writes to each object of the sequence belong to one thread and there are no
  read-modify-writes, a successful or failed \<open>view_adjust\<close> leaves the evaluated event of every
  identifier as it was: all reads keep their values.\<close>

theorem view_adjust_keeps_reads:
  assumes "distinct s" "before s e1 e2" "iid_pid e1 \<noteq> iid_pid e2"
    and "no_rmw_write c s" "writes_by_one_thread c s"
    and "seq_view_adjust c s e1 e2 = Inr (t, ok)"
    and "j < length s" "k < length t" "t ! k = s ! j"
  shows "to_event_sequence c mem t ! k = to_event_sequence c mem s ! j"
proof -
  have a: "adjusted c s t"
    using seq_view_adjust_sound [OF assms(1-3), of c] assms(6) by (metis Pair_inject sum.inject(2))
  have t: "distinct t" "no_rmw_write c t"
    using adjusted_distinct [OF a assms(1)] no_rmw_write_subset [OF assms(4), of t] adjusted_set [OF a] by simp_all
  show ?thesis
    using writes_before_adjusted [OF a assms(5)]
    by (simp add: tes_value_plain [OF t assms(8)] tes_value_plain [OF assms(1,4,7)] assms(9) Let_def)
qed

theorem view_adjust_keeps_reads_witness:
  "\<exists>t ok. seq_view_adjust ex_ctx [IID 0 0, IID 2 0] (IID 0 0) (IID 2 0) = Inr (t, ok)
     \<and> (\<forall>k<length t. t ! k = IID 2 0 \<longrightarrow> ev_value (to_event_sequence ex_ctx [] t ! k) = 1)"
proof -
  let ?s = "[IID 0 0, IID 2 0] :: seq"
  have s: "distinct ?s" "before ?s (IID 0 0) (IID 2 0)" by (simp_all add: before_Cons)
  have pid: "iid_pid (IID 0 0) \<noteq> iid_pid (IID (2 :: int) 0)" by simp
  have c: "no_rmw_write ex_ctx ?s" "writes_by_one_thread ex_ctx ?s"
    by (auto simp: no_rmw_write_def writes_by_one_thread_def)
  obtain t ok where t: "seq_view_adjust ex_ctx ?s (IID 0 0) (IID 2 0) = Inr (t, ok)"
    using seq_view_adjust_sound [OF s pid, of ex_ctx] by metis
  have "ev_value (to_event_sequence ex_ctx [] ?s ! 1) = 1"
    by (simp add: to_event_sequence_def tes_step_def tes_read_value_def)
  thus ?thesis
    using t view_adjust_keeps_reads [OF s pid c t, of 1] by auto
qed

text \<open>with writes of two threads to one object it does not: a sequence and a pair of events exist
  such that \<open>view_adjust\<close> succeeds, having exchanged two writes of the object, and a later read
  of it gets another value.\<close>

theorem view_adjust_swaps_writes:
  "\<exists>c s e1 e2 t. seq_view_adjust c s e1 e2 = Inr (t, True) \<and> distinct s \<and> before s e1 e2 \<and>
     iid_pid e1 \<noteq> iid_pid e2 \<and>
     (\<exists>k. t ! k = s ! k \<and> ev_is_read (get_event c (s ! k)) \<and>
        ev_value (to_event_sequence c [] s ! k) = 2 \<and> ev_value (to_event_sequence c [] t ! k) = 1)"
proof -
  let ?s = "[IID 0 0, IID 1 0, IID 2 0] :: seq" and ?t = "[IID 1 0, IID 0 0, IID 2 0] :: seq"
  have "seq_view_adjust ex_ctx ?s (IID 0 0) (IID 1 0) = Inr (?t, True)"
    by (simp add: seq_view_adjust_def ordered_by_join_def ordered_by_spawn_def inner_map_def seq_index_of_def
        ev_RWpair_iff) (simp add: ex_ctx_def)
  moreover have "ev_value (to_event_sequence ex_ctx [] ?s ! 2) = 2" "ev_value (to_event_sequence ex_ctx [] ?t ! 2) = 1"
    by (simp_all add: to_event_sequence_def tes_step_def tes_read_value_def)
  moreover have "distinct ?s" "before ?s (IID 0 0) (IID 1 0)" "?t ! 2 = ?s ! 2" "ev_is_read (get_event ex_ctx (?s ! 2))"
    by (simp_all add: before_Cons)
  ultimately show ?thesis by (metis iid.sel(1) zero_neq_one)
qed

text \<open>C32: whatever order the OpenMP threads fill the buffer in, \<open>EventSequence::conflicts_with\<close> finds
  what the sequential \<open>Sequence::conflicts_with\<close> finds on the identifiers, as events of the
  other sequence.\<close>

theorem conflicts_with_schedule_independent:
  assumes "set order = {..<length s}"
  shows "es_conflicts_sched order s t = es_conflicts_with s t \<and>
    es_conflicts_with s t = map_option (\<lambda>(u, v). (t ! es_find_iid t u, t ! es_find_iid t v))
      (seq_conflicts_with (es_to_iid_sequence s) (es_to_iid_sequence t))"
  using es_conflicts_sched_eq [OF assms, of t] es_conflicts_sched_eq [of "[0..<length s]" s t]
  by (simp add: es_conflicts_with_def atLeast0LessThan)

theorem conflicts_with_schedule_independent_witness:
  "es_conflicts_sched [1, 0] [ex_access T_READ 0 0 0, ex_access T_READ 1 0 0] [ex_access T_READ 1 0 0]
   = es_conflicts_with [ex_access T_READ 0 0 0, ex_access T_READ 1 0 0] [ex_access T_READ 1 0 0]"
  using conflicts_with_schedule_independent
    [of "[1, 0]" "[ex_access T_READ 0 0 0, ex_access T_READ 1 0 0]" "[ex_access T_READ 1 0 0]"]
  by (simp add: lessThan_Suc insert_commute)

text \<open>C30: \<open>VA_equal\<close> runs into no error, and when it answers yes then one sequence can be rearranged to
  the other one's order without moving an event over another of its thread or a read over a
  write of its object.\<close>

theorem VA_equal_sound:
  assumes "distinct (map ev_iid s)" "es_threads_agree this s"
  shows "(\<forall>e. es_VA_equal n this s = Inl e \<longrightarrow> e = Out_of_fuel) \<and>
    (es_VA_equal n this s = Inr True \<longrightarrow>
      (\<exists>t. mset t = mset s \<and> es_to_iid_sequence t = es_to_iid_sequence this \<and>
        (\<forall>k. filter (\<lambda>e. ev_pid e = k) t = filter (\<lambda>e. ev_pid e = k) s) \<and>
        (\<forall>u v. ev_RWpair u v \<longrightarrow> (before t u v \<longleftrightarrow> before s u v))))"
  using es_VA_equal_loop_sound [OF assms, of n]
  by (auto simp: es_VA_equal_def adjusted_def)

theorem VA_equal_sound_witness:
  "\<exists>t. mset t = mset [ex_access T_READ 1 0 0, ex_access T_READ 0 0 0] \<and>
       es_to_iid_sequence t = [IID 0 0, IID 1 0]"
proof -
  let ?a = "ex_access T_READ 0 0 0" and ?b = "ex_access T_READ 1 0 0"
  have d: "distinct (map ev_iid [?b, ?a])" by simp
  have ta: "es_threads_agree [?a, ?b] [?b, ?a]"
    by (auto simp: es_threads_agree_def threads_agree_def before_Cons)
  have "es_VA_equal 2 [?a, ?b] [?b, ?a] = Inr True"
    by (simp add: es_VA_equal_def es_conflicts_with_def es_conflicts_sched_def es_fill_buffer_def es_find_iid_def
        es_view_adjust_def ev_pid_def ev_RWpair_iff es_to_iid_sequence_def numeral_2_eq_2)
  thus ?thesis using VA_equal_sound [OF d ta, of 2] by (auto simp: es_to_iid_sequence_def)
qed

end
