(* ===== verification/ViewCausal.thy ===== *)
theory ViewCausal
  imports Prelude ViewEventSeq
begin

text \<open>
  What the causal order of \<open>Sequence::get_causal_order\<close> relates, and what its preservation by
  \<open>consistent_merge\<close> gives: program order, the sources of reads and their values.
\<close>

section \<open>Sources and predecessors\<close>

text \<open>The write a read takes its value from, and the previous event of the thread.\<close>

definition last_opt :: "'a list \<Rightarrow> 'a option" where
  "last_opt xs = (if xs = [] then None else Some (last xs))"

definition rf_source :: "vctx \<Rightarrow> seq \<Rightarrow> int iid \<Rightarrow> int iid option" where
  "rf_source c s i = last_opt (writes_before c (ev_object (get_event c i)) s i)"

definition po_pred :: "seq \<Rightarrow> int iid \<Rightarrow> int iid option" where
  "po_pred s i = last_opt (filter (\<lambda>j. iid_pid j = iid_pid i \<and> before s j i) s)"

lemma last_opt_simps [simp]: "last_opt [] = None" "last_opt (xs @ [x]) = Some x"
  by (simp_all add: last_opt_def)

lemma last_opt_None [simp]: "last_opt xs = None \<longleftrightarrow> xs = []"
  by (simp add: last_opt_def)

lemma last_opt_in_set: "last_opt xs = Some x \<Longrightarrow> x \<in> set xs"
  by (auto simp: last_opt_def split: if_splits)

lemma last_filter_latest:
  assumes "last_opt (filter P s) = Some x" "y \<in> set s" "P y" "y \<noteq> x"
  shows "before s y x"
  using assms
proof (induction s rule: rev_induct)
  case (snoc z s)
  show ?case
  proof (cases "P z")
    case True
    thus ?thesis using snoc.prems by (auto simp: before_append)
  next
    case False
    thus ?thesis using snoc by (auto simp: before_append)
  qed
qed simp

section \<open>The loop\<close>

definition co_fold :: "vctx \<Rightarrow> seq \<Rightarrow> co_state" where
  "co_fold c s = foldl (co_step c) \<lparr>cos_last_write = [], cos_prev = [], cos_co = []\<rparr> s"

lemma co_fold_maps:
  "map_of (cos_prev (co_fold c s)) t = last_opt (filter (\<lambda>j. iid_pid j = t) s)"
  "map_of (cos_last_write (co_fold c s)) ob =
     last_opt (filter (\<lambda>w. ev_is_write (get_event c w) \<and> ev_object (get_event c w) = ob) s)"
proof (induction s rule: rev_induct)
  case (snoc i s)
  let ?st = "co_fold c s"
  have st: "co_fold c (s @ [i]) = co_step c ?st i" by (simp add: co_fold_def)
  show "map_of (cos_prev (co_fold c (s @ [i]))) t = last_opt (filter (\<lambda>j. iid_pid j = t) (s @ [i]))"
    using snoc(1) by (simp add: st co_step_def Let_def update_conv')
  show "map_of (cos_last_write (co_fold c (s @ [i]))) ob =
     last_opt (filter (\<lambda>w. ev_is_write (get_event c w) \<and> ev_object (get_event c w) = ob) (s @ [i]))"
    using snoc(2) by (simp add: st co_step_def Let_def update_conv')
qed (simp_all add: co_fold_def)

lemma causal_order_Nil [simp]: "seq_get_causal_order c [] = []"
  by (simp add: seq_get_causal_order_def)

lemma causal_order_snoc:
  "(u, v) \<in> set (seq_get_causal_order c (s @ [i])) \<longleftrightarrow>
     (u, v) \<in> set (seq_get_causal_order c s) \<or>
     v = i \<and> last_opt (filter (\<lambda>j. iid_pid j = iid_pid i) s) = Some u \<or>
     v = i \<and> ev_is_read (get_event c i) \<and>
       last_opt (filter (\<lambda>w. ev_is_write (get_event c w) \<and>
                    ev_object (get_event c w) = ev_object (get_event c i)) s) = Some u"
proof -
  have co: "seq_get_causal_order c t = cos_co (co_fold c t)" for t
    by (simp add: seq_get_causal_order_def co_fold_def)
  have "co_fold c (s @ [i]) = co_step c (co_fold c s) i" by (simp add: co_fold_def)
  thus ?thesis
    by (auto simp: co co_step_def Let_def co_fold_maps split: option.splits)
qed

lemma filter_before_snoc:
  assumes "distinct (s @ [i])"
  shows "filter (\<lambda>w. P w \<and> before (s @ [i]) w i) (s @ [i]) = filter P s"
    and "v \<in> set s \<Longrightarrow> filter (\<lambda>w. P w \<and> before (s @ [i]) w v) (s @ [i]) = filter (\<lambda>w. P w \<and> before s w v) s"
proof -
  have ni: "\<not> before s w i" for w using assms before_in_set [of s w i] by auto
  show "filter (\<lambda>w. P w \<and> before (s @ [i]) w i) (s @ [i]) = filter P s"
    using assms ni by (auto simp: before_append before_Cons cong: filter_cong)
  assume v: "v \<in> set s"
  have iv: "\<not> before s i v" using assms before_in_set [of s i v] by auto
  have vi: "v \<noteq> i" using v assms by auto
  show "filter (\<lambda>w. P w \<and> before (s @ [i]) w v) (s @ [i]) = filter (\<lambda>w. P w \<and> before s w v) s"
    using iv vi by (auto simp: before_append before_Cons cong: filter_cong)
qed

lemma causal_order_iff:
  assumes "distinct s"
  shows "(u, v) \<in> set (seq_get_causal_order c s) \<longleftrightarrow>
    v \<in> set s \<and> (po_pred s v = Some u \<or> ev_is_read (get_event c v) \<and> rf_source c s v = Some u)"
  using assms
proof (induction s rule: rev_induct)
  case (snoc i s)
  have d: "distinct s" "i \<notin> set s" using snoc.prems by simp_all
  note f = filter_before_snoc [OF snoc.prems]
  have vi: "v = i \<Longrightarrow> po_pred (s @ [i]) v = last_opt (filter (\<lambda>j. iid_pid j = iid_pid i) s)"
    "v = i \<Longrightarrow> rf_source c (s @ [i]) v =
      last_opt (filter (\<lambda>w. ev_is_write (get_event c w) \<and> ev_object (get_event c w) = ev_object (get_event c i)) s)"
    by (simp_all only: po_pred_def rf_source_def writes_before_def conj_assoc [symmetric] f(1))
  have vs: "v \<in> set s \<Longrightarrow> po_pred (s @ [i]) v = po_pred s v"
    "v \<in> set s \<Longrightarrow> rf_source c (s @ [i]) v = rf_source c s v"
    by (simp_all only: po_pred_def rf_source_def writes_before_def conj_assoc [symmetric] f(2))
  show ?case
  proof (cases "v = i")
    case True
    hence "(u, v) \<notin> set (seq_get_causal_order c s)" using snoc.IH [OF d(1)] d(2) by simp
    thus ?thesis using True vi unfolding causal_order_snoc by simp
  next
    case False
    thus ?thesis using snoc.IH [OF d(1)] vs unfolding causal_order_snoc by auto
  qed
qed simp

section \<open>Program order through a merge\<close>

lemma before_trans:
  assumes "distinct s" "before s u v" "before s v w"
  shows "before s u w"
proof -
  obtain A0 B0 C where "s = A0 @ u # B0 @ v # C" using assms(2) by (auto simp: before_def)
  hence s: "s = (A0 @ u # B0) @ v # C" "u \<in> set (A0 @ u # B0)" by simp_all
  have "w \<in> set C"
    using assms(1,3) s before_in_set [of "A0 @ u # B0" v w] before_in_set [of C v w]
    unfolding s(1) before_append before_Cons by auto
  thus ?thesis using s by (simp add: before_append before_Cons)
qed

lemma po_from_causal_order:
  assumes "distinct s" "distinct r"
    and "\<forall>x y. (x, y) \<in> set (seq_get_causal_order c r) \<longrightarrow> iid_pid x = iid_pid y \<longrightarrow> before s x y"
    and "before r u v" "iid_pid u = iid_pid v"
  shows "before s u v"
  using assms(2-5)
proof (induction r arbitrary: v rule: rev_induct)
  case (snoc i r)
  have co: "\<forall>x y. (x, y) \<in> set (seq_get_causal_order c r) \<longrightarrow> iid_pid x = iid_pid y \<longrightarrow> before s x y"
    using snoc.prems(2) unfolding causal_order_snoc by blast
  show ?case
  proof (cases "before r u v")
    case True
    thus ?thesis using snoc.IH [OF _ co] snoc.prems(1,4) by simp
  next
    case False
    hence v: "v = i" "u \<in> set r" using snoc.prems(3) by (simp_all add: before_append before_Cons)
    let ?P = "\<lambda>j. iid_pid j = iid_pid i"
    have "filter ?P r \<noteq> []" using v snoc.prems(4) by (auto simp: filter_empty_conv)
    then obtain w where w: "last_opt (filter ?P r) = Some w" by (auto simp: last_opt_def)
    have wi: "iid_pid w = iid_pid i" using last_opt_in_set [OF w] by simp
    have "before s w i"
      using snoc.prems(2) w wi unfolding causal_order_snoc by blast
    moreover have "before s u w" if "u \<noteq> w"
    proof -
      have "before r u w" using last_filter_latest [OF w v(2)] that v(1) snoc.prems(4) by simp
      moreover have "iid_pid u = iid_pid w" using wi v(1) snoc.prems(4) by simp
      ultimately show ?thesis
        using snoc.IH [OF _ co, of w] snoc.prems(1) by simp
    qed
    ultimately show ?thesis using v(1) before_trans [OF assms(1)] by metis
  qed
qed simp

definition po_in :: "seq \<Rightarrow> seq \<Rightarrow> bool" where
  "po_in s p = (\<forall>u v. iid_pid u = iid_pid v \<longrightarrow> before p u v \<longrightarrow> before s u v)"

lemma po_in_threads_agree: "distinct s \<Longrightarrow> po_in s p \<Longrightarrow> po_in s q \<Longrightarrow> threads_agree p q"
  unfolding po_in_def threads_agree_def using before_asym by metis

lemma po_in_Nil [simp]: "po_in s []"
  by (simp add: po_in_def)

lemma causal_order_before:
  assumes "distinct s" "(u, v) \<in> set (seq_get_causal_order c s)"
  shows "before s u v"
  using assms(2) last_opt_in_set
  unfolding causal_order_iff [OF assms(1)] po_pred_def rf_source_def writes_before_def by fastforce

lemma merge_cases:
  assumes "distinct p" "distinct q" "threads_agree p q" "no_rmw_write c q"
    and "seq_consistent_merge c n p q = Inr (r, p', q')"
  shows "adjusted c p p'" "adjusted c q q'" "r \<noteq> [] \<Longrightarrow> merges p' q' r"
    "r \<noteq> [] \<Longrightarrow> p \<noteq> [] \<Longrightarrow> q \<noteq> [] \<Longrightarrow> set (seq_get_causal_order c r)
       = set (seq_get_causal_order c p') \<union> set (seq_get_causal_order c q')"
  using seq_consistent_merge_cases [OF assms(1-4), of n] assms(5) by simp_all

lemma merge_program_order:
  assumes s: "distinct s" and p: "distinct p" "po_in s p" and q: "distinct q" "po_in s q" "no_rmw_write c q"
    and m: "seq_consistent_merge c n p q = Inr (r, p', q')"
  shows "po_in s r" "distinct r" "set r \<subseteq> set p \<union> set q"
proof -
  note ta = po_in_threads_agree [OF s p(2) q(2)]
  note mc = merge_cases [OF p(1) q(1) ta q(3) m]
  have d: "distinct p'" "distinct q'" "set p' = set p" "set q' = set q"
    using adjusted_distinct [OF mc(1) p(1)] adjusted_distinct [OF mc(2) q(1)] adjusted_set [OF mc(1)]
      adjusted_set [OF mc(2)] by simp_all
  show r: "distinct r" "set r \<subseteq> set p \<union> set q"
    using mc(3) d by (cases "r = []"; force simp: merges_def)+
  have sub: "before s x y"
    if "(x, y) \<in> set (seq_get_causal_order c p') \<union> set (seq_get_causal_order c q')" "iid_pid x = iid_pid y" for x y
    using that causal_order_before [OF d(1)] causal_order_before [OF d(2)]
      adjusted_same_thread [OF mc(1) that(2)] adjusted_same_thread [OF mc(2) that(2)] p(2) q(2)
    unfolding po_in_def by blast
  show "po_in s r"
  proof (cases "p = [] \<or> q = [] \<or> r = []")
    case True
    thus ?thesis using m p(2) q(2) by (auto simp: seq_consistent_merge_def split: if_splits)
  next
    case False
    thus ?thesis
      using po_from_causal_order [OF s r(1)] sub mc(4) unfolding po_in_def by blast
  qed
qed

section \<open>Sources through a merge\<close>

lemma rf_source_SomeD:
  assumes "rf_source c s v = Some w"
  shows "ev_is_write (get_event c w)" "ev_object (get_event c w) = ev_object (get_event c v)" "before s w v"
  using last_opt_in_set [OF assms [unfolded rf_source_def writes_before_def]] by simp_all

lemma rf_source_latest:
  assumes "rf_source c s v = Some w" "before s x v" "ev_is_write (get_event c x)"
    "ev_object (get_event c x) = ev_object (get_event c v)" "x \<noteq> w"
  shows "before s x w"
  using last_filter_latest [OF assms(1) [unfolded rf_source_def writes_before_def], of x] assms before_in_set by force

lemma rf_source_NoneD:
  assumes "rf_source c s v = None" "ev_is_write (get_event c x)"
    "ev_object (get_event c x) = ev_object (get_event c v)"
  shows "\<not> before s x v"
  using assms before_in_set by (force simp: rf_source_def writes_before_def filter_empty_conv)

lemma rf_source_shared:
  assumes "distinct r" "\<forall>u v. before s u v \<longrightarrow> before r u v" "rf_source c r v = Some x" "before s x v"
  shows "rf_source c s v = Some x"
proof (cases "rf_source c s v")
  case None
  thus ?thesis using rf_source_NoneD [OF None] rf_source_SomeD [OF assms(3)] assms(4) by blast
next
  case (Some w)
  show ?thesis
  proof (rule ccontr)
    assume "rf_source c s v \<noteq> Some x"
    hence wx: "x \<noteq> w" using Some by simp
    have "before s x w"
      using rf_source_latest [OF Some assms(4)] rf_source_SomeD [OF assms(3)] wx by blast
    moreover have "before r w v" using rf_source_SomeD(3) [OF Some] assms(2) by blast
    hence "before r w x"
      using rf_source_latest [OF assms(3)] rf_source_SomeD(1,2) [OF Some] wx by blast
    ultimately show False using before_asym [OF assms(1)] assms(2) by blast
  qed
qed

lemma merge_sources:
  assumes "distinct p" "distinct q" "threads_agree p q" "no_rmw_write c q"
    and "seq_consistent_merge c n p q = Inr (r, p', q')" "r \<noteq> []"
    and "v \<in> set p" "v \<notin> set q" "ev_is_read (get_event c v)"
  shows "rf_source c r v = rf_source c p' v"
proof (cases "q = []")
  case True
  thus ?thesis using assms(5,7) by (auto simp: seq_consistent_merge_def split: if_splits)
next
  case False
  note mc = merge_cases [OF assms(1-5)]
  have d: "distinct p'" "distinct q'" "set p' = set p" "set q' = set q"
    using adjusted_distinct [OF mc(1) assms(1)] adjusted_distinct [OF mc(2) assms(2)] adjusted_set [OF mc(1)]
      adjusted_set [OF mc(2)] by simp_all
  have dr: "distinct r" and sub: "\<forall>u v. before p' u v \<longrightarrow> before r u v" and vr: "v \<in> set r"
    using mc(3) [OF assms(6)] assms(7) d by (auto simp: merges_def)
  have co: "set (seq_get_causal_order c r) = set (seq_get_causal_order c p') \<union> set (seq_get_causal_order c q')"
    using mc(4) [OF assms(6)] False assms(7) by force
  show ?thesis
  proof (cases "rf_source c r v")
    case None
    show ?thesis
    proof (cases "rf_source c p' v")
      case (Some w)
      thus ?thesis using rf_source_NoneD [OF None] rf_source_SomeD [OF Some] sub by blast
    qed (simp add: None)
  next
    case (Some x)
    hence "(x, v) \<in> set (seq_get_causal_order c r)"
      using causal_order_iff [OF dr] vr assms(9) by blast
    hence "(x, v) \<in> set (seq_get_causal_order c p')"
      using co causal_order_iff [OF d(2)] d(4) assms(8) by blast
    hence "before p' x v" using causal_order_before [OF d(1)] by blast
    thus ?thesis using rf_source_shared [OF dr sub Some] Some by simp
  qed
qed

lemma source_value:
  assumes "distinct s" "no_rmw_write c s" "k < length s" "ev_is_read (get_event c (s ! k))"
  shows "ev_value (to_event_sequence c mem s ! k) =
    (case rf_source c s (s ! k) of Some w \<Rightarrow> ev_value (get_event c w)
     | None \<Rightarrow> mem_value mem (ev_object (get_event c (s ! k))))"
  using assms(4) unfolding tes_value_plain [OF assms(1-3)]
  by (simp add: Let_def rf_source_def plain_write_value_def last_opt_def)

section \<open>Properties\<close>

text \<open>C26: the causal order of a sequence relates exactly each event to its predecessor in its thread
  and each read to the last write of its object before it.\<close>

theorem causal_order_exact:
  assumes "distinct s"
  shows "set (seq_get_causal_order c s) =
    {(u, v). v \<in> set s \<and> (po_pred s v = Some u \<or> ev_is_read (get_event c v) \<and> rf_source c s v = Some u)}"
  using causal_order_iff [OF assms] by auto

text \<open>C25: a successful merge of two sequences that have the events of every thread in one order and no writes
  of read-modify-writes maintains the sources of reads: a read that only the first of them has, where the
  writes to each object in that one belong to one thread, reads in the merged sequence the value it read
  there. With writes of several threads it need not: adjusting may exchange them
  (\<open>view_adjust_swaps_writes\<close>).\<close>

theorem merge_keeps_values:
  assumes "distinct p" "distinct q" "threads_agree p q" "no_rmw_write c p" "no_rmw_write c q"
    and "writes_by_one_thread c p"
    and "seq_consistent_merge c n p q = Inr (r, p', q')" "r \<noteq> []"
    and "k < length r" "j < length p" "r ! k = p ! j" "p ! j \<notin> set q" "ev_is_read (get_event c (p ! j))"
  shows "ev_value (to_event_sequence c mem r ! k) = ev_value (to_event_sequence c mem p ! j)"
proof -
  note mc = merge_cases [OF assms(1-3,5,7)]
  have r: "distinct r" "set r = set p \<union> set q"
    using mc(3) [OF assms(8)] adjusted_set [OF mc(1)] adjusted_set [OF mc(2)] by (simp_all add: merges_def)
  have nr: "no_rmw_write c r"
    using assms(4,5) r(2) unfolding no_rmw_write_def by blast
  have "rf_source c r (p ! j) = rf_source c p' (p ! j)"
    using merge_sources [OF assms(1-3,5,7,8) _ assms(12,13)] assms(10) by simp
  also have "\<dots> = rf_source c p (p ! j)"
    unfolding rf_source_def using writes_before_adjusted [OF mc(1) assms(6,13)] by simp
  finally show ?thesis
    using source_value [OF r(1) nr assms(9), unfolded assms(11)] source_value [OF assms(1,4,10)] assms(13) by simp
qed

theorem causal_order_exact_witness:
  "(IID 0 0, IID 2 0) \<in> set (seq_get_causal_order ex_ctx [IID 1 0, IID 0 0, IID 2 0])"
  using causal_order_exact [of "[IID 1 0, IID 0 0, IID 2 0]" ex_ctx]
  by (simp add: po_pred_def rf_source_def writes_before_def before_Cons last_opt_def)

theorem merge_keeps_values_witness:
  "ev_value (to_event_sequence ex_ctx [] [IID 0 0, IID 2 0, IID 1 0] ! 1) =
   ev_value (to_event_sequence ex_ctx [] [IID 0 0, IID 2 0] ! 1)"
proof -
  let ?p = "[IID 0 0, IID 2 0] :: seq" and ?q = "[IID 1 0] :: seq" and ?r = "[IID 0 0, IID 2 0, IID 1 0] :: seq"
  have m: "seq_consistent_merge ex_ctx 1 ?p ?q = Inr (?r, ?p, ?q)"
    by code_simp
  have pq: "distinct ?p" "distinct ?q" "threads_agree ?p ?q" "no_rmw_write ex_ctx ?p" "no_rmw_write ex_ctx ?q"
    "writes_by_one_thread ex_ctx ?p"
    by (simp_all add: threads_agree_def before_Cons no_rmw_write_def writes_by_one_thread_def)
  show ?thesis
    using merge_keeps_values [OF pq m, of 1 1 "[]"] by simp
qed

end
