(* ===== verification/ViewBackseq.thy ===== *)
theory ViewBackseq
  imports Prelude ViewCausal "HOL-Library.Sublist"
begin

text \<open>
  Causal prefixes and view starts (\<open>Sequence::causal_prefix\<close>, \<open>Sequence::backseq\<close>): from two events
  of a sequence, a write and a read of one object, the sequence that lets the read see the write.

  The three arrays of \<open>causal_prefix\<close>, indexed by \<open>JOIN\<close>, \<open>JOINe1\<close> and \<open>CAUSAL\<close>, are three records
  of one prefix, its threads and the objects whose source is still to be found. A kind that was
  never initialised counts as neither \<open>SPAWN\<close> nor \<open>JOIN\<close>. The flag \<open>dbg\<close> says whether assertions
  are compiled in: the default build has none, and needs none, as the builder asks for events that
  are not yet in the sequence.
\<close>

section \<open>Operations\<close>

record pfx =
  pf_seq :: seq
  pf_threads :: "int list"
  pf_objs :: "obj set"

record cps =
  cp_join :: pfx
  cp_joine1 :: pfx
  cp_causal :: pfx
  cp_delim :: "int iid"

definition pfx_empty :: pfx where
  "pfx_empty = \<lparr>pf_seq = [], pf_threads = [], pf_objs = {}\<rparr>"

definition pfx_add_thread :: "int \<Rightarrow> pfx \<Rightarrow> pfx" where
  "pfx_add_thread t p = p\<lparr>pf_threads := pf_threads p @ [t]\<rparr>"

text \<open>\<open>e1_delim = prefix[idx].head()\<close>, when there is one\<close>

definition delim_head :: "pfx \<Rightarrow> int iid \<Rightarrow> int iid" where
  "delim_head p d = (if pf_seq p \<noteq> [] then hd (pf_seq p) else d)"

text \<open>\<open>source.empty() ? container->get_event(i) : *source.find_iid(i)\<close>\<close>

definition source_event :: "vctx \<Rightarrow> eseq \<Rightarrow> int iid \<Rightarrow> event result" where
  "source_event c source i = (if source = [] then Inr (get_event c i) else es_deref source i)"

definition assign_thread_causality :: "event \<Rightarrow> int iid \<Rightarrow> int iid \<Rightarrow> cps \<Rightarrow> int \<times> int \<times> cps" where
  "assign_thread_causality e e1 e2 st =
     (if ev_type e = T_SPAWN then (ev_pid e, int (fst (ev_object e)), st)
      else let bef = int (fst (ev_object e)); aft = ev_pid e in
        if aft = iid_pid e2
        then if bef = iid_pid e1
             then (bef, aft, st\<lparr>cp_delim := delim_head (cp_causal st) (cp_delim st),
                                cp_joine1 := pfx_add_thread (iid_pid e1) (cp_joine1 st)\<rparr>)
             else (bef, aft, st\<lparr>cp_join := pfx_add_thread bef (cp_join st)\<rparr>)
        else (bef, aft, st))"

definition update_thread_causality :: "event \<Rightarrow> int iid \<Rightarrow> int iid \<Rightarrow> cps \<Rightarrow> cps" where
  "update_thread_causality e e1 e2 st0 =
     (let (bef, aft, st) = assign_thread_causality e e1 e2 st0 in
      if ev_type e = T_JOIN \<and> aft = iid_pid e2 then st
      else if aft \<in> set (pf_threads (cp_join st))
      then let d = (if bef = iid_pid e1
                    then if pf_seq (cp_join st) \<noteq> [] then hd (pf_seq (cp_join st))
                         else delim_head (cp_causal st) (cp_delim st)
                    else cp_delim st)
           in st\<lparr>cp_delim := d, cp_join := pfx_add_thread bef (cp_join st)\<rparr>
      else if aft \<in> set (pf_threads (cp_joine1 st))
      then st\<lparr>cp_joine1 := pfx_add_thread bef (cp_joine1 st)\<rparr>
      else if aft \<in> set (pf_threads (cp_causal st))
      then let d = (if bef = iid_pid e1 then delim_head (cp_causal st) (cp_delim st) else cp_delim st)
           in st\<lparr>cp_delim := d, cp_causal := pfx_add_thread bef (cp_causal st)\<rparr>
      else st)"

text \<open>\<open>add_causal_event\<close> for one prefix, with \<open>e1_delim\<close> and \<open>added_to_prefix\<close>\<close>

definition add_causal_event :: "event \<Rightarrow> int iid \<Rightarrow> pfx \<times> int iid \<times> bool \<Rightarrow> pfx \<times> int iid \<times> bool" where
  "add_causal_event e e1 s =
     (let (p, d, added) = s in
      if ev_pid e \<in> set (pf_threads p)
      then (p\<lparr>pf_seq := ev_iid e # pf_seq p,
              pf_objs := (if ev_is_read e then insert (ev_object e) (pf_objs p)
                          else if ev_is_write e then pf_objs p - {ev_object e} else pf_objs p)\<rparr>,
            if ev_pid e = iid_pid e1 then ev_iid e else d, True)
      else (p, d, added))"

text \<open>Whether \<open>prefix_rf_source\<close> returns at once: the write of a compare-exchange that failed.\<close>

definition rf_skip :: "vctx \<Rightarrow> eseq \<Rightarrow> event \<Rightarrow> bool result" where
  "rf_skip c source e =
     (if ev_is_rmw e \<and> ev_rmw_op e = Op_CMPXCHG
      then if ev_index e = 0 then Inl Out_of_range
           else bind_r (source_event c source (IID (ev_pid e) (ev_index e - 1))) (\<lambda>r.
                  Inr (ev_value r \<noteq> ev_expected r))
      else Inr False)"

definition prefix_rf_source :: "vctx \<Rightarrow> eseq \<Rightarrow> event \<Rightarrow> pfx \<times> bool \<Rightarrow> (pfx \<times> bool) result" where
  "prefix_rf_source c source e s =
     (let (p, added) = s in
      bind_r (rf_skip c source e) (\<lambda>skip.
        if skip then Inr (p, added)
        else if ev_object e \<in> pf_objs p
        then Inr (p\<lparr>pf_objs := pf_objs p - {ev_object e}, pf_threads := pf_threads p @ [ev_pid e],
                    pf_seq := ev_iid e # pf_seq p\<rparr>, True)
        else Inr (p, added)))"

text \<open>One turn of the loop of \<open>causal_prefix\<close>.\<close>

definition cp_step :: "vctx \<Rightarrow> eseq \<Rightarrow> int iid \<Rightarrow> int iid \<Rightarrow> cps \<Rightarrow> int iid \<Rightarrow> cps result" where
  "cp_step c source e1 e2 st i =
     bind_r (source_event c source i) (\<lambda>e.
       if ev_type e = T_SPAWN \<or> ev_type e = T_JOIN then Inr (update_thread_causality e e1 e2 st)
       else if \<not> ev_is_global e then Inr st
       else let (pj, d, added) = add_causal_event e e1 (cp_join st, cp_delim st, False);
                (p1, d, added) = add_causal_event e e1 (cp_joine1 st, d, added);
                (pc, d, added) = add_causal_event e e1 (cp_causal st, d, added)
            in if \<not> added \<and> ev_is_write e
               then bind_r (prefix_rf_source c source e (pj, added)) (\<lambda>(pj, added).
                      bind_r (prefix_rf_source c source e (p1, added)) (\<lambda>(p1, added).
                        bind_r (prefix_rf_source c source e (pc, added)) (\<lambda>(pc, added).
                          Inr \<lparr>cp_join = pj, cp_joine1 = p1, cp_causal = pc,
                               cp_delim = if added \<and> iid_pid i = iid_pid e1 then i else d\<rparr>)))
               else Inr \<lparr>cp_join = pj, cp_joine1 = p1, cp_causal = pc, cp_delim = d\<rparr>)"

fun cp_loop :: "vctx \<Rightarrow> eseq \<Rightarrow> int iid \<Rightarrow> int iid \<Rightarrow> cps \<Rightarrow> seq \<Rightarrow> cps result" where
  "cp_loop c source e1 e2 st [] = Inr st"
| "cp_loop c source e1 e2 st (i # is) =
     bind_r (cp_step c source e1 e2 st i) (\<lambda>st'. cp_loop c source e1 e2 st' is)"

definition cp_init :: "int iid \<Rightarrow> cps" where
  "cp_init e2 = \<lparr>cp_join = pfx_empty, cp_joine1 = pfx_empty, cp_causal = pfx_add_thread (iid_pid e2) pfx_empty,
                 cp_delim = e2\<rparr>"

text \<open>\<open>e1\<close> itself in front of a prefix with a read that depends on it\<close>

definition cp_add_e1 :: "event \<Rightarrow> int iid \<Rightarrow> pfx \<Rightarrow> pfx" where
  "cp_add_e1 ev e1 p = (if ev_is_write ev \<and> ev_object ev \<in> pf_objs p then p\<lparr>pf_seq := e1 # pf_seq p\<rparr> else p)"

definition cp_finish :: "event \<Rightarrow> int iid \<Rightarrow> cps \<Rightarrow> cps" where
  "cp_finish ev e1 st =
     \<lparr>cp_join = cp_add_e1 ev e1 (cp_join st), cp_joine1 = cp_add_e1 ev e1 (cp_joine1 st),
      cp_causal = cp_add_e1 ev e1 (cp_causal st),
      cp_delim = (if ev_is_write ev \<and>
                     ev_object ev \<in> pf_objs (cp_join st) \<union> pf_objs (cp_joine1 st) \<union> pf_objs (cp_causal st)
                  then e1 else cp_delim st)\<rparr>"

text \<open>\<open>es\<close> is the range \<open>[begin, end)\<close>, which the loop walks backwards.\<close>

definition causal_prefix :: "vctx \<Rightarrow> nat \<Rightarrow> eseq \<Rightarrow> int iid \<Rightarrow> int iid \<Rightarrow> seq \<Rightarrow> (int iid \<times> seq) result" where
  "causal_prefix c n source e1 e2 es =
     bind_r (cp_loop c source e1 e2 (cp_init e2) (rev es)) (\<lambda>st0.
       bind_r (source_event c source e1) (\<lambda>ev.
         let st = cp_finish ev e1 st0 in
         bind_r (seq_consistent_merge c n (pf_seq (cp_join st)) (pf_seq (cp_joine1 st))) (\<lambda>(r, _).
           bind_r (seq_consistent_merge c n r (pf_seq (cp_causal st))) (\<lambda>(r, _).
             Inr (cp_delim st, r)))))"

text \<open>
  The loops of \<open>backseq\<close> over its result so far. With a source the looked-up event goes to \<open>event\<close>
  instead of \<open>eit\<close>, which stays \<open>Event()\<close>.
\<close>

definition bq_lookup :: "vctx \<Rightarrow> eseq \<Rightarrow> event \<Rightarrow> int iid \<Rightarrow> (event \<times> event) result" where
  "bq_lookup c source ev i =
     (if source = [] then Inr (ev, get_event c i)
      else bind_r (es_deref source i) (\<lambda>x. Inr (x, ev_default)))"

record bq_state =
  bq_event :: event
  bq_loc :: nat
  bq_delim_loc :: nat
  bq_racing :: bool

fun bq_scan :: "vctx \<Rightarrow> eseq \<Rightarrow> int iid \<Rightarrow> nat \<Rightarrow> seq \<Rightarrow> bq_state \<Rightarrow> bq_state result" where
  "bq_scan c source delim k [] st = Inr st"
| "bq_scan c source delim k (i # is) st =
     bind_r (bq_lookup c source (bq_event st) i) (\<lambda>(ev, eit).
       let st1 = st\<lparr>bq_event := ev, bq_delim_loc := (if i = delim then k else bq_delim_loc st)\<rparr>;
           st2 = (if ev_same_object ev eit
                  then if ev_is_write eit \<and> ev_value eit \<noteq> ev_value ev
                       then st1\<lparr>bq_racing := True, bq_loc := k + 1\<rparr>
                       else if ev_is_read eit \<and> bq_racing st1 then st1\<lparr>bq_loc := k + 1\<rparr>
                       else st1
                  else st1)
       in bq_scan c source delim (k + 1) is st2)"

fun bq_mem_val :: "vctx \<Rightarrow> eseq \<Rightarrow> event \<Rightarrow> int option \<Rightarrow> seq \<Rightarrow> int option result" where
  "bq_mem_val c source ev m [] = Inr m"
| "bq_mem_val c source ev m (i # is) =
     bind_r (bq_lookup c source ev i) (\<lambda>(ev, eit).
       bq_mem_val c source ev (if ev_same_object ev eit \<and> ev_is_write eit then Some (ev_value eit) else m) is)"

text \<open>The read of the read-modify-write \<open>e1\<close> right in front of it.\<close>

definition bq_add_rmw_read :: "vctx \<Rightarrow> eseq \<Rightarrow> event \<Rightarrow> int iid \<Rightarrow> seq \<Rightarrow> seq result" where
  "bq_add_rmw_read c source ev e1 cp =
     (let w = seq_index_of cp e1 in
      bind_r (bq_mem_val c source ev None (take w cp)) (\<lambda>m.
        if iid_idx e1 = 0 then Inl Out_of_range
        else let r = get_event c (IID (iid_pid e1) (iid_idx e1 - 1)) in
          case m of
            Some v \<Rightarrow> if v \<noteq> ev_value r then Inr [] else Inr (insert_at w (ev_iid r) cp)
          | None \<Rightarrow> Inr (insert_at w (ev_iid r) cp)))"

definition bq_place :: "vctx \<Rightarrow> eseq \<Rightarrow> int iid \<Rightarrow> int iid \<Rightarrow> int iid \<Rightarrow> event \<Rightarrow> seq \<Rightarrow> seq result" where
  "bq_place c source delim e1 e2 ev cp =
     (if ev_is_write ev
      then bind_r (bq_scan c source delim 0 (butlast cp)
                     \<lparr>bq_event = ev, bq_loc = 0, bq_delim_loc = length cp, bq_racing = False\<rparr>) (\<lambda>st.
             if bq_delim_loc st < bq_loc st then Inr []
             else let cp1 = (if delim \<noteq> e1 then insert_at (bq_loc st) e1 cp else cp) in
               if ev_is_rmw (bq_event st) then bq_add_rmw_read c source (bq_event st) e1 cp1 else Inr cp1)
      else if delim \<noteq> e2 then Inr []
      else Inr (cp @ [e1]))"

definition seq_backseq_source ::
    "bool \<Rightarrow> vctx \<Rightarrow> nat \<Rightarrow> eseq \<Rightarrow> seq \<Rightarrow> int iid \<Rightarrow> int iid \<Rightarrow> seq result" where
  "seq_backseq_source dbg c n source s e1 e2 =
     assert_r (dbg \<longrightarrow> seq_has s e1 \<and> seq_has s e2)
       (let b = seq_index_of s e1 + 1; e = seq_index_of s e2 in
        if e < b then Inl Out_of_range
        else bind_r (causal_prefix c n source e1 e2 (drop b (take e s))) (\<lambda>(delim, cp).
          bind_r (source_event c source e1) (\<lambda>ev.
            bq_place c source delim e1 e2 ev (cp @ [e2]))))"

definition seq_backseq :: "bool \<Rightarrow> vctx \<Rightarrow> nat \<Rightarrow> seq \<Rightarrow> int iid \<Rightarrow> int iid \<Rightarrow> seq result" where
  "seq_backseq dbg c n s e1 e2 = seq_backseq_source dbg c n [] s e1 e2"

section \<open>What the prefixes hold\<close>

lemma subseq_set: "subseq p s \<Longrightarrow> set p \<subseteq> set s"
  by (induction rule: list_emb.induct) auto

lemma distinct_subseq: "subseq p s \<Longrightarrow> distinct s \<Longrightarrow> distinct p"
  by (auto simp: subseq_conv_nths intro: distinct_nthsI)

lemma before_subseq: "subseq p s \<Longrightarrow> before p u v \<Longrightarrow> before s u v"
proof (induction s arbitrary: p)
  case (Cons y s)
  show ?case
  proof (cases p)
    case (Cons x xs)
    show ?thesis
    proof (cases "x = y")
      case True
      hence xs: "subseq xs s" using Cons.prems(1) Cons by simp
      have "x = u \<and> v \<in> set xs \<or> before xs u v" using Cons.prems(2) Cons by (simp only: before_Cons)
      thus ?thesis using Cons.IH [OF xs] subseq_set [OF xs] True by (auto simp only: before_Cons)
    next
      case False
      hence "subseq p s" using Cons.prems(1) Cons by (simp add: subseq_Cons2_iff)
      thus ?thesis using Cons.IH Cons.prems(2) by (simp add: before_Cons)
    qed
  qed (use Cons.prems in simp)
next
  case Nil
  thus ?case by (cases p) simp_all
qed

lemma po_in_subseq:
  assumes "subseq p s"
  shows "po_in s p"
  using before_subseq [OF assms] unfolding po_in_def by simp

text \<open>The identifiers of the looked-up events are those asked for.\<close>

definition ids_ok :: "vctx \<Rightarrow> eseq \<Rightarrow> seq \<Rightarrow> bool" where
  "ids_ok c source es = (\<forall>i\<in>set es. \<forall>e. source_event c source i = Inr e \<longrightarrow> ev_iid e = i)"

definition cps_seqs :: "cps \<Rightarrow> seq list" where
  "cps_seqs st = [pf_seq (cp_join st), pf_seq (cp_joine1 st), pf_seq (cp_causal st)]"

definition cps_inv :: "int iid \<Rightarrow> int iid \<Rightarrow> seq \<Rightarrow> cps \<Rightarrow> bool" where
  "cps_inv e1 e2 D st =
     ((\<forall>p\<in>set (cps_seqs st). subseq p D) \<and>
      (cp_delim st = e2 \<longrightarrow> (\<forall>p\<in>set (cps_seqs st). \<forall>x\<in>set p. iid_pid x \<noteq> iid_pid e1)))"

lemma cps_inv_cons: "cps_inv e1 e2 D st \<Longrightarrow> cps_inv e1 e2 (i # D) st"
  by (auto simp: cps_inv_def)

lemma cps_seqs_thread_simps [simp]:
  "cps_seqs (st\<lparr>cp_delim := d\<rparr>) = cps_seqs st"
  "cps_seqs (st\<lparr>cp_join := pfx_add_thread t (cp_join st)\<rparr>) = cps_seqs st"
  "cps_seqs (st\<lparr>cp_joine1 := pfx_add_thread t (cp_joine1 st)\<rparr>) = cps_seqs st"
  "cps_seqs (st\<lparr>cp_causal := pfx_add_thread t (cp_causal st)\<rparr>) = cps_seqs st"
  "cps_seqs (st\<lparr>cp_delim := d, cp_join := pfx_add_thread t (cp_join st)\<rparr>) = cps_seqs st"
  "cps_seqs (st\<lparr>cp_delim := d, cp_joine1 := pfx_add_thread t (cp_joine1 st)\<rparr>) = cps_seqs st"
  "cps_seqs (st\<lparr>cp_delim := d, cp_causal := pfx_add_thread t (cp_causal st)\<rparr>) = cps_seqs st"
  by (simp_all add: cps_seqs_def pfx_add_thread_def)

text \<open>The delim event is kept or becomes an event of a prefix.\<close>

definition delim_kept :: "cps \<Rightarrow> int iid \<Rightarrow> bool" where
  "delim_kept st d = (d = cp_delim st \<or> (\<exists>p\<in>set (cps_seqs st). d \<in> set p))"

lemma delim_kept_intros [intro]:
  "delim_kept st (cp_delim st)"
  "delim_kept st (delim_head (cp_causal st) (cp_delim st))"
  "pf_seq (cp_join st) \<noteq> [] \<Longrightarrow> delim_kept st (hd (pf_seq (cp_join st)))"
  by (auto simp: delim_kept_def delim_head_def cps_seqs_def)

lemma assign_thread_seqs:
  "cps_seqs (snd (snd (assign_thread_causality e e1 e2 st))) = cps_seqs st"
  "delim_kept st (cp_delim (snd (snd (assign_thread_causality e e1 e2 st))))"
  unfolding assign_thread_causality_def Let_def
  by (cases "ev_type e = T_SPAWN"; cases "ev_pid e = iid_pid e2"; cases "int (fst (ev_object e)) = iid_pid e1";
      simp add: delim_kept_intros)+

lemma update_thread_seqs:
  "cps_seqs (update_thread_causality e e1 e2 st) = cps_seqs st"
  "delim_kept st (cp_delim (update_thread_causality e e1 e2 st))"
proof -
  obtain b a st' where a: "assign_thread_causality e e1 e2 st = (b, a, st')" by (metis prod_cases3)
  have at: "cps_seqs st' = cps_seqs st" "delim_kept st (cp_delim st')"
    using assign_thread_seqs [where e = e and ?e1.0 = e1 and ?e2.0 = e2 and st = st] a by simp_all
  let ?u = "update_thread_causality e e1 e2 st"
  have u: "cps_seqs ?u = cps_seqs st' \<and> delim_kept st' (cp_delim ?u)"
    unfolding update_thread_causality_def a Let_def prod.case
    by (simp add: delim_kept_intros)
  show "cps_seqs ?u = cps_seqs st" "delim_kept st (cp_delim ?u)"
    using u at by (auto simp: delim_kept_def)
qed

lemma update_thread_inv:
  assumes "cps_inv e1 e2 D st" "e2 \<notin> set D"
  shows "cps_inv e1 e2 D (update_thread_causality e e1 e2 st)"
proof -
  have "set p \<subseteq> set D" if "p \<in> set (cps_seqs st)" for p
    using assms(1) that subseq_set [of p D] unfolding cps_inv_def by blast
  hence "\<And>p. p \<in> set (cps_seqs st) \<Longrightarrow> e2 \<notin> set p" using assms(2) by blast
  hence "cp_delim (update_thread_causality e e1 e2 st) = e2 \<longrightarrow> cp_delim st = e2"
    using update_thread_seqs(2) [where e = e and ?e1.0 = e1 and ?e2.0 = e2 and st = st] unfolding delim_kept_def by metis
  thus ?thesis using assms(1) unfolding cps_inv_def update_thread_seqs(1) by blast
qed

lemma add_causal_seq:
  assumes "add_causal_event e e1 (p, d, added) = (p', d', added')"
  shows "pf_seq p' = pf_seq p \<and> d' = d \<and> added' = added \<or>
    pf_seq p' = ev_iid e # pf_seq p \<and> added' \<and> d' = (if ev_pid e = iid_pid e1 then ev_iid e else d)"
  using assms by (auto simp: add_causal_event_def split: if_splits)

lemma prefix_rf_seq:
  assumes "prefix_rf_source c source e (p, added) = Inr (p', added')"
  shows "pf_seq p' = pf_seq p \<and> added' = added \<or> pf_seq p' = ev_iid e # pf_seq p \<and> added'"
proof (cases "rf_skip c source e")
  case (Inr skip)
  thus ?thesis using assms
    by (cases skip; cases "ev_object e \<in> pf_objs p") (auto simp: prefix_rf_source_def)
qed (use assms in \<open>simp add: prefix_rf_source_def\<close>)

definition grows :: "int iid \<Rightarrow> seq \<Rightarrow> seq \<Rightarrow> bool" where
  "grows i p p' = (p' = p \<or> p' = i # p)"

lemma grows_subseq: "grows i p p' \<Longrightarrow> subseq p D \<Longrightarrow> subseq p' (i # D)"
  by (auto simp: grows_def)

lemma cps_inv_grow:
  assumes inv: "cps_inv e1 e2 D st" and i: "i \<noteq> e2"
    and g: "grows i (pf_seq (cp_join st)) (pf_seq (cp_join st'))"
      "grows i (pf_seq (cp_joine1 st)) (pf_seq (cp_joine1 st'))"
      "grows i (pf_seq (cp_causal st)) (pf_seq (cp_causal st'))"
    and d: "cp_delim st' = i \<or>
      cp_delim st' = cp_delim st \<and> (iid_pid i = iid_pid e1 \<longrightarrow> cps_seqs st' = cps_seqs st)"
  shows "cps_inv e1 e2 (i # D) st'"
proof -
  have sub: "\<forall>p\<in>set (cps_seqs st'). subseq p (i # D)"
    using inv grows_subseq [OF g(1)] grows_subseq [OF g(2)] grows_subseq [OF g(3)]
    by (simp add: cps_inv_def cps_seqs_def)
  have "\<forall>p\<in>set (cps_seqs st'). \<forall>x\<in>set p. iid_pid x \<noteq> iid_pid e1" if e: "cp_delim st' = e2"
  proof -
    have old: "\<forall>p\<in>set (cps_seqs st). \<forall>x\<in>set p. iid_pid x \<noteq> iid_pid e1"
      using inv d i e unfolding cps_inv_def by metis
    show ?thesis
    proof (cases "iid_pid i = iid_pid e1")
      case True
      thus ?thesis using old d i e by metis
    next
      case False
      thus ?thesis using old g by (auto simp: cps_seqs_def grows_def)
    qed
  qed
  thus ?thesis using sub by (simp add: cps_inv_def)
qed

lemma cp_step_inv:
  assumes step: "cp_step c source e1 e2 st i = Inr st'"
    and ids: "\<forall>e. source_event c source i = Inr e \<longrightarrow> ev_iid e = i"
    and inv: "cps_inv e1 e2 D st" and e2: "e2 \<notin> set (i # D)"
  shows "cps_inv e1 e2 (i # D) st'"
proof -
  obtain e where e: "source_event c source i = Inr e" using step by (auto simp: cp_step_def elim: bind_r_InrE)
  have iid: "ev_iid e = i" "ev_pid e = iid_pid i" using ids e by (simp_all add: ev_pid_def)
  consider (thread) "ev_type e = T_SPAWN \<or> ev_type e = T_JOIN" | (skip) "\<not> (ev_type e = T_SPAWN \<or> ev_type e = T_JOIN)" "\<not> ev_is_global e"
    | (access) "\<not> (ev_type e = T_SPAWN \<or> ev_type e = T_JOIN)" "ev_is_global e" by blast
  thus ?thesis
  proof cases
    case thread
    hence "st' = update_thread_causality e e1 e2 st" using step e by (simp add: cp_step_def)
    thus ?thesis using update_thread_inv [OF inv] e2 cps_inv_cons by simp
  next
    case skip
    hence "st' = st" using step e by (simp add: cp_step_def)
    thus ?thesis using inv cps_inv_cons by simp
  next
    case access
    obtain pj d1 a1 where 1: "add_causal_event e e1 (cp_join st, cp_delim st, False) = (pj, d1, a1)" by (metis prod_cases3)
    obtain p1 d2 a2 where 2: "add_causal_event e e1 (cp_joine1 st, d1, a1) = (p1, d2, a2)" by (metis prod_cases3)
    obtain pc d3 a3 where 3: "add_causal_event e e1 (cp_causal st, d2, a2) = (pc, d3, a3)" by (metis prod_cases3)
    note s = add_causal_seq [OF 1, unfolded iid] add_causal_seq [OF 2, unfolded iid] add_causal_seq [OF 3, unfolded iid]
    show ?thesis
    proof (cases "\<not> a3 \<and> ev_is_write e")
      case False
      hence st': "st' = \<lparr>cp_join = pj, cp_joine1 = p1, cp_causal = pc, cp_delim = d3\<rparr>"
        using step e access 1 2 3 by (auto simp: cp_step_def)
      show ?thesis
        by (rule cps_inv_grow [OF inv]) (use s e2 in \<open>auto simp: st' grows_def cps_seqs_def split: if_splits\<close>)
    next
      case True
      hence same: "pf_seq pj = pf_seq (cp_join st)" "pf_seq p1 = pf_seq (cp_joine1 st)"
        "pf_seq pc = pf_seq (cp_causal st)" "d3 = cp_delim st" "\<not> a3"
        using s by auto
      obtain qj b1 q1 b2 qc b3 where q: "prefix_rf_source c source e (pj, a3) = Inr (qj, b1)"
        "prefix_rf_source c source e (p1, b1) = Inr (q1, b2)" "prefix_rf_source c source e (pc, b2) = Inr (qc, b3)"
        and st': "st' = \<lparr>cp_join = qj, cp_joine1 = q1, cp_causal = qc,
                 cp_delim = if b3 \<and> iid_pid i = iid_pid e1 then i else d3\<rparr>"
        using step e access 1 2 3 True by (auto simp: cp_step_def elim!: bind_r_InrE)
      note t = prefix_rf_seq [OF q(1), unfolded iid] prefix_rf_seq [OF q(2), unfolded iid] prefix_rf_seq [OF q(3), unfolded iid]
      show ?thesis
        by (rule cps_inv_grow [OF inv]) (use t same e2 in \<open>auto simp: st' grows_def cps_seqs_def split: if_splits\<close>)
    qed
  qed
qed

lemma cp_loop_inv:
  assumes "cp_loop c source e1 e2 st is = Inr st'" "ids_ok c source is"
    and "cps_inv e1 e2 D st" "e2 \<notin> set is \<union> set D"
  shows "cps_inv e1 e2 (rev is @ D) st'"
  using assms
proof (induction "is" arbitrary: st D)
  case (Cons i "is")
  obtain st1 where st1: "cp_step c source e1 e2 st i = Inr st1" "cp_loop c source e1 e2 st1 is = Inr st'"
    using Cons.prems(1) by (auto elim: bind_r_InrE)
  have "cps_inv e1 e2 (i # D) st1"
    using cp_step_inv [OF st1(1) _ Cons.prems(3)] Cons.prems(2,4) by (simp add: ids_ok_def)
  thus ?case using Cons.IH [OF st1(2)] Cons.prems(2,4) by (simp add: ids_ok_def)
qed simp

text \<open>Without read-modify-writes and without a source the loop never fails.\<close>

lemma cp_step_ok:
  assumes "\<not> (ev_is_write (get_event c i) \<and> ev_is_rmw (get_event c i))"
  shows "\<exists>st'. cp_step c [] e1 e2 st i = Inr st'"
proof -
  obtain pj d1 a1 where 1: "add_causal_event (get_event c i) e1 (cp_join st, cp_delim st, False) = (pj, d1, a1)"
    by (metis prod_cases3)
  obtain p1 d2 a2 where 2: "add_causal_event (get_event c i) e1 (cp_joine1 st, d1, a1) = (p1, d2, a2)"
    by (metis prod_cases3)
  obtain pc d3 a3 where 3: "add_causal_event (get_event c i) e1 (cp_causal st, d2, a2) = (pc, d3, a3)"
    by (metis prod_cases3)
  show ?thesis
  proof (cases "ev_is_write (get_event c i)")
    case True
    hence "rf_skip c [] (get_event c i) = Inr False" using assms by (simp add: rf_skip_def)
    thus ?thesis
      by (simp add: cp_step_def source_event_def 1 2 3 prefix_rf_source_def split: prod.split)
  qed (simp add: cp_step_def source_event_def 1 2 3)
qed

lemma cp_loop_ok:
  assumes "no_rmw_write c is"
  shows "\<exists>st'. cp_loop c [] e1 e2 st is = Inr st'"
  using assms
proof (induction "is" arbitrary: st)
  case (Cons i "is")
  obtain st1 where "cp_step c [] e1 e2 st i = Inr st1"
    using cp_step_ok [of c i e1 e2 st] Cons.prems by (auto simp: no_rmw_write_def)
  thus ?case using Cons by (simp add: no_rmw_write_def)
qed simp

lemma cp_finish_seqs:
  assumes "cps_inv e1 e2 es st" "e1 \<noteq> e2"
  shows "\<forall>p\<in>set (cps_seqs (cp_finish ev e1 st)). subseq p (e1 # es)"
    and "cp_delim (cp_finish ev e1 st) \<noteq> e1 \<Longrightarrow> cps_seqs (cp_finish ev e1 st) = cps_seqs st"
    and "cp_delim (cp_finish ev e1 st) = e2 \<Longrightarrow>
      \<forall>p\<in>set (cps_seqs (cp_finish ev e1 st)). \<forall>x\<in>set p. iid_pid x \<noteq> iid_pid e1"
proof -
  show "\<forall>p\<in>set (cps_seqs (cp_finish ev e1 st)). subseq p (e1 # es)"
    using assms(1) by (simp add: cps_inv_def cps_seqs_def cp_finish_def cp_add_e1_def list_emb_Cons)
  show s: "cps_seqs (cp_finish ev e1 st) = cps_seqs st" if "cp_delim (cp_finish ev e1 st) \<noteq> e1"
    using that by (auto simp: cps_seqs_def cp_finish_def cp_add_e1_def split: if_splits)
  assume d: "cp_delim (cp_finish ev e1 st) = e2"
  hence "cp_delim st = e2" using assms(2) by (auto simp: cp_finish_def split: if_splits)
  moreover have "cps_seqs (cp_finish ev e1 st) = cps_seqs st" using d s assms(2) by simp
  ultimately show "\<forall>p\<in>set (cps_seqs (cp_finish ev e1 st)). \<forall>x\<in>set p. iid_pid x \<noteq> iid_pid e1"
    using assms(1) by (simp add: cps_inv_def)
qed

text \<open>The causal prefix of \<open>e1\<close> and \<open>e2\<close>, when no event between them is a read-modify-write.\<close>

lemma causal_prefix_sound:
  assumes d: "distinct (e1 # es)" "e2 \<notin> set (e1 # es)" and ids: "ids_ok c [] (e1 # es)"
    and nrw: "no_rmw_write c (e1 # es)"
  shows "case causal_prefix c n [] e1 e2 es of
      Inl e \<Rightarrow> e = Out_of_fuel
    | Inr (delim, r) \<Rightarrow> po_in (e1 # es) r \<and> distinct r \<and> set r \<subseteq> set (e1 # es) \<and>
        (e1 \<in> set r \<longrightarrow> delim = e1) \<and> (delim = e2 \<longrightarrow> (\<forall>x\<in>set r. iid_pid x \<noteq> iid_pid e1))"
proof -
  obtain st0 where st0: "cp_loop c [] e1 e2 (cp_init e2) (rev es) = Inr st0"
    using cp_loop_ok [of c "rev es" e1 e2 "cp_init e2"] nrw by (auto simp: no_rmw_write_def)
  have "cps_inv e1 e2 [] (cp_init e2)"
    by (simp add: cps_inv_def cps_seqs_def cp_init_def pfx_add_thread_def pfx_empty_def)
  hence inv: "cps_inv e1 e2 es st0"
    using cp_loop_inv [OF st0, of "[]"] d(2) ids by (simp add: ids_ok_def)
  define st where "st = cp_finish (get_event c e1) e1 st0"
  let ?j = "pf_seq (cp_join st)" and ?k = "pf_seq (cp_joine1 st)" and ?l = "pf_seq (cp_causal st)"
  have seqs: "cps_seqs st = [?j, ?k, ?l]" by (simp add: cps_seqs_def)
  have e12: "e1 \<noteq> e2" using d(2) by auto
  note fin = cp_finish_seqs [OF inv e12, where ev = "get_event c e1", folded st_def]
  have sub: "subseq ?j (e1 # es)" "subseq ?k (e1 # es)" "subseq ?l (e1 # es)" using fin(1) seqs by simp_all
  have dist: "distinct ?j" "distinct ?k" "distinct ?l" using sub d(1) distinct_subseq by blast+
  have sets: "set ?j \<subseteq> set (e1 # es)" "set ?k \<subseteq> set (e1 # es)" "set ?l \<subseteq> set (e1 # es)"
    using sub subseq_set by blast+
  have n: "no_rmw_write c ?k" "no_rmw_write c ?l" using sets nrw no_rmw_write_subset by blast+
  note po = po_in_subseq [OF sub(1)] po_in_subseq [OF sub(2)] po_in_subseq [OF sub(3)]
  have unfold: "causal_prefix c n [] e1 e2 es =
      bind_r (seq_consistent_merge c n ?j ?k) (\<lambda>(r, _).
        bind_r (seq_consistent_merge c n r ?l) (\<lambda>(r, _). Inr (cp_delim st, r)))"
    by (simp add: causal_prefix_def st0 source_event_def st_def Let_def)
  note safe1 = seq_consistent_merge_cases [OF dist(1,2) po_in_threads_agree [OF d(1) po(1,2)] n(1), of n]
  show ?thesis
  proof (cases "seq_consistent_merge c n ?j ?k")
    case (Inl e)
    thus ?thesis using safe1 by (simp add: unfold)
  next
    case (Inr m1)
    obtain r1 j' k' where m1: "seq_consistent_merge c n ?j ?k = Inr (r1, j', k')" using Inr by (metis prod_cases3)
    note r1 = merge_program_order [OF d(1) dist(1) po(1) dist(2) po(2) n(1) m1]
    note safe2 = seq_consistent_merge_cases [OF r1(2) dist(3) po_in_threads_agree [OF d(1) r1(1) po(3)] n(2), of n]
    show ?thesis
    proof (cases "seq_consistent_merge c n r1 ?l")
      case (Inl e)
      thus ?thesis using safe2 by (simp add: unfold m1)
    next
      case (Inr m2)
      obtain r2 j2 l2 where m2: "seq_consistent_merge c n r1 ?l = Inr (r2, j2, l2)" using Inr by (metis prod_cases3)
      note r2 = merge_program_order [OF d(1) r1(2,1) dist(3) po(3) n(2) m2]
      have set2: "set r2 \<subseteq> set ?j \<union> set ?k \<union> set ?l" using r1(3) r2(3) by blast
      have "cp_delim st = e1" if "e1 \<in> set r2"
      proof (rule ccontr)
        assume "cp_delim st \<noteq> e1"
        hence "cps_seqs st = cps_seqs st0" using fin(2) by simp
        hence "\<forall>p\<in>set (cps_seqs st). set p \<subseteq> set es" using inv subseq_set unfolding cps_inv_def by metis
        thus False using that set2 d(1) seqs by auto
      qed
      moreover have "\<forall>x\<in>set r2. iid_pid x \<noteq> iid_pid e1" if "cp_delim st = e2"
        using fin(3) [OF that] set2 seqs by auto
      ultimately show ?thesis using r2 set2 sets by (auto simp: unfold m1 m2)
    qed
  qed
qed

section \<open>Where \<open>backseq\<close> puts the write\<close>

lemma bq_scan_spec:
  assumes "bq_event st = ev" "bq_loc st \<le> k"
  shows "\<exists>st'. bq_scan c [] d k is st = Inr st' \<and> bq_event st' = ev \<and>
    bq_loc st \<le> bq_loc st' \<and> bq_loc st' \<le> k + length is \<and>
    (\<forall>m<length is. bq_loc st' \<le> k + m \<longrightarrow> ev_is_write (get_event c (is ! m)) \<longrightarrow>
        ev_object (get_event c (is ! m)) = ev_object ev \<longrightarrow> ev_value (get_event c (is ! m)) = ev_value ev) \<and>
    (distinct is \<longrightarrow> (\<forall>m<length is. is ! m = d \<longrightarrow> bq_delim_loc st' = k + m)) \<and>
    (d \<notin> set is \<longrightarrow> bq_delim_loc st' = bq_delim_loc st)"
  using assms
proof (induction "is" arbitrary: k st)
  case (Cons i "is")
  let ?e = "get_event c i"
  define st1 where "st1 = st\<lparr>bq_event := ev, bq_delim_loc := (if i = d then k else bq_delim_loc st)\<rparr>"
  define st2 where "st2 = (if ev_same_object ev ?e
                  then if ev_is_write ?e \<and> ev_value ?e \<noteq> ev_value ev
                       then st1\<lparr>bq_racing := True, bq_loc := k + 1\<rparr>
                       else if ev_is_read ?e \<and> bq_racing st1 then st1\<lparr>bq_loc := k + 1\<rparr>
                       else st1
                  else st1)"
  have step: "bq_scan c [] d k (i # is) st = bq_scan c [] d (k + 1) is st2"
    using Cons.prems(1) by (simp add: bq_lookup_def Let_def st1_def st2_def)
  have st2: "bq_event st2 = ev" "bq_loc st \<le> bq_loc st2" "bq_loc st2 \<le> k + 1"
    "bq_delim_loc st2 = (if i = d then k else bq_delim_loc st)"
    using Cons.prems by (simp_all add: st1_def st2_def)
  have here: "bq_loc st2 \<le> k \<Longrightarrow> ev_is_write ?e \<Longrightarrow> ev_object ?e = ev_object ev \<Longrightarrow> ev_value ?e = ev_value ev"
    by (auto simp: st2_def ev_same_object_iff split: if_splits)
  obtain st' where st': "bq_scan c [] d (k + 1) is st2 = Inr st'" "bq_event st' = ev"
    "bq_loc st2 \<le> bq_loc st'" "bq_loc st' \<le> k + 1 + length is"
    "\<forall>m<length is. bq_loc st' \<le> k + 1 + m \<longrightarrow> ev_is_write (get_event c (is ! m)) \<longrightarrow>
        ev_object (get_event c (is ! m)) = ev_object ev \<longrightarrow> ev_value (get_event c (is ! m)) = ev_value ev"
    "distinct is \<longrightarrow> (\<forall>m<length is. is ! m = d \<longrightarrow> bq_delim_loc st' = k + 1 + m)"
    "d \<notin> set is \<longrightarrow> bq_delim_loc st' = bq_delim_loc st2"
    using Cons.IH [OF st2(1,3)] by blast
  show ?case
  proof (intro exI [of _ st'] conjI)
    show "bq_scan c [] d k (i # is) st = Inr st'" using step st'(1) by simp
    show "\<forall>m<length (i # is). bq_loc st' \<le> k + m \<longrightarrow> ev_is_write (get_event c ((i # is) ! m)) \<longrightarrow>
        ev_object (get_event c ((i # is) ! m)) = ev_object ev \<longrightarrow>
        ev_value (get_event c ((i # is) ! m)) = ev_value ev"
    proof (intro allI impI)
      fix m assume m: "m < length (i # is)" "bq_loc st' \<le> k + m" "ev_is_write (get_event c ((i # is) ! m))"
        "ev_object (get_event c ((i # is) ! m)) = ev_object ev"
      show "ev_value (get_event c ((i # is) ! m)) = ev_value ev"
        using m st'(3,5) here by (cases m) auto
    qed
    show "distinct (i # is) \<longrightarrow> (\<forall>m<length (i # is). (i # is) ! m = d \<longrightarrow> bq_delim_loc st' = k + m)"
    proof (intro impI allI)
      fix m assume m: "distinct (i # is)" "m < length (i # is)" "(i # is) ! m = d"
      show "bq_delim_loc st' = k + m"
        using m st'(6,7) st2(4) by (cases m) auto
    qed
    show "d \<notin> set (i # is) \<longrightarrow> bq_delim_loc st' = bq_delim_loc st" using st'(7) st2(4) by auto
  qed (use st' st2 in auto)
qed simp

lemma bq_scan_source:
  assumes "source \<noteq> []" "\<forall>i\<in>set is. es_find_iid source i < length source"
  shows "\<exists>st'. bq_scan c source d k is st = Inr st' \<and> bq_loc st' = bq_loc st \<and>
    bq_event st' = (if is = [] then bq_event st else source ! es_find_iid source (last is))"
  using assms(2)
proof (induction "is" arbitrary: k st)
  case (Cons i "is")
  have "\<not> ev_is_write ev_default" "\<not> ev_is_read ev_default"
    by (simp_all add: ev_is_write_def ev_is_read_def ev_is_global_def ev_default_def)
  hence step: "bq_scan c source d k (i # is) st = bq_scan c source d (k + 1) is
      (st\<lparr>bq_event := source ! es_find_iid source i, bq_delim_loc := (if i = d then k else bq_delim_loc st)\<rparr>)"
    using assms(1) Cons.prems by (simp add: bq_lookup_def es_deref_def Let_def)
  show ?case unfolding step using Cons.IH Cons.prems by fastforce
qed simp

definition same_value_writes :: "vctx \<Rightarrow> event \<Rightarrow> seq \<Rightarrow> bool" where
  "same_value_writes c ev B =
     (\<forall>x\<in>set B. ev_is_write (get_event c x) \<longrightarrow> ev_object (get_event c x) = ev_object ev \<longrightarrow>
        ev_value (get_event c x) = ev_value ev)"

lemma bq_place_write:
  assumes w: "ev_is_write ev" "\<not> ev_is_rmw ev" and cp: "distinct cp" "e1 \<in> set cp \<longrightarrow> delim = e1" "e1 \<noteq> e2"
  shows "\<exists>r. bq_place c [] delim e1 e2 ev (cp @ [e2]) = Inr r \<and>
    (e1 \<in> set r \<longrightarrow> (\<exists>A B. r = A @ e1 # B @ [e2] \<and> same_value_writes c ev B \<and>
        filter (\<lambda>x. x \<noteq> e1) cp = A @ B)) \<and>
    (e1 \<notin> set r \<longrightarrow> r = [] \<or> r = cp @ [e2])"
proof -
  let ?st = "\<lparr>bq_event = ev, bq_loc = 0, bq_delim_loc = length (cp @ [e2]), bq_racing = False\<rparr>"
  obtain st' where st': "bq_scan c [] delim 0 cp ?st = Inr st'" "bq_event st' = ev" "bq_loc st' \<le> length cp"
    "\<forall>m<length cp. bq_loc st' \<le> m \<longrightarrow> ev_is_write (get_event c (cp ! m)) \<longrightarrow>
        ev_object (get_event c (cp ! m)) = ev_object ev \<longrightarrow> ev_value (get_event c (cp ! m)) = ev_value ev"
    "\<forall>m<length cp. cp ! m = delim \<longrightarrow> bq_delim_loc st' = m"
    using bq_scan_spec [of ?st ev 0 c delim cp] cp(1) by auto
  let ?r = "if bq_delim_loc st' < bq_loc st' then []
    else if delim \<noteq> e1 then insert_at (bq_loc st') e1 (cp @ [e2]) else cp @ [e2]"
  have place: "bq_place c [] delim e1 e2 ev (cp @ [e2]) = Inr ?r"
    using w st'(1,2) by (simp add: bq_place_def Let_def)
  have split: "\<exists>A B. ?r = A @ e1 # B @ [e2] \<and> same_value_writes c ev B \<and> filter (\<lambda>x. x \<noteq> e1) cp = A @ B"
    if in_r: "e1 \<in> set ?r"
  proof (cases "delim = e1")
    case False
    let ?l = "bq_loc st'"
    have "filter (\<lambda>x. x \<noteq> e1) cp = take ?l cp @ drop ?l cp" using False cp(2) by (auto simp: filter_id_conv)
    moreover have "same_value_writes c ev (drop ?l cp)"
      using st'(4) by (auto simp: same_value_writes_def in_set_conv_nth)
    moreover have "?r = take ?l cp @ e1 # drop ?l cp @ [e2]"
      using False in_r st'(3) by (auto simp: insert_at_def)
    ultimately show ?thesis by blast
  next
    case True
    hence "e1 \<in> set cp" using in_r cp(3) by (auto split: if_splits)
    then obtain m where m: "m < length cp" "cp ! m = e1" by (auto simp: in_set_conv_nth)
    have loc: "bq_loc st' \<le> m" using in_r st'(5) m True by (auto split: if_splits)
    have eq: "cp = take m cp @ e1 # drop (Suc m) cp" using id_take_nth_drop [OF m(1)] m(2) by metis
    have "same_value_writes c ev (drop (Suc m) cp)"
      using st'(4) loc by (fastforce simp: same_value_writes_def in_set_conv_nth)
    moreover have "filter (\<lambda>x. x \<noteq> e1) cp = take m cp @ drop (Suc m) cp"
    proof -
      have "e1 \<notin> set (take m cp)" "e1 \<notin> set (drop (Suc m) cp)"
        using cp(1) eq by (metis distinct_append distinct.simps(2) not_distinct_conv_prefix disjoint_iff list.set_intros(1))+
      hence "\<forall>x\<in>set (take m cp). x \<noteq> e1" "\<forall>x\<in>set (drop (Suc m) cp). x \<noteq> e1" by blast+
      hence "filter (\<lambda>x. x \<noteq> e1) (take m cp @ e1 # drop (Suc m) cp) = take m cp @ drop (Suc m) cp"
        by (simp only: filter_append filter_True) simp
      thus ?thesis using eq by metis
    qed
    moreover have "?r = take m cp @ e1 # drop (Suc m) cp @ [e2]"
    proof -
      have "?r = cp @ [e2]" using in_r True by (auto split: if_splits)
      thus ?thesis using eq by (metis append_Cons append_assoc)
    qed
    ultimately show ?thesis by blast
  qed
  have "?r = [] \<or> ?r = cp @ [e2]" if "e1 \<notin> set ?r"
    using that by (auto simp: insert_at_def split: if_splits)
  with place split show ?thesis by blast
qed

text \<open>What \<open>backseq\<close> is called with: \<open>e1\<close> in the sequence and before \<open>e2\<close>, which may be still to come.\<close>

definition backseq_ok :: "vctx \<Rightarrow> seq \<Rightarrow> int iid \<Rightarrow> int iid \<Rightarrow> bool" where
  "backseq_ok c s e1 e2 =
     (distinct s \<and> seq_index_of s e1 < seq_index_of s e2 \<and>
      (\<forall>i\<in>set (e2 # s). ev_iid (get_event c i) = i) \<and> no_rmw_write c (e2 # s))"

definition between :: "seq \<Rightarrow> int iid \<Rightarrow> int iid \<Rightarrow> seq" where
  "between s e1 e2 = drop (seq_index_of s e1 + 1) (take (seq_index_of s e2) s)"

lemma take_index_of: "e \<notin> set (take (seq_index_of s e) s)"
proof -
  have "take (seq_index_of s e) s = takeWhile (\<lambda>x. x \<noteq> e) s"
    unfolding seq_index_of_def by (rule takeWhile_eq_take [symmetric])
  thus ?thesis using set_takeWhileD by fastforce
qed

lemma backseq_okD:
  assumes "backseq_ok c s e1 e2"
  shows "e1 \<in> set s" "e1 \<noteq> e2" "distinct (e1 # between s e1 e2)" "e2 \<notin> set (e1 # between s e1 e2)"
    "ids_ok c [] (e1 # between s e1 e2)" "no_rmw_write c (e1 # between s e1 e2)"
    "subseq (e1 # between s e1 e2) (take (seq_index_of s e2) s)" "set (between s e1 e2) \<subseteq> set s"
proof -
  let ?k = "seq_index_of s e1" and ?t = "take (seq_index_of s e2) s"
  have k: "?k < seq_index_of s e2" and d: "distinct s" using assms by (simp_all add: backseq_ok_def)
  hence len: "?k < length s" using seq_index_of_le [of s e2] by simp
  show e1: "e1 \<in> set s" using len seq_index_of_less_iff by blast
  show "e1 \<noteq> e2" using k by auto
  have "?t ! ?k = e1" using k seq_index_of_nth [OF e1] by simp
  hence b: "e1 # between s e1 e2 = drop ?k ?t"
    using k len by (simp add: between_def Cons_nth_drop_Suc [symmetric])
  show "distinct (e1 # between s e1 e2)" using d by (simp only: b distinct_drop distinct_take)
  show "e2 \<notin> set (e1 # between s e1 e2)" using take_index_of [of e2 s] in_set_dropD unfolding b by metis
  show sub: "subseq (e1 # between s e1 e2) ?t"
    unfolding b by (meson suffix_imp_subseq suffix_drop)
  show "set (between s e1 e2) \<subseteq> set s" using subseq_set [OF sub] set_take_subset [of _ s] by fastforce
  thus "ids_ok c [] (e1 # between s e1 e2)" "no_rmw_write c (e1 # between s e1 e2)"
    using assms e1 by (auto simp: backseq_ok_def ids_ok_def source_event_def no_rmw_write_def)
qed

lemma seq_backseq_eq:
  assumes "backseq_ok c s e1 e2" "dbg \<longrightarrow> e2 \<in> set s"
  shows "seq_backseq dbg c n s e1 e2 =
    bind_r (causal_prefix c n [] e1 e2 (between s e1 e2)) (\<lambda>(delim, cp).
      bq_place c [] delim e1 e2 (get_event c e1) (cp @ [e2]))"
proof -
  have "\<not> seq_index_of s e2 < seq_index_of s e1 + 1" using assms(1) by (simp add: backseq_ok_def)
  thus ?thesis
    using assms backseq_okD(1) [OF assms(1)]
    by (simp add: seq_backseq_def seq_backseq_source_def between_def source_event_def seq_has_iff Let_def)
qed

lemma seq_backseq_asserts:
  assumes "seq_backseq dbg c n s e1 e2 = Inr r"
  shows "dbg \<longrightarrow> e2 \<in> set s"
  using assms by (auto simp: seq_backseq_def seq_backseq_source_def seq_has_iff assert_r_eq_Inr)

lemma seq_backseq_cases:
  assumes ok: "backseq_ok c s e1 e2" and dbg: "dbg \<longrightarrow> e2 \<in> set s"
  shows "case seq_backseq dbg c n s e1 e2 of
      Inl e \<Rightarrow> e = Out_of_fuel
    | Inr r \<Rightarrow> r = [] \<or> (\<exists>cp. po_in (e1 # between s e1 e2) cp \<and> distinct cp \<and> set cp \<subseteq> set (e1 # between s e1 e2) \<and>
        (if ev_is_write (get_event c e1)
         then e1 \<notin> set r \<and> r = cp @ [e2] \<or>
           (\<exists>A B. r = A @ e1 # B @ [e2] \<and> same_value_writes c (get_event c e1) B \<and>
              filter (\<lambda>x. x \<noteq> e1) cp = A @ B)
         else r = cp @ [e2, e1] \<and> (\<forall>x\<in>set cp. iid_pid x \<noteq> iid_pid e1)))"
proof -
  let ?es = "between s e1 e2" and ?ev = "get_event c e1"
  note D = backseq_okD [OF ok]
  note cps = causal_prefix_sound [OF D(3,4,5,6), of n]
  note eq = seq_backseq_eq [OF ok dbg, of n]
  show ?thesis
  proof (cases "causal_prefix c n [] e1 e2 ?es")
    case (Inl e)
    thus ?thesis using cps by (simp add: eq)
  next
    case (Inr dc)
    obtain delim cp where dc: "dc = (delim, cp)" by fastforce
    have cp: "po_in (e1 # ?es) cp" "distinct cp" "set cp \<subseteq> set (e1 # ?es)" "e1 \<in> set cp \<longrightarrow> delim = e1"
      "delim = e2 \<longrightarrow> (\<forall>x\<in>set cp. iid_pid x \<noteq> iid_pid e1)"
      using cps Inr dc by simp_all
    have run: "seq_backseq dbg c n s e1 e2 = bq_place c [] delim e1 e2 ?ev (cp @ [e2])"
      using eq Inr dc by simp
    show ?thesis
    proof (cases "ev_is_write ?ev")
      case True
      hence "\<not> ev_is_rmw ?ev" using D(6) by (simp add: no_rmw_write_def)
      from bq_place_write [OF True this cp(2,4) D(2), where c = c] obtain r where
        "bq_place c [] delim e1 e2 ?ev (cp @ [e2]) = Inr r"
        "e1 \<in> set r \<longrightarrow> (\<exists>A B. r = A @ e1 # B @ [e2] \<and> same_value_writes c ?ev B \<and>
        filter (\<lambda>x. x \<noteq> e1) cp = A @ B)" "e1 \<notin> set r \<longrightarrow> r = [] \<or> r = cp @ [e2]" by blast
      thus ?thesis using run cp True by auto
    next
      case False
      thus ?thesis using run cp by (auto simp: bq_place_def)
    qed
  qed
qed

lemma before_here:
  assumes "distinct (A @ a # C)"
  shows "before (A @ a # C) a x \<longleftrightarrow> x \<in> set C"
  using assms before_in_set [of A a x] before_in_set [of C a x] unfolding before_append before_Cons by auto

lemma before_between:
  assumes "distinct (A @ a # B @ [b])" "before (A @ a # B @ [b]) a x" "before (A @ a # B @ [b]) x b"
  shows "x \<in> set B"
proof -
  have "x \<in> set (B @ [b])" using assms(2) before_here [OF assms(1)] by blast
  moreover have "x \<noteq> b" using before_asym [OF assms(1)] assms(3) by metis
  ultimately show ?thesis by simp
qed

section \<open>Properties\<close>

text \<open>A result that has the write.\<close>

lemma backseq_view:
  assumes "backseq_ok c s e1 e2" "ev_RWpair (get_event c e1) (get_event c e2)"
    and "seq_backseq dbg c n s e1 e2 = Inr r" "e1 \<in> set r"
    and "(w, rd) = (if ev_is_write (get_event c e1) then (e1, e2) else (e2, e1))"
  shows "before r w rd \<and>
    (\<forall>k<length r. r ! k = rd \<longrightarrow> ev_value (to_event_sequence c mem r ! k) = ev_value (get_event c w))"
proof -
  note D = backseq_okD [OF assms(1)]
  have rw: "ev_object (get_event c w) = ev_object (get_event c rd)" "ev_is_write (get_event c w)" "ev_is_read (get_event c rd)"
    using assms(2,5) ev_read_not_write by (auto simp: ev_RWpair_iff split: if_splits)
  have ne: "r \<noteq> []" using assms(4) by auto
  then obtain cp where cp: "distinct cp" "set cp \<subseteq> set (e1 # between s e1 e2)"
    "if ev_is_write (get_event c e1)
         then e1 \<notin> set r \<and> r = cp @ [e2] \<or>
           (\<exists>A B. r = A @ e1 # B @ [e2] \<and> same_value_writes c (get_event c e1) B \<and>
              filter (\<lambda>x. x \<noteq> e1) cp = A @ B)
         else r = cp @ [e2, e1] \<and> (\<forall>x\<in>set cp. iid_pid x \<noteq> iid_pid e1)"
    using seq_backseq_cases [OF assms(1) seq_backseq_asserts [OF assms(3)], of n, unfolded assms(3) sum.case] by blast
  have R: "distinct r \<and> set r \<subseteq> insert e2 (set s) \<and> before r w rd \<and>
    (\<forall>x. before r w x \<longrightarrow> before r x rd \<longrightarrow> ev_is_write (get_event c x) \<longrightarrow>
       ev_object (get_event c x) = ev_object (get_event c w) \<longrightarrow> ev_value (get_event c x) = ev_value (get_event c w))"
  proof (cases "ev_is_write (get_event c e1)")
    case True
    then obtain A B where r: "r = A @ e1 # B @ [e2]" "same_value_writes c (get_event c e1) B"
      "filter (\<lambda>x. x \<noteq> e1) cp = A @ B" using cp(3) assms(4) by auto
    have wrd: "w = e1" "rd = e2" using assms(5) True by simp_all
    have setAB: "set (A @ B) = {x \<in> set cp. x \<noteq> e1}" using arg_cong [OF r(3), of set] by simp
    have AB: "set A \<union> set B \<subseteq> set (between s e1 e2)" "e1 \<notin> set (A @ B)"
      using setAB cp(2) by auto
    have "distinct (A @ B)" using distinct_filter [OF cp(1), of "\<lambda>x. x \<noteq> e1"] r(3) by metis
    hence dr: "distinct r" using AB D(2,4) by (auto simp: r(1))
    have "x \<in> set B" if "before r e1 x" "before r x e2" for x
      using before_between [of A e1 B e2 x] that dr unfolding r(1) by blast
    moreover have "set r \<subseteq> insert e2 (set s)" using AB(1) D(1,8) unfolding r(1) by auto
    moreover have "before r e1 e2" using before_here [of A e1 "B @ [e2]" e2] dr r(1) by simp
    ultimately show ?thesis using dr r(2) unfolding wrd same_value_writes_def by blast
  next
    case False
    hence r: "r = cp @ [e2, e1]" "\<forall>x\<in>set cp. iid_pid x \<noteq> iid_pid e1" using cp(3) by simp_all
    have wrd: "w = e2" "rd = e1" using assms(5) False by simp_all
    have dr: "distinct r" using r cp(1,2) D(2,4) by auto
    have "\<not> (before r e2 x \<and> before r x e1)" for x
      using before_between [of cp e2 "[]" e1 x] dr unfolding r(1) by auto
    moreover have "set r \<subseteq> insert e2 (set s)" using cp(2) D(1,8) unfolding r(1) by auto
    moreover have "before r e2 e1" using before_here [of cp e2 "[e1]" e1] dr r(1) by simp
    ultimately show ?thesis using dr unfolding wrd by blast
  qed
  have nrw: "no_rmw_write c r"
    using R assms(1) unfolding backseq_ok_def no_rmw_write_def by auto
  show ?thesis
  proof (intro conjI allI impI)
    show "before r w rd" using R by blast
    fix k assume k: "k < length r" "r ! k = rd"
    obtain x where x: "rf_source c r rd = Some x"
      using rf_source_NoneD [of c r rd w] R rw by (cases "rf_source c r rd") auto
    note xD = rf_source_SomeD [OF x]
    have "ev_value (get_event c x) = ev_value (get_event c w)"
    proof (cases "x = w")
      case False
      hence "before r w x" using rf_source_latest [OF x, of w] R rw by metis
      thus ?thesis using R xD rw(1) by metis
    qed simp
    thus "ev_value (to_event_sequence c mem r ! k) = ev_value (get_event c w)"
      using source_value [OF _ nrw k(1)] R rw(3) x k(2) by simp
  qed
qed

lemma ex_backseq_ok: "backseq_ok ex_ctx [IID 0 0, IID 1 0] (IID 0 0) (IID 2 0)"
  by (simp add: backseq_ok_def seq_index_of_def no_rmw_write_def)

lemma ex_backseq: "seq_backseq False ex_ctx 1 [IID 0 0, IID 1 0] (IID 0 0) (IID 2 0) = Inr [IID 0 0, IID 2 0]"
  by code_simp



lemma backseq_write_shape:
  assumes "e1 \<notin> set r \<and> r = cp @ [e2] \<or>
    (\<exists>A B. r = A @ e1 # B @ [e2] \<and> same_value_writes c ev B \<and> filter (\<lambda>x. x \<noteq> e1) cp = A @ B)"
    and "distinct (cp @ [e2])" "e1 \<noteq> e2"
  shows "filter (\<lambda>x. x \<noteq> e1) r = filter (\<lambda>x. x \<noteq> e1) (cp @ [e2]) \<and> distinct r \<and> set r \<subseteq> insert e1 (set (cp @ [e2]))"
proof (cases "e1 \<in> set r")
  case True
  then obtain A B where r: "r = A @ e1 # B @ [e2]" "filter (\<lambda>x. x \<noteq> e1) cp = A @ B" using assms(1) by blast
  have setAB: "set (A @ B) = {x \<in> set cp. x \<noteq> e1}" using arg_cong [OF r(2), of set] by simp
  have "distinct (A @ B)" using distinct_filter [of cp "\<lambda>x. x \<noteq> e1"] assms(2) r(2) by (metis distinct_append)
  moreover have "filter (\<lambda>x. x \<noteq> e1) A = A" "filter (\<lambda>x. x \<noteq> e1) B = B"
    using setAB by (auto simp: filter_id_conv)
  ultimately show ?thesis using setAB assms(2,3) r by auto
qed (use assms in auto)



text \<open>with a source sequence, as \<open>prefix_analysis\<close> calls it, \<open>backseq\<close> puts a write that the causal
  prefix lacks in front of everything, whatever conflicting writes the prefix has: the loop that
  should find its place assigns the wrong variable and compares with an empty event.\<close>

theorem backseq_source_puts_first:
  assumes "source \<noteq> []" "\<forall>i\<in>set cp. es_find_iid source i < length source"
    and "\<forall>i\<in>set cp. \<not> ev_is_rmw (source ! es_find_iid source i)"
    and "ev_is_write ev" "\<not> ev_is_rmw ev" "delim \<noteq> e1"
  shows "bq_place c source delim e1 e2 ev (cp @ [e2]) = Inr (e1 # cp @ [e2])"
proof -
  let ?st = "\<lparr>bq_event = ev, bq_loc = 0, bq_delim_loc = length (cp @ [e2]), bq_racing = False\<rparr>"
  obtain st' where st': "bq_scan c source delim 0 cp ?st = Inr st'" "bq_loc st' = bq_loc ?st"
    "bq_event st' = (if cp = [] then bq_event ?st else source ! es_find_iid source (last cp))"
    using bq_scan_source [OF assms(1,2), of c delim 0 ?st] by blast
  have "\<not> ev_is_rmw (bq_event st')" using st'(3) assms(3,5) by simp
  thus ?thesis using assms(4,6) st'(1,2) by (simp add: bq_place_def insert_at_def Let_def)
qed

theorem backseq_source_puts_first_witness:
  "bq_place ex_ctx [ex_access T_WRITE 0 0 1, ex_access T_WRITE 1 0 2, ex_access T_READ 2 0 1] (IID 2 0)
     (IID 0 0) (IID 2 0) (ex_access T_WRITE 0 0 1) [IID 1 0, IID 2 0] =
   Inr [IID 0 0, IID 1 0, IID 2 0]"
  using backseq_source_puts_first
    [of "[ex_access T_WRITE 0 0 1, ex_access T_WRITE 1 0 2, ex_access T_READ 2 0 1]" "[IID 1 0]"
        "ex_access T_WRITE 0 0 1" "IID 2 0" "IID 0 0" ex_ctx "IID 2 0"]
  by (simp add: es_find_iid_def)

end
