(* ===== verification/ViewLead.thy ===== *)
theory ViewLead
  imports Prelude SopFormula ViewBackseq
begin

text \<open>
  Leads (\<open>ViewEqTraceBuilder::Lead\<close>): sequences still to be explored with the (read, value) pairs
  they must not show, their comparison up to view adjustment, and the leads of one state of the
  exploration (\<open>ViewEqTraceBuilder::State\<close>). Where the code merges or compares sequences the
  functions take the fuel of those loops.
\<close>

section \<open>Leads\<close>

record lead =
  ld_constraint :: seq
  ld_start :: seq
  ld_forbidden :: sop_formula
  ld_merged :: eseq
  ld_done :: bool
  ld_pending :: bool
  ld_pending_write :: "int iid"

definition lead_empty :: lead where
  "lead_empty = \<lparr>ld_constraint = [], ld_start = [], ld_forbidden = sop_false, ld_merged = [], ld_done = False,
                 ld_pending = False, ld_pending_write = iid_null\<rparr>"

text \<open>\<open>Lead(l, f)\<close> copies neither \<open>is_done\<close> nor the pending write.\<close>

definition lead_copy :: "lead \<Rightarrow> sop_formula \<Rightarrow> lead" where
  "lead_copy l f = lead_empty\<lparr>ld_constraint := ld_constraint l, ld_start := ld_start l, ld_forbidden := f,
                              ld_merged := ld_merged l\<rparr>"

text \<open>\<open>add_rmw_write()\<close>\<close>

definition lead_add_pending :: "vctx \<Rightarrow> lead \<Rightarrow> lead result" where
  "lead_add_pending c l =
     (if \<not> ld_pending l then Inr l
      else bind_r (iid_make (iid_pid (ld_pending_write l)) (int (iid_idx (ld_pending_write l)) - 1)) (\<lambda>r.
             bind_r (es_add_rmw_write c (ld_merged l) r (ld_pending_write l)) (\<lambda>m. Inr (l\<lparr>ld_merged := m\<rparr>))))"

text \<open>\<open>consistent_merge\<close> adjusts both operands, here the members of the new lead.\<close>

definition lead_make :: "vctx \<Rightarrow> nat \<Rightarrow> eseq \<Rightarrow> seq \<Rightarrow> sop_formula \<Rightarrow> mem \<Rightarrow> lead result" where
  "lead_make c n es s f m =
     bind_r (seq_consistent_merge c n s (es_to_iid_sequence es)) (\<lambda>(r, start, constr).
       bind_r (to_event_sequence_source c es m r) (\<lambda>merged.
         lead_add_pending c (lead_empty\<lparr>ld_constraint := constr, ld_start := start, ld_forbidden := f,
                                        ld_merged := merged\<rparr>)))"

definition lead_of_seq :: "vctx \<Rightarrow> seq \<Rightarrow> sop_formula \<Rightarrow> mem \<Rightarrow> lead result" where
  "lead_of_seq c s f m =
     lead_add_pending c (lead_empty\<lparr>ld_start := s, ld_forbidden := f, ld_merged := to_event_sequence c m s\<rparr>)"

definition lead_of_events :: "vctx \<Rightarrow> eseq \<Rightarrow> sop_formula \<Rightarrow> lead result" where
  "lead_of_events c es f =
     lead_add_pending c (lead_empty\<lparr>ld_start := es_to_iid_sequence es, ld_forbidden := f, ld_merged := es\<rparr>)"

definition lead_add_rmw_write :: "vctx \<Rightarrow> lead \<Rightarrow> int iid \<Rightarrow> int iid \<Rightarrow> lead result" where
  "lead_add_rmw_write c l r w =
     (if es_has_iid (ld_merged l) w then Inr l
      else if \<not> es_has_iid (ld_merged l) r then Inr l
      else bind_r (es_add_rmw_write c (ld_merged l) r w) (\<lambda>m.
             Inr (l\<lparr>ld_start := seq_add_rmw_write (ld_start l) r w,
                    ld_constraint := (if ld_constraint l \<noteq> [] then seq_add_rmw_write (ld_constraint l) r w
                                      else ld_constraint l),
                    ld_merged := m\<rparr>)))"

definition lead_update_pending :: "vctx \<Rightarrow> lead \<Rightarrow> int iid \<Rightarrow> lead result" where
  "lead_update_pending c l w =
     bind_r (iid_make (iid_pid w) (int (iid_idx w) - 1)) (\<lambda>r.
       if es_has_iid (ld_merged l) w then Inr l
       else if \<not> es_has_iid (ld_merged l) r then Inr l
       else bind_r (es_add_rmw_write c (ld_merged l) r w) (\<lambda>m.
              Inr (l\<lparr>ld_pending := True, ld_pending_write := w, ld_merged := m\<rparr>)))"

section \<open>Comparison of leads\<close>

text \<open>
  The common loops: the events of one lead are taken out of the other's, comparing the values of
  reads and recording writes; then the rest is compared with what was recorded. \<open>None\<close> is the
  early \<open>return false\<close>; \<open>strict\<close> rejects an event that the other lead lacks.
\<close>

fun va_take_out :: "bool \<Rightarrow> eseq \<Rightarrow> eseq \<Rightarrow> mem \<Rightarrow> (eseq \<times> mem) option result" where
  "va_take_out strict [] sfx mm = Inr (Some (sfx, mm))"
| "va_take_out strict (e # es) sfx mm =
     (let k = es_find_iid sfx (ev_iid e);
          mm' = (if ev_is_write e then AList.update (ev_object e) (ev_value e) mm else mm) in
      if k = length sfx
      then if strict then Inr None else va_take_out strict es sfx mm'
      else if ev_is_read e \<and> ev_value (sfx ! k) \<noteq> ev_value e then Inr None
      else bind_r (es_erase_iid sfx (ev_iid (sfx ! k))) (\<lambda>sfx'. va_take_out strict es sfx' mm'))"

fun va_check_suffix :: "eseq \<Rightarrow> mem \<Rightarrow> bool" where
  "va_check_suffix [] mm = True"
| "va_check_suffix (e # es) mm =
     (if ev_is_read e
      then (case map_of mm (ev_object e) of
              Some v \<Rightarrow> if v \<noteq> ev_value e then False else va_check_suffix es mm
            | None \<Rightarrow> va_check_suffix es mm)
      else va_check_suffix es (AList.update (ev_object e) (ev_value e) mm))"

definition VA_isprefix :: "lead \<Rightarrow> lead \<Rightarrow> bool result" where
  "VA_isprefix this l =
     bind_r (seq_isprefix (es_to_iid_sequence (ld_merged this)) (es_to_iid_sequence (ld_merged l))) (\<lambda>p.
       if p then Inr True
       else bind_r (va_take_out True (ld_merged this) (ld_merged l) []) (\<lambda>r.
              case r of None \<Rightarrow> Inr False | Some (sfx, mm) \<Rightarrow> Inr (va_check_suffix sfx mm)))"

definition VA_isweakly_prefix :: "lead \<Rightarrow> lead \<Rightarrow> bool result" where
  "VA_isweakly_prefix this l =
     bind_r (va_take_out False (ld_merged this) (ld_merged l) []) (\<lambda>r.
       case r of None \<Rightarrow> Inr False | Some (sfx, mm) \<Rightarrow> Inr (va_check_suffix sfx mm))"

definition VA_isweakly_equivalent :: "lead \<Rightarrow> lead \<Rightarrow> bool result" where
  "VA_isweakly_equivalent this l =
     bind_r (VA_isweakly_prefix this l) (\<lambda>a. if \<not> a then Inr False else VA_isweakly_prefix l this)"

definition rv_maps_agree :: "(int iid \<times> int) list \<Rightarrow> (int iid \<times> int) list \<Rightarrow> bool" where
  "rv_maps_agree m l =
     (if length m \<noteq> length l then False
      else list_all (\<lambda>(i, v). map_of l i = Some v) m)"

definition VA_equivalent :: "nat \<Rightarrow> lead \<Rightarrow> lead \<Rightarrow> bool result" where
  "VA_equivalent n this l =
     (if es_to_iid_sequence (ld_merged this) = es_to_iid_sequence (ld_merged l) then Inr True
      else bind_r (es_VA_equal n (ld_merged this) (ld_merged l)) (\<lambda>b.
             if b then Inr True
             else Inr (rv_maps_agree (es_read_value_map (ld_merged this)) (es_read_value_map (ld_merged l)))))"

fun es_erase_all :: "eseq \<Rightarrow> eseq \<Rightarrow> eseq result" where
  "es_erase_all s [] = Inr s"
| "es_erase_all s (e # es) = bind_r (es_erase_iid s (ev_iid e)) (\<lambda>s'. es_erase_all s' es)"

definition VA_suffix :: "lead \<Rightarrow> lead \<Rightarrow> seq result" where
  "VA_suffix this pre =
     bind_r (VA_isprefix pre this) (\<lambda>p. assert_r p
       (bind_r (es_erase_all (ld_merged this) (ld_merged pre)) (\<lambda>sfx.
          bind_r (if ld_pending this \<and> es_has_iid sfx (ld_pending_write this)
                  then es_erase_iid sfx (ld_pending_write this) else Inr sfx) (\<lambda>sfx.
            Inr (es_to_iid_sequence sfx)))))"

text \<open>\<open>VA_weak_prefix\<close> builds the common prefix and returns its argument.\<close>

definition VA_weak_prefix :: "lead \<Rightarrow> lead \<Rightarrow> lead result" where
  "VA_weak_prefix this l =
     bind_r (es_erase_all (ld_merged this)
               (filter (\<lambda>e. \<not> es_has_iid (ld_merged l) (ev_iid e)) (ld_merged this))) (\<lambda>pre.
       bind_r (sop_and (ld_forbidden this) (ld_forbidden l)) (\<lambda>f. Inr l))"

definition lead_eq :: "lead \<Rightarrow> lead \<Rightarrow> bool" where
  "lead_eq a b =
     (if ld_constraint a \<noteq> ld_constraint b then False
      else if ld_start a \<noteq> ld_start b then False
      else True)"

definition lead_to_string :: "lead \<Rightarrow> string result" where
  "lead_to_string l =
     bind_r (sop_to_string (ld_forbidden l)) (\<lambda>f.
       Inr (''('' @ seq_to_string (ld_constraint l) @ '', '' @ seq_to_string (ld_start l) @ '', '' @ f @
            '') = '' @ es_to_string (ld_merged l)))"

section \<open>Duplicates\<close>

fun rdl_inner :: "nat \<Rightarrow> lead \<Rightarrow> lead list \<Rightarrow> lead list result" where
  "rdl_inner n it [] = Inr []"
| "rdl_inner n it (it2 # L) =
     (if es_eq (ld_merged it) (ld_merged it2) then rdl_inner n it L
      else bind_r (VA_equivalent n it it2) (\<lambda>b.
             if b then rdl_inner n it L else bind_r (rdl_inner n it L) (\<lambda>L'. Inr (it2 # L'))))"

lemma rdl_inner_length: "rdl_inner n it L = Inr L' \<Longrightarrow> length L' \<le> length L"
  by (induction L arbitrary: L') (auto simp: le_SucI split: if_splits elim!: bind_r_InrE)

function remove_duplicate_leads :: "nat \<Rightarrow> lead list \<Rightarrow> lead list result" where
  "remove_duplicate_leads n [] = Inr []"
| "remove_duplicate_leads n (it # L) =
     bind_r (rdl_inner n it L) (\<lambda>L'. bind_r (remove_duplicate_leads n L') (\<lambda>L''. Inr (it # L'')))"
  by pat_completeness auto
termination
  by (relation "measure (\<lambda>(n, L). length L)") (auto simp: less_Suc_eq_le rdl_inner_length)

section \<open>States\<close>

record vstate =
  st_prefix :: int
  st_leads :: "lead list"
  st_forbidden :: sop_formula
  st_alpha :: int
  st_lead_head :: int
  st_executing_alpha :: bool
  st_fwd :: bool
  st_fwd_read :: "int iid"
  st_ei_leads :: "(int \<times> lead list) list"
  st_mem :: mem

definition st_make :: "int \<Rightarrow> vstate" where
  "st_make idx = \<lparr>st_prefix = idx, st_leads = [], st_forbidden = sop_false, st_alpha = - 1, st_lead_head = - 1,
     st_executing_alpha = False, st_fwd = False, st_fwd_read = iid_null, st_ei_leads = [], st_mem = []\<rparr>"

definition st_has_unexplored_leads :: "vstate \<Rightarrow> bool" where
  "st_has_unexplored_leads st = list_ex (\<lambda>l. \<not> ld_done l) (st_leads st)"

definition st_unexplored_leads :: "vstate \<Rightarrow> lead list" where
  "st_unexplored_leads st = filter (\<lambda>l. \<not> ld_done l) (st_leads st)"

text \<open>The loop of \<open>next_unexplored_lead\<close> from index \<open>i\<close> on.\<close>

fun next_lead_from :: "vstate \<Rightarrow> nat \<Rightarrow> lead list \<Rightarrow> (lead \<times> vstate) result" where
  "next_lead_from st i [] = Inl Assert_failed"
| "next_lead_from st i (l # L) =
     (if \<not> ld_done l
      then let l' = l\<lparr>ld_done := True\<rparr>;
               fwd = (if st_fwd st \<and> \<not> es_has_iid (ld_merged l') (st_fwd_read st) then False else st_fwd st)
           in Inr (l', st\<lparr>st_leads := (st_leads st)[i := l'], st_alpha := int i, st_fwd := fwd\<rparr>)
      else next_lead_from st (i + 1) L)"

definition st_next_unexplored_lead :: "vstate \<Rightarrow> (lead \<times> vstate) result" where
  "st_next_unexplored_lead st = assert_r (st_has_unexplored_leads st) (next_lead_from st 0 (st_leads st))"

definition st_alpha_empty :: "vstate \<Rightarrow> bool" where
  "st_alpha_empty st = (st_alpha st = - 1)"

definition st_alpha_lead :: "vstate \<Rightarrow> lead result" where
  "st_alpha_lead st =
     (if 0 \<le> st_alpha st \<and> nat (st_alpha st) < length (st_leads st) then Inr (st_leads st ! nat (st_alpha st))
      else Inl Out_of_range)"

definition st_alpha_sequence :: "vstate \<Rightarrow> eseq result" where
  "st_alpha_sequence st =
     (if st_alpha st = - 1 then Inr [] else bind_r (st_alpha_lead st) (\<lambda>l. Inr (ld_merged l)))"

fun print_leads_loop :: "lead list \<Rightarrow> string result" where
  "print_leads_loop [] = Inr []"
| "print_leads_loop (l # L) =
     bind_r (lead_to_string l) (\<lambda>s. bind_r (print_leads_loop L) (\<lambda>t. Inr (s @ '','' @ [CHR 10] @ t)))"

definition st_print_leads :: "vstate \<Rightarrow> string result" where
  "st_print_leads st =
     bind_r (print_leads_loop (st_leads st)) (\<lambda>s.
       Inr (''State['' @ dec_int (st_prefix st) @ ''] leads:'' @ [CHR 10] @ s))"

section \<open>Prefix analysis\<close>

text \<open>
  One pair of events of \<open>l1\<close>, \<open>it\<close> behind \<open>it2\<close>; \<open>f\<close> is the formula so far, \<open>sfx\<close> the events of \<open>l2\<close>
  that \<open>l1\<close> lacks. The statement \<open>f || ...\<close> extends the formula of all later leads, not that of
  the new one. The result has the formula and the leads added.
\<close>

definition pa_pair :: "bool \<Rightarrow> vctx \<Rightarrow> nat \<Rightarrow> eseq \<Rightarrow> eseq \<Rightarrow> mem \<Rightarrow> event \<Rightarrow> event \<Rightarrow>
    sop_formula \<times> lead list \<Rightarrow> (sop_formula \<times> lead list) result" where
  "pa_pair dbg c n m1 sfx mm it it2 acc =
     (let (f, added) = acc in
      if \<not> ev_RWpair it it2 then Inr acc
      else let (eread, ewrite) = (if ev_is_read it then (it, it2) else (it2, it)) in
        if ev_value eread = ev_value ewrite then Inr acc
        else if sop_check_evaluation f (ev_iid eread, ev_value ewrite) = R_TRUE then Inr acc
        else bind_r (seq_backseq_source dbg c n m1 (es_to_iid_sequence m1) (ev_iid it2) (ev_iid it)) (\<lambda>start.
               if start = [] then Inr acc
               else bind_r (es_erase_iid m1 (ev_iid eread)) (\<lambda>constr.
                 bind_r (lead_make c n (constr @ sfx) start f mm) (\<lambda>l.
                   Inr (sop_or_term f (ev_iid eread, ev_value eread), added @ [l])))))"

fun pa_inner :: "bool \<Rightarrow> vctx \<Rightarrow> nat \<Rightarrow> eseq \<Rightarrow> eseq \<Rightarrow> mem \<Rightarrow> event \<Rightarrow> eseq \<Rightarrow>
    sop_formula \<times> lead list \<Rightarrow> (sop_formula \<times> lead list) result" where
  "pa_inner dbg c n m1 sfx mm it [] acc = Inr acc"
| "pa_inner dbg c n m1 sfx mm it (it2 # es) acc =
     bind_r (pa_pair dbg c n m1 sfx mm it it2 acc) (\<lambda>acc'. pa_inner dbg c n m1 sfx mm it es acc')"

fun pa_outer :: "bool \<Rightarrow> vctx \<Rightarrow> nat \<Rightarrow> eseq \<Rightarrow> eseq \<Rightarrow> mem \<Rightarrow> eseq \<Rightarrow> eseq \<Rightarrow> eseq \<Rightarrow>
    sop_formula \<times> lead list \<Rightarrow> (sop_formula \<times> lead list) result" where
  "pa_outer dbg c n m1 m2 mm sfx pre [] acc = Inr acc"
| "pa_outer dbg c n m1 m2 mm sfx pre (it # es) acc =
     (if es_has_iid m2 (ev_iid it) then pa_outer dbg c n m1 m2 mm sfx (pre @ [it]) es acc
      else bind_r (pa_inner dbg c n m1 sfx mm it pre acc) (\<lambda>acc'.
             pa_outer dbg c n m1 m2 mm sfx (pre @ [it]) es acc'))"

definition prefix_analysis :: "bool \<Rightarrow> vctx \<Rightarrow> nat \<Rightarrow> mem \<Rightarrow> lead \<Rightarrow> lead \<Rightarrow> lead list \<Rightarrow> lead list result" where
  "prefix_analysis dbg c n mm l1 l2 added =
     bind_r (sop_and (ld_forbidden l1) (ld_forbidden l2)) (\<lambda>f.
       let sfx = filter (\<lambda>e. \<not> es_has_iid (ld_merged l1) (ev_iid e)) (ld_merged l2) in
       bind_r (pa_outer dbg c n (ld_merged l1) (ld_merged l2) mm sfx [] (ld_merged l1) (f, added)) (\<lambda>(f', added').
         Inr added'))"

section \<open>Choosing a lead\<close>

lemma next_lead_from_spec:
  assumes "drop i (st_leads st) = L" "\<exists>l\<in>set L. \<not> ld_done l"
  shows "\<exists>k l'. k < length L \<and> \<not> ld_done (L ! k) \<and> (\<forall>j<k. ld_done (L ! j)) \<and>
    l' = (L ! k)\<lparr>ld_done := True\<rparr> \<and>
    next_lead_from st i L = Inr (l', st\<lparr>st_leads := (st_leads st)[i + k := l'], st_alpha := int (i + k),
      st_fwd := st_fwd st \<and> es_has_iid (ld_merged l') (st_fwd_read st)\<rparr>)"
  using assms
proof (induction L arbitrary: i)
  case (Cons l L)
  show ?case
  proof (cases "ld_done l")
    case False
    thus ?thesis by (intro exI [of _ 0]) (auto simp: Let_def)
  next
    case True
    have "drop (i + 1) (st_leads st) = L" using Cons.prems(1) by (metis Suc_eq_plus1 drop_Suc drop_tl list.sel(3))
    moreover have "\<exists>l\<in>set L. \<not> ld_done l" using Cons.prems(2) True by auto
    ultimately obtain k l' where k: "k < length L" "\<not> ld_done (L ! k)" "\<forall>j<k. ld_done (L ! j)"
      "l' = (L ! k)\<lparr>ld_done := True\<rparr>"
      "next_lead_from st (i + 1) L = Inr (l', st\<lparr>st_leads := (st_leads st)[i + 1 + k := l'], st_alpha := int (i + 1 + k),
        st_fwd := st_fwd st \<and> es_has_iid (ld_merged l') (st_fwd_read st)\<rparr>)"
      using Cons.IH by blast
    have "\<forall>j<Suc k. ld_done ((l # L) ! j)" using True k(3) by (auto simp: less_Suc_eq_0_disj)
    thus ?thesis using k True by (intro exI [of _ "Suc k"] exI [of _ l']) simp
  qed
qed simp

lemma unexplored_update:
  assumes "i < length L" "\<not> ld_done (L ! i)" "ld_done l"
  shows "length (filter (\<lambda>l. \<not> ld_done l) L) = Suc (length (filter (\<lambda>l. \<not> ld_done l) (L[i := l])))"
proof -
  have L: "L = take i L @ L ! i # drop (Suc i) L" using id_take_nth_drop [OF assms(1)] .
  have "L[i := l] = take i L @ l # drop (Suc i) L" using upd_conv_take_nth_drop [OF assms(1)] .
  hence "length (filter (\<lambda>l. \<not> ld_done l) (L[i := l])) =
      length (filter (\<lambda>l. \<not> ld_done l) (take i L)) + length (filter (\<lambda>l. \<not> ld_done l) (drop (Suc i) L))"
    using assms(3) by simp
  moreover have "length (filter (\<lambda>l. \<not> ld_done l) L) =
      Suc (length (filter (\<lambda>l. \<not> ld_done l) (take i L)) + length (filter (\<lambda>l. \<not> ld_done l) (drop (Suc i) L)))"
    by (subst L) (use assms(2) in simp)
  ultimately show ?thesis by simp
qed

section \<open>Duplicates\<close>

text \<open>What \<open>remove_duplicate_leads\<close> takes for the same lead.\<close>

definition lead_dup :: "nat \<Rightarrow> lead \<Rightarrow> lead \<Rightarrow> bool" where
  "lead_dup n x y = (es_eq (ld_merged x) (ld_merged y) \<or> VA_equivalent n x y = Inr True)"

lemma rdl_inner_spec:
  assumes "rdl_inner n it L = Inr L'"
  shows "L' = filter (\<lambda>y. \<not> lead_dup n it y) L"
  using assms
proof (induction L arbitrary: L')
  case (Cons y L)
  show ?case
  proof (cases "es_eq (ld_merged it) (ld_merged y)")
    case True
    thus ?thesis using Cons by (simp add: lead_dup_def)
  next
    case False
    then obtain b where b: "VA_equivalent n it y = Inr b" using Cons.prems by auto
    show ?thesis
    proof (cases b)
      case True
      thus ?thesis using Cons b False by (simp add: lead_dup_def)
    next
      case nb: False
      then obtain L1 where "rdl_inner n it L = Inr L1" "L' = y # L1" using Cons.prems b False by auto
      thus ?thesis using Cons.IH b nb False by (simp add: lead_dup_def)
    qed
  qed
qed simp

lemma remove_duplicate_leads_spec:
  assumes "remove_duplicate_leads n L = Inr L'"
  shows "subseq L' L \<and> (\<forall>x y. before L' x y \<longrightarrow> \<not> lead_dup n x y) \<and>
    (\<forall>x\<in>set L. x \<in> set L' \<or> (\<exists>y\<in>set L'. lead_dup n y x))"
  using assms
proof (induction n L arbitrary: L' rule: remove_duplicate_leads.induct)
  case (2 n it L)
  obtain L1 L2 where L1: "rdl_inner n it L = Inr L1" and L2: "remove_duplicate_leads n L1 = Inr L2" "L' = it # L2"
    using "2.prems" by (auto elim!: bind_r_InrE)
  note IH = "2.IH" [OF L1 L2(1)]
  note L1f = rdl_inner_spec [OF L1]
  have "subseq L2 L" using IH L1f subseq_filter_left subseq_order.trans by metis
  moreover have "\<not> lead_dup n it y" if "y \<in> set L2" for y
    using that IH L1f subseq_set by fastforce
  ultimately show ?case using IH L1f L2(2) by (auto simp: before_Cons)
qed simp

section \<open>Prefixes up to view adjustment\<close>

definition accesses :: "eseq \<Rightarrow> bool" where
  "accesses es = (\<forall>e\<in>set es. ev_is_read e \<noteq> ev_is_write e)"

text \<open>The last value written to an object, if any.\<close>

definition written :: "obj \<Rightarrow> eseq \<Rightarrow> int option \<Rightarrow> int option" where
  "written ob es d = foldl (\<lambda>acc e. if ev_is_write e \<and> ev_object e = ob then Some (ev_value e) else acc) d es"

text \<open>Every read has the value of the last write of its object before it, where there is one.\<close>

definition reads_ok :: "(obj \<Rightarrow> int option) \<Rightarrow> eseq \<Rightarrow> bool" where
  "reads_ok m es = (\<forall>k<length es. ev_is_read (es ! k) \<longrightarrow>
     (\<forall>v. written (ev_object (es ! k)) (take k es) (m (ev_object (es ! k))) = Some v \<longrightarrow> v = ev_value (es ! k)))"

lemma written_simps [simp]:
  "written ob [] d = d"
  "written ob (e # es) d = written ob es (if ev_is_write e \<and> ev_object e = ob then Some (ev_value e) else d)"
  "written ob (es @ fs) d = written ob fs (written ob es d)"
  by (simp_all add: written_def)

lemma reads_ok_Nil [simp]: "reads_ok m []"
  by (simp add: reads_ok_def)

lemma reads_ok_Cons:
  "reads_ok m (e # es) \<longleftrightarrow>
     (ev_is_read e \<longrightarrow> (\<forall>v. m (ev_object e) = Some v \<longrightarrow> v = ev_value e)) \<and>
     reads_ok (\<lambda>ob. written ob [e] (m ob)) es"
  unfolding reads_ok_def length_Cons All_less_Suc2 by simp

lemma reads_ok_append:
  "reads_ok m (es @ fs) \<longleftrightarrow> reads_ok m es \<and> reads_ok (\<lambda>ob. written ob es (m ob)) fs"
  by (induction es arbitrary: m) (simp_all add: reads_ok_Cons)

lemma va_check_suffix_iff:
  assumes "accesses es"
  shows "va_check_suffix es mm \<longleftrightarrow> reads_ok (map_of mm) es"
  using assms
proof (induction es arbitrary: mm)
  case (Cons e es)
  have IH: "va_check_suffix es mm \<longleftrightarrow> reads_ok (map_of mm) es" for mm
    using Cons by (simp add: accesses_def)
  show ?case
  proof (cases "ev_is_read e")
    case True
    hence "\<not> ev_is_write e" using ev_read_not_write by simp
    thus ?thesis using True by (auto simp: reads_ok_Cons IH split: option.split)
  next
    case False
    hence "ev_is_write e" using Cons.prems by (simp add: accesses_def)
    hence "map_of (AList.update (ev_object e) (ev_value e) mm) = (\<lambda>ob. written ob [e] (map_of mm ob))"
      by (auto simp: update_conv')
    thus ?thesis using False by (simp add: reads_ok_Cons IH)
  qed
qed simp

lemma es_find_iid_less: "es_find_iid s i < length s \<longleftrightarrow> i \<in> set (map ev_iid s)"
  unfolding es_find_iid_eq seq_index_of_less_iff [symmetric] by simp

lemma es_find_iid_nth:
  assumes "i \<in> set (map ev_iid s)"
  shows "ev_iid (s ! es_find_iid s i) = i"
  using seq_index_of_nth [OF assms] assms es_find_iid_less [of s i] by (simp add: es_find_iid_eq)

lemma es_erase_iid_eq:
  assumes "i \<in> set (map ev_iid s)" "distinct (map ev_iid s)"
  shows "es_erase_iid s i = Inr (filter (\<lambda>e. ev_iid e \<noteq> i) s)"
proof -
  let ?k = "es_find_iid s i"
  have k: "?k < length s" "ev_iid (s ! ?k) = i"
    using assms(1) es_find_iid_less es_find_iid_nth by blast+
  have s: "s = take ?k s @ s ! ?k # drop (Suc ?k) s" using id_take_nth_drop [OF k(1)] .
  hence d: "distinct (map ev_iid (take ?k s) @ i # map ev_iid (drop (Suc ?k) s))"
    using assms(2) k(2) by (metis list.simps(9) map_append)
  hence "\<forall>x\<in>set (take ?k s). ev_iid x \<noteq> i" "\<forall>x\<in>set (drop (Suc ?k) s). ev_iid x \<noteq> i" by auto
  hence "filter (\<lambda>e. ev_iid e \<noteq> i) (take ?k s @ s ! ?k # drop (Suc ?k) s) = take ?k s @ drop (Suc ?k) s"
    using k(2) by (simp only: filter_append filter_True) simp
  thus ?thesis using s k(1) by (simp add: es_erase_iid_def erase_at_def)
qed

lemma va_take_out_spec:
  assumes "va_take_out strict es sfx mm = Inr (Some (rest, mm'))" "distinct (map ev_iid sfx)" "distinct (map ev_iid es)"
  shows "rest = filter (\<lambda>e. ev_iid e \<notin> set (map ev_iid es)) sfx \<and>
    map_of mm' = (\<lambda>ob. written ob es (map_of mm ob)) \<and>
    (strict \<longrightarrow> set (map ev_iid es) \<subseteq> set (map ev_iid sfx)) \<and>
    (\<forall>e\<in>set es. \<forall>e'\<in>set sfx. ev_iid e' = ev_iid e \<longrightarrow> ev_is_read e \<longrightarrow> ev_value e' = ev_value e)"
  using assms
proof (induction strict es sfx mm rule: va_take_out.induct)
  case (2 strict e es sfx mm)
  let ?k = "es_find_iid sfx (ev_iid e)"
  define mm1 where "mm1 = (if ev_is_write e then AList.update (ev_object e) (ev_value e) mm else mm)"
  have mm1: "map_of mm1 = (\<lambda>ob. written ob [e] (map_of mm ob))" by (auto simp: mm1_def update_conv')
  have des: "distinct (map ev_iid es)" "ev_iid e \<notin> set (map ev_iid es)" using "2.prems"(3) by simp_all
  show ?case
  proof (cases "?k = length sfx")
    case True
    hence n: "ev_iid e \<notin> set (map ev_iid sfx)" using es_find_iid_less [of sfx "ev_iid e"] by simp
    have ne: "ev_iid x \<noteq> ev_iid e" if "x \<in> set sfx" for x using n that by (metis imageI set_map)
    have ns: "\<not> strict" using "2.prems"(1) True by (auto simp: Let_def)
    have "va_take_out strict es sfx mm1 = Inr (Some (rest, mm'))"
      using "2.prems"(1) True ns by (simp add: Let_def mm1_def)
    note IH = "2.IH"(1) [OF refl refl True ns [folded not_False_eq_True], folded mm1_def, OF this "2.prems"(2) des(1)]
    have "rest = filter (\<lambda>x. ev_iid x \<notin> set (map ev_iid (e # es))) sfx"
      using IH ne by (auto intro!: filter_cong)
    moreover have "map_of mm' = (\<lambda>ob. written ob (e # es) (map_of mm ob))" using IH mm1 by simp
    moreover have "\<forall>x\<in>set (e # es). \<forall>e'\<in>set sfx. ev_iid e' = ev_iid x \<longrightarrow> ev_is_read x \<longrightarrow> ev_value e' = ev_value x"
      using IH ne by auto
    ultimately show ?thesis using ns by blast
  next
    case False
    hence e_in: "ev_iid e \<in> set (map ev_iid sfx)" using es_find_iid_less [of sfx "ev_iid e"]
      by (metis es_find_iid_eq length_map nat_less_le seq_index_of_le)
    have id: "ev_iid (sfx ! ?k) = ev_iid e" using es_find_iid_nth [OF e_in] .
    let ?s1 = "filter (\<lambda>x. ev_iid x \<noteq> ev_iid e) sfx"
    have er: "es_erase_iid sfx (ev_iid (sfx ! ?k)) = Inr ?s1" using es_erase_iid_eq [OF e_in "2.prems"(2)] id by simp
    have val: "\<not> (ev_is_read e \<and> ev_value (sfx ! ?k) \<noteq> ev_value e)" using "2.prems"(1) False by (auto simp: Let_def split: if_splits)
    have run: "va_take_out strict es ?s1 mm1 = Inr (Some (rest, mm'))"
      using "2.prems"(1) False val er by (auto simp: Let_def mm1_def)
    have d1: "distinct (map ev_iid ?s1)" using "2.prems"(2) by (simp add: distinct_map_filter)
    have k: "?k < length sfx" using e_in es_find_iid_less by blast
    note IH = "2.IH"(2) [OF refl refl False val, folded mm1_def, OF er run d1 des(1)]
    have same: "e' = sfx ! ?k" if "e' \<in> set sfx" "ev_iid e' = ev_iid e" for e'
      using that "2.prems"(2) id k by (metis distinct_map inj_on_contraD nth_mem)
    have "rest = filter (\<lambda>x. ev_iid x \<notin> set (map ev_iid (e # es))) sfx"
      using IH by (auto intro!: filter_cong)
    moreover have "strict \<longrightarrow> set (map ev_iid (e # es)) \<subseteq> set (map ev_iid sfx)" using IH e_in by auto
    moreover have "ev_value e' = ev_value x"
      if "x \<in> set (e # es)" "e' \<in> set sfx" "ev_iid e' = ev_iid x" "ev_is_read x" for x e'
    proof (cases "x = e")
      case True
      thus ?thesis using same that val by blast
    next
      case False
      hence x: "x \<in> set es" using that(1) by simp
      hence "ev_iid x \<noteq> ev_iid e" using des(2) by (metis imageI set_map)
      thus ?thesis using IH that x by auto
    qed
    moreover have "map_of mm' = (\<lambda>ob. written ob (e # es) (map_of mm ob))" using IH mm1 by simp
    ultimately show ?thesis by blast
  qed
qed simp

section \<open>Properties\<close>

lemma VA_isprefix_slow:
  assumes "VA_isprefix this l = Inr True"
    and "distinct (map ev_iid (ld_merged this))" "distinct (map ev_iid (ld_merged l))"
    and "accesses (ld_merged l)" "reads_ok Map.empty (ld_merged this)"
    and "seq_isprefix (es_to_iid_sequence (ld_merged this)) (es_to_iid_sequence (ld_merged l)) = Inr False"
  shows "\<exists>rest. subseq rest (ld_merged l) \<and>
    mset (map ev_iid (ld_merged this @ rest)) = mset (map ev_iid (ld_merged l)) \<and>
    reads_ok Map.empty (ld_merged this @ rest) \<and>
    (\<forall>e\<in>set (ld_merged this @ rest). \<forall>e'\<in>set (ld_merged l).
       ev_iid e' = ev_iid e \<longrightarrow> ev_is_read e \<longrightarrow> ev_value e = ev_value e')"
proof -
  let ?t = "ld_merged this" and ?l = "ld_merged l"
  obtain rest mm where run: "va_take_out True ?t ?l [] = Inr (Some (rest, mm))" and chk: "va_check_suffix rest mm"
    using assms(1,6) by (auto simp: VA_isprefix_def elim!: bind_r_InrE split: option.splits)
  note sp = va_take_out_spec [OF run assms(3,2)]
  have rest: "rest = filter (\<lambda>e. ev_iid e \<notin> set (map ev_iid ?t)) ?l" and
    mm: "map_of mm = (\<lambda>ob. written ob ?t None)" and sub: "set (map ev_iid ?t) \<subseteq> set (map ev_iid ?l)"
    using sp by simp_all
  have "accesses rest" using assms(4) by (simp add: rest accesses_def)
  hence ok: "reads_ok Map.empty (?t @ rest)"
    using chk va_check_suffix_iff [of rest mm] mm assms(5) by (simp add: reads_ok_append)
  have dr: "distinct (map ev_iid rest)" using assms(3) by (simp add: rest distinct_map_filter)
  have "set (map ev_iid ?t) \<inter> set (map ev_iid rest) = {}"
  proof (rule equals0I)
    fix i assume i: "i \<in> set (map ev_iid ?t) \<inter> set (map ev_iid rest)"
    then obtain x where "x \<in> set rest" "i = ev_iid x" by auto
    thus False using i by (simp add: rest)
  qed
  hence d: "distinct (map ev_iid (?t @ rest))" using assms(2) dr by simp
  have "set rest = {e \<in> set ?l. ev_iid e \<notin> set (map ev_iid ?t)}" by (simp add: rest)
  hence "set (map ev_iid ?t) \<union> ev_iid ` set rest = set (map ev_iid ?l)" using sub by auto
  hence "set (map ev_iid (?t @ rest)) = set (map ev_iid ?l)" by simp
  hence ms: "mset (map ev_iid (?t @ rest)) = mset (map ev_iid ?l)"
    using d assms(3) set_eq_iff_mset_eq_distinct by blast
  have same: "e' = e" if "e \<in> set ?l" "e' \<in> set ?l" "ev_iid e' = ev_iid e" for e e'
    using that assms(3) by (simp add: distinct_map inj_on_def)
  have vals: "ev_value e = ev_value e'"
    if "e \<in> set (?t @ rest)" "e' \<in> set ?l" "ev_iid e' = ev_iid e" "ev_is_read e" for e e'
  proof (cases "e \<in> set ?t")
    case True
    thus ?thesis using sp that(2-4) by simp
  next
    case False
    hence "e \<in> set ?l" using that(1) by (simp add: rest)
    thus ?thesis using same [of e e'] that(2,3) by simp
  qed
  have "subseq rest ?l" by (simp add: rest)
  thus ?thesis using ok ms vals by blast
qed

definition ex_lead :: "eseq \<Rightarrow> lead" where
  "ex_lead es = lead_empty\<lparr>ld_merged := es\<rparr>"

lemma seq_isprefix_True: "seq_isprefix xs ys = Inr True \<Longrightarrow> \<exists>zs. ys = xs @ zs"
  by (induction xs ys rule: seq_isprefix.induct) (auto split: if_splits)

text \<open>C29: when one lead is found to be a prefix of another, the other's remaining events, in their order,
  extend it to a sequence of the same events. Where the answer comes from comparing the leads event by
  event, every read of that sequence, of either part, sees the value it has in the other lead. Where the code
  takes the fast path, as the identifiers of the first lead are the first ones of the second, it compares no
  values: then the rest is what follows those in the second lead.\<close>

theorem VA_isprefix_sound:
  assumes "VA_isprefix this l = Inr True"
    and "distinct (map ev_iid (ld_merged this))" "distinct (map ev_iid (ld_merged l))"
    and "accesses (ld_merged l)" "reads_ok Map.empty (ld_merged this)"
  shows "\<exists>rest. subseq rest (ld_merged l) \<and>
    mset (map ev_iid (ld_merged this @ rest)) = mset (map ev_iid (ld_merged l)) \<and>
    (if seq_isprefix (es_to_iid_sequence (ld_merged this)) (es_to_iid_sequence (ld_merged l)) = Inr True
     then map ev_iid (ld_merged this @ rest) = map ev_iid (ld_merged l)
     else reads_ok Map.empty (ld_merged this @ rest) \<and>
      (\<forall>e\<in>set (ld_merged this @ rest). \<forall>e'\<in>set (ld_merged l).
         ev_iid e' = ev_iid e \<longrightarrow> ev_is_read e \<longrightarrow> ev_value e = ev_value e'))"
proof (cases "seq_isprefix (es_to_iid_sequence (ld_merged this)) (es_to_iid_sequence (ld_merged l))")
  case (Inl e)
  thus ?thesis using assms(1) by (simp add: VA_isprefix_def)
next
  case (Inr b)
  show ?thesis
  proof (cases b)
    case True
    then obtain zs where z: "map ev_iid (ld_merged l) = map ev_iid (ld_merged this) @ zs"
      using seq_isprefix_True Inr by (auto simp: es_to_iid_sequence_def)
    let ?n = "length (ld_merged this)"
    have "map ev_iid (drop ?n (ld_merged l)) = zs" using arg_cong [OF z, of "drop ?n"] by (simp add: drop_map)
    hence "map ev_iid (ld_merged this @ drop ?n (ld_merged l)) = map ev_iid (ld_merged l)" using z by simp
    moreover from this have "mset (map ev_iid (ld_merged this @ drop ?n (ld_merged l))) = mset (map ev_iid (ld_merged l))" by metis
    moreover have "subseq (drop ?n (ld_merged l)) (ld_merged l)" by (metis append_take_drop_id subseq_drop_many subseq_order.refl)
    ultimately show ?thesis using Inr True by (intro exI [of _ "drop ?n (ld_merged l)"]) simp
  next
    case False
    thus ?thesis using VA_isprefix_slow [OF assms] Inr by simp
  qed
qed

theorem VA_isprefix_sound_witness:
  "\<exists>rest. reads_ok Map.empty ([ex_access T_WRITE 1 0 2] @ rest) \<and>
     mset (map ev_iid ([ex_access T_WRITE 1 0 2] @ rest)) = {#IID 0 0, IID 1 0#}"
proof -
  let ?a = "ex_lead [ex_access T_WRITE 1 0 2]"
  let ?b = "ex_lead [ex_access T_READ 0 0 2, ex_access T_WRITE 1 0 2]"
  have p: "seq_isprefix (es_to_iid_sequence (ld_merged ?a)) (es_to_iid_sequence (ld_merged ?b)) = Inr False"
    by (simp add: ex_lead_def es_to_iid_sequence_def)
  have "VA_isprefix ?a ?b = Inr True"
    using p by (simp add: VA_isprefix_def ex_lead_def es_find_iid_def es_erase_iid_def erase_at_def Let_def)
  moreover have "distinct (map ev_iid (ld_merged ?a))" "distinct (map ev_iid (ld_merged ?b))" "accesses (ld_merged ?b)"
    "reads_ok Map.empty (ld_merged ?a)"
    by (simp_all add: ex_lead_def accesses_def reads_ok_Cons)
  ultimately show ?thesis using VA_isprefix_sound [of ?a ?b] p by (auto simp: ex_lead_def add_mset_commute)
qed

text \<open>\<open>remove_duplicate_leads\<close> keeps a subsequence of the leads in which none is a duplicate of an
  earlier one, and every lead it removes is a duplicate of one it keeps; but as \<open>==\<close> of event
  sequences stops at the shorter one, a lead that only extends an earlier one counts as its
  duplicate, and after a lead without events all others are removed.\<close>

theorem remove_duplicate_leads_exact:
  "(\<forall>L'. remove_duplicate_leads n L = Inr L' \<longrightarrow>
     subseq L' L \<and> (\<forall>x y. before L' x y \<longrightarrow> \<not> lead_dup n x y) \<and>
     (\<forall>x\<in>set L. x \<in> set L' \<or> (\<exists>y\<in>set L'. lead_dup n y x))) \<and>
   (\<forall>x y es. ld_merged y = ld_merged x @ es \<longrightarrow> remove_duplicate_leads n [x, y] = Inr [x]) \<and>
   (\<forall>x. ld_merged x = [] \<longrightarrow> remove_duplicate_leads n (x # L) = Inr [x])"
proof -
  have ext: "es_eq a (a @ b)" for a b :: eseq by (induction a) simp_all
  have "rdl_inner n x L = Inr []" if "ld_merged x = []" for x
    using that by (induction L) simp_all
  thus ?thesis using remove_duplicate_leads_spec [of n L] ext by simp
qed

theorem remove_duplicate_leads_exact_witness:
  "remove_duplicate_leads 0 [ex_lead [ex_access T_READ 0 0 2], ex_lead [ex_access T_READ 0 0 2, ex_access T_WRITE 1 0 2]] =
   Inr [ex_lead [ex_access T_READ 0 0 2]]"
  using remove_duplicate_leads_exact [of 0 "[]"] by (simp add: ex_lead_def)

text \<open>a new lead has the given formula and is unexplored; its merged sequence is empty when start
  and constraint cannot be merged, and else the evaluation of a sequence of all events of start
  and constraint that keeps the program order and the read-write order of both.\<close>

theorem lead_make_sound:
  assumes "distinct s" "distinct (es_to_iid_sequence es)" "threads_agree s (es_to_iid_sequence es)"
    and "no_rmw_write c (es_to_iid_sequence es)"
    and "\<forall>i\<in>set s \<union> set (es_to_iid_sequence es). event_exists c i"
    and "lead_make c n es s f m = Inr l"
  shows "ld_forbidden l = f \<and> \<not> ld_done l \<and> \<not> ld_pending l \<and> set (ld_start l) = set s \<and>
    set (ld_constraint l) = set (es_to_iid_sequence es) \<and>
    (ld_merged l = [] \<or>
     (\<exists>r. ld_merged l = to_event_sequence c m r \<and> set r = set s \<union> set (es_to_iid_sequence es) \<and> distinct r \<and>
        (\<forall>u v. (iid_pid u = iid_pid v \<or> ev_RWpair (get_event c u) (get_event c v)) \<and>
           (before s u v \<or> before (es_to_iid_sequence es) u v) \<longrightarrow> before r u v)))"
proof -
  let ?k = "es_to_iid_sequence es"
  obtain r s' k' merged where m: "seq_consistent_merge c n s ?k = Inr (r, s', k')"
    and ev: "to_event_sequence_source c es m r = Inr merged"
    and l: "l = lead_empty\<lparr>ld_constraint := k', ld_start := s', ld_forbidden := f, ld_merged := merged\<rparr>"
    using assms(6) by (auto simp: lead_make_def lead_add_pending_def lead_empty_def elim!: bind_r_InrE)
  note mc = merge_cases [OF assms(1-4) m]
  have ord: "before s' u v \<or> before k' u v"
    if "iid_pid u = iid_pid v \<or> ev_RWpair (get_event c u) (get_event c v)" "before s u v \<or> before ?k u v" for u v
    using that adjusted_same_thread [OF mc(1), of u v] adjusted_same_thread [OF mc(2), of u v] mc(1,2)
    unfolding adjusted_def by metis
  have sets: "set s' = set s" "set k' = set ?k" using adjusted_set [OF mc(1)] adjusted_set [OF mc(2)] by simp_all
  show ?thesis
  proof (cases "r = []")
    case True
    hence "merged = []" using ev by (simp add: to_event_sequence_source_def)
    thus ?thesis using sets l by (simp add: lead_empty_def)
  next
    case False
    note mr = mc(3) [OF False, unfolded merges_def]
    have "\<forall>i\<in>set r. event_exists c i" using mr sets assms(5) by auto
    hence "merged = to_event_sequence c m r"
      using ev tes_source_loop_exists [of r c es m "([], [])"]
      by (simp add: to_event_sequence_source_def to_event_sequence_def)
    moreover have "set r = set s \<union> set ?k" "distinct r" using mr sets by simp_all
    moreover have "before r u v"
      if "iid_pid u = iid_pid v \<or> ev_RWpair (get_event c u) (get_event c v)" "before s u v \<or> before ?k u v" for u v
      using ord [OF that] mr by blast
    ultimately show ?thesis using sets l by (simp add: lead_empty_def) blast
  qed
qed

theorem lead_make_sound_witness:
  "\<exists>l. lead_make ex_ctx 1 [ex_access T_WRITE 1 0 2] [IID 0 0, IID 2 0] sop_false [] = Inr l \<and> \<not> ld_done l \<and>
     set (ld_start l) = {IID 0 0, IID 2 0}"
proof -
  let ?es = "[ex_access T_WRITE 1 0 2]" and ?s = "[IID 0 0, IID 2 0] :: seq"
  have k: "es_to_iid_sequence ?es = [IID 1 0]" by (simp add: es_to_iid_sequence_def)
  have "seq_consistent_merge ex_ctx 1 ?s [IID 1 0] = Inr ([IID 0 0, IID 2 0, IID 1 0], ?s, [IID 1 0])"
    by code_simp
  moreover have ex: "\<forall>i\<in>{IID 0 0, IID 2 0, IID 1 0}. event_exists ex_ctx i"
    by (simp add: event_exists_def ex_ctx_def numeral_2_eq_2)
  ultimately obtain l where l: "lead_make ex_ctx 1 ?es ?s sop_false [] = Inr l"
    using tes_source_loop_exists [of "[IID 0 0, IID 2 0, IID 1 0]" ex_ctx ?es "[]" "([], [])"]
    by (simp add: lead_make_def k to_event_sequence_source_def lead_add_pending_def lead_empty_def)
  show ?thesis
    using lead_make_sound [OF _ _ _ _ _ l] l ex
    by (simp add: k threads_agree_def before_Cons no_rmw_write_def)
qed

text \<open>\<open>next_unexplored_lead\<close> fails exactly when all leads are explored; otherwise it returns the first
  unexplored lead, marks it explored and makes it the alpha of the state, changing no other
  lead, so that one lead fewer is left to explore.\<close>

theorem next_unexplored_lead_correct:
  "(\<not> st_has_unexplored_leads st \<longrightarrow> st_next_unexplored_lead st = Inl Assert_failed) \<and>
   (st_has_unexplored_leads st \<longrightarrow>
     (\<exists>i l st'. st_next_unexplored_lead st = Inr (l, st') \<and> i < length (st_leads st) \<and>
        \<not> ld_done (st_leads st ! i) \<and> (\<forall>j<i. ld_done (st_leads st ! j)) \<and>
        l = (st_leads st ! i)\<lparr>ld_done := True\<rparr> \<and> st_leads st' = (st_leads st)[i := l] \<and>
        st_alpha_lead st' = Inr l \<and> st_alpha_sequence st' = Inr (ld_merged (st_leads st ! i)) \<and>
        length (st_unexplored_leads st) = Suc (length (st_unexplored_leads st'))))"
proof (cases "st_has_unexplored_leads st")
  case False
  thus ?thesis by (simp add: st_next_unexplored_lead_def)
next
  case True
  hence ex: "\<exists>l\<in>set (st_leads st). \<not> ld_done l" by (simp add: st_has_unexplored_leads_def list_ex_iff)
  obtain i l' where i: "i < length (st_leads st)" "\<not> ld_done (st_leads st ! i)" "\<forall>j<i. ld_done (st_leads st ! j)"
    "l' = (st_leads st ! i)\<lparr>ld_done := True\<rparr>"
    "next_lead_from st 0 (st_leads st) = Inr (l', st\<lparr>st_leads := (st_leads st)[i := l'], st_alpha := int i,
      st_fwd := st_fwd st \<and> es_has_iid (ld_merged l') (st_fwd_read st)\<rparr>)"
    using next_lead_from_spec [of 0 st "st_leads st"] ex by auto
  have un: "length (st_unexplored_leads st) = Suc (length (filter (\<lambda>l. \<not> ld_done l) ((st_leads st)[i := l'])))"
    using unexplored_update [OF i(1,2), of l'] i(4) by (simp add: st_unexplored_leads_def)
  show ?thesis
    using True i un by (simp add: st_next_unexplored_lead_def st_alpha_lead_def st_alpha_sequence_def
        st_unexplored_leads_def) blast
qed

theorem next_unexplored_lead_correct_witness:
  "\<exists>l st'. st_next_unexplored_lead ((st_make 0)\<lparr>st_leads := [ex_lead []]\<rparr>) = Inr (l, st') \<and> st_unexplored_leads st' = []"
  using next_unexplored_lead_correct [of "(st_make 0)\<lparr>st_leads := [ex_lead []]\<rparr>"]
  by (auto simp: st_has_unexplored_leads_def ex_lead_def lead_empty_def st_make_def st_unexplored_leads_def)

end
