(* ===== verification/ViewBuilder.thy ===== *)
theory ViewBuilder
  imports Prelude Cpid ViewHash ViewLead
begin

text \<open>
  The builder of traces itself (\<open>ViewEqTraceBuilder\<close>): its threads, its state, its constructor
  and the operations that read the state or change one field of it. \<open>std::unordered_set\<close> and
  \<open>std::unordered_map\<close> are lists without repetition, iterated from the front. A \<open>mem[x]\<close> that
  inserts 0 is a lookup with default 0: all accesses are of this kind.
\<close>

section \<open>Checked access to vectors\<close>

definition nth_r :: "'a list \<Rightarrow> int \<Rightarrow> 'a result" where
  "nth_r xs i = (if 0 \<le> i \<and> nat i < length xs then Inr (xs ! nat i) else Inl Out_of_range)"

definition upd_r :: "'a list \<Rightarrow> int \<Rightarrow> ('a \<Rightarrow> 'a) \<Rightarrow> 'a list result" where
  "upd_r xs i f = (if 0 \<le> i \<and> nat i < length xs then Inr (xs[nat i := f (xs ! nat i)]) else Inl Out_of_range)"

definition us_insert :: "'a \<Rightarrow> 'a list \<Rightarrow> 'a list" where
  "us_insert x xs = (if x \<in> set xs then xs else xs @ [x])"

text \<open>\<open>vf_dbg\<close>: the assertions of the builder are compiled in; \<open>vf_seq_dbg\<close>: those of \<open>Sequence::backseq\<close> are,
  which backward analysis violates; \<open>vf_fuel\<close>: bound for the loops of leads;
  \<open>vf_sched n\<close>: the order in which the \<open>n\<close> iterations of a parallel loop enter its critical section.\<close>

record vconf =
  vf_dbg :: bool
  vf_seq_dbg :: bool
  vf_fuel :: nat
  vf_sched :: "nat \<Rightarrow> nat list"

definition assert_d :: "vconf \<Rightarrow> bool \<Rightarrow> 'a result \<Rightarrow> 'a result" where
  "assert_d f b m = (if vf_dbg f \<and> \<not> b then Inl Assert_failed else m)"

section \<open>State\<close>

record vthread =
  th_cpid :: cpid
  th_spawn_event :: int
  th_available :: bool
  th_events :: "event list"
  th_awaiting :: bool

definition th_make :: "cpid \<Rightarrow> int \<Rightarrow> vthread" where
  "th_make c se = \<lparr>th_cpid = c, th_spawn_event = se, th_available = True, th_events = [], th_awaiting = False\<rparr>"

definition th_size :: "vthread \<Rightarrow> nat" where
  "th_size t = length (th_events t)"

definition th_push_back :: "vthread \<Rightarrow> event \<Rightarrow> vthread" where
  "th_push_back t e = t\<lparr>th_events := th_events t @ [e]\<rparr>"

definition th_pop_back :: "vthread \<Rightarrow> vthread result" where
  "th_pop_back t = bind_r (pop_back (th_events t)) (\<lambda>es. Inr (t\<lparr>th_events := es\<rparr>))"

type_synonym ew_map = "(int \<times> (int iid \<times> (int \<times> lead list) list) list) list"

record tbuilder =
  tb_check_optimality :: bool
  tb_explored :: "(int iid \<times> int) list list"
  tb_redundant :: "(nat \<times> nat list) list"
  tb_prefix_idx :: int
  tb_replay_point :: int
  tb_last_md :: "nat option"
  tb_threads :: "vthread list"
  tb_states :: "vstate list"
  tb_current_thread :: int
  tb_current_event :: event
  tb_current_state :: int
  tb_alpha_head :: int
  tb_enabled :: seq
  tb_covered :: "(int iid \<times> int list) list"
  tb_EW_leads :: ew_map
  tb_spawn_summary :: summary
  tb_join_summary :: summary
  tb_mem :: mem
  tb_last_write :: "(obj \<times> int iid) list"
  tb_prefix_state :: "int list"
  tb_exec :: seq
  tb_to_explore :: eseq
  tb_forbidden :: sop_formula
  tb_rmw :: "rmw_operation \<times> int"
  tb_expected :: int
  tb_CPS :: cpid_system

text \<open>
  The constructor; members without initialiser are constants. With assertions compiled in, the
  default constructor of the members \<open>execution_sequence\<close> and \<open>empty_sequence\<close> fails.
\<close>

definition tb_init :: "vconf \<Rightarrow> bool \<Rightarrow> tbuilder result" where
  "tb_init f opt = assert_d f False (Inr
     \<lparr>tb_check_optimality = opt, tb_explored = [], tb_redundant = [], tb_prefix_idx = 0, tb_replay_point = - 1,
      tb_last_md = None, tb_threads = [th_make pid_init (- 1)], tb_states = [], tb_current_thread = - 1,
      tb_current_event = ev_default, tb_current_state = - 1, tb_alpha_head = 0, tb_enabled = [], tb_covered = [],
      tb_EW_leads = [], tb_spawn_summary = [], tb_join_summary = [], tb_mem = [], tb_last_write = [],
      tb_prefix_state = [], tb_exec = [], tb_to_explore = [], tb_forbidden = sop_false,
      tb_rmw = (Op_CMPXCHG, 0), tb_expected = 0, tb_CPS = cps_init\<rparr>)"

text \<open>What sequences see of it.\<close>

definition tb_ctx :: "tbuilder \<Rightarrow> vctx" where
  "tb_ctx s = \<lparr>vc_threads = map th_events (tb_threads s), vc_spawn = tb_spawn_summary s, vc_join = tb_join_summary s\<rparr>"

definition tb_event :: "tbuilder \<Rightarrow> int iid \<Rightarrow> event" where
  "tb_event s i = get_event (tb_ctx s) i"

definition tb_mem_at :: "tbuilder \<Rightarrow> obj \<Rightarrow> int" where
  "tb_mem_at s ob = map_get 0 (tb_mem s) ob"

definition tb_state :: "tbuilder \<Rightarrow> int \<Rightarrow> vstate result" where
  "tb_state s i = nth_r (tb_states s) i"

definition tb_set_state :: "tbuilder \<Rightarrow> int \<Rightarrow> (vstate \<Rightarrow> vstate) \<Rightarrow> tbuilder result" where
  "tb_set_state s i g = bind_r (upd_r (tb_states s) i g) (\<lambda>sts. Inr (s\<lparr>tb_states := sts\<rparr>))"

definition tb_set_thread :: "tbuilder \<Rightarrow> int \<Rightarrow> (vthread \<Rightarrow> vthread) \<Rightarrow> tbuilder result" where
  "tb_set_thread s p g = bind_r (upd_r (tb_threads s) p g) (\<lambda>ts. Inr (s\<lparr>tb_threads := ts\<rparr>))"

definition tb_push_event :: "tbuilder \<Rightarrow> int \<Rightarrow> event \<Rightarrow> tbuilder result" where
  "tb_push_event s p e = tb_set_thread s p (\<lambda>t. th_push_back t e)"

definition tb_pop_event :: "tbuilder \<Rightarrow> int \<Rightarrow> tbuilder result" where
  "tb_pop_event s p =
     bind_r (nth_r (tb_threads s) p) (\<lambda>t. bind_r (th_pop_back t) (\<lambda>t'. tb_set_thread s p (\<lambda>_. t')))"

text \<open>\<open>threads[p][i].... = ...\<close>\<close>

definition tb_set_event :: "tbuilder \<Rightarrow> int \<Rightarrow> int \<Rightarrow> (event \<Rightarrow> event) \<Rightarrow> tbuilder result" where
  "tb_set_event s p i g =
     bind_r (nth_r (tb_threads s) p) (\<lambda>t.
       bind_r (upd_r (th_events t) i g) (\<lambda>es. tb_set_thread s p (\<lambda>t. t\<lparr>th_events := es\<rparr>)))"

definition tb_next_iid :: "tbuilder \<Rightarrow> int iid result" where
  "tb_next_iid s =
     bind_r (nth_r (tb_threads s) (tb_current_thread s)) (\<lambda>t. Inr (IID (tb_current_thread s) (th_size t)))"

section \<open>Single-field operations\<close>

definition mark_available :: "tbuilder \<Rightarrow> int \<Rightarrow> tbuilder result" where
  "mark_available s p = tb_set_thread s p (\<lambda>t. t\<lparr>th_available := True\<rparr>)"

definition mark_unavailable :: "tbuilder \<Rightarrow> int \<Rightarrow> tbuilder result" where
  "mark_unavailable s p = tb_set_thread s p (\<lambda>t. t\<lparr>th_available := False\<rparr>)"

definition is_enabled :: "tbuilder \<Rightarrow> int \<Rightarrow> bool" where
  "is_enabled s p = list_ex (\<lambda>i. iid_pid i = p) (tb_enabled s)"

definition current_value :: "tbuilder \<Rightarrow> obj \<Rightarrow> int" where
  "current_value s ob = tb_mem_at s ob"

definition tb_metadata :: "tbuilder \<Rightarrow> nat option \<Rightarrow> tbuilder result" where
  "tb_metadata s md =
     bind_r (nth_r (tb_exec s) (tb_prefix_idx s - 1)) (\<lambda>e.
       bind_r (tb_set_event s (iid_pid e) (int (iid_idx e)) (\<lambda>e. e\<lparr>ev_md := md\<rparr>)) (\<lambda>s.
         Inr (s\<lparr>tb_last_md := md\<rparr>)))"

definition tb_get_iid :: "tbuilder \<Rightarrow> cpid iid result" where
  "tb_get_iid s =
     bind_r (nth_r (tb_exec s) (int (length (tb_exec s)) - 1)) (\<lambda>e.
       bind_r (nth_r (tb_threads s) (iid_pid e)) (\<lambda>t. Inr (IID (th_cpid t) (iid_idx e + 1))))"

definition refuse_schedule :: "tbuilder \<Rightarrow> tbuilder result" where
  "refuse_schedule s =
     bind_r (pop_back (tb_exec s)) (\<lambda>ex. bind_r (pop_back (tb_prefix_state s)) (\<lambda>ps.
       let s = s\<lparr>tb_exec := ex, tb_prefix_state := ps, tb_prefix_idx := tb_prefix_idx s - 1\<rparr> in
       bind_r (tb_pop_event s (tb_current_thread s)) (\<lambda>s. mark_unavailable s (tb_current_thread s))))"

definition is_replaying :: "tbuilder \<Rightarrow> bool" where
  "is_replaying s = (tb_prefix_idx s < tb_replay_point s)"

definition at_replay_point :: "tbuilder \<Rightarrow> bool" where
  "at_replay_point s = (tb_prefix_idx s = tb_replay_point s)"

definition cancel_replay :: "tbuilder \<Rightarrow> tbuilder" where
  "cancel_replay s = s\<lparr>tb_replay_point := - 1\<rparr>"

definition set_rmw_operation :: "tbuilder \<Rightarrow> rmw_operation \<Rightarrow> int \<Rightarrow> tbuilder" where
  "set_rmw_operation s op v = s\<lparr>tb_rmw := (op, v)\<rparr>"

definition set_cmpxchg_operation :: "vconf \<Rightarrow> tbuilder \<Rightarrow> rmw_operation \<Rightarrow> int \<Rightarrow> int \<Rightarrow> tbuilder result" where
  "set_cmpxchg_operation f s op e x =
     assert_d f (op = Op_CMPXCHG) (Inr (s\<lparr>tb_rmw := (op, x), tb_expected := e\<rparr>))"

section \<open>A read and a write that are both enabled\<close>

fun rwpair_inner :: "vctx \<Rightarrow> int iid \<Rightarrow> seq \<Rightarrow> int iid option" where
  "rwpair_inner c i [] = None"
| "rwpair_inner c i (j # js) =
     (let e1 = get_event c i; e2 = get_event c j in
      if ev_same_object e1 e2 \<and> ev_is_read e1 \<and> ev_is_write e2 then Some i
      else if ev_same_object e1 e2 \<and> ev_is_write e1 \<and> ev_is_read e2 then Some j
      else rwpair_inner c i js)"

fun rwpair_outer :: "vctx \<Rightarrow> seq \<Rightarrow> int iid option" where
  "rwpair_outer c [] = None"
| "rwpair_outer c (i # is) =
     (case rwpair_inner c i is of Some r \<Rightarrow> Some r | None \<Rightarrow> rwpair_outer c is)"

text \<open>The pair (false, \<open>dummy_id\<close>) is \<open>None\<close>.\<close>

definition enabaled_RWpair_read :: "tbuilder \<Rightarrow> int iid option" where
  "enabaled_RWpair_read s = rwpair_outer (tb_ctx s) (tb_enabled s)"

section \<open>Influencers and witnesses\<close>

fun ui_loop :: "vctx \<Rightarrow> event \<Rightarrow> sop_formula \<Rightarrow> seq \<Rightarrow> seq \<Rightarrow> int list \<Rightarrow> int list \<Rightarrow> seq" where
  "ui_loop c er f [] ui vals forb = ui"
| "ui_loop c er f (i # is) ui vals forb =
     (let e = get_event c i in
      if \<not> ev_is_write e \<or> \<not> ev_same_object er e \<or> ev_value e \<in> set vals \<or> ev_value e \<in> set forb
      then ui_loop c er f is ui vals forb
      else if sop_check_evaluation f (ev_iid er, ev_value e) = R_TRUE
      then ui_loop c er f is ui vals (us_insert (ev_value e) forb)
      else ui_loop c er f is (us_insert (ev_iid e) ui) (us_insert (ev_value e) vals) forb)"

definition unexploredInfluencers :: "vconf \<Rightarrow> tbuilder \<Rightarrow> event \<Rightarrow> sop_formula \<Rightarrow> seq result" where
  "unexploredInfluencers cf s er f =
     assert_d cf (ev_is_read er) (Inr (ui_loop (tb_ctx s) er f (tb_enabled s) [] [] []))"

fun ei_loop :: "vctx \<Rightarrow> event \<Rightarrow> sop_formula \<Rightarrow> seq \<Rightarrow> seq \<Rightarrow> int list \<Rightarrow> seq" where
  "ei_loop c er f [] ei forb = ei"
| "ei_loop c er f (i # is) ei forb =
     (let e = get_event c i in
      if ev_RWpair er e
      then if ev_value e \<in> set forb then ei_loop c er f is ei forb
           else if sop_check_evaluation f (ev_iid er, ev_value e) = R_TRUE
           then ei_loop c er f is ei (us_insert (ev_value e) forb)
           else ei_loop c er f is (us_insert (ev_iid e) ei) forb
      else ei_loop c er f is ei forb)"

definition exploredInfluencers :: "tbuilder \<Rightarrow> event \<Rightarrow> sop_formula \<Rightarrow> seq" where
  "exploredInfluencers s er f = ei_loop (tb_ctx s) er f (rev (tb_exec s)) [] []"

text \<open>One iteration of the parallel loop: what it inserts, if anything.\<close>

definition ew_iteration :: "tbuilder \<Rightarrow> event \<Rightarrow> nat \<Rightarrow> int iid option result" where
  "ew_iteration s ew i =
     bind_r (nth_r (tb_exec s) (int i)) (\<lambda>er.
       let e = tb_event s er in
       if \<not> ev_is_read e \<or> \<not> ev_same_object e ew \<or> ev_pid e = ev_pid ew then Inr None
       else bind_r (nth_r (tb_prefix_state s) (int i)) (\<lambda>ps.
              bind_r (if ps \<ge> 0 then bind_r (tb_state s ps) (\<lambda>st. bind_r (st_alpha_lead st) (\<lambda>l. Inr (ld_forbidden l)))
                      else Inr sop_false) (\<lambda>f.
                Inr (if sop_check_evaluation f (er, ev_value ew) \<noteq> R_TRUE then Some er else None))))"

fun ew_critical :: "tbuilder \<Rightarrow> event \<Rightarrow> nat list \<Rightarrow> seq \<Rightarrow> seq result" where
  "ew_critical s ew [] out = Inr out"
| "ew_critical s ew (i # is) out =
     bind_r (ew_iteration s ew i) (\<lambda>r.
       ew_critical s ew is (case r of Some er \<Rightarrow> us_insert er out | None \<Rightarrow> out))"

definition exploredWitnesses :: "vconf \<Rightarrow> tbuilder \<Rightarrow> event \<Rightarrow> seq result" where
  "exploredWitnesses cf s ew =
     assert_d cf (ev_is_write ew) (ew_critical s ew (vf_sched cf (length (tb_exec s))) [])"

section \<open>What the searches find\<close>

definition allows :: "sop_formula \<Rightarrow> event \<Rightarrow> event \<Rightarrow> bool" where
  "allows f er ew = (ev_is_write ew \<and> ev_same_object er ew \<and> sop_check_evaluation f (ev_iid er, ev_value ew) \<noteq> R_TRUE)"

lemma set_us_insert [simp]: "set (us_insert x xs) = insert x (set xs)"
  by (auto simp: us_insert_def)

lemma distinct_us_insert [simp]: "distinct (us_insert x xs) = distinct xs"
  by (auto simp: us_insert_def)

lemma ui_loop_spec:
  assumes "\<forall>i\<in>set is. ev_iid (get_event c i) = i" "set vals = (\<lambda>i. ev_value (get_event c i)) ` set ui"
    "inj_on (\<lambda>i. ev_value (get_event c i)) (set ui)" "distinct ui"
    "\<forall>v\<in>set forb. sop_check_evaluation f (ev_iid er, v) = R_TRUE"
    "ui_loop c er f is ui vals forb = ui'"
  shows "set ui' \<subseteq> set ui \<union> {i \<in> set is. allows f er (get_event c i)} \<and>
    (\<lambda>i. ev_value (get_event c i)) ` set ui' =
      (\<lambda>i. ev_value (get_event c i)) ` (set ui \<union> {i \<in> set is. allows f er (get_event c i)}) \<and>
    inj_on (\<lambda>i. ev_value (get_event c i)) (set ui') \<and> distinct ui'"
  using assms
proof (induction "is" arbitrary: ui vals forb)
  case Nil
  thus ?case by auto
next
  case (Cons i "is")
  let ?e = "get_event c i" and ?v = "\<lambda>i. ev_value (get_event c i)"
  have iid: "ev_iid ?e = i" using Cons.prems(1) by simp
  consider (skip) "\<not> allows f er ?e \<and> \<not> (ev_is_write ?e \<and> ev_same_object er ?e \<and> ?v i \<notin> set vals \<and> ?v i \<notin> set forb)"
    | (known) "allows f er ?e" "?v i \<in> set vals"
    | (blocked) "\<not> allows f er ?e" "ev_is_write ?e" "ev_same_object er ?e" "?v i \<notin> set vals" "?v i \<notin> set forb"
    | (new) "allows f er ?e" "?v i \<notin> set vals"
    by blast
  thus ?case
  proof cases
    case skip
    hence "ui_loop c er f (i # is) ui vals forb = ui_loop c er f is ui vals forb" by (auto simp: Let_def)
    moreover have "{j \<in> set (i # is). allows f er (get_event c j)} = {j \<in> set is. allows f er (get_event c j)}"
      using skip by auto
    ultimately show ?thesis using Cons.IH [of vals ui forb] Cons.prems by simp
  next
    case known
    hence "ui_loop c er f (i # is) ui vals forb = ui_loop c er f is ui vals forb" by (auto simp: Let_def)
    hence "set ui' \<subseteq> set ui \<union> {j \<in> set is. allows f er (get_event c j)} \<and>
      ?v ` set ui' = ?v ` (set ui \<union> {j \<in> set is. allows f er (get_event c j)}) \<and> inj_on ?v (set ui') \<and> distinct ui'"
      using Cons.IH [of vals ui forb] Cons.prems by simp
    moreover have "?v i \<in> ?v ` set ui" using known(2) Cons.prems(2) by simp
    moreover have "{j \<in> set (i # is). allows f er (get_event c j)} = insert i {j \<in> set is. allows f er (get_event c j)}"
      using known(1) by auto
    ultimately show ?thesis by (metis (no_types, lifting) Un_insert_right image_insert insert_absorb le_supI1 subset_insertI
          subset_trans image_Un Un_iff)
  next
    case blocked
    hence f: "sop_check_evaluation f (ev_iid er, ?v i) = R_TRUE" by (simp add: allows_def)
    hence "ui_loop c er f (i # is) ui vals forb = ui_loop c er f is ui vals (us_insert (?v i) forb)"
      using blocked by (simp add: Let_def)
    moreover have "{j \<in> set (i # is). allows f er (get_event c j)} = {j \<in> set is. allows f er (get_event c j)}"
      using blocked(1) by auto
    ultimately show ?thesis using Cons.IH [of vals ui "us_insert (?v i) forb"] Cons.prems f by simp
  next
    case new
    hence "?v i \<notin> set forb" using Cons.prems(5) by (auto simp: allows_def)
    hence step: "ui_loop c er f (i # is) ui vals forb = ui_loop c er f is (us_insert i ui) (us_insert (?v i) vals) forb"
      using new iid by (simp add: Let_def allows_def)
    have "inj_on ?v (set (us_insert i ui))" using Cons.prems(2,3) new(2) by auto
    hence "set ui' \<subseteq> insert i (set ui) \<union> {j \<in> set is. allows f er (get_event c j)} \<and>
      ?v ` set ui' = ?v ` (insert i (set ui) \<union> {j \<in> set is. allows f er (get_event c j)}) \<and> inj_on ?v (set ui') \<and> distinct ui'"
      using Cons.IH [of "us_insert (?v i) vals" "us_insert i ui" forb] Cons.prems step by simp
    moreover have "set ui \<union> {j \<in> set (i # is). allows f er (get_event c j)} =
        insert i (set ui) \<union> {j \<in> set is. allows f er (get_event c j)}"
      using new(1) by auto
    ultimately show ?thesis by simp
  qed
qed

lemma ei_loop_spec:
  assumes "\<forall>v\<in>set forb. sop_check_evaluation f (ev_iid er, v) = R_TRUE"
  shows "set (ei_loop c er f is ei forb) = set ei \<union>
    {ev_iid (get_event c i) |i. i \<in> set is \<and> ev_RWpair er (get_event c i) \<and>
       sop_check_evaluation f (ev_iid er, ev_value (get_event c i)) \<noteq> R_TRUE}"
  using assms
proof (induction "is" arbitrary: ei forb)
  case (Cons i "is")
  let ?e = "get_event c i"
  let ?S = "\<lambda>is. {ev_iid (get_event c i) |i. i \<in> set is \<and> ev_RWpair er (get_event c i) \<and>
       sop_check_evaluation f (ev_iid er, ev_value (get_event c i)) \<noteq> R_TRUE}"
  consider (no) "\<not> ev_RWpair er ?e" | (blocked) "ev_RWpair er ?e" "sop_check_evaluation f (ev_iid er, ev_value ?e) = R_TRUE"
    | (ok) "ev_RWpair er ?e" "sop_check_evaluation f (ev_iid er, ev_value ?e) \<noteq> R_TRUE" by blast
  thus ?case
  proof cases
    case no
    moreover from no have "?S (i # is) = ?S is" by auto
    ultimately show ?thesis using Cons.IH [OF Cons.prems] by (simp add: Let_def)
  next
    case blocked
    moreover from blocked have "?S (i # is) = ?S is" by auto
    ultimately show ?thesis
      using Cons.IH [OF Cons.prems] Cons.IH [of "us_insert (ev_value ?e) forb"] Cons.prems by (simp add: Let_def)
  next
    case ok
    moreover from ok Cons.prems have "ev_value ?e \<notin> set forb" by blast
    moreover from ok have "?S (i # is) = insert (ev_iid ?e) (?S is)" by auto
    ultimately show ?thesis using Cons.IH [OF Cons.prems] by (simp add: Let_def)
  qed
qed simp

lemma ew_critical_spec:
  "ew_critical s ew is out = Inr out' \<longleftrightarrow>
     (\<forall>i\<in>set is. \<exists>r. ew_iteration s ew i = Inr r) \<and>
     out' = foldl (\<lambda>acc i. case ew_iteration s ew i of Inr (Some er) \<Rightarrow> us_insert er acc | _ \<Rightarrow> acc) out is"
proof (induction "is" arbitrary: out)
  case (Cons i "is")
  show ?case
  proof (cases "ew_iteration s ew i")
    case (Inr r)
    thus ?thesis using Cons.IH by (cases r) auto
  qed auto
qed auto

lemma ew_collect:
  "set (foldl (\<lambda>acc i. case ew_iteration s ew i of Inr (Some er) \<Rightarrow> us_insert er acc | _ \<Rightarrow> acc) out is) =
     set out \<union> {er. \<exists>i\<in>set is. ew_iteration s ew i = Inr (Some er)}"
proof (induction "is" arbitrary: out)
  case (Cons i "is")
  show ?case
    using Cons.IH [of "case ew_iteration s ew i of Inr (Some er) \<Rightarrow> us_insert er out | _ \<Rightarrow> out"]
    by (auto split: sum.splits option.splits)
qed simp

lemma rwpair_inner_Cons:
  "rwpair_inner c i (j # js) =
     (if ev_RWpair (get_event c i) (get_event c j) then Some (if ev_is_read (get_event c i) then i else j)
      else rwpair_inner c i js)"
  unfolding rwpair_inner.simps Let_def ev_RWpair_iff ev_same_object_iff
  using ev_read_not_write [of "get_event c i"] by auto

lemma rwpair_inner_spec:
  "rwpair_inner c i js = None \<longleftrightarrow> (\<forall>j\<in>set js. \<not> ev_RWpair (get_event c i) (get_event c j))"
  by (induction js) (simp_all add: rwpair_inner_Cons del: rwpair_inner.simps(2))

lemma rwpair_inner_Some:
  assumes "rwpair_inner c i js = Some r"
  shows "\<exists>j\<in>set js. ev_RWpair (get_event c i) (get_event c j) \<and> r = (if ev_is_read (get_event c i) then i else j)"
  using assms by (induction js) (auto simp: rwpair_inner_Cons simp del: rwpair_inner.simps(2) split: if_splits)

lemma RWpair_read: "ev_RWpair a b \<Longrightarrow> \<not> ev_is_read a \<Longrightarrow> ev_is_read b"
  by (simp add: ev_RWpair_iff)

lemma rwpair_outer_Some:
  assumes "rwpair_outer c is = Some r"
  shows "r \<in> set is \<and> ev_is_read (get_event c r) \<and> (\<exists>w\<in>set is. ev_RWpair (get_event c r) (get_event c w))"
  using assms
proof (induction "is")
  case (Cons i "is")
  show ?case
  proof (cases "rwpair_inner c i is")
    case None
    thus ?thesis using Cons by auto
  next
    case (Some r')
    then obtain j where "j \<in> set is" "ev_RWpair (get_event c i) (get_event c j)"
      "r = (if ev_is_read (get_event c i) then i else j)"
      using Cons.prems rwpair_inner_Some [OF Some] by auto
    thus ?thesis using ev_RWpair_sym RWpair_read by (metis list.set_intros)
  qed
qed simp

lemma rwpair_outer_None:
  "rwpair_outer c is = None \<longleftrightarrow> (\<forall>i\<in>set is. \<forall>j\<in>set is. \<not> ev_RWpair (get_event c i) (get_event c j))"
proof (induction "is")
  case (Cons i "is")
  have "rwpair_outer c (i # is) = None \<longleftrightarrow> rwpair_inner c i is = None \<and> rwpair_outer c is = None"
    by (auto split: option.splits)
  thus ?case
    unfolding Cons.IH rwpair_inner_spec using ev_RWpair_irrefl [of "get_event c i"] ev_RWpair_sym by (metis list.set_intros set_ConsD)
qed simp

section \<open>Properties\<close>

text \<open>\<open>unexploredInfluencers\<close> picks, of the enabled writes to the object of a read whose values the
  formula does not forbid it, exactly one for each value.\<close>

theorem unexploredInfluencers_exact:
  assumes "\<forall>i\<in>set (tb_enabled s). ev_iid (tb_event s i) = i" "unexploredInfluencers cf s er f = Inr ui"
  shows "set ui \<subseteq> {i \<in> set (tb_enabled s). allows f er (tb_event s i)} \<and>
    (\<lambda>i. ev_value (tb_event s i)) ` set ui =
      (\<lambda>i. ev_value (tb_event s i)) ` {i \<in> set (tb_enabled s). allows f er (tb_event s i)} \<and>
    inj_on (\<lambda>i. ev_value (tb_event s i)) (set ui) \<and> distinct ui"
proof -
  have "ui_loop (tb_ctx s) er f (tb_enabled s) [] [] [] = ui"
    using assms(2) by (simp add: unexploredInfluencers_def assert_d_def split: if_splits)
  thus ?thesis
    using ui_loop_spec [of "tb_enabled s" "tb_ctx s" "[]" "[]" "[]" f er ui] assms(1) by (simp add: tb_event_def)
qed

text \<open>Three threads: a write of 2, a read and a write of 3, all of one object.\<close>

definition ex_threads :: "vthread list" where
  "ex_threads =
     [(th_make pid_init (- 1))\<lparr>th_events := [ex_access T_WRITE 0 0 2]\<rparr>,
      (th_make (child_real pid_init 0) (- 42))\<lparr>th_events := [ex_access T_READ 1 0 0]\<rparr>,
      (th_make (child_real pid_init 1) (- 42))\<lparr>th_events := [ex_access T_WRITE 2 0 3]\<rparr>]"

definition ex_conf :: vconf where
  "ex_conf = \<lparr>vf_dbg = False, vf_seq_dbg = False, vf_fuel = 20, vf_sched = (\<lambda>n. [0..<n])\<rparr>"

definition ex_builder :: tbuilder where
  "ex_builder =
     (case tb_init ex_conf False of Inr s \<Rightarrow> s\<lparr>tb_threads := ex_threads, tb_enabled := [IID 0 0, IID 1 0, IID 2 0]\<rparr>
      | Inl e \<Rightarrow> undefined)"

theorem unexploredInfluencers_exact_witness:
  "unexploredInfluencers ex_conf ex_builder (ex_access T_READ 1 0 0) (sop_single (IID 1 0, 3)) = Inr [IID 0 0] \<and>
   (\<lambda>i. ev_value (tb_event ex_builder i)) `
     {i \<in> set (tb_enabled ex_builder). allows (sop_single (IID 1 0, 3)) (ex_access T_READ 1 0 0) (tb_event ex_builder i)} = {2}"
proof -
  have u: "unexploredInfluencers ex_conf ex_builder (ex_access T_READ 1 0 0) (sop_single (IID 1 0, 3)) = Inr [IID 0 0]"
    by code_simp
  have i: "\<forall>i\<in>set (tb_enabled ex_builder). ev_iid (tb_event ex_builder i) = i" by code_simp
  have "ev_value (tb_event ex_builder (IID 0 0)) = 2" by code_simp
  thus ?thesis using unexploredInfluencers_exact [OF i u] u by simp
qed

text \<open>\<open>exploredInfluencers\<close> is exactly the set of executed writes to the object of the read whose values
  the formula does not forbid it.\<close>

theorem exploredInfluencers_exact:
  "set (exploredInfluencers s er f) =
     {ev_iid (tb_event s i) |i. i \<in> set (tb_exec s) \<and> ev_RWpair er (tb_event s i) \<and>
        sop_check_evaluation f (ev_iid er, ev_value (tb_event s i)) \<noteq> R_TRUE}"
  using ei_loop_spec [of "[]" f er "tb_ctx s" "rev (tb_exec s)" "[]"] by (simp add: exploredInfluencers_def tb_event_def)

text \<open>What forbids a read values: the formula of the current lead of the state it was executed in, nothing for
  an event that was executed in no state.\<close>

definition lead_formula_at :: "tbuilder \<Rightarrow> nat \<Rightarrow> sop_formula" where
  "lead_formula_at s i =
     (let ps = tb_prefix_state s ! i in
      if ps \<ge> 0 then ld_forbidden (st_leads (tb_states s ! nat ps) ! nat (st_alpha (tb_states s ! nat ps))) else sop_false)"

lemma ew_iteration_exact:
  assumes "ew_iteration s ew i = Inr r"
  shows "r = Some er \<longleftrightarrow> er = tb_exec s ! i \<and> ev_is_read (tb_event s er) \<and> ev_object (tb_event s er) = ev_object ew \<and>
    ev_pid (tb_event s er) \<noteq> ev_pid ew \<and> sop_check_evaluation (lead_formula_at s i) (er, ev_value ew) \<noteq> R_TRUE"
proof -
  let ?x = "tb_exec s ! i"
  have i: "i < length (tb_exec s)" using assms by (auto simp: ew_iteration_def nth_r_def split: if_splits)
  show ?thesis
  proof (cases "\<not> ev_is_read (tb_event s ?x) \<or> \<not> ev_same_object (tb_event s ?x) ew \<or> ev_pid (tb_event s ?x) = ev_pid ew")
    case True
    hence "r = None" using assms i by (simp add: ew_iteration_def nth_r_def Let_def)
    thus ?thesis using True by (auto simp: ev_same_object_iff)
  next
    case False
    obtain ps fm where p: "nth_r (tb_prefix_state s) (int i) = Inr ps"
      "(if ps \<ge> 0 then bind_r (tb_state s ps) (\<lambda>st. bind_r (st_alpha_lead st) (\<lambda>l. Inr (ld_forbidden l))) else Inr sop_false) = Inr fm"
      "r = (if sop_check_evaluation fm (?x, ev_value ew) \<noteq> R_TRUE then Some ?x else None)"
      using assms i False unfolding ew_iteration_def Let_def by (auto simp: nth_r_def elim!: bind_r_InrE split: if_splits)
    have "fm = lead_formula_at s i"
      using p(1,2) by (auto simp: lead_formula_at_def nth_r_def tb_state_def st_alpha_lead_def Let_def
          split: if_splits elim!: bind_r_InrE)
    thus ?thesis using False p(3) by (auto simp: ev_same_object_iff)
  qed
qed

text \<open>C10: the parallel search for the executed reads that could see a new write gives, whatever the order in
  which its iterations enter the critical section, exactly the executed reads of the object by other
  threads that the formula of the current lead of their state does not forbid the written value; and
  if it gives a result in one order, it does in every order.\<close>

theorem exploredWitnesses_schedule_independent:
  assumes "exploredWitnesses cf s ew = Inr out" "set (vf_sched cf (length (tb_exec s))) = {..<length (tb_exec s)}"
    "set sched = {..<length (tb_exec s)}"
  shows "(\<exists>out'. exploredWitnesses (cf\<lparr>vf_sched := \<lambda>_. sched\<rparr>) s ew = Inr out' \<and> set out' = set out) \<and>
    set out = {er. \<exists>i<length (tb_exec s). er = tb_exec s ! i \<and> ev_is_read (tb_event s er) \<and>
       ev_object (tb_event s er) = ev_object ew \<and> ev_pid (tb_event s er) \<noteq> ev_pid ew \<and>
       sop_check_evaluation (lead_formula_at s i) (er, ev_value ew) \<noteq> R_TRUE}"
proof -
  have dbg: "\<not> (vf_dbg cf \<and> \<not> ev_is_write ew)" and
    run: "ew_critical s ew (vf_sched cf (length (tb_exec s))) [] = Inr out"
    using assms(1) by (simp_all add: exploredWitnesses_def assert_d_def split: if_splits)
  have all: "\<forall>i<length (tb_exec s). \<exists>r. ew_iteration s ew i = Inr r"
    using run assms(2) unfolding ew_critical_spec by auto
  have out: "set out = {er. \<exists>i<length (tb_exec s). ew_iteration s ew i = Inr (Some er)}"
    using run assms(2) ew_collect [of s ew "[]"] unfolding ew_critical_spec by auto
  obtain out' where run': "ew_critical s ew sched [] = Inr out'"
    using ew_critical_spec all assms(3) by blast
  hence "set out' = {er. \<exists>i<length (tb_exec s). ew_iteration s ew i = Inr (Some er)}"
    using assms(3) ew_collect [of s ew "[]"] unfolding ew_critical_spec by auto
  moreover have "(ew_iteration s ew i = Inr (Some er)) = (er = tb_exec s ! i \<and> ev_is_read (tb_event s er) \<and>
       ev_object (tb_event s er) = ev_object ew \<and> ev_pid (tb_event s er) \<noteq> ev_pid ew \<and>
       sop_check_evaluation (lead_formula_at s i) (er, ev_value ew) \<noteq> R_TRUE)" if "i < length (tb_exec s)" for i er
  proof -
    obtain r where r: "ew_iteration s ew i = Inr r" using all \<open>i < length (tb_exec s)\<close> by blast
    show ?thesis using ew_iteration_exact [OF r, of er] r by simp
  qed
  hence "{er. \<exists>i<length (tb_exec s). ew_iteration s ew i = Inr (Some er)} =
    {er. \<exists>i<length (tb_exec s). er = tb_exec s ! i \<and> ev_is_read (tb_event s er) \<and>
       ev_object (tb_event s er) = ev_object ew \<and> ev_pid (tb_event s er) \<noteq> ev_pid ew \<and>
       sop_check_evaluation (lead_formula_at s i) (er, ev_value ew) \<noteq> R_TRUE}" by blast
  ultimately show ?thesis using out run' dbg by (simp add: exploredWitnesses_def assert_d_def)
qed

theorem exploredWitnesses_schedule_independent_witness:
  "\<exists>out'. exploredWitnesses (ex_conf\<lparr>vf_sched := \<lambda>_. [1, 0]\<rparr>)
     (ex_builder\<lparr>tb_exec := [IID 1 0, IID 0 0], tb_prefix_state := [- 1, - 1]\<rparr>) (ex_access T_WRITE 2 0 3) = Inr out' \<and>
     set out' = {IID 1 0}"
proof -
  let ?s = "ex_builder\<lparr>tb_exec := [IID 1 0, IID 0 0], tb_prefix_state := [- 1, - 1]\<rparr>"
  have "exploredWitnesses ex_conf ?s (ex_access T_WRITE 2 0 3) = Inr [IID 1 0]" by code_simp
  thus ?thesis
    using exploredWitnesses_schedule_independent [of ex_conf ?s "ex_access T_WRITE 2 0 3" "[IID 1 0]" "[1, 0]"]
    by (auto simp: ex_conf_def lessThan_Suc)
qed

text \<open>the search for an enabled read and write of one object finds a read of such a pair if there is one.\<close>

theorem enabaled_RWpair_read_correct:
  "case enabaled_RWpair_read s of
     Some r \<Rightarrow> r \<in> set (tb_enabled s) \<and> ev_is_read (tb_event s r) \<and>
       (\<exists>w. w \<in> set (tb_enabled s) \<and> ev_RWpair (tb_event s r) (tb_event s w))
   | None \<Rightarrow> \<not> (\<exists>i j. i \<in> set (tb_enabled s) \<and> j \<in> set (tb_enabled s) \<and> ev_RWpair (tb_event s i) (tb_event s j))"
  using rwpair_outer_Some [of "tb_ctx s" "tb_enabled s"] rwpair_outer_None [of "tb_ctx s" "tb_enabled s"]
  by (auto simp: enabaled_RWpair_read_def tb_event_def split: option.split)

end
