(* ===== verification/ViewUnion.thy ===== *)
theory ViewUnion
  imports Prelude ViewBuilder
begin

text \<open>
  Adding leads to the states of the exploration: the union of new leads with those a state has
  (\<open>consistent_union\<close>), which may pass leads on to later states (\<open>forward_lead\<close>) and calls itself on
  those, and the leads kept for reads that a later write could be read by (\<open>EW_leads\<close>, \<open>ei_leads\<close>).
  The depth of the recursion is bounded by fuel.
\<close>

section \<open>Maps of leads\<close>

text \<open>\<open>m[k].push_back(x)\<close>\<close>

definition map_push :: "('k \<times> 'v list) list \<Rightarrow> 'k \<Rightarrow> 'v \<Rightarrow> ('k \<times> 'v list) list" where
  "map_push m k x = AList.update k (map_get [] m k @ [x]) m"

type_synonym lead_map = "(int \<times> lead list) list"

section \<open>Forwarding\<close>

definition forward_lead :: "vconf \<Rightarrow> tbuilder \<Rightarrow> lead_map \<Rightarrow> int \<Rightarrow> lead \<Rightarrow> (bool \<times> lead_map) result" where
  "forward_lead cf s fwd state l =
     bind_r (tb_state s state) (\<lambda>st.
       if st_alpha_empty st then Inr (False, fwd)
       else bind_r (st_alpha_lead st) (\<lambda>al. bind_r (VA_isprefix al l) (\<lambda>p.
         if \<not> p then Inr (False, fwd)
         else bind_r (nth_r (tb_prefix_state s) (int (seq_index_of (tb_exec s) (ev_iid (es_last (ld_merged al)))))) (\<lambda>ps.
           let fs = ps + 1 in
           assert_d cf (0 \<le> fs \<and> fs < int (length (tb_states s)))
             (if fs \<noteq> tb_current_state s
              then bind_r (tb_state s fs) (\<lambda>fst. bind_r (st_alpha_sequence fst) (\<lambda>fc.
                     bind_r (VA_suffix l al) (\<lambda>sfx.
                       bind_r (lead_make (tb_ctx s) (vf_fuel cf) fc sfx (sop_or (ld_forbidden l) (st_forbidden fst)) (st_mem fst)) (\<lambda>fl.
                         bind_r (if ld_pending l then lead_update_pending (tb_ctx s) fl (ld_pending_write l) else Inr fl) (\<lambda>fl.
                           Inr (True, map_push fwd fs fl))))))
              else Inr (True, fwd))))))"

fun forward_suffix_leads :: "vconf \<Rightarrow> tbuilder \<Rightarrow> lead_map \<Rightarrow> int \<Rightarrow> lead list \<Rightarrow> (lead list \<times> lead_map) result" where
  "forward_suffix_leads cf s fwd state [] = Inr ([], fwd)"
| "forward_suffix_leads cf s fwd state (l # L) =
     bind_r (forward_lead cf s fwd state l) (\<lambda>(b, fwd).
       bind_r (forward_suffix_leads cf s fwd state L) (\<lambda>(L', fwd). Inr (if b then L' else l # L', fwd)))"

section \<open>One new lead against the leads of a state\<close>

text \<open>What the loops collect: \<open>rem\<close>, \<open>add\<close> and \<open>L_\<close>.\<close>

record cu_acc =
  cu_rem :: "nat list"
  cu_add :: "lead list"
  cu_extra :: "lead list"

text \<open>The leads behind the first weakly equivalent one.\<close>

fun cu_weak :: "vconf \<Rightarrow> vctx \<Rightarrow> vstate \<Rightarrow> lead \<Rightarrow> lead list \<Rightarrow> lead list \<Rightarrow> lead list result" where
  "cu_weak cf c st l [] extra = Inr extra"
| "cu_weak cf c st l (sl # sls) extra =
     bind_r (st_alpha_sequence st) (\<lambda>a.
       bind_r (if \<not> es_eq (ld_merged sl) a then VA_isweakly_equivalent sl l else Inr False) (\<lambda>w.
         bind_r (if w then prefix_analysis (vf_seq_dbg cf) c (vf_fuel cf) (st_mem st) sl l extra else Inr extra) (\<lambda>extra.
           cu_weak cf c st l sls extra)))"

definition cu_replace :: "nat \<Rightarrow> lead \<Rightarrow> sop_formula \<Rightarrow> cu_acc \<Rightarrow> cu_acc" where
  "cu_replace k sl f acc = acc\<lparr>cu_rem := us_insert k (cu_rem acc), cu_add := cu_add acc @ [lead_copy sl f]\<rparr>"

fun cu_existing :: "vconf \<Rightarrow> vctx \<Rightarrow> vstate \<Rightarrow> lead \<Rightarrow> nat \<Rightarrow> lead list \<Rightarrow> cu_acc \<Rightarrow> (bool \<times> cu_acc) result" where
  "cu_existing cf c st l k [] acc = Inr (False, acc)"
| "cu_existing cf c st l k (sl # sls) acc =
     (if lead_eq l sl then Inr (True, cu_replace k sl (sop_or (ld_forbidden l) (ld_forbidden sl)) acc)
      else bind_r (VA_equivalent (vf_fuel cf) sl l) (\<lambda>eq.
        if eq
        then Inr (True, if \<not> ld_done sl then cu_replace k sl (sop_or (ld_forbidden l) (ld_forbidden sl)) acc else acc)
        else bind_r (st_alpha_sequence st) (\<lambda>a.
          bind_r (if \<not> es_eq (ld_merged sl) a then VA_isprefix sl l else Inr False) (\<lambda>p.
            if p
            then if \<not> ld_done sl
                 then bind_r (sop_and (ld_forbidden l) (ld_forbidden sl)) (\<lambda>f. Inr (True, cu_replace k sl f acc))
                 else Inr (True, acc)
            else bind_r (if \<not> es_eq (ld_merged sl) a then VA_isweakly_equivalent sl l else Inr False) (\<lambda>w.
              if w
              then bind_r (prefix_analysis (vf_seq_dbg cf) c (vf_fuel cf) (st_mem st) sl l (cu_extra acc)) (\<lambda>extra.
                     bind_r (cu_weak cf c st l sls extra) (\<lambda>extra. Inr (True, acc\<lparr>cu_extra := extra\<rparr>)))
              else cu_existing cf c st l (Suc k) sls acc)))))"

fun cu_loop :: "vconf \<Rightarrow> tbuilder \<Rightarrow> int \<Rightarrow> vstate \<Rightarrow> lead list \<Rightarrow> cu_acc \<Rightarrow> lead_map \<Rightarrow> (lead list \<times> cu_acc \<times> lead_map) result" where
  "cu_loop cf s state st [] acc fwd = Inr ([], acc, fwd)"
| "cu_loop cf s state st (l # L) acc fwd =
     (if ld_merged l = [] then cu_loop cf s state st L acc fwd
      else bind_r (cu_existing cf (tb_ctx s) st l 0 (st_leads st) acc) (\<lambda>(combined, acc).
        if combined then cu_loop cf s state st L acc fwd
        else bind_r (forward_lead cf s fwd state l) (\<lambda>(b, fwd).
          bind_r (cu_loop cf s state st L acc fwd) (\<lambda>(L', acc, fwd). Inr (if b then L' else l # L', acc, fwd)))))"

section \<open>Union\<close>

definition cu_remove :: "nat list \<Rightarrow> lead list \<Rightarrow> lead list result" where
  "cu_remove rem leads = fold_r (\<lambda>ls k. erase_at k ls) leads (rev (sort rem))"

primrec consistent_union_n :: "nat \<Rightarrow> vconf \<Rightarrow> tbuilder \<Rightarrow> int \<Rightarrow> lead list \<Rightarrow> tbuilder result" where
  "consistent_union_n 0 cf s state L = Inl Out_of_fuel"
| "consistent_union_n (Suc n) cf s state L =
     bind_r (remove_duplicate_leads (vf_fuel cf) L) (\<lambda>L.
       bind_r (tb_state s state) (\<lambda>st.
         if st_leads st = []
         then bind_r (forward_suffix_leads cf s [] state L) (\<lambda>(L, fwd).
                bind_r (fold_r (\<lambda>s (i, FL). consistent_union_n n cf s i FL) s fwd) (\<lambda>s.
                  tb_set_state s state (\<lambda>st. st\<lparr>st_leads := L\<rparr>)))
         else bind_r (cu_loop cf s state st L \<lparr>cu_rem = [], cu_add = [], cu_extra = []\<rparr> []) (\<lambda>(L, acc, fwd).
                bind_r (cu_remove (cu_rem acc) (st_leads st)) (\<lambda>leads.
                  bind_r (tb_set_state s state (\<lambda>st. st\<lparr>st_leads := leads @ cu_add acc @ L\<rparr>)) (\<lambda>s.
                    bind_r (fold_r (\<lambda>s (i, FL). consistent_union_n n cf s i FL) s fwd) (\<lambda>s.
                      if cu_extra acc \<noteq> [] then consistent_union_n n cf s state (cu_extra acc) else Inr s))))))"

definition consistent_union :: "vconf \<Rightarrow> tbuilder \<Rightarrow> int \<Rightarrow> lead list \<Rightarrow> tbuilder result" where
  "consistent_union cf s state L = consistent_union_n (vf_fuel cf) cf s state L"

definition consistent_union_lead :: "vconf \<Rightarrow> tbuilder \<Rightarrow> int \<Rightarrow> lead \<Rightarrow> tbuilder result" where
  "consistent_union_lead cf s state l = consistent_union cf s state [l]"

section \<open>Pending leads\<close>

definition forbid_value_for_ei_leads :: "tbuilder \<Rightarrow> int \<Rightarrow> int iid \<Rightarrow> int \<Rightarrow> tbuilder result" where
  "forbid_value_for_ei_leads s state rd v =
     bind_r (tb_state s state) (\<lambda>st.
       if \<not> st_fwd st then Inr s
       else if st_fwd_read st \<noteq> rd then Inr s
       else tb_set_state s state (\<lambda>st. st\<lparr>st_ei_leads :=
              map (\<lambda>(i, ls). (i, map (\<lambda>l. lead_copy l (sop_or_term (ld_forbidden l) (rd, v))) ls)) (st_ei_leads st)\<rparr>))"

definition add_EW_leads :: "vconf \<Rightarrow> tbuilder \<Rightarrow> int \<Rightarrow> tbuilder result" where
  "add_EW_leads cf s state =
     (case map_of (tb_EW_leads s) state of
        None \<Rightarrow> Inr s
      | Some m \<Rightarrow>
          bind_r (fold_r (\<lambda>s (rd, vm). fold_r (\<lambda>s (v, ls).
                    bind_r (consistent_union cf s state ls) (\<lambda>s. forbid_value_for_ei_leads s state rd v)) s vm) s m) (\<lambda>s.
            Inr (s\<lparr>tb_EW_leads := AList.delete state (tb_EW_leads s)\<rparr>)))"

section \<open>Erasures\<close>

lemma erase_descending:
  assumes "sorted_wrt (>) ks" "\<forall>k\<in>set ks. k < length xs"
  shows "fold_r (\<lambda>ls k. erase_at k ls) xs ks = Inr (nths xs (- set ks))"
  using assms
proof (induction ks arbitrary: xs)
  case Nil
  show ?case by (simp add: nths_all)
next
  case (Cons k ks)
  let ?ys = "take k xs @ drop (Suc k) xs"
  have k: "k < length xs" "\<forall>j\<in>set ks. j < k" using Cons.prems by auto
  have "fold_r (\<lambda>ls k. erase_at k ls) ?ys ks = Inr (nths ?ys (- set ks))"
    by (rule Cons.IH) (use Cons.prems(1) k in auto)
  moreover have "nths ?ys (- set ks) = nths xs (- set (k # ks))"
  proof -
    have xs: "xs = take k xs @ xs ! k # drop (Suc k) xs" using id_take_nth_drop [OF k(1)] .
    have l: "length (take k xs) = k" using k(1) by simp
    have rest: "{j. j + k \<in> - set ks} = UNIV" "{j. Suc j + k \<in> - set (k # ks)} = UNIV" "k \<notin> - set (k # ks)"
      using k(2) by fastforce+
    have "nths (take k xs) (- set (k # ks)) = nths (take k xs) (- set ks)"
      unfolding nths_def using l by (intro arg_cong [of _ _ "map fst"] filter_cong) (auto dest: set_zip_rightD)
    moreover have "nths xs (- set (k # ks)) = nths (take k xs) (- set (k # ks)) @ nths (drop (Suc k) xs) UNIV"
    proof -
      have "nths xs (- set (k # ks)) = nths (take k xs @ xs ! k # drop (Suc k) xs) (- set (k # ks))" using xs by simp
      also have "\<dots> = nths (take k xs) (- set (k # ks)) @ nths (xs ! k # drop (Suc k) xs) {j. j + k \<in> - set (k # ks)}"
        by (simp only: nths_append l)
      also have "nths (xs ! k # drop (Suc k) xs) {j. j + k \<in> - set (k # ks)} = nths (drop (Suc k) xs) UNIV"
        using rest(2) by (simp add: nths_Cons)
      finally show ?thesis .
    qed
    ultimately show ?thesis unfolding nths_append l rest(1) by simp
  qed
  ultimately show ?case using k(1) by (simp add: erase_at_def)
qed

lemma cu_remove_nths:
  assumes "distinct rem" "\<forall>k\<in>set rem. k < length leads"
  shows "cu_remove rem leads = Inr (nths leads (- set rem))"
proof -
  have "sorted_wrt (<) (sort rem)" using assms(1) by (simp add: strict_sorted_iff)
  hence "sorted_wrt (>) (rev (sort rem))" by (simp add: sorted_wrt_rev)
  thus ?thesis unfolding cu_remove_def using assms(2) by (subst erase_descending) simp_all
qed

section \<open>What a union changes\<close>

text \<open>An unexplored lead with the sequences of \<open>l\<close>, whatever its formula.\<close>

definition pending_as :: "lead \<Rightarrow> lead \<Rightarrow> bool" where
  "pending_as l l' =
     (\<not> ld_done l' \<and> ld_constraint l' = ld_constraint l \<and> ld_start l' = ld_start l \<and> ld_merged l' = ld_merged l)"

definition keeps_pending :: "lead list \<Rightarrow> lead list \<Rightarrow> bool" where
  "keeps_pending L L' = (\<forall>l\<in>set L. \<not> ld_done l \<longrightarrow> (\<exists>l'\<in>set L'. pending_as l l'))"

definition st_frame :: "vstate \<Rightarrow> vstate \<Rightarrow> bool" where
  "st_frame st st' = (\<exists>L. st' = st\<lparr>st_leads := L\<rparr> \<and> keeps_pending (st_leads st) L)"

text \<open>Only the lists of leads change, and no unexplored lead is lost.\<close>

definition union_frame :: "tbuilder \<Rightarrow> tbuilder \<Rightarrow> bool" where
  "union_frame s s' = (\<exists>sts. s' = s\<lparr>tb_states := sts\<rparr> \<and> list_all2 st_frame (tb_states s) sts)"

lemma pending_as_refl: "\<not> ld_done l \<Longrightarrow> pending_as l l"
  by (simp add: pending_as_def)

lemma pending_as_copy: "pending_as l (lead_copy l f)"
  by (simp add: pending_as_def lead_copy_def lead_empty_def)

lemma keeps_pending_refl: "keeps_pending L L"
  using pending_as_refl unfolding keeps_pending_def by blast

lemma keeps_pending_trans: "keeps_pending L M \<Longrightarrow> keeps_pending M N \<Longrightarrow> keeps_pending L N"
  unfolding keeps_pending_def pending_as_def by metis

lemma st_frame_refl: "st_frame st st"
  using keeps_pending_refl [of "st_leads st"] unfolding st_frame_def by (intro exI [of _ "st_leads st"]) simp

lemma st_frame_trans:
  assumes "st_frame a b" "st_frame b d"
  shows "st_frame a d"
proof -
  obtain L M where "b = a\<lparr>st_leads := L\<rparr>" "keeps_pending (st_leads a) L" "d = b\<lparr>st_leads := M\<rparr>" "keeps_pending (st_leads b) M"
    using assms unfolding st_frame_def by blast
  thus ?thesis unfolding st_frame_def by (intro exI [of _ M]) (simp add: keeps_pending_trans)
qed

lemma union_frame_refl: "union_frame s s"
  unfolding union_frame_def by (intro exI [of _ "tb_states s"]) (simp add: list_all2_refl st_frame_refl)

lemma union_frame_trans:
  assumes "union_frame a b" "union_frame b d"
  shows "union_frame a d"
proof -
  obtain S T where S: "b = a\<lparr>tb_states := S\<rparr>" "list_all2 st_frame (tb_states a) S"
    and T: "d = b\<lparr>tb_states := T\<rparr>" "list_all2 st_frame (tb_states b) T"
    using assms unfolding union_frame_def by blast
  have "list_all2 st_frame S T" using S(1) T(2) by simp
  hence "list_all2 st_frame (tb_states a) T" using list_all2_trans [OF _ S(2)] st_frame_trans by blast
  moreover have "d = a\<lparr>tb_states := T\<rparr>" using S(1) T(1) by simp
  ultimately show ?thesis unfolding union_frame_def by blast
qed

lemma union_frame_state:
  assumes "union_frame s s'" "tb_state s i = Inr st"
  obtains st' where "tb_state s' i = Inr st'" "st_frame st st'"
  using assms by (auto simp: union_frame_def tb_state_def nth_r_def list_all2_conv_all_nth split: if_splits)

lemma set_leads_frame:
  assumes "tb_set_state s state (\<lambda>st. st\<lparr>st_leads := L\<rparr>) = Inr s'" "tb_state s state = Inr st" "keeps_pending (st_leads st) L"
  shows "union_frame s s'"
proof -
  let ?i = "nat state" and ?f = "\<lambda>st :: vstate. st\<lparr>st_leads := L\<rparr>"
  have i: "0 \<le> state" "?i < length (tb_states s)" "tb_states s ! ?i = st"
    using assms(2) by (auto simp: tb_state_def nth_r_def split: if_splits)
  hence s': "s' = s\<lparr>tb_states := (tb_states s)[?i := ?f st]\<rparr>"
    using assms(1) by (simp add: tb_set_state_def upd_r_def)
  have "st_frame (tb_states s ! j) ((tb_states s)[?i := ?f st] ! j)" if "j < length (tb_states s)" for j
    using that i assms(3) st_frame_refl by (cases "j = ?i") (auto simp: st_frame_def)
  hence "list_all2 st_frame (tb_states s) ((tb_states s)[?i := ?f st])"
    by (simp add: list_all2_conv_all_nth)
  thus ?thesis using s' unfolding union_frame_def by blast
qed

section \<open>The loops of the union\<close>

definition covers :: "vconf \<Rightarrow> lead \<Rightarrow> lead \<Rightarrow> bool" where
  "covers cf sl l =
     (lead_eq l sl \<or> VA_equivalent (vf_fuel cf) sl l = Inr True \<or> VA_isprefix sl l = Inr True \<or>
      VA_isweakly_equivalent sl l = Inr True)"

definition acc_ok :: "lead list \<Rightarrow> cu_acc \<Rightarrow> bool" where
  "acc_ok leads acc =
     (distinct (cu_rem acc) \<and>
      (\<forall>k\<in>set (cu_rem acc). k < length leads \<and> (\<exists>l'\<in>set (cu_add acc). pending_as (leads ! k) l')))"

lemma acc_ok_extra [simp]: "acc_ok leads (acc\<lparr>cu_extra := m\<rparr>) = acc_ok leads acc"
  by (simp add: acc_ok_def)

lemma acc_ok_replace:
  assumes "acc_ok leads acc" "k < length leads" "leads ! k = sl"
  shows "acc_ok leads (cu_replace k sl f acc)"
  using assms pending_as_copy [of sl f] unfolding acc_ok_def cu_replace_def by auto

lemma cu_existing_spec:
  assumes "cu_existing cf c st l k sls acc = Inr (b, acc')" "drop k leads = sls" "acc_ok leads acc"
  shows "acc_ok leads acc' \<and> (b \<longrightarrow> (\<exists>sl\<in>set sls. covers cf sl l)) \<and> (\<not> b \<longrightarrow> acc' = acc)"
  using assms
proof (induction sls arbitrary: k)
  case (Cons sl sls)
  have k: "k < length leads" "leads ! k = sl" "drop (Suc k) leads = sls"
    using Cons.prems(2)
    by (metis drop_all leI list.distinct(1), metis nth_via_drop, metis drop_Suc drop_tl list.sel(3))
  note rep = acc_ok_replace [OF Cons.prems(3) k(1,2)]
  show ?case
  proof (cases "lead_eq l sl")
    case True
    thus ?thesis using Cons.prems(1) rep by (auto simp: covers_def)
  next
    case neq: False
    obtain eq where eq: "VA_equivalent (vf_fuel cf) sl l = Inr eq"
      using Cons.prems(1) neq by (auto elim: bind_r_InrE)
    show ?thesis
    proof (cases eq)
      case True
      thus ?thesis using Cons.prems(1,3) neq eq rep by (auto simp: covers_def split: if_splits)
    next
      case False
      obtain a where a: "st_alpha_sequence st = Inr a" using Cons.prems(1) neq eq False by (auto elim: bind_r_InrE)
      obtain p where p: "(if \<not> es_eq (ld_merged sl) a then VA_isprefix sl l else Inr False) = Inr p"
        using Cons.prems(1) neq eq False a by (auto elim: bind_r_InrE)
      show ?thesis
      proof (cases p)
        case True
        hence "covers cf sl l" using p by (simp add: covers_def split: if_splits)
        thus ?thesis using Cons.prems(1,3) neq eq False a p True rep
          by (auto split: if_splits elim!: bind_r_InrE)
      next
        case np: False
        obtain w where w: "(if \<not> es_eq (ld_merged sl) a then VA_isweakly_equivalent sl l else Inr False) = Inr w"
          using Cons.prems(1) neq eq False a p np by (auto elim: bind_r_InrE)
        show ?thesis
        proof (cases w)
          case True
          hence "covers cf sl l" using w by (simp add: covers_def split: if_splits)
          thus ?thesis using Cons.prems(1,3) neq eq False a p np w True
            by (auto elim!: bind_r_InrE)
        next
          case nw: False
          have "cu_existing cf c st l (Suc k) sls acc = Inr (b, acc')"
            using Cons.prems(1) neq eq False a p np w nw by simp
          thus ?thesis using Cons.IH [OF _ k(3) Cons.prems(3)] by auto
        qed
      qed
    qed
  qed
qed simp

lemma forward_lead_True:
  assumes "forward_lead cf s fwd state l = Inr (True, fwd')"
  shows "\<exists>st al. tb_state s state = Inr st \<and> st_alpha_lead st = Inr al \<and> VA_isprefix al l = Inr True"
proof -
  obtain st where st: "tb_state s state = Inr st" using assms by (auto simp: forward_lead_def elim: bind_r_InrE)
  hence ne: "\<not> st_alpha_empty st" using assms by (auto simp: forward_lead_def)
  then obtain al where al: "st_alpha_lead st = Inr al" using assms st by (auto simp: forward_lead_def elim: bind_r_InrE)
  then obtain p where "VA_isprefix al l = Inr p" using assms st ne by (auto simp: forward_lead_def elim: bind_r_InrE)
  thus ?thesis using assms st ne al by (cases p) (auto simp: forward_lead_def)
qed

text \<open>\<open>fs\<close> is the state behind the last event of the current lead of \<open>st\<close>, which is a prefix of \<open>l\<close>.\<close>

definition forwarded :: "tbuilder \<Rightarrow> vstate \<Rightarrow> lead \<Rightarrow> int \<Rightarrow> bool" where
  "forwarded s st l fs =
     (\<exists>al ps. st_alpha_lead st = Inr al \<and> VA_isprefix al l = Inr True \<and>
        nth_r (tb_prefix_state s) (int (seq_index_of (tb_exec s) (ev_iid (es_last (ld_merged al))))) = Inr ps \<and> fs = ps + 1)"

text \<open>The lead that is made of the rest of \<open>l\<close> for the state \<open>fs\<close>: the current lead of \<open>fs\<close> is its
  constraint, what \<open>l\<close> has beyond the current lead of \<open>st\<close> its start.\<close>

definition remainder :: "vconf \<Rightarrow> tbuilder \<Rightarrow> vstate \<Rightarrow> lead \<Rightarrow> int \<Rightarrow> lead \<Rightarrow> bool" where
  "remainder cf s st l fs fl =
     (\<exists>al fst fc sfx nl. st_alpha_lead st = Inr al \<and> tb_state s fs = Inr fst \<and> st_alpha_sequence fst = Inr fc \<and>
        VA_suffix l al = Inr sfx \<and>
        lead_make (tb_ctx s) (vf_fuel cf) fc sfx (sop_or (ld_forbidden l) (st_forbidden fst)) (st_mem fst) = Inr nl \<and>
        (if ld_pending l then lead_update_pending (tb_ctx s) nl (ld_pending_write l) = Inr fl else fl = nl))"

text \<open>What has become of a lead that extends the current one: nothing where it belongs to the state that
  is being explored, else its rest is among the leads passed on.\<close>

definition passed_on :: "vconf \<Rightarrow> tbuilder \<Rightarrow> vstate \<Rightarrow> lead_map \<Rightarrow> lead \<Rightarrow> bool" where
  "passed_on cf s st fwd l =
     (\<exists>fs. forwarded s st l fs \<and>
        (fs = tb_current_state s \<or> (\<exists>fl. remainder cf s st l fs fl \<and> fl \<in> set (map_get [] fwd fs))))"

text \<open>The leads passed on are rests of leads of \<open>L\<close>.\<close>

definition rests_of :: "vconf \<Rightarrow> tbuilder \<Rightarrow> vstate \<Rightarrow> lead list \<Rightarrow> int \<Rightarrow> lead list \<Rightarrow> bool" where
  "rests_of cf s st L fs FL = (\<forall>f\<in>set FL. \<exists>k\<in>set L. forwarded s st k fs \<and> remainder cf s st k fs f)"

definition fwd_ok :: "vconf \<Rightarrow> tbuilder \<Rightarrow> vstate \<Rightarrow> lead list \<Rightarrow> lead_map \<Rightarrow> bool" where
  "fwd_ok cf s st L fwd = (\<forall>fs. rests_of cf s st L fs (map_get [] fwd fs))"

definition fwd_grows :: "lead_map \<Rightarrow> lead_map \<Rightarrow> bool" where
  "fwd_grows fwd fwd' = (\<forall>k. set (map_get [] fwd k) \<subseteq> set (map_get [] fwd' k))"

lemma map_get_push [simp]: "map_get [] (map_push m k x) j = (if j = k then map_get [] m k @ [x] else map_get [] m j)"
  by (simp add: map_push_def map_get_def update_conv')

lemma fwd_grows_refl [simp]: "fwd_grows fwd fwd"
  and fwd_grows_push [simp]: "fwd_grows fwd (map_push fwd k x)"
  by (auto simp: fwd_grows_def)

lemma fwd_grows_trans: "fwd_grows f g \<Longrightarrow> fwd_grows g h \<Longrightarrow> fwd_grows f h"
  by (fastforce simp: fwd_grows_def)

lemma fwd_ok_mono: "fwd_ok cf s st L fwd \<Longrightarrow> set L \<subseteq> set M \<Longrightarrow> fwd_ok cf s st M fwd"
  unfolding fwd_ok_def rests_of_def by blast

lemma passed_on_grows: "passed_on cf s st fwd l \<Longrightarrow> fwd_grows fwd fwd' \<Longrightarrow> passed_on cf s st fwd' l"
  unfolding passed_on_def fwd_grows_def by blast

lemma lead_done_make:
  "lead_make c n es q f m = Inr l \<Longrightarrow> \<not> ld_done l"
  by (auto simp: lead_make_def lead_add_pending_def lead_empty_def elim!: bind_r_InrE split: if_splits prod.splits)

lemma lead_done_update:
  "lead_update_pending c l w = Inr l' \<Longrightarrow> ld_done l' = ld_done l"
  by (auto simp: lead_update_pending_def elim!: bind_r_InrE split: if_splits)

lemma rests_unexplored: "rests_of cf s st L fs FL \<Longrightarrow> f \<in> set FL \<Longrightarrow> \<not> ld_done f"
  unfolding rests_of_def remainder_def using lead_done_make lead_done_update by (metis (full_types))

text \<open>A lead that is forwarded is pushed, or belongs to the current state; one that is not changes nothing.\<close>

lemma forward_lead_spec:
  assumes f: "forward_lead cf s fwd state l = Inr (b, fwd')" and st: "tb_state s state = Inr st" and ok: "fwd_ok cf s st L fwd"
    and l: "l \<in> set L"
  shows "fwd_ok cf s st L fwd' \<and> fwd_grows fwd fwd' \<and> (if b then passed_on cf s st fwd' l else fwd' = fwd)"
proof (cases "st_alpha_empty st")
  case True
  thus ?thesis using f st ok by (simp add: forward_lead_def)
next
  case ne: False
  obtain al where al: "st_alpha_lead st = Inr al" using f st ne by (auto simp: forward_lead_def elim!: bind_r_InrE)
  obtain p where p: "VA_isprefix al l = Inr p" using f st ne al by (auto simp: forward_lead_def elim!: bind_r_InrE)
  show ?thesis
  proof (cases p)
    case False
    thus ?thesis using f st ne al p ok by (simp add: forward_lead_def)
  next
    case True
    obtain ps where ps: "nth_r (tb_prefix_state s) (int (seq_index_of (tb_exec s) (ev_iid (es_last (ld_merged al))))) = Inr ps"
      using f st ne al p True by (auto simp: forward_lead_def elim!: bind_r_InrE)
    hence fw: "forwarded s st l (ps + 1)" using al p True unfolding forwarded_def by simp
    have run: "(let fs = ps + 1 in
           assert_d cf (0 \<le> fs \<and> fs < int (length (tb_states s)))
             (if fs \<noteq> tb_current_state s
              then bind_r (tb_state s fs) (\<lambda>fst. bind_r (st_alpha_sequence fst) (\<lambda>fc.
                     bind_r (VA_suffix l al) (\<lambda>sfx.
                       bind_r (lead_make (tb_ctx s) (vf_fuel cf) fc sfx (sop_or (ld_forbidden l) (st_forbidden fst)) (st_mem fst)) (\<lambda>fl.
                         bind_r (if ld_pending l then lead_update_pending (tb_ctx s) fl (ld_pending_write l) else Inr fl) (\<lambda>fl.
                           Inr (True, map_push fwd fs fl))))))
              else Inr (True, fwd))) = Inr (b, fwd')"
      using f True ne by (simp add: forward_lead_def st al p ps)
    show ?thesis
    proof (cases "ps + 1 = tb_current_state s")
      case True
      hence "b \<and> fwd' = fwd" using run by (auto simp: Let_def assert_d_def split: if_splits)
      thus ?thesis using fw True ok unfolding passed_on_def by auto
    next
      case False
      obtain fst fc sfx nl fl where r: "tb_state s (ps + 1) = Inr fst" "st_alpha_sequence fst = Inr fc" "VA_suffix l al = Inr sfx"
        "lead_make (tb_ctx s) (vf_fuel cf) fc sfx (sop_or (ld_forbidden l) (st_forbidden fst)) (st_mem fst) = Inr nl"
        "(if ld_pending l then lead_update_pending (tb_ctx s) nl (ld_pending_write l) else Inr nl) = Inr fl"
        "b" "fwd' = map_push fwd (ps + 1) fl"
        using run False by (auto simp: assert_d_def Let_def split: if_splits elim!: bind_r_InrE)
      have rm: "remainder cf s st l (ps + 1) fl" unfolding remainder_def using al r(1-5) by (auto split: if_splits)
      moreover have "fwd_ok cf s st L fwd'"
        using ok rm fw l r(7) unfolding fwd_ok_def rests_of_def by auto
      ultimately show ?thesis using fw r(6,7) unfolding passed_on_def by auto
    qed
  qed
qed

lemma cu_loop_spec:
  assumes "cu_loop cf s state st L acc fwd = Inr (L', acc', fwd')" "tb_state s state = Inr st"
    "acc_ok (st_leads st) acc" "fwd_ok cf s st M fwd" "set L \<subseteq> set M"
  shows "acc_ok (st_leads st) acc' \<and> set L' \<subseteq> set L \<and> fwd_ok cf s st M fwd' \<and> fwd_grows fwd fwd' \<and>
    (\<forall>l\<in>set L. l \<in> set L' \<or> ld_merged l = [] \<or> (\<exists>sl\<in>set (st_leads st). covers cf sl l) \<or> passed_on cf s st fwd' l)"
  using assms
proof (induction L arbitrary: acc fwd L')
  case (Cons l L)
  show ?case
  proof (cases "ld_merged l = []")
    case True
    thus ?thesis using Cons.IH [OF _ Cons.prems(2-4)] Cons.prems(1,5) by auto
  next
    case False
    obtain b acc1 where e: "cu_existing cf (tb_ctx s) st l 0 (st_leads st) acc = Inr (b, acc1)"
      using Cons.prems(1) False by (auto elim!: bind_r_InrE)
    note spec = cu_existing_spec [OF e _ Cons.prems(3)]
    show ?thesis
    proof (cases b)
      case True
      thus ?thesis using Cons.IH [of acc1 fwd L'] Cons.prems(1,2,4,5) False e spec by auto
    next
      case nb: False
      obtain b' fwd1 where f: "forward_lead cf s fwd state l = Inr (b', fwd1)"
        using Cons.prems(1) False e nb by (auto elim!: bind_r_InrE)
      obtain L1 where L1: "cu_loop cf s state st L acc1 fwd1 = Inr (L1, acc', fwd')" "L' = (if b' then L1 else l # L1)"
        using Cons.prems(1) False e nb f by (auto elim!: bind_r_InrE)
      have lM: "l \<in> set M" "set L \<subseteq> set M" using Cons.prems(5) by auto
      note fs = forward_lead_spec [OF f Cons.prems(2,4) lM(1)]
      have "acc1 = acc" using spec nb by simp
      have IH: "acc_ok (st_leads st) acc' \<and> set L1 \<subseteq> set L \<and> fwd_ok cf s st M fwd' \<and> fwd_grows fwd1 fwd' \<and>
          (\<forall>l\<in>set L. l \<in> set L1 \<or> ld_merged l = [] \<or> (\<exists>sl\<in>set (st_leads st). covers cf sl l) \<or> passed_on cf s st fwd' l)"
        by (rule Cons.IH [OF L1(1) Cons.prems(2) _ _ lM(2)]) (use fs \<open>acc1 = acc\<close> Cons.prems(3) in auto)
      have "b' \<Longrightarrow> passed_on cf s st fwd' l" using fs IH passed_on_grows by auto
      moreover have "fwd_grows fwd fwd'" using fs IH fwd_grows_trans by blast
      ultimately show ?thesis using IH fs L1(2) by auto
    qed
  qed
qed simp

lemma fsl_no_alpha:
  assumes "forward_suffix_leads cf s fwd state L = Inr (L', fwd')" "tb_state s state = Inr st" "st_leads st = []"
  shows "L' = L \<and> fwd' = fwd"
  using assms
proof (induction L arbitrary: L' fwd)
  case (Cons l L)
  have no: "st_alpha_lead st \<noteq> Inr al" for al using Cons.prems(3) by (simp add: st_alpha_lead_def)
  obtain b fwd1 where f: "forward_lead cf s fwd state l = Inr (b, fwd1)"
    using Cons.prems(1) by (auto elim!: bind_r_InrE)
  hence b: "\<not> b" using forward_lead_True no Cons.prems(2) by (metis (full_types) sum.inject(2))
  have "fwd1 = fwd"
    using f Cons.prems(2) no by (auto simp: forward_lead_def split: if_splits elim!: bind_r_InrE)
  thus ?case using Cons.prems(1) f b Cons.IH [OF _ Cons.prems(2,3)] by (auto elim!: bind_r_InrE)
qed simp

section \<open>Union as a whole\<close>

lemma keeps_pending_union:
  assumes "acc_ok leads acc"
  shows "keeps_pending leads (nths leads (- set (cu_rem acc)) @ cu_add acc @ L)"
  unfolding keeps_pending_def
proof (intro ballI impI)
  fix l assume l: "l \<in> set leads" "\<not> ld_done l"
  then obtain k where k: "k < length leads" "leads ! k = l" by (auto simp: in_set_conv_nth)
  show "\<exists>l'\<in>set (nths leads (- set (cu_rem acc)) @ cu_add acc @ L). pending_as l l'"
  proof (cases "k \<in> set (cu_rem acc)")
    case True
    thus ?thesis using assms k unfolding acc_ok_def by auto
  next
    case False
    hence "l \<in> set (nths leads (- set (cu_rem acc)))" using k by (auto simp: set_nths)
    thus ?thesis using pending_as_refl [OF l(2)] by auto
  qed
qed

lemma tb_set_state_state:
  assumes "tb_set_state s i g = Inr s'" "tb_state s i = Inr st"
  shows "tb_state s' i = Inr (g st)"
  using assms by (auto simp: tb_set_state_def upd_r_def tb_state_def nth_r_def split: if_splits elim!: bind_r_InrE)

text \<open>The steps of one level: the leads of the state first, then the recursive calls.\<close>

lemma consistent_union_n_step:
  assumes run: "consistent_union_n (Suc n) cf s state L = Inr s'"
    and rec: "\<And>s i FL s'. consistent_union_n n cf s i FL = Inr s' \<Longrightarrow> union_frame s s'"
  obtains L0 st s1 fwd s2 where "remove_duplicate_leads (vf_fuel cf) L = Inr L0" "tb_state s state = Inr st"
    "union_frame s s1" "fold_r (\<lambda>s (i, FL). consistent_union_n n cf s i FL) s1 fwd = Inr s2" "union_frame s2 s'" "fwd_ok cf s st L0 fwd"
    "\<forall>l\<in>set L0. ld_merged l = [] \<or> (\<exists>sl\<in>set (st_leads st). covers cf sl l) \<or> passed_on cf s st fwd l \<or>
       (\<exists>st1. tb_state s1 state = Inr st1 \<and> l \<in> set (st_leads st1))"
proof -
  obtain L0 where L0: "remove_duplicate_leads (vf_fuel cf) L = Inr L0" using run by (auto elim!: bind_r_InrE)
  obtain st where st: "tb_state s state = Inr st" using run L0 by (auto elim!: bind_r_InrE)
  have none: "fwd_ok cf s st L0 []" by (simp add: fwd_ok_def rests_of_def map_get_def)
  show thesis
  proof (cases "st_leads st = []")
    case True
    obtain L1 fwd where f: "forward_suffix_leads cf s [] state L0 = Inr (L1, fwd)"
      using run L0 st True by (auto elim!: bind_r_InrE)
    hence e: "L1 = L0" "fwd = []" using fsl_no_alpha [OF f st True] by auto
    have set: "tb_set_state s state (\<lambda>st. st\<lparr>st_leads := L0\<rparr>) = Inr s'" using run L0 st True f e by simp
    have "keeps_pending (st_leads st) L0" using True by (simp add: keeps_pending_def)
    hence "union_frame s s'" by (rule set_leads_frame [OF set st])
    moreover have "tb_state s' state = Inr (st\<lparr>st_leads := L0\<rparr>)" by (rule tb_set_state_state [OF set st])
    ultimately show thesis using that [OF L0 st, of s' "[]" s'] none union_frame_refl by simp
  next
    case False
    let ?acc = "\<lparr>cu_rem = [], cu_add = [], cu_extra = []\<rparr>"
    obtain L1 acc fwd where l: "cu_loop cf s state st L0 ?acc [] = Inr (L1, acc, fwd)"
      using run L0 st False by (auto elim!: bind_r_InrE)
    have ok: "acc_ok (st_leads st) ?acc" by (simp add: acc_ok_def)
    note spec = cu_loop_spec [OF l st ok none subset_refl]
    let ?new = "nths (st_leads st) (- set (cu_rem acc)) @ cu_add acc @ L1"
    have rem: "cu_remove (cu_rem acc) (st_leads st) = Inr (nths (st_leads st) (- set (cu_rem acc)))"
      by (rule cu_remove_nths) (use spec in \<open>auto simp: acc_ok_def\<close>)
    obtain s1 where s1: "tb_set_state s state (\<lambda>st. st\<lparr>st_leads := ?new\<rparr>) = Inr s1"
      using run L0 st False l rem by (auto elim!: bind_r_InrE)
    obtain s2 where s2: "fold_r (\<lambda>s (i, FL). consistent_union_n n cf s i FL) s1 fwd = Inr s2"
      "(if cu_extra acc \<noteq> [] then consistent_union_n n cf s2 state (cu_extra acc) else Inr s2) = Inr s'"
      using run L0 st False l rem s1 by (auto elim!: bind_r_InrE)
    have "union_frame s s1" using set_leads_frame [OF s1 st keeps_pending_union] spec by blast
    moreover have "union_frame s2 s'"
      using s2(2) rec [of s2 state "cu_extra acc" s'] union_frame_refl by (auto split: if_splits)
    moreover have "tb_state s1 state = Inr (st\<lparr>st_leads := ?new\<rparr>)" by (rule tb_set_state_state [OF s1 st])
    ultimately show thesis using that [OF L0 st _ s2(1)] spec by auto
  qed
qed

lemma union_fold_frame:
  assumes "fold_r (\<lambda>s (i, FL). consistent_union_n n cf s i FL) a fwd = Inr b"
    and rec: "\<And>s i FL s'. consistent_union_n n cf s i FL = Inr s' \<Longrightarrow> union_frame s s'"
  shows "union_frame a b"
  by (rule fold_r_rel [OF assms(1)]) (use union_frame_refl union_frame_trans rec in \<open>auto split: prod.splits\<close>)

lemma consistent_union_n_frame:
  "consistent_union_n n cf s state L = Inr s' \<Longrightarrow> union_frame s s'"
proof (induction n arbitrary: s state L s')
  case (Suc n)
  obtain L0 st s1 fwd s2 where s: "union_frame s s1" "fold_r (\<lambda>s (i, FL). consistent_union_n n cf s i FL) s1 fwd = Inr s2"
    "union_frame s2 s'"
    by (rule consistent_union_n_step [OF Suc.prems Suc.IH])
  have "union_frame s1 s2" by (rule union_fold_frame [OF s(2) Suc.IH])
  thus ?case using s(1,3) union_frame_trans by blast
qed simp

lemma consistent_union_fold:
  "fold_r (\<lambda>s (i, FL). consistent_union_n n cf s i FL) a fwd = Inr b \<Longrightarrow> union_frame a b"
  by (erule union_fold_frame) (rule consistent_union_n_frame)

lemma consistent_union_frame: "consistent_union cf s state L = Inr s' \<Longrightarrow> union_frame s s'"
  unfolding consistent_union_def by (rule consistent_union_n_frame)

text \<open>The keys of the map are distinct, so that every entry is the one found for its key.\<close>

lemma map_push_distinct: "distinct (map fst m) \<Longrightarrow> distinct (map fst (map_push m k x))"
  by (simp add: map_push_def distinct_update)

lemma forward_lead_distinct:
  "forward_lead cf s fwd state l = Inr (b, fwd') \<Longrightarrow> distinct (map fst fwd) \<Longrightarrow> distinct (map fst fwd')"
  unfolding forward_lead_def Let_def assert_d_def by (auto split: if_splits elim!: bind_r_InrE simp: map_push_distinct)

lemma cu_loop_distinct:
  "cu_loop cf s state st L acc fwd = Inr (L', acc', fwd') \<Longrightarrow> distinct (map fst fwd) \<Longrightarrow> distinct (map fst fwd')"
proof (induction L arbitrary: acc fwd L')
  case (Cons l L)
  show ?case
  proof (cases "ld_merged l = []")
    case True
    thus ?thesis using Cons by simp
  next
    case False
    obtain b acc1 where e: "cu_existing cf (tb_ctx s) st l 0 (st_leads st) acc = Inr (b, acc1)"
      using Cons.prems(1) False by (auto elim!: bind_r_InrE)
    show ?thesis
      using Cons.prems False e Cons.IH by (cases b) (auto elim!: bind_r_InrE dest: forward_lead_distinct)
  qed
qed simp

lemma cu_loop_keys:
  assumes "cu_loop cf s state st L acc [] = Inr (L', acc', fwd)" "(k, FL) \<in> set fwd"
  shows "map_get [] fwd k = FL"
  using cu_loop_distinct [OF assms(1)] assms(2) by (simp add: map_get_def)

section \<open>Leads that have not been explored\<close>

definition unexplored :: "lead list \<Rightarrow> bool" where
  "unexplored L = (\<forall>l\<in>set L. \<not> ld_done l)"

lemma unexplored_simps [simp]:
  "unexplored []" "unexplored (l # L) = (\<not> ld_done l \<and> unexplored L)" "unexplored (L @ M) = (unexplored L \<and> unexplored M)"
  by (auto simp: unexplored_def)

lemma unexplored_sub: "unexplored L \<Longrightarrow> set M \<subseteq> set L \<Longrightarrow> unexplored M"
  by (auto simp: unexplored_def)

lemma pa_pair_unexplored:
  "pa_pair dbg c n m1 sfx mm it it2 acc = Inr acc' \<Longrightarrow> unexplored (snd acc) \<Longrightarrow> unexplored (snd acc')"
  unfolding pa_pair_def Let_def using lead_done_make
  by (auto split: prod.splits if_splits elim!: bind_r_InrE)

lemma pa_inner_unexplored:
  "pa_inner dbg c n m1 sfx mm it es acc = Inr acc' \<Longrightarrow> unexplored (snd acc) \<Longrightarrow> unexplored (snd acc')"
  by (induction es arbitrary: acc) (auto elim!: bind_r_InrE dest: pa_pair_unexplored)

lemma pa_outer_unexplored:
  "pa_outer dbg c n m1 m2 mm sfx pre es acc = Inr acc' \<Longrightarrow> unexplored (snd acc) \<Longrightarrow> unexplored (snd acc')"
proof (induction es arbitrary: acc pre)
  case (Cons e es)
  show ?case
  proof (cases "es_has_iid m2 (ev_iid e)")
    case True
    thus ?thesis using Cons.prems Cons.IH [of "pre @ [e]" acc] by simp
  next
    case False
    then obtain a where "pa_inner dbg c n m1 sfx mm e pre acc = Inr a" "pa_outer dbg c n m1 m2 mm sfx (pre @ [e]) es a = Inr acc'"
      using Cons.prems(1) by (auto elim!: bind_r_InrE)
    thus ?thesis using Cons.IH pa_inner_unexplored Cons.prems(2) by blast
  qed
qed simp

lemma prefix_analysis_unexplored:
  "prefix_analysis dbg c n mm l1 l2 L = Inr L' \<Longrightarrow> unexplored L \<Longrightarrow> unexplored L'"
  unfolding prefix_analysis_def Let_def using pa_outer_unexplored by (fastforce elim!: bind_r_InrE)

lemma cu_weak_unexplored:
  "cu_weak cf c st l sls L = Inr L' \<Longrightarrow> unexplored L \<Longrightarrow> unexplored L'"
proof (induction sls arbitrary: L)
  case (Cons sl sls)
  obtain a w where w: "st_alpha_sequence st = Inr a"
    "(if \<not> es_eq (ld_merged sl) a then VA_isweakly_equivalent sl l else Inr False) = Inr w"
    using Cons.prems(1) by (auto elim!: bind_r_InrE)
  then obtain L1 where "(if w then prefix_analysis (vf_seq_dbg cf) c (vf_fuel cf) (st_mem st) sl l L else Inr L) = Inr L1"
    "cu_weak cf c st l sls L1 = Inr L'"
    using Cons.prems(1) by (auto elim!: bind_r_InrE)
  thus ?case using Cons.IH Cons.prems(2) prefix_analysis_unexplored by (cases w) auto
qed simp

definition acc_fresh :: "cu_acc \<Rightarrow> bool" where
  "acc_fresh acc = (unexplored (cu_add acc) \<and> unexplored (cu_extra acc))"

lemma acc_fresh_replace: "acc_fresh acc \<Longrightarrow> acc_fresh (cu_replace k sl f acc)"
  by (simp add: acc_fresh_def cu_replace_def lead_copy_def lead_empty_def)

lemma cu_existing_fresh:
  "cu_existing cf c st l k sls acc = Inr (b, acc') \<Longrightarrow> acc_fresh acc \<Longrightarrow> acc_fresh acc'"
proof (induction sls arbitrary: k)
  case (Cons sl sls)
  have extra: "acc_fresh (acc\<lparr>cu_extra := e'\<rparr>)" if "cu_weak cf c st l sls e = Inr e'"
    "prefix_analysis (vf_seq_dbg cf) c (vf_fuel cf) (st_mem st) sl l (cu_extra acc) = Inr e" for e e'
    using that Cons.prems(2) prefix_analysis_unexplored cu_weak_unexplored unfolding acc_fresh_def by auto
  show ?case
    using Cons.prems(1) Cons.IH [OF _ Cons.prems(2)] acc_fresh_replace [OF Cons.prems(2)] Cons.prems(2) extra
    by (auto split: if_splits elim!: bind_r_InrE)
qed simp

lemma cu_loop_fresh:
  "cu_loop cf s state st L acc fwd = Inr (L', acc', fwd') \<Longrightarrow> acc_fresh acc \<Longrightarrow> acc_fresh acc'"
proof (induction L arbitrary: acc fwd L')
  case (Cons l L)
  show ?case
  proof (cases "ld_merged l = []")
    case True
    thus ?thesis using Cons by simp
  next
    case False
    obtain b acc1 where e: "cu_existing cf (tb_ctx s) st l 0 (st_leads st) acc = Inr (b, acc1)"
      using Cons.prems(1) False by (auto elim!: bind_r_InrE)
    note a = cu_existing_fresh [OF e Cons.prems(2)]
    show ?thesis using Cons.prems(1) False e Cons.IH [OF _ a] by (cases b) (auto elim!: bind_r_InrE)
  qed
qed simp

text \<open>No lead of the state \<open>i\<close> has been explored.\<close>

definition fresh_at :: "int \<Rightarrow> tbuilder \<Rightarrow> bool" where
  "fresh_at i s = (\<forall>st. tb_state s i = Inr st \<longrightarrow> unexplored (st_leads st))"

lemma fresh_at_set:
  assumes "tb_set_state s j g = Inr s'" "fresh_at i s" "\<And>st. tb_state s j = Inr st \<Longrightarrow> unexplored (st_leads st) \<Longrightarrow> unexplored (st_leads (g st))"
  shows "fresh_at i s'"
proof -
  have j: "0 \<le> j" "nat j < length (tb_states s)" "s' = s\<lparr>tb_states := (tb_states s)[nat j := g (tb_states s ! nat j)]\<rparr>"
    using assms(1) by (auto simp: tb_set_state_def upd_r_def split: if_splits)
  hence "tb_state s j = Inr (tb_states s ! nat j)" by (simp add: tb_state_def nth_r_def)
  thus ?thesis using j assms(2,3) unfolding fresh_at_def tb_state_def nth_r_def
    by (cases "nat i = nat j") (auto split: if_splits)
qed

lemma fold_fresh:
  assumes "fold_r g s xs = Inr s'" "fresh_at i s" "\<And>a x b. x \<in> set xs \<Longrightarrow> g a x = Inr b \<Longrightarrow> fresh_at i a \<Longrightarrow> fresh_at i b"
  shows "fresh_at i s'"
proof -
  have "fresh_at i s \<longrightarrow> fresh_at i s'"
    by (rule fold_r_rel [where R = "\<lambda>a b. fresh_at i a \<longrightarrow> fresh_at i b", OF assms(1)]) (use assms(3) in auto)
  thus ?thesis using assms(2) by simp
qed

lemma union_n_fresh:
  "consistent_union_n n cf s j L = Inr s' \<Longrightarrow> unexplored L \<Longrightarrow> fresh_at i s \<Longrightarrow> fresh_at i s'"
proof (induction n arbitrary: s j L s')
  case (Suc n)
  obtain L0 where L0: "remove_duplicate_leads (vf_fuel cf) L = Inr L0" using Suc.prems(1) by (auto elim!: bind_r_InrE)
  have u0: "unexplored L0"
    using unexplored_sub [OF Suc.prems(2)] remove_duplicate_leads_spec [OF L0] subseq_set by blast
  obtain st where st: "tb_state s j = Inr st" using Suc.prems(1) L0 by (auto elim!: bind_r_InrE)
  show ?case
  proof (cases "st_leads st = []")
    case True
    obtain L1 fwd where f: "forward_suffix_leads cf s [] j L0 = Inr (L1, fwd)"
      using Suc.prems(1) L0 st True by (auto elim!: bind_r_InrE)
    hence e: "L1 = L0" "fwd = []" using fsl_no_alpha [OF f st True] by auto
    have set: "tb_set_state s j (\<lambda>st. st\<lparr>st_leads := L0\<rparr>) = Inr s'" using Suc.prems(1) L0 st True f e by simp
    show ?thesis by (rule fresh_at_set [OF set Suc.prems(3)]) (simp add: u0)
  next
    case False
    let ?acc = "\<lparr>cu_rem = [], cu_add = [], cu_extra = []\<rparr>"
    obtain L1 acc fwd where l: "cu_loop cf s j st L0 ?acc [] = Inr (L1, acc, fwd)"
      using Suc.prems(1) L0 st False by (auto elim!: bind_r_InrE)
    have ok: "acc_ok (st_leads st) ?acc" "fwd_ok cf s st L0 []" "acc_fresh ?acc"
      by (simp_all add: acc_ok_def acc_fresh_def fwd_ok_def rests_of_def map_get_def)
    note spec = cu_loop_spec [OF l st ok(1,2) subset_refl] and fr = cu_loop_fresh [OF l ok(3)]
    let ?new = "nths (st_leads st) (- set (cu_rem acc)) @ cu_add acc @ L1"
    have rem: "cu_remove (cu_rem acc) (st_leads st) = Inr (nths (st_leads st) (- set (cu_rem acc)))"
      by (rule cu_remove_nths) (use spec in \<open>auto simp: acc_ok_def\<close>)
    obtain s1 where s1: "tb_set_state s j (\<lambda>st. st\<lparr>st_leads := ?new\<rparr>) = Inr s1"
      using Suc.prems(1) L0 st False l rem by (auto elim!: bind_r_InrE)
    obtain s2 where s2: "fold_r (\<lambda>s (i, FL). consistent_union_n n cf s i FL) s1 fwd = Inr s2"
      "(if cu_extra acc \<noteq> [] then consistent_union_n n cf s2 j (cu_extra acc) else Inr s2) = Inr s'"
      using Suc.prems(1) L0 st False l rem s1 by (auto elim!: bind_r_InrE)
    have "fresh_at i s1"
    proof (rule fresh_at_set [OF s1 Suc.prems(3)])
      fix st' assume st': "tb_state s j = Inr st'" "unexplored (st_leads st')"
      have "unexplored (nths (st_leads st) (- set (cu_rem acc)))"
        using unexplored_sub [of "st_leads st"] st st' set_nths_subset by (metis sum.inject(2))
      thus "unexplored (st_leads (st'\<lparr>st_leads := ?new\<rparr>))"
        using fr spec unexplored_sub [OF u0, of L1] by (simp add: acc_fresh_def)
    qed
    moreover have "unexplored FL" if "(k, FL) \<in> set fwd" for k FL
      using that spec cu_loop_keys [OF l] rests_unexplored unfolding fwd_ok_def unexplored_def by metis
    ultimately have "fresh_at i s2"
      using fold_fresh [OF s2(1), of i] Suc.IH by (auto split: prod.splits)
    thus ?thesis using s2(2) Suc.IH fr by (auto simp: acc_fresh_def split: if_splits)
  qed
qed simp

lemma union_fresh: "consistent_union cf s j L = Inr s' \<Longrightarrow> unexplored L \<Longrightarrow> fresh_at i s \<Longrightarrow> fresh_at i s'"
  unfolding consistent_union_def by (rule union_n_fresh)

section \<open>Properties\<close>

text \<open>C7: a union changes nothing but the lists of leads of the states, and no unexplored lead of any
  state is lost: one with the same sequences is still there and unexplored.\<close>

theorem consistent_union_loses_nothing:
  assumes "consistent_union cf s i L = Inr s'"
  shows "\<exists>sts. s' = s\<lparr>tb_states := sts\<rparr> \<and> length sts = length (tb_states s) \<and>
    (\<forall>j<length sts. \<exists>L'. sts ! j = (tb_states s ! j)\<lparr>st_leads := L'\<rparr> \<and>
       (\<forall>l\<in>set (st_leads (tb_states s ! j)). \<not> ld_done l \<longrightarrow> (\<exists>l'\<in>set L'. pending_as l l')))"
proof -
  obtain sts where "s' = s\<lparr>tb_states := sts\<rparr>" "list_all2 st_frame (tb_states s) sts"
    using consistent_union_frame [OF assms] unfolding union_frame_def by blast
  moreover from this(2) have "length sts = length (tb_states s)"
    "\<forall>j<length sts. st_frame (tb_states s ! j) (sts ! j)"
    by (auto simp: list_all2_conv_all_nth)
  ultimately show ?thesis unfolding st_frame_def keeps_pending_def by blast
qed

definition ex_state_builder :: "lead list \<Rightarrow> tbuilder" where
  "ex_state_builder L = ex_builder\<lparr>tb_states := [(st_make 0)\<lparr>st_leads := L\<rparr>], tb_current_state := 0\<rparr>"

theorem consistent_union_loses_nothing_witness:
  "\<exists>s'. consistent_union ex_conf (ex_state_builder [ex_lead [ex_access T_WRITE 0 0 2]]) 0
          [ex_lead [ex_access T_WRITE 2 0 3]] = Inr s' \<and>
     (\<exists>l'\<in>set (st_leads (tb_states s' ! 0)). pending_as (ex_lead [ex_access T_WRITE 0 0 2]) l')"
proof -
  let ?s = "ex_state_builder [ex_lead [ex_access T_WRITE 0 0 2]]" and ?L = "[ex_lead [ex_access T_WRITE 2 0 3]]"
  have "case consistent_union ex_conf ?s 0 ?L of Inr s' \<Rightarrow> True | Inl _ \<Rightarrow> False" by code_simp
  then obtain s' where s': "consistent_union ex_conf ?s 0 ?L = Inr s'" by (auto split: sum.splits)
  have "st_leads (tb_states ?s ! 0) = [ex_lead [ex_access T_WRITE 0 0 2]]" "length (tb_states ?s) = 1"
    by (simp_all add: ex_state_builder_def)
  moreover have "\<not> ld_done (ex_lead [ex_access T_WRITE 0 0 2])" by code_simp
  ultimately show ?thesis using consistent_union_loses_nothing [OF s'] s' by auto
qed

text \<open>What becomes of a lead \<open>l\<close> of the leads \<open>L\<close> added to the state \<open>i\<close>: \<open>k\<close> is \<open>l\<close> or the lead of \<open>L\<close> it is a
  duplicate of, and \<open>k\<close> is unexplored at the state in the end, or covered by a lead the state had, or it
  extends the current lead of the state and its rest is accounted for, in the same way, at the state
  it was passed on to; where that is the current state the code drops it. Leads without a merged
  sequence are skipped.\<close>

primrec accounted :: "nat \<Rightarrow> vconf \<Rightarrow> tbuilder \<Rightarrow> int \<Rightarrow> lead list \<Rightarrow> lead \<Rightarrow> tbuilder \<Rightarrow> bool" where
  "accounted 0 cf s i L l s' = False"
| "accounted (Suc n) cf s i L l s' =
     (\<exists>st. tb_state s i = Inr st \<and> (\<exists>k\<in>set L. (k = l \<or> lead_dup (vf_fuel cf) k l) \<and>
       (ld_merged k = [] \<or>
        (\<exists>st' l'. tb_state s' i = Inr st' \<and> l' \<in> set (st_leads st') \<and> pending_as k l') \<or>
        (\<exists>sl\<in>set (st_leads st). covers cf sl k) \<or>
        (\<exists>fs. forwarded s st k fs \<and>
           (fs = tb_current_state s \<or>
            (\<exists>fl FL a. remainder cf s st k fs fl \<and> fl \<in> set FL \<and> rests_of cf s st L fs FL \<and> union_frame s a \<and>
               accounted n cf a fs FL fl s'))))))"

lemma accounted_mono: "accounted n cf s i L l s1 \<Longrightarrow> union_frame s1 s' \<Longrightarrow> accounted n cf s i L l s'"
proof (induction n arbitrary: s i L l)
  case (Suc n)
  have later: "\<exists>st' l'. tb_state s' i = Inr st' \<and> l' \<in> set (st_leads st') \<and> pending_as k l'"
    if m: "tb_state s1 i = Inr st1" "m \<in> set (st_leads st1)" "pending_as k m" for st1 m k
  proof -
    obtain st' where st': "tb_state s' i = Inr st'" "st_frame st1 st'" by (rule union_frame_state [OF Suc.prems(2) m(1)])
    moreover have "\<not> ld_done m" using m(3) by (simp add: pending_as_def)
    ultimately obtain l' where "l' \<in> set (st_leads st')" "pending_as m l'"
      using m(2) unfolding st_frame_def keeps_pending_def by auto
    thus ?thesis using st'(1) m(3) by (auto simp: pending_as_def)
  qed
  obtain st k where k: "tb_state s i = Inr st" "k \<in> set L" "k = l \<or> lead_dup (vf_fuel cf) k l"
    and w: "ld_merged k = [] \<or> (\<exists>st' l'. tb_state s1 i = Inr st' \<and> l' \<in> set (st_leads st') \<and> pending_as k l') \<or>
        (\<exists>sl\<in>set (st_leads st). covers cf sl k) \<or>
        (\<exists>fs. forwarded s st k fs \<and>
           (fs = tb_current_state s \<or>
            (\<exists>fl FL a. remainder cf s st k fs fl \<and> fl \<in> set FL \<and> rests_of cf s st L fs FL \<and> union_frame s a \<and>
               accounted n cf a fs FL fl s1)))"
    using Suc.prems(1) unfolding accounted.simps by blast
  from w consider "ld_merged k = [] \<or> (\<exists>sl\<in>set (st_leads st). covers cf sl k)"
    | st' l' where "tb_state s1 i = Inr st'" "l' \<in> set (st_leads st')" "pending_as k l'"
    | fs where "forwarded s st k fs" "fs = tb_current_state s"
    | fs fl FL a where "forwarded s st k fs" "remainder cf s st k fs fl" "fl \<in> set FL" "rests_of cf s st L fs FL" "union_frame s a"
      "accounted n cf a fs FL fl s1" by blast
  thus ?case
  proof cases
    case 1
    thus ?thesis unfolding accounted.simps using k by blast
  next
    case 2
    thus ?thesis unfolding accounted.simps using k later [OF 2] by blast
  next
    case 3
    thus ?thesis unfolding accounted.simps using k by blast
  next
    case 4
    thus ?thesis unfolding accounted.simps using k Suc.IH [OF 4(6) Suc.prems(2)] by blast
  qed
qed simp

lemma map_get_mem: "x \<in> set (map_get [] m k) \<Longrightarrow> (k, map_get [] m k) \<in> set m"
  by (auto simp: map_get_def split: option.splits dest: map_of_SomeD)

lemma consistent_union_n_accounts:
  assumes "consistent_union_n n cf s i L = Inr s'" "l \<in> set L" "\<forall>k\<in>set L. \<not> ld_done k"
  shows "accounted n cf s i L l s'"
  using assms
proof (induction n arbitrary: s i L l s')
  case (Suc n)
  obtain L0 st s1 fwd s2 where 1: "remove_duplicate_leads (vf_fuel cf) L = Inr L0" "tb_state s i = Inr st"
    "union_frame s s1" "fold_r (\<lambda>s (i, FL). consistent_union_n n cf s i FL) s1 fwd = Inr s2" "union_frame s2 s'"
    "fwd_ok cf s st L0 fwd"
    and each: "\<forall>l\<in>set L0. ld_merged l = [] \<or> (\<exists>sl\<in>set (st_leads st). covers cf sl l) \<or> passed_on cf s st fwd l \<or>
       (\<exists>st1. tb_state s1 i = Inr st1 \<and> l \<in> set (st_leads st1))"
    by (rule consistent_union_n_step [OF Suc.prems(1) consistent_union_n_frame])
  note rd = remove_duplicate_leads_spec [OF 1(1)]
  have sub: "set L0 \<subseteq> set L" using rd subseq_set by blast
  obtain k where k: "k \<in> set L0" "k = l \<or> lead_dup (vf_fuel cf) k l" using rd Suc.prems(2) by blast
  have frame: "union_frame s1 s'"
    using consistent_union_fold [OF 1(4)] 1(5) union_frame_trans by blast
  consider "ld_merged k = [] \<or> (\<exists>sl\<in>set (st_leads st). covers cf sl k)" | "passed_on cf s st fwd k"
    | st1 where "tb_state s1 i = Inr st1" "k \<in> set (st_leads st1)" using each k(1) by blast
  hence "ld_merged k = [] \<or>
        (\<exists>st' l'. tb_state s' i = Inr st' \<and> l' \<in> set (st_leads st') \<and> pending_as k l') \<or>
        (\<exists>sl\<in>set (st_leads st). covers cf sl k) \<or>
        (\<exists>fs. forwarded s st k fs \<and>
           (fs = tb_current_state s \<or>
            (\<exists>fl FL a. remainder cf s st k fs fl \<and> fl \<in> set FL \<and> rests_of cf s st L fs FL \<and> union_frame s a \<and>
               accounted n cf a fs FL fl s')))"
  proof cases
    case 2
    then obtain fs where fs: "forwarded s st k fs"
      "fs = tb_current_state s \<or> (\<exists>fl. remainder cf s st k fs fl \<and> fl \<in> set (map_get [] fwd fs))"
      unfolding passed_on_def by blast
    show ?thesis
    proof (cases "fs = tb_current_state s")
      case False
      let ?FL = "map_get [] fwd fs"
      obtain fl where fl: "remainder cf s st k fs fl" "fl \<in> set ?FL" using fs False by blast
      have r: "rests_of cf s st L fs ?FL" using fwd_ok_mono [OF 1(6) sub] unfolding fwd_ok_def by blast
      obtain xs ys where "fwd = xs @ (fs, ?FL) # ys" using map_get_mem [OF fl(2)] by (auto simp: in_set_conv_decomp)
      hence "fold_r (\<lambda>s (i, FL). consistent_union_n n cf s i FL) s1 (xs @ (fs, ?FL) # ys) = Inr s2" using 1(4) by simp
      then obtain a b where ab: "fold_r (\<lambda>s (i, FL). consistent_union_n n cf s i FL) s1 xs = Inr a"
        "consistent_union_n n cf a fs ?FL = Inr b" "fold_r (\<lambda>s (i, FL). consistent_union_n n cf s i FL) b ys = Inr s2"
        by (auto simp: fold_r_append elim!: bind_r_InrE)
      have "accounted n cf a fs ?FL fl b"
        by (rule Suc.IH [OF ab(2) fl(2)]) (use rests_unexplored [OF r] in blast)
      moreover have "union_frame b s'"
        using consistent_union_fold [OF ab(3)] 1(5) union_frame_trans by blast
      ultimately have "accounted n cf a fs ?FL fl s'" by (rule accounted_mono)
      moreover have "union_frame s a"
        using consistent_union_fold [OF ab(1)] 1(3) union_frame_trans by blast
      ultimately show ?thesis using fs(1) fl r by blast
    qed (use fs(1) in blast)
  next
    case (3 st1)
    obtain st' where st': "tb_state s' i = Inr st'" "st_frame st1 st'" by (rule union_frame_state [OF frame 3(1)])
    moreover have "\<not> ld_done k" using Suc.prems(3) sub k(1) by blast
    ultimately obtain l' where "l' \<in> set (st_leads st')" "pending_as k l'"
      using 3(2) unfolding st_frame_def keeps_pending_def by auto
    thus ?thesis using st'(1) by blast
  qed blast
  thus ?case unfolding accounted.simps using 1(2) k sub by blast
qed simp



text \<open>a new lead equal to the first lead of a state puts that lead back as an unexplored copy at the end
  of the list, also when it has been explored already.\<close>

theorem consistent_union_reopens:
  assumes "tb_state s i = Inr st" "st_leads st = sl # rest" "lead_eq l sl" "ld_merged l \<noteq> []" "vf_fuel cf > 0"
  shows "consistent_union_lead cf s i l =
    tb_set_state s i (\<lambda>st. st\<lparr>st_leads := rest @ [lead_copy sl (sop_or (ld_forbidden l) (ld_forbidden sl))]\<rparr>)"
proof -
  obtain n where n: "vf_fuel cf = Suc n" using assms(5) by (cases "vf_fuel cf") auto
  have i: "0 \<le> i \<and> nat i < length (tb_states s)"
    using assms(1) by (auto simp: tb_state_def nth_r_def split: if_splits)
  have "nths (sl # rest) (- {0}) = rest" by (simp add: nths_Cons Compl_eq nths_all)
  hence "cu_remove [0] (sl # rest) = Inr rest" by (subst cu_remove_nths) simp_all
  thus ?thesis
    using assms i by (simp add: consistent_union_lead_def consistent_union_def n cu_replace_def us_insert_def
        tb_set_state_def upd_r_def)
qed

theorem consistent_union_reopens_witness:
  "\<exists>l. ld_done l \<and> (\<exists>s'. consistent_union_lead ex_conf (ex_state_builder [l]) 0 l = Inr s' \<and>
     map ld_done (st_leads (tb_states s' ! 0)) = [False])"
proof -
  let ?l = "(ex_lead [ex_access T_WRITE 2 0 3])\<lparr>ld_done := True\<rparr>"
  let ?st = "(st_make 0)\<lparr>st_leads := [?l]\<rparr>"
  have "tb_state (ex_state_builder [?l]) 0 = Inr ?st"
    by (simp add: tb_state_def nth_r_def ex_state_builder_def)
  moreover have "ld_merged ?l \<noteq> []" "vf_fuel ex_conf > 0" by code_simp+
  ultimately have "consistent_union_lead ex_conf (ex_state_builder [?l]) 0 ?l =
      tb_set_state (ex_state_builder [?l]) 0 (\<lambda>st. st\<lparr>st_leads := [] @ [lead_copy ?l (sop_or (ld_forbidden ?l) (ld_forbidden ?l))]\<rparr>)"
    by (intro consistent_union_reopens [where st = ?st]) (simp_all add: lead_eq_def)
  thus ?thesis
    by (intro exI [of _ ?l])
      (simp add: tb_set_state_def upd_r_def ex_state_builder_def lead_copy_def lead_empty_def)
qed

end
