(* ===== verification/ViewAnalysis.thy ===== *)
theory ViewAnalysis
  imports Prelude ViewUnion
begin

text \<open>
  The analyses that create leads (\<open>forward_analysis\<close>, \<open>backward_analysis\<close> and their helpers): for a
  read the enabled and the executed writes it could see, for a write the executed reads that could see
  it. The reference parameter \<open>forbidden\<close> is the builder's own formula and is not changed by them.
\<close>

section \<open>Forward analysis\<close>

fun forbid_values :: "sop_formula \<Rightarrow> int iid \<Rightarrow> int list \<Rightarrow> sop_formula" where
  "forbid_values f rd [] = f"
| "forbid_values f rd (v # vs) = forbid_values (sop_or_term f (rd, v)) rd vs"

fun fa_leads :: "tbuilder \<Rightarrow> event \<Rightarrow> sop_formula \<Rightarrow> seq \<Rightarrow> seq \<Rightarrow> lead list result" where
  "fa_leads s e f ui [] = Inr []"
| "fa_leads s e f ui (i # is) =
     (if ev_value (tb_event s i) = tb_mem_at s (ev_object e) then fa_leads s e f ui is
      else let start = seq_push_front [ev_iid e] i;
               fui = forbid_values (sop_or_term f (ev_iid e, tb_mem_at s (ev_object e))) (ev_iid e)
                       (map (\<lambda>j. ev_value (tb_event s j)) (filter (\<lambda>j. j \<noteq> i) ui))
           in bind_r (lead_of_seq (tb_ctx s) start fui (tb_mem s)) (\<lambda>l.
                bind_r (fa_leads s e f ui is) (\<lambda>L. Inr (l # L))))"

definition forward_analysis :: "vconf \<Rightarrow> tbuilder \<Rightarrow> event \<Rightarrow> sop_formula \<Rightarrow> tbuilder result" where
  "forward_analysis cf s e f =
     bind_r (unexploredInfluencers cf s e f) (\<lambda>ui.
       let cur = tb_mem_at s (ev_object e);
           fui_all = forbid_values f (ev_iid e) (filter (\<lambda>v. v \<noteq> cur) (map (\<lambda>i. ev_value (tb_event s i)) ui))
       in bind_r (if sop_check_evaluation f (ev_iid e, cur) \<noteq> R_TRUE
                  then bind_r (lead_of_seq (tb_ctx s) [ev_iid e] fui_all (tb_mem s)) (\<lambda>l. Inr [l])
                  else Inr []) (\<lambda>L1.
            bind_r (fa_leads s e f ui ui) (\<lambda>L2. consistent_union cf s (tb_current_state s) (L1 @ L2))))"

section \<open>Helpers of the backward analysis\<close>

text \<open>The loop from the index after the head of the alpha lead on.\<close>

fun uss_loop :: "int iid \<Rightarrow> seq \<Rightarrow> int list \<Rightarrow> seq \<Rightarrow> seq result" where
  "uss_loop e [] ps acc = Inl Out_of_range"
| "uss_loop e (x # xs) ps acc =
     (if x = e then Inr acc
      else case ps of [] \<Rightarrow> Inl Out_of_range
           | p # ps' \<Rightarrow> uss_loop e xs ps' (if p \<ge> 0 then acc @ [x] else acc))"

definition union_state_start :: "tbuilder \<Rightarrow> int \<Rightarrow> int iid \<Rightarrow> seq \<Rightarrow> (int \<times> seq) result" where
  "union_state_start s idx e start =
     bind_r (nth_r (tb_prefix_state s) idx) (\<lambda>ei. bind_r (tb_state s ei) (\<lambda>st.
       if st_executing_alpha st
       then bind_r (nth_r (tb_exec s) (st_lead_head st)) (\<lambda>h.
              let k = nat (st_lead_head st + 1) in
              bind_r (uss_loop e (drop k (tb_exec s)) (drop k (tb_prefix_state s)) [h]) (\<lambda>pre.
                bind_r (nth_r (tb_prefix_state s) (st_lead_head st)) (\<lambda>ei'.
                  Inr (ei', seq_concatenate pre start))))
       else Inr (ei, start)))"

definition get_constraint :: "tbuilder \<Rightarrow> int \<Rightarrow> event \<Rightarrow> eseq result" where
  "get_constraint s state e =
     bind_r (tb_state s state) (\<lambda>st. bind_r (st_alpha_sequence st) (\<lambda>constr.
       if \<not> st_fwd st \<or> \<not> ev_is_rmw e then Inr constr
       else bind_r (es_deref constr (st_fwd_read st)) (\<lambda>fr. Inr (if \<not> ev_is_rmw fr then constr else []))))"

fun iel_loop :: "int iid \<Rightarrow> lead list \<Rightarrow> bool \<Rightarrow> int \<Rightarrow> bool" where
  "iel_loop e [] found prev = True"
| "iel_loop e (l # ls) found prev =
     (let k = es_find_iid (ld_merged l) e in
      if k \<noteq> length (ld_merged l)
      then if found
           then if ev_value (ld_merged l ! k) \<noteq> prev then False else iel_loop e ls found prev
           else iel_loop e ls True (ev_value (ld_merged l ! k))
      else iel_loop e ls found prev)"

definition indepenent_event_in_leads :: "tbuilder \<Rightarrow> int \<Rightarrow> int iid \<Rightarrow> bool result" where
  "indepenent_event_in_leads s state e =
     bind_r (tb_state s state) (\<lambda>st. Inr (iel_loop e (st_leads st) False (- 42)))"

text \<open>The code compares \<open>start[s]\<close> with the write also for \<open>s = -1\<close>; the loop ends after it whatever the
  comparison gives.\<close>

definition skip_write :: "seq \<Rightarrow> int iid \<Rightarrow> int \<Rightarrow> int" where
  "skip_write start w k = (if 0 \<le> k \<and> nat k < length start \<and> start ! nat k = w then k - 1 else k)"

fun iew_loop :: "vconf \<Rightarrow> tbuilder \<Rightarrow> seq \<Rightarrow> int iid \<Rightarrow> nat \<Rightarrow> int \<Rightarrow> bool result" where
  "iew_loop cf s start w 0 k = Inr True"
| "iew_loop cf s start w (Suc e) k =
     (if k < 0 then Inr True
      else if tb_exec s ! e = w then iew_loop cf s start w e k
      else if tb_exec s ! e \<noteq> start ! nat k then iew_loop cf s start w e k
      else bind_r (nth_r (tb_prefix_state s) (int e)) (\<lambda>state. bind_r (tb_state s state) (\<lambda>st.
        bind_r (if st_executing_alpha st then nth_r (tb_prefix_state s) (st_lead_head st) else Inr state) (\<lambda>state.
          assert_d cf (state \<ge> 0) (bind_r (tb_state s state) (\<lambda>st.
            bind_r (if length (st_leads st) > 1 then indepenent_event_in_leads s state (tb_exec s ! e) else Inr True) (\<lambda>b.
              if \<not> b then Inr False else iew_loop cf s start w e (skip_write start w (k - 1)))))))))"

definition is_independent_EW_lead :: "vconf \<Rightarrow> tbuilder \<Rightarrow> seq \<Rightarrow> int iid \<Rightarrow> int iid \<Rightarrow> bool result" where
  "is_independent_EW_lead cf s start w rd =
     bind_r (seq_last start) (\<lambda>l. assert_d cf (ev_is_read (tb_event s l) \<and> l = rd)
       (iew_loop cf s start w (length (tb_exec s)) (skip_write start w (int (length start) - 2))))"

section \<open>Backward analysis\<close>

definition covered_value :: "tbuilder \<Rightarrow> int iid \<Rightarrow> int \<Rightarrow> bool" where
  "covered_value s rd v = (v \<in> set (map_get [] (tb_covered s) rd))"

text \<open>The new lead at the state \<open>ei\<close>; \<open>fs\<close> are the formulas added to that of its current lead.\<close>

definition back_lead :: "vconf \<Rightarrow> tbuilder \<Rightarrow> int \<Rightarrow> event \<Rightarrow> seq \<Rightarrow> (sop_formula \<Rightarrow> sop_formula) \<Rightarrow> lead result" where
  "back_lead cf s ei e start g =
     bind_r (get_constraint s ei e) (\<lambda>constr. bind_r (tb_state s ei) (\<lambda>st. bind_r (st_alpha_lead st) (\<lambda>al.
       lead_make (tb_ctx s) (vf_fuel cf) constr start (g (ld_forbidden al)) (st_mem st))))"

text \<open>One executed write \<open>i\<close> the read \<open>e\<close> could see.\<close>

definition bar_step :: "vconf \<Rightarrow> event \<Rightarrow> seq \<Rightarrow> seq \<Rightarrow> tbuilder \<times> lead_map \<Rightarrow> int iid \<Rightarrow> (tbuilder \<times> lead_map) result" where
  "bar_step cf e ui ei = (\<lambda>(s, L) i.
     let eit = tb_event s i; cur = tb_mem_at s (ev_object e); ui_values = map (\<lambda>j. ev_value (tb_event s j)) ui in
     if ev_value eit = cur \<or> ev_value eit \<in> set ui_values then Inr (s, L)
     else if covered_value s (ev_iid e) (ev_value eit) then Inr (s, L)
     else bind_r (seq_backseq (vf_seq_dbg cf) (tb_ctx s) (vf_fuel cf) (tb_exec s) i (ev_iid e)) (\<lambda>start.
       if start = [] then Inr (s, L)
       else bind_r (if ev_is_rmw eit
                    then if iid_idx i = 0 then Inl Out_of_range
                         else Inr (int (seq_index_of (tb_exec s) i) - 1, ev_iid (tb_event s (IID (iid_pid i) (iid_idx i - 1))))
                    else Inr (int (seq_index_of (tb_exec s) i), i)) (\<lambda>(es_idx, at).
         bind_r (union_state_start s es_idx at start) (\<lambda>(k, start).
           let fui = forbid_values (sop_single (ev_iid e, cur)) (ev_iid e) ui_values;
               fei = forbid_values sop_false (ev_iid e) (map (\<lambda>j. ev_value (tb_event s j)) (filter (\<lambda>j. j \<noteq> i) ei)) in
           bind_r (back_lead cf s k e start (\<lambda>f. sop_or (sop_or f fui) fei)) (\<lambda>l.
             Inr (s\<lparr>tb_covered := map_push (tb_covered s) (ev_iid e) (ev_value eit)\<rparr>, map_push L k l))))))"

definition backward_analysis_read :: "vconf \<Rightarrow> tbuilder \<Rightarrow> event \<Rightarrow> sop_formula \<Rightarrow> lead_map \<Rightarrow> (tbuilder \<times> lead_map) result" where
  "backward_analysis_read cf s e f L =
     bind_r (unexploredInfluencers cf s e f) (\<lambda>ui.
       let ei = exploredInfluencers s e f in fold_r (bar_step cf e ui ei) (s, L) ei)"

definition ew_erase :: "ew_map \<Rightarrow> int \<Rightarrow> int iid \<Rightarrow> int \<Rightarrow> ew_map" where
  "ew_erase m k rd v =
     (let inner = map_get [] m k in
      AList.update k (AList.update rd (AList.delete v (map_get [] inner rd)) inner) m)"

definition ew_push :: "ew_map \<Rightarrow> int \<Rightarrow> int iid \<Rightarrow> int \<Rightarrow> lead \<Rightarrow> ew_map" where
  "ew_push m k rd v l =
     (let inner = map_get [] m k in
      AList.update k (AList.update rd (map_push (map_get [] inner rd) v l) inner) m)"

text \<open>One executed read \<open>i\<close> that could see the write \<open>e\<close>.\<close>

definition baw_step :: "vconf \<Rightarrow> event \<Rightarrow> tbuilder \<times> lead_map \<Rightarrow> int iid \<Rightarrow> (tbuilder \<times> lead_map) result" where
  "baw_step cf e = (\<lambda>(s, L) i.
     let it_val = ev_value (tb_event s i) in
     if it_val = ev_value e then Inr (s, L)
     else if covered_value s i (ev_value e) then Inr (s, L)
     else bind_r (seq_backseq (vf_seq_dbg cf) (tb_ctx s) (vf_fuel cf) (tb_exec s) i (ev_iid e)) (\<lambda>start.
       if start = [] then Inr (s, L)
       else bind_r (union_state_start s (int (seq_index_of (tb_exec s) i)) i start) (\<lambda>(k, start).
         bind_r (back_lead cf s k e start (\<lambda>f. sop_or_term f (i, it_val))) (\<lambda>l.
           bind_r (is_independent_EW_lead cf s start (ev_iid e) i) (\<lambda>indep.
             if indep
             then bind_r (forbid_value_for_ei_leads (s\<lparr>tb_EW_leads := ew_erase (tb_EW_leads s) k i (ev_value e)\<rparr>) k i (ev_value e)) (\<lambda>s.
                    Inr (s\<lparr>tb_covered := map_push (tb_covered s) i (ev_value e)\<rparr>, map_push L k l))
             else Inr (s\<lparr>tb_EW_leads := ew_push (tb_EW_leads s) k i (ev_value e) l\<rparr>, L))))))"

definition backward_analysis_write :: "vconf \<Rightarrow> tbuilder \<Rightarrow> event \<Rightarrow> lead_map \<Rightarrow> (tbuilder \<times> lead_map) result" where
  "backward_analysis_write cf s e L =
     bind_r (exploredWitnesses cf s e) (\<lambda>ew. fold_r (baw_step cf e) (s, L) ew)"

definition backward_analysis :: "vconf \<Rightarrow> tbuilder \<Rightarrow> event \<Rightarrow> sop_formula \<Rightarrow> tbuilder result" where
  "backward_analysis cf s e f =
     (if ev_is_read e
      then bind_r (backward_analysis_read cf s e f []) (\<lambda>(s, L).
             tb_set_state s (tb_current_state s) (\<lambda>st. st\<lparr>st_ei_leads := L\<rparr>))
      else if ev_is_write e
      then bind_r (backward_analysis_write cf s e []) (\<lambda>(s, L).
             fold_r (\<lambda>s (k, ls). consistent_union cf s k ls) s L)
      else Inr s)"

definition update_leads :: "vconf \<Rightarrow> tbuilder \<Rightarrow> event \<Rightarrow> sop_formula \<Rightarrow> tbuilder result" where
  "update_leads cf s e f =
     assert_d cf (ev_is_read e \<or> ev_is_write e)
       (bind_r (if ev_is_read e then forward_analysis cf s e f else Inr s) (\<lambda>s. backward_analysis cf s e f))"

definition analyse_unexplored_influenecers :: "vconf \<Rightarrow> tbuilder \<Rightarrow> int iid \<Rightarrow> tbuilder result" where
  "analyse_unexplored_influenecers cf s rd =
     bind_r (unexploredInfluencers cf s (tb_event s rd) (tb_forbidden s)) (\<lambda>ui.
       fold_r (\<lambda>s i. update_leads cf s (tb_event s i) (tb_forbidden s)) s ui)"

section \<open>What the analyses change\<close>

definition st_aframe :: "vstate \<Rightarrow> vstate \<Rightarrow> bool" where
  "st_aframe st st' =
     (\<exists>L E. st' = st\<lparr>st_leads := L, st_ei_leads := E\<rparr> \<and> keeps_pending (st_leads st) L)"

text \<open>Leads are added and rearranged, values of reads recorded as covered; the execution is not touched.\<close>

definition analysis_frame :: "tbuilder \<Rightarrow> tbuilder \<Rightarrow> bool" where
  "analysis_frame s s' =
     (\<exists>sts cov ew. s' = s\<lparr>tb_states := sts, tb_covered := cov, tb_EW_leads := ew\<rparr> \<and>
        list_all2 st_aframe (tb_states s) sts)"

lemma st_aframe_refl: "st_aframe st st"
  using keeps_pending_refl [of "st_leads st"] unfolding st_aframe_def
  by (intro exI [of _ "st_leads st"] exI [of _ "st_ei_leads st"]) simp

lemma st_aframe_trans:
  assumes "st_aframe a b" "st_aframe b d"
  shows "st_aframe a d"
proof -
  obtain L E M F where "b = a\<lparr>st_leads := L, st_ei_leads := E\<rparr>" "keeps_pending (st_leads a) L"
    "d = b\<lparr>st_leads := M, st_ei_leads := F\<rparr>" "keeps_pending (st_leads b) M"
    using assms unfolding st_aframe_def by blast
  thus ?thesis unfolding st_aframe_def by (intro exI [of _ M] exI [of _ F]) (simp add: keeps_pending_trans)
qed

lemma analysis_frame_refl: "analysis_frame s s"
  unfolding analysis_frame_def
  by (intro exI [of _ "tb_states s"] exI [of _ "tb_covered s"] exI [of _ "tb_EW_leads s"])
    (simp add: list_all2_refl st_aframe_refl)

lemma analysis_frame_trans:
  assumes "analysis_frame a b" "analysis_frame b d"
  shows "analysis_frame a d"
proof -
  obtain S c w where S: "b = a\<lparr>tb_states := S, tb_covered := c, tb_EW_leads := w\<rparr>" "list_all2 st_aframe (tb_states a) S"
    using assms(1) unfolding analysis_frame_def by blast
  obtain T c' w' where T: "d = b\<lparr>tb_states := T, tb_covered := c', tb_EW_leads := w'\<rparr>" "list_all2 st_aframe (tb_states b) T"
    using assms(2) unfolding analysis_frame_def by blast
  have "list_all2 st_aframe S T" using S(1) T(2) by simp
  hence "list_all2 st_aframe (tb_states a) T" using list_all2_trans [OF _ S(2)] st_aframe_trans by blast
  moreover have "d = a\<lparr>tb_states := T, tb_covered := c', tb_EW_leads := w'\<rparr>" using S(1) T(1) by simp
  ultimately show ?thesis unfolding analysis_frame_def by blast
qed

lemma analysis_frame_covered: "analysis_frame s (s\<lparr>tb_covered := c\<rparr>)" "analysis_frame s (s\<lparr>tb_EW_leads := w\<rparr>)"
  unfolding analysis_frame_def
  by (intro exI [of _ "tb_states s"] exI [of _ c] exI [of _ "tb_EW_leads s"], simp add: list_all2_refl st_aframe_refl)
    (intro exI [of _ "tb_states s"] exI [of _ "tb_covered s"] exI [of _ w], simp add: list_all2_refl st_aframe_refl)

lemma st_frame_aframe: "st_frame st st' \<Longrightarrow> st_aframe st st'"
proof -
  assume "st_frame st st'"
  then obtain L where "st' = st\<lparr>st_leads := L\<rparr>" "keeps_pending (st_leads st) L" unfolding st_frame_def by blast
  thus ?thesis unfolding st_aframe_def by (intro exI [of _ L] exI [of _ "st_ei_leads st"]) simp
qed

lemma union_frame_analysis: "union_frame s s' \<Longrightarrow> analysis_frame s s'"
proof -
  assume "union_frame s s'"
  then obtain sts where "s' = s\<lparr>tb_states := sts\<rparr>" "list_all2 st_frame (tb_states s) sts" unfolding union_frame_def by blast
  moreover from this(2) have "list_all2 st_aframe (tb_states s) sts" using st_frame_aframe by (rule list_all2_mono)
  ultimately show ?thesis unfolding analysis_frame_def
    by (intro exI [of _ sts] exI [of _ "tb_covered s"] exI [of _ "tb_EW_leads s"]) simp
qed

lemma set_ei_frame:
  assumes "tb_set_state s k (\<lambda>st. st\<lparr>st_ei_leads := g st\<rparr>) = Inr s'"
  shows "analysis_frame s s'"
proof -
  let ?f = "\<lambda>st :: vstate. st\<lparr>st_ei_leads := g st\<rparr>"
  have k: "0 \<le> k" "nat k < length (tb_states s)"
    and s': "s' = s\<lparr>tb_states := (tb_states s)[nat k := ?f (tb_states s ! nat k)]\<rparr>"
    using assms by (auto simp: tb_set_state_def upd_r_def split: if_splits)
  have f: "st_aframe st (?f st)" for st
    using keeps_pending_refl [of "st_leads st"] unfolding st_aframe_def
    by (intro exI [of _ "st_leads st"] exI [of _ "g st"]) simp
  have "st_aframe (tb_states s ! j) ((tb_states s)[nat k := ?f (tb_states s ! nat k)] ! j)" if "j < length (tb_states s)" for j
    using that k f st_aframe_refl by (cases "j = nat k") simp_all
  hence "list_all2 st_aframe (tb_states s) ((tb_states s)[nat k := ?f (tb_states s ! nat k)])"
    by (simp add: list_all2_conv_all_nth)
  thus ?thesis unfolding analysis_frame_def s'
    by (intro exI [of _ "(tb_states s)[nat k := ?f (tb_states s ! nat k)]"] exI [of _ "tb_covered s"] exI [of _ "tb_EW_leads s"]) simp
qed

lemmas frame_rules = analysis_frame_refl analysis_frame_covered set_ei_frame
  consistent_union_frame [THEN union_frame_analysis]

lemma forbid_value_frame:
  assumes "forbid_value_for_ei_leads s k rd v = Inr s'"
  shows "analysis_frame s s'"
proof -
  obtain st where st: "tb_state s k = Inr st" using assms by (auto simp: forbid_value_for_ei_leads_def elim: bind_r_InrE)
  thus ?thesis
    using assms frame_rules(1) set_ei_frame by (auto simp: forbid_value_for_ei_leads_def split: if_splits)
qed

lemma bar_step_frame:
  assumes "bar_step cf e ui ei (s, L) i = Inr (s', L')"
  shows "analysis_frame s s'"
proof (cases "ev_value (tb_event s i) = tb_mem_at s (ev_object e) \<or>
    ev_value (tb_event s i) \<in> set (map (\<lambda>j. ev_value (tb_event s j)) ui) \<or>
    covered_value s (ev_iid e) (ev_value (tb_event s i))")
  case True
  hence "s' = s" using assms unfolding bar_step_def Let_def by (elim disjE) (simp_all split: if_splits)
  thus ?thesis using frame_rules(1) by simp
next
  case False
  have "s' = s \<or> (\<exists>c. s' = s\<lparr>tb_covered := c\<rparr>)"
    using assms False unfolding bar_step_def Let_def
    by (auto elim!: bind_r_InrE split: if_splits prod.splits)
  thus ?thesis using frame_rules(1,2) by blast
qed

lemma baw_step_frame:
  assumes "baw_step cf e (s, L) i = Inr (s', L')"
  shows "analysis_frame s s'"
proof (cases "ev_value (tb_event s i) = ev_value e \<or> covered_value s i (ev_value e)")
  case True
  hence "s' = s" using assms unfolding baw_step_def Let_def by (elim disjE) (simp_all split: if_splits)
  thus ?thesis using frame_rules(1) by simp
next
  case False
  then obtain start where a: "seq_backseq (vf_seq_dbg cf) (tb_ctx s) (vf_fuel cf) (tb_exec s) i (ev_iid e) = Inr start"
    using assms by (auto simp: baw_step_def Let_def elim!: bind_r_InrE)
  show ?thesis
  proof (cases "start = []")
    case True
    hence "s' = s" using assms False a by (simp add: baw_step_def Let_def)
    thus ?thesis using frame_rules(1) by simp
  next
    case ne: False
    obtain k start' where b: "union_state_start s (int (seq_index_of (tb_exec s) i)) i start = Inr (k, start')"
      using assms False a ne by (auto simp: baw_step_def Let_def elim!: bind_r_InrE)
    obtain l where l: "back_lead cf s k e start' (\<lambda>f. sop_or_term f (i, ev_value (tb_event s i))) = Inr l"
      using assms False a ne b by (auto simp: baw_step_def Let_def elim!: bind_r_InrE)
    obtain d where d: "is_independent_EW_lead cf s start' (ev_iid e) i = Inr d"
      using assms False a ne b l by (auto simp: baw_step_def Let_def elim!: bind_r_InrE)
    note run = assms [unfolded baw_step_def Let_def, simplified] False a ne b l d
    show ?thesis
    proof (cases d)
      case True
      then obtain t where t: "forbid_value_for_ei_leads (s\<lparr>tb_EW_leads := ew_erase (tb_EW_leads s) k i (ev_value e)\<rparr>) k i
          (ev_value e) = Inr t" "s' = t\<lparr>tb_covered := map_push (tb_covered t) i (ev_value e)\<rparr>"
        using run by (auto elim!: bind_r_InrE)
      show ?thesis
        using frame_rules(3) [of s] forbid_value_frame [OF t(1)] frame_rules(2) [of t] t(2) analysis_frame_trans by metis
    next
      case nd: False
      hence "s' = s\<lparr>tb_EW_leads := ew_push (tb_EW_leads s) k i (ev_value e) l\<rparr>" using run by simp
      thus ?thesis using frame_rules(3) by simp
    qed
  qed
qed

lemma fold_pair_frame:
  assumes "fold_r g (s, L) xs = Inr (s', L')" "\<And>s L x s' L'. g (s, L) x = Inr (s', L') \<Longrightarrow> analysis_frame s s'"
  shows "analysis_frame s s'"
proof -
  have "analysis_frame (fst (s, L)) (fst (s', L'))"
    by (rule fold_r_rel [OF assms(1), where R = "\<lambda>a b. analysis_frame (fst a) (fst b)"])
      (use analysis_frame_refl analysis_frame_trans assms(2) in \<open>auto simp: prod_eq_iff\<close>)
  thus ?thesis by simp
qed

lemma backward_analysis_frame:
  assumes "backward_analysis cf s e f = Inr s'"
  shows "analysis_frame s s'"
proof -
  consider (rd) "ev_is_read e" | (wr) "\<not> ev_is_read e" "ev_is_write e" | (no) "\<not> ev_is_read e" "\<not> ev_is_write e" by blast
  thus ?thesis
  proof cases
    case rd
    obtain t L where t: "backward_analysis_read cf s e f [] = Inr (t, L)"
      "tb_set_state t (tb_current_state t) (\<lambda>st. st\<lparr>st_ei_leads := L\<rparr>) = Inr s'"
      using assms rd by (auto simp: backward_analysis_def elim!: bind_r_InrE)
    have "analysis_frame s t"
      using t(1) unfolding backward_analysis_read_def Let_def
      by (auto elim!: bind_r_InrE intro: fold_pair_frame bar_step_frame)
    thus ?thesis using set_ei_frame [OF t(2)] analysis_frame_trans by blast
  next
    case wr
    obtain t L where t: "backward_analysis_write cf s e [] = Inr (t, L)"
      "fold_r (\<lambda>s (k, ls). consistent_union cf s k ls) t L = Inr s'"
      using assms wr by (auto simp: backward_analysis_def elim!: bind_r_InrE)
    have "analysis_frame s t"
      using t(1) unfolding backward_analysis_write_def
      by (auto elim!: bind_r_InrE intro: fold_pair_frame baw_step_frame)
    moreover have "analysis_frame t s'"
      by (rule fold_r_rel [OF t(2)])
        (use analysis_frame_refl analysis_frame_trans consistent_union_frame union_frame_analysis in \<open>auto split: prod.splits\<close>)
    ultimately show ?thesis using analysis_frame_trans by blast
  next
    case no
    thus ?thesis using assms frame_rules(1) by (simp add: backward_analysis_def)
  qed
qed

lemma forward_analysis_frame: "forward_analysis cf s e f = Inr s' \<Longrightarrow> analysis_frame s s'"
  unfolding forward_analysis_def Let_def
  by (elim bind_r_InrE) (auto intro: consistent_union_frame [THEN union_frame_analysis])

lemma update_leads_frame:
  assumes "update_leads cf s e f = Inr s'"
  shows "analysis_frame s s'"
proof -
  obtain t where "(if ev_is_read e then forward_analysis cf s e f else Inr s) = Inr t" "backward_analysis cf t e f = Inr s'"
    using assms by (auto simp: update_leads_def assert_d_def split: if_splits elim!: bind_r_InrE)
  moreover from this(1) have "analysis_frame s t"
    using forward_analysis_frame frame_rules(1) by (auto split: if_splits)
  ultimately show ?thesis using backward_analysis_frame analysis_frame_trans by blast
qed

lemma analyse_ui_frame: "analyse_unexplored_influenecers cf s rd = Inr s' \<Longrightarrow> analysis_frame s s'"
  unfolding analyse_unexplored_influenecers_def
  by (elim bind_r_InrE, rule fold_r_rel [where R = analysis_frame])
    (use analysis_frame_refl analysis_frame_trans update_leads_frame in auto)

section \<open>Leads of a state that is new\<close>

text \<open>The analyses add unexplored leads only.\<close>

definition map_unexplored :: "lead_map \<Rightarrow> bool" where
  "map_unexplored m = (\<forall>(k, L)\<in>set m. unexplored L)"

lemma update_set: "x \<in> set (AList.update k v m) \<Longrightarrow> x = (k, v) \<or> x \<in> set m"
  by (induction m) (auto split: if_splits)

lemma map_unexplored_push:
  assumes "map_unexplored m" "\<not> ld_done l"
  shows "map_unexplored (map_push m k l)"
proof -
  have "unexplored (map_get [] m k)"
    using assms(1) by (auto simp: map_get_def map_unexplored_def split: option.splits dest: map_of_SomeD)
  thus ?thesis using assms update_set unfolding map_unexplored_def map_push_def by fastforce
qed

lemma lead_of_seq_unexplored: "lead_of_seq c q f m = Inr l \<Longrightarrow> \<not> ld_done l"
  by (auto simp: lead_of_seq_def lead_add_pending_def lead_empty_def split: if_splits elim!: bind_r_InrE)

lemma fa_leads_unexplored: "fa_leads s e f ui is = Inr L \<Longrightarrow> unexplored L"
  by (induction "is" arbitrary: L)
    (auto simp: Let_def lead_of_seq_unexplored split: if_splits elim!: bind_r_InrE)

lemma forward_analysis_fresh:
  assumes "forward_analysis cf s e f = Inr s'" "fresh_at i s"
  shows "fresh_at i s'"
proof -
  obtain ui L1 L2 where L: "(if sop_check_evaluation f (ev_iid e, tb_mem_at s (ev_object e)) \<noteq> R_TRUE
        then bind_r (lead_of_seq (tb_ctx s) [ev_iid e] (forbid_values f (ev_iid e)
           (filter (\<lambda>v. v \<noteq> tb_mem_at s (ev_object e)) (map (\<lambda>i. ev_value (tb_event s i)) ui))) (tb_mem s)) (\<lambda>l. Inr [l])
        else Inr []) = Inr L1" "fa_leads s e f ui ui = Inr L2"
    "consistent_union cf s (tb_current_state s) (L1 @ L2) = Inr s'"
    using assms(1) unfolding forward_analysis_def Let_def by (elim bind_r_InrE) auto
  have "unexplored L1" using L(1) lead_of_seq_unexplored by (auto split: if_splits elim!: bind_r_InrE)
  thus ?thesis using union_fresh [OF L(3)] fa_leads_unexplored [OF L(2)] assms(2) by simp
qed

lemma back_lead_unexplored: "back_lead cf s k e start g = Inr l \<Longrightarrow> \<not> ld_done l"
  unfolding back_lead_def by (elim bind_r_InrE) (rule lead_done_make)

lemma forbid_value_fresh: "forbid_value_for_ei_leads s k rd v = Inr s' \<Longrightarrow> fresh_at i s \<Longrightarrow> fresh_at i s'"
  unfolding forbid_value_for_ei_leads_def
  by (auto split: if_splits elim!: bind_r_InrE) (erule (1) fresh_at_set, simp)

lemma fresh_at_fields [simp]:
  "fresh_at i (s\<lparr>tb_EW_leads := w\<rparr>) = fresh_at i s" "fresh_at i (s\<lparr>tb_covered := c\<rparr>) = fresh_at i s"
  by (simp_all add: fresh_at_def tb_state_def)

lemma baw_step_fresh:
  assumes "baw_step cf e (s, L) j = Inr (s', L')" "map_unexplored L" "fresh_at i s"
  shows "map_unexplored L' \<and> fresh_at i s'"
proof (cases "ev_value (tb_event s j) = ev_value e \<or> covered_value s j (ev_value e)")
  case True
  hence "s' = s" "L' = L" using assms(1) unfolding baw_step_def Let_def by (elim disjE, simp_all split: if_splits)+
  thus ?thesis using assms(2,3) by simp
next
  case False
  then obtain start where a: "seq_backseq (vf_seq_dbg cf) (tb_ctx s) (vf_fuel cf) (tb_exec s) j (ev_iid e) = Inr start"
    using assms by (auto simp: baw_step_def Let_def elim!: bind_r_InrE)
  show ?thesis
  proof (cases "start = []")
    case True
    hence "s' = s" "L' = L" using assms(1) False a by (simp_all add: baw_step_def Let_def)
    thus ?thesis using assms(2,3) by simp
  next
    case ne: False
    obtain k start' where b: "union_state_start s (int (seq_index_of (tb_exec s) j)) j start = Inr (k, start')"
      using assms False a ne by (auto simp: baw_step_def Let_def elim!: bind_r_InrE)
    obtain l where l: "back_lead cf s k e start' (\<lambda>f. sop_or_term f (j, ev_value (tb_event s j))) = Inr l"
      using assms False a ne b by (auto simp: baw_step_def Let_def elim!: bind_r_InrE)
    obtain d where d: "is_independent_EW_lead cf s start' (ev_iid e) j = Inr d"
      using assms False a ne b l by (auto simp: baw_step_def Let_def elim!: bind_r_InrE)
    note run = assms(1) [unfolded baw_step_def Let_def, simplified] False a ne b l d
    show ?thesis
    proof (cases d)
      case True
      then obtain t where t: "forbid_value_for_ei_leads (s\<lparr>tb_EW_leads := ew_erase (tb_EW_leads s) k j (ev_value e)\<rparr>) k j
          (ev_value e) = Inr t" "s' = t\<lparr>tb_covered := map_push (tb_covered t) j (ev_value e)\<rparr>" "L' = map_push L k l"
        using run by (auto elim!: bind_r_InrE)
      show ?thesis
        using forbid_value_fresh [OF t(1), of i] assms(2,3) t(2,3) map_unexplored_push back_lead_unexplored [OF l] by simp
    next
      case nd: False
      hence "s' = s\<lparr>tb_EW_leads := ew_push (tb_EW_leads s) k j (ev_value e) l\<rparr>" "L' = L" using run by auto
      thus ?thesis using assms(2,3) by simp
    qed
  qed
qed

lemma backward_analysis_fresh:
  assumes "backward_analysis cf s e f = Inr s'" "fresh_at i s"
  shows "fresh_at i s'"
proof -
  consider (rd) "ev_is_read e" | (wr) "\<not> ev_is_read e" "ev_is_write e" | (no) "\<not> ev_is_read e" "\<not> ev_is_write e" by blast
  thus ?thesis
  proof cases
    case rd
    obtain t L where t: "backward_analysis_read cf s e f [] = Inr (t, L)"
      "tb_set_state t (tb_current_state t) (\<lambda>st. st\<lparr>st_ei_leads := L\<rparr>) = Inr s'"
      using assms(1) rd by (auto simp: backward_analysis_def elim!: bind_r_InrE)
    have step: "tb_states s' = tb_states s" if "bar_step cf e ui ei (s, L) k = Inr (s', L')" for ui ei s L k s' L'
      using that unfolding bar_step_def Let_def
      by (auto elim!: bind_r_InrE split: if_splits prod.splits)
    obtain ui ei where f: "fold_r (bar_step cf e ui ei) (s, []) ei = Inr (t, L)"
      using t(1) by (auto simp: backward_analysis_read_def Let_def elim!: bind_r_InrE)
    have "tb_states (fst (s, [] :: lead_map)) = tb_states (fst (t, L))"
      by (rule fold_r_rel [where R = "\<lambda>a b. tb_states (fst a) = tb_states (fst b)", OF f]) (use step in auto)
    hence "fresh_at i t" using assms(2) by (simp add: fresh_at_def tb_state_def)
    thus ?thesis by (rule fresh_at_set [OF t(2)]) simp
  next
    case wr
    obtain t L where t: "backward_analysis_write cf s e [] = Inr (t, L)"
      "fold_r (\<lambda>s (k, ls). consistent_union cf s k ls) t L = Inr s'"
      using assms(1) wr by (auto simp: backward_analysis_def elim!: bind_r_InrE)
    obtain ew where f: "fold_r (baw_step cf e) (s, []) ew = Inr (t, L)"
      using t(1) by (auto simp: backward_analysis_write_def elim!: bind_r_InrE)
    have "map_unexplored (snd (s, [])) \<and> fresh_at i (fst (s, [] :: lead_map)) \<longrightarrow> map_unexplored (snd (t, L)) \<and> fresh_at i (fst (t, L))"
      by (rule fold_r_rel [where R = "\<lambda>a b. map_unexplored (snd a) \<and> fresh_at i (fst a) \<longrightarrow>
          map_unexplored (snd b) \<and> fresh_at i (fst b)", OF f]) (use baw_step_fresh in \<open>auto simp: prod_eq_iff\<close>)
    hence "map_unexplored L" "fresh_at i t" using assms(2) by (auto simp: map_unexplored_def)
    thus ?thesis using fold_fresh [OF t(2)] union_fresh unfolding map_unexplored_def by (fastforce split: prod.splits)
  next
    case no
    thus ?thesis using assms by (simp add: backward_analysis_def)
  qed
qed

lemma update_leads_fresh:
  assumes "update_leads cf s e f = Inr s'" "fresh_at i s"
  shows "fresh_at i s'"
proof -
  obtain t where "(if ev_is_read e then forward_analysis cf s e f else Inr s) = Inr t" "backward_analysis cf t e f = Inr s'"
    using assms by (auto simp: update_leads_def assert_d_def split: if_splits elim!: bind_r_InrE)
  moreover from this(1) have "fresh_at i t"
    using forward_analysis_fresh assms(2) by (auto split: if_splits)
  ultimately show ?thesis using backward_analysis_fresh by blast
qed

lemma analyse_ui_fresh:
  "analyse_unexplored_influenecers cf s rd = Inr s' \<Longrightarrow> fresh_at i s \<Longrightarrow> fresh_at i s'"
  unfolding analyse_unexplored_influenecers_def
  by (elim bind_r_InrE, erule fold_fresh) (auto intro: update_leads_fresh)

section \<open>The leads of the forward analysis\<close>

lemma forbid_values_sound:
  assumes "sop_ok f"
  shows "sop_ok (forbid_values f rd vs) \<and>
    (sop_sat \<sigma> (forbid_values f rd vs) \<longleftrightarrow> sop_sat \<sigma> f \<or> \<sigma> rd \<in> set vs)"
  using assms
proof (induction vs arbitrary: f)
  case (Cons v vs)
  have "sop_ok (sop_or_term f (rd, v))" using sop_or_term_ok Cons.prems by blast
  thus ?case using Cons.IH [of "sop_or_term f (rd, v)"] sop_or_term_sat [OF Cons.prems, of \<sigma> "(rd, v)"] by auto
qed simp

lemma write_then_read:
  assumes "get_event c i = w" "get_event c j = r" "ev_is_write w" "\<not> ev_is_rmw w" "ev_is_read r"
    "ev_object r = ev_object w"
  shows "to_event_sequence c mm [i, j] = [w, r\<lparr>ev_value := ev_value w\<rparr>]"
  using assms ev_read_not_write [OF assms(5)]
  by (simp add: to_event_sequence_def tes_step_def tes_read_value_def Let_def)

text \<open>The lead for one enabled write \<open>i\<close> that gives the read \<open>e\<close> another value than the current one: the write and
  then the read, evaluated; where the write is not that of a read-modify-write, the read reads the value
  written. The formula forbids what \<open>f\<close> does, the current value and the values of the other writes of \<open>ui\<close>.\<close>

definition write_lead :: "tbuilder \<Rightarrow> event \<Rightarrow> sop_formula \<Rightarrow> seq \<Rightarrow> int iid \<Rightarrow> lead \<Rightarrow> bool" where
  "write_lead s e f ui i l =
     (\<not> ld_done l \<and> ld_constraint l = [] \<and> ld_start l = [i, ev_iid e] \<and>
      ld_merged l = to_event_sequence (tb_ctx s) (tb_mem s) [i, ev_iid e] \<and>
      (\<not> ev_is_rmw (tb_event s i) \<longrightarrow> ld_merged l = [tb_event s i, e\<lparr>ev_value := ev_value (tb_event s i)\<rparr>]) \<and>
      (\<forall>\<sigma>. sop_sat \<sigma> (ld_forbidden l) \<longleftrightarrow> sop_sat \<sigma> f \<or> \<sigma> (ev_iid e) = tb_mem_at s (ev_object e) \<or>
         (\<exists>j\<in>set ui. j \<noteq> i \<and> \<sigma> (ev_iid e) = ev_value (tb_event s j))))"

text \<open>The lead in which the read comes next and reads the current value; all values of \<open>ui\<close> but this are forbidden.\<close>

definition current_lead :: "tbuilder \<Rightarrow> event \<Rightarrow> sop_formula \<Rightarrow> seq \<Rightarrow> lead \<Rightarrow> bool" where
  "current_lead s e f ui l =
     (\<not> ld_done l \<and> ld_constraint l = [] \<and> ld_start l = [ev_iid e] \<and>
      ld_merged l = [e\<lparr>ev_value := tb_mem_at s (ev_object e)\<rparr>] \<and>
      (\<forall>\<sigma>. sop_sat \<sigma> (ld_forbidden l) \<longleftrightarrow> sop_sat \<sigma> f \<or>
         (\<exists>j\<in>set ui. ev_value (tb_event s j) \<noteq> tb_mem_at s (ev_object e) \<and> \<sigma> (ev_iid e) = ev_value (tb_event s j))))"

lemma fa_leads_spec:
  assumes "sop_ok f" "ev_is_read e" "tb_event s (ev_iid e) = e"
    "\<forall>i\<in>set is. ev_is_write (tb_event s i) \<and> ev_object (tb_event s i) = ev_object e"
  shows "\<exists>L. fa_leads s e f ui is = Inr L \<and>
    list_all2 (write_lead s e f ui) (filter (\<lambda>i. ev_value (tb_event s i) \<noteq> tb_mem_at s (ev_object e)) is) L"
  using assms(4)
proof (induction "is")
  case (Cons i "is")
  let ?cur = "tb_mem_at s (ev_object e)" and ?w = "tb_event s i"
  let ?fui = "forbid_values (sop_or_term f (ev_iid e, ?cur)) (ev_iid e)
                (map (\<lambda>j. ev_value (tb_event s j)) (filter (\<lambda>j. j \<noteq> i) ui))"
  let ?l = "lead_empty\<lparr>ld_start := [i, ev_iid e], ld_forbidden := ?fui,
               ld_merged := to_event_sequence (tb_ctx s) (tb_mem s) [i, ev_iid e]\<rparr>"
  have l: "lead_of_seq (tb_ctx s) [i, ev_iid e] ?fui (tb_mem s) = Inr ?l"
    by (simp add: lead_of_seq_def lead_add_pending_def lead_empty_def)
  have m: "\<not> ev_is_rmw ?w \<longrightarrow> to_event_sequence (tb_ctx s) (tb_mem s) [i, ev_iid e] = [?w, e\<lparr>ev_value := ev_value ?w\<rparr>]"
    using write_then_read [of "tb_ctx s" i ?w "ev_iid e" e] Cons.prems assms(2,3) by (simp add: tb_event_def)
  have f: "sop_sat \<sigma> ?fui \<longleftrightarrow> sop_sat \<sigma> f \<or> \<sigma> (ev_iid e) = ?cur \<or>
      (\<exists>j\<in>set ui. j \<noteq> i \<and> \<sigma> (ev_iid e) = ev_value (tb_event s j))" for \<sigma>
    using forbid_values_sound [OF sop_or_term_ok [OF assms(1)], where \<sigma> = \<sigma> and rd = "ev_iid e"]
      sop_or_term_sat [OF assms(1), of \<sigma> "(ev_iid e, ?cur)"] by auto
  have "write_lead s e f ui i ?l" using m f by (simp add: write_lead_def lead_empty_def)
  thus ?case using Cons.IH Cons.prems l by (auto simp: seq_push_front_def)
qed simp

lemma current_lead_spec:
  assumes "sop_ok f" "ev_is_read e" "tb_event s (ev_iid e) = e"
  shows "\<exists>l. lead_of_seq (tb_ctx s) [ev_iid e] (forbid_values f (ev_iid e)
      (filter (\<lambda>v. v \<noteq> tb_mem_at s (ev_object e)) (map (\<lambda>i. ev_value (tb_event s i)) ui))) (tb_mem s) = Inr l \<and>
    current_lead s e f ui l"
proof -
  have "to_event_sequence (tb_ctx s) (tb_mem s) [ev_iid e] = [e\<lparr>ev_value := tb_mem_at s (ev_object e)\<rparr>]"
    using assms(3) ev_read_not_write [OF assms(2)] assms(2)
    by (simp add: to_event_sequence_def tb_event_def tes_step_def Let_def tes_read_value_def tb_mem_at_def map_get_def)
  thus ?thesis using forbid_values_sound [OF assms(1)]
    by (auto simp: lead_of_seq_def lead_add_pending_def lead_empty_def current_lead_def)
qed

section \<open>Properties\<close>

text \<open>C8: what the forward analysis of a read adds to the leads of the current state: with \<open>ui\<close> the
  unexplored influencers, whose values are, each once, those that the enabled writes of the object have and
  the formula does not forbid, it makes a lead for the read alone if the current value is not forbidden,
  and one for every \<open>i\<close> of \<open>ui\<close> with another value, the write before the read; no others. Each of these leads is
  accounted for by the union with the leads of the state (see \<open>accounted\<close>). Where the write belongs to a
  read-modify-write, the lead has the write and the read in this order and the values \<open>to_event_sequence\<close> gives
  them; else the read reads the value written.\<close>

theorem forward_analysis_leads:
  assumes "sop_ok f" "ev_is_read e" "tb_event s (ev_iid e) = e" "\<forall>i\<in>set (tb_enabled s). ev_iid (tb_event s i) = i"
    "forward_analysis cf s e f = Inr s'"
  shows "\<exists>ui L1 L2. unexploredInfluencers cf s e f = Inr ui \<and>
    distinct (map (\<lambda>i. ev_value (tb_event s i)) ui) \<and>
    (\<lambda>i. ev_value (tb_event s i)) ` set ui = (\<lambda>i. ev_value (tb_event s i)) ` {i \<in> set (tb_enabled s). allows f e (tb_event s i)} \<and>
    (if sop_check_evaluation f (ev_iid e, tb_mem_at s (ev_object e)) = R_TRUE then L1 = []
     else \<exists>l. L1 = [l] \<and> current_lead s e f ui l) \<and>
    list_all2 (write_lead s e f ui) (filter (\<lambda>i. ev_value (tb_event s i) \<noteq> tb_mem_at s (ev_object e)) ui) L2 \<and>
    (\<forall>l\<in>set (L1 @ L2). accounted (vf_fuel cf) cf s (tb_current_state s) (L1 @ L2) l s')"
proof -
  let ?cur = "tb_mem_at s (ev_object e)"
  obtain ui where U: "unexploredInfluencers cf s e f = Inr ui"
    using assms(5) by (auto simp: forward_analysis_def elim!: bind_r_InrE)
  have run: "ui_loop (tb_ctx s) e f (tb_enabled s) [] [] [] = ui"
    using U by (simp add: unexploredInfluencers_def assert_d_def split: if_splits)
  have ui: "set ui \<subseteq> {i \<in> set (tb_enabled s). allows f e (tb_event s i)}"
    "(\<lambda>i. ev_value (tb_event s i)) ` set ui =
      (\<lambda>i. ev_value (tb_event s i)) ` {i \<in> set (tb_enabled s). allows f e (tb_event s i)}"
    "inj_on (\<lambda>i. ev_value (tb_event s i)) (set ui)" "distinct ui"
    using ui_loop_spec [of "tb_enabled s" "tb_ctx s" "[]" "[]" "[]" f e ui] assms(4) run by (simp_all add: tb_event_def)
  have w: "\<forall>i\<in>set ui. ev_is_write (tb_event s i) \<and> ev_object (tb_event s i) = ev_object e"
    using ui(1) by (auto simp: allows_def ev_same_object_iff)
  obtain L2 where L2: "fa_leads s e f ui ui = Inr L2"
    "list_all2 (write_lead s e f ui) (filter (\<lambda>i. ev_value (tb_event s i) \<noteq> ?cur) ui) L2"
    using fa_leads_spec [OF assms(1-3) w] by blast
  obtain l where l: "lead_of_seq (tb_ctx s) [ev_iid e] (forbid_values f (ev_iid e)
      (filter (\<lambda>v. v \<noteq> ?cur) (map (\<lambda>i. ev_value (tb_event s i)) ui))) (tb_mem s) = Inr l" "current_lead s e f ui l"
    using current_lead_spec [OF assms(1-3)] by blast
  define L1 where "L1 = (if sop_check_evaluation f (ev_iid e, ?cur) = R_TRUE then [] else [l])"
  have un: "consistent_union cf s (tb_current_state s) (L1 @ L2) = Inr s'"
    using assms(5) U L2(1) l(1) by (simp add: forward_analysis_def L1_def Let_def split: if_splits)
  have "\<forall>k\<in>set (L1 @ L2). \<not> ld_done k"
    using l(2) fa_leads_unexplored [OF L2(1)] by (auto simp: L1_def current_lead_def unexplored_def)
  hence "\<forall>l\<in>set (L1 @ L2). accounted (vf_fuel cf) cf s (tb_current_state s) (L1 @ L2) l s'"
    using consistent_union_n_accounts un unfolding consistent_union_def by blast
  moreover have "if sop_check_evaluation f (ev_iid e, ?cur) = R_TRUE then L1 = [] else \<exists>l. L1 = [l] \<and> current_lead s e f ui l"
    using l(2) by (simp add: L1_def)
  ultimately show ?thesis using U L2(2) ui(2-4) by (intro exI [of _ ui] exI [of _ L1] exI [of _ L2]) (simp add: distinct_map)
qed

theorem forward_analysis_leads_witness:
  "\<exists>s' L1 L2. forward_analysis ex_conf (ex_state_builder []) (ex_access T_READ 1 0 0) sop_false = Inr s' \<and>
     list_all2 (write_lead (ex_state_builder []) (ex_access T_READ 1 0 0) sop_false [IID 0 0, IID 2 0]) [IID 0 0, IID 2 0] L2 \<and>
     (\<forall>l\<in>set (L1 @ L2). accounted (vf_fuel ex_conf) ex_conf (ex_state_builder []) 0 (L1 @ L2) l s')"
proof -
  let ?e = "ex_access T_READ 1 0 0" and ?s = "ex_state_builder []"
  have "case forward_analysis ex_conf ?s ?e sop_false of Inr s' \<Rightarrow> True | Inl _ \<Rightarrow> False" by code_simp
  then obtain s' where s': "forward_analysis ex_conf ?s ?e sop_false = Inr s'" by (auto split: sum.splits)
  have u: "unexploredInfluencers ex_conf ?s ?e sop_false = Inr [IID 0 0, IID 2 0]" by code_simp
  have ev: "tb_event ?s (ev_iid ?e) = ?e" "\<forall>i\<in>set (tb_enabled ?s). ev_iid (tb_event ?s i) = i" "ev_is_read ?e" by code_simp+
  have v: "filter (\<lambda>i. ev_value (tb_event ?s i) \<noteq> tb_mem_at ?s (ev_object ?e)) [IID 0 0, IID 2 0] = [IID 0 0, IID 2 0]" by code_simp
  have c: "tb_current_state ?s = 0" by (simp add: ex_state_builder_def)
  have "sop_ok sop_false" by code_simp
  from forward_analysis_leads [OF this ev(3,1,2) s'] obtain ui L1 L2
    where r: "unexploredInfluencers ex_conf ?s ?e sop_false = Inr ui"
      "list_all2 (write_lead ?s ?e sop_false ui) (filter (\<lambda>i. ev_value (tb_event ?s i) \<noteq> tb_mem_at ?s (ev_object ?e)) ui) L2"
      "\<forall>l\<in>set (L1 @ L2). accounted (vf_fuel ex_conf) ex_conf ?s (tb_current_state ?s) (L1 @ L2) l s'" by blast
  have "ui = [IID 0 0, IID 2 0]" using r(1) u by simp
  hence "list_all2 (write_lead ?s ?e sop_false [IID 0 0, IID 2 0]) [IID 0 0, IID 2 0] L2" using r(2) by (simp only: v)
  thus ?thesis using s' r(3) unfolding c by blast
qed

text \<open>C9: the analyses never touch the execution: whatever they run into, threads, memory, enabled events,
  executed events and the number of states stay as they are, all fields of the states but the two kinds
  of leads too, and no unexplored lead of any state is lost.\<close>

theorem update_leads_keeps_execution:
  assumes "update_leads cf s e f = Inr s'"
  shows "\<exists>sts cov ew. s' = s\<lparr>tb_states := sts, tb_covered := cov, tb_EW_leads := ew\<rparr> \<and>
    length sts = length (tb_states s) \<and>
    (\<forall>j<length sts. \<exists>L E. sts ! j = (tb_states s ! j)\<lparr>st_leads := L, st_ei_leads := E\<rparr> \<and>
       keeps_pending (st_leads (tb_states s ! j)) L)"
proof -
  obtain sts cov ew where "s' = s\<lparr>tb_states := sts, tb_covered := cov, tb_EW_leads := ew\<rparr>"
    "list_all2 st_aframe (tb_states s) sts"
    using update_leads_frame [OF assms] unfolding analysis_frame_def by blast
  moreover from this(2) have "length sts = length (tb_states s)" "\<forall>j<length sts. st_aframe (tb_states s ! j) (sts ! j)"
    by (auto simp: list_all2_conv_all_nth)
  ultimately show ?thesis unfolding st_aframe_def by blast
qed

theorem update_leads_keeps_execution_witness:
  "\<exists>s'. update_leads ex_conf (ex_state_builder []) (ex_access T_READ 1 0 0) sop_false = Inr s' \<and>
     tb_threads s' = ex_threads \<and> length (tb_states s') = 1"
proof -
  let ?s = "ex_state_builder []"
  have "case update_leads ex_conf ?s (ex_access T_READ 1 0 0) sop_false of Inr s' \<Rightarrow> True | Inl _ \<Rightarrow> False" by code_simp
  then obtain s' where s': "update_leads ex_conf ?s (ex_access T_READ 1 0 0) sop_false = Inr s'" by (auto split: sum.splits)
  have "tb_threads ?s = ex_threads" "length (tb_states ?s) = 1"
    by (simp_all add: ex_state_builder_def ex_builder_def tb_init_def assert_d_def ex_conf_def)
  thus ?thesis using update_leads_keeps_execution [OF s'] s' by auto
qed

end
