(* ===== verification/ViewSchedule.thy ===== *)
theory ViewSchedule
  imports Prelude ViewAnalysis
begin

text \<open>
  Scheduling (\<open>ViewEqTraceBuilder::schedule\<close>): replaying a prefix, running to the next accesses of
  the threads, choosing a lead at a new state and executing its first event. The result of
  \<open>schedule\<close> is the thread (\<open>*proc\<close>), or \<open>None\<close> for \<open>false\<close>; \<open>*aux\<close>, \<open>*alt\<close> and \<open>*DryRun\<close> are
  always -1, 0 and false.
\<close>

section \<open>Executing an access\<close>

definition mem_write :: "tbuilder \<Rightarrow> event \<Rightarrow> tbuilder" where
  "mem_write s e = s\<lparr>tb_last_write := AList.update (ev_object e) (ev_iid e) (tb_last_write s),
                     tb_mem := AList.update (ev_object e) (ev_value e) (tb_mem s)\<rparr>"

text \<open>What \<open>replay_memory_access\<close> and \<open>execute_next_lead\<close> have in common, on \<open>current_event\<close>: a write goes to
  memory, a read gets the value of the memory.\<close>

definition perform_access :: "tbuilder \<Rightarrow> tbuilder result" where
  "perform_access s =
     (let e = tb_current_event s;
          s = (if ev_is_write e then mem_write s e else s) in
      if ev_is_read e
      then let e = e\<lparr>ev_value := tb_mem_at s (ev_object e)\<rparr> in
        bind_r (tb_set_event (s\<lparr>tb_current_event := e\<rparr>) (tb_current_thread s) (int (ev_index e))
                  (\<lambda>x. x\<lparr>ev_value := ev_value e\<rparr>)) Inr
      else Inr s)"

definition event_at :: "tbuilder \<Rightarrow> int iid \<Rightarrow> event result" where
  "event_at s i = bind_r (nth_r (tb_threads s) (iid_pid i)) (\<lambda>t. nth_r (th_events t) (int (iid_idx i)))"

definition enabled_erase :: "tbuilder \<Rightarrow> int iid \<Rightarrow> tbuilder result" where
  "enabled_erase s i = bind_r (seq_erase (tb_enabled s) i) (\<lambda>en. Inr (s\<lparr>tb_enabled := en\<rparr>))"

section \<open>Replay\<close>

definition replay_non_memory_access :: "vconf \<Rightarrow> tbuilder \<Rightarrow> int \<Rightarrow> int iid \<Rightarrow> tbuilder result" where
  "replay_non_memory_access cf s p i =
     bind_r (nth_r (tb_threads s) p) (\<lambda>t.
       assert_d cf (\<not> th_awaiting t) (assert_d cf (iid_idx i = th_size t)
         (bind_r (tb_push_event s p (ev_of_iid i)) (\<lambda>s. Inr (s\<lparr>tb_current_thread := p\<rparr>)))))"

definition replay_memory_access :: "vconf \<Rightarrow> tbuilder \<Rightarrow> int \<Rightarrow> int iid \<Rightarrow> tbuilder result" where
  "replay_memory_access cf s p i =
     bind_r (nth_r (tb_prefix_state s) (tb_prefix_idx s)) (\<lambda>ps.
     bind_r (nth_r (tb_threads s) p) (\<lambda>t.
       assert_d cf (ps \<ge> 0) (assert_d cf (int (iid_idx i) = int (th_size t) - 1)
         (bind_r (enabled_erase s i) (\<lambda>s.
          bind_r (event_at s i) (\<lambda>e.
          bind_r (tb_set_thread (s\<lparr>tb_current_state := ps, tb_current_thread := p, tb_current_event := e\<rparr>) p
                    (\<lambda>t. t\<lparr>th_awaiting := False\<rparr>)) (\<lambda>s.
            assert_d cf (ev_is_write e \<or> ev_is_read e) (assert_d cf (0 \<le> p \<and> p < int (length (tb_threads s)))
              (bind_r (perform_access s) (\<lambda>s.
               bind_r (tb_state s ps) (\<lambda>st.
                 Inr (if tb_prefix_idx s = st_lead_head st then s\<lparr>tb_alpha_head := tb_prefix_idx s\<rparr> else s))))))))))))"

definition replay_schedule :: "vconf \<Rightarrow> tbuilder \<Rightarrow> (int \<times> tbuilder) result" where
  "replay_schedule cf s =
     bind_r (nth_r (tb_exec s) (tb_prefix_idx s)) (\<lambda>i.
     bind_r (nth_r (tb_threads s) (iid_pid i)) (\<lambda>t. assert_d cf (th_available t)
       (bind_r (nth_r (tb_prefix_state s) (tb_prefix_idx s)) (\<lambda>ps.
        bind_r (if ps < 0 then replay_non_memory_access cf s (iid_pid i) i
                else replay_memory_access cf s (iid_pid i) i) (\<lambda>s.
          Inr (iid_pid i, s\<lparr>tb_prefix_idx := tb_prefix_idx s + 1\<rparr>))))))"

section \<open>Running to the next access\<close>

text \<open>The last thread that is available and not waiting for its access to be scheduled.\<close>

fun free_thread :: "vthread list \<Rightarrow> nat \<Rightarrow> nat option" where
  "free_thread ts 0 = None"
| "free_thread ts (Suc i) =
     (if th_available (ts ! i) \<and> \<not> th_awaiting (ts ! i) then Some i else free_thread ts i)"

definition exists_non_memory_access :: "tbuilder \<Rightarrow> (int option \<times> tbuilder) result" where
  "exists_non_memory_access s =
     (case free_thread (tb_threads s) (length (tb_threads s)) of
        None \<Rightarrow> Inr (None, s)
      | Some i \<Rightarrow>
          let iid = IID (int i) (th_size (tb_threads s ! i)) in
          bind_r (tb_push_event s (int i) (ev_of_iid iid)) (\<lambda>s.
            Inr (Some (int i), s\<lparr>tb_exec := seq_push_back (tb_exec s) iid,
                                tb_prefix_state := tb_prefix_state s @ [- 1],
                                tb_prefix_idx := tb_prefix_idx s + 1, tb_current_thread := int i\<rparr>)))"

section \<open>A new state\<close>

definition make_new_state :: "tbuilder \<Rightarrow> tbuilder" where
  "make_new_state s =
     s\<lparr>tb_current_state := int (length (tb_states s)),
       tb_states := tb_states s @
         [(st_make (tb_prefix_idx s))\<lparr>st_forbidden := tb_forbidden s, st_mem := tb_mem s\<rparr>]\<rparr>"

definition compute_new_leads :: "vconf \<Rightarrow> tbuilder \<Rightarrow> tbuilder result" where
  "compute_new_leads cf s =
     (if tb_to_explore s = []
      then bind_r (case enabaled_RWpair_read s of
             Some r \<Rightarrow> bind_r (analyse_unexplored_influenecers cf s r) (\<lambda>s.
                         bind_r (tb_set_state s (tb_current_state s) (\<lambda>st. st\<lparr>st_fwd := True, st_fwd_read := r\<rparr>)) (\<lambda>s.
                           Inr (r, s)))
           | None \<Rightarrow> bind_r (seq_head (tb_enabled s)) (\<lambda>r. Inr (r, s))) (\<lambda>(next_event, s).
           bind_r (update_leads cf s (tb_event s next_event) (tb_forbidden s)) (\<lambda>s.
           bind_r (tb_state s (tb_current_state s)) (\<lambda>st.
           bind_r (if \<not> st_has_unexplored_leads st
                   then bind_r (lead_of_seq (tb_ctx s) [next_event] (tb_forbidden s) (tb_mem s)) (\<lambda>l.
                          consistent_union_lead cf s (tb_current_state s) l)
                   else Inr s) (\<lambda>s.
           bind_r (tb_set_state s (tb_current_state s) (\<lambda>st. st\<lparr>st_lead_head := tb_prefix_idx s\<rparr>)) (\<lambda>s.
             Inr (s\<lparr>tb_alpha_head := tb_prefix_idx s\<rparr>))))))
      else bind_r (tb_set_state s (tb_current_state s)
                     (\<lambda>st. st\<lparr>st_executing_alpha := True, st_lead_head := tb_alpha_head s\<rparr>)) (\<lambda>s.
           bind_r (lead_of_events (tb_ctx s) (tb_to_explore s) (tb_forbidden s)) (\<lambda>l.
           bind_r (consistent_union_lead cf s (tb_current_state s) l) (\<lambda>s.
           bind_r (es_pop_front (tb_to_explore s)) (\<lambda>te. Inr (s\<lparr>tb_to_explore := te\<rparr>))))))"

text \<open>Choosing the lead; the state of the builder with \<open>alpha\<close> set and the first event of the lead.\<close>

definition choose_lead :: "tbuilder \<Rightarrow> (lead \<times> event \<times> tbuilder) result" where
  "choose_lead s =
     bind_r (tb_state s (tb_current_state s)) (\<lambda>st.
     bind_r (st_next_unexplored_lead st) (\<lambda>(l, st).
     bind_r (tb_set_state s (tb_current_state s) (\<lambda>_. st)) (\<lambda>s.
     bind_r (st_alpha_sequence st) (\<lambda>a.
     bind_r (es_head a) (\<lambda>e.
     bind_r (es_tail a) (\<lambda>tl. Inr (l, e, s\<lparr>tb_to_explore := tl\<rparr>)))))))"

text \<open>The formula for what follows: a read has been given its value; the write of the same
  read-modify-write is executed with it.\<close>

definition lead_formula :: "tbuilder \<Rightarrow> lead \<Rightarrow> event \<Rightarrow> tbuilder result" where
  "lead_formula s l e =
     (if ev_is_read e
      then bind_r (if tb_to_explore s \<noteq> []
                   then bind_r (es_head (tb_to_explore s)) (\<lambda>h.
                          if ev_corresponding_rmw_store e h then es_tail (tb_to_explore s) else Inr (tb_to_explore s))
                   else Inr []) (\<lambda>te.
             Inr (s\<lparr>tb_forbidden := sop_reduce (ld_forbidden l) (ev_iid e, tb_mem_at s (ev_object e)), tb_to_explore := te\<rparr>))
      else Inr (s\<lparr>tb_forbidden := ld_forbidden l\<rparr>))"

definition execute_next_lead :: "vconf \<Rightarrow> tbuilder \<Rightarrow> tbuilder result" where
  "execute_next_lead cf s =
     bind_r (choose_lead s) (\<lambda>(l, e, s).
     bind_r (enabled_erase s (ev_iid e)) (\<lambda>s.
     bind_r (lead_formula s l e) (\<lambda>s.
     bind_r (event_at s (ev_iid e)) (\<lambda>cur.
       let s = s\<lparr>tb_current_thread := ev_pid e, tb_current_event := cur\<rparr> in
       assert_d cf (ev_is_write cur \<or> ev_is_read cur)
       (bind_r (perform_access s) (\<lambda>s.
        bind_r (tb_set_thread s (tb_current_thread s) (\<lambda>t. t\<lparr>th_awaiting := False\<rparr>)) (\<lambda>s.
          Inr (s\<lparr>tb_exec := seq_push_back (tb_exec s) (ev_iid (tb_current_event s)),
                 tb_prefix_state := tb_prefix_state s @ [tb_current_state s],
                 tb_prefix_idx := tb_prefix_idx s + 1\<rparr>))))))))"

section \<open>schedule\<close>

text \<open>The replay point: the last event of the prefix is replaced by the first one of the next lead.\<close>

definition leave_replay :: "vconf \<Rightarrow> tbuilder \<Rightarrow> tbuilder result" where
  "leave_replay cf s =
     bind_r (nth_r (tb_prefix_state s) (tb_prefix_idx s)) (\<lambda>ps.
     bind_r (tb_state s ps) (\<lambda>st. assert_d cf (st_has_unexplored_leads st)
       (bind_r (pop_back (tb_exec s)) (\<lambda>ex.
        bind_r (pop_back (tb_prefix_state s)) (\<lambda>pss.
        bind_r (tb_set_state (s\<lparr>tb_current_state := ps, tb_exec := ex, tb_prefix_state := pss\<rparr>) ps
                  (\<lambda>st. st\<lparr>st_lead_head := tb_prefix_idx s\<rparr>)) (\<lambda>s.
          Inr (s\<lparr>tb_alpha_head := tb_prefix_idx s\<rparr>)))))))"

text \<open>The assertion on \<open>forbidden.evaluate\<close> names a member function without calling it and does not compile
  with assertions; it is left out.\<close>

definition schedule :: "vconf \<Rightarrow> tbuilder \<Rightarrow> (int option \<times> tbuilder) result" where
  "schedule cf s =
     assert_d cf (length (tb_exec s) = length (tb_prefix_state s))
       (if is_replaying s then bind_r (replay_schedule cf s) (\<lambda>(p, s). Inr (Some p, s))
        else if at_replay_point s
        then bind_r (leave_replay cf s) (\<lambda>s. bind_r (execute_next_lead cf s) (\<lambda>s. Inr (Some (tb_current_thread s), s)))
        else bind_r (exists_non_memory_access s) (\<lambda>(p, s).
          case p of Some i \<Rightarrow> Inr (Some i, s)
          | None \<Rightarrow>
              if tb_enabled s = [] then Inr (None, s)
              else bind_r (compute_new_leads cf (make_new_state s)) (\<lambda>s.
                bind_r (tb_state s (tb_current_state s)) (\<lambda>st.
                  if st_has_unexplored_leads st
                  then bind_r (execute_next_lead cf s) (\<lambda>s. Inr (Some (tb_current_thread s), s))
                  else assert_d cf False (Inr (None, s))))))"

end
