(* ===== verification/ViewOps.thy ===== *)
theory ViewOps
  imports Prelude ViewSchedule
begin

text \<open>
  The callbacks of the interpreter (\<open>spawn\<close>, \<open>join\<close>, \<open>store\<close>, \<open>load\<close>, read-modify-writes), which put
  the events of the running thread into the builder's tables, the end of an execution (\<open>reset\<close>) and
  what the builder reports. The callbacks return \<open>true\<close> always; their result here is the new state.
\<close>

section \<open>Placing an event\<close>

text \<open>The event added by \<open>exists_non_memory_access\<close> is taken off the thread and the sequence.\<close>

definition drop_placeholder :: "tbuilder \<Rightarrow> tbuilder result" where
  "drop_placeholder s =
     bind_r (tb_pop_event s (tb_current_thread s)) (\<lambda>s.
       bind_r (pop_back (tb_exec s)) (\<lambda>ex. Inr (s\<lparr>tb_exec := ex\<rparr>)))"

text \<open>\<open>current_event\<close> gets the next identifier of its thread and goes to its end.\<close>

definition number_event :: "tbuilder \<Rightarrow> event \<Rightarrow> (event \<times> tbuilder) result" where
  "number_event s e = bind_r (tb_next_iid s) (\<lambda>i. Inr (e\<lparr>ev_iid := i\<rparr>, s\<lparr>tb_current_event := e\<lparr>ev_iid := i\<rparr>\<rparr>))"

definition append_event :: "tbuilder \<Rightarrow> event \<Rightarrow> tbuilder result" where
  "append_event s e =
     bind_r (tb_push_event s (tb_current_thread s) e) (\<lambda>s. Inr (s\<lparr>tb_exec := seq_push_back (tb_exec s) (ev_iid e)\<rparr>))"

text \<open>An access: a global one is only peeked and becomes enabled, any other one replaces the placeholder.\<close>

definition place_access :: "vconf \<Rightarrow> tbuilder \<Rightarrow> event \<Rightarrow> tbuilder result" where
  "place_access cf s e =
     (if ev_is_global e
      then bind_r (number_event s e) (\<lambda>(e, s).
           bind_r (tb_push_event s (tb_current_thread s) e) (\<lambda>s.
           bind_r (tb_set_thread s (tb_current_thread s) (\<lambda>t. t\<lparr>th_awaiting := True\<rparr>)) (\<lambda>s.
             assert_d cf (\<not> is_enabled s (tb_current_thread s))
               (Inr (s\<lparr>tb_enabled := seq_push_back (tb_enabled s) (ev_iid e)\<rparr>)))))
      else bind_r (drop_placeholder s) (\<lambda>s. bind_r (number_event s e) (\<lambda>(e, s). append_event s e)))"

section \<open>Callbacks\<close>

definition tb_full_memory_conflict :: "tbuilder \<Rightarrow> bool \<times> tbuilder" where
  "tb_full_memory_conflict s = (False, s)"

definition tb_fence :: "tbuilder \<Rightarrow> bool \<times> tbuilder" where
  "tb_fence s = (True, s)"

definition tb_spawn :: "tbuilder \<Rightarrow> tbuilder result" where
  "tb_spawn s =
     (let n = length (tb_threads s);
          e = (ev_make_spawn (ev_of_sym (sev_spawn (int n))))\<lparr>ev_object := (n, 0)\<rparr> in
      bind_r (drop_placeholder s) (\<lambda>s.
      bind_r (number_event s e) (\<lambda>(e, s).
      bind_r (append_event (s\<lparr>tb_spawn_summary := update_spawn_summary (tb_spawn_summary s) e\<rparr>) e) (\<lambda>s.
      bind_r (nth_r (tb_threads s) (ev_pid e)) (\<lambda>t.
      bind_r (cps_spawn (tb_CPS s) (th_cpid t)) (\<lambda>(c, cps).
        Inr (s\<lparr>tb_CPS := cps, tb_threads := tb_threads s @ [th_make c (- 42)]\<rparr>)))))))"

definition tb_join :: "tbuilder \<Rightarrow> nat \<Rightarrow> tbuilder result" where
  "tb_join s tgt =
     (let e = (ev_make_join (ev_of_sym (sev_join (int tgt))))\<lparr>ev_object := (tgt, 0)\<rparr> in
      bind_r (drop_placeholder s) (\<lambda>s.
      bind_r (number_event s e) (\<lambda>(e, s).
        append_event (s\<lparr>tb_join_summary := update_join_summary (tb_join_summary s) e\<rparr>) e)))"

definition tb_store :: "vconf \<Rightarrow> tbuilder \<Rightarrow> sym_data \<Rightarrow> tbuilder result" where
  "tb_store cf s ml = bind_r (ev_make_write (ev_of_sym (sev_store ml))) (\<lambda>e. place_access cf (s\<lparr>tb_current_event := e\<rparr>) e)"

definition tb_atomic_store :: "vconf \<Rightarrow> tbuilder \<Rightarrow> sym_data \<Rightarrow> tbuilder result" where
  "tb_atomic_store cf s ml =
     bind_r (ev_make_write (ev_of_sym (sev_store ml))) (\<lambda>e. place_access cf (s\<lparr>tb_current_event := e\<rparr>) e)"

definition read_of :: "tbuilder \<Rightarrow> sym_addr_size \<Rightarrow> event result" where
  "read_of s a =
     bind_r (ev_make_read (ev_of_sym (sev_load a))) (\<lambda>e. Inr (e\<lparr>ev_value := tb_mem_at s (ev_object e)\<rparr>))"

definition tb_load :: "vconf \<Rightarrow> tbuilder \<Rightarrow> sym_addr_size \<Rightarrow> tbuilder result" where
  "tb_load cf s a = bind_r (read_of s a) (\<lambda>e. place_access cf (s\<lparr>tb_current_event := e\<rparr>) e)"

section \<open>Read-modify-writes\<close>

definition set_rmw :: "tbuilder \<Rightarrow> event \<Rightarrow> event" where
  "set_rmw s e =
     (let e = e\<lparr>ev_is_rmw := True, ev_rmw_op := fst (tb_rmw s), ev_rmw_value := snd (tb_rmw s)\<rparr> in
      if fst (tb_rmw s) = Op_CMPXCHG then e\<lparr>ev_expected := tb_expected s\<rparr> else e)"

definition enable_rmw :: "vconf \<Rightarrow> tbuilder \<Rightarrow> sym_addr_size \<Rightarrow> tbuilder result" where
  "enable_rmw cf s a =
     bind_r (tb_load cf s a) (\<lambda>s.
     bind_r (nth_r (tb_threads s) (tb_current_thread s)) (\<lambda>t.
     bind_r (tb_set_event s (tb_current_thread s) (int (th_size t) - 1) (set_rmw s)) (\<lambda>s.
       Inr (s\<lparr>tb_current_event := set_rmw s (tb_current_event s)\<rparr>))))"

fun map_r :: "('a \<Rightarrow> 'b result) \<Rightarrow> 'a list \<Rightarrow> 'b list result" where
  "map_r g [] = Inr []"
| "map_r g (x # xs) = bind_r (g x) (\<lambda>y. bind_r (map_r g xs) (\<lambda>ys. Inr (y # ys)))"

text \<open>The write is entered into the lead being explored and the leads found for its read.\<close>

definition extend_leads :: "tbuilder \<Rightarrow> int iid \<Rightarrow> int iid \<Rightarrow> tbuilder result" where
  "extend_leads s rd w =
     bind_r (tb_state s (tb_current_state s)) (\<lambda>st.
     bind_r (nth_r (tb_prefix_state s) (st_lead_head st)) (\<lambda>k.
     bind_r (tb_state s k) (\<lambda>hd.
     bind_r (st_alpha_lead hd) (\<lambda>al.
     bind_r (lead_add_rmw_write (tb_ctx s) al rd w) (\<lambda>al.
     bind_r (tb_set_state s k (\<lambda>hd. hd\<lparr>st_leads := (st_leads hd)[nat (st_alpha hd) := al]\<rparr>)) (\<lambda>s.
     bind_r (tb_state s (tb_current_state s)) (\<lambda>st.
     bind_r (map_r (\<lambda>(i, ls). bind_r (map_r (\<lambda>l. lead_update_pending (tb_ctx s) l w) ls) (\<lambda>ls. Inr (i, ls))) (st_ei_leads st)) (\<lambda>ei.
       tb_set_state s (tb_current_state s) (\<lambda>st. st\<lparr>st_ei_leads := ei\<rparr>)))))))))"

definition complete_rmw :: "vconf \<Rightarrow> tbuilder \<Rightarrow> sym_data \<Rightarrow> tbuilder result" where
  "complete_rmw cf s ml =
     bind_r (ev_make_write (ev_of_sym (sev_store ml))) (\<lambda>e.
     bind_r (nth_r (tb_threads s) (tb_current_thread s)) (\<lambda>t.
     bind_r (nth_r (th_events t) (int (th_size t) - 1)) (\<lambda>rd.
       let e = e\<lparr>ev_iid := IID (tb_current_thread s) (th_size t), ev_is_rmw := True, ev_rmw_op := ev_rmw_op rd,
                 ev_rmw_value := ev_rmw_value rd\<rparr>;
           e = (if ev_rmw_op rd = Op_CMPXCHG then e\<lparr>ev_expected := ev_expected rd\<rparr> else e) in
       bind_r (tb_push_event (s\<lparr>tb_current_event := e\<rparr>) (tb_current_thread s) e) (\<lambda>s.
       bind_r (extend_leads s (ev_iid rd) (ev_iid e)) (\<lambda>s.
       bind_r (if \<not> is_replaying s
               then bind_r (update_leads cf s e (tb_forbidden s)) (\<lambda>s.
                      Inr (s\<lparr>tb_exec := seq_push_back (tb_exec s) (ev_iid e),
                             tb_prefix_state := tb_prefix_state s @ [tb_current_state s]\<rparr>))
               else Inr s) (\<lambda>s.
         Inr ((mem_write s e)\<lparr>tb_prefix_idx := tb_prefix_idx s + 1\<rparr>)))))))"

text \<open>The common start of \<open>atomic_rmw\<close> and \<open>compare_exchange\<close> on a shared object: is the last event of the
  thread the read that was peeked?\<close>

definition peeked_read :: "tbuilder \<Rightarrow> event \<Rightarrow> event option result" where
  "peeked_read s rd =
     bind_r (nth_r (tb_threads s) (tb_current_thread s)) (\<lambda>t.
       Inr (if th_size t > 0 \<and> sev_eq (ev_sym_event rd) (ev_sym_event (last (th_events t)))
            then Some (last (th_events t)) else None))"

text \<open>On any other object both events replace one placeholder, and \<open>prefix_state\<close> is not extended.\<close>

definition place_local_rmw :: "tbuilder \<Rightarrow> event \<Rightarrow> sym_data \<Rightarrow> tbuilder result" where
  "place_local_rmw s rd ml =
     bind_r (drop_placeholder s) (\<lambda>s.
     bind_r (ev_make_write (ev_of_sym (sev_store ml))) (\<lambda>w.
     bind_r (tb_next_iid s) (\<lambda>i.
     bind_r (append_event s (rd\<lparr>ev_is_rmw := True, ev_iid := i\<rparr>)) (\<lambda>s.
     bind_r (tb_next_iid s) (\<lambda>j. append_event s (w\<lparr>ev_is_rmw := True, ev_iid := j\<rparr>))))))"

definition atomic_rmw :: "vconf \<Rightarrow> tbuilder \<Rightarrow> sym_data \<Rightarrow> tbuilder result" where
  "atomic_rmw cf s ml =
     bind_r (read_of s (sd_ref ml)) (\<lambda>rd.
       if ev_is_global rd
       then bind_r (peeked_read s rd) (\<lambda>p.
              case p of Some _ \<Rightarrow> complete_rmw cf s ml | None \<Rightarrow> enable_rmw cf s (sd_ref ml))
       else place_local_rmw s rd ml)"

definition set_last_value :: "tbuilder \<Rightarrow> int \<Rightarrow> tbuilder result" where
  "set_last_value s v =
     bind_r (nth_r (tb_threads s) (tb_current_thread s)) (\<lambda>t.
       tb_set_event s (tb_current_thread s) (int (th_size t) - 1) (\<lambda>e. e\<lparr>ev_value := v\<rparr>))"

text \<open>The expected value is not used; a failed exchange restores the value and the last write.\<close>

definition compare_exchange :: "vconf \<Rightarrow> tbuilder \<Rightarrow> sym_data \<Rightarrow> bool \<Rightarrow> tbuilder result" where
  "compare_exchange cf s sd success =
     bind_r (read_of s (sd_ref sd)) (\<lambda>rd.
       if ev_is_global rd
       then bind_r (peeked_read s rd) (\<lambda>p.
              case p of
                Some r \<Rightarrow>
                  let prev = map_get iid_null (tb_last_write s) (ev_object (tb_current_event s)) in
                  bind_r (complete_rmw cf s sd) (\<lambda>s.
                    if \<not> success
                    then bind_r (set_last_value s (ev_value r)) (\<lambda>s.
                           Inr (s\<lparr>tb_last_write := AList.update (ev_object (tb_current_event s)) prev (tb_last_write s),
                                  tb_mem := AList.update (ev_object (tb_current_event s)) (ev_value r) (tb_mem s)\<rparr>))
                    else Inr s)
              | None \<Rightarrow> enable_rmw cf s (sd_ref sd))
       else bind_r (place_local_rmw s rd sd) (\<lambda>s.
              if \<not> success then set_last_value s (ev_value rd) else Inr s))"

text \<open>Operations the algorithm does not have: an assertion, or the constant they return.\<close>

datatype unsupported_op =
    Op_sleepset_is_empty | Op_check_for_cycles | Op_mutex_lock | Op_mutex_lock_fail | Op_mutex_trylock | Op_mutex_unlock
  | Op_mutex_init | Op_mutex_destroy | Op_cond_init | Op_cond_signal | Op_cond_broadcast | Op_cond_wait | Op_cond_awake
  | Op_cond_destroy | Op_register_alternatives

definition tb_unsupported :: "vconf \<Rightarrow> unsupported_op \<Rightarrow> tbuilder \<Rightarrow> (bool \<times> tbuilder) result" where
  "tb_unsupported cf op s = assert_d cf False (Inr (op = Op_sleepset_is_empty \<or> op = Op_mutex_lock, s))"

section \<open>Reports\<close>

text \<open>The computation and its source locations; the errors are those of the base class.\<close>

definition tb_get_trace :: "tbuilder \<Rightarrow> (cpid iid \<times> nat option) list result" where
  "tb_get_trace s =
     map_r (\<lambda>i. bind_r (nth_r (tb_threads s) (iid_pid i)) (\<lambda>t.
                  Inr (IID (th_cpid t) (iid_idx i + 1), ev_md (tb_event s i)))) (tb_exec s)"

definition sym_block :: "event \<Rightarrow> sym_mblock option" where
  "sym_block e = (case arg_addr (sev_arg (ev_sym_event e)) of Some a \<Rightarrow> Some (sa_block (sas_addr a)) | None \<Rightarrow> None)"

definition debug_line :: "tbuilder \<Rightarrow> nat \<Rightarrow> string" where
  "debug_line s i =
     (let e = tb_event s (tb_exec s ! i) in
      (if i < 10 then '' ['' @ dec_nat i @ '']: '' else ''['' @ dec_nat i @ '']: '') @
      (if ev_sym e = [] then ''--''
       else if (case sym_block e of Some b \<Rightarrow> mb_is_stack b | None \<Rightarrow> False) then ''Stack Operation ''
       else if (case sym_block e of Some b \<Rightarrow> mb_is_heap b | None \<Rightarrow> False) then ''Heap Operation ''
       else ev_to_string e) @ [CHR 10])"

definition tb_debug_print :: "tbuilder \<Rightarrow> string" where
  "tb_debug_print s = concat (map (debug_line s) [0..<length (tb_exec s)])"

fun rr_map :: "tbuilder \<Rightarrow> nat list \<Rightarrow> (int iid \<times> int) list \<Rightarrow> (int iid \<times> int) list result" where
  "rr_map s [] m = Inr m"
| "rr_map s (i # is) m =
     bind_r (nth_r (tb_prefix_state s) (int i)) (\<lambda>ps.
       let e = tb_event s (tb_exec s ! i) in
       rr_map s is (if ps \<ge> 0 \<and> ev_is_read e then AList.update (ev_iid e) (ev_value e) m else m))"

fun first_same :: "(int iid \<times> int) list \<Rightarrow> (int iid \<times> int) list list \<Rightarrow> nat \<Rightarrow> nat option" where
  "first_same m [] i = None"
| "first_same m (x # xs) i = (if rv_maps_agree x m then Some i else first_same m xs (Suc i))"

definition record_redundant :: "tbuilder \<Rightarrow> tbuilder result" where
  "record_redundant s =
     bind_r (rr_map s [0..<length (tb_exec s)] []) (\<lambda>m.
       let n = length (tb_explored s) in
       Inr (s\<lparr>tb_explored := tb_explored s @ [m],
              tb_redundant := (case first_same m (tb_explored s) 0 of
                                 Some i \<Rightarrow> map_push (tb_redundant s) (i + 1) (n + 1)
                               | None \<Rightarrow> tb_redundant s)\<rparr>))"

definition report_redundant :: "tbuilder \<Rightarrow> string" where
  "report_redundant s =
     (if length (tb_redundant s) > 0
      then [CHR 10] @ ''Redundant explorations:'' @ [CHR 10] @
           concat (map (\<lambda>(t, us). ''Trace#'' @ dec_nat t @ concat (map (\<lambda>u. '', Trace#'' @ dec_nat u) us) @ [CHR 10])
                     (tb_redundant s))
      else ''Optimal Exploration'' @ [CHR 10])"

section \<open>The end of an execution\<close>

definition finish_up_lead :: "vconf \<Rightarrow> tbuilder \<Rightarrow> int \<Rightarrow> tbuilder result" where
  "finish_up_lead cf s k =
     bind_r (add_EW_leads cf s k) (\<lambda>s. bind_r (tb_state s k) (\<lambda>st. bind_r (nth_r (tb_exec s) (st_prefix st)) (\<lambda>e.
       Inr (s\<lparr>tb_covered := AList.delete e (tb_covered s)\<rparr>))))"

definition finish_up_state :: "vconf \<Rightarrow> tbuilder \<Rightarrow> int \<Rightarrow> tbuilder result" where
  "finish_up_state cf s k =
     bind_r (tb_state s k) (\<lambda>st. fold_r (\<lambda>s (i, ls). consistent_union cf s i ls) s (st_ei_leads st))"

text \<open>The loop from the last state down; \<open>k\<close> states are left.\<close>

fun find_replay_from :: "vconf \<Rightarrow> tbuilder \<Rightarrow> nat \<Rightarrow> (int \<times> tbuilder) result" where
  "find_replay_from cf s 0 = Inr (- 1, s)"
| "find_replay_from cf s (Suc k) =
     bind_r (finish_up_lead cf s (int k)) (\<lambda>s. bind_r (tb_state s (int k)) (\<lambda>st.
       if st_has_unexplored_leads st then Inr (int k, s)
       else bind_r (finish_up_state cf s (int k)) (\<lambda>s. find_replay_from cf s k)))"

definition find_replay_state_prefix :: "vconf \<Rightarrow> tbuilder \<Rightarrow> (int \<times> tbuilder) result" where
  "find_replay_state_prefix cf s = find_replay_from cf s (length (tb_states s))"

text \<open>\<open>Enabled\<close>, the summaries, \<open>covered_read_values\<close>, \<open>EW_leads\<close> and \<open>CPS\<close> are not reset; the log of branches
  is that of the base class. The report at the end of the exploration is \<open>report_redundant\<close>.\<close>

definition rewind :: "tbuilder \<Rightarrow> int \<Rightarrow> vstate \<Rightarrow> tbuilder result" where
  "rewind s k st =
     (let p = st_prefix st in
      if 0 \<le> p + 1 \<and> nat (p + 1) \<le> length (tb_exec s) \<and> nat (p + 1) \<le> length (tb_prefix_state s)
      then Inr (s\<lparr>tb_exec := take (nat (p + 1)) (tb_exec s), tb_prefix_state := take (nat (p + 1)) (tb_prefix_state s),
                  tb_states := take (nat (k + 1)) (tb_states s), tb_to_explore := [],
                  tb_threads := [th_make pid_init (- 1)], tb_mem := [], tb_last_write := [],
                  tb_forbidden := st_forbidden st, tb_prefix_idx := 0, tb_replay_point := p, tb_last_md := None\<rparr>)
      else Inl Out_of_range)"

definition reset :: "vconf \<Rightarrow> tbuilder \<Rightarrow> (bool \<times> tbuilder) result" where
  "reset cf s =
     bind_r (if tb_check_optimality s then record_redundant s else Inr s) (\<lambda>s.
     bind_r (find_replay_state_prefix cf s) (\<lambda>(k, s).
       if k < 0 then Inr (False, s\<lparr>tb_replay_point := - 1\<rparr>)
       else bind_r (tb_state s k) (\<lambda>st. bind_r (rewind s k st) (\<lambda>s. Inr (True, s)))))"

end
