(* ===== verification/ViewSkeleton.thy ===== *)
theory ViewSkeleton
  imports Prelude ViewOps
begin

text \<open>
  The bookkeeping of the builder as an abstract machine: which events have been executed at which
  states, which are enabled, how far the replay is, and of every thread the number of its events and
  its two flags. The leads, the values and the analyses are left out: an access may be any enabled
  event.
\<close>

section \<open>The machine\<close>

record skel_thread =
  kt_size :: nat
  kt_available :: bool
  kt_awaiting :: bool

record skel =
  sk_exec :: seq
  sk_ps :: "int list"
  sk_enabled :: seq
  sk_threads :: "skel_thread list"
  sk_idx :: int
  sk_rp :: int
  sk_cur :: nat
  sk_states :: "int list"

definition kt_new :: skel_thread where
  "kt_new = \<lparr>kt_size = 0, kt_available = True, kt_awaiting = False\<rparr>"

definition sk_init :: skel where
  "sk_init = \<lparr>sk_exec = [], sk_ps = [], sk_enabled = [], sk_threads = [kt_new], sk_idx = 0, sk_rp = - 1, sk_cur = 0,
              sk_states = []\<rparr>"

definition sk_thread :: "skel \<Rightarrow> nat \<Rightarrow> (skel_thread \<Rightarrow> skel_thread) \<Rightarrow> skel" where
  "sk_thread k p g = k\<lparr>sk_threads := (sk_threads k)[p := g (sk_threads k ! p)]\<rparr>"

definition sk_is_enabled :: "skel \<Rightarrow> nat \<Rightarrow> bool" where
  "sk_is_enabled k p = (\<exists>i\<in>set (sk_enabled k). iid_pid i = int p)"

text \<open>The steps; the running thread is \<open>sk_cur\<close>. Behind the replay point (\<open>sk_rp < sk_idx\<close>) events are
  appended, before it the recorded ones are repeated.\<close>

inductive sk_step :: "skel \<Rightarrow> skel \<Rightarrow> bool" where
  run: "sk_rp k < sk_idx k \<Longrightarrow> p < length (sk_threads k) \<Longrightarrow> kt_available (sk_threads k ! p) \<Longrightarrow>
    \<not> kt_awaiting (sk_threads k ! p) \<Longrightarrow> i = IID (int p) (kt_size (sk_threads k ! p)) \<Longrightarrow>
    k' = (sk_thread k p (\<lambda>t. t\<lparr>kt_size := Suc (kt_size t)\<rparr>))
            \<lparr>sk_exec := sk_exec k @ [i], sk_ps := sk_ps k @ [- 1], sk_idx := sk_idx k + 1, sk_cur := p\<rparr> \<Longrightarrow>
    sk_step k k'"
| new_access: "sk_rp k < sk_idx k \<Longrightarrow> i \<in> set (sk_enabled k) \<Longrightarrow> iid_pid i = int p \<Longrightarrow> p < length (sk_threads k) \<Longrightarrow>
    \<forall>q<length (sk_threads k). \<not> (kt_available (sk_threads k ! q) \<and> \<not> kt_awaiting (sk_threads k ! q)) \<Longrightarrow>
    k' = (sk_thread k p (\<lambda>t. t\<lparr>kt_awaiting := False\<rparr>))
            \<lparr>sk_exec := sk_exec k @ [i], sk_ps := sk_ps k @ [int (length (sk_states k))], sk_states := sk_states k @ [sk_idx k],
             sk_enabled := remove1 i (sk_enabled k), sk_idx := sk_idx k + 1, sk_cur := p\<rparr> \<Longrightarrow>
    sk_step k k'"
| replay_point: "sk_rp k = sk_idx k \<Longrightarrow> sk_ps k \<noteq> [] \<Longrightarrow> 0 \<le> sk_idx k \<Longrightarrow> nat (sk_idx k) < length (sk_ps k) \<Longrightarrow>
    i \<in> set (sk_enabled k) \<Longrightarrow> iid_pid i = int p \<Longrightarrow> p < length (sk_threads k) \<Longrightarrow>
    0 \<le> sk_ps k ! nat (sk_idx k) \<Longrightarrow>
    k' = (sk_thread k p (\<lambda>t. t\<lparr>kt_awaiting := False\<rparr>))
            \<lparr>sk_exec := butlast (sk_exec k) @ [i], sk_ps := butlast (sk_ps k) @ [sk_ps k ! nat (sk_idx k)],
             sk_enabled := remove1 i (sk_enabled k), sk_idx := sk_idx k + 1, sk_cur := p\<rparr> \<Longrightarrow>
    sk_step k k'"
| replay_run: "sk_idx k < sk_rp k \<Longrightarrow> 0 \<le> sk_idx k \<Longrightarrow> nat (sk_idx k) < length (sk_exec k) \<Longrightarrow>
    sk_exec k ! nat (sk_idx k) = IID (int p) (kt_size (sk_threads k ! p)) \<Longrightarrow> p < length (sk_threads k) \<Longrightarrow>
    kt_available (sk_threads k ! p) \<Longrightarrow> \<not> kt_awaiting (sk_threads k ! p) \<Longrightarrow>
    k' = (sk_thread k p (\<lambda>t. t\<lparr>kt_size := Suc (kt_size t)\<rparr>))\<lparr>sk_idx := sk_idx k + 1, sk_cur := p\<rparr> \<Longrightarrow>
    sk_step k k'"
| replay_access: "sk_idx k < sk_rp k \<Longrightarrow> 0 \<le> sk_idx k \<Longrightarrow> nat (sk_idx k) < length (sk_exec k) \<Longrightarrow>
    sk_exec k ! nat (sk_idx k) = i \<Longrightarrow> iid_pid i = int p \<Longrightarrow> p < length (sk_threads k) \<Longrightarrow> i \<in> set (sk_enabled k) \<Longrightarrow>
    k' = (sk_thread k p (\<lambda>t. t\<lparr>kt_awaiting := False\<rparr>))
            \<lparr>sk_enabled := remove1 i (sk_enabled k), sk_idx := sk_idx k + 1, sk_cur := p\<rparr> \<Longrightarrow>
    sk_step k k'"
| peek: "sk_cur k < length (sk_threads k) \<Longrightarrow> \<not> sk_is_enabled k (sk_cur k) \<Longrightarrow>
    i = IID (int (sk_cur k)) (kt_size (sk_threads k ! sk_cur k)) \<Longrightarrow>
    k' = (sk_thread k (sk_cur k) (\<lambda>t. t\<lparr>kt_size := Suc (kt_size t), kt_awaiting := True\<rparr>))\<lparr>sk_enabled := sk_enabled k @ [i]\<rparr> \<Longrightarrow>
    sk_step k k'"
| replace: "sk_cur k < length (sk_threads k) \<Longrightarrow> kt_size (sk_threads k ! sk_cur k) = Suc n \<Longrightarrow> sk_exec k \<noteq> [] \<Longrightarrow>
    k' = k\<lparr>sk_exec := butlast (sk_exec k) @ [IID (int (sk_cur k)) n], sk_threads := sk_threads k @ new\<rparr> \<Longrightarrow>
    new = [] \<or> new = [kt_new] \<Longrightarrow>
    sk_step k k'"
| refuse: "sk_rp k < sk_idx k - 1 \<Longrightarrow> sk_cur k < length (sk_threads k) \<Longrightarrow> \<not> sk_is_enabled k (sk_cur k) \<Longrightarrow>
    sk_ps k \<noteq> [] \<Longrightarrow> last (sk_ps k) < 0 \<Longrightarrow>
    k' = (sk_thread k (sk_cur k) (\<lambda>t. t\<lparr>kt_size := kt_size t - 1, kt_available := False\<rparr>))
            \<lparr>sk_exec := butlast (sk_exec k), sk_ps := butlast (sk_ps k), sk_idx := sk_idx k - 1\<rparr> \<Longrightarrow>
    sk_step k k'"
| mark: "p < length (sk_threads k) \<Longrightarrow> k' = sk_thread k p (\<lambda>t. t\<lparr>kt_available := b\<rparr>) \<Longrightarrow> sk_step k k'"
| rmw_write: "sk_cur k < length (sk_threads k) \<Longrightarrow> \<not> sk_is_enabled k (sk_cur k) \<Longrightarrow>
    sk_rp k < sk_idx k \<Longrightarrow> c < length (sk_states k) \<Longrightarrow> i = IID (int (sk_cur k)) (kt_size (sk_threads k ! sk_cur k)) \<Longrightarrow>
    k' = (sk_thread k (sk_cur k) (\<lambda>t. t\<lparr>kt_size := Suc (kt_size t)\<rparr>))
            \<lparr>sk_exec := sk_exec k @ [i], sk_ps := sk_ps k @ [int c], sk_idx := sk_idx k + 1\<rparr> \<Longrightarrow>
    sk_step k k'"
| replay_rmw_write: "sk_idx k < sk_rp k \<Longrightarrow> sk_cur k < length (sk_threads k) \<Longrightarrow> \<not> sk_is_enabled k (sk_cur k) \<Longrightarrow>
    k' = (sk_thread k (sk_cur k) (\<lambda>t. t\<lparr>kt_size := Suc (kt_size t)\<rparr>))\<lparr>sk_idx := sk_idx k + 1\<rparr> \<Longrightarrow>
    sk_step k k'"
| rewind: "sk_enabled k = [] \<Longrightarrow> c < length (sk_states k) \<Longrightarrow>
    k' = k\<lparr>sk_exec := take (nat (sk_states k ! c + 1)) (sk_exec k), sk_ps := take (nat (sk_states k ! c + 1)) (sk_ps k),
           sk_states := take (Suc c) (sk_states k), sk_threads := [kt_new], sk_idx := 0, sk_rp := sk_states k ! c\<rparr> \<Longrightarrow>
    sk_step k k'"
| stay: "sk_step k k"

inductive sk_reach :: "skel \<Rightarrow> bool" where
  init: "sk_reach sk_init"
| step: "sk_reach k \<Longrightarrow> sk_step k k' \<Longrightarrow> sk_reach k'"

section \<open>Its invariant\<close>

text \<open>Every enabled event is the last one of a waiting thread, one per thread, and every waiting thread has one.\<close>

definition enabled_ok :: "skel \<Rightarrow> bool" where
  "enabled_ok k =
     ((\<forall>i\<in>set (sk_enabled k). \<exists>p. iid_pid i = int p \<and> p < length (sk_threads k) \<and>
         kt_awaiting (sk_threads k ! p) \<and> kt_size (sk_threads k ! p) = Suc (iid_idx i)) \<and>
      distinct (map iid_pid (sk_enabled k)) \<and>
      (\<forall>p<length (sk_threads k). kt_awaiting (sk_threads k ! p) \<longrightarrow> sk_is_enabled k p))"

text \<open>Before the replay point the recorded prefix ends there; behind it the index is that of the next event.\<close>

definition replay_ok :: "skel \<Rightarrow> bool" where
  "replay_ok k =
     (length (sk_exec k) = length (sk_ps k) \<and> 0 \<le> sk_idx k \<and>
      (if sk_idx k \<le> sk_rp k then int (length (sk_exec k)) = sk_rp k + 1 else sk_idx k = int (length (sk_exec k))))"

text \<open>State number \<open>c\<close> was made for the event at its \<open>sequence_prefix\<close>, and the events before belong to
  smaller states or to none.\<close>

definition states_ok :: "skel \<Rightarrow> bool" where
  "states_ok k =
     ((\<forall>x\<in>set (sk_ps k). - 1 \<le> x \<and> x < int (length (sk_states k))) \<and>
      (\<forall>c<length (sk_states k). 0 \<le> sk_states k ! c \<and> nat (sk_states k ! c) < length (sk_ps k) \<and>
         sk_ps k ! nat (sk_states k ! c) = int c \<and> (\<forall>j<nat (sk_states k ! c). sk_ps k ! j < int c)))"

definition sk_ok :: "skel \<Rightarrow> bool" where
  "sk_ok k = (enabled_ok k \<and> replay_ok k \<and> states_ok k)"

lemma enabled_ok_fields [simp]:
  "enabled_ok (k\<lparr>sk_exec := x1\<rparr>) = enabled_ok k" "enabled_ok (k\<lparr>sk_ps := x2\<rparr>) = enabled_ok k"
  "enabled_ok (k\<lparr>sk_idx := x3\<rparr>) = enabled_ok k" "enabled_ok (k\<lparr>sk_rp := x3\<rparr>) = enabled_ok k"
  "enabled_ok (k\<lparr>sk_cur := x4\<rparr>) = enabled_ok k" "enabled_ok (k\<lparr>sk_states := x2\<rparr>) = enabled_ok k"
  by (simp_all add: enabled_ok_def sk_is_enabled_def)

lemma sk_thread_fields [simp]:
  "sk_exec (sk_thread k p g) = sk_exec k" "sk_ps (sk_thread k p g) = sk_ps k" "sk_enabled (sk_thread k p g) = sk_enabled k"
  "sk_idx (sk_thread k p g) = sk_idx k" "sk_rp (sk_thread k p g) = sk_rp k" "sk_states (sk_thread k p g) = sk_states k"
  "length (sk_threads (sk_thread k p g)) = length (sk_threads k)" "sk_cur (sk_thread k p g) = sk_cur k"
  by (simp_all add: sk_thread_def)

lemma nth_sk_thread:
  "q < length (sk_threads k) \<Longrightarrow>
   sk_threads (sk_thread k p g) ! q = (if q = p then g (sk_threads k ! p) else sk_threads k ! q)"
  by (cases "p < length (sk_threads k)") (auto simp: sk_thread_def)

lemma enabled_ok_D:
  assumes "enabled_ok k" "i \<in> set (sk_enabled k)"
  obtains p where "iid_pid i = int p" "p < length (sk_threads k)" "kt_awaiting (sk_threads k ! p)"
    "kt_size (sk_threads k ! p) = Suc (iid_idx i)"
  using assms unfolding enabled_ok_def by blast

text \<open>A change of a thread that keeps what enabled events need.\<close>

lemma enabled_ok_thread:
  assumes ok: "enabled_ok k" and g: "\<And>t. kt_awaiting (g t) = kt_awaiting t"
    and p: "\<not> sk_is_enabled k p \<or> (\<forall>t. kt_size (g t) = kt_size t)"
  shows "enabled_ok (sk_thread k p g)"
  unfolding enabled_ok_def
proof (intro conjI ballI allI impI)
  fix i assume i: "i \<in> set (sk_enabled (sk_thread k p g))"
  then obtain q where q: "iid_pid i = int q" "q < length (sk_threads k)" "kt_awaiting (sk_threads k ! q)"
    "kt_size (sk_threads k ! q) = Suc (iid_idx i)" using enabled_ok_D [OF ok] by auto
  have "q = p \<longrightarrow> (\<forall>t. kt_size (g t) = kt_size t)" using p i q(1) unfolding sk_is_enabled_def by auto
  hence "kt_awaiting (sk_threads (sk_thread k p g) ! q)" "kt_size (sk_threads (sk_thread k p g) ! q) = Suc (iid_idx i)"
    using q g by (auto simp: nth_sk_thread)
  thus "\<exists>q. iid_pid i = int q \<and> q < length (sk_threads (sk_thread k p g)) \<and> kt_awaiting (sk_threads (sk_thread k p g) ! q) \<and>
      kt_size (sk_threads (sk_thread k p g) ! q) = Suc (iid_idx i)" using q by auto
next
  show "distinct (map iid_pid (sk_enabled (sk_thread k p g)))" using ok by (simp add: enabled_ok_def)
next
  fix q assume "q < length (sk_threads (sk_thread k p g))" "kt_awaiting (sk_threads (sk_thread k p g) ! q)"
  hence "q < length (sk_threads k)" "kt_awaiting (sk_threads k ! q)" using g by (auto simp: nth_sk_thread split: if_splits)
  thus "sk_is_enabled (sk_thread k p g) q" using ok by (auto simp: enabled_ok_def sk_is_enabled_def)
qed

lemma distinct_map_remove1: "distinct (map f xs) \<Longrightarrow> distinct (map f (remove1 x xs))"
  by (induction xs) (auto dest: notin_set_remove1 set_remove1_subset [THEN subsetD])

text \<open>The execution of an enabled event.\<close>

lemma enabled_ok_access:
  assumes ok: "enabled_ok k" and i: "i \<in> set (sk_enabled k)" "iid_pid i = int p"
  shows "enabled_ok ((sk_thread k p (\<lambda>t. t\<lparr>kt_awaiting := False\<rparr>))\<lparr>sk_enabled := remove1 i (sk_enabled k)\<rparr>)"
    (is "enabled_ok ?k")
proof -
  have d: "distinct (map iid_pid (sk_enabled k))" using ok by (simp add: enabled_ok_def)
  have rest: "set (remove1 i (sk_enabled k)) = set (sk_enabled k) - {i}" using d by (simp add: distinct_map)
  have other: "iid_pid j \<noteq> int p" if "j \<in> set (remove1 i (sk_enabled k))" for j
    using that d i rest by (metis DiffE distinct_map inj_onD singletonI)
  have th: "sk_threads ?k ! q = (if q = p then (sk_threads k ! p)\<lparr>kt_awaiting := False\<rparr> else sk_threads k ! q)"
    if "q < length (sk_threads k)" for q
    using nth_sk_thread [OF that, of p "\<lambda>t. t\<lparr>kt_awaiting := False\<rparr>"] by simp
  show ?thesis
    unfolding enabled_ok_def
  proof (intro conjI ballI allI impI)
    fix j assume j: "j \<in> set (sk_enabled ?k)"
    hence "j \<in> set (sk_enabled k)" "iid_pid j \<noteq> int p" using rest other by auto
    then obtain q where q: "iid_pid j = int q" "q < length (sk_threads k)" "kt_awaiting (sk_threads k ! q)"
      "kt_size (sk_threads k ! q) = Suc (iid_idx j)" "q \<noteq> p" using enabled_ok_D [OF ok] by metis
    thus "\<exists>q. iid_pid j = int q \<and> q < length (sk_threads ?k) \<and> kt_awaiting (sk_threads ?k ! q) \<and>
        kt_size (sk_threads ?k ! q) = Suc (iid_idx j)" using th by auto
  next
    show "distinct (map iid_pid (sk_enabled ?k))" using distinct_map_remove1 [OF d] by simp
  next
    fix q assume q: "q < length (sk_threads ?k)" "kt_awaiting (sk_threads ?k ! q)"
    hence "q < length (sk_threads k)" "q \<noteq> p" "kt_awaiting (sk_threads k ! q)" using th by (auto split: if_splits)
    then obtain j where j: "j \<in> set (sk_enabled k)" "iid_pid j = int q" "q \<noteq> p"
      using ok by (auto simp: enabled_ok_def sk_is_enabled_def)
    hence "j \<noteq> i" using i(2) by auto
    thus "sk_is_enabled ?k q" using j rest by (auto simp: sk_is_enabled_def)
  qed
qed

lemma enabled_ok_peek:
  assumes ok: "enabled_ok k" and p: "p < length (sk_threads k)" "\<not> sk_is_enabled k p"
    and i: "i = IID (int p) (kt_size (sk_threads k ! p))"
  shows "enabled_ok ((sk_thread k p (\<lambda>t. t\<lparr>kt_size := Suc (kt_size t), kt_awaiting := True\<rparr>))\<lparr>sk_enabled := sk_enabled k @ [i]\<rparr>)"
    (is "enabled_ok ?k")
proof -
  let ?g = "\<lambda>t :: skel_thread. t\<lparr>kt_size := Suc (kt_size t), kt_awaiting := True\<rparr>"
  have th: "sk_threads ?k ! q = (if q = p then ?g (sk_threads k ! p) else sk_threads k ! q)"
    if "q < length (sk_threads k)" for q
    using nth_sk_thread [OF that, of p ?g] by simp
  have pids: "\<forall>j\<in>set (sk_enabled k). iid_pid j \<noteq> int p" using p(2) by (auto simp: sk_is_enabled_def)
  show ?thesis
    unfolding enabled_ok_def
  proof (intro conjI ballI allI impI)
    fix j assume "j \<in> set (sk_enabled ?k)"
    then consider "j = i" | "j \<in> set (sk_enabled k)" by auto
    thus "\<exists>q. iid_pid j = int q \<and> q < length (sk_threads ?k) \<and> kt_awaiting (sk_threads ?k ! q) \<and>
        kt_size (sk_threads ?k ! q) = Suc (iid_idx j)"
    proof cases
      case 1
      thus ?thesis using p(1) i th [OF p(1)] by (intro exI [of _ p]) simp
    next
      case 2
      obtain q where q: "iid_pid j = int q" "q < length (sk_threads k)" "kt_awaiting (sk_threads k ! q)"
        "kt_size (sk_threads k ! q) = Suc (iid_idx j)" using enabled_ok_D [OF ok 2] .
      thus ?thesis using th [OF q(2)] pids 2 by (intro exI [of _ q]) auto
    qed
  next
    show "distinct (map iid_pid (sk_enabled ?k))" using ok i pids by (auto simp: enabled_ok_def)
  next
    fix q assume q: "q < length (sk_threads ?k)" "kt_awaiting (sk_threads ?k ! q)"
    show "sk_is_enabled ?k q"
    proof (cases "q = p")
      case True
      thus ?thesis using i by (auto simp: sk_is_enabled_def)
    next
      case False
      thus ?thesis using q th ok by (auto simp: enabled_ok_def sk_is_enabled_def)
    qed
  qed
qed

lemma enabled_ok_new_thread:
  assumes "enabled_ok k" "new = [] \<or> new = [kt_new]"
  shows "enabled_ok (k\<lparr>sk_threads := sk_threads k @ new\<rparr>)"
proof -
  have n: "\<not> kt_awaiting ((sk_threads k @ new) ! p)" if "length (sk_threads k) \<le> p" "p < length (sk_threads k @ new)" for p
    using that assms(2) by (auto simp: nth_append kt_new_def)
  have "\<exists>p. iid_pid i = int p \<and> p < length (sk_threads k @ new) \<and> kt_awaiting ((sk_threads k @ new) ! p) \<and>
      kt_size ((sk_threads k @ new) ! p) = Suc (iid_idx i)" if i: "i \<in> set (sk_enabled k)" for i
  proof -
    obtain q where "iid_pid i = int q" "q < length (sk_threads k)" "kt_awaiting (sk_threads k ! q)"
      "kt_size (sk_threads k ! q) = Suc (iid_idx i)" using enabled_ok_D [OF assms(1) i] .
    thus ?thesis by (intro exI [of _ q]) (simp add: nth_append)
  qed
  moreover have "sk_is_enabled k p" if "p < length (sk_threads k @ new)" "kt_awaiting ((sk_threads k @ new) ! p)" for p
  proof -
    have "p < length (sk_threads k)" using n [of p] that by linarith
    thus ?thesis using that(2) assms(1) by (simp add: enabled_ok_def nth_append)
  qed
  ultimately show ?thesis using assms(1) by (simp add: enabled_ok_def sk_is_enabled_def)
qed

lemma states_okD:
  assumes "states_ok k"
  shows "x \<in> set (sk_ps k) \<Longrightarrow> - 1 \<le> x \<and> x < int (length (sk_states k))"
    "c < length (sk_states k) \<Longrightarrow> 0 \<le> sk_states k ! c \<and> nat (sk_states k ! c) < length (sk_ps k) \<and>
       sk_ps k ! nat (sk_states k ! c) = int c"
    "c < length (sk_states k) \<Longrightarrow> j < nat (sk_states k ! c) \<Longrightarrow> sk_ps k ! j < int c"
  using assms by (simp_all add: states_ok_def)

lemma enabled_ok_same:
  "enabled_ok k \<Longrightarrow> sk_enabled k' = sk_enabled k \<Longrightarrow> sk_threads k' = sk_threads k \<Longrightarrow> enabled_ok k'"
  by (simp add: enabled_ok_def sk_is_enabled_def)

lemma replay_ok_same:
  "replay_ok k \<Longrightarrow> length (sk_exec k') = length (sk_exec k) \<Longrightarrow> sk_ps k' = sk_ps k \<Longrightarrow> sk_idx k' = sk_idx k \<Longrightarrow>
   sk_rp k' = sk_rp k \<Longrightarrow> replay_ok k'"
  by (simp add: replay_ok_def split: if_splits)

lemma states_ok_append:
  assumes "states_ok k" "- 1 \<le> x" "x < int (length (sk_states k))"
    "sk_ps k' = sk_ps k @ [x]" "sk_states k' = sk_states k"
  shows "states_ok k'"
  using assms unfolding states_ok_def by (auto simp: nth_append)

lemma states_ok_new:
  assumes ok: "states_ok k" and n: "n = int (length (sk_ps k))"
    and k': "sk_ps k' = sk_ps k @ [int (length (sk_states k))]" "sk_states k' = sk_states k @ [n]"
  shows "states_ok k'"
proof -
  note D = states_okD [OF ok]
  have entries: "- 1 \<le> x \<and> x < int (length (sk_states k'))" if "x \<in> set (sk_ps k')" for x
    using that D(1) [of x] k' by auto
  have state: "0 \<le> sk_states k' ! c \<and> nat (sk_states k' ! c) < length (sk_ps k') \<and>
      sk_ps k' ! nat (sk_states k' ! c) = int c \<and> (\<forall>j<nat (sk_states k' ! c). sk_ps k' ! j < int c)"
    if c: "c < length (sk_states k')" for c
  proof (cases "c < length (sk_states k)")
    case True
    hence s: "sk_states k' ! c = sk_states k ! c" using k' by (simp add: nth_append)
    moreover have "sk_ps k' ! j = sk_ps k ! j" if "j < length (sk_ps k)" for j using that k' by (simp add: nth_append)
    ultimately show ?thesis using D(2,3) [OF True] k'(1) by auto
  next
    case False
    hence c: "c = length (sk_states k)" "sk_states k' ! c = n" using c k' by (auto simp: nth_append)
    have "sk_ps k' ! j < int c" if "j < length (sk_ps k)" for j
      using that D(1) [of "sk_ps k ! j"] c k' by (simp add: nth_append)
    thus ?thesis using c n k' by simp
  qed
  show ?thesis using entries state by (simp add: states_ok_def)
qed

lemma states_ok_refuse:
  assumes ok: "states_ok k" and l: "sk_ps k \<noteq> []" "last (sk_ps k) < 0"
    and k': "sk_ps k' = butlast (sk_ps k)" "sk_states k' = sk_states k"
  shows "states_ok k'"
  unfolding states_ok_def
proof (intro conjI ballI allI impI)
  fix x assume "x \<in> set (sk_ps k')"
  thus "- 1 \<le> x" "x < int (length (sk_states k'))"
    using ok k' by (auto simp: states_ok_def dest: in_set_butlastD)
next
  fix c assume "c < length (sk_states k')"
  hence c: "0 \<le> sk_states k ! c" "nat (sk_states k ! c) < length (sk_ps k)" "sk_ps k ! nat (sk_states k ! c) = int c"
    "\<forall>j<nat (sk_states k ! c). sk_ps k ! j < int c"
    using ok k' by (simp_all add: states_ok_def)
  have "nat (sk_states k ! c) \<noteq> length (sk_ps k) - 1"
    using c(3) l by (auto simp: last_conv_nth)
  hence b: "nat (sk_states k ! c) < length (sk_ps k) - 1" using c(2) by linarith
  show "0 \<le> sk_states k' ! c" using c(1) k' by simp
  show "nat (sk_states k' ! c) < length (sk_ps k')" using b k' by simp
  show "sk_ps k' ! nat (sk_states k' ! c) = int c" using b c(3) k' by (simp add: nth_butlast)
  fix j assume "j < nat (sk_states k' ! c)"
  thus "sk_ps k' ! j < int c" using b c(4) k' by (simp add: nth_butlast)
qed

lemma states_ok_rewind:
  assumes ok: "states_ok k" and c: "c < length (sk_states k)"
    and k': "sk_ps k' = take (nat (sk_states k ! c + 1)) (sk_ps k)" "sk_states k' = take (Suc c) (sk_states k)"
  shows "states_ok k'"
proof -
  let ?n = "nat (sk_states k ! c)"
  have n: "nat (sk_states k ! c + 1) = Suc ?n" "?n < length (sk_ps k)" "sk_ps k ! ?n = int c"
    "\<forall>j<?n. sk_ps k ! j < int c"
    using ok c by (auto simp: states_ok_def)
  have le: "nat (sk_states k ! d) \<le> ?n" if "d \<le> c" for d
  proof (rule ccontr)
    assume "\<not> nat (sk_states k ! d) \<le> ?n"
    hence "?n < nat (sk_states k ! d)" by (rule not_le_imp_less)
    moreover have "d < length (sk_states k)" using that c by simp
    ultimately have "sk_ps k ! ?n < int d" by (intro states_okD(3) [OF ok])
    thus False using n(3) that by simp
  qed
  show ?thesis
    unfolding states_ok_def
  proof (intro conjI ballI allI impI)
    fix x assume "x \<in> set (sk_ps k')"
    then obtain j where j: "j < Suc ?n" "x = sk_ps k ! j" using k' n(1,2) by (auto simp: in_set_conv_nth)
    hence "x \<in> set (sk_ps k)" using n(2) by simp
    thus "- 1 \<le> x" using ok by (simp add: states_ok_def)
    show "x < int (length (sk_states k'))" using j n(3,4) c k' by (auto simp: less_Suc_eq)
  next
    fix d assume "d < length (sk_states k')"
    hence d: "d \<le> c" "d < length (sk_states k)" "sk_states k' ! d = sk_states k ! d" using c k' by auto
    hence o: "0 \<le> sk_states k ! d" "sk_ps k ! nat (sk_states k ! d) = int d" "\<forall>j<nat (sk_states k ! d). sk_ps k ! j < int d"
      using ok by (auto simp: states_ok_def)
    have b: "nat (sk_states k ! d) < Suc ?n" using le [OF d(1)] by simp
    show "0 \<le> sk_states k' ! d" using o(1) d(3) by simp
    show "nat (sk_states k' ! d) < length (sk_ps k')" using b d(3) k' n(1,2) by simp
    show "sk_ps k' ! nat (sk_states k' ! d) = int d" using b d(3) k' n(1) o(2) by simp
    fix j assume "j < nat (sk_states k' ! d)"
    thus "sk_ps k' ! j < int d" using b d(3) k' n(1) o(3) by simp
  qed
qed

lemma states_ok_same: "states_ok k \<Longrightarrow> sk_ps k' = sk_ps k \<Longrightarrow> sk_states k' = sk_states k \<Longrightarrow> states_ok k'"
  by (simp add: states_ok_def)

lemma sk_ok_init: "sk_ok sk_init"
  by (simp add: sk_ok_def enabled_ok_def replay_ok_def states_ok_def sk_init_def sk_is_enabled_def kt_new_def)

lemma butlast_snoc_nth: "xs \<noteq> [] \<Longrightarrow> n = length xs - 1 \<Longrightarrow> butlast xs @ [xs ! n] = xs"
  by (metis append_butlast_last_id last_conv_nth)

lemma sk_ok_step:
  assumes "sk_step k k'" "sk_ok k"
  shows "sk_ok k'"
  using assms
proof (induction rule: sk_step.induct)
  case (run k p i k')
  hence "\<not> sk_is_enabled k p" using enabled_ok_D [of k] unfolding sk_ok_def sk_is_enabled_def by (metis of_nat_eq_iff)
  hence "enabled_ok k'" using run enabled_ok_thread [of k "\<lambda>t. t\<lparr>kt_size := Suc (kt_size t)\<rparr>" p] by (simp add: sk_ok_def)
  moreover have "states_ok k'" by (rule states_ok_append [of k "- 1"]) (use run in \<open>auto simp: sk_ok_def\<close>)
  moreover have "replay_ok k'" using run by (simp add: sk_ok_def replay_ok_def)
  ultimately show ?case by (simp add: sk_ok_def)
next
  case (new_access k i p k')
  have "enabled_ok k'"
    by (rule enabled_ok_same [OF enabled_ok_access [of k i p]]) (use new_access in \<open>simp_all add: sk_ok_def\<close>)
  moreover have "states_ok k'"
    by (rule states_ok_new [of k "sk_idx k"]) (use new_access in \<open>auto simp: sk_ok_def replay_ok_def\<close>)
  moreover have "replay_ok k'" using new_access by (simp add: sk_ok_def replay_ok_def)
  ultimately show ?case by (simp add: sk_ok_def)
next
  case (replay_point k i p k')
  hence len: "int (length (sk_exec k)) = sk_idx k + 1" "length (sk_exec k) = length (sk_ps k)"
    by (simp_all add: sk_ok_def replay_ok_def)
  hence ps: "sk_ps k' = sk_ps k" using replay_point butlast_snoc_nth [of "sk_ps k" "nat (sk_idx k)"] by simp
  have "enabled_ok k'"
    by (rule enabled_ok_same [OF enabled_ok_access [of k i p]]) (use replay_point in \<open>simp_all add: sk_ok_def\<close>)
  moreover have "states_ok k'" by (rule states_ok_same [of k]) (use replay_point ps in \<open>simp_all add: sk_ok_def\<close>)
  moreover have "replay_ok k'"
  proof -
    have "length (sk_exec k') = length (sk_ps k')" "sk_rp k' < sk_idx k'" "sk_idx k' = int (length (sk_exec k'))" "0 \<le> sk_idx k'"
      using replay_point len ps by auto
    thus ?thesis by (simp add: replay_ok_def)
  qed
  ultimately show ?case by (simp add: sk_ok_def)
next
  case (replay_run k p k')
  hence "\<not> sk_is_enabled k p" using enabled_ok_D [of k] unfolding sk_ok_def sk_is_enabled_def by (metis of_nat_eq_iff)
  hence "enabled_ok k'" using replay_run enabled_ok_thread [of k "\<lambda>t. t\<lparr>kt_size := Suc (kt_size t)\<rparr>" p] by (simp add: sk_ok_def)
  moreover have "states_ok k'" by (rule states_ok_same [of k]) (use replay_run in \<open>simp_all add: sk_ok_def\<close>)
  moreover have "replay_ok k'" using replay_run by (simp add: sk_ok_def replay_ok_def)
  ultimately show ?case by (simp add: sk_ok_def)
next
  case (replay_access k i p k')
  have "enabled_ok k'" using replay_access enabled_ok_access [of k i p] by (simp add: sk_ok_def)
  moreover have "states_ok k'" by (rule states_ok_same [of k]) (use replay_access in \<open>simp_all add: sk_ok_def\<close>)
  moreover have "replay_ok k'" using replay_access by (simp add: sk_ok_def replay_ok_def)
  ultimately show ?case by (simp add: sk_ok_def)
next
  case (peek k i k')
  have "enabled_ok k'" using peek enabled_ok_peek [of k "sk_cur k" i] by (simp add: sk_ok_def)
  moreover have "states_ok k'" by (rule states_ok_same [of k]) (use peek in \<open>simp_all add: sk_ok_def\<close>)
  moreover have "replay_ok k'" by (rule replay_ok_same [of k]) (use peek in \<open>simp_all add: sk_ok_def\<close>)
  ultimately show ?case by (simp add: sk_ok_def)
next
  case (replace k n k' new)
  have "enabled_ok k'"
    by (rule enabled_ok_same [OF enabled_ok_new_thread [of k new]]) (use replace in \<open>simp_all add: sk_ok_def\<close>)
  moreover have "states_ok k'" by (rule states_ok_same [of k]) (use replace in \<open>simp_all add: sk_ok_def\<close>)
  moreover have "length (sk_exec k') = length (sk_exec k)" using replace by (cases "sk_exec k" rule: rev_cases) auto
  hence "replay_ok k'" by (rule replay_ok_same [of k, rotated]) (use replace in \<open>simp_all add: sk_ok_def\<close>)
  ultimately show ?case by (simp add: sk_ok_def)
next
  case (refuse k k')
  hence "enabled_ok k'"
    using enabled_ok_thread [of k "\<lambda>t. t\<lparr>kt_size := kt_size t - 1, kt_available := False\<rparr>" "sk_cur k"] by (simp add: sk_ok_def)
  moreover have "states_ok k'" by (rule states_ok_refuse [of k]) (use refuse in \<open>simp_all add: sk_ok_def\<close>)
  moreover have "replay_ok k'" using refuse by (cases "sk_ps k" rule: rev_cases) (auto simp: sk_ok_def replay_ok_def)
  ultimately show ?case by (simp add: sk_ok_def)
next
  case (mark p k k' b)
  hence "enabled_ok k'" using enabled_ok_thread [of k "\<lambda>t. t\<lparr>kt_available := b\<rparr>" p] by (simp add: sk_ok_def)
  moreover have "states_ok k'" by (rule states_ok_same [of k]) (use mark in \<open>simp_all add: sk_ok_def\<close>)
  moreover have "replay_ok k'" by (rule replay_ok_same [of k]) (use mark in \<open>simp_all add: sk_ok_def\<close>)
  ultimately show ?case by (simp add: sk_ok_def)
next
  case (rmw_write k c i k')
  hence "enabled_ok k'" using enabled_ok_thread [of k "\<lambda>t. t\<lparr>kt_size := Suc (kt_size t)\<rparr>" "sk_cur k"] by (simp add: sk_ok_def)
  moreover have "states_ok k'" by (rule states_ok_append [of k "int c"]) (use rmw_write in \<open>auto simp: sk_ok_def\<close>)
  moreover have "replay_ok k'" using rmw_write by (simp add: sk_ok_def replay_ok_def)
  ultimately show ?case by (simp add: sk_ok_def)
next
  case (replay_rmw_write k k')
  hence "enabled_ok k'" using enabled_ok_thread [of k "\<lambda>t. t\<lparr>kt_size := Suc (kt_size t)\<rparr>" "sk_cur k"] by (simp add: sk_ok_def)
  moreover have "states_ok k'" by (rule states_ok_same [of k]) (use replay_rmw_write in \<open>simp_all add: sk_ok_def\<close>)
  moreover have "replay_ok k'" using replay_rmw_write by (simp add: sk_ok_def replay_ok_def)
  ultimately show ?case by (simp add: sk_ok_def)
next
  case (rewind k c k')
  have "enabled_ok k'" using rewind by (simp add: enabled_ok_def kt_new_def)
  moreover have "states_ok k'" by (rule states_ok_rewind [of k c]) (use rewind in \<open>simp_all add: sk_ok_def\<close>)
  moreover have "0 \<le> sk_states k ! c" "nat (sk_states k ! c) < length (sk_ps k)"
    using rewind by (simp_all add: sk_ok_def states_ok_def)
  hence "replay_ok k'" using rewind by (auto simp: sk_ok_def replay_ok_def)
  ultimately show ?case by (simp add: sk_ok_def)
qed simp

lemma sk_reach_ok: "sk_reach k \<Longrightarrow> sk_ok k"
  by (induction rule: sk_reach.induct) (blast intro: sk_ok_init sk_ok_step)+

end
