(* ===== verification/ViewRefine.thy ===== *)
theory ViewRefine
  imports Prelude ViewSkeleton
begin

text \<open>
  The builder refines the abstract machine of its bookkeeping: every call that succeeds with all
  assertions holding is a step of the machine. With the machine's invariant this gives what the
  assertions of the code rely on, in every state the exploration reaches.
\<close>

section \<open>The abstraction\<close>

definition kt_of :: "vthread \<Rightarrow> skel_thread" where
  "kt_of t = \<lparr>kt_size = th_size t, kt_available = th_available t, kt_awaiting = th_awaiting t\<rparr>"

definition skel_of :: "tbuilder \<Rightarrow> skel" where
  "skel_of s =
     \<lparr>sk_exec = tb_exec s, sk_ps = tb_prefix_state s, sk_enabled = tb_enabled s, sk_threads = map kt_of (tb_threads s),
      sk_idx = tb_prefix_idx s, sk_rp = tb_replay_point s, sk_cur = nat (tb_current_thread s),
      sk_states = map st_prefix (tb_states s)\<rparr>"

lemma kt_of_simps [simp]:
  "kt_size (kt_of t) = th_size t" "kt_available (kt_of t) = th_available t" "kt_awaiting (kt_of t) = th_awaiting t"
  "kt_of (t\<lparr>th_available := b\<rparr>) = (kt_of t)\<lparr>kt_available := b\<rparr>"
  "kt_of (t\<lparr>th_awaiting := b\<rparr>) = (kt_of t)\<lparr>kt_awaiting := b\<rparr>"
  "kt_of (t\<lparr>th_events := es\<rparr>) = (kt_of t)\<lparr>kt_size := length es\<rparr>"
  "kt_of (th_push_back t e) = (kt_of t)\<lparr>kt_size := Suc (kt_size (kt_of t))\<rparr>"
  "kt_of (th_make c n) = kt_new"
  by (simp_all add: kt_of_def th_size_def th_push_back_def th_make_def kt_new_def)

lemma skel_of_simps [simp]:
  "sk_exec (skel_of s) = tb_exec s" "sk_ps (skel_of s) = tb_prefix_state s" "sk_enabled (skel_of s) = tb_enabled s"
  "sk_threads (skel_of s) = map kt_of (tb_threads s)" "sk_idx (skel_of s) = tb_prefix_idx s"
  "sk_rp (skel_of s) = tb_replay_point s" "sk_cur (skel_of s) = nat (tb_current_thread s)"
  "sk_states (skel_of s) = map st_prefix (tb_states s)"
  by (simp_all add: skel_of_def)

lemma skel_of_update [simp]:
  "skel_of (s\<lparr>tb_exec := a\<rparr>) = (skel_of s)\<lparr>sk_exec := a\<rparr>"
  "skel_of (s\<lparr>tb_prefix_state := b\<rparr>) = (skel_of s)\<lparr>sk_ps := b\<rparr>"
  "skel_of (s\<lparr>tb_enabled := a\<rparr>) = (skel_of s)\<lparr>sk_enabled := a\<rparr>"
  "skel_of (s\<lparr>tb_threads := ts\<rparr>) = (skel_of s)\<lparr>sk_threads := map kt_of ts\<rparr>"
  "skel_of (s\<lparr>tb_prefix_idx := i\<rparr>) = (skel_of s)\<lparr>sk_idx := i\<rparr>"
  "skel_of (s\<lparr>tb_replay_point := i\<rparr>) = (skel_of s)\<lparr>sk_rp := i\<rparr>"
  "skel_of (s\<lparr>tb_current_thread := i\<rparr>) = (skel_of s)\<lparr>sk_cur := nat i\<rparr>"
  "skel_of (s\<lparr>tb_states := sts\<rparr>) = (skel_of s)\<lparr>sk_states := map st_prefix sts\<rparr>"
  by (simp_all add: skel_of_def)

lemma skel_of_other [simp]:
  "skel_of (s\<lparr>tb_explored := x1\<rparr>) = skel_of s" "skel_of (s\<lparr>tb_redundant := x2\<rparr>) = skel_of s"
  "skel_of (s\<lparr>tb_last_md := x3\<rparr>) = skel_of s" "skel_of (s\<lparr>tb_current_event := x4\<rparr>) = skel_of s"
  "skel_of (s\<lparr>tb_current_state := x5\<rparr>) = skel_of s" "skel_of (s\<lparr>tb_alpha_head := x5\<rparr>) = skel_of s"
  "skel_of (s\<lparr>tb_covered := x6\<rparr>) = skel_of s" "skel_of (s\<lparr>tb_EW_leads := x7\<rparr>) = skel_of s"
  "skel_of (s\<lparr>tb_spawn_summary := x8\<rparr>) = skel_of s" "skel_of (s\<lparr>tb_join_summary := x8\<rparr>) = skel_of s"
  "skel_of (s\<lparr>tb_mem := x9\<rparr>) = skel_of s" "skel_of (s\<lparr>tb_last_write := x10\<rparr>) = skel_of s"
  "skel_of (s\<lparr>tb_to_explore := x11\<rparr>) = skel_of s" "skel_of (s\<lparr>tb_forbidden := x12\<rparr>) = skel_of s"
  "skel_of (s\<lparr>tb_rmw := x13\<rparr>) = skel_of s" "skel_of (s\<lparr>tb_expected := x5\<rparr>) = skel_of s"
  "skel_of (s\<lparr>tb_CPS := x14\<rparr>) = skel_of s" "skel_of (mem_write s e) = skel_of s"
  by (simp_all add: skel_of_def mem_write_def)

text \<open>Every event carries the identifier of its place.\<close>

definition numbered :: "tbuilder \<Rightarrow> bool" where
  "numbered s =
     (\<forall>p<length (tb_threads s). \<forall>k<length (th_events (tb_threads s ! p)). ev_iid (th_events (tb_threads s ! p) ! k) = IID (int p) k)"

lemma numbered_threads: "tb_threads s' = tb_threads s \<Longrightarrow> numbered s' = numbered s"
  by (simp add: numbered_def)

section \<open>The primitives\<close>

lemma nth_r_Inr [simp]: "nth_r xs i = Inr x \<longleftrightarrow> 0 \<le> i \<and> nat i < length xs \<and> xs ! nat i = x"
  by (auto simp: nth_r_def)

lemma upd_r_Inr [simp]: "upd_r xs i f = Inr ys \<longleftrightarrow> 0 \<le> i \<and> nat i < length xs \<and> ys = xs[nat i := f (xs ! nat i)]"
  by (auto simp: upd_r_def)

lemma bind_r_Inr_iff: "bind_r m f = Inr y \<longleftrightarrow> (\<exists>x. m = Inr x \<and> f x = Inr y)"
  by (rule bind_r_eq_Inr)

lemma tb_set_thread_Inr:
  "tb_set_thread s p g = Inr s' \<longleftrightarrow> 0 \<le> p \<and> nat p < length (tb_threads s) \<and>
     s' = s\<lparr>tb_threads := (tb_threads s)[nat p := g (tb_threads s ! nat p)]\<rparr>"
  by (auto simp: tb_set_thread_def bind_r_Inr_iff)

lemma tb_push_event_Inr:
  "tb_push_event s p e = Inr s' \<longleftrightarrow> 0 \<le> p \<and> nat p < length (tb_threads s) \<and>
     s' = s\<lparr>tb_threads := (tb_threads s)[nat p := th_push_back (tb_threads s ! nat p) e]\<rparr>"
  by (simp add: tb_push_event_def tb_set_thread_Inr)

lemma tb_set_event_Inr:
  "tb_set_event s p i g = Inr s' \<longleftrightarrow> 0 \<le> p \<and> nat p < length (tb_threads s) \<and> 0 \<le> i \<and>
     nat i < length (th_events (tb_threads s ! nat p)) \<and>
     s' = s\<lparr>tb_threads := (tb_threads s)[nat p := (tb_threads s ! nat p)
            \<lparr>th_events := (th_events (tb_threads s ! nat p))[nat i := g (th_events (tb_threads s ! nat p) ! nat i)]\<rparr>]\<rparr>"
  by (auto simp: tb_set_event_def bind_r_Inr_iff tb_set_thread_Inr)

lemma tb_pop_event_Inr:
  "tb_pop_event s p = Inr s' \<longleftrightarrow> 0 \<le> p \<and> nat p < length (tb_threads s) \<and> th_events (tb_threads s ! nat p) \<noteq> [] \<and>
     s' = s\<lparr>tb_threads := (tb_threads s)[nat p := (tb_threads s ! nat p)\<lparr>th_events := butlast (th_events (tb_threads s ! nat p))\<rparr>]\<rparr>"
  by (auto simp: tb_pop_event_def bind_r_Inr_iff tb_set_thread_Inr th_pop_back_def pop_back_def)

lemma pop_back_Inr [simp]: "pop_back xs = Inr ys \<longleftrightarrow> xs \<noteq> [] \<and> ys = butlast xs"
  by (auto simp: pop_back_def)

lemma tb_set_state_Inr:
  "tb_set_state s i g = Inr s' \<longleftrightarrow> 0 \<le> i \<and> nat i < length (tb_states s) \<and>
     s' = s\<lparr>tb_states := (tb_states s)[nat i := g (tb_states s ! nat i)]\<rparr>"
  by (auto simp: tb_set_state_def bind_r_Inr_iff)

lemma skel_thread_update:
  assumes "p < length (tb_threads s)" "kt_of t = g (kt_of (tb_threads s ! p))"
  shows "skel_of (s\<lparr>tb_threads := (tb_threads s)[p := t]\<rparr>) = sk_thread (skel_of s) p g"
  using assms by (simp add: sk_thread_def map_update)

lemma skel_thread_same:
  assumes "kt_of t = kt_of (tb_threads s ! p)"
  shows "skel_of (s\<lparr>tb_threads := (tb_threads s)[p := t]\<rparr>) = skel_of s"
proof (cases "p < length (tb_threads s)")
  case True
  hence "(map kt_of (tb_threads s))[p := kt_of (tb_threads s ! p)] = map kt_of (tb_threads s)"
    by (metis list_update_id map_update)
  hence "map kt_of ((tb_threads s)[p := t]) = map kt_of (tb_threads s)" using assms by (simp add: map_update)
  thus ?thesis by (simp add: skel_of_def)
qed (simp add: skel_of_def list_update_beyond)

lemma skel_set_event: "tb_set_event s p i g = Inr s' \<Longrightarrow> skel_of s' = skel_of s"
  unfolding tb_set_event_Inr
  by (elim conjE, simp only:, rule skel_thread_same) (simp add: kt_of_def th_size_def)

lemma skel_set_state:
  assumes "tb_set_state s i g = Inr s'" "\<And>st. st_prefix (g st) = st_prefix st"
  shows "skel_of s' = skel_of s"
proof -
  have "map st_prefix ((tb_states s)[nat i := g (tb_states s ! nat i)]) = map st_prefix (tb_states s)"
    using assms(2) by (simp add: map_update) (metis list_update_id map_update)
  thus ?thesis using assms(1) by (auto simp: tb_set_state_Inr skel_of_def)
qed

lemma remove1_erase: "seq_erase xs i = Inr ys \<longleftrightarrow> i \<in> set xs \<and> ys = remove1 i xs"
proof (induction xs arbitrary: ys)
  case (Cons x xs)
  show ?case
  proof (cases "x = i")
    case True
    thus ?thesis by (auto simp: seq_erase_def seq_index_of_def erase_at_def)
  next
    case False
    have "seq_erase (x # xs) i = bind_r (seq_erase xs i) (\<lambda>zs. Inr (x # zs))"
      using False by (simp add: seq_erase_def seq_index_of_def erase_at_def)
    thus ?thesis using False Cons.IH by (auto simp: bind_r_Inr_iff)
  qed
qed (simp add: seq_erase_def seq_index_of_def erase_at_def)

lemma skel_analysis:
  assumes "analysis_frame s s'"
  shows "skel_of s' = skel_of s \<and> tb_threads s' = tb_threads s \<and> tb_current_state s' = tb_current_state s"
proof -
  obtain sts c w where s': "s' = s\<lparr>tb_states := sts, tb_covered := c, tb_EW_leads := w\<rparr>"
    and l: "list_all2 st_aframe (tb_states s) sts"
    using assms unfolding analysis_frame_def by blast
  have "st_prefix st' = st_prefix st" if "st_aframe st st'" for st st' using that by (auto simp: st_aframe_def)
  hence "map st_prefix sts = map st_prefix (tb_states s)"
    using l by (auto simp: list_all2_conv_all_nth intro!: nth_equalityI)
  thus ?thesis using s' by (simp add: skel_of_def)
qed

lemma assert_d_Inr: "assert_d cf b m = Inr x \<longleftrightarrow> (vf_dbg cf \<longrightarrow> b) \<and> m = Inr x"
  by (auto simp: assert_d_def)

section \<open>Numbering\<close>

lemma numbered_update:
  assumes "numbered s" "p < length (tb_threads s)"
    "\<forall>k<length (th_events t). ev_iid (th_events t ! k) = IID (int p) k"
  shows "numbered (s\<lparr>tb_threads := (tb_threads s)[p := t]\<rparr>)"
  unfolding numbered_def
proof (intro allI impI)
  fix q k assume "q < length (tb_threads (s\<lparr>tb_threads := (tb_threads s)[p := t]\<rparr>))"
    "k < length (th_events (tb_threads (s\<lparr>tb_threads := (tb_threads s)[p := t]\<rparr>) ! q))"
  thus "ev_iid (th_events (tb_threads (s\<lparr>tb_threads := (tb_threads s)[p := t]\<rparr>) ! q) ! k) = IID (int q) k"
    using assms unfolding numbered_def by (cases "q = p") simp_all
qed

lemma numbered_push:
  assumes "tb_push_event s p e = Inr s'" "numbered s" "ev_iid e = IID p (th_size (tb_threads s ! nat p))"
  shows "numbered s'"
proof -
  have p: "0 \<le> p" "nat p < length (tb_threads s)"
    and s': "s' = s\<lparr>tb_threads := (tb_threads s)[nat p := th_push_back (tb_threads s ! nat p) e]\<rparr>"
    using assms(1) by (simp_all add: tb_push_event_Inr)
  have "\<forall>k<length (th_events (th_push_back (tb_threads s ! nat p) e)).
      ev_iid (th_events (th_push_back (tb_threads s ! nat p) e) ! k) = IID (int (nat p)) k"
    using assms(2,3) p by (auto simp: numbered_def th_push_back_def th_size_def nth_append less_Suc_eq)
  thus ?thesis unfolding s' by (rule numbered_update [OF assms(2) p(2)])
qed

lemma numbered_pop:
  assumes "tb_pop_event s p = Inr s'" "numbered s"
  shows "numbered s'"
proof -
  let ?t = "tb_threads s ! nat p"
  have p: "0 \<le> p" "nat p < length (tb_threads s)"
    and s': "s' = s\<lparr>tb_threads := (tb_threads s)[nat p := ?t\<lparr>th_events := butlast (th_events ?t)\<rparr>]\<rparr>"
    using assms(1) by (simp_all add: tb_pop_event_Inr)
  have "\<forall>k<length (th_events (?t\<lparr>th_events := butlast (th_events ?t)\<rparr>)).
      ev_iid (th_events (?t\<lparr>th_events := butlast (th_events ?t)\<rparr>) ! k) = IID (int (nat p)) k"
    using assms(2) p by (simp add: numbered_def nth_butlast)
  thus ?thesis unfolding s' by (rule numbered_update [OF assms(2) p(2)])
qed

lemma numbered_set_event:
  assumes "tb_set_event s p i g = Inr s'" "numbered s" "\<And>e. ev_iid (g e) = ev_iid e"
  shows "numbered s'"
proof -
  let ?t = "tb_threads s ! nat p"
  let ?es = "(th_events ?t)[nat i := g (th_events ?t ! nat i)]"
  have p: "0 \<le> p" "nat p < length (tb_threads s)" "nat i < length (th_events ?t)"
    and s': "s' = s\<lparr>tb_threads := (tb_threads s)[nat p := ?t\<lparr>th_events := ?es\<rparr>]\<rparr>"
    using assms(1) by (simp_all add: tb_set_event_Inr)
  have "\<forall>k<length ?es. ev_iid (?es ! k) = IID (int (nat p)) k"
    using assms(2,3) p by (auto simp: numbered_def nth_list_update)
  thus ?thesis unfolding s' by (intro numbered_update [OF assms(2) p(2)]) simp
qed

lemma numbered_set_thread:
  assumes "tb_set_thread s p g = Inr s'" "numbered s" "\<And>t. th_events (g t) = th_events t"
  shows "numbered s'"
proof -
  have p: "0 \<le> p" "nat p < length (tb_threads s)"
    and s': "s' = s\<lparr>tb_threads := (tb_threads s)[nat p := g (tb_threads s ! nat p)]\<rparr>"
    using assms(1) by (simp_all add: tb_set_thread_Inr)
  show ?thesis unfolding s'
    by (rule numbered_update [OF assms(2) p(2)]) (use assms(2,3) p in \<open>simp add: numbered_def\<close>)
qed

lemma event_at_iid:
  assumes "event_at s i = Inr e" "numbered s"
  shows "ev_iid e = i \<and> 0 \<le> iid_pid i \<and> nat (iid_pid i) < length (tb_threads s)"
proof -
  have b: "0 \<le> iid_pid i" "nat (iid_pid i) < length (tb_threads s)"
    "iid_idx i < length (th_events (tb_threads s ! nat (iid_pid i)))"
    "e = th_events (tb_threads s ! nat (iid_pid i)) ! iid_idx i"
    using assms(1) by (auto simp: event_at_def bind_r_Inr_iff)
  hence "ev_iid e = IID (int (nat (iid_pid i))) (iid_idx i)" using assms(2) unfolding numbered_def by blast
  thus ?thesis using b(1,2) by (cases i) simp
qed

lemma perform_access_skel:
  assumes "perform_access s = Inr s'" "numbered s"
  shows "skel_of s' = skel_of s \<and> numbered s' \<and> ev_iid (tb_current_event s') = ev_iid (tb_current_event s) \<and>
    tb_current_thread s' = tb_current_thread s \<and> tb_current_state s' = tb_current_state s \<and>
    length (tb_threads s') = length (tb_threads s)"
proof -
  let ?e = "tb_current_event s"
  let ?s = "if ev_is_write ?e then mem_write s ?e else s"
  have s: "skel_of ?s = skel_of s" "numbered ?s" "tb_current_event ?s = ?e" "tb_current_thread ?s = tb_current_thread s"
    "tb_current_state ?s = tb_current_state s" "tb_threads ?s = tb_threads s"
    using assms(2) by (simp_all add: mem_write_def numbered_def)
  show ?thesis
  proof (cases "ev_is_read ?e")
    case False
    hence "s' = ?s" using assms(1) by (simp add: perform_access_def Let_def)
    thus ?thesis using s by simp
  next
    case True
    let ?r = "?e\<lparr>ev_value := tb_mem_at ?s (ev_object ?e)\<rparr>"
    let ?t = "?s\<lparr>tb_current_event := ?r\<rparr>"
    have run: "tb_set_event ?t (tb_current_thread ?t) (int (ev_index ?r)) (\<lambda>x. x\<lparr>ev_value := ev_value ?r\<rparr>) = Inr s'"
      using assms(1) True s(4) by (simp add: perform_access_def Let_def bind_r_Inr_iff)
    have t: "skel_of ?t = skel_of s" "numbered ?t" "tb_current_event ?t = ?r" "tb_current_thread ?t = tb_current_thread s"
      "tb_current_state ?t = tb_current_state s" "tb_threads ?t = tb_threads s"
      using s by (simp_all add: numbered_def)
    have n: "numbered s'" by (rule numbered_set_event [OF run t(2)]) simp
    have "tb_current_event s' = ?r \<and> tb_current_thread s' = tb_current_thread s \<and> tb_current_state s' = tb_current_state s \<and>
        length (tb_threads s') = length (tb_threads s)"
      using run t(3-6) unfolding tb_set_event_Inr by auto
    thus ?thesis using skel_set_event [OF run] t(1) n by simp
  qed
qed

section \<open>Scheduling\<close>

definition quiet :: "tbuilder \<Rightarrow> tbuilder \<Rightarrow> bool" where
  "quiet s s' = (skel_of s' = skel_of s \<and> tb_threads s' = tb_threads s \<and> tb_current_state s' = tb_current_state s)"

lemma quiet_trans: "quiet a b \<Longrightarrow> quiet b d \<Longrightarrow> quiet a d"
  by (simp add: quiet_def)

lemma quiet_refl: "quiet s s"
  by (simp add: quiet_def)

lemma quiet_analysis: "analysis_frame s s' \<Longrightarrow> quiet s s'"
  unfolding quiet_def by (rule skel_analysis)

lemma quiet_update_leads: "update_leads cf s e f = Inr s' \<Longrightarrow> quiet s s'"
  by (rule quiet_analysis [OF update_leads_frame])

lemma quiet_union: "consistent_union_lead cf s k l = Inr s' \<Longrightarrow> quiet s s'"
  unfolding consistent_union_lead_def by (rule quiet_analysis [OF union_frame_analysis [OF consistent_union_frame]])

lemma quiet_set_state:
  assumes "tb_set_state s i g = Inr s'" "\<And>st. st_prefix (g st) = st_prefix st"
  shows "quiet s s'"
  using skel_set_state [OF assms] assms(1) by (auto simp: quiet_def tb_set_state_Inr)

lemma compute_new_leads_quiet:
  assumes "compute_new_leads cf s = Inr s'"
  shows "quiet s s'"
proof (cases "tb_to_explore s = []")
  case True
  let ?pick = "case enabaled_RWpair_read s of
             Some r \<Rightarrow> bind_r (analyse_unexplored_influenecers cf s r) (\<lambda>s.
                         bind_r (tb_set_state s (tb_current_state s) (\<lambda>st. st\<lparr>st_fwd := True, st_fwd_read := r\<rparr>)) (\<lambda>s.
                           Inr (r, s)))
           | None \<Rightarrow> bind_r (seq_head (tb_enabled s)) (\<lambda>r. Inr (r, s))"
  obtain e s1 where 1: "?pick = Inr (e, s1)"
    using assms True unfolding compute_new_leads_def by (auto elim!: bind_r_InrE)
  have q1: "quiet s s1"
  proof (cases "enabaled_RWpair_read s")
    case None
    thus ?thesis using 1 by (auto simp: quiet_refl elim!: bind_r_InrE)
  next
    case (Some r)
    then obtain t where "analyse_unexplored_influenecers cf s r = Inr t"
      "tb_set_state t (tb_current_state t) (\<lambda>st. st\<lparr>st_fwd := True, st_fwd_read := r\<rparr>) = Inr s1"
      using 1 by (auto elim!: bind_r_InrE)
    thus ?thesis using quiet_analysis [OF analyse_ui_frame] quiet_set_state quiet_trans by fastforce
  qed
  obtain s2 where 2: "update_leads cf s1 (tb_event s1 e) (tb_forbidden s1) = Inr s2"
    using assms True 1 unfolding compute_new_leads_def by (auto elim!: bind_r_InrE)
  obtain st where st: "tb_state s2 (tb_current_state s2) = Inr st"
    using assms True 1 2 unfolding compute_new_leads_def by (auto elim!: bind_r_InrE)
  let ?own = "if \<not> st_has_unexplored_leads st
                   then bind_r (lead_of_seq (tb_ctx s2) [e] (tb_forbidden s2) (tb_mem s2)) (\<lambda>l.
                          consistent_union_lead cf s2 (tb_current_state s2) l)
                   else Inr s2"
  obtain s3 where 3: "?own = Inr s3"
    using assms True 1 2 st unfolding compute_new_leads_def by (auto elim!: bind_r_InrE)
  have q3: "quiet s2 s3" using 3 quiet_union quiet_refl by (auto split: if_splits elim!: bind_r_InrE)
  obtain s4 where 4: "tb_set_state s3 (tb_current_state s3) (\<lambda>st. st\<lparr>st_lead_head := tb_prefix_idx s3\<rparr>) = Inr s4"
    "s' = s4\<lparr>tb_alpha_head := tb_prefix_idx s4\<rparr>"
    using assms True 1 2 st 3 unfolding compute_new_leads_def by (auto elim!: bind_r_InrE)
  have "quiet s3 s4" by (rule quiet_set_state [OF 4(1)]) simp
  moreover have "quiet s4 s'" using 4(2) by (simp add: quiet_def)
  ultimately show ?thesis using q1 quiet_update_leads [OF 2] q3 quiet_trans by blast
next
  case False
  obtain s1 where 1: "tb_set_state s (tb_current_state s) (\<lambda>st. st\<lparr>st_executing_alpha := True, st_lead_head := tb_alpha_head s\<rparr>) = Inr s1"
    using assms False unfolding compute_new_leads_def by (auto elim!: bind_r_InrE)
  obtain l s2 where 2: "consistent_union_lead cf s1 (tb_current_state s1) l = Inr s2"
    "\<exists>te. s' = s2\<lparr>tb_to_explore := te\<rparr>"
    using assms False 1 unfolding compute_new_leads_def by (auto elim!: bind_r_InrE)
  have "quiet s s1" by (rule quiet_set_state [OF 1]) simp
  moreover have "quiet s2 s'" using 2(2) by (auto simp: quiet_def)
  ultimately show ?thesis using quiet_union [OF 2(1)] quiet_trans by blast
qed

lemma next_lead_from_prefix: "next_lead_from st i L = Inr (l, st') \<Longrightarrow> st_prefix st' = st_prefix st"
  by (induction st i L rule: next_lead_from.induct) (auto simp: Let_def split: if_splits)

lemma choose_lead_quiet:
  assumes "choose_lead s = Inr (l, e, s')"
  shows "quiet s s'"
proof -
  obtain st where 1: "tb_state s (tb_current_state s) = Inr st" using assms by (auto simp: choose_lead_def elim!: bind_r_InrE)
  obtain l' st' where 2: "st_next_unexplored_lead st = Inr (l', st')"
    using assms 1 by (auto simp: choose_lead_def elim!: bind_r_InrE)
  obtain s1 where 3: "tb_set_state s (tb_current_state s) (\<lambda>_. st') = Inr s1" "\<exists>te. s' = s1\<lparr>tb_to_explore := te\<rparr>"
    using assms 1 2 by (auto simp: choose_lead_def elim!: bind_r_InrE)
  have st: "0 \<le> tb_current_state s" "nat (tb_current_state s) < length (tb_states s)" "tb_states s ! nat (tb_current_state s) = st"
    using 1 by (auto simp: tb_state_def)
  have "st_prefix st' = st_prefix st"
    using 2 next_lead_from_prefix by (auto simp: st_next_unexplored_lead_def assert_r_def split: if_splits)
  hence "map st_prefix ((tb_states s)[nat (tb_current_state s) := st']) = map st_prefix (tb_states s)"
    using st by (metis list_update_id map_update)
  thus ?thesis using 3 by (auto simp: quiet_def tb_set_state_Inr skel_of_def)
qed

lemma lead_formula_quiet: "lead_formula s l e = Inr s' \<Longrightarrow> quiet s s'"
  unfolding lead_formula_def by (auto simp: quiet_def split: if_splits elim!: bind_r_InrE)

lemma enabled_erase_Inr: "enabled_erase s i = Inr s' \<longleftrightarrow> i \<in> set (tb_enabled s) \<and> s' = s\<lparr>tb_enabled := remove1 i (tb_enabled s)\<rparr>"
  by (auto simp: enabled_erase_def bind_r_Inr_iff remove1_erase)

definition access_step :: "skel \<Rightarrow> int iid \<Rightarrow> nat \<Rightarrow> skel" where
  "access_step k i p = (sk_thread k p (\<lambda>t. t\<lparr>kt_awaiting := False\<rparr>))
            \<lparr>sk_enabled := remove1 i (sk_enabled k), sk_idx := sk_idx k + 1, sk_cur := p\<rparr>"

lemma execute_next_lead_effect:
  assumes "execute_next_lead cf s = Inr s'" "numbered s"
  shows "\<exists>i p. i \<in> set (tb_enabled s) \<and> iid_pid i = int p \<and> p < length (tb_threads s) \<and> numbered s' \<and>
    tb_current_thread s' = int p \<and>
    skel_of s' = (access_step (skel_of s) i p)\<lparr>sk_exec := tb_exec s @ [i], sk_ps := tb_prefix_state s @ [tb_current_state s]\<rparr>"
proof -
  obtain l e s1 where 1: "choose_lead s = Inr (l, e, s1)"
    using assms(1) unfolding execute_next_lead_def by (elim bind_r_InrE) auto
  let ?i = "ev_iid e" and ?p = "nat (iid_pid (ev_iid e))"
  obtain s2 where 2: "enabled_erase s1 ?i = Inr s2"
    using assms(1) 1 unfolding execute_next_lead_def by (auto elim!: bind_r_InrE)
  obtain s3 where 3: "lead_formula s2 l e = Inr s3"
    using assms(1) 1 2 unfolding execute_next_lead_def by (auto elim!: bind_r_InrE)
  obtain cur where 4: "event_at s3 ?i = Inr cur"
    using assms(1) 1 2 3 unfolding execute_next_lead_def by (auto elim!: bind_r_InrE)
  let ?s4 = "s3\<lparr>tb_current_thread := ev_pid e, tb_current_event := cur\<rparr>"
  obtain s5 where 5: "perform_access ?s4 = Inr s5"
    using assms(1) 1 2 3 4 unfolding execute_next_lead_def by (auto simp: Let_def assert_d_Inr elim!: bind_r_InrE)
  obtain s6 where 6: "tb_set_thread s5 (tb_current_thread s5) (\<lambda>t. t\<lparr>th_awaiting := False\<rparr>) = Inr s6"
    "s' = s6\<lparr>tb_exec := seq_push_back (tb_exec s6) (ev_iid (tb_current_event s6)),
                 tb_prefix_state := tb_prefix_state s6 @ [tb_current_state s6], tb_prefix_idx := tb_prefix_idx s6 + 1\<rparr>"
    using assms(1) 1 2 3 4 5 unfolding execute_next_lead_def by (auto simp: Let_def assert_d_Inr elim!: bind_r_InrE)
  have q1: "skel_of s1 = skel_of s" "tb_threads s1 = tb_threads s" "tb_current_state s1 = tb_current_state s"
    using choose_lead_quiet [OF 1] by (simp_all add: quiet_def)
  have en: "?i \<in> set (tb_enabled s)" "s2 = s1\<lparr>tb_enabled := remove1 ?i (tb_enabled s)\<rparr>"
    using 2 q1(1) skel_of_simps(3) [of s] skel_of_simps(3) [of s1] by (simp_all add: enabled_erase_Inr)
  have q3: "skel_of s3 = (skel_of s)\<lparr>sk_enabled := remove1 ?i (tb_enabled s)\<rparr>" "tb_threads s3 = tb_threads s"
    "tb_current_state s3 = tb_current_state s"
    using lead_formula_quiet [OF 3] en(2) q1 by (simp_all add: quiet_def)
  have n3: "numbered s3" using assms(2) q3(2) numbered_threads by blast
  have iid: "ev_iid cur = ?i" "0 \<le> iid_pid ?i" "?p < length (tb_threads s)" using event_at_iid [OF 4 n3] q3(2) by auto
  have n4: "numbered ?s4" using n3 by (simp add: numbered_def)
  note p5 = perform_access_skel [OF 5 n4]
  have pid: "ev_pid e = int ?p" using iid(2) by (simp add: ev_pid_def)
  have k5: "skel_of s5 = (skel_of s)\<lparr>sk_enabled := remove1 ?i (tb_enabled s), sk_cur := ?p\<rparr>"
    using p5 q3(1) pid by simp
  have c5: "tb_current_thread s5 = int ?p" "tb_current_state s5 = tb_current_state s" "ev_iid (tb_current_event s5) = ?i"
    "length (tb_threads s5) = length (tb_threads s)"
    using p5 q3(2,3) iid(1) pid by simp_all
  let ?t = "tb_threads s5 ! ?p"
  have s6: "s6 = s5\<lparr>tb_threads := (tb_threads s5)[?p := ?t\<lparr>th_awaiting := False\<rparr>]\<rparr>"
    using 6(1) c5(1) by (simp add: tb_set_thread_Inr)
  have "skel_of s6 = sk_thread (skel_of s5) ?p (\<lambda>t. t\<lparr>kt_awaiting := False\<rparr>)"
    unfolding s6 by (rule skel_thread_update) (use iid(3) c5(4) in simp_all)
  hence k6: "skel_of s6 = (sk_thread (skel_of s) ?p (\<lambda>t. t\<lparr>kt_awaiting := False\<rparr>))
      \<lparr>sk_enabled := remove1 ?i (tb_enabled s), sk_cur := ?p\<rparr>"
    using k5 by (simp add: sk_thread_def)
  have n6: "numbered s6" by (rule numbered_set_thread [OF 6(1)]) (use p5 in simp_all)
  have f6: "tb_current_event s6 = tb_current_event s5" "tb_current_state s6 = tb_current_state s5" "tb_exec s6 = tb_exec s"
    "tb_prefix_state s6 = tb_prefix_state s" "tb_prefix_idx s6 = tb_prefix_idx s" "tb_current_thread s6 = int ?p"
    using s6 c5 k6 skel_of_simps(1) [of s6] skel_of_simps(2) [of s6] skel_of_simps(5) [of s6] by simp_all
  have "skel_of s' = (access_step (skel_of s) ?i ?p)\<lparr>sk_exec := tb_exec s @ [?i],
      sk_ps := tb_prefix_state s @ [tb_current_state s]\<rparr>"
    using 6(2) k6 f6 c5 by (simp add: access_step_def seq_push_back_def)
  moreover have "numbered s'" using n6 6(2) numbered_threads [of s' s6] by simp
  moreover have "tb_current_thread s' = int ?p" using 6(2) f6(6) by simp
  ultimately show ?thesis using en(1) iid(2,3) by (intro exI [of _ ?i] exI [of _ ?p]) simp
qed

lemma free_thread_Some:
  "free_thread ts n = Some i \<Longrightarrow> i < n \<and> th_available (ts ! i) \<and> \<not> th_awaiting (ts ! i)"
  by (induction ts n rule: free_thread.induct) (auto split: if_splits)

lemma free_thread_None:
  "free_thread ts n = None \<longleftrightarrow> (\<forall>i<n. \<not> (th_available (ts ! i) \<and> \<not> th_awaiting (ts ! i)))"
  by (induction ts n rule: free_thread.induct) (auto simp: less_Suc_eq)

lemma run_step:
  assumes "exists_non_memory_access s = Inr (Some q, s')" "numbered s" "tb_replay_point s < tb_prefix_idx s"
  shows "sk_step (skel_of s) (skel_of s') \<and> numbered s' \<and> q = tb_current_thread s'"
proof -
  obtain i where i: "free_thread (tb_threads s) (length (tb_threads s)) = Some i"
    using assms(1) by (auto simp: exists_non_memory_access_def split: option.splits)
  note f = free_thread_Some [OF i]
  let ?t = "tb_threads s ! i"
  let ?iid = "IID (int i) (th_size ?t)"
  obtain s1 where s1: "tb_push_event s (int i) (ev_of_iid ?iid) = Inr s1"
    "s' = s1\<lparr>tb_exec := seq_push_back (tb_exec s1) ?iid, tb_prefix_state := tb_prefix_state s1 @ [- 1],
             tb_prefix_idx := tb_prefix_idx s1 + 1, tb_current_thread := int i\<rparr>" "q = int i"
    using assms(1) i by (auto simp: exists_non_memory_access_def Let_def elim!: bind_r_InrE)
  have t1: "s1 = s\<lparr>tb_threads := (tb_threads s)[i := th_push_back ?t (ev_of_iid ?iid)]\<rparr>"
    using s1(1) by (simp add: tb_push_event_Inr)
  have k1: "skel_of s1 = sk_thread (skel_of s) i (\<lambda>t. t\<lparr>kt_size := Suc (kt_size t)\<rparr>)"
    unfolding t1 by (rule skel_thread_update) (use f in simp_all)
  have "numbered s1" by (rule numbered_push [OF s1(1) assms(2)]) (simp add: ev_of_iid_def)
  hence "numbered s'" using s1(2) numbered_threads [of s' s1] by simp
  moreover have "sk_step (skel_of s) (skel_of s')"
    by (rule sk_step.run [of _ i ?iid]) (use assms(3) f s1(2) k1 t1 in \<open>simp_all add: seq_push_back_def\<close>)
  ultimately show ?thesis using s1 by simp
qed

lemma new_access_step:
  assumes c: "compute_new_leads cf (make_new_state s) = Inr s1" and e: "execute_next_lead cf s1 = Inr s'"
    and n: "numbered s" and r: "tb_replay_point s < tb_prefix_idx s"
    and none: "free_thread (tb_threads s) (length (tb_threads s)) = None"
  shows "sk_step (skel_of s) (skel_of s') \<and> numbered s'"
proof -
  let ?m = "make_new_state s"
  have m: "skel_of ?m = (skel_of s)\<lparr>sk_states := map st_prefix (tb_states s) @ [tb_prefix_idx s]\<rparr>" "tb_threads ?m = tb_threads s"
    "tb_current_state ?m = int (length (tb_states s))" by (simp_all add: make_new_state_def st_make_def)
  have q: "skel_of s1 = skel_of ?m" "tb_threads s1 = tb_threads s" "tb_current_state s1 = int (length (tb_states s))"
    using compute_new_leads_quiet [OF c] m by (simp_all add: quiet_def)
  have f: "tb_enabled s1 = tb_enabled s" "tb_exec s1 = tb_exec s" "tb_prefix_state s1 = tb_prefix_state s"
    using q(1) m(1) skel_of_simps(1-3) [of s1] by simp_all
  have "numbered s1" using n q(2) numbered_threads by blast
  then obtain i p where x: "i \<in> set (tb_enabled s)" "iid_pid i = int p" "p < length (tb_threads s)" "numbered s'"
    "skel_of s' = (access_step (skel_of s1) i p)\<lparr>sk_exec := tb_exec s @ [i], sk_ps := tb_prefix_state s @ [int (length (tb_states s))]\<rparr>"
    using execute_next_lead_effect [OF e] q(2,3) f by auto
  have "sk_step (skel_of s) (skel_of s')"
    by (rule sk_step.new_access [of _ i p])
      (use x r none q(1) m(1) in \<open>auto simp: access_step_def free_thread_None sk_thread_def\<close>)
  thus ?thesis using x(4) by simp
qed

lemma replay_point_step:
  assumes l: "leave_replay cf s = Inr s1" and e: "execute_next_lead cf s1 = Inr s'"
    and n: "numbered s" and r: "tb_replay_point s = tb_prefix_idx s"
  shows "sk_step (skel_of s) (skel_of s') \<and> numbered s'"
proof -
  obtain ps where ps: "0 \<le> tb_prefix_idx s" "nat (tb_prefix_idx s) < length (tb_prefix_state s)"
    "tb_prefix_state s ! nat (tb_prefix_idx s) = ps"
    using l by (auto simp: leave_replay_def elim!: bind_r_InrE)
  obtain s0 where s0: "tb_set_state (s\<lparr>tb_current_state := ps, tb_exec := butlast (tb_exec s), tb_prefix_state := butlast (tb_prefix_state s)\<rparr>)
      ps (\<lambda>st. st\<lparr>st_lead_head := tb_prefix_idx s\<rparr>) = Inr s0" "s1 = s0\<lparr>tb_alpha_head := tb_prefix_idx s0\<rparr>"
    using l ps by (auto simp: leave_replay_def assert_d_Inr elim!: bind_r_InrE)
  have psi: "0 \<le> ps" using s0(1) by (simp add: tb_set_state_Inr)
  have "quiet (s\<lparr>tb_current_state := ps, tb_exec := butlast (tb_exec s), tb_prefix_state := butlast (tb_prefix_state s)\<rparr>) s0"
    by (rule quiet_set_state [OF s0(1)]) simp
  hence q: "skel_of s1 = (skel_of s)\<lparr>sk_exec := butlast (tb_exec s), sk_ps := butlast (tb_prefix_state s)\<rparr>"
    "tb_threads s1 = tb_threads s" "tb_current_state s1 = ps"
    using s0(2) by (simp_all add: quiet_def)
  have f: "tb_enabled s1 = tb_enabled s" "tb_exec s1 = butlast (tb_exec s)" "tb_prefix_state s1 = butlast (tb_prefix_state s)"
    using q(1) skel_of_simps(1-3) [of s1] by simp_all
  have "numbered s1" using n q(2) numbered_threads by blast
  then obtain i p where x: "i \<in> set (tb_enabled s)" "iid_pid i = int p" "p < length (tb_threads s)" "numbered s'"
    "skel_of s' = (access_step (skel_of s1) i p)\<lparr>sk_exec := butlast (tb_exec s) @ [i], sk_ps := butlast (tb_prefix_state s) @ [ps]\<rparr>"
    using execute_next_lead_effect [OF e] q(2,3) f by auto
  have "sk_step (skel_of s) (skel_of s')"
    by (rule sk_step.replay_point [of _ i p])
      (use x r q(1) ps psi in \<open>auto simp: access_step_def sk_thread_def\<close>)
  thus ?thesis using x(4) by simp
qed

lemma replay_step:
  assumes run: "replay_schedule cf s = Inr (q, s')" and dbg: "vf_dbg cf" and n: "numbered s"
    and r: "tb_prefix_idx s < tb_replay_point s"
  shows "sk_step (skel_of s) (skel_of s') \<and> numbered s' \<and> q = tb_current_thread s'"
proof -
  let ?x = "nat (tb_prefix_idx s)" and ?i = "tb_exec s ! nat (tb_prefix_idx s)"
  let ?p = "nat (iid_pid ?i)"
  let ?t = "tb_threads s ! ?p"
  have b: "0 \<le> tb_prefix_idx s" "?x < length (tb_exec s)" "0 \<le> iid_pid ?i" "?p < length (tb_threads s)" "th_available ?t"
    using run dbg by (auto simp: replay_schedule_def assert_d_Inr elim!: bind_r_InrE)
  have bs: "?x < length (tb_prefix_state s)" using run by (auto simp: replay_schedule_def assert_d_Inr elim!: bind_r_InrE)
  obtain s1 where s1: "(if tb_prefix_state s ! ?x < 0 then replay_non_memory_access cf s (iid_pid ?i) ?i
                else replay_memory_access cf s (iid_pid ?i) ?i) = Inr s1"
    "s' = s1\<lparr>tb_prefix_idx := tb_prefix_idx s1 + 1\<rparr>" "q = iid_pid ?i"
    using run by (auto simp: replay_schedule_def assert_d_Inr elim!: bind_r_InrE)
  show ?thesis
  proof (cases "tb_prefix_state s ! ?x < 0")
    case True
    obtain s0 where s0: "tb_push_event s (iid_pid ?i) (ev_of_iid ?i) = Inr s0" "s1 = s0\<lparr>tb_current_thread := iid_pid ?i\<rparr>"
      and a: "\<not> th_awaiting ?t" "iid_idx ?i = th_size ?t"
      using s1(1) True dbg by (auto simp: replay_non_memory_access_def assert_d_Inr elim!: bind_r_InrE)
    have t0: "s0 = s\<lparr>tb_threads := (tb_threads s)[?p := th_push_back ?t (ev_of_iid ?i)]\<rparr>"
      using s0(1) by (simp add: tb_push_event_Inr)
    have k0: "skel_of s0 = sk_thread (skel_of s) ?p (\<lambda>t. t\<lparr>kt_size := Suc (kt_size t)\<rparr>)"
      unfolding t0 by (rule skel_thread_update) (use b in simp_all)
    have iid: "?i = IID (int ?p) (th_size ?t)" using a(2) b(3) by (cases ?i) simp
    have "numbered s0" by (rule numbered_push [OF s0(1) n]) (use iid b(3) in \<open>simp add: ev_of_iid_def\<close>)
    hence "numbered s'" using s0(2) s1(2) numbered_threads [of s' s0] by simp
    moreover have "sk_step (skel_of s) (skel_of s')"
      by (rule sk_step.replay_run [of _ ?p]) (use r b a iid s1(2) s0(2) k0 t0 in simp_all)
    ultimately show ?thesis using s1(2,3) s0(2) by simp
  next
    case False
    let ?ps = "tb_prefix_state s ! ?x"
    obtain s2 where s2: "enabled_erase s ?i = Inr s2"
      using s1(1) False bs b by (auto simp: replay_memory_access_def assert_d_Inr elim!: bind_r_InrE)
    obtain e where e: "event_at s2 ?i = Inr e"
      using s1(1) False bs b s2 by (auto simp: replay_memory_access_def assert_d_Inr elim!: bind_r_InrE)
    let ?s3 = "s2\<lparr>tb_current_state := ?ps, tb_current_thread := iid_pid ?i, tb_current_event := e\<rparr>"
    obtain s4 where s4: "tb_set_thread ?s3 (iid_pid ?i) (\<lambda>t. t\<lparr>th_awaiting := False\<rparr>) = Inr s4"
      using s1(1) False bs b s2 e by (auto simp: replay_memory_access_def assert_d_Inr elim!: bind_r_InrE)
    have rest: "bind_r (perform_access s4) (\<lambda>s. bind_r (tb_state s ?ps) (\<lambda>st.
        Inr (if tb_prefix_idx s = st_lead_head st then s\<lparr>tb_alpha_head := tb_prefix_idx s\<rparr> else s))) = Inr s1"
      using s1(1) False bs b s2 e s4 by (simp add: replay_memory_access_def assert_d_Inr bind_r_Inr_iff [of "nth_r _ _"])
    obtain s5 where s5: "perform_access s4 = Inr s5" "s1 = s5 \<or> (\<exists>h. s1 = s5\<lparr>tb_alpha_head := h\<rparr>)"
      using rest by (elim bind_r_InrE) (auto split: if_splits)
    have en: "?i \<in> set (tb_enabled s)" "s2 = s\<lparr>tb_enabled := remove1 ?i (tb_enabled s)\<rparr>"
      using s2 by (simp_all add: enabled_erase_Inr)
    have t4: "s4 = ?s3\<lparr>tb_threads := (tb_threads ?s3)[?p := ?t\<lparr>th_awaiting := False\<rparr>]\<rparr>"
      using s4 en(2) by (simp add: tb_set_thread_Inr)
    have "skel_of s4 = sk_thread (skel_of ?s3) ?p (\<lambda>t. t\<lparr>kt_awaiting := False\<rparr>)"
      unfolding t4 by (rule skel_thread_update) (use b en(2) in simp_all)
    hence k4: "skel_of s4 = (sk_thread (skel_of s) ?p (\<lambda>t. t\<lparr>kt_awaiting := False\<rparr>))
        \<lparr>sk_enabled := remove1 ?i (tb_enabled s), sk_cur := ?p\<rparr>"
      using en(2) by (simp add: sk_thread_def)
    have "numbered ?s3" using n en(2) by (simp add: numbered_def)
    hence n4: "numbered s4" by (rule numbered_set_thread [OF s4]) simp
    note p5 = perform_access_skel [OF s5(1) n4]
    have k1: "skel_of s1 = skel_of s4" "numbered s1" "tb_current_thread s1 = iid_pid ?i"
      using p5 s5(2) t4 en(2) by (auto simp: numbered_def)
    have idx: "tb_prefix_idx s1 = tb_prefix_idx s" using arg_cong [OF k1(1), of sk_idx] k4 by simp
    have k': "skel_of s' = (sk_thread (skel_of s) ?p (\<lambda>t. t\<lparr>kt_awaiting := False\<rparr>))
        \<lparr>sk_enabled := remove1 ?i (sk_enabled (skel_of s)), sk_idx := sk_idx (skel_of s) + 1, sk_cur := ?p\<rparr>"
      unfolding s1(2) skel_of_update k1(1) k4 idx by simp
    have "sk_step (skel_of s) (skel_of s')"
      by (rule sk_step.replay_access [OF _ _ _ _ _ _ _ k']) (use r b en(1) in simp_all)
    moreover have "numbered s'" using k1(2) s1(2) numbered_threads [of s' s1] by simp
    ultimately show ?thesis using k1(3) s1(2,3) by simp
  qed
qed

lemma schedule_step:
  assumes run: "schedule cf s = Inr (q, s')" and dbg: "vf_dbg cf" and n: "numbered s"
  shows "sk_step (skel_of s) (skel_of s') \<and> numbered s' \<and> (q = None \<longrightarrow> s' = s \<and> tb_enabled s = []) \<and>
    (\<forall>p. q = Some p \<longrightarrow> p = tb_current_thread s')"
proof -
  consider (replay) "is_replaying s" | (point) "\<not> is_replaying s" "at_replay_point s"
    | (on) "\<not> is_replaying s" "\<not> at_replay_point s" by blast
  thus ?thesis
  proof cases
    case replay
    then obtain p where p: "replay_schedule cf s = Inr (p, s')" "q = Some p"
      using run by (auto simp: schedule_def assert_d_Inr elim!: bind_r_InrE)
    thus ?thesis using replay_step [OF p(1) dbg n] replay by (simp add: is_replaying_def)
  next
    case point
    then obtain s1 where "leave_replay cf s = Inr s1" "execute_next_lead cf s1 = Inr s'" "q = Some (tb_current_thread s')"
      using run by (auto simp: schedule_def assert_d_Inr elim!: bind_r_InrE)
    thus ?thesis using replay_point_step n point by (simp add: at_replay_point_def)
  next
    case on
    hence r: "tb_replay_point s < tb_prefix_idx s" by (simp add: is_replaying_def at_replay_point_def)
    obtain p s1 where p: "exists_non_memory_access s = Inr (p, s1)"
      using run on by (auto simp: schedule_def assert_d_Inr elim!: bind_r_InrE)
    show ?thesis
    proof (cases p)
      case (Some i)
      hence "s' = s1" "q = Some i" using run on p by (auto simp: schedule_def assert_d_Inr)
      thus ?thesis using run_step [of s i s1] p Some n r by simp
    next
      case None
      have none: "free_thread (tb_threads s) (length (tb_threads s)) = None" and s1: "s1 = s"
        using p None by (auto simp: exists_non_memory_access_def Let_def split: option.splits elim!: bind_r_InrE)
      show ?thesis
      proof (cases "tb_enabled s = []")
        case True
        hence "s' = s" "q = None" using run on p None s1 by (auto simp: schedule_def assert_d_Inr)
        thus ?thesis using n True sk_step.stay by simp
      next
        case False
        obtain s2 where s2: "compute_new_leads cf (make_new_state s) = Inr s2"
          using run on p None s1 False by (auto simp: schedule_def assert_d_Inr elim!: bind_r_InrE)
        obtain st where st: "tb_state s2 (tb_current_state s2) = Inr st"
          using run on p None s1 False s2 by (auto simp: schedule_def assert_d_Inr elim!: bind_r_InrE)
        have "st_has_unexplored_leads st"
          using run on p None s1 False s2 st dbg by (auto simp: schedule_def assert_d_Inr split: if_splits)
        then obtain s3 where s3: "execute_next_lead cf s2 = Inr s3" "s' = s3" "q = Some (tb_current_thread s3)"
          using run on p None s1 False s2 st by (auto simp: schedule_def assert_d_Inr elim!: bind_r_InrE)
        thus ?thesis using new_access_step [OF s2 s3(1) n r none] by simp
      qed
    qed
  qed
qed

section \<open>Callbacks\<close>

lemma number_event_Inr:
  "number_event s e = Inr (e', s') \<longleftrightarrow> 0 \<le> tb_current_thread s \<and> nat (tb_current_thread s) < length (tb_threads s) \<and>
     e' = e\<lparr>ev_iid := IID (tb_current_thread s) (th_size (tb_threads s ! nat (tb_current_thread s)))\<rparr> \<and>
     s' = s\<lparr>tb_current_event := e'\<rparr>"
  by (auto simp: number_event_def tb_next_iid_def bind_r_Inr_iff)

lemma append_event_Inr:
  "append_event s e = Inr s' \<longleftrightarrow> (\<exists>t. tb_push_event s (tb_current_thread s) e = Inr t \<and> s' = t\<lparr>tb_exec := tb_exec t @ [ev_iid e]\<rparr>)"
  by (auto simp: append_event_def bind_r_Inr_iff seq_push_back_def)

lemma drop_placeholder_Inr:
  "drop_placeholder s = Inr s' \<longleftrightarrow> (\<exists>t. tb_pop_event s (tb_current_thread s) = Inr t \<and> tb_exec t \<noteq> [] \<and>
     s' = t\<lparr>tb_exec := butlast (tb_exec t)\<rparr>)"
  by (auto simp: drop_placeholder_def bind_r_Inr_iff)

text \<open>A placeholder is replaced by another event of the running thread.\<close>

lemma placeholder_replaced:
  assumes d: "drop_placeholder s = Inr s1" and m: "number_event s1 e = Inr (e', s2)"
    and t: "skel_of t = skel_of s2" "tb_threads t = tb_threads s2" "tb_current_thread t = tb_current_thread s2"
    and a: "append_event t e' = Inr s3" and n: "numbered s"
  shows "\<exists>k. nat (tb_current_thread s) < length (tb_threads s) \<and>
    th_size (tb_threads s ! nat (tb_current_thread s)) = Suc k \<and> tb_exec s \<noteq> [] \<and> numbered s3 \<and>
    skel_of s3 = (skel_of s)\<lparr>sk_exec := butlast (tb_exec s) @ [IID (int (nat (tb_current_thread s))) k]\<rparr> \<and>
    tb_current_thread s3 = tb_current_thread s \<and> length (tb_threads s3) = length (tb_threads s)"
proof -
  let ?q = "tb_current_thread s" and ?p = "nat (tb_current_thread s)"
  let ?t = "tb_threads s ! ?p"
  obtain s0 where s0: "tb_pop_event s ?q = Inr s0" "tb_exec s0 \<noteq> []" "s1 = s0\<lparr>tb_exec := butlast (tb_exec s0)\<rparr>"
    using d by (auto simp: drop_placeholder_Inr)
  let ?es = "butlast (th_events ?t)"
  have p: "0 \<le> ?q" "?p < length (tb_threads s)" "th_events ?t \<noteq> []"
    and e0: "s0 = s\<lparr>tb_threads := (tb_threads s)[?p := ?t\<lparr>th_events := ?es\<rparr>]\<rparr>"
    using s0(1) by (simp_all add: tb_pop_event_Inr)
  have s1: "s1 = s\<lparr>tb_threads := (tb_threads s)[?p := ?t\<lparr>th_events := ?es\<rparr>], tb_exec := butlast (tb_exec s)\<rparr>"
    using s0(3) e0 by simp
  have e': "e' = e\<lparr>ev_iid := IID ?q (length ?es)\<rparr>" and s2: "s2 = s1\<lparr>tb_current_event := e'\<rparr>"
    using m p(2) unfolding number_event_Inr by (simp_all add: s1 th_size_def)
  have ex: "tb_exec t = butlast (tb_exec s)" using arg_cong [OF t(1), of sk_exec] s1 s2 by simp
  obtain t1 where t1: "tb_push_event t ?q e' = Inr t1" "s3 = t1\<lparr>tb_exec := tb_exec t1 @ [IID ?q (length ?es)]\<rparr>"
    using a t(3) s1 s2 e' by (auto simp: append_event_Inr)
  have th: "tb_threads t ! ?p = ?t\<lparr>th_events := ?es\<rparr>" "length (tb_threads t) = length (tb_threads s)"
    using t(2) s1 s2 p(2) by simp_all
  have t1': "t1 = t\<lparr>tb_threads := (tb_threads t)[?p := th_push_back (?t\<lparr>th_events := ?es\<rparr>) e']\<rparr>"
    using t1(1) th by (simp add: tb_push_event_Inr)
  have "numbered s0" using numbered_pop [OF s0(1) n] .
  hence "numbered t" using t(2) s1 s2 e0 by (simp add: numbered_def)
  hence "numbered t1" using numbered_push [OF t1(1)] th e' by (simp add: th_size_def)
  hence n3: "numbered s3" using t1(2) by (simp add: numbered_def)
  let ?k = "length ?es"
  have sz: "th_size ?t = Suc ?k" using p(3) by (simp add: th_size_def)
  have kt: "kt_of (th_push_back (?t\<lparr>th_events := ?es\<rparr>) e') = kt_of ?t"
    using p(3) by (simp add: kt_of_def th_size_def th_push_back_def)
  have "map kt_of (tb_threads t1) = map kt_of (tb_threads s)"
  proof (rule nth_equalityI)
    fix j assume "j < length (map kt_of (tb_threads t1))"
    thus "map kt_of (tb_threads t1) ! j = map kt_of (tb_threads s) ! j"
      using t1' t(2) s1 s2 kt p(2) by (cases "j = ?p") simp_all
  qed (use t1' th in simp)
  moreover have "skel_of t1 = (skel_of s)\<lparr>sk_exec := butlast (tb_exec s), sk_threads := map kt_of (tb_threads t1)\<rparr>"
    using t1' t(1) s1 s2 by simp
  ultimately have "skel_of s3 = (skel_of s)\<lparr>sk_exec := butlast (tb_exec s) @ [IID ?q ?k]\<rparr>"
    using t1(2) t1' ex by (simp add: skel_of_def)
  moreover have "tb_exec s \<noteq> []" using s0(2) e0 by simp
  ultimately show ?thesis using p(1,2) sz n3 t1' t1(2) t(3) s1 s2 th by (intro exI [of _ ?k]) simp
qed

lemma place_access_step:
  assumes run: "place_access cf s e = Inr s'" and dbg: "vf_dbg cf" and n: "numbered s"
  shows "sk_step (skel_of s) (skel_of s') \<and> numbered s' \<and> tb_current_thread s' = tb_current_thread s \<and>
    (ev_is_global e \<longrightarrow> length (tb_threads s') = length (tb_threads s))"
proof (cases "ev_is_global e")
  case True
  let ?q = "tb_current_thread s" and ?p = "nat (tb_current_thread s)"
  let ?t = "tb_threads s ! ?p"
  let ?i = "IID ?q (th_size ?t)"
  obtain e1 s1 where 1: "number_event s e = Inr (e1, s1)"
    using run True by (auto simp: place_access_def elim!: bind_r_InrE)
  have p: "0 \<le> ?q" "?p < length (tb_threads s)" "ev_iid e1 = ?i" "s1 = s\<lparr>tb_current_event := e1\<rparr>"
    using 1 by (auto simp: number_event_Inr)
  obtain s2 where 2: "tb_push_event s1 (tb_current_thread s1) e1 = Inr s2"
    using run True 1 by (auto simp: place_access_def elim!: bind_r_InrE)
  obtain s3 where 3: "tb_set_thread s2 (tb_current_thread s2) (\<lambda>t. t\<lparr>th_awaiting := True\<rparr>) = Inr s3"
    using run True 1 2 by (auto simp: place_access_def elim!: bind_r_InrE)
  have 4: "\<not> is_enabled s3 (tb_current_thread s3)" "s' = s3\<lparr>tb_enabled := tb_enabled s3 @ [?i]\<rparr>"
    using run True 1 2 3 dbg p(3) by (auto simp: place_access_def assert_d_Inr seq_push_back_def)
  have s2: "s2 = s1\<lparr>tb_threads := (tb_threads s)[?p := th_push_back ?t e1]\<rparr>" using 2 p(4) by (simp add: tb_push_event_Inr)
  have s3: "s3 = s1\<lparr>tb_threads := (tb_threads s)[?p := (th_push_back ?t e1)\<lparr>th_awaiting := True\<rparr>]\<rparr>"
    using 3 s2 p by (simp add: tb_set_thread_Inr)
  have "numbered s1" using n p(4) by (simp add: numbered_def)
  hence "numbered s2" using numbered_push [OF 2] p by simp
  hence "numbered s3" by (rule numbered_set_thread [OF 3]) simp
  hence n': "numbered s'" using 4(2) by (simp add: numbered_def)
  have "skel_of s3 = sk_thread (skel_of s1) ?p (\<lambda>t. t\<lparr>kt_size := Suc (kt_size t), kt_awaiting := True\<rparr>)"
  proof -
    have "s3 = s1\<lparr>tb_threads := (tb_threads s1)[?p := (th_push_back ?t e1)\<lparr>th_awaiting := True\<rparr>]\<rparr>" using s3 p(4) by simp
    thus ?thesis by (simp only:, intro skel_thread_update) (use p in simp_all)
  qed
  hence k3: "skel_of s3 = sk_thread (skel_of s) ?p (\<lambda>t. t\<lparr>kt_size := Suc (kt_size t), kt_awaiting := True\<rparr>)"
    using p(4) by simp
  have en: "tb_enabled s3 = tb_enabled s" "tb_current_thread s3 = ?q" using s3 p(4) by simp_all
  have k': "skel_of s' = (sk_thread (skel_of s) (sk_cur (skel_of s)) (\<lambda>t. t\<lparr>kt_size := Suc (kt_size t), kt_awaiting := True\<rparr>))
      \<lparr>sk_enabled := sk_enabled (skel_of s) @ [?i]\<rparr>"
    unfolding 4(2) skel_of_update k3 en by simp
  have "\<not> sk_is_enabled (skel_of s) (sk_cur (skel_of s))"
    using 4(1) en p(1) by (auto simp: is_enabled_def sk_is_enabled_def list_ex_iff)
  hence "sk_step (skel_of s) (skel_of s')"
    by (intro sk_step.peek [OF _ _ _ k']) (use p in simp_all)
  thus ?thesis using n' s3 4(2) p(4) by simp
next
  case False
  obtain s1 e1 s2 where 1: "drop_placeholder s = Inr s1" "number_event s1 e = Inr (e1, s2)" "append_event s2 e1 = Inr s'"
    using run False by (auto simp: place_access_def elim!: bind_r_InrE)
  obtain k where k: "nat (tb_current_thread s) < length (tb_threads s)" "th_size (tb_threads s ! nat (tb_current_thread s)) = Suc k"
    "tb_exec s \<noteq> []" "numbered s'" "tb_current_thread s' = tb_current_thread s"
    "skel_of s' = (skel_of s)\<lparr>sk_exec := butlast (tb_exec s) @ [IID (int (nat (tb_current_thread s))) k]\<rparr>"
    using placeholder_replaced [OF 1(1,2) refl refl refl 1(3) n] by blast
  have "sk_step (skel_of s) (skel_of s')"
    by (rule sk_step.replace [of _ k _ "[]"]) (use k in \<open>simp_all add: skel_of_def\<close>)
  thus ?thesis using k(4,5) False by simp
qed

lemma numbered_current [simp]: "numbered (s\<lparr>tb_current_event := e\<rparr>) = numbered s"
  by (simp add: numbered_def)

lemma tb_store_step:
  assumes "tb_store cf s ml = Inr s' \<or> tb_atomic_store cf s ml = Inr s'" "vf_dbg cf" "numbered s"
  shows "sk_step (skel_of s) (skel_of s') \<and> numbered s'"
proof -
  obtain e where "place_access cf (s\<lparr>tb_current_event := e\<rparr>) e = Inr s'"
    using assms(1) by (auto simp: tb_store_def tb_atomic_store_def elim!: bind_r_InrE)
  thus ?thesis using place_access_step [of cf "s\<lparr>tb_current_event := e\<rparr>" e s'] assms(2,3) by simp
qed

lemma tb_load_step:
  assumes "tb_load cf s a = Inr s'" "vf_dbg cf" "numbered s"
  shows "sk_step (skel_of s) (skel_of s') \<and> numbered s' \<and> tb_current_thread s' = tb_current_thread s"
proof -
  obtain e where "place_access cf (s\<lparr>tb_current_event := e\<rparr>) e = Inr s'"
    using assms(1) by (auto simp: tb_load_def elim!: bind_r_InrE)
  thus ?thesis using place_access_step [of cf "s\<lparr>tb_current_event := e\<rparr>" e s'] assms(2,3) by simp
qed

lemma tb_join_step:
  assumes "tb_join s tgt = Inr s'" "numbered s"
  shows "sk_step (skel_of s) (skel_of s') \<and> numbered s'"
proof -
  obtain e e1 s1 s2 where 1: "drop_placeholder s = Inr s1" "number_event s1 e = Inr (e1, s2)"
    "append_event (s2\<lparr>tb_join_summary := update_join_summary (tb_join_summary s2) e1\<rparr>) e1 = Inr s'"
    using assms(1) by (auto simp: tb_join_def Let_def elim!: bind_r_InrE)
  obtain k where k: "nat (tb_current_thread s) < length (tb_threads s)" "th_size (tb_threads s ! nat (tb_current_thread s)) = Suc k"
    "tb_exec s \<noteq> []" "numbered s'"
    "skel_of s' = (skel_of s)\<lparr>sk_exec := butlast (tb_exec s) @ [IID (int (nat (tb_current_thread s))) k]\<rparr>"
    using placeholder_replaced [OF 1(1,2) _ _ _ 1(3) assms(2)] by auto
  have "sk_step (skel_of s) (skel_of s')"
    by (rule sk_step.replace [of _ k _ "[]"]) (use k in \<open>simp_all add: skel_of_def\<close>)
  thus ?thesis using k(4) by simp
qed

lemma tb_spawn_step:
  assumes "tb_spawn s = Inr s'" "numbered s"
  shows "sk_step (skel_of s) (skel_of s') \<and> numbered s'"
proof -
  obtain e e1 s1 s2 s3 c cps where 1: "drop_placeholder s = Inr s1" "number_event s1 e = Inr (e1, s2)"
    "append_event (s2\<lparr>tb_spawn_summary := update_spawn_summary (tb_spawn_summary s2) e1\<rparr>) e1 = Inr s3"
    "s' = s3\<lparr>tb_CPS := cps, tb_threads := tb_threads s3 @ [th_make c (- 42)]\<rparr>"
    using assms(1) by (auto simp: tb_spawn_def Let_def elim!: bind_r_InrE)
  obtain k where k: "nat (tb_current_thread s) < length (tb_threads s)" "th_size (tb_threads s ! nat (tb_current_thread s)) = Suc k"
    "tb_exec s \<noteq> []" "numbered s3"
    "skel_of s3 = (skel_of s)\<lparr>sk_exec := butlast (tb_exec s) @ [IID (int (nat (tb_current_thread s))) k]\<rparr>"
    using placeholder_replaced [OF 1(1,2) _ _ _ 1(3) assms(2)] by auto
  have th: "map kt_of (tb_threads s3) = map kt_of (tb_threads s)" using arg_cong [OF k(5), of sk_threads] by simp
  have "sk_step (skel_of s) (skel_of s')"
    by (rule sk_step.replace [of _ k _ "[kt_new]"]) (use k(1-3,5) th 1(4) in simp_all)
  moreover have "numbered s'"
    using k(4) 1(4) unfolding numbered_def by (auto simp: nth_append th_make_def less_Suc_eq)
  ultimately show ?thesis by simp
qed

lemma enable_rmw_step:
  assumes "enable_rmw cf s a = Inr s'" "vf_dbg cf" "numbered s"
  shows "sk_step (skel_of s) (skel_of s') \<and> numbered s'"
proof -
  obtain s1 where 1: "tb_load cf s a = Inr s1" using assms(1) by (auto simp: enable_rmw_def elim!: bind_r_InrE)
  note l = tb_load_step [OF 1 assms(2,3)]
  obtain p i s2 e where 2: "tb_set_event s1 p i (set_rmw s1) = Inr s2" "s' = s2\<lparr>tb_current_event := e\<rparr>"
    using assms(1) 1 by (auto simp: enable_rmw_def elim!: bind_r_InrE)
  have "numbered s2" by (rule numbered_set_event [OF 2(1)]) (use l in \<open>simp_all add: set_rmw_def Let_def\<close>)
  thus ?thesis using l skel_set_event [OF 2(1)] 2(2) by simp
qed

lemma extend_leads_quiet:
  assumes "extend_leads s rd w = Inr s'"
  shows "quiet s s' \<and> 0 \<le> tb_current_state s \<and> nat (tb_current_state s) < length (tb_states s)"
proof -
  obtain st where 1: "tb_state s (tb_current_state s) = Inr st"
    using assms by (auto simp: extend_leads_def elim!: bind_r_InrE)
  obtain k al s1 where 2: "tb_set_state s k (\<lambda>hd. hd\<lparr>st_leads := (st_leads hd)[nat (st_alpha hd) := al]\<rparr>) = Inr s1"
    "\<exists>ei. tb_set_state s1 (tb_current_state s1) (\<lambda>st. st\<lparr>st_ei_leads := ei\<rparr>) = Inr s'"
    using assms 1 unfolding extend_leads_def by (auto elim!: bind_r_InrE)
  have "quiet s s1" by (rule quiet_set_state [OF 2(1)]) simp
  moreover have "quiet s1 s'" using 2(2) quiet_set_state by fastforce
  ultimately show ?thesis using 1 quiet_trans by (auto simp: tb_state_def)
qed

lemma complete_rmw_step:
  assumes run: "complete_rmw cf s ml = Inr s'" and n: "numbered s" and en: "\<not> is_enabled s (tb_current_thread s)"
    and rp: "tb_prefix_idx s \<noteq> tb_replay_point s"
  shows "sk_step (skel_of s) (skel_of s') \<and> numbered s'"
proof -
  let ?q = "tb_current_thread s" and ?p = "nat (tb_current_thread s)"
  let ?t = "tb_threads s ! ?p"
  obtain e0 where e0: "ev_make_write (ev_of_sym (sev_store ml)) = Inr e0" using run unfolding complete_rmw_def by (elim bind_r_InrE)
  have p: "0 \<le> ?q" "?p < length (tb_threads s)" using run e0 unfolding complete_rmw_def by (auto elim!: bind_r_InrE)
  define rd where "rd = th_events ?t ! nat (int (th_size ?t) - 1)"
  define e1 where "e1 = e0\<lparr>ev_iid := IID ?q (th_size ?t), ev_is_rmw := True, ev_rmw_op := ev_rmw_op rd, ev_rmw_value := ev_rmw_value rd\<rparr>"
  define e where "e = (if ev_rmw_op rd = Op_CMPXCHG then e1\<lparr>ev_expected := ev_expected rd\<rparr> else e1)"
  have rest: "bind_r (tb_push_event (s\<lparr>tb_current_event := e\<rparr>) ?q e) (\<lambda>s.
       bind_r (extend_leads s (ev_iid rd) (ev_iid e)) (\<lambda>s.
       bind_r (if \<not> is_replaying s
               then bind_r (update_leads cf s e (tb_forbidden s)) (\<lambda>s.
                      Inr (s\<lparr>tb_exec := seq_push_back (tb_exec s) (ev_iid e),
                             tb_prefix_state := tb_prefix_state s @ [tb_current_state s]\<rparr>))
               else Inr s) (\<lambda>s.
         Inr ((mem_write s e)\<lparr>tb_prefix_idx := tb_prefix_idx s + 1\<rparr>)))) = Inr s'"
    using run e0 unfolding complete_rmw_def e_def e1_def rd_def Let_def by (auto simp: bind_r_Inr_iff [of "nth_r _ _"])
  have iid: "ev_iid e = IID ?q (th_size ?t)" by (simp add: e_def e1_def)
  obtain s1 where 1: "tb_push_event (s\<lparr>tb_current_event := e\<rparr>) ?q e = Inr s1" using rest by (elim bind_r_InrE)
  have t1: "s1 = s\<lparr>tb_current_event := e, tb_threads := (tb_threads s)[?p := th_push_back ?t e]\<rparr>"
    using 1 by (simp add: tb_push_event_Inr)
  have k1: "skel_of s1 = sk_thread (skel_of s) ?p (\<lambda>t. t\<lparr>kt_size := Suc (kt_size t)\<rparr>)"
  proof -
    have "s1 = (s\<lparr>tb_threads := (tb_threads s)[?p := th_push_back ?t e]\<rparr>)\<lparr>tb_current_event := e\<rparr>" using t1 by simp
    hence "skel_of s1 = skel_of (s\<lparr>tb_threads := (tb_threads s)[?p := th_push_back ?t e]\<rparr>)" by (simp only: skel_of_other)
    also have "\<dots> = sk_thread (skel_of s) ?p (\<lambda>t. t\<lparr>kt_size := Suc (kt_size t)\<rparr>)"
      by (rule skel_thread_update) (use p in simp_all)
    finally show ?thesis .
  qed
  have n1: "numbered s1" by (rule numbered_push [OF 1]) (use n iid in simp_all)
  obtain s2 where 2: "extend_leads s1 (ev_iid rd) (ev_iid e) = Inr s2" using rest 1 by (auto elim!: bind_r_InrE)
  note q2 = extend_leads_quiet [OF 2]
  have cs: "0 \<le> tb_current_state s" "nat (tb_current_state s) < length (tb_states s)" using q2 t1 by simp_all
  have k2: "skel_of s2 = skel_of s1" "tb_current_state s2 = tb_current_state s" "numbered s2"
    using q2 t1 n1 numbered_threads [of s2 s1] by (simp_all add: quiet_def)
  have r2: "is_replaying s2 = is_replaying s"
    using arg_cong [OF k2(1), of sk_idx] arg_cong [OF k2(1), of sk_rp] t1 by (simp add: is_replaying_def)
  have f1: "tb_exec s1 = tb_exec s" "tb_prefix_state s1 = tb_prefix_state s" "tb_prefix_idx s1 = tb_prefix_idx s"
    using t1 by simp_all
  have no: "\<not> sk_is_enabled (skel_of s) (sk_cur (skel_of s))"
    using en p(1) by (auto simp: is_enabled_def sk_is_enabled_def list_ex_iff)
  show ?thesis
  proof (cases "is_replaying s")
    case True
    hence s': "s' = (mem_write s2 e)\<lparr>tb_prefix_idx := tb_prefix_idx s2 + 1\<rparr>" using rest 1 2 r2 by simp
    have idx: "tb_prefix_idx s2 = tb_prefix_idx s" using arg_cong [OF k2(1), of sk_idx] f1 by simp
    have k': "skel_of s' = (sk_thread (skel_of s) (sk_cur (skel_of s)) (\<lambda>t. t\<lparr>kt_size := Suc (kt_size t)\<rparr>))
        \<lparr>sk_idx := sk_idx (skel_of s) + 1\<rparr>"
      unfolding s' skel_of_update skel_of_other k2(1) k1 idx by simp
    have "sk_step (skel_of s) (skel_of s')"
      by (rule sk_step.replay_rmw_write [OF _ _ no k']) (use True p in \<open>simp_all add: is_replaying_def\<close>)
    moreover have "numbered s'" using k2(3) s' by (simp add: numbered_def mem_write_def)
    ultimately show ?thesis by simp
  next
    case False
    obtain s3 where 3: "update_leads cf s2 e (tb_forbidden s2) = Inr s3"
      using rest 1 2 r2 False by (auto elim!: bind_r_InrE)
    have s': "s' = (mem_write (s3\<lparr>tb_exec := seq_push_back (tb_exec s3) (ev_iid e),
        tb_prefix_state := tb_prefix_state s3 @ [tb_current_state s3]\<rparr>) e)\<lparr>tb_prefix_idx := tb_prefix_idx s3 + 1\<rparr>"
      using rest 1 2 r2 False 3 by simp
    have q3: "skel_of s3 = skel_of s2" "tb_current_state s3 = tb_current_state s" "tb_threads s3 = tb_threads s2"
      using quiet_update_leads [OF 3] k2 by (simp_all add: quiet_def)
    have k3: "skel_of s3 = sk_thread (skel_of s) ?p (\<lambda>t. t\<lparr>kt_size := Suc (kt_size t)\<rparr>)" using q3(1) k2(1) k1 by simp
    have f3: "tb_exec s3 = tb_exec s" "tb_prefix_state s3 = tb_prefix_state s" "tb_prefix_idx s3 = tb_prefix_idx s"
      using arg_cong [OF k3, of sk_exec] arg_cong [OF k3, of sk_ps] arg_cong [OF k3, of sk_idx] by simp_all
    have k': "skel_of s' = (sk_thread (skel_of s) (sk_cur (skel_of s)) (\<lambda>t. t\<lparr>kt_size := Suc (kt_size t)\<rparr>))
        \<lparr>sk_exec := sk_exec (skel_of s) @ [IID ?q (th_size ?t)], sk_ps := sk_ps (skel_of s) @ [int (nat (tb_current_state s))],
         sk_idx := sk_idx (skel_of s) + 1\<rparr>"
      unfolding s' skel_of_update skel_of_other k3 f3 seq_push_back_def iid q3(2) using cs(1) by simp
    have "sk_step (skel_of s) (skel_of s')"
      by (rule sk_step.rmw_write [OF _ no _ _ _ k']) (use False rp p cs in \<open>simp_all add: is_replaying_def\<close>)
    moreover have "numbered s'" using k2(3) q3(3) s' by (simp add: numbered_def mem_write_def)
    ultimately show ?thesis by simp
  qed
qed

lemma atomic_rmw_step:
  assumes run: "atomic_rmw cf s ml = Inr s'" and g: "read_of s (sd_ref ml) = Inr rd" "ev_is_global rd"
    and dbg: "vf_dbg cf" and n: "numbered s" and en: "\<not> is_enabled s (tb_current_thread s)"
    and rp: "tb_prefix_idx s \<noteq> tb_replay_point s"
  shows "sk_step (skel_of s) (skel_of s') \<and> numbered s'"
proof -
  obtain r where r: "peeked_read s rd = Inr r" using run g by (auto simp: atomic_rmw_def elim!: bind_r_InrE)
  show ?thesis
  proof (cases r)
    case None
    hence "enable_rmw cf s (sd_ref ml) = Inr s'" using run g r by (simp add: atomic_rmw_def)
    thus ?thesis by (rule enable_rmw_step [OF _ dbg n])
  next
    case (Some x)
    hence "complete_rmw cf s ml = Inr s'" using run g r by (simp add: atomic_rmw_def)
    thus ?thesis by (rule complete_rmw_step [OF _ n en rp])
  qed
qed

lemma set_last_value_skel:
  assumes "set_last_value s v = Inr s'" "numbered s"
  shows "skel_of s' = skel_of s \<and> numbered s'"
proof -
  obtain p i where "tb_set_event s p i (\<lambda>e. e\<lparr>ev_value := v\<rparr>) = Inr s'"
    using assms(1) by (auto simp: set_last_value_def elim!: bind_r_InrE)
  thus ?thesis using skel_set_event numbered_set_event [OF _ assms(2)] by fastforce
qed

lemma compare_exchange_step:
  assumes run: "compare_exchange cf s ml ok = Inr s'" and g: "read_of s (sd_ref ml) = Inr rd" "ev_is_global rd"
    and dbg: "vf_dbg cf" and n: "numbered s" and en: "\<not> is_enabled s (tb_current_thread s)"
    and rp: "tb_prefix_idx s \<noteq> tb_replay_point s"
  shows "sk_step (skel_of s) (skel_of s') \<and> numbered s'"
proof -
  obtain r where r: "peeked_read s rd = Inr r" using run g by (auto simp: compare_exchange_def elim!: bind_r_InrE)
  show ?thesis
  proof (cases r)
    case None
    hence "enable_rmw cf s (sd_ref ml) = Inr s'" using run g r by (simp add: compare_exchange_def)
    thus ?thesis by (rule enable_rmw_step [OF _ dbg n])
  next
    case (Some x)
    obtain s1 where s1: "complete_rmw cf s ml = Inr s1"
      using run g r Some by (auto simp: compare_exchange_def Let_def elim!: bind_r_InrE)
    note c = complete_rmw_step [OF s1 n en rp]
    show ?thesis
    proof (cases ok)
      case True
      thus ?thesis using run g r Some s1 c by (simp add: compare_exchange_def Let_def)
    next
      case False
      then obtain s2 lw mm where 2: "set_last_value s1 (ev_value x) = Inr s2" "s' = s2\<lparr>tb_last_write := lw, tb_mem := mm\<rparr>"
        using run g r Some s1 by (auto simp: compare_exchange_def Let_def elim!: bind_r_InrE)
      thus ?thesis using set_last_value_skel [OF 2(1)] c by (simp add: numbered_def)
    qed
  qed
qed

section \<open>Refusal, marks and reset\<close>

lemma refuse_step:
  assumes run: "refuse_schedule s = Inr s'" and n: "numbered s" and en: "\<not> is_enabled s (tb_current_thread s)"
    and rp: "tb_replay_point s < tb_prefix_idx s - 1" and l: "last (tb_prefix_state s) < 0"
  shows "sk_step (skel_of s) (skel_of s') \<and> numbered s'"
proof -
  let ?q = "tb_current_thread s" and ?p = "nat (tb_current_thread s)"
  let ?t = "tb_threads s ! ?p"
  let ?s = "s\<lparr>tb_exec := butlast (tb_exec s), tb_prefix_state := butlast (tb_prefix_state s), tb_prefix_idx := tb_prefix_idx s - 1\<rparr>"
  have ps: "tb_prefix_state s \<noteq> []" using run by (auto simp: refuse_schedule_def elim!: bind_r_InrE)
  obtain s1 where 1: "tb_pop_event ?s ?q = Inr s1" "mark_unavailable s1 (tb_current_thread s1) = Inr s'"
    using run by (auto simp: refuse_schedule_def Let_def elim!: bind_r_InrE)
  have p: "0 \<le> ?q" "?p < length (tb_threads s)" and
    s1: "s1 = ?s\<lparr>tb_threads := (tb_threads s)[?p := ?t\<lparr>th_events := butlast (th_events ?t)\<rparr>]\<rparr>"
    using 1(1) by (simp_all add: tb_pop_event_Inr)
  have s': "s' = ?s\<lparr>tb_threads := (tb_threads ?s)[?p := (?t\<lparr>th_events := butlast (th_events ?t)\<rparr>)\<lparr>th_available := False\<rparr>]\<rparr>"
    using 1(2) s1 p by (simp add: mark_unavailable_def tb_set_thread_Inr)
  have k: "skel_of s' = sk_thread (skel_of ?s) ?p (\<lambda>t. t\<lparr>kt_size := kt_size t - 1, kt_available := False\<rparr>)"
    unfolding s' by (rule skel_thread_update) (use p in \<open>simp_all add: kt_of_def th_size_def\<close>)
  have k': "skel_of s' = (sk_thread (skel_of s) (sk_cur (skel_of s)) (\<lambda>t. t\<lparr>kt_size := kt_size t - 1, kt_available := False\<rparr>))
            \<lparr>sk_exec := butlast (sk_exec (skel_of s)), sk_ps := butlast (sk_ps (skel_of s)), sk_idx := sk_idx (skel_of s) - 1\<rparr>"
    using k by (simp add: sk_thread_def)
  have "\<not> sk_is_enabled (skel_of s) (sk_cur (skel_of s))"
    using en p(1) by (auto simp: is_enabled_def sk_is_enabled_def list_ex_iff)
  hence "sk_step (skel_of s) (skel_of s')"
    by (intro sk_step.refuse [OF _ _ _ _ _ k']) (use rp l ps p in simp_all)
  moreover have "numbered ?s" using n by (simp add: numbered_def)
  hence "numbered s1" using numbered_pop [OF 1(1)] by simp
  hence "numbered s'" using numbered_set_thread [OF 1(2) [unfolded mark_unavailable_def]] by simp
  ultimately show ?thesis by simp
qed

lemma mark_step:
  assumes "mark_available s q = Inr s' \<or> mark_unavailable s q = Inr s'" "numbered s"
  shows "sk_step (skel_of s) (skel_of s') \<and> numbered s'"
proof -
  obtain b where b: "tb_set_thread s q (\<lambda>t. t\<lparr>th_available := b\<rparr>) = Inr s'"
    using assms(1) by (auto simp: mark_available_def mark_unavailable_def)
  hence p: "nat q < length (tb_threads s)"
    and s': "s' = s\<lparr>tb_threads := (tb_threads s)[nat q := (tb_threads s ! nat q)\<lparr>th_available := b\<rparr>]\<rparr>"
    by (simp_all add: tb_set_thread_Inr)
  have "skel_of s' = sk_thread (skel_of s) (nat q) (\<lambda>t. t\<lparr>kt_available := b\<rparr>)"
    unfolding s' by (rule skel_thread_update) (use p in simp_all)
  hence "sk_step (skel_of s) (skel_of s')" by (intro sk_step.mark [of "nat q"]) (use p in simp_all)
  thus ?thesis using numbered_set_thread [OF b assms(2)] by simp
qed

lemma metadata_step:
  assumes "tb_metadata s md = Inr s'" "numbered s"
  shows "skel_of s' = skel_of s \<and> numbered s'"
proof -
  obtain p i s1 where "tb_set_event s p i (\<lambda>e. e\<lparr>ev_md := md\<rparr>) = Inr s1" "s' = s1\<lparr>tb_last_md := md\<rparr>"
    using assms(1) by (auto simp: tb_metadata_def elim!: bind_r_InrE)
  thus ?thesis using skel_set_event [of s p i _ s1] numbered_set_event [of s p i _ s1] assms(2) by (simp add: numbered_def)
qed

lemma add_EW_leads_frame:
  assumes "add_EW_leads cf s k = Inr s'"
  shows "analysis_frame s s'"
proof (cases "map_of (tb_EW_leads s) k")
  case None
  thus ?thesis using assms frame_rules(1) by (simp add: add_EW_leads_def)
next
  case (Some m)
  let ?inner = "\<lambda>rd s (v, ls). bind_r (consistent_union cf s k ls) (\<lambda>s. forbid_value_for_ei_leads s k rd v)"
  obtain s1 where 1: "fold_r (\<lambda>s (rd, vm). fold_r (?inner rd) s vm) s m = Inr s1"
    "s' = s1\<lparr>tb_EW_leads := AList.delete k (tb_EW_leads s1)\<rparr>"
    using assms Some by (auto simp: add_EW_leads_def elim!: bind_r_InrE)
  have one: "analysis_frame a b" if run: "?inner rd a (v, ls) = Inr b" for rd a v ls b
  proof -
    obtain t where "consistent_union cf a k ls = Inr t" "forbid_value_for_ei_leads t k rd v = Inr b"
      using run by (auto elim!: bind_r_InrE)
    thus ?thesis
      using analysis_frame_trans [OF union_frame_analysis [OF consistent_union_frame] forbid_value_frame] by blast
  qed
  have inner: "analysis_frame a b" if "fold_r (?inner rd) a vm = Inr b" for rd a vm b
  proof (rule fold_r_rel [OF that])
    fix a x b assume "?inner rd a x = Inr b"
    thus "analysis_frame a b" using one [where rd = rd and a = a and v = "fst x" and ls = "snd x" and b = b] by simp
  qed (use analysis_frame_refl analysis_frame_trans in blast)+
  have "analysis_frame s s1"
    by (rule fold_r_rel [OF 1(1)]) (use analysis_frame_refl analysis_frame_trans inner in \<open>auto split: prod.splits\<close>)
  thus ?thesis using 1(2) frame_rules(3) analysis_frame_trans by blast
qed

lemma finish_up_frame:
  "finish_up_lead cf s k = Inr s' \<Longrightarrow> analysis_frame s s'"
  "finish_up_state cf s k = Inr s' \<Longrightarrow> analysis_frame s s'"
proof -
  assume "finish_up_lead cf s k = Inr s'"
  then obtain t c where "add_EW_leads cf s k = Inr t" "s' = t\<lparr>tb_covered := c\<rparr>"
    by (auto simp: finish_up_lead_def elim!: bind_r_InrE)
  thus "analysis_frame s s'" using add_EW_leads_frame frame_rules(2) analysis_frame_trans by blast
next
  assume "finish_up_state cf s k = Inr s'"
  then obtain L where "fold_r (\<lambda>s (i, ls). consistent_union cf s i ls) s L = Inr s'"
    by (auto simp: finish_up_state_def elim!: bind_r_InrE)
  thus "analysis_frame s s'"
    by (rule fold_r_rel)
      (use analysis_frame_refl analysis_frame_trans union_frame_analysis consistent_union_frame in \<open>auto split: prod.splits\<close>)
qed

lemma find_replay_frame:
  "find_replay_from cf s n = Inr (k, s') \<Longrightarrow> analysis_frame s s'"
proof (induction n arbitrary: s)
  case 0
  thus ?case using frame_rules(1) by simp
next
  case (Suc n)
  obtain s1 where 1: "finish_up_lead cf s (int n) = Inr s1" using Suc.prems by (auto elim!: bind_r_InrE)
  obtain st where st: "tb_state s1 (int n) = Inr st" using Suc.prems 1 by (auto elim!: bind_r_InrE)
  show ?case
  proof (cases "st_has_unexplored_leads st")
    case True
    thus ?thesis using Suc.prems 1 st finish_up_frame(1) [OF 1] by simp
  next
    case False
    obtain s2 where "finish_up_state cf s1 (int n) = Inr s2" "find_replay_from cf s2 n = Inr (k, s')"
      using Suc.prems 1 st False by (auto elim!: bind_r_InrE)
    thus ?thesis using finish_up_frame(1) [OF 1] finish_up_frame(2) Suc.IH analysis_frame_trans by blast
  qed
qed

lemma reset_step:
  assumes run: "reset cf s = Inr (b, s')" and en: "tb_enabled s = []" and n: "numbered s"
  shows "(b \<longrightarrow> sk_step (skel_of s) (skel_of s')) \<and> numbered s'"
proof -
  obtain s1 where 1: "(if tb_check_optimality s then record_redundant s else Inr s) = Inr s1"
    using run by (auto simp: reset_def elim!: bind_r_InrE)
  have q1: "skel_of s1 = skel_of s \<and> tb_threads s1 = tb_threads s"
    using 1 by (auto simp: record_redundant_def Let_def split: if_splits elim!: bind_r_InrE)
  obtain k s2 where 2: "find_replay_state_prefix cf s1 = Inr (k, s2)"
    using run 1 by (auto simp: reset_def elim!: bind_r_InrE)
  have k2: "skel_of s2 = skel_of s" "tb_threads s2 = tb_threads s"
    using skel_analysis [OF find_replay_frame] 2 q1 unfolding find_replay_state_prefix_def by metis+
  show ?thesis
  proof (cases "k < 0")
    case True
    thus ?thesis using run 1 2 k2 n numbered_threads [of s2 s] by (auto simp: reset_def numbered_def)
  next
    case False
    obtain st where st: "tb_state s2 k = Inr st" using run 1 2 False by (auto simp: reset_def elim!: bind_r_InrE)
    have rw: "rewind s2 k st = Inr s'" "b" using run 1 2 False st by (auto simp: reset_def elim!: bind_r_InrE)
    have c: "nat k < length (tb_states s2)" "st_prefix st = map st_prefix (tb_states s) ! nat k"
      using st arg_cong [OF k2(1), of sk_states] by (auto simp: tb_state_def) (metis nth_map)
    have len: "length (tb_states s2) = length (tb_states s)"
      using arg_cong [OF k2(1), of "\<lambda>k. length (sk_states k)"] by simp
    let ?p = "st_prefix st"
    have s': "s' = s2\<lparr>tb_exec := take (nat (?p + 1)) (tb_exec s2), tb_prefix_state := take (nat (?p + 1)) (tb_prefix_state s2),
                  tb_states := take (nat (k + 1)) (tb_states s2), tb_to_explore := [],
                  tb_threads := [th_make pid_init (- 1)], tb_mem := [], tb_last_write := [],
                  tb_forbidden := st_forbidden st, tb_prefix_idx := 0, tb_replay_point := ?p, tb_last_md := None\<rparr>"
      using rw(1) by (simp add: rewind_def Let_def split: if_splits)
    have f: "tb_exec s2 = tb_exec s" "tb_prefix_state s2 = tb_prefix_state s" "map st_prefix (tb_states s2) = map st_prefix (tb_states s)"
      using arg_cong [OF k2(1), of sk_exec] arg_cong [OF k2(1), of sk_ps] arg_cong [OF k2(1), of sk_states] by simp_all
    have "nat (k + 1) = Suc (nat k)" using False by simp
    hence k': "skel_of s' = (skel_of s)\<lparr>sk_exec := take (nat (sk_states (skel_of s) ! nat k + 1)) (sk_exec (skel_of s)),
           sk_ps := take (nat (sk_states (skel_of s) ! nat k + 1)) (sk_ps (skel_of s)),
           sk_states := take (Suc (nat k)) (sk_states (skel_of s)), sk_threads := [kt_new], sk_idx := 0,
           sk_rp := sk_states (skel_of s) ! nat k\<rparr>"
      unfolding s' skel_of_update skel_of_other k2(1) f skel_of_simps c(2) [symmetric] by (simp add: f take_map [symmetric])
    have "sk_step (skel_of s) (skel_of s')"
      by (rule sk_step.rewind [OF _ _ k']) (use en c(1) len in simp_all)
    moreover have "numbered s'" unfolding s' by (simp add: numbered_def th_make_def)
    ultimately show ?thesis by simp
  qed
qed

end
