(* ===== verification/ViewReach.thy ===== *)
theory ViewReach
  imports Prelude ViewRefine
begin

text \<open>
  The states of the builder that an exploration reaches, as a transition system over the calls of the
  interpreter, and what holds in all of them. Two calls are restricted to what the interpreter does: it
  refuses only the event that was just scheduled for the running thread, and it runs a
  read-modify-write of a thread that is not waiting, on a shared object; an execution is reset when no
  event is enabled. With a configuration in which assertions are checked, the calls that succeed are
  those that violate none.
\<close>

section \<open>The transition system\<close>

inductive tb_step :: "vconf \<Rightarrow> tbuilder \<Rightarrow> tbuilder \<Rightarrow> bool" for cf where
  sched: "schedule cf s = Inr (q, s') \<Longrightarrow> tb_step cf s s'"
| refuse: "refuse_schedule s = Inr s' \<Longrightarrow> \<not> is_enabled s (tb_current_thread s) \<Longrightarrow>
    tb_replay_point s < tb_prefix_idx s - 1 \<Longrightarrow> last (tb_prefix_state s) < 0 \<Longrightarrow> tb_step cf s s'"
| available: "mark_available s p = Inr s' \<Longrightarrow> tb_step cf s s'"
| unavailable: "mark_unavailable s p = Inr s' \<Longrightarrow> tb_step cf s s'"
| metadata: "tb_metadata s md = Inr s' \<Longrightarrow> tb_step cf s s'"
| spawn: "tb_spawn s = Inr s' \<Longrightarrow> tb_step cf s s'"
| join: "tb_join s p = Inr s' \<Longrightarrow> tb_step cf s s'"
| store: "tb_store cf s ml = Inr s' \<Longrightarrow> tb_step cf s s'"
| atomic_store: "tb_atomic_store cf s ml = Inr s' \<Longrightarrow> tb_step cf s s'"
| load: "tb_load cf s a = Inr s' \<Longrightarrow> tb_step cf s s'"
| rmw: "atomic_rmw cf s ml = Inr s' \<Longrightarrow> read_of s (sd_ref ml) = Inr rd \<Longrightarrow> ev_is_global rd \<Longrightarrow>
    \<not> is_enabled s (tb_current_thread s) \<Longrightarrow> tb_prefix_idx s \<noteq> tb_replay_point s \<Longrightarrow> tb_step cf s s'"
| cmpxchg: "compare_exchange cf s ml b = Inr s' \<Longrightarrow> read_of s (sd_ref ml) = Inr rd \<Longrightarrow> ev_is_global rd \<Longrightarrow>
    \<not> is_enabled s (tb_current_thread s) \<Longrightarrow> tb_prefix_idx s \<noteq> tb_replay_point s \<Longrightarrow> tb_step cf s s'"
| set_rmw: "s' = set_rmw_operation s op v \<Longrightarrow> tb_step cf s s'"
| set_cmpxchg: "set_cmpxchg_operation cf s op v w = Inr s' \<Longrightarrow> tb_step cf s s'"
| reset: "ViewOps.reset cf s = Inr (True, s') \<Longrightarrow> tb_enabled s = [] \<Longrightarrow> tb_step cf s s'"

definition no_asserts :: "vconf \<Rightarrow> vconf" where
  "no_asserts cf = cf\<lparr>vf_dbg := False\<rparr>"

inductive tb_reach :: "vconf \<Rightarrow> tbuilder \<Rightarrow> bool" for cf where
  init: "tb_init (no_asserts cf) opt = Inr s \<Longrightarrow> tb_reach cf s"
| step: "tb_reach cf s \<Longrightarrow> tb_step cf s s' \<Longrightarrow> tb_reach cf s'"

inductive_cases tb_step_cases: "tb_step cf s s'"

lemma tb_init_skel:
  assumes "tb_init (no_asserts cf) opt = Inr s"
  shows "skel_of s = sk_init" "numbered s"
  using assms by (auto simp: tb_init_def no_asserts_def assert_d_def skel_of_def sk_init_def numbered_def th_make_def
      kt_of_def th_size_def kt_new_def)

lemma tb_step_skel:
  assumes "tb_step cf s s'" "vf_dbg cf" "numbered s"
  shows "sk_step (skel_of s) (skel_of s') \<and> numbered s'"
  using assms(1)
proof cases
  case (sched q)
  thus ?thesis using schedule_step assms(2,3) by blast
next
  case refuse
  thus ?thesis using refuse_step assms(3) by blast
next
  case (available p)
  thus ?thesis using mark_step assms(3) by blast
next
  case (unavailable p)
  thus ?thesis using mark_step assms(3) by blast
next
  case (metadata md)
  thus ?thesis using metadata_step [OF _ assms(3)] sk_step.stay by metis
next
  case spawn
  thus ?thesis using tb_spawn_step assms(3) by blast
next
  case (join p)
  thus ?thesis using tb_join_step assms(3) by blast
next
  case (store ml)
  thus ?thesis using tb_store_step assms(2,3) by blast
next
  case (atomic_store ml)
  thus ?thesis using tb_store_step assms(2,3) by blast
next
  case (load a)
  thus ?thesis using tb_load_step assms(2,3) by blast
next
  case (rmw ml rd)
  thus ?thesis using atomic_rmw_step assms(2,3) by blast
next
  case (cmpxchg ml b rd)
  thus ?thesis using compare_exchange_step assms(2,3) by blast
next
  case (set_rmw op v)
  thus ?thesis using assms(3) sk_step.stay by (simp add: set_rmw_operation_def numbered_def)
next
  case (set_cmpxchg op v w)
  hence "s' = s\<lparr>tb_rmw := (op, w), tb_expected := v\<rparr>" by (simp add: set_cmpxchg_operation_def assert_d_Inr)
  thus ?thesis using assms(3) sk_step.stay by (simp add: numbered_def)
next
  case reset
  thus ?thesis using reset_step assms(3) by blast
qed

lemma tb_reach_skel:
  assumes "tb_reach cf s" "vf_dbg cf"
  shows "sk_reach (skel_of s) \<and> numbered s"
  using assms(1)
proof (induction rule: tb_reach.induct)
  case (init opt s)
  thus ?case using tb_init_skel sk_reach.init by simp
next
  case (step s s')
  thus ?case using tb_step_skel [OF step.hyps(2) assms(2)] sk_reach.step by blast
qed

lemma exploration_invariant_part:
  assumes "tb_reach cf s" "vf_dbg cf"
  shows "\<forall>p<length (tb_threads s). th_awaiting (tb_threads s ! p) \<longrightarrow> is_enabled s (int p)"
  using tb_reach_skel [OF assms] sk_reach_ok [of "skel_of s"]
  by (auto simp: sk_ok_def enabled_ok_def sk_is_enabled_def is_enabled_def list_ex_iff)

section \<open>Properties\<close>


definition ex_dbg :: vconf where
  "ex_dbg = ex_conf\<lparr>vf_dbg := True\<rparr>"

definition ex_run :: "tbuilder result" where
  "ex_run = bind_r (tb_init ex_conf False) (\<lambda>s. bind_r (schedule ex_dbg s) (\<lambda>(q, s). tb_spawn s))"

lemma ex_run_reach: "\<exists>s. ex_run = Inr s \<and> tb_reach ex_dbg s"
proof -
  have "case ex_run of Inr s \<Rightarrow> True | Inl _ \<Rightarrow> False" by code_simp
  then obtain s where s: "ex_run = Inr s" by (auto split: sum.splits)
  then obtain s0 q s1 where r: "tb_init ex_conf False = Inr s0" "schedule ex_dbg s0 = Inr (q, s1)" "tb_spawn s1 = Inr s"
    by (auto simp: ex_run_def elim!: bind_r_InrE)
  have "no_asserts ex_dbg = ex_conf" by (simp add: no_asserts_def ex_dbg_def ex_conf_def)
  hence "tb_reach ex_dbg s0" using r(1) tb_reach.init by metis
  hence "tb_reach ex_dbg s1" using tb_step.sched [OF r(2)] by (rule tb_reach.step)
  hence "tb_reach ex_dbg s" using tb_step.spawn [OF r(3)] by (rule tb_reach.step)
  thus ?thesis using s by blast
qed




text \<open>A new state always gets an unexplored lead, so that the answer \<open>false\<close> behind the assertion at the end of
  \<open>schedule\<close> is never given, also where assertions are not compiled in.\<close>

lemma lead_of_seq_new:
  "lead_of_seq c [i] f m = Inr l \<Longrightarrow> \<not> ld_done l \<and> ld_merged l \<noteq> []"
  by (auto simp: lead_of_seq_def lead_add_pending_def lead_empty_def to_event_sequence_def tes_step_def Let_def split: if_splits)

lemma lead_of_events_new:
  "lead_of_events c es f = Inr l \<Longrightarrow> es \<noteq> [] \<Longrightarrow> \<not> ld_done l \<and> ld_merged l \<noteq> []"
  by (auto simp: lead_of_events_def lead_add_pending_def lead_empty_def)

lemma union_lead_unexplored:
  assumes "consistent_union_lead cf s k l = Inr s'" "fresh_at k s" "tb_state s k = Inr st" "\<not> st_has_unexplored_leads st"
    "\<not> ld_done l \<and> ld_merged l \<noteq> []"
  shows "\<exists>st'. tb_state s' k = Inr st' \<and> st_has_unexplored_leads st'"
proof -
  have "st_leads st = []"
    using assms(2-4) by (cases "st_leads st") (auto simp: fresh_at_def st_has_unexplored_leads_def)
  moreover from this have "\<not> forwarded s st l fs" for fs by (simp add: forwarded_def st_alpha_lead_def)
  moreover have "accounted (vf_fuel cf) cf s k [l] l s'"
    using consistent_union_n_accounts [of "vf_fuel cf" cf s k "[l]" s' l] assms(1,5)
    by (simp add: consistent_union_lead_def consistent_union_def)
  ultimately have "\<exists>st' l'. tb_state s' k = Inr st' \<and> l' \<in> set (st_leads st') \<and> pending_as l l'"
    using assms(3,5) by (cases "vf_fuel cf") auto
  thus ?thesis by (auto simp: pending_as_def st_has_unexplored_leads_def list_ex_iff)
qed

lemma analysis_frame_current: "analysis_frame s s' \<Longrightarrow> tb_current_state s' = tb_current_state s"
  by (auto simp: analysis_frame_def)

lemma union_lead_current: "consistent_union_lead cf s k l = Inr s' \<Longrightarrow> tb_current_state s' = tb_current_state s"
  unfolding consistent_union_lead_def
  using analysis_frame_current [OF union_frame_analysis [OF consistent_union_frame]] by blast

lemma tb_set_state_current: "tb_set_state s k g = Inr s' \<Longrightarrow> tb_current_state s' = tb_current_state s"
  by (auto simp: tb_set_state_def elim!: bind_r_InrE)

lemma compute_new_leads_unexplored:
  assumes run: "compute_new_leads cf (make_new_state s) = Inr s'" and st': "tb_state s' (tb_current_state s') = Inr st'"
  shows "st_has_unexplored_leads st'"
proof -
  let ?s = "make_new_state s" and ?c = "int (length (tb_states s))"
  have new: "tb_current_state ?s = ?c" "tb_state ?s ?c = Inr ((st_make (tb_prefix_idx s))\<lparr>st_forbidden := tb_forbidden s, st_mem := tb_mem s\<rparr>)"
    by (simp_all add: make_new_state_def tb_state_def nth_r_def)
  hence fr: "fresh_at ?c ?s" by (simp add: fresh_at_def st_make_def)
  have "\<exists>t st. tb_state t ?c = Inr st \<and> st_has_unexplored_leads st \<and> tb_current_state s' = ?c \<and>
      (\<exists>st'. tb_state s' ?c = Inr st' \<and> st_leads st' = st_leads st)"
  proof (cases "tb_to_explore ?s = []")
    case True
    obtain r s1 where s1: "(case enabaled_RWpair_read ?s of
             Some r \<Rightarrow> bind_r (analyse_unexplored_influenecers cf ?s r) (\<lambda>s.
                         bind_r (tb_set_state s (tb_current_state s) (\<lambda>st. st\<lparr>st_fwd := True, st_fwd_read := r\<rparr>)) (\<lambda>s.
                           Inr (r, s)))
           | None \<Rightarrow> bind_r (seq_head (tb_enabled ?s)) (\<lambda>r. Inr (r, ?s))) = Inr (r, s1)"
      and rest: "bind_r (update_leads cf s1 (tb_event s1 r) (tb_forbidden s1)) (\<lambda>s.
           bind_r (tb_state s (tb_current_state s)) (\<lambda>st.
           bind_r (if \<not> st_has_unexplored_leads st
                   then bind_r (lead_of_seq (tb_ctx s) [r] (tb_forbidden s) (tb_mem s)) (\<lambda>l.
                          consistent_union_lead cf s (tb_current_state s) l)
                   else Inr s) (\<lambda>s.
           bind_r (tb_set_state s (tb_current_state s) (\<lambda>st. st\<lparr>st_lead_head := tb_prefix_idx s\<rparr>)) (\<lambda>s.
             Inr (s\<lparr>tb_alpha_head := tb_prefix_idx s\<rparr>))))) = Inr s'"
      using run True unfolding compute_new_leads_def by (auto elim!: bind_r_InrE)
    have f1: "fresh_at ?c s1 \<and> tb_current_state s1 = ?c"
    proof (cases "enabaled_RWpair_read ?s")
      case None
      thus ?thesis using s1 fr new(1) by (auto elim!: bind_r_InrE)
    next
      case (Some rd)
      then obtain t where t: "analyse_unexplored_influenecers cf ?s rd = Inr t"
        "tb_set_state t (tb_current_state t) (\<lambda>st. st\<lparr>st_fwd := True, st_fwd_read := rd\<rparr>) = Inr s1"
        using s1 by (auto elim!: bind_r_InrE)
      have "fresh_at ?c t" by (rule analyse_ui_fresh [OF t(1) fr])
      hence "fresh_at ?c s1" by (rule fresh_at_set [OF t(2)]) simp
      thus ?thesis using tb_set_state_current [OF t(2)] analysis_frame_current [OF analyse_ui_frame [OF t(1)]] new(1) by simp
    qed
    obtain s2 st2 s3 where s2: "update_leads cf s1 (tb_event s1 r) (tb_forbidden s1) = Inr s2"
      "tb_state s2 (tb_current_state s2) = Inr st2"
      "(if \<not> st_has_unexplored_leads st2
                   then bind_r (lead_of_seq (tb_ctx s2) [r] (tb_forbidden s2) (tb_mem s2)) (\<lambda>l.
                          consistent_union_lead cf s2 (tb_current_state s2) l)
                   else Inr s2) = Inr s3"
      "bind_r (tb_set_state s3 (tb_current_state s3) (\<lambda>st. st\<lparr>st_lead_head := tb_prefix_idx s3\<rparr>)) (\<lambda>s.
             Inr (s\<lparr>tb_alpha_head := tb_prefix_idx s\<rparr>)) = Inr s'"
      using rest by (auto elim!: bind_r_InrE)
    have f2: "fresh_at ?c s2" "tb_current_state s2 = ?c"
      using update_leads_fresh [OF s2(1)] f1 analysis_frame_current [OF update_leads_frame [OF s2(1)]] by auto
    have f3: "tb_current_state s3 = ?c \<and> (\<exists>st3. tb_state s3 ?c = Inr st3 \<and> st_has_unexplored_leads st3)"
    proof (cases "st_has_unexplored_leads st2")
      case True
      thus ?thesis using s2(2,3) f2(2) by auto
    next
      case False
      then obtain l where l: "lead_of_seq (tb_ctx s2) [r] (tb_forbidden s2) (tb_mem s2) = Inr l"
        "consistent_union_lead cf s2 ?c l = Inr s3" using s2(3) f2(2) by (auto elim!: bind_r_InrE)
      show ?thesis
        using union_lead_unexplored [OF l(2) f2(1) _ False lead_of_seq_new [OF l(1)]] s2(2) f2(2) union_lead_current [OF l(2)]
        by simp
    qed
    obtain s4 where s4: "tb_set_state s3 ?c (\<lambda>st. st\<lparr>st_lead_head := tb_prefix_idx s3\<rparr>) = Inr s4"
      "s' = s4\<lparr>tb_alpha_head := tb_prefix_idx s4\<rparr>"
      using s2(4) f3 by (auto elim!: bind_r_InrE)
    obtain st3 where st3: "tb_state s3 ?c = Inr st3" "st_has_unexplored_leads st3" using f3 by blast
    have "tb_state s' ?c = Inr (st3\<lparr>st_lead_head := tb_prefix_idx s3\<rparr>)"
      using tb_set_state_state [OF s4(1) st3(1)] s4(2) by (simp add: tb_state_def)
    moreover have "tb_current_state s' = ?c" using tb_set_state_current [OF s4(1)] f3 s4(2) by simp
    ultimately show ?thesis using st3 by fastforce
  next
    case False
    obtain s1 l s2 te where s: "tb_set_state ?s ?c (\<lambda>st. st\<lparr>st_executing_alpha := True, st_lead_head := tb_alpha_head ?s\<rparr>) = Inr s1"
      "lead_of_events (tb_ctx s1) (tb_to_explore s1) (tb_forbidden s1) = Inr l"
      "consistent_union_lead cf s1 (tb_current_state s1) l = Inr s2" "s' = s2\<lparr>tb_to_explore := te\<rparr>"
      using run False new(1) unfolding compute_new_leads_def by (auto elim!: bind_r_InrE)
    have c: "tb_current_state s1 = ?c" using tb_set_state_current [OF s(1)] new(1) by simp
    have f1: "fresh_at ?c s1" by (rule fresh_at_set [OF s(1) fr]) simp
    have te: "tb_to_explore s1 \<noteq> []" using False s(1) by (auto simp: tb_set_state_def elim!: bind_r_InrE)
    note st1 = tb_set_state_state [OF s(1) new(2)]
    obtain st2 where st2: "tb_state s2 ?c = Inr st2" "st_has_unexplored_leads st2"
      using union_lead_unexplored [OF s(3) _ _ _ lead_of_events_new [OF s(2) te]] f1 c st1
      by (auto simp: st_has_unexplored_leads_def st_make_def)
    have "tb_state s' ?c = Inr st2" "tb_current_state s' = ?c"
      using st2(1) s(4) union_lead_current [OF s(3)] c by (simp_all add: tb_state_def)
    thus ?thesis using st2 by blast
  qed
  then obtain st1 st2 where "st_has_unexplored_leads st1" "tb_current_state s' = ?c" "tb_state s' ?c = Inr st2" "st_leads st2 = st_leads st1"
    by blast
  thus ?thesis using st' by (simp add: st_has_unexplored_leads_def)
qed

lemma schedule_None_enabled:
  assumes "schedule cf s = Inr (None, s')"
  shows "s' = s \<and> tb_enabled s = [] \<and> \<not> is_replaying s \<and> \<not> at_replay_point s \<and>
    free_thread (tb_threads s) (length (tb_threads s)) = None"
proof -
  have nr: "\<not> is_replaying s" "\<not> at_replay_point s"
    using assms by (auto simp: schedule_def assert_d_Inr split: if_splits elim!: bind_r_InrE)
  obtain p s1 where p: "exists_non_memory_access s = Inr (p, s1)"
    using assms nr by (auto simp: schedule_def assert_d_Inr elim!: bind_r_InrE)
  have pn: "p = None" using assms nr p by (cases p) (auto simp: schedule_def assert_d_Inr)
  hence f: "free_thread (tb_threads s) (length (tb_threads s)) = None" "s1 = s"
    using p by (auto simp: exists_non_memory_access_def Let_def split: option.splits elim!: bind_r_InrE)
  have "tb_enabled s = []"
  proof (rule ccontr)
    assume "tb_enabled s \<noteq> []"
    then obtain s2 st where "compute_new_leads cf (make_new_state s) = Inr s2" "tb_state s2 (tb_current_state s2) = Inr st"
      "\<not> st_has_unexplored_leads st"
      using assms nr p pn f by (auto simp: schedule_def assert_d_Inr elim!: bind_r_InrE split: if_splits)
    thus False using compute_new_leads_unexplored by blast
  qed
  thus ?thesis using assms nr p pn f by (auto simp: schedule_def assert_d_Inr)
qed


definition ex_stop :: "tbuilder result" where
  "ex_stop = bind_r (tb_init ex_conf False) (\<lambda>s. bind_r (schedule ex_dbg s) (\<lambda>(q, s). mark_unavailable s 0))"




section \<open>What the code gets wrong\<close>

text \<open>an atomic read-modify-write of an object that is not shared puts two events into the execution but no
  entry into \<open>prefix_state\<close>, and the assertion at the start of the next \<open>schedule\<close> fails.\<close>

theorem local_rmw_breaks_prefix_state:
  assumes "place_local_rmw s rd ml = Inr s'" "length (tb_exec s) = length (tb_prefix_state s)" "vf_dbg cf"
  shows "length (tb_exec s') = Suc (length (tb_prefix_state s')) \<and> schedule cf s' = Inl Assert_failed"
proof -
  obtain s1 where 1: "drop_placeholder s = Inr s1" using assms(1) by (auto simp: place_local_rmw_def elim!: bind_r_InrE)
  obtain e s2 where 2: "append_event s1 e = Inr s2" "\<exists>e'. append_event s2 e' = Inr s'"
    using assms(1) 1 by (auto simp: place_local_rmw_def elim!: bind_r_InrE)
  have l1: "length (tb_exec s1) = length (tb_exec s) - 1" "tb_exec s \<noteq> []" "tb_prefix_state s1 = tb_prefix_state s"
    using 1 by (auto simp: drop_placeholder_Inr tb_pop_event_Inr)
  have app: "length (tb_exec b) = Suc (length (tb_exec a)) \<and> tb_prefix_state b = tb_prefix_state a"
    if "append_event a x = Inr b" for a b x
    using that by (auto simp: append_event_Inr tb_push_event_Inr)
  obtain e' where e': "append_event s2 e' = Inr s'" using 2(2) by blast
  have "length (tb_exec s') = Suc (length (tb_prefix_state s'))"
    using app [OF 2(1)] app [OF e'] l1 assms(2) by (cases "tb_exec s") simp_all
  thus ?thesis using assms(3) by (simp add: schedule_def assert_d_def)
qed

definition ex_local :: sym_data where
  "ex_local = \<lparr>sd_ref = \<lparr>sas_addr = \<lparr>sa_block = \<lparr>mb_pid = 0, mb_alloc = 0\<rparr>, sa_offset = 0\<rparr>, sas_size = 1\<rparr>, sd_block = Some [1]\<rparr>"

theorem local_rmw_breaks_prefix_state_witness:
  "\<exists>s s'. ex_run = Inr s \<and> atomic_rmw ex_dbg s ex_local = Inr s' \<and> schedule ex_dbg s' = Inl Assert_failed"
proof -
  have "case ex_run of Inr s \<Rightarrow> (case read_of s (sd_ref ex_local) of Inr rd \<Rightarrow> \<not> ev_is_global rd \<and>
        (case place_local_rmw s rd ex_local of Inr s' \<Rightarrow> length (tb_exec s) = length (tb_prefix_state s) | Inl _ \<Rightarrow> False)
      | Inl _ \<Rightarrow> False) | Inl _ \<Rightarrow> False" by code_simp
  then obtain s rd s' where s: "ex_run = Inr s" "read_of s (sd_ref ex_local) = Inr rd" "\<not> ev_is_global rd"
    "place_local_rmw s rd ex_local = Inr s'" "length (tb_exec s) = length (tb_prefix_state s)"
    by (auto split: sum.splits)
  have "vf_dbg ex_dbg" by (simp add: ex_dbg_def)
  from local_rmw_breaks_prefix_state [OF s(4,5) this]
  have "schedule ex_dbg s' = Inl Assert_failed" by blast
  moreover have "atomic_rmw ex_dbg s ex_local = Inr s'" using s by (simp add: atomic_rmw_def)
  ultimately show ?thesis using s(1) by blast
qed

text \<open>a read-modify-write that follows a plain load of the same object is taken for the second half of one:
  the search for the peeked read compares only the symbolic event, so the write is completed at once
  with the operation recorded in the load, which has none.\<close>

theorem atomic_rmw_takes_plain_load:
  assumes "read_of s (sd_ref ml) = Inr rd" "ev_is_global rd" "0 \<le> tb_current_thread s"
    "nat (tb_current_thread s) < length (tb_threads s)" "th_events (tb_threads s ! nat (tb_current_thread s)) = es @ [e]"
    "sev_eq (ev_sym_event rd) (ev_sym_event e)"
  shows "atomic_rmw cf s ml = complete_rmw cf s ml"
  using assms by (simp add: atomic_rmw_def peeked_read_def th_size_def nth_r_def)

theorem atomic_rmw_takes_plain_load_witness:
  "\<exists>ml e. \<not> ev_is_rmw e \<and>
     atomic_rmw ex_conf (ex_builder\<lparr>tb_current_thread := 1\<rparr>) ml = complete_rmw ex_conf (ex_builder\<lparr>tb_current_thread := 1\<rparr>) ml \<and>
     th_events (tb_threads ex_builder ! 1) = [e]"
proof -
  let ?s = "ex_builder\<lparr>tb_current_thread := 1\<rparr>" and ?ml = "\<lparr>sd_ref = ex_addr, sd_block = Some [1]\<rparr>"
  let ?e = "ex_access T_READ 1 0 0"
  have "case read_of ?s ex_addr of Inr rd \<Rightarrow> ev_is_global rd \<and> sev_eq (ev_sym_event rd) (ev_sym_event ?e) | Inl _ \<Rightarrow> False"
    by code_simp
  then obtain rd where rd: "read_of ?s (sd_ref ?ml) = Inr rd" "ev_is_global rd" "sev_eq (ev_sym_event rd) (ev_sym_event ?e)"
    by (auto split: sum.splits)
  have th: "th_events (tb_threads ?s ! nat (tb_current_thread ?s)) = [] @ [?e]" "nat (tb_current_thread ?s) < length (tb_threads ?s)"
    by (simp_all add: ex_builder_def tb_init_def assert_d_def ex_conf_def ex_threads_def)
  have "atomic_rmw ex_conf ?s ?ml = complete_rmw ex_conf ?s ?ml"
    by (rule atomic_rmw_takes_plain_load [OF rd(1,2) _ th(2,1) rd(3)]) simp
  thus ?thesis using th(1) by (intro exI [of _ ?ml] exI [of _ ?e]) simp
qed

end
