(* ===== verification/ViewReset.thy ===== *)
theory ViewReset
  imports Prelude ViewReach
begin

text \<open>
  The end of an execution: from which state the exploration resumes, that it loses no lead that is to
  be explored, and what it does not reset.
\<close>

section \<open>The search for the state to resume from\<close>

lemma analysis_frame_lead:
  assumes "analysis_frame s s'" "j < length (tb_states s)" "l \<in> set (st_leads (tb_states s ! j))" "\<not> ld_done l"
  shows "j < length (tb_states s') \<and> (\<exists>l'\<in>set (st_leads (tb_states s' ! j)). pending_as l l')"
proof -
  obtain sts where sts: "tb_states s' = sts" "list_all2 st_aframe (tb_states s) sts"
    using assms(1) by (auto simp: analysis_frame_def)
  hence "j < length sts" "st_aframe (tb_states s ! j) (sts ! j)"
    using assms(2) by (auto simp: list_all2_conv_all_nth)
  moreover from this(2) have "keeps_pending (st_leads (tb_states s ! j)) (st_leads (sts ! j))"
    by (auto simp: st_aframe_def)
  ultimately show ?thesis using assms(3,4) sts(1) unfolding keeps_pending_def by blast
qed

lemma pending_unexplored: "l' \<in> set (st_leads st) \<Longrightarrow> pending_as l l' \<Longrightarrow> st_has_unexplored_leads st"
  by (auto simp: st_has_unexplored_leads_def pending_as_def list_ex_iff)

lemma pending_as_trans: "pending_as a b \<Longrightarrow> pending_as b c \<Longrightarrow> pending_as a c"
  by (simp add: pending_as_def)

text \<open>The search stops at or above every state with a lead that is to be explored.\<close>

lemma find_replay_finds:
  assumes "find_replay_from cf s n = Inr (k, s')"
  shows "k < int n \<and> - 1 \<le> k \<and> (0 \<le> k \<longrightarrow> (\<exists>st. tb_state s' k = Inr st \<and> st_has_unexplored_leads st)) \<and>
    (\<forall>j<n. \<forall>l\<in>set (st_leads (tb_states s ! j)). j < length (tb_states s) \<longrightarrow> \<not> ld_done l \<longrightarrow> int j \<le> k)"
  using assms
proof (induction n arbitrary: s)
  case (Suc n)
  obtain s1 where 1: "finish_up_lead cf s (int n) = Inr s1" using Suc.prems by (auto elim!: bind_r_InrE)
  obtain st where st: "tb_state s1 (int n) = Inr st" using Suc.prems 1 by (auto elim!: bind_r_InrE)
  show ?case
  proof (cases "st_has_unexplored_leads st")
    case True
    hence "k = int n" "s' = s1" using Suc.prems 1 st by auto
    thus ?thesis using st True by auto
  next
    case False
    obtain s2 where 2: "finish_up_state cf s1 (int n) = Inr s2" "find_replay_from cf s2 n = Inr (k, s')"
      using Suc.prems 1 st False by (auto elim!: bind_r_InrE)
    note IH = Suc.IH [OF 2(2)]
    have fr: "analysis_frame s s1" "analysis_frame s s2"
      using finish_up_frame(1) [OF 1] finish_up_frame(2) [OF 2(1)] analysis_frame_trans by blast+
    have "int j \<le> k" if j: "j < Suc n" "l \<in> set (st_leads (tb_states s ! j))" "j < length (tb_states s)" "\<not> ld_done l" for j l
    proof (cases "j = n")
      case True
      obtain l' where "l' \<in> set (st_leads (tb_states s1 ! n))" "pending_as l l'"
        using analysis_frame_lead [OF fr(1) j(3,2,4)] True by blast
      moreover have "tb_states s1 ! n = st" using st by (auto simp: tb_state_def)
      ultimately show ?thesis using False pending_unexplored by blast
    next
      case jn: False
      obtain l' where "l' \<in> set (st_leads (tb_states s2 ! j))" "pending_as l l'" "j < length (tb_states s2)"
        using analysis_frame_lead [OF fr(2) j(3,2,4)] by blast
      moreover have "j < n" using jn j(1) by simp
      ultimately show ?thesis using IH unfolding pending_as_def by blast
    qed
    thus ?thesis using IH by force
  qed
qed simp

text \<open>\<open>reset\<close> in its steps.\<close>

lemma reset_cases:
  assumes "reset cf s = Inr (b, s')"
  obtains (over) s2 where "\<not> b" "find_replay_from cf s2 (length (tb_states s)) = Inr (- 1, s'\<lparr>tb_replay_point := tb_replay_point s2\<rparr>)"
      "tb_states s2 = tb_states s"
  | (again) s1 s2 k st where "b" "0 \<le> k" "tb_states s1 = tb_states s" "tb_exec s1 = tb_exec s"
      "tb_enabled s1 = tb_enabled s" "tb_CPS s1 = tb_CPS s" "tb_spawn_summary s1 = tb_spawn_summary s"
      "tb_join_summary s1 = tb_join_summary s"
      "find_replay_from cf s1 (length (tb_states s)) = Inr (k, s2)" "tb_state s2 k = Inr st" "rewind s2 k st = Inr s'"
proof -
  obtain s1 where 1: "(if tb_check_optimality s then record_redundant s else Inr s) = Inr s1"
    using assms by (auto simp: reset_def elim!: bind_r_InrE)
  have q1: "tb_states s1 = tb_states s" "tb_exec s1 = tb_exec s" "tb_enabled s1 = tb_enabled s" "tb_CPS s1 = tb_CPS s"
      "tb_spawn_summary s1 = tb_spawn_summary s" "tb_join_summary s1 = tb_join_summary s"
    using 1 by (auto simp: record_redundant_def Let_def split: if_splits elim!: bind_r_InrE)
  obtain k s2 where 2: "find_replay_from cf s1 (length (tb_states s)) = Inr (k, s2)"
    using assms 1 q1(1) by (auto simp: reset_def find_replay_state_prefix_def elim!: bind_r_InrE)
  have run: "(if k < 0 then Inr (False, s2\<lparr>tb_replay_point := - 1\<rparr>)
       else bind_r (tb_state s2 k) (\<lambda>st. bind_r (rewind s2 k st) (\<lambda>s. Inr (True, s)))) = Inr (b, s')"
    using assms 1 2 q1(1) by (simp add: reset_def find_replay_state_prefix_def)
  show thesis
  proof (cases "k < 0")
    case True
    hence "k = - 1" "s' = s2\<lparr>tb_replay_point := - 1\<rparr>" "\<not> b" using run find_replay_finds [OF 2] by auto
    moreover have "tb_replay_point s2 = tb_replay_point s1"
      using find_replay_frame [OF 2] by (auto simp: analysis_frame_def)
    ultimately show thesis using over [of s1] 2 q1 by simp
  next
    case False
    then obtain st where "tb_state s2 k = Inr st" "rewind s2 k st = Inr s'" "b"
      using run by (auto elim!: bind_r_InrE)
    thus thesis using again [of k s1 s2 st] False q1 2 by simp
  qed
qed

section \<open>Properties\<close>

text \<open>C3: the end of an execution loses no lead: if any state has one that is to be explored, the exploration
  goes on, that state is kept, and the lead (one with its sequences) is still to be explored at it.\<close>

theorem reset_loses_no_lead:
  assumes "reset cf s = Inr (b, s')" "j < length (tb_states s)" "l \<in> set (st_leads (tb_states s ! j))" "\<not> ld_done l"
  shows "b \<and> j < length (tb_states s') \<and> (\<exists>l'\<in>set (st_leads (tb_states s' ! j)). pending_as l l')"
  using assms(1)
proof (cases rule: reset_cases)
  case (over s2)
  hence "int j \<le> - 1" using find_replay_finds [OF over(2)] assms(2-4) by metis
  thus ?thesis by simp
next
  case (again s1 s2 k st)
  have "int j \<le> k" using find_replay_finds [OF again(9)] assms(2-4) again(3) by metis
  moreover obtain l' where "j < length (tb_states s2)" "l' \<in> set (st_leads (tb_states s2 ! j))" "pending_as l l'"
    using analysis_frame_lead [OF find_replay_frame [OF again(9)]] assms(2-4) again(3) by metis
  moreover have "tb_states s' = take (nat (k + 1)) (tb_states s2)"
    using again(11) by (auto simp: rewind_def Let_def split: if_splits)
  moreover have "j < nat (k + 1)" using calculation(1) by simp
  ultimately show ?thesis using again(1) by auto
qed

definition ex_ended :: tbuilder where
  "ex_ended = (ex_state_builder [ex_lead [ex_access T_WRITE 0 0 2]])\<lparr>tb_exec := [IID 0 0], tb_prefix_state := [0]\<rparr>"

lemma ex_ended_reset: "\<exists>s'. reset ex_conf ex_ended = Inr (True, s')"
proof -
  have "case reset ex_conf ex_ended of Inr (b, s') \<Rightarrow> b | Inl _ \<Rightarrow> False" by code_simp
  thus ?thesis by (auto split: sum.splits)
qed

theorem reset_loses_no_lead_witness:
  "\<exists>s'. reset ex_conf ex_ended = Inr (True, s') \<and>
     (\<exists>l'\<in>set (st_leads (tb_states s' ! 0)). pending_as (ex_lead [ex_access T_WRITE 0 0 2]) l')"
proof -
  obtain s' where s': "reset ex_conf ex_ended = Inr (True, s')" using ex_ended_reset by blast
  have "st_leads (tb_states ex_ended ! 0) = [ex_lead [ex_access T_WRITE 0 0 2]]" "length (tb_states ex_ended) = 1"
    by (simp_all add: ex_ended_def ex_state_builder_def)
  moreover have "\<not> ld_done (ex_lead [ex_access T_WRITE 0 0 2])" by code_simp
  ultimately show ?thesis using reset_loses_no_lead [OF s', of 0 "ex_lead [ex_access T_WRITE 0 0 2]"] s' by simp
qed

text \<open>when the exploration goes on, the deepest state that is kept has a lead to explore and is the one the
  replay ends at; the execution is the prefix up to it, nothing has been replayed, the memory is empty and
  only the initial thread exists. The enabled events, the names given to threads and the summaries of
  started and joined threads are those of the execution that ended.\<close>

theorem reset_resumes:
  assumes "reset cf s = Inr (True, s')"
  shows "tb_states s' \<noteq> [] \<and> st_has_unexplored_leads (last (tb_states s')) \<and>
    tb_replay_point s' = st_prefix (last (tb_states s')) \<and>
    tb_exec s' = take (nat (tb_replay_point s' + 1)) (tb_exec s) \<and> tb_prefix_idx s' = 0 \<and> tb_mem s' = [] \<and>
    tb_threads s' = [th_make pid_init (- 1)] \<and>
    tb_enabled s' = tb_enabled s \<and> tb_CPS s' = tb_CPS s \<and> tb_spawn_summary s' = tb_spawn_summary s \<and>
    tb_join_summary s' = tb_join_summary s"
  using assms
proof (cases rule: reset_cases)
  case (again s1 s2 k st)
  have fr: "tb_exec s2 = tb_exec s1" "tb_enabled s2 = tb_enabled s1" "tb_CPS s2 = tb_CPS s1"
      "tb_spawn_summary s2 = tb_spawn_summary s1" "tb_join_summary s2 = tb_join_summary s1"
    using find_replay_frame [OF again(9)] by (auto simp: analysis_frame_def)
  have st: "nat k < length (tb_states s2)" "tb_states s2 ! nat k = st" "st_has_unexplored_leads st"
    using again(2,10) find_replay_finds [OF again(9)] by (auto simp: tb_state_def)
  have s': "s' = s2\<lparr>tb_exec := take (nat (st_prefix st + 1)) (tb_exec s2),
      tb_prefix_state := take (nat (st_prefix st + 1)) (tb_prefix_state s2),
      tb_states := take (nat (k + 1)) (tb_states s2), tb_to_explore := [],
      tb_threads := [th_make pid_init (- 1)], tb_mem := [], tb_last_write := [],
      tb_forbidden := st_forbidden st, tb_prefix_idx := 0, tb_replay_point := st_prefix st, tb_last_md := None\<rparr>"
    using again(11) by (simp add: rewind_def Let_def split: if_splits)
  have "nat (k + 1) = Suc (nat k)" using again(2) by simp
  hence "tb_states s' = take (nat k) (tb_states s2) @ [st]"
    using s' st by (simp add: take_Suc_conv_app_nth)
  thus ?thesis using s' st fr again(4-8) by simp
qed simp

theorem reset_resumes_witness:
  "\<exists>s'. reset ex_conf ex_ended = Inr (True, s') \<and> st_has_unexplored_leads (last (tb_states s')) \<and>
     tb_enabled s' = [IID 0 0, IID 1 0, IID 2 0] \<and> length (tb_threads s') = 1"
proof -
  obtain s' where s': "reset ex_conf ex_ended = Inr (True, s')" using ex_ended_reset by blast
  have "tb_enabled ex_ended = [IID 0 0, IID 1 0, IID 2 0]" by code_simp
  thus ?thesis using reset_resumes [OF s'] s' by simp
qed

end
