(* ===== verification/ViewInterp.thy ===== *)
theory ViewInterp
  imports Prelude ViewReset
begin

text \<open>
  The loop of the interpreter (\<open>Interpreter::run\<close>) as it drives the builder, and the loop of the driver
  over the executions (\<open>DPORDriver::run\<close>). Evaluating the operands of an instruction and the control
  flow of a thread are those of LLVM: a program gives, for the stack of a thread, its next instruction
  with evaluated operands and the stack after it. Memory has one cell per address.
\<close>

section \<open>Instructions\<close>

text \<open>The flag says whether the instruction names a global variable (\<open>isGlobal\<close>).\<close>

datatype 'l instr =
    I_local
  | I_load bool sym_addr_size
  | I_store bool sym_addr_size int
  | I_rmw bool rmw_operation sym_addr_size int
  | I_cmpxchg bool sym_addr_size int int
  | I_create 'l
  | I_join nat

text \<open>\<open>pr_next l v\<close>: the stack after its next instruction, whose result is \<open>v\<close>; \<open>pr_data\<close>: the bytes
  LLVM stores for a value; \<open>pr_init\<close>: the values global variables are initialised with.\<close>

record 'l prog =
  pr_cur :: "'l \<Rightarrow> 'l instr option"
  pr_next :: "'l \<Rightarrow> int \<Rightarrow> 'l"
  pr_md :: "'l \<Rightarrow> nat option"
  pr_data :: "sym_addr_size \<Rightarrow> int \<Rightarrow> sym_data"
  pr_init :: "(sym_addr \<times> int) list"

definition is_global_access :: "'l instr \<Rightarrow> bool" where
  "is_global_access i =
     (case i of I_load g _ \<Rightarrow> g | I_store g _ _ \<Rightarrow> g | I_rmw g _ _ _ \<Rightarrow> g | I_cmpxchg g _ _ _ \<Rightarrow> g | _ \<Rightarrow> False)"

text \<open>The operations on integers of any width (\<open>APInt\<close>). The objects of the modelled programs have 32 bits.\<close>

fun rmw_new_value :: "rmw_operation \<Rightarrow> 'w::len word \<Rightarrow> 'w word \<Rightarrow> 'w word result" where
  "rmw_new_value Op_XCHG r n = Inr n"
| "rmw_new_value Op_ADD r n = Inr (r + n)"
| "rmw_new_value Op_SUB r n = Inr (r - n)"
| "rmw_new_value Op_AND r n = Inr (and r n)"
| "rmw_new_value Op_NAND r n = Inr (not (and r n))"
| "rmw_new_value Op_OR r n = Inr (or r n)"
| "rmw_new_value Op_XOR r n = Inr (xor r n)"
| "rmw_new_value Op_MAX r n = Inr (if n <s r then r else n)"
| "rmw_new_value Op_MIN r n = Inr (if r <s n then r else n)"
| "rmw_new_value Op_UMAX r n = Inr (if n < r then r else n)"
| "rmw_new_value Op_UMIN r n = Inr (if r < n then r else n)"
| "rmw_new_value Op_CMPXCHG r n = Inl Aborted"

definition rmw_new_int :: "rmw_operation \<Rightarrow> int \<Rightarrow> int \<Rightarrow> int result" where
  "rmw_new_int op r n = bind_r (rmw_new_value op (word_of_int r :: 32 word) (word_of_int n)) (\<lambda>v. Inr (sint v))"

section \<open>State\<close>

record 'l ithread =
  it_cpid :: cpid
  it_stack :: 'l
  it_awaiting_join :: "nat list"

record 'l interp =
  ip_tb :: tbuilder
  ip_threads :: "'l ithread list"
  ip_mem :: "(sym_addr \<times> int) list"
  ip_current :: nat
  ip_CPS :: cpid_system
  ip_rerun :: bool
  ip_complete :: nat

definition stack_empty :: "'l prog \<Rightarrow> 'l ithread \<Rightarrow> bool" where
  "stack_empty pr t = (pr_cur pr (it_stack t) = None)"

definition ip_read :: "'l interp \<Rightarrow> sym_addr_size \<Rightarrow> int" where
  "ip_read s a = map_get 0 (ip_mem s) (sas_addr a)"

definition ip_write :: "'l interp \<Rightarrow> sym_addr_size \<Rightarrow> int \<Rightarrow> 'l interp" where
  "ip_write s a v = s\<lparr>ip_mem := AList.update (sas_addr a) v (ip_mem s)\<rparr>"

definition ip_thread :: "'l interp \<Rightarrow> 'l ithread result" where
  "ip_thread s = nth_r (ip_threads s) (int (ip_current s))"

definition ip_set_thread :: "'l interp \<Rightarrow> nat \<Rightarrow> ('l ithread \<Rightarrow> 'l ithread) \<Rightarrow> 'l interp" where
  "ip_set_thread s p g = s\<lparr>ip_threads := (ip_threads s)[p := g (ip_threads s ! p)]\<rparr>"

text \<open>The instruction pointer moves on, the result is stored.\<close>

definition ip_advance :: "'l prog \<Rightarrow> 'l interp \<Rightarrow> int \<Rightarrow> 'l interp" where
  "ip_advance pr s v = ip_set_thread s (ip_current s) (\<lambda>t. t\<lparr>it_stack := pr_next pr (it_stack t) v\<rparr>)"

definition with_tb :: "'l interp \<Rightarrow> tbuilder result \<Rightarrow> 'l interp result" where
  "with_tb s m = bind_r m (\<lambda>tb. Inr (s\<lparr>ip_tb := tb\<rparr>))"

section \<open>Instructions of a scheduled thread\<close>

text \<open>Accesses that name a global variable were peeked and scheduled; here they take effect on memory.\<close>

definition complete_load :: "'l prog \<Rightarrow> 'l interp \<Rightarrow> sym_addr_size \<Rightarrow> 'l interp" where
  "complete_load pr s a = ip_advance pr s (ip_read s a)"

definition complete_store :: "'l prog \<Rightarrow> 'l interp \<Rightarrow> sym_addr_size \<Rightarrow> int \<Rightarrow> 'l interp" where
  "complete_store pr s a v = ip_advance pr (ip_write s a v) 0"

definition interp_rmw :: "vconf \<Rightarrow> 'l prog \<Rightarrow> 'l interp \<Rightarrow> rmw_operation \<Rightarrow> sym_addr_size \<Rightarrow> int \<Rightarrow> 'l interp result" where
  "interp_rmw cf pr s op a v =
     (let old = ip_read s a; s = ip_advance pr s old in
      bind_r (rmw_new_int op old v) (\<lambda>new.
      bind_r (with_tb s (atomic_rmw cf (ip_tb s) (pr_data pr a new))) (\<lambda>s. Inr (ip_write s a new))))"

text \<open>The second component says whether the exchange took place.\<close>

definition interp_cmpxchg :: "vconf \<Rightarrow> 'l prog \<Rightarrow> 'l interp \<Rightarrow> sym_addr_size \<Rightarrow> int \<Rightarrow> int \<Rightarrow> ('l interp \<times> bool) result" where
  "interp_cmpxchg cf pr s a cmp new =
     (let old = ip_read s a; ok = (old = cmp) in
      bind_r (with_tb s (compare_exchange cf (ip_tb s) (pr_data pr a new) ok)) (\<lambda>s.
        let s = ip_advance pr s old in Inr (if ok then ip_write s a new else s, ok)))"

text \<open>\<open>callPthreadCreate\<close>: the interpreter has names of its own for threads.\<close>

definition pthread_create :: "'l prog \<Rightarrow> 'l interp \<Rightarrow> 'l \<Rightarrow> 'l interp result" where
  "pthread_create pr s l =
     (let s = ip_advance pr s 0 in
      bind_r (with_tb s (tb_spawn (snd (tb_fence (ip_tb s))))) (\<lambda>s.
      bind_r (ip_thread s) (\<lambda>t.
      bind_r (cps_spawn (ip_CPS s) (it_cpid t)) (\<lambda>(c, cps).
        Inr (s\<lparr>ip_CPS := cps, ip_threads := ip_threads s @ [\<lparr>it_cpid = c, it_stack = l, it_awaiting_join = []\<rparr>]\<rparr>)))))"

text \<open>A join of a thread that does not exist, or of itself, is reported and ends the execution.\<close>

definition pthread_join :: "vconf \<Rightarrow> 'l prog \<Rightarrow> 'l interp \<Rightarrow> nat \<Rightarrow> 'l interp result" where
  "pthread_join cf pr s tid =
     (if length (ip_threads s) \<le> tid \<or> tid = ip_current s then Inl Aborted
      else assert_d cf (stack_empty pr (ip_threads s ! tid))
        (bind_r (with_tb s (tb_join (snd (tb_fence (ip_tb s))) tid)) (\<lambda>s. Inr (ip_advance pr s 0))))"

text \<open>Visiting an access that names a global variable only shows it to the builder; any other one takes
  effect at once.\<close>

definition visit_load :: "vconf \<Rightarrow> 'l prog \<Rightarrow> 'l interp \<Rightarrow> bool \<Rightarrow> sym_addr_size \<Rightarrow> 'l interp result" where
  "visit_load cf pr s g a =
     bind_r (with_tb s (tb_load cf (ip_tb s) a)) (\<lambda>s. Inr (if g then s else complete_load pr s a))"

definition visit_store :: "vconf \<Rightarrow> 'l prog \<Rightarrow> 'l interp \<Rightarrow> bool \<Rightarrow> sym_addr_size \<Rightarrow> int \<Rightarrow> 'l interp result" where
  "visit_store cf pr s g a v =
     bind_r (with_tb s (tb_atomic_store cf (ip_tb s) (pr_data pr a v))) (\<lambda>s. Inr (if g then s else complete_store pr s a v))"

definition visit_rmw :: "vconf \<Rightarrow> 'l prog \<Rightarrow> 'l interp \<Rightarrow> bool \<Rightarrow> rmw_operation \<Rightarrow> sym_addr_size \<Rightarrow> int \<Rightarrow> 'l interp result" where
  "visit_rmw cf pr s g op a v =
     (if g then with_tb s (atomic_rmw cf (set_rmw_operation (ip_tb s) op v) (pr_data pr a v))
      else interp_rmw cf pr s op a v)"

definition visit_cmpxchg :: "vconf \<Rightarrow> 'l prog \<Rightarrow> 'l interp \<Rightarrow> bool \<Rightarrow> sym_addr_size \<Rightarrow> int \<Rightarrow> int \<Rightarrow> 'l interp result" where
  "visit_cmpxchg cf pr s g a cmp new =
     (if g then with_tb s (bind_r (set_cmpxchg_operation cf (ip_tb s) Op_CMPXCHG cmp new) (\<lambda>tb.
                  compare_exchange cf tb (pr_data pr a new) False))
      else bind_r (interp_cmpxchg cf pr s a cmp new) (\<lambda>(s, _). Inr s))"

definition visit :: "vconf \<Rightarrow> 'l prog \<Rightarrow> 'l interp \<Rightarrow> 'l instr \<Rightarrow> 'l interp result" where
  "visit cf pr s i =
     (case i of
        I_local \<Rightarrow> Inr (ip_advance pr s 0)
      | I_load g a \<Rightarrow> visit_load cf pr s g a
      | I_store g a v \<Rightarrow> visit_store cf pr s g a v
      | I_rmw g op a v \<Rightarrow> visit_rmw cf pr s g op a v
      | I_cmpxchg g a cmp new \<Rightarrow> visit_cmpxchg cf pr s g a cmp new
      | I_create l \<Rightarrow> pthread_create pr s l
      | I_join tid \<Rightarrow> pthread_join cf pr s tid)"

text \<open>A failed exchange runs the next two instructions of the thread with it.\<close>

definition execute :: "vconf \<Rightarrow> 'l prog \<Rightarrow> 'l interp \<Rightarrow> 'l instr \<Rightarrow> 'l interp result" where
  "execute cf pr s i =
     (if is_global_access i
      then (case i of
              I_load _ a \<Rightarrow> Inr (complete_load pr s a)
            | I_store _ a v \<Rightarrow> Inr (complete_store pr s a v)
            | I_rmw _ op a v \<Rightarrow> interp_rmw cf pr s op a v
            | I_cmpxchg _ a cmp new \<Rightarrow> bind_r (interp_cmpxchg cf pr s a cmp new) (\<lambda>(s, ok).
                Inr (if ok then s else s\<lparr>ip_complete := 2, ip_rerun := True\<rparr>))
            | _ \<Rightarrow> Inr s)
      else bind_r (visit cf pr s i) (\<lambda>s.
             let n = ip_complete s - 1 in Inr (s\<lparr>ip_complete := n, ip_rerun := ip_rerun s \<or> n > 0\<rparr>)))"

text \<open>The next instruction of the thread, if it names a global variable, is shown to the builder.\<close>

definition peek :: "vconf \<Rightarrow> 'l prog \<Rightarrow> 'l interp \<Rightarrow> 'l instr \<Rightarrow> 'l interp result" where
  "peek cf pr s i = (if is_global_access i then visit cf pr s i else Inr s)"

section \<open>The loop\<close>

text \<open>A join of a thread that still runs is refused (\<open>checkRefuse\<close>).\<close>

definition check_refuse :: "'l prog \<Rightarrow> 'l interp \<Rightarrow> 'l instr \<Rightarrow> bool" where
  "check_refuse pr s i =
     (case i of I_join tid \<Rightarrow> tid < length (ip_threads s) \<and> tid \<noteq> ip_current s \<and> \<not> stack_empty pr (ip_threads s ! tid)
      | _ \<Rightarrow> False)"

definition refuse_join :: "'l interp \<Rightarrow> nat \<Rightarrow> 'l interp result" where
  "refuse_join s tid =
     bind_r (with_tb s (refuse_schedule (ip_tb s))) (\<lambda>s.
       Inr (ip_set_thread s tid (\<lambda>t. t\<lparr>it_awaiting_join := it_awaiting_join t @ [ip_current s]\<rparr>)))"

text \<open>A thread that has ended wakes those that wait to join it (\<open>terminate\<close>).\<close>

definition thread_end :: "'l interp \<Rightarrow> 'l interp result" where
  "thread_end s =
     bind_r (ip_thread s) (\<lambda>t.
     bind_r (with_tb s (fold_r (\<lambda>tb p. mark_available tb (int p)) (ip_tb s) (it_awaiting_join t))) (\<lambda>s.
     bind_r (with_tb s (mark_unavailable (ip_tb s) (int (ip_current s)))) (\<lambda>s.
       Inr (if ip_complete s > 0 then s\<lparr>ip_complete := 0, ip_rerun := False\<rparr> else s))))"

definition run_instr :: "vconf \<Rightarrow> 'l prog \<Rightarrow> 'l interp \<Rightarrow> 'l interp result" where
  "run_instr cf pr s =
     bind_r (ip_thread s) (\<lambda>t.
       case pr_cur pr (it_stack t) of
         None \<Rightarrow> Inl Out_of_range
       | Some i \<Rightarrow>
           if check_refuse pr s i then refuse_join s (case i of I_join tid \<Rightarrow> tid | _ \<Rightarrow> 0)
           else bind_r (with_tb s (tb_metadata (ip_tb s) (pr_md pr (it_stack t)))) (\<lambda>s.
                bind_r (execute cf pr s i) (\<lambda>s.
                bind_r (ip_thread s) (\<lambda>t.
                  case pr_cur pr (it_stack t) of None \<Rightarrow> thread_end s | Some j \<Rightarrow> peek cf pr s j))))"

text \<open>One iteration; \<open>None\<close>: \<open>schedule\<close> has returned \<open>false\<close>.\<close>

definition run_step :: "vconf \<Rightarrow> 'l prog \<Rightarrow> 'l interp \<Rightarrow> ('l interp option \<times> 'l interp) result" where
  "run_step cf pr s =
     bind_r (if ip_rerun s then Inr (Some (int (ip_current s)), ip_tb s) else schedule cf (ip_tb s)) (\<lambda>(q, tb).
       let s = s\<lparr>ip_tb := tb\<rparr> in
       case q of
         None \<Rightarrow> Inr (None, s)
       | Some p \<Rightarrow>
           assert_d cf (0 \<le> p \<and> p < int (length (ip_threads s)))
             (bind_r (run_instr cf pr (s\<lparr>ip_current := nat p, ip_rerun := False\<rparr>)) (\<lambda>s. Inr (Some s, s))))"

primrec run_loop :: "nat \<Rightarrow> vconf \<Rightarrow> 'l prog \<Rightarrow> 'l interp \<Rightarrow> 'l interp result" where
  "run_loop 0 cf pr s = Inl Out_of_fuel"
| "run_loop (Suc n) cf pr s =
     bind_r (run_step cf pr s) (\<lambda>(q, s'). case q of None \<Rightarrow> Inr s' | Some s \<Rightarrow> run_loop n cf pr s)"

section \<open>The driver\<close>

text \<open>A new interpreter for every execution, the builder is kept.\<close>

definition interp_init :: "'l prog \<Rightarrow> tbuilder \<Rightarrow> 'l \<Rightarrow> 'l interp" where
  "interp_init pr tb l =
     \<lparr>ip_tb = tb, ip_threads = [\<lparr>it_cpid = pid_init, it_stack = l, it_awaiting_join = []\<rparr>], ip_mem = pr_init pr, ip_current = 0,
      ip_CPS = cps_init, ip_rerun = False, ip_complete = 0\<rparr>"

definition run_once :: "nat \<Rightarrow> vconf \<Rightarrow> 'l prog \<Rightarrow> 'l \<Rightarrow> tbuilder \<Rightarrow> 'l interp result" where
  "run_once n cf pr l tb = run_loop n cf pr (interp_init pr tb l)"

text \<open>The executions in the order they are explored, at most \<open>m\<close> of them; none has an error.\<close>

primrec explore :: "nat \<Rightarrow> nat \<Rightarrow> vconf \<Rightarrow> 'l prog \<Rightarrow> 'l \<Rightarrow> tbuilder \<Rightarrow> 'l interp list result" where
  "explore 0 n cf pr l tb = Inl Out_of_fuel"
| "explore (Suc m) n cf pr l tb =
     bind_r (run_once n cf pr l tb) (\<lambda>s.
     bind_r (reset cf (ip_tb s)) (\<lambda>(b, tb).
       if b then bind_r (explore m n cf pr l tb) (\<lambda>ss. Inr (s # ss)) else Inr [s]))"

end
