(* ===== verification/ViewRmw.thy ===== *)
theory ViewRmw
  imports Prelude ViewInterp
begin

text \<open>
  The values of read-modify-writes: those the builder predicts, on \<open>int\<close> (\<open>compute_modified_value\<close>), against
  those the interpreter computes on the integers of the object's width (\<open>completeAtomicRMWInst\<close>,
  \<open>completeAtomicCmpXchgInst\<close>). The interpreter hands the builder operands of at most 32 bits; a wider one leaves
  the variable it passes uninitialised.
\<close>

section \<open>Words and their signed values\<close>

lemma sint_bitwise:
  fixes r n :: "'w::len word"
  shows "sint (and r n) = and (sint r) (sint n)" "sint (or r n) = or (sint r) (sint n)"
    "sint (xor r n) = xor (sint r) (sint n)" "sint (not r) = not (sint r)"
  by (rule bit_eqI, simp add: bit_simps bit_sint_iff min_less_iff_disj)+

lemma sint_bounds:
  fixes r :: "'w::len word"
  assumes "LENGTH('w) \<le> 32"
  shows "in_int32 (sint r)"
proof -
  have "(2::int) ^ (LENGTH('w) - 1) \<le> 2 ^ 31" by (rule power_increasing) (use assms in simp_all)
  thus ?thesis using sint_lt [of r] sint_ge [of r] by (simp add: in_int32_def)
qed

lemma wrap32_32: "wrap32 (sint (r :: 32 word) + sint n) = sint (r + n)" "wrap32 (sint r - sint n) = sint (r - n)"
  by (simp_all add: wrap32_def sint_word_ariths)

text \<open>The sum of two integers of fewer than 32 bits does not overflow an \<open>int\<close>.\<close>

lemma wrap32_narrow:
  fixes r n :: "'w::len word"
  assumes "LENGTH('w) < 32"
  shows "wrap32 (sint r + sint n) = sint r + sint n" "wrap32 (sint r - sint n) = sint r - sint n"
proof -
  have "(2::int) ^ (LENGTH('w) - 1) \<le> 2 ^ 30" by (rule power_increasing) (use assms in simp_all)
  hence "in_int32 (sint r + sint n)" "in_int32 (sint r - sint n)"
    using sint_lt [of r] sint_ge [of r] sint_lt [of n] sint_ge [of n] by (simp_all add: in_int32_def)
  thus "wrap32 (sint r + sint n) = sint r + sint n" "wrap32 (sint r - sint n) = sint r - sint n"
    by (simp_all add: wrap32_def in_int32_iff)
qed

lemma uint_by_sint:
  fixes r :: "'w::len word"
  shows "uint r = (if sint r < 0 then sint r + 2 ^ LENGTH('w) else sint r)"
proof -
  have u: "uint r = sint r mod 2 ^ LENGTH('w)" by (simp add: uint_sint take_bit_eq_mod)
  have p: "(2::int) ^ LENGTH('w) = 2 * 2 ^ (LENGTH('w) - 1)" by (simp flip: power_Suc)
  show ?thesis
  proof (cases "sint r < 0")
    case True
    have "sint r mod 2 ^ LENGTH('w) = (sint r + 2 ^ LENGTH('w)) mod 2 ^ LENGTH('w)" by simp
    also have "\<dots> = sint r + 2 ^ LENGTH('w)" using True sint_ge [of r] p by (intro mod_pos_pos_trivial) simp_all
    finally show ?thesis using True u by simp
  next
    case False
    thus ?thesis using u p sint_lt [of r] by simp
  qed
qed

lemma word_less_signs:
  fixes r n :: "'w::len word"
  shows "r < n \<longleftrightarrow> (if (sint r < 0) = (sint n < 0) then sint r < sint n else sint n < 0)"
proof -
  have "(2::int) ^ LENGTH('w) = 2 * 2 ^ (LENGTH('w) - 1)" by (simp flip: power_Suc)
  thus ?thesis using sint_lt [of r] sint_ge [of r] sint_lt [of n] sint_ge [of n]
    by (simp add: word_less_def uint_by_sint)
qed

lemma cmpxchg_value:
  assumes "interp_cmpxchg cf pr s a cmp new = Inr (s', ok)"
  shows "ip_read s' a = compute_modified_value Op_CMPXCHG (ip_read s a) new cmp \<and> ok = (ip_read s a = cmp)"
proof -
  obtain t where t: "with_tb s (compare_exchange cf (ip_tb s) (pr_data pr a new) (ip_read s a = cmp)) = Inr t"
    "s' = (if ip_read s a = cmp then ip_write (ip_advance pr t (ip_read s a)) a new else ip_advance pr t (ip_read s a))"
    "ok = (ip_read s a = cmp)"
    using assms by (auto simp: interp_cmpxchg_def Let_def elim!: bind_r_InrE)
  have "ip_mem t = ip_mem s" using t(1) by (auto simp: with_tb_def elim!: bind_r_InrE)
  hence "ip_read (ip_advance pr t v) a = ip_read s a" for v by (simp add: ip_read_def ip_advance_def ip_set_thread_def)
  moreover have "ip_read (ip_write (ip_advance pr t v) a new) a = new" for v by (simp add: ip_read_def ip_write_def map_get_def update_conv')
  ultimately show ?thesis using t(2,3) by simp
qed

section \<open>Properties\<close>



end
