(* ===== verification/ViewThreads.thy ===== *)
theory ViewThreads
  imports Prelude ViewInterp
begin

text \<open>
  The threads of the interpreter and those of the builder: the two tables have the same length in every
  state of a run, so the thread that \<open>schedule\<close> returns is one the interpreter has.
\<close>

section \<open>Calls that start no thread\<close>

definition same_count :: "tbuilder \<Rightarrow> tbuilder \<Rightarrow> bool" where
  "same_count s s' = (length (tb_threads s') = length (tb_threads s))"

named_theorems count_intros

lemma same_count_refl [simp]: "same_count s s"
  by (simp add: same_count_def)

lemma same_count_trans: "same_count a b \<Longrightarrow> same_count b d \<Longrightarrow> same_count a d"
  by (simp add: same_count_def)

lemma count_quiet: "quiet s s' \<Longrightarrow> same_count s s'"
  by (simp add: quiet_def same_count_def)

lemma count_threads:
  "tb_set_thread s p g = Inr s' \<Longrightarrow> same_count s s'" "tb_push_event s p e = Inr s' \<Longrightarrow> same_count s s'"
  "tb_pop_event s p = Inr s' \<Longrightarrow> same_count s s'" "tb_set_event s p i h = Inr s' \<Longrightarrow> same_count s s'"
  "tb_set_state s i k = Inr s' \<Longrightarrow> same_count s s'" "enabled_erase s j = Inr s' \<Longrightarrow> same_count s s'"
  by (auto simp: same_count_def tb_set_thread_Inr tb_push_event_Inr tb_pop_event_Inr tb_set_event_Inr tb_set_state_Inr
      enabled_erase_Inr)

lemma count_placing:
  "drop_placeholder s = Inr s' \<Longrightarrow> same_count s s'" "append_event s e = Inr s' \<Longrightarrow> same_count s s'"
  "number_event s e = Inr (e', s') \<Longrightarrow> same_count s s'"
  by (auto simp: same_count_def drop_placeholder_Inr append_event_Inr number_event_Inr tb_pop_event_Inr tb_push_event_Inr)

lemma count_mark:
  "mark_available s p = Inr s' \<Longrightarrow> same_count s s'" "mark_unavailable s p = Inr s' \<Longrightarrow> same_count s s'"
  by (simp_all add: mark_available_def mark_unavailable_def count_threads)

lemma count_metadata: "tb_metadata s md = Inr s' \<Longrightarrow> same_count s s'"
  by (auto simp: tb_metadata_def same_count_def tb_set_event_Inr elim!: bind_r_InrE)

lemma count_place_access:
  assumes "place_access cf s e = Inr s'"
  shows "same_count s s'"
proof (cases "ev_is_global e")
  case True
  obtain e1 s1 s2 s3 where "number_event s e = Inr (e1, s1)" "tb_push_event s1 (tb_current_thread s1) e1 = Inr s2"
    "tb_set_thread s2 (tb_current_thread s2) (\<lambda>t. t\<lparr>th_awaiting := True\<rparr>) = Inr s3" "tb_threads s' = tb_threads s3"
    using assms True by (auto simp: place_access_def assert_d_Inr elim!: bind_r_InrE)
  thus ?thesis using count_placing(3) count_threads(1,2) by (metis same_count_def)
next
  case False
  obtain s1 e1 s2 where "drop_placeholder s = Inr s1" "number_event s1 e = Inr (e1, s2)" "append_event s2 e1 = Inr s'"
    using assms False by (auto simp: place_access_def elim!: bind_r_InrE)
  thus ?thesis using count_placing by (metis same_count_def)
qed

lemma count_load: "tb_load cf s a = Inr s' \<Longrightarrow> same_count s s'"
  by (auto simp: tb_load_def same_count_def elim!: bind_r_InrE dest!: count_place_access)

lemma count_store: "tb_atomic_store cf s ml = Inr s' \<Longrightarrow> same_count s s'"
  by (auto simp: tb_atomic_store_def same_count_def elim!: bind_r_InrE dest!: count_place_access)

lemma count_join:
  assumes "tb_join s tgt = Inr s'"
  shows "same_count s s'"
proof -
  obtain s1 e s2 m where "drop_placeholder s = Inr s1" "number_event s1 ((ev_make_join (ev_of_sym (sev_join (int tgt))))\<lparr>ev_object := (tgt, 0)\<rparr>) = Inr (e, s2)"
    "append_event (s2\<lparr>tb_join_summary := m\<rparr>) e = Inr s'"
    using assms by (auto simp: tb_join_def Let_def elim!: bind_r_InrE)
  moreover from this(3) have "same_count s2 s'" using count_placing(2) by (fastforce simp: same_count_def)
  ultimately show ?thesis using count_placing(1,3) same_count_trans by blast
qed

lemma count_refuse: "refuse_schedule s = Inr s' \<Longrightarrow> same_count s s'"
  by (auto simp: refuse_schedule_def Let_def same_count_def tb_pop_event_Inr elim!: bind_r_InrE dest!: count_mark(2))

section \<open>Read-modify-writes\<close>

lemma count_enable_rmw: "enable_rmw cf s a = Inr s' \<Longrightarrow> same_count s s'"
  by (auto simp: enable_rmw_def same_count_def tb_set_event_Inr elim!: bind_r_InrE dest!: count_load)

lemma count_leads:
  "extend_leads s i j = Inr s' \<Longrightarrow> same_count s s'" "update_leads cf s e f = Inr s' \<Longrightarrow> same_count s s'"
  using extend_leads_quiet quiet_update_leads count_quiet by blast+

lemma count_complete_rmw: "complete_rmw cf s ml = Inr s' \<Longrightarrow> same_count s s'"
  by (auto simp: complete_rmw_def Let_def mem_write_def same_count_def tb_push_event_Inr simp del: nth_r_Inr
      split: if_splits elim!: bind_r_InrE dest!: count_leads)

lemma count_local_rmw:
  assumes "place_local_rmw s rd ml = Inr s'"
  shows "same_count s s'"
proof -
  obtain s1 s2 where "drop_placeholder s = Inr s1" "\<exists>e. append_event s1 e = Inr s2" "\<exists>e. append_event s2 e = Inr s'"
    using assms by (auto simp: place_local_rmw_def elim!: bind_r_InrE)
  thus ?thesis using count_placing(1,2) same_count_trans by metis
qed

lemma count_rmw:
  assumes "atomic_rmw cf s ml = Inr s'"
  shows "same_count s s'"
  using assms count_complete_rmw count_enable_rmw count_local_rmw
  by (auto simp: atomic_rmw_def split: if_splits option.splits elim!: bind_r_InrE)

lemma count_set_last: "set_last_value s v = Inr s' \<Longrightarrow> same_count s s'"
  by (auto simp: set_last_value_def elim!: bind_r_InrE dest!: count_threads(4))

lemma count_cmpxchg: "compare_exchange cf s sd ok = Inr s' \<Longrightarrow> same_count s s'"
  by (auto simp: compare_exchange_def Let_def same_count_def split: if_splits option.splits elim!: bind_r_InrE
      dest!: count_complete_rmw count_set_last count_enable_rmw count_local_rmw)

section \<open>Scheduling\<close>

lemma count_perform:
  "perform_access s = Inr s' \<Longrightarrow> same_count s s' \<and> tb_current_thread s' = tb_current_thread s"
  by (auto simp: perform_access_def Let_def mem_write_def same_count_def tb_set_event_Inr split: if_splits elim!: bind_r_InrE)

lemma event_at_thread: "event_at s i = Inr e \<Longrightarrow> 0 \<le> iid_pid i \<and> nat (iid_pid i) < length (tb_threads s)"
  by (auto simp: event_at_def elim!: bind_r_InrE)

lemma count_execute:
  assumes "execute_next_lead cf s = Inr s'"
  shows "same_count s s' \<and> 0 \<le> tb_current_thread s' \<and> tb_current_thread s' < int (length (tb_threads s'))"
proof -
  obtain l e s1 where 1: "choose_lead s = Inr (l, e, s1)" using assms by (auto simp: execute_next_lead_def elim!: bind_r_InrE)
  obtain s2 where 2: "enabled_erase s1 (ev_iid e) = Inr s2"
    using assms 1 by (auto simp: execute_next_lead_def elim!: bind_r_InrE)
  obtain s3 where 3: "lead_formula s2 l e = Inr s3"
    using assms 1 2 by (auto simp: execute_next_lead_def elim!: bind_r_InrE)
  obtain cur where 4: "event_at s3 (ev_iid e) = Inr cur"
    using assms 1 2 3 by (auto simp: execute_next_lead_def elim!: bind_r_InrE)
  obtain s5 where 5: "perform_access (s3\<lparr>tb_current_thread := ev_pid e, tb_current_event := cur\<rparr>) = Inr s5"
    using assms 1 2 3 4 by (auto simp: execute_next_lead_def Let_def assert_d_Inr elim!: bind_r_InrE)
  obtain s6 where 6: "tb_set_thread s5 (tb_current_thread s5) (\<lambda>t. t\<lparr>th_awaiting := False\<rparr>) = Inr s6"
    "tb_threads s' = tb_threads s6" "tb_current_thread s' = tb_current_thread s6"
    using assms 1 2 3 4 5 by (auto simp: execute_next_lead_def Let_def assert_d_Inr elim!: bind_r_InrE)
  have "same_count s s1" "same_count s1 s2" "same_count s2 s3"
    using choose_lead_quiet [OF 1] count_threads(6) [OF 2] lead_formula_quiet [OF 3] count_quiet by blast+
  moreover have "same_count s3 s5" "tb_current_thread s5 = ev_pid e" using count_perform [OF 5] by (auto simp: same_count_def)
  moreover have "tb_current_thread s6 = tb_current_thread s5" "same_count s5 s6"
    using 6(1) count_threads(1) by (auto simp: tb_set_thread_Inr same_count_def)
  moreover have "0 \<le> ev_pid e" "nat (ev_pid e) < length (tb_threads s3)"
    using event_at_thread [OF 4] by (simp_all add: ev_pid_def)
  ultimately show ?thesis using 6(2,3) by (simp add: same_count_def)
qed

lemma count_replayed:
  "replay_non_memory_access cf s p i = Inr s' \<Longrightarrow> same_count s s'"
  "replay_memory_access cf s p i = Inr s' \<Longrightarrow> same_count s s'"
  by (auto simp: replay_non_memory_access_def replay_memory_access_def assert_d_Inr same_count_def tb_push_event_Inr
      tb_set_thread_Inr enabled_erase_Inr split: if_splits elim!: bind_r_InrE dest!: count_perform)

lemma count_replay:
  assumes "replay_schedule cf s = Inr (p, s')"
  shows "same_count s s' \<and> 0 \<le> p \<and> p < int (length (tb_threads s'))"
  using assms by (auto simp: replay_schedule_def assert_d_Inr same_count_def nat_less_iff split: if_splits elim!: bind_r_InrE
      dest!: count_replayed)

lemma count_new:
  "compute_new_leads cf s = Inr s' \<Longrightarrow> same_count s s'" "leave_replay cf s = Inr s' \<Longrightarrow> same_count s s'"
  using compute_new_leads_quiet count_quiet
  by (auto simp: leave_replay_def assert_d_Inr same_count_def tb_set_state_Inr simp del: nth_r_Inr elim!: bind_r_InrE)

lemma count_next_thread:
  "exists_non_memory_access s = Inr (q, s') \<Longrightarrow>
   same_count s s' \<and> (\<forall>p. q = Some p \<longrightarrow> 0 \<le> p \<and> p < int (length (tb_threads s')))"
  by (auto simp: exists_non_memory_access_def Let_def same_count_def tb_push_event_Inr split: option.splits
      elim!: bind_r_InrE dest!: free_thread_Some)

lemma count_schedule:
  assumes "schedule cf s = Inr (q, s')"
  shows "same_count s s' \<and> (\<forall>p. q = Some p \<longrightarrow> 0 \<le> p \<and> p < int (length (tb_threads s')))"
proof -
  have run: "(if is_replaying s then bind_r (replay_schedule cf s) (\<lambda>(p, s). Inr (Some p, s))
        else if at_replay_point s
        then bind_r (leave_replay cf s) (\<lambda>s. bind_r (execute_next_lead cf s) (\<lambda>s. Inr (Some (tb_current_thread s), s)))
        else bind_r (exists_non_memory_access s) (\<lambda>(p, s).
          case p of Some i \<Rightarrow> Inr (Some i, s)
          | None \<Rightarrow>
              if tb_enabled s = [] then Inr (None, s)
              else bind_r (compute_new_leads cf (make_new_state s)) (\<lambda>s.
                bind_r (tb_state s (tb_current_state s)) (\<lambda>st.
                  if st_has_unexplored_leads st
                  then bind_r (execute_next_lead cf s) (\<lambda>s. Inr (Some (tb_current_thread s), s))
                  else assert_d cf False (Inr (None, s)))))) = Inr (q, s')"
    using assms by (simp add: schedule_def assert_d_Inr)
  show ?thesis
  proof (cases "is_replaying s \<or> at_replay_point s")
    case True
    thus ?thesis using run
      by (auto simp: same_count_def split: if_splits elim!: bind_r_InrE dest!: count_replay count_new(2) count_execute)
  next
    case False
    then obtain p s1 where p: "exists_non_memory_access s = Inr (p, s1)" using run by (auto elim!: bind_r_InrE)
    show ?thesis
    proof (cases p)
      case (Some i)
      thus ?thesis using run False p count_next_thread [OF p] by auto
    next
      case None
      have "same_count s s1" using count_next_thread [OF p] by simp
      moreover have "same_count s1 (make_new_state s1)" by (simp add: same_count_def make_new_state_def)
      ultimately show ?thesis using run False p None
        by (auto simp: same_count_def assert_d_Inr split: if_splits elim!: bind_r_InrE dest!: count_new(1) count_execute)
    qed
  qed
qed

section \<open>The interpreter\<close>

definition threads_match :: "'l interp \<Rightarrow> bool" where
  "threads_match s = (length (ip_threads s) = length (tb_threads (ip_tb s)))"

lemma with_tb_Inr [simp]: "with_tb s m = Inr s' \<longleftrightarrow> (\<exists>tb. m = Inr tb \<and> s' = s\<lparr>ip_tb := tb\<rparr>)"
  by (auto simp: with_tb_def bind_r_def split: sum.splits)

lemma threads_match_fields [simp]:
  "threads_match (ip_set_thread s p g) = threads_match s" "threads_match (ip_write s a v) = threads_match s"
  "threads_match (ip_advance pr s v) = threads_match s" "threads_match (s\<lparr>ip_complete := n\<rparr>) = threads_match s"
  "threads_match (s\<lparr>ip_rerun := b\<rparr>) = threads_match s" "threads_match (s\<lparr>ip_current := p\<rparr>) = threads_match s"
  by (simp_all add: threads_match_def ip_set_thread_def ip_write_def ip_advance_def)

lemma ip_fields [simp]:
  "ip_tb (ip_set_thread s p g) = ip_tb s" "ip_tb (ip_write s a v) = ip_tb s" "ip_tb (ip_advance pr s v) = ip_tb s"
  "length (ip_threads (ip_set_thread s p g)) = length (ip_threads s)" "ip_threads (ip_write s a v) = ip_threads s"
  "length (ip_threads (ip_advance pr s v)) = length (ip_threads s)"
  by (simp_all add: ip_set_thread_def ip_write_def ip_advance_def)

lemma threads_match_tb: "same_count (ip_tb s) tb \<Longrightarrow> threads_match (s\<lparr>ip_tb := tb\<rparr>) = threads_match s"
  by (simp add: threads_match_def same_count_def)

lemma match_rmw: "interp_rmw cf pr s op a v = Inr s' \<Longrightarrow> threads_match s \<Longrightarrow> threads_match s'"
  by (auto simp: interp_rmw_def Let_def threads_match_tb elim!: bind_r_InrE dest!: count_rmw)

lemma match_cmpxchg: "interp_cmpxchg cf pr s a c n = Inr (s', ok) \<Longrightarrow> threads_match s \<Longrightarrow> threads_match s'"
  by (auto simp: interp_cmpxchg_def Let_def threads_match_tb split: if_splits elim!: bind_r_InrE dest!: count_cmpxchg)

lemma match_create: "pthread_create pr s l = Inr s' \<Longrightarrow> threads_match s \<Longrightarrow> threads_match s'"
proof -
  assume run: "pthread_create pr s l = Inr s'" and m: "threads_match s"
  obtain tb where tb: "tb_spawn (ip_tb s) = Inr tb" "length (ip_threads s') = Suc (length (ip_threads s))" "ip_tb s' = tb"
    using run by (auto simp: pthread_create_def Let_def tb_fence_def ip_set_thread_def ip_advance_def elim!: bind_r_InrE)
  have "length (tb_threads tb) = Suc (length (tb_threads (ip_tb s)))"
    using tb(1) by (auto simp: tb_spawn_def Let_def elim!: bind_r_InrE dest!: count_placing simp: same_count_def)
  thus ?thesis using tb m by (simp add: threads_match_def)
qed

lemma match_visit: "visit cf pr s i = Inr s' \<Longrightarrow> threads_match s \<Longrightarrow> threads_match s'"
  by (cases i) (auto simp: visit_def visit_load_def visit_store_def visit_rmw_def visit_cmpxchg_def complete_load_def
      complete_store_def pthread_join_def set_rmw_operation_def set_cmpxchg_operation_def assert_d_Inr tb_fence_def
      threads_match_def same_count_def split: if_splits elim!: bind_r_InrE
      dest!: count_load count_store count_join count_rmw count_cmpxchg match_rmw match_cmpxchg match_create)

lemma match_execute: "execute cf pr s i = Inr s' \<Longrightarrow> threads_match s \<Longrightarrow> threads_match s'"
  by (cases i) (auto simp: execute_def complete_load_def complete_store_def Let_def split: if_splits
      elim!: bind_r_InrE dest!: match_visit match_rmw match_cmpxchg)

lemma match_peek: "peek cf pr s i = Inr s' \<Longrightarrow> threads_match s \<Longrightarrow> threads_match s'"
  using match_visit by (auto simp: peek_def split: if_splits)

lemma match_refuse: "refuse_join s tid = Inr s' \<Longrightarrow> threads_match s \<Longrightarrow> threads_match s'"
  by (auto simp: refuse_join_def threads_match_tb elim!: bind_r_InrE dest!: count_refuse)

lemma count_wake: "fold_r (\<lambda>tb p. mark_available tb (int p)) tb ps = Inr tb' \<Longrightarrow> same_count tb tb'"
  by (induction ps arbitrary: tb) (auto elim!: bind_r_InrE dest!: count_mark(1) simp: same_count_def)

lemma match_end: "thread_end s = Inr s' \<Longrightarrow> threads_match s \<Longrightarrow> threads_match s'"
  by (auto simp: thread_end_def threads_match_def same_count_def split: if_splits elim!: bind_r_InrE
      dest!: count_wake count_mark(2))

lemma match_instr:
  assumes "run_instr cf pr s = Inr s'" "threads_match s"
  shows "threads_match s'"
proof -
  obtain t where t: "ip_thread s = Inr t" using assms(1) by (auto simp: run_instr_def elim!: bind_r_InrE)
  then obtain i where i: "pr_cur pr (it_stack t) = Some i"
    using assms(1) by (auto simp: run_instr_def split: option.splits)
  show ?thesis
  proof (cases "check_refuse pr s i")
    case True
    thus ?thesis using assms t i match_refuse by (auto simp: run_instr_def)
  next
    case False
    then obtain tb s1 t1 where 1: "tb_metadata (ip_tb s) (pr_md pr (it_stack t)) = Inr tb"
      "execute cf pr (s\<lparr>ip_tb := tb\<rparr>) i = Inr s1" "ip_thread s1 = Inr t1"
      using assms(1) t i by (auto simp: run_instr_def elim!: bind_r_InrE)
    have "threads_match s1" using match_execute [OF 1(2)] threads_match_tb [OF count_metadata [OF 1(1)]] assms(2) by simp
    moreover have "(case pr_cur pr (it_stack t1) of None \<Rightarrow> thread_end s1 | Some j \<Rightarrow> peek cf pr s1 j) = Inr s'"
      using assms(1) t i False 1 by (simp add: run_instr_def with_tb_def)
    ultimately show ?thesis using match_end match_peek by (cases "pr_cur pr (it_stack t1)") auto
  qed
qed

lemma match_step:
  assumes "run_step cf pr s = Inr (q, s')" "threads_match s"
  shows "threads_match s' \<and> (\<forall>t. q = Some t \<longrightarrow> t = s')"
proof -
  obtain p tb where p: "(if ip_rerun s then Inr (Some (int (ip_current s)), ip_tb s) else schedule cf (ip_tb s)) = Inr (p, tb)"
    using assms(1) by (auto simp: run_step_def elim!: bind_r_InrE)
  hence "same_count (ip_tb s) tb" using count_schedule by (auto split: if_splits)
  hence m: "threads_match (s\<lparr>ip_tb := tb\<rparr>)" using assms(2) threads_match_tb by blast
  show ?thesis
  proof (cases p)
    case None
    thus ?thesis using assms(1) p m by (simp add: run_step_def)
  next
    case (Some i)
    then obtain s1 where "run_instr cf pr (s\<lparr>ip_tb := tb, ip_current := nat i, ip_rerun := False\<rparr>) = Inr s1" "q = Some s1" "s' = s1"
      using assms(1) p by (auto simp: run_step_def assert_d_Inr elim!: bind_r_InrE)
    moreover have "threads_match (s\<lparr>ip_tb := tb, ip_current := nat i, ip_rerun := False\<rparr>)" using m by (simp add: threads_match_def)
    ultimately show ?thesis using match_instr by blast
  qed
qed

section \<open>All states of an exploration\<close>

inductive dr_reach :: "vconf \<Rightarrow> 'l prog \<Rightarrow> 'l \<Rightarrow> 'l interp \<Rightarrow> bool" for cf pr l where
  start: "tb_init (no_asserts cf) opt = Inr tb \<Longrightarrow> dr_reach cf pr l (interp_init pr tb l)"
| instr: "dr_reach cf pr l s \<Longrightarrow> run_step cf pr s = Inr (Some s', s') \<Longrightarrow> dr_reach cf pr l s'"
| again: "dr_reach cf pr l s \<Longrightarrow> run_step cf pr s = Inr (None, s') \<Longrightarrow> reset cf (ip_tb s') = Inr (True, tb) \<Longrightarrow>
    dr_reach cf pr l (interp_init pr tb l)"

text \<open>C34: throughout an exploration the interpreter and the builder have the same number of threads, so the
  thread that \<open>schedule\<close> returns exists: the interpreter's assertion on it never fails.\<close>

theorem scheduled_thread_exists:
  assumes "dr_reach cf pr l s" "schedule cf (ip_tb s) = Inr (Some p, tb)"
  shows "threads_match s \<and> 0 \<le> p \<and> p < int (length (ip_threads s))"
proof -
  have "threads_match s" using assms(1)
  proof (induction rule: dr_reach.induct)
    case (start opt tb)
    thus ?case by (auto simp: tb_init_def no_asserts_def assert_d_def threads_match_def interp_init_def)
  next
    case (instr s s')
    thus ?case using match_step by blast
  next
    case (again s s' tb)
    thus ?case using reset_resumes [OF again.hyps(3)] by (simp add: threads_match_def interp_init_def)
  qed
  thus ?thesis using count_schedule [OF assms(2)] by (auto simp: threads_match_def same_count_def)
qed

definition ex_idle :: "unit prog" where
  "ex_idle = \<lparr>pr_cur = (\<lambda>_. Some I_local), pr_next = (\<lambda>_ _. ()), pr_md = (\<lambda>_. None),
     pr_data = (\<lambda>a v. \<lparr>sd_ref = a, sd_block = None\<rparr>), pr_init = []\<rparr>"

theorem scheduled_thread_exists_witness:
  "\<exists>tb tb'. tb_init ex_conf False = Inr tb \<and> schedule ex_dbg tb = Inr (Some 0, tb') \<and>
     threads_match (interp_init ex_idle tb ())"
proof -
  have "case tb_init ex_conf False of Inr tb \<Rightarrow> (case schedule ex_dbg tb of Inr (q, _) \<Rightarrow> q = Some 0 | Inl _ \<Rightarrow> False)
      | Inl _ \<Rightarrow> False" by code_simp
  then obtain tb tb' where tb: "tb_init ex_conf False = Inr tb" "schedule ex_dbg tb = Inr (Some 0, tb')"
    by (auto split: sum.splits)
  have "no_asserts ex_dbg = ex_conf" by (simp add: no_asserts_def ex_dbg_def ex_conf_def)
  hence "dr_reach ex_dbg ex_idle () (interp_init ex_idle tb ())" using dr_reach.start tb(1) by metis
  moreover have "ip_tb (interp_init ex_idle tb ()) = tb" by (simp add: interp_init_def)
  ultimately show ?thesis using scheduled_thread_exists [of ex_dbg ex_idle "()" "interp_init ex_idle tb ()" 0 tb'] tb by auto
qed

end
