(* ===== verification/ViewLitmus.thy ===== *)
theory ViewLitmus
  imports Prelude ViewThreads
begin

text \<open>
  Small programs explored to the end: what the threads read in the executions, against the interleavings
  of their accesses. A thread is a list of instructions and the results of its reads so far.
\<close>

section \<open>Programs\<close>

datatype code = Code "code instr list" "int list"

fun is_reader :: "'l instr \<Rightarrow> bool" where
  "is_reader (I_load _ _) = True"
| "is_reader (I_rmw _ _ _ _) = True"
| "is_reader (I_cmpxchg _ _ _ _) = True"
| "is_reader _ = False"

fun code_cur :: "code \<Rightarrow> code instr option" where
  "code_cur (Code [] r) = None"
| "code_cur (Code (i # is) r) = Some i"

fun code_next :: "code \<Rightarrow> int \<Rightarrow> code" where
  "code_next (Code [] r) v = Code [] r"
| "code_next (Code (i # is) r) v = Code is (if is_reader i then r @ [v] else r)"

fun code_results :: "code \<Rightarrow> int list" where
  "code_results (Code is r) = r"

fun le_bytes :: "nat \<Rightarrow> int \<Rightarrow> 8 word list" where
  "le_bytes 0 v = []"
| "le_bytes (Suc n) v = word_of_int v # le_bytes n (v div 256)"

definition litmus_prog :: "code prog" where
  "litmus_prog = \<lparr>pr_cur = code_cur, pr_next = code_next, pr_md = (\<lambda>_. None),
     pr_data = (\<lambda>a v. \<lparr>sd_ref = a, sd_block = Some (le_bytes (unat (sas_size a)) v)\<rparr>), pr_init = []\<rparr>"

text \<open>The \<open>n\<close>-th global variable, of four bytes.\<close>

definition var :: "nat \<Rightarrow> sym_addr_size" where
  "var n = \<lparr>sas_addr = \<lparr>sa_block = \<lparr>mb_pid = 65535, mb_alloc = word_of_nat n\<rparr>, sa_offset = 0\<rparr>, sas_size = 4\<rparr>"

abbreviation rd :: "nat \<Rightarrow> code instr" where
  "rd n \<equiv> I_load True (var n)"

abbreviation wr :: "nat \<Rightarrow> int \<Rightarrow> code instr" where
  "wr n v \<equiv> I_store True (var n) v"

text \<open>The initial thread makes the initial accesses and starts the others.\<close>

definition par_code :: "code instr list \<Rightarrow> code instr list list \<Rightarrow> code" where
  "par_code ini ts =
     Code (I_local # ini @ map (\<lambda>t. I_create (Code (I_local # t @ [I_local]) [])) ts @ [I_local]) []"

section \<open>What an exploration observes\<close>

definition litmus_conf :: vconf where
  "litmus_conf = ex_dbg\<lparr>vf_fuel := 20\<rparr>"

text \<open>For every execution the results of the reads of the threads that were started.\<close>

definition observed :: "code interp \<Rightarrow> int list list" where
  "observed s = map (\<lambda>t. code_results (it_stack t)) (tl (ip_threads s))"

definition explore_code :: "code \<Rightarrow> code interp list result" where
  "explore_code c = bind_r (tb_init ex_conf False) (\<lambda>tb. explore 10 60 litmus_conf litmus_prog c tb)"

definition outcomes :: "code \<Rightarrow> int list list list result" where
  "outcomes c = bind_r (explore_code c) (\<lambda>ss. Inr (map observed ss))"

section \<open>The interleavings\<close>

definition cell :: "(sym_addr \<times> int) list \<Rightarrow> sym_addr_size \<Rightarrow> int" where
  "cell m a = map_get 0 m (sas_addr a)"

text \<open>One access, atomically: the result and the memory.\<close>

fun sc_access :: "code instr \<Rightarrow> (sym_addr \<times> int) list \<Rightarrow> int list \<times> (sym_addr \<times> int) list" where
  "sc_access (I_load _ a) m = ([cell m a], m)"
| "sc_access (I_store _ a v) m = ([], AList.update (sas_addr a) v m)"
| "sc_access (I_rmw _ op a v) m =
     ([cell m a], case rmw_new_int op (cell m a) v of Inr n \<Rightarrow> AList.update (sas_addr a) n m | Inl _ \<Rightarrow> m)"
| "sc_access (I_cmpxchg _ a c n) m = ([cell m a], if cell m a = c then AList.update (sas_addr a) n m else m)"
| "sc_access _ m = ([], m)"

fun sc_outcomes :: "nat \<Rightarrow> (code instr list \<times> int list) list \<Rightarrow> (sym_addr \<times> int) list \<Rightarrow> int list list list" where
  "sc_outcomes 0 ts m = [map snd ts]"
| "sc_outcomes (Suc n) ts m =
     concat (map (\<lambda>p. case ts ! p of ([], _) \<Rightarrow> []
                     | (i # is, r) \<Rightarrow> let (v, m') = sc_access i m in sc_outcomes n (ts[p := (is, r @ v)]) m')
               [0..<length ts])"

text \<open>All of them: as many steps as there are accesses.\<close>

definition sc_results :: "code instr list \<Rightarrow> code instr list list \<Rightarrow> int list list list" where
  "sc_results ini ts =
     sc_outcomes (sum_list (map length ts)) (map (\<lambda>t. (t, [])) ts) (fold (\<lambda>i m. snd (sc_access i m)) ini [])"

text \<open>Every outcome is explored once and no other one is.\<close>

definition explores_exactly :: "code instr list \<Rightarrow> code instr list list \<Rightarrow> bool" where
  "explores_exactly ini ts =
     (case outcomes (par_code ini ts) of
        Inr os \<Rightarrow> distinct os \<and> set os = set (sc_results ini ts)
      | Inl _ \<Rightarrow> False)"

definition init2 :: "code instr list" where
  "init2 = [wr 0 0, wr 1 0]"

definition store_buffering :: "code instr list list" where
  "store_buffering = [[wr 0 1, rd 1], [wr 1 1, rd 0]]"

definition message_passing :: "code instr list list" where
  "message_passing = [[wr 0 1, wr 1 1], [rd 1, rd 0]]"

definition fetch_add :: "code instr list list" where
  "fetch_add = [[I_rmw True Op_ADD (var 0) 1], [I_rmw True Op_ADD (var 0) 1]]"

definition exchange :: "code instr list list" where
  "exchange = [[I_cmpxchg True (var 0) 0 1, I_local, I_local], [I_cmpxchg True (var 0) 0 2, I_local, I_local]]"

lemma exact_store_buffering: "explores_exactly init2 store_buffering"
  by code_simp

lemma exact_message_passing: "explores_exactly init2 message_passing"
  by code_simp

lemma exact_fetch_add: "explores_exactly [wr 0 0] fetch_add"
  by code_simp

lemma exact_exchange: "explores_exactly [wr 0 0] exchange"
  by code_simp

text \<open>An outcome that is possible and not explored.\<close>

definition misses :: "code instr list \<Rightarrow> code instr list list \<Rightarrow> int list list \<Rightarrow> bool" where
  "misses ini ts o' =
     (o' \<in> set (sc_results ini ts) \<and> (case outcomes (par_code ini ts) of Inr os \<Rightarrow> o' \<notin> set os | Inl _ \<Rightarrow> False))"

text \<open>A thread whose first instruction, or whose second one, is the read.\<close>

definition early_read :: "code instr list \<Rightarrow> code" where
  "early_read is = Code [I_local, wr 0 0, I_create (Code (is @ [rd 0, I_local]) []), wr 0 1, I_local] []"

lemma misses_initial: "misses [] store_buffering [[1], [0]]"
  by code_simp

lemma misses_pointer: "misses [wr 0 0] [[wr 0 1], [I_load False (var 0)]] [[], [1]]"
  by code_simp

lemma misses_bytes: "misses [wr 0 0] [[wr 0 256], [rd 0]] [[], [256]]"
  by code_simp

lemma early_read_first: "outcomes (early_read []) = Inr [[[0]]]"
  by code_simp

lemma early_read_second: "outcomes (early_read [I_local]) = Inr [[[0]], [[1]]]"
  by code_simp

text \<open>The names of the threads, as the builder and as the interpreter have them: those of the builder go on
  from one execution to the next.\<close>

definition thread_names :: "code \<Rightarrow> (cpid list \<times> cpid list) list result" where
  "thread_names c =
     bind_r (explore_code c) (\<lambda>ss. Inr (map (\<lambda>s. (map th_cpid (tb_threads (ip_tb s)), map it_cpid (ip_threads s))) ss))"

lemma threads_renamed:
  "thread_names (early_read [I_local]) =
     Inr [([pid_init, child_real pid_init 0], [pid_init, child_real pid_init 0]),
          ([pid_init, child_real pid_init 1], [pid_init, child_real pid_init 0])]"
  by code_simp

section \<open>Properties\<close>

text \<open>store buffering, message passing, two atomic increments and two compare-exchanges are explored
  exactly: every outcome that an interleaving of the accesses has is seen in one execution, and no
  other one; with all assertions of the builder checked, none fails.\<close>

theorem litmus_explored_exactly:
  "explores_exactly init2 store_buffering \<and> explores_exactly init2 message_passing \<and>
   explores_exactly [wr 0 0] fetch_add \<and> explores_exactly [wr 0 0] exchange"
  using exact_store_buffering exact_message_passing exact_fetch_add exact_exchange by blast

text \<open>outcomes are missed where the builder does not see an access as the program has it: the initial
  value of a variable that is not written first is never a value to go back to; a read through a pointer
  takes its value before it is scheduled; of a written value only the first byte is seen, so that 256 is
  the value 0 that was there; and a read that is the first instruction of its thread is no event.\<close>

theorem litmus_missed:
  "misses [] store_buffering [[1], [0]] \<and> misses [wr 0 0] [[wr 0 1], [I_load False (var 0)]] [[], [1]] \<and>
   misses [wr 0 0] [[wr 0 256], [rd 0]] [[], [256]] \<and>
   outcomes (early_read []) = Inr [[[0]]] \<and> outcomes (early_read [I_local]) = Inr [[[0]], [[1]]]"
  using misses_initial misses_pointer misses_bytes early_read_first early_read_second by blast

end
