(* ===== verification/RfscSched.thy ===== *)
theory RfscSched
  imports Prelude "HOL-Library.Multiset"
begin

text \<open>
  The schedulers that hand decision nodes to the worker threads of the reads-from algorithm
  (\<open>RFSCDecisionTree.h\<close>, \<open>RFSCDecisionTree.cpp\<close>), and the loop of a worker (\<open>RFSCTraceBuilder::reset\<close>,
  \<open>DPORDriver::run_rfsc_parallel\<close>). To a scheduler a node is its depth and its identity.
\<close>

section \<open>The queue of a thread\<close>

type_synonym job = "int \<times> nat"

text \<open>\<open>std::map<int, std::deque<...>>\<close>: the buckets in the order of their depths.\<close>

type_synonym twq = "(int \<times> job list) list"

fun twq_push :: "twq \<Rightarrow> job \<Rightarrow> twq" where
  "twq_push [] j = [(fst j, [j])]"
| "twq_push ((d, js) # q) j =
     (if fst j < d then (fst j, [j]) # (d, js) # q
      else if fst j = d then (d, js @ [j]) # q
      else (d, js) # twq_push q j)"

definition twq_pop :: "twq \<Rightarrow> (job \<times> twq) result" where
  "twq_pop q = assert_r (q \<noteq> []) (case last q of (d, js) \<Rightarrow>
     assert_r (js \<noteq> []) (Inr (hd js, if tl js = [] then butlast q else butlast q @ [(d, tl js)])))"

text \<open>One round moves the last job of the other thread to the front.\<close>

primrec steal_loop :: "nat \<Rightarrow> job list \<Rightarrow> job list \<Rightarrow> job list \<times> job list" where
  "steal_loop 0 my other = (my, other)"
| "steal_loop (Suc n) my other = steal_loop n (last other # my) (butlast other)"

definition twq_steal :: "twq \<Rightarrow> twq \<Rightarrow> (bool \<times> twq \<times> twq) result" where
  "twq_steal q other = assert_r (q = [])
     (case other of [] \<Rightarrow> Inr (False, q, other)
      | (d, js) # rest \<Rightarrow>
          let count = (length js + 1) div 2 in
          assert_r (count > 0) (assert_r (count \<le> length js)
            (let (my, js') = steal_loop count [] js in
             Inr (True, [(d, my)], if js' = [] then rest else (d, js') # rest))))"

definition twq_jobs :: "twq \<Rightarrow> job multiset" where
  "twq_jobs q = (\<Sum>b\<leftarrow>q. mset (snd b))"

definition twq_ok :: "twq \<Rightarrow> bool" where
  "twq_ok q = (sorted_wrt (<) (map fst q) \<and> (\<forall>(d, js)\<in>set q. js \<noteq> [] \<and> (\<forall>j\<in>set js. fst j = d)))"

lemma twq_jobs_simps [simp]:
  "twq_jobs [] = {#}"
  "twq_jobs (b # q) = mset (snd b) + twq_jobs q"
  "twq_jobs (q @ r) = twq_jobs q + twq_jobs r"
  by (simp_all add: twq_jobs_def)

lemma twq_ok_Nil [simp]: "twq_ok []"
  by (simp add: twq_ok_def)

lemma twq_ok_Cons: "twq_ok ((d, js) # q) \<longleftrightarrow> js \<noteq> [] \<and> (\<forall>j\<in>set js. fst j = d) \<and> (\<forall>b\<in>set q. d < fst b) \<and> twq_ok q"
  by (auto simp: twq_ok_def)

lemma twq_ok_snoc: "twq_ok (q @ [(d, js)]) \<longleftrightarrow> js \<noteq> [] \<and> (\<forall>j\<in>set js. fst j = d) \<and> (\<forall>b\<in>set q. fst b < d) \<and> twq_ok q"
  by (auto simp: twq_ok_def sorted_wrt_append)

lemma twq_jobs_empty: "twq_ok q \<Longrightarrow> twq_jobs q = {#} \<longleftrightarrow> q = []"
  by (cases q) (auto simp: twq_ok_def)

lemma twq_push_keys: "b \<in> set (twq_push q j) \<Longrightarrow> fst b = fst j \<or> fst b \<in> fst ` set q"
  by (induction q j rule: twq_push.induct) (auto split: if_splits)

lemma twq_push_ok: "twq_ok q \<Longrightarrow> twq_ok (twq_push q j)"
proof (induction q j rule: twq_push.induct)
  case (2 d js q j)
  have k: "fst b = fst j \<or> (\<exists>c\<in>set q. fst b = fst c)" if "b \<in> set (twq_push q j)" for b using twq_push_keys [OF that] by auto
  show ?case using 2 k by (fastforce simp: twq_ok_Cons)
qed (simp add: twq_ok_Cons)

lemma twq_push_jobs: "twq_jobs (twq_push q j) = add_mset j (twq_jobs q)"
  by (induction q j rule: twq_push.induct) auto

lemma twq_push_nonempty [simp]: "twq_push q j \<noteq> []"
  by (induction q j rule: twq_push.induct) auto

lemma twq_jobs_bucket: "x \<in># twq_jobs q \<longleftrightarrow> (\<exists>b\<in>set q. x \<in> set (snd b))"
  by (induction q) auto

lemma twq_ok_bucket: "twq_ok q \<Longrightarrow> b \<in> set q \<Longrightarrow> x \<in> set (snd b) \<Longrightarrow> fst x = fst b"
  by (cases b) (auto simp: twq_ok_def)

lemma twq_depth_le:
  assumes "twq_ok (q @ [(d, js)])" "x \<in># twq_jobs (q @ [(d, js)])"
  shows "fst x \<le> d"
proof -
  obtain b where b: "b \<in> set (q @ [(d, js)])" "x \<in> set (snd b)" using assms(2) twq_jobs_bucket by blast
  hence "fst x = fst b" using twq_ok_bucket [OF assms(1)] by blast
  moreover have "fst b \<le> d" using b(1) assms(1) by (auto simp: twq_ok_snoc)
  ultimately show ?thesis by simp
qed

text \<open>A thread takes the oldest of its deepest jobs.\<close>

lemma twq_pop_spec:
  assumes "twq_ok q" "q \<noteq> []"
  shows "\<exists>j q'. twq_pop q = Inr (j, q') \<and> twq_ok q' \<and> twq_jobs q = add_mset j (twq_jobs q') \<and> (\<forall>x. x \<in># twq_jobs q \<longrightarrow> fst x \<le> fst j)"
proof -
  obtain r d js where q: "q = r @ [(d, js)]" using assms(2) by (metis append_butlast_last_id prod.collapse)
  obtain j ks where js: "js = j # ks" using assms(1) q by (cases js) (auto simp: twq_ok_snoc)
  have dep: "fst x \<le> fst j" if "x \<in># twq_jobs q" for x
    using twq_depth_le [of r d js x] assms(1) that q js by (auto simp: twq_ok_snoc)
  show ?thesis using assms(1) dep q js
    by (intro exI [of _ j] exI [of _ "if ks = [] then r else r @ [(d, ks)]"]) (auto simp: twq_pop_def twq_ok_snoc)
qed

lemma steal_loop_spec: "n \<le> length js \<Longrightarrow> steal_loop n my js = (drop (length js - n) js @ my, take (length js - n) js)"
proof (induction n arbitrary: my js)
  case (Suc n)
  obtain ks k where js: "js = ks @ [k]" using Suc.prems by (cases js rule: rev_cases) auto
  have "steal_loop (Suc n) my js = (drop (length ks - n) ks @ k # my, take (length ks - n) ks)" using Suc js by simp
  thus ?case using js by simp
qed simp

text \<open>A thief takes the newer half of the shallowest jobs, in their order.\<close>

lemma twq_steal_spec:
  assumes "twq_ok other"
  shows "\<exists>q' other'. twq_steal [] other = Inr (other \<noteq> [], q', other') \<and> twq_ok q' \<and> twq_ok other' \<and>
    twq_jobs q' + twq_jobs other' = twq_jobs other \<and> (other \<noteq> [] \<longrightarrow> q' \<noteq> [])"
proof (cases other)
  case Nil
  thus ?thesis by (simp add: twq_steal_def)
next
  case (Cons b rest)
  obtain d js where b: "b = (d, js)" by (cases b)
  have js: "js \<noteq> []" using assms Cons b by (simp add: twq_ok_Cons)
  hence n: "0 < (length js + 1) div 2" "(length js + 1) div 2 \<le> length js" by (cases js; simp)+
  let ?k = "length js - (length js + 1) div 2"
  have k: "?k < length js" using n js by simp
  let ?my = "drop ?k js" and ?js = "take ?k js"
  have m: "mset ?my + mset ?js = mset js" by (metis add.commute append_take_drop_id mset_append)
  have sub: "set ?my \<subseteq> set js" "set ?js \<subseteq> set js" "?my \<noteq> []" using set_drop_subset [of ?k js] set_take_subset [of ?k js] k by auto
  have o: "js \<noteq> []" "\<forall>j\<in>set js. fst j = d" "\<forall>b\<in>set rest. d < fst b" "twq_ok rest" using assms Cons b by (simp_all add: twq_ok_Cons)
  define o' where "o' = (if ?js = [] then rest else (d, ?js) # rest)"
  have "twq_steal [] other = Inr (True, [(d, ?my)], o')"
    using n js steal_loop_spec [OF n(2), of "[]"] unfolding o'_def by (simp add: twq_steal_def Cons b Let_def del: One_nat_def add_Suc_right)
  moreover have "twq_ok [(d, ?my)]" "twq_ok o'" using sub o by (auto simp: twq_ok_Cons o'_def)
  moreover have "twq_jobs [(d, ?my)] + twq_jobs o' = twq_jobs other" using m by (auto simp: Cons b o'_def add.assoc [symmetric])
  ultimately show ?thesis using Cons by - (rule exI [of _ "[(d, ?my)]"], rule exI [of _ o'], simp)
qed

section \<open>The workers\<close>

text \<open>Where a worker is. It asks for a job, first from its own queue, then under the scheduler's lock from
  those of the others, or waits; it drops a pruned job or executes it, which makes new jobs. At the end
  it counts the job as done, under the driver's lock, and halts all when none is left or an error was
  found.\<close>

datatype wphase =
    W_reset
  | W_lock
  | W_look "nat list"
  | W_wait
  | W_got "job option"
  | W_run job
  | W_push job job
  | W_notify job
  | W_halt
  | W_unlock
  | W_stopped

text \<open>\<open>ws_made\<close>, \<open>ws_executed\<close>, \<open>ws_dropped\<close> and \<open>ws_error\<close> record the history: the jobs made, those executed, those
  dropped because they were pruned, and whether a worker halted the others for an error.\<close>

record wsched =
  ws_queues :: "twq list"
  ws_mutex :: "nat option"
  ws_driver :: "nat option"
  ws_halting :: bool
  ws_outstanding :: nat
  ws_phase :: "wphase list"
  ws_made :: "job multiset"
  ws_executed :: "job multiset"
  ws_dropped :: "job multiset"
  ws_error :: bool

definition ws_goto :: "wsched \<Rightarrow> nat \<Rightarrow> wphase \<Rightarrow> wsched" where
  "ws_goto s i w = s\<lparr>ws_phase := (ws_phase s)[i := w]\<rparr>"

definition ws_set_queue :: "wsched \<Rightarrow> nat \<Rightarrow> twq \<Rightarrow> wsched" where
  "ws_set_queue s i q = s\<lparr>ws_queues := (ws_queues s)[i := q]\<rparr>"

text \<open>The first \<open>enqueue\<close>, of the root, is made by the thread that constructs the tree.\<close>

definition ws_start :: "nat \<Rightarrow> job \<Rightarrow> wsched" where
  "ws_start n root = \<lparr>ws_queues = (replicate n [])[0 := twq_push [] root], ws_mutex = None, ws_driver = None, ws_halting = False,
     ws_outstanding = 1, ws_phase = replicate n W_reset, ws_made = {#root#}, ws_executed = {#}, ws_dropped = {#}, ws_error = False\<rparr>"

text \<open>\<open>WorkstealingPQScheduler::enqueue\<close> in three steps: the count, the queue, the notification of one waiter.\<close>

definition enqueue_count :: "nat \<Rightarrow> job \<Rightarrow> job \<Rightarrow> wsched \<Rightarrow> wsched" where
  "enqueue_count i cur j s = ws_goto (s\<lparr>ws_outstanding := ws_outstanding s + 1, ws_made := add_mset j (ws_made s)\<rparr>) i (W_push cur j)"

definition enqueue_push :: "nat \<Rightarrow> job \<Rightarrow> job \<Rightarrow> wsched \<Rightarrow> wsched" where
  "enqueue_push i cur j s = ws_goto (ws_set_queue s i (twq_push (ws_queues s ! i) j)) i (W_notify cur)"

definition enqueue_notify :: "nat \<Rightarrow> job \<Rightarrow> nat option \<Rightarrow> wsched \<Rightarrow> wsched" where
  "enqueue_notify i cur k s = ws_goto (case k of None \<Rightarrow> s | Some k \<Rightarrow> ws_goto s k W_lock) i (W_run cur)"

text \<open>\<open>WorkstealingPQScheduler::dequeue\<close>: its fast path, the start of a round of its loop, and one attempt to steal.\<close>

definition dequeue_fast :: "nat \<Rightarrow> wsched \<Rightarrow> wsched result" where
  "dequeue_fast i s =
     (if ws_halting s then Inr (ws_goto s i (W_got None))
      else if ws_queues s ! i \<noteq> [] then
        bind_r (twq_pop (ws_queues s ! i)) (\<lambda>(j, q). Inr (ws_goto (ws_set_queue s i q) i (W_got (Some j))))
      else Inr (ws_goto s i W_lock))"

definition others_of :: "nat \<Rightarrow> nat \<Rightarrow> nat list" where
  "others_of n i = (let v = [0..<n - 1] in if i \<noteq> length v then v[i := length v] else v)"

definition dequeue_round :: "nat \<Rightarrow> nat list \<Rightarrow> wsched \<Rightarrow> wsched result" where
  "dequeue_round i order s =
     (if ws_halting s then Inr (ws_goto s i (W_got None))
      else if ws_queues s ! i \<noteq> [] then
        bind_r (twq_pop (ws_queues s ! i)) (\<lambda>(j, q). Inr (ws_goto (ws_set_queue s i q) i (W_got (Some j))))
      else Inr (ws_goto (s\<lparr>ws_mutex := Some i\<rparr>) i (W_look order)))"

definition dequeue_steal :: "nat \<Rightarrow> nat \<Rightarrow> nat list \<Rightarrow> wsched \<Rightarrow> wsched result" where
  "dequeue_steal i k ks s =
     assert_r (k \<noteq> i)
       (bind_r (twq_steal (ws_queues s ! i) (ws_queues s ! k)) (\<lambda>(ok, q, q').
          if ok then assert_r (q \<noteq> []) (bind_r (twq_pop q) (\<lambda>(j, q).
            Inr (ws_goto ((ws_set_queue (ws_set_queue s i q) k q')\<lparr>ws_mutex := None\<rparr>) i (W_got (Some j)))))
          else Inr (ws_goto s i (W_look ks))))"

definition dequeue_wait :: "nat \<Rightarrow> wsched \<Rightarrow> wsched" where
  "dequeue_wait i s = ws_goto (s\<lparr>ws_mutex := None\<rparr>) i W_wait"

text \<open>\<open>WorkstealingPQScheduler::halt\<close> wakes all waiters.\<close>

definition halt_all :: "nat \<Rightarrow> wsched \<Rightarrow> wsched" where
  "halt_all i s = ws_goto (s\<lparr>ws_halting := True, ws_phase := map (\<lambda>w. if w = W_wait then W_lock else w) (ws_phase s)\<rparr>) i W_unlock"

text \<open>\<open>reset\<close> asks again when the job is pruned and stops when there is none.\<close>

definition reset_phase :: "bool \<Rightarrow> job option \<Rightarrow> wphase" where
  "reset_phase pruned j = (case j of None \<Rightarrow> W_stopped | Some j \<Rightarrow> if pruned then W_reset else W_run j)"

definition take_job :: "nat \<Rightarrow> bool \<Rightarrow> job option \<Rightarrow> wsched \<Rightarrow> wsched" where
  "take_job i pruned j s =
     ws_goto (case j of Some x \<Rightarrow> if pruned then s\<lparr>ws_dropped := add_mset x (ws_dropped s)\<rparr> else s | None \<Rightarrow> s) i (reset_phase pruned j)"

text \<open>The end of a round of the driver's loop.\<close>

definition finish_job :: "nat \<Rightarrow> job \<Rightarrow> bool \<Rightarrow> wsched \<Rightarrow> wsched" where
  "finish_job i cur err s =
     (let remain = ws_outstanding s - 1 in
      ws_goto (s\<lparr>ws_driver := Some i, ws_outstanding := remain, ws_executed := add_mset cur (ws_executed s), ws_error := (ws_error s \<or> err)\<rparr>) i
        (if err \<or> remain = 0 then W_halt else W_unlock))"

text \<open>The steps of the workers. \<open>pruned\<close> says which jobs may be pruned when they are taken; a worker may make
  any jobs while it executes one. A step that fails an assertion leads nowhere.\<close>

inductive ws_step :: "(job \<Rightarrow> bool) \<Rightarrow> wsched \<Rightarrow> wsched \<Rightarrow> bool" for pruned where
  st_fast: "i < length (ws_phase s) \<Longrightarrow> ws_phase s ! i = W_reset \<Longrightarrow> dequeue_fast i s = Inr s' \<Longrightarrow> ws_step pruned s s'"
| st_round: "i < length (ws_phase s) \<Longrightarrow> ws_phase s ! i = W_lock \<Longrightarrow> ws_mutex s = None \<Longrightarrow> mset order = mset (others_of (length (ws_queues s)) i) \<Longrightarrow>
    dequeue_round i order s = Inr s' \<Longrightarrow> ws_step pruned s s'"
| st_steal: "i < length (ws_phase s) \<Longrightarrow> ws_phase s ! i = W_look (k # ks) \<Longrightarrow> dequeue_steal i k ks s = Inr s' \<Longrightarrow> ws_step pruned s s'"
| st_wait: "i < length (ws_phase s) \<Longrightarrow> ws_phase s ! i = W_look [] \<Longrightarrow> ws_step pruned s (dequeue_wait i s)"
| st_got: "i < length (ws_phase s) \<Longrightarrow> ws_phase s ! i = W_got j \<Longrightarrow> p \<longrightarrow> (\<exists>x. j = Some x \<and> pruned x) \<Longrightarrow> ws_step pruned s (take_job i p j s)"
| st_count: "i < length (ws_phase s) \<Longrightarrow> ws_phase s ! i = W_run cur \<Longrightarrow> ws_step pruned s (enqueue_count i cur j s)"
| st_push: "i < length (ws_phase s) \<Longrightarrow> ws_phase s ! i = W_push cur j \<Longrightarrow> ws_step pruned s (enqueue_push i cur j s)"
| st_notify: "i < length (ws_phase s) \<Longrightarrow> ws_phase s ! i = W_notify cur \<Longrightarrow>
    (case k of None \<Rightarrow> W_wait \<notin> set (ws_phase s) | Some k \<Rightarrow> k < length (ws_phase s) \<and> ws_phase s ! k = W_wait) \<Longrightarrow>
    ws_step pruned s (enqueue_notify i cur k s)"
| st_finish: "i < length (ws_phase s) \<Longrightarrow> ws_phase s ! i = W_run cur \<Longrightarrow> ws_driver s = None \<Longrightarrow> ws_step pruned s (finish_job i cur err s)"
| st_halt: "i < length (ws_phase s) \<Longrightarrow> ws_phase s ! i = W_halt \<Longrightarrow> ws_mutex s = None \<Longrightarrow> ws_step pruned s (halt_all i s)"
| st_unlock: "i < length (ws_phase s) \<Longrightarrow> ws_phase s ! i = W_unlock \<Longrightarrow> ws_step pruned s (ws_goto (s\<lparr>ws_driver := None\<rparr>) i W_reset)"

text \<open>Waiting threads may also wake up on their own.\<close>

inductive ws_spurious :: "wsched \<Rightarrow> wsched \<Rightarrow> bool" where
  "i < length (ws_phase s) \<Longrightarrow> ws_phase s ! i = W_wait \<Longrightarrow> ws_spurious s (ws_goto s i W_lock)"

inductive ws_reach :: "(job \<Rightarrow> bool) \<Rightarrow> nat \<Rightarrow> job \<Rightarrow> wsched \<Rightarrow> bool" for pruned n root where
  reach_start: "ws_reach pruned n root (ws_start n root)"
| reach_step: "ws_reach pruned n root s \<Longrightarrow> ws_step pruned s s' \<Longrightarrow> ws_reach pruned n root s'"
| reach_spurious: "ws_reach pruned n root s \<Longrightarrow> ws_spurious s s' \<Longrightarrow> ws_reach pruned n root s'"

section \<open>The invariant\<close>

text \<open>The job a worker holds, and the one it is about to put into its queue.\<close>

definition held :: "wphase \<Rightarrow> job multiset" where
  "held w = (case w of W_got (Some j) \<Rightarrow> {#j#} | W_run j \<Rightarrow> {#j#} | W_push j x \<Rightarrow> {#j, x#} | W_notify j \<Rightarrow> {#j#} | _ \<Rightarrow> {#})"

definition ws_open :: "wsched \<Rightarrow> job multiset" where
  "ws_open s = (\<Sum>q\<leftarrow>ws_queues s. twq_jobs q) + (\<Sum>w\<leftarrow>ws_phase s. held w)"

definition idle_phase :: "wphase \<Rightarrow> bool" where
  "idle_phase w = (case w of W_lock \<Rightarrow> True | W_look _ \<Rightarrow> True | W_wait \<Rightarrow> True | _ \<Rightarrow> False)"

definition worker_ok :: "nat \<Rightarrow> nat option \<Rightarrow> nat option \<Rightarrow> nat \<Rightarrow> twq \<Rightarrow> wphase \<Rightarrow> bool" where
  "worker_ok n m d i q w = (twq_ok q \<and> (idle_phase w \<longrightarrow> q = []) \<and> ((\<exists>ks. w = W_look ks) \<longleftrightarrow> m = Some i) \<and>
     (\<forall>ks. w = W_look ks \<longrightarrow> i \<notin> set ks \<and> set ks \<subseteq> {..<n}) \<and> ((w = W_halt \<or> w = W_unlock) \<longleftrightarrow> d = Some i))"

definition ws_inv :: "wsched \<Rightarrow> bool" where
  "ws_inv s = (length (ws_queues s) = length (ws_phase s) \<and> (\<forall>k. ws_mutex s = Some k \<or> ws_driver s = Some k \<longrightarrow> k < length (ws_phase s)) \<and>
     (\<forall>i < length (ws_phase s). worker_ok (length (ws_phase s)) (ws_mutex s) (ws_driver s) i (ws_queues s ! i) (ws_phase s ! i)))"

definition ws_counts :: "wsched \<Rightarrow> bool" where
  "ws_counts s = (ws_made s = ws_open s + ws_executed s + ws_dropped s \<and> ws_outstanding s = size (ws_open s) + size (ws_dropped s) \<and>
     (ws_halting s \<or> W_halt \<in> set (ws_phase s) \<longrightarrow> \<not> ws_error s \<longrightarrow> ws_outstanding s = 0) \<and>
     (ws_outstanding s = 0 \<or> ws_error s \<longrightarrow> ws_halting s \<or> W_halt \<in> set (ws_phase s)) \<and>
     (ws_halting s \<longrightarrow> W_wait \<notin> set (ws_phase s) \<and> (\<forall>ks. W_look ks \<notin> set (ws_phase s))) \<and>
     (W_stopped \<in> set (ws_phase s) \<or> W_got None \<in> set (ws_phase s) \<longrightarrow> ws_halting s))"

lemma sum_list_mset_update:
  "i < length xs \<Longrightarrow> (\<Sum>x\<leftarrow>xs[i := y]. f x) + f (xs ! i) = (\<Sum>x\<leftarrow>xs. f x) + (f y :: 'a multiset)"
  by (induction xs arbitrary: i) (auto split: nat.splits simp: ac_simps)

lemma goto_fields [simp]:
  "ws_queues (ws_goto s i w) = ws_queues s" "ws_mutex (ws_goto s i w) = ws_mutex s" "ws_driver (ws_goto s i w) = ws_driver s"
  "ws_halting (ws_goto s i w) = ws_halting s" "ws_outstanding (ws_goto s i w) = ws_outstanding s" "ws_phase (ws_goto s i w) = (ws_phase s)[i := w]"
  "ws_made (ws_goto s i w) = ws_made s" "ws_executed (ws_goto s i w) = ws_executed s" "ws_dropped (ws_goto s i w) = ws_dropped s" "ws_error (ws_goto s i w) = ws_error s"
  by (simp_all add: ws_goto_def)

lemma set_queue_fields [simp]:
  "ws_queues (ws_set_queue s i q) = (ws_queues s)[i := q]" "ws_mutex (ws_set_queue s i q) = ws_mutex s" "ws_driver (ws_set_queue s i q) = ws_driver s"
  "ws_halting (ws_set_queue s i q) = ws_halting s" "ws_outstanding (ws_set_queue s i q) = ws_outstanding s" "ws_phase (ws_set_queue s i q) = ws_phase s"
  "ws_made (ws_set_queue s i q) = ws_made s" "ws_executed (ws_set_queue s i q) = ws_executed s" "ws_dropped (ws_set_queue s i q) = ws_dropped s" "ws_error (ws_set_queue s i q) = ws_error s"
  by (simp_all add: ws_set_queue_def)

text \<open>What a step of worker \<open>i\<close> changes of the queues, phases and locks.\<close>

lemma inv_update:
  assumes "ws_inv s" "i < length (ws_phase s)" "ws_queues s' = (ws_queues s)[i := q]" "ws_phase s' = (ws_phase s)[i := w]"
    "worker_ok (length (ws_phase s)) (ws_mutex s') (ws_driver s') i q w"
    "ws_mutex s' = ws_mutex s \<or> (\<forall>j. j \<noteq> i \<longrightarrow> ws_mutex s \<noteq> Some j \<and> ws_mutex s' \<noteq> Some j)"
    "ws_driver s' = ws_driver s \<or> (\<forall>j. j \<noteq> i \<longrightarrow> ws_driver s \<noteq> Some j \<and> ws_driver s' \<noteq> Some j)"
  shows "ws_inv s'"
proof -
  have l: "length (ws_queues s) = length (ws_phase s)" "length (ws_phase s') = length (ws_phase s)" using assms(1,4) by (simp_all add: ws_inv_def)
  have "worker_ok (length (ws_phase s)) (ws_mutex s') (ws_driver s') j (ws_queues s' ! j) (ws_phase s' ! j)" if j: "j < length (ws_phase s)" for j
  proof (cases "j = i")
    case True
    thus ?thesis using assms(2-5) l by simp
  next
    case False
    have "worker_ok (length (ws_phase s)) (ws_mutex s) (ws_driver s) j (ws_queues s ! j) (ws_phase s ! j)" using assms(1) j by (simp add: ws_inv_def)
    moreover have "ws_mutex s' = Some j \<longleftrightarrow> ws_mutex s = Some j" "ws_driver s' = Some j \<longleftrightarrow> ws_driver s = Some j"
      using assms(6,7) False by metis+
    ultimately show ?thesis using assms(3,4) False by (simp add: worker_ok_def)
  qed
  moreover have "ws_mutex s' = Some k \<or> ws_driver s' = Some k \<Longrightarrow> k < length (ws_phase s)" for k
    using assms(1,2,6,7) unfolding ws_inv_def by metis
  ultimately show ?thesis using l assms(3) by (simp add: ws_inv_def)
qed

lemma inv_goto:
  assumes "ws_inv s" "i < length (ws_phase s)" "worker_ok (length (ws_phase s)) (ws_mutex s) (ws_driver s) i (ws_queues s ! i) w"
  shows "ws_inv (ws_goto s i w)"
  by (rule inv_update [OF assms(1,2), where q = "ws_queues s ! i" and w = w]) (use assms in simp_all)

lemma update_same: "xs ! i = y \<Longrightarrow> xs[i := y] = xs"
  by auto

lemma inv_worker: "ws_inv s \<Longrightarrow> i < length (ws_phase s) \<Longrightarrow> worker_ok (length (ws_phase s)) (ws_mutex s) (ws_driver s) i (ws_queues s ! i) (ws_phase s ! i)"
  by (simp add: ws_inv_def)

lemma others_of: "i < n \<Longrightarrow> set (others_of n i) \<subseteq> {..<n} - {i}"
  by (auto simp: others_of_def Let_def in_set_conv_nth nth_list_update split: if_splits)

definition wake_all :: "wsched \<Rightarrow> wsched" where
  "wake_all s = s\<lparr>ws_phase := map (\<lambda>w. if w = W_wait then W_lock else w) (ws_phase s)\<rparr>"

lemma inv_wake: "ws_inv s \<Longrightarrow> ws_inv (wake_all s)"
  by (auto simp: ws_inv_def worker_ok_def idle_phase_def wake_all_def)

lemma inv_step:
  assumes "ws_inv s" "ws_step pruned s s'"
  shows "ws_inv s'"
  using assms(2)
proof (cases rule: ws_step.cases)
  case (st_fast i)
  note w = inv_worker [OF assms(1) st_fast(1), unfolded st_fast(2) worker_ok_def]
  show ?thesis
  proof (cases "\<not> ws_halting s \<and> ws_queues s ! i \<noteq> []")
    case True
    obtain j q where q: "twq_pop (ws_queues s ! i) = Inr (j, q)" "twq_ok q" using twq_pop_spec w True by blast
    show ?thesis using st_fast(3) True q
      by (intro inv_update [OF assms(1) st_fast(1), where q = q and w = "W_got (Some j)"])
        (use w in \<open>auto simp: dequeue_fast_def worker_ok_def idle_phase_def\<close>)
  next
    case False
    hence "\<exists>v. s' = ws_goto s i v \<and> worker_ok (length (ws_phase s)) (ws_mutex s) (ws_driver s) i (ws_queues s ! i) v"
      using st_fast(3) w by (auto simp: dequeue_fast_def worker_ok_def idle_phase_def split: if_splits)
    thus ?thesis using inv_goto [OF assms(1) st_fast(1)] by blast
  qed
next
  case (st_round i order)
  note w = inv_worker [OF assms(1) st_round(1), unfolded st_round(2) worker_ok_def]
  have q: "ws_queues s ! i = []" using w by (simp add: idle_phase_def)
  show ?thesis
  proof (cases "ws_halting s")
    case True
    hence "s' = ws_goto s i (W_got None)" using st_round(5) by (simp add: dequeue_round_def)
    thus ?thesis using inv_goto [OF assms(1) st_round(1)] w by (simp add: worker_ok_def idle_phase_def)
  next
    case False
    hence s': "s' = ws_goto (s\<lparr>ws_mutex := Some i\<rparr>) i (W_look order)" using st_round(5) q by (simp add: dequeue_round_def)
    have l: "length (ws_queues s) = length (ws_phase s)" using assms(1) by (simp add: ws_inv_def)
    have "set order \<subseteq> {..<length (ws_phase s)} - {i}" using others_of [OF st_round(1)] mset_eq_setD [OF st_round(4)] l by simp
    hence "worker_ok (length (ws_phase s)) (Some i) (ws_driver s) i [] (W_look order)"
      using w by (auto simp: worker_ok_def idle_phase_def)
    moreover have "(ws_queues s)[i := []] = ws_queues s" using list_update_id [of "ws_queues s" i] q by simp
    ultimately show ?thesis unfolding s' using st_round(3)
      by (intro inv_update [OF assms(1) st_round(1), where q = "[]" and w = "W_look order"]) simp_all
  qed
next
  case (st_steal i k ks)
  note w = inv_worker [OF assms(1) st_steal(1), unfolded st_steal(2) worker_ok_def]
  have q: "ws_queues s ! i = []" "k \<noteq> i" "k < length (ws_phase s)" using w by (auto simp: idle_phase_def)
  note v = inv_worker [OF assms(1) q(3), unfolded worker_ok_def]
  obtain q1 q2 where st: "twq_steal [] (ws_queues s ! k) = Inr (ws_queues s ! k \<noteq> [], q1, q2)" "twq_ok q1" "twq_ok q2"
    "ws_queues s ! k \<noteq> [] \<longrightarrow> q1 \<noteq> []" using twq_steal_spec v by blast
  show ?thesis
  proof (cases "ws_queues s ! k = []")
    case True
    hence "s' = ws_goto s i (W_look ks)" using st_steal(3) st(1) q by (simp add: dequeue_steal_def)
    thus ?thesis using inv_goto [OF assms(1) st_steal(1)] w by (simp add: worker_ok_def idle_phase_def)
  next
    case False
    obtain j q' where q': "twq_pop q1 = Inr (j, q')" "twq_ok q'" using twq_pop_spec st False by blast
    let ?s = "ws_goto ((ws_set_queue s i q')\<lparr>ws_mutex := None\<rparr>) i (W_got (Some j))"
    have s': "s' = ws_set_queue ?s k q2"
      using st_steal(3) [symmetric] st(1,4) q q'(1) False by (simp add: dequeue_steal_def ws_goto_def ws_set_queue_def)
    have 1: "ws_inv ?s"
      by (rule inv_update [OF assms(1) st_steal(1), where q = q' and w = "W_got (Some j)"]) (use w q'(2) in \<open>auto simp: worker_ok_def idle_phase_def\<close>)
    have k: "k < length (ws_phase ?s)" "ws_phase ?s ! k = ws_phase s ! k" "ws_queues ?s ! k = ws_queues s ! k" using q by simp_all
    have 2: "worker_ok (length (ws_phase ?s)) (ws_mutex ?s) (ws_driver ?s) k q2 (ws_phase s ! k)"
      using inv_worker [OF 1 k(1)] st(3) False unfolding k(2,3) worker_ok_def by blast
    show ?thesis unfolding s'
      by (rule inv_update [OF 1 k(1), where q = q2 and w = "ws_phase s ! k"]) (use 2 k(2) in \<open>simp_all flip: k(2)\<close>)
  qed
next
  case (st_wait i)
  note w = inv_worker [OF assms(1) st_wait(2), unfolded st_wait(3) worker_ok_def]
  show ?thesis unfolding st_wait(1) dequeue_wait_def using w
    by (intro inv_update [OF assms(1) st_wait(2), where q = "ws_queues s ! i" and w = W_wait]) (auto simp: worker_ok_def idle_phase_def update_same)
next
  case (st_got i j p)
  note w = inv_worker [OF assms(1) st_got(2), unfolded st_got(3) worker_ok_def]
  show ?thesis unfolding st_got(1) take_job_def using w
    by (intro inv_update [OF assms(1) st_got(2), where q = "ws_queues s ! i" and w = "reset_phase p j"])
      (auto simp: worker_ok_def idle_phase_def reset_phase_def split: option.splits)
next
  case (st_count i cur j)
  note w = inv_worker [OF assms(1) st_count(2), unfolded st_count(3) worker_ok_def]
  show ?thesis unfolding st_count(1) enqueue_count_def using w
    by (intro inv_update [OF assms(1) st_count(2), where q = "ws_queues s ! i" and w = "W_push cur j"]) (auto simp: worker_ok_def idle_phase_def)
next
  case (st_push i cur j)
  note w = inv_worker [OF assms(1) st_push(2), unfolded st_push(3) worker_ok_def]
  show ?thesis unfolding st_push(1) enqueue_push_def using w twq_push_ok [of "ws_queues s ! i" j]
    by (intro inv_update [OF assms(1) st_push(2), where q = "twq_push (ws_queues s ! i) j" and w = "W_notify cur"]) (auto simp: worker_ok_def idle_phase_def)
next
  case (st_notify i cur k)
  note w = inv_worker [OF assms(1) st_notify(2), unfolded st_notify(3) worker_ok_def]
  have 1: "ws_inv (ws_goto s k' W_lock)" if "k = Some k'" for k'
  proof -
    have k: "k' < length (ws_phase s)" "ws_phase s ! k' = W_wait" using st_notify(4) that by simp_all
    show ?thesis using inv_worker [OF assms(1) k(1), unfolded k(2)]
      by (intro inv_goto [OF assms(1) k(1)]) (simp add: worker_ok_def idle_phase_def)
  qed
  show ?thesis unfolding st_notify(1) enqueue_notify_def
  proof (cases k)
    case None
    show "ws_inv (ws_goto (case k of None \<Rightarrow> s | Some k \<Rightarrow> ws_goto s k W_lock) i (W_run cur))"
      using w None by (simp, intro inv_goto [OF assms(1) st_notify(2)]) (auto simp: worker_ok_def idle_phase_def)
  next
    case (Some k')
    show "ws_inv (ws_goto (case k of None \<Rightarrow> s | Some k \<Rightarrow> ws_goto s k W_lock) i (W_run cur))"
      using w Some st_notify(2) by (simp, intro inv_goto [OF 1]) (auto simp: worker_ok_def idle_phase_def)
  qed
next
  case (st_finish i cur err)
  note w = inv_worker [OF assms(1) st_finish(2), unfolded st_finish(3) worker_ok_def]
  show ?thesis unfolding st_finish(1) finish_job_def Let_def using w st_finish(4)
    by (intro inv_update [OF assms(1) st_finish(2), where q = "ws_queues s ! i" and w = "if err \<or> ws_outstanding s - 1 = 0 then W_halt else W_unlock"])
      (auto simp: worker_ok_def idle_phase_def)
next
  case (st_halt i)
  note w = inv_worker [OF assms(1) st_halt(2), unfolded st_halt(3) worker_ok_def]
  show ?thesis unfolding st_halt(1) halt_all_def using w st_halt(2)
    by (intro inv_update [OF inv_wake [OF assms(1)], where i = i and q = "ws_queues s ! i" and w = W_unlock]) (auto simp: worker_ok_def idle_phase_def wake_all_def)
next
  case (st_unlock i)
  note w = inv_worker [OF assms(1) st_unlock(2), unfolded st_unlock(3) worker_ok_def]
  show ?thesis unfolding st_unlock(1) using w
    by (intro inv_update [OF assms(1) st_unlock(2), where q = "ws_queues s ! i" and w = W_reset]) (auto simp: worker_ok_def idle_phase_def)
qed

section \<open>The jobs are counted\<close>

lemma open_update:
  assumes "length (ws_queues s) = length (ws_phase s)" "i < length (ws_phase s)" "ws_queues s' = (ws_queues s)[i := q]" "ws_phase s' = (ws_phase s)[i := w]"
  shows "ws_open s' + (twq_jobs (ws_queues s ! i) + held (ws_phase s ! i)) = ws_open s + (twq_jobs q + held w)"
proof -
  have "(\<Sum>q\<leftarrow>ws_queues s'. twq_jobs q) + twq_jobs (ws_queues s ! i) = (\<Sum>q\<leftarrow>ws_queues s. twq_jobs q) + twq_jobs q"
    "(\<Sum>w\<leftarrow>ws_phase s'. held w) + held (ws_phase s ! i) = (\<Sum>w\<leftarrow>ws_phase s. held w) + held w"
    using assms sum_list_mset_update [of i "ws_queues s" twq_jobs q] sum_list_mset_update [of i "ws_phase s" held w] by simp_all
  thus ?thesis by (simp add: ws_open_def) (metis (no_types, lifting) add.assoc add.left_commute)
qed

lemma held_open: "w \<in> set (ws_phase s) \<Longrightarrow> held w \<subseteq># ws_open s"
proof -
  have "w \<in> set ws \<Longrightarrow> held w \<subseteq># (\<Sum>w\<leftarrow>ws. held w)" for ws
    by (induction ws) (auto intro: subset_mset.order_trans)
  thus "w \<in> set (ws_phase s) \<Longrightarrow> held w \<subseteq># ws_open s" using mset_subset_eq_add_right subset_mset.order_trans unfolding ws_open_def by blast
qed

lemma phase_set: "i < length ws \<Longrightarrow> x \<in> set (ws[i := w]) \<Longrightarrow> x = w \<or> x \<in> set ws"
  using set_update_subset_insert by fastforce

lemma phase_set_keep: "x \<in> set ws \<Longrightarrow> x \<noteq> ws ! i \<Longrightarrow> x \<in> set (ws[i := w])"
  by (metis in_set_conv_nth length_list_update nth_list_update_neq)

text \<open>Most steps neither make nor end a job.\<close>

lemma counts_move:
  assumes "ws_counts s" "length (ws_queues s) = length (ws_phase s)" "i < length (ws_phase s)" "ws_queues s' = (ws_queues s)[i := q]"
    "ws_phase s' = (ws_phase s)[i := w]" "ws_phase s ! i \<noteq> W_halt" "twq_jobs q + held w = twq_jobs (ws_queues s ! i) + held (ws_phase s ! i)"
    "ws_halting s' = ws_halting s" "ws_error s' = ws_error s" "ws_made s' = ws_made s" "ws_executed s' = ws_executed s"
    "ws_dropped s' = ws_dropped s" "ws_outstanding s' = ws_outstanding s"
    "ws_halting s \<longrightarrow> w \<noteq> W_wait \<and> (\<forall>ks. w \<noteq> W_look ks)" "w = W_stopped \<or> w = W_got None \<longrightarrow> ws_halting s" "w \<noteq> W_halt"
  shows "ws_counts s'"
proof -
  have "ws_open s' = ws_open s" using open_update [OF assms(2-5)] assms(7) by simp
  thus ?thesis using assms(1,8-16) phase_set [OF assms(3), of _ w] phase_set_keep [of W_halt "ws_phase s" i w] assms(6)
    unfolding ws_counts_def assms(5) by metis
qed

lemma counts_goto:
  assumes "ws_counts s" "ws_inv s" "i < length (ws_phase s)" "ws_phase s ! i \<noteq> W_halt" "held w = held (ws_phase s ! i)"
    "ws_halting s \<longrightarrow> w \<noteq> W_wait \<and> (\<forall>ks. w \<noteq> W_look ks)" "w = W_stopped \<or> w = W_got None \<longrightarrow> ws_halting s" "w \<noteq> W_halt"
  shows "ws_counts (ws_goto s i w)"
  by (rule counts_move [OF assms(1) _ assms(3), where q = "ws_queues s ! i" and w = w]) (use assms in \<open>simp_all add: ws_inv_def\<close>)

lemma counts_step:
  assumes "ws_counts s" "ws_inv s" "ws_step pruned s s'"
  shows "ws_counts s'"
proof -
  have l: "length (ws_queues s) = length (ws_phase s)" using assms(2) by (simp add: ws_inv_def)
  have pop: "\<exists>j q. twq_pop (ws_queues s ! i) = Inr (j, q) \<and> twq_jobs (ws_queues s ! i) = add_mset j (twq_jobs q)"
    if "i < length (ws_phase s)" "ws_queues s ! i \<noteq> []" for i
    using twq_pop_spec [OF _ that(2)] inv_worker [OF assms(2) that(1)] unfolding worker_ok_def by blast
  note sz = assms(1) [unfolded ws_counts_def]
  show ?thesis
    using assms(3)
  proof (cases rule: ws_step.cases)
    case (st_fast i)
    show ?thesis
    proof (cases "\<not> ws_halting s \<and> ws_queues s ! i \<noteq> []")
      case True
      obtain j q where q: "twq_pop (ws_queues s ! i) = Inr (j, q)" "twq_jobs (ws_queues s ! i) = add_mset j (twq_jobs q)"
        using pop [OF st_fast(1)] True by blast
      show ?thesis using st_fast(2,3) True q
        by (intro counts_move [OF assms(1) l st_fast(1), where q = q and w = "W_got (Some j)"])
          (auto simp: dequeue_fast_def held_def)
    next
      case False
      show ?thesis using st_fast(2,3) False counts_goto [OF assms(1,2) st_fast(1), of "W_got None"] counts_goto [OF assms(1,2) st_fast(1), of W_lock]
        by (auto simp: dequeue_fast_def held_def split: if_splits)
    qed
  next
    case (st_round i order)
    have q: "ws_queues s ! i = []" using inv_worker [OF assms(2) st_round(1)] st_round(2) by (simp add: worker_ok_def idle_phase_def)
    show ?thesis
    proof (cases "ws_halting s")
      case True
      thus ?thesis using st_round(2,5) counts_goto [OF assms(1,2) st_round(1), of "W_got None"] by (simp add: dequeue_round_def held_def)
    next
      case False
      thus ?thesis using st_round(2,5) q
        by (intro counts_move [OF assms(1) l st_round(1), where q = "ws_queues s ! i" and w = "W_look order"]) (auto simp: dequeue_round_def held_def update_same)
    qed
  next
    case (st_steal i k ks)
    have w: "ws_queues s ! i = []" "k \<noteq> i" "k < length (ws_phase s)"
      using inv_worker [OF assms(2) st_steal(1), unfolded st_steal(2) worker_ok_def] by (auto simp: idle_phase_def)
    have nh: "\<not> ws_halting s" using sz st_steal(1,2) nth_mem by metis
    obtain q1 q2 where st: "twq_steal [] (ws_queues s ! k) = Inr (ws_queues s ! k \<noteq> [], q1, q2)" "twq_ok q1"
      "twq_jobs q1 + twq_jobs q2 = twq_jobs (ws_queues s ! k)" "ws_queues s ! k \<noteq> [] \<longrightarrow> q1 \<noteq> []"
      using twq_steal_spec inv_worker [OF assms(2) w(3)] unfolding worker_ok_def by blast
    show ?thesis
    proof (cases "ws_queues s ! k = []")
      case True
      hence "s' = ws_goto s i (W_look ks)" using st_steal(3) st(1) w by (simp add: dequeue_steal_def)
      thus ?thesis using counts_goto [OF assms(1,2) st_steal(1), of "W_look ks"] st_steal(2) nh by (simp add: held_def)
    next
      case False
      obtain j q' where q': "twq_pop q1 = Inr (j, q')" "twq_jobs q1 = add_mset j (twq_jobs q')" using twq_pop_spec st False by blast
      let ?s = "ws_goto ((ws_set_queue s i q')\<lparr>ws_mutex := None\<rparr>) i (W_got (Some j))"
      have s': "s' = ws_set_queue ?s k q2"
        using st_steal(3) [symmetric] st(1,4) w q'(1) False by (simp add: dequeue_steal_def ws_goto_def ws_set_queue_def)
      have "ws_open ?s + {#} = ws_open s + (twq_jobs q' + {#j#})"
        using open_update [OF l st_steal(1), of ?s q' "W_got (Some j)"] w(1) st_steal(2) by (simp add: held_def)
      moreover have "ws_open s' + twq_jobs (ws_queues s ! k) = ws_open ?s + twq_jobs q2"
        using open_update [of ?s k s' q2 "ws_phase s ! k"] w l unfolding s' by (simp add: update_same)
      ultimately have "ws_open s' + twq_jobs (ws_queues s ! k) = ws_open s + twq_jobs (ws_queues s ! k)"
        unfolding st(3) [symmetric] q'(2) by (simp add: ac_simps)
      hence "ws_open s' = ws_open s" by simp
      thus ?thesis using sz nh phase_set [OF st_steal(1), of _ "W_got (Some j)"] phase_set_keep [of W_halt "ws_phase s" i] st_steal(2)
        unfolding ws_counts_def s' by auto
    qed
  next
    case (st_wait i)
    have "\<not> ws_halting s" using sz st_wait(2,3) nth_mem by metis
    thus ?thesis unfolding st_wait(1) dequeue_wait_def using st_wait(3)
      by (intro counts_move [OF assms(1) l st_wait(2), where q = "ws_queues s ! i" and w = W_wait]) (auto simp: held_def)
  next
    case (st_got i j p)
    have "j = None \<longrightarrow> ws_halting s" using sz st_got(2,3) nth_mem by metis
    show ?thesis
    proof (cases "\<exists>x. j = Some x \<and> p")
      case True
      then obtain x where x: "j = Some x" "p" by blast
      have f: "ws_queues s' = (ws_queues s)[i := ws_queues s ! i]" "ws_phase s' = (ws_phase s)[i := W_reset]"
        "ws_dropped s' = add_mset x (ws_dropped s)" "ws_made s' = ws_made s" "ws_executed s' = ws_executed s"
        "ws_outstanding s' = ws_outstanding s" "ws_halting s' = ws_halting s" "ws_error s' = ws_error s"
        unfolding st_got(1) using x by (simp_all add: take_job_def reset_phase_def)
      have "add_mset x (ws_open s') = ws_open s"
        using open_update [OF l st_got(2) f(1,2)] st_got(3) x by (simp add: held_def)
      moreover have "w \<in> set (ws_phase s') \<Longrightarrow> w = W_reset \<or> w \<in> set (ws_phase s)" for w
        unfolding f(2) using phase_set [OF st_got(2)] by blast
      moreover have "W_halt \<in> set (ws_phase s) \<Longrightarrow> W_halt \<in> set (ws_phase s')"
        unfolding f(2) using phase_set_keep st_got(3) by (metis wphase.distinct)
      ultimately show ?thesis using sz f(3-8) unfolding ws_counts_def by (fastforce simp flip: \<open>add_mset x (ws_open s') = ws_open s\<close>)
    next
      case False
      hence "s' = ws_goto s i (reset_phase p j)" unfolding st_got(1) by (auto simp: take_job_def split: option.splits)
      thus ?thesis using False \<open>j = None \<longrightarrow> ws_halting s\<close> st_got(3,4)
        by (simp, intro counts_goto [OF assms(1,2) st_got(2)]) (auto simp: held_def reset_phase_def split: option.splits)
    qed
  next
    case (st_count i cur j)
    have o: "ws_open s' = add_mset j (ws_open s)"
      using open_update [OF l st_count(2), of s' "ws_queues s ! i" "W_push cur j"] st_count(3) unfolding st_count(1)
      by (simp add: enqueue_count_def held_def)
    have "{#cur#} \<subseteq># ws_open s" using held_open [of "W_run cur" s] st_count(2,3) nth_mem by (fastforce simp: held_def)
    hence "ws_outstanding s \<noteq> 0" using sz by auto
    hence n: "\<not> ws_error s \<Longrightarrow> \<not> ws_halting s \<and> W_halt \<notin> set (ws_phase s)" using sz by auto
    have f: "ws_made s' = add_mset j (ws_made s)" "ws_executed s' = ws_executed s \<and> ws_dropped s' = ws_dropped s" "ws_outstanding s' = Suc (ws_outstanding s)"
      "ws_error s' = ws_error s" "ws_halting s' = ws_halting s" "ws_phase s' = (ws_phase s)[i := W_push cur j]"
      unfolding st_count(1) by (simp_all add: enqueue_count_def)
    have x: "x \<in> set (ws_phase s)" if "x \<in> set (ws_phase s')" "x \<noteq> W_push cur j" for x
      using phase_set [OF st_count(2), of x "W_push cur j"] that unfolding f(6) by blast
    have h: "W_halt \<in> set (ws_phase s) \<Longrightarrow> W_halt \<in> set (ws_phase s')" unfolding f(6) using phase_set_keep st_count(3) by (metis wphase.distinct)
    have 1: "ws_halting s' \<or> W_halt \<in> set (ws_phase s') \<longrightarrow> \<not> ws_error s' \<longrightarrow> ws_outstanding s' = 0"
      using n x [of W_halt] f(4,5) by auto
    have 2: "ws_outstanding s' = 0 \<or> ws_error s' \<longrightarrow> ws_halting s' \<or> W_halt \<in> set (ws_phase s')" using sz h f(3-5) by auto
    have 3: "ws_halting s' \<longrightarrow> W_wait \<notin> set (ws_phase s') \<and> (\<forall>ks. W_look ks \<notin> set (ws_phase s'))"
      "W_stopped \<in> set (ws_phase s') \<or> W_got None \<in> set (ws_phase s') \<longrightarrow> ws_halting s'" using sz x f(5) by auto
    show ?thesis using sz 1 2 3 o f(1-3) unfolding ws_counts_def by simp
  next
    case (st_push i cur j)
    show ?thesis unfolding st_push(1) enqueue_push_def using st_push(3) l st_push(2)
      by (intro counts_move [OF assms(1) l st_push(2), where q = "twq_push (ws_queues s ! i) j" and w = "W_notify cur"])
        (auto simp: held_def twq_push_jobs)
  next
    case (st_notify i cur k)
    show ?thesis
    proof (cases k)
      case None
      thus ?thesis unfolding st_notify(1) enqueue_notify_def using counts_goto [OF assms(1,2) st_notify(2), of "W_run cur"] st_notify(3)
        by (simp add: held_def)
    next
      case (Some k')
      hence k: "k' < length (ws_phase s)" "ws_phase s ! k' = W_wait" using st_notify(4) by simp_all
      have 1: "ws_counts (ws_goto s k' W_lock)" using counts_goto [OF assms(1,2) k(1), of W_lock] k(2) by (simp add: held_def)
      have i: "i \<noteq> k'" using k(2) st_notify(3) by auto
      show ?thesis unfolding st_notify(1) enqueue_notify_def using Some i st_notify(2,3) l
        by (simp, intro counts_move [OF 1, where i = i and q = "ws_queues s ! i" and w = "W_run cur"]) (auto simp: held_def)
    qed
  next
    case (st_finish i cur err)
    let ?w = "if err \<or> ws_outstanding s - 1 = 0 then W_halt else W_unlock"
    have s': "ws_queues s' = (ws_queues s)[i := ws_queues s ! i]" "ws_phase s' = (ws_phase s)[i := ?w]" "ws_outstanding s' = ws_outstanding s - 1"
      "ws_made s' = ws_made s" "ws_executed s' = add_mset cur (ws_executed s) \<and> ws_dropped s' = ws_dropped s" "ws_halting s' = ws_halting s" "ws_error s' = (ws_error s \<or> err)"
      unfolding st_finish(1) by (simp_all add: finish_job_def Let_def)
    have o: "add_mset cur (ws_open s') = ws_open s"
      using open_update [OF l st_finish(2) s'(1,2)] st_finish(3) by (simp add: held_def split: if_splits)
    have e: "ws_made s = ws_open s + ws_executed s + ws_dropped s" "ws_outstanding s = Suc (size (ws_open s') + size (ws_dropped s))" using sz by (simp_all flip: o)
    have h: "\<not> ws_error s \<Longrightarrow> \<not> ws_halting s \<and> W_halt \<notin> set (ws_phase s)" using sz e(2) by auto
    have m: "W_halt \<in> set (ws_phase s) \<Longrightarrow> W_halt \<in> set (ws_phase s')" "x \<in> set (ws_phase s') \<Longrightarrow> x = ?w \<or> x \<in> set (ws_phase s)" for x
      unfolding s'(2) using phase_set_keep [of W_halt "ws_phase s" i] phase_set [OF st_finish(2)] st_finish(3) by auto
    have wi: "?w \<in> set (ws_phase s')" unfolding s'(2) using st_finish(2) by (rule set_update_memI)
    have 1: "ws_halting s' \<or> W_halt \<in> set (ws_phase s') \<longrightarrow> \<not> ws_error s' \<longrightarrow> ws_outstanding s' = 0"
      using h m(2) [of W_halt] s'(3,6,7) by (auto split: if_splits)
    have 2: "ws_outstanding s' = 0 \<or> ws_error s' \<longrightarrow> ws_halting s' \<or> W_halt \<in> set (ws_phase s')"
      using sz m(1) wi s'(3,6,7) by (auto split: if_splits)
    have 3: "ws_halting s' \<longrightarrow> W_wait \<notin> set (ws_phase s') \<and> (\<forall>ks. W_look ks \<notin> set (ws_phase s'))"
      "W_stopped \<in> set (ws_phase s') \<or> W_got None \<in> set (ws_phase s') \<longrightarrow> ws_halting s'"
    proof -
      have "x \<in> set (ws_phase s)" if "x \<in> set (ws_phase s')" "x \<noteq> W_halt" "x \<noteq> W_unlock" for x using m(2) [OF that(1)] that(2,3) by (auto split: if_splits)
      thus "ws_halting s' \<longrightarrow> W_wait \<notin> set (ws_phase s') \<and> (\<forall>ks. W_look ks \<notin> set (ws_phase s'))"
        "W_stopped \<in> set (ws_phase s') \<or> W_got None \<in> set (ws_phase s') \<longrightarrow> ws_halting s'" using sz s'(6) by auto
    qed
    show ?thesis using 1 2 3 o e s'(3-5) unfolding ws_counts_def by auto
  next
    case (st_halt i)
    have p: "ws_phase s' = (map (\<lambda>w. if w = W_wait then W_lock else w) (ws_phase s))[i := W_unlock]"
      unfolding st_halt(1) by (simp add: halt_all_def)
    have "ws_open (wake_all s) = ws_open s"
    proof -
      have "held \<circ> (\<lambda>w. if w = W_wait then W_lock else w) = held" by (auto simp: held_def)
      thus ?thesis by (simp add: ws_open_def wake_all_def)
    qed
    moreover have "ws_open s' = ws_open (wake_all s)"
      using open_update [of "wake_all s" i s' "ws_queues s ! i" W_unlock] st_halt(2,3) l unfolding st_halt(1)
      by (simp add: halt_all_def wake_all_def held_def)
    ultimately have o: "ws_open s' = ws_open s" by simp
    have f: "ws_made s' = ws_made s" "ws_executed s' = ws_executed s \<and> ws_dropped s' = ws_dropped s" "ws_outstanding s' = ws_outstanding s" "ws_error s' = ws_error s" "ws_halting s'"
      unfolding st_halt(1) by (simp_all add: halt_all_def)
    have nl: "W_look ks \<notin> set (ws_phase s)" for ks
      using assms(2) st_halt(4) unfolding ws_inv_def worker_ok_def by (metis in_set_conv_nth option.distinct(1))
    have ps: "x \<in> set (ws_phase s') \<Longrightarrow> x = W_unlock \<or> x \<in> (\<lambda>w. if w = W_wait then W_lock else w) ` set (ws_phase s)" for x
      unfolding p using phase_set [of i "map (\<lambda>w. if w = W_wait then W_lock else w) (ws_phase s)"] st_halt(2) by simp
    have "W_wait \<notin> set (ws_phase s')" "W_look ks \<notin> set (ws_phase s')" for ks
      using ps [of W_wait] ps [of "W_look ks"] nl by (auto split: if_splits)
    moreover have "W_halt \<in> set (ws_phase s)" using st_halt(2,3) nth_mem by metis
    ultimately show ?thesis using sz o f unfolding ws_counts_def by auto
  next
    case (st_unlock i)
    thus ?thesis
      by (intro counts_move [OF assms(1) l st_unlock(2), where q = "ws_queues s ! i" and w = W_reset]) (auto simp: held_def)
  qed
qed

lemma inv_spurious:
  assumes "ws_spurious s s'" "ws_inv s" "ws_counts s"
  shows "ws_inv s' \<and> ws_counts s' \<and> length (ws_phase s') = length (ws_phase s)"
  using assms(1)
proof cases
  case (1 i)
  have "ws_inv s'" unfolding 1(1) using inv_worker [OF assms(2) 1(2)] 1(3)
    by (intro inv_goto [OF assms(2) 1(2)]) (simp add: worker_ok_def idle_phase_def)
  thus ?thesis using counts_goto [OF assms(3,2) 1(2), of W_lock] 1 by (simp add: held_def)
qed

lemma step_length: "ws_step pruned s s' \<Longrightarrow> length (ws_phase s') = length (ws_phase s)"
  by (induction rule: ws_step.induct)
    (auto simp: dequeue_fast_def dequeue_round_def dequeue_steal_def dequeue_wait_def enqueue_count_def enqueue_push_def enqueue_notify_def
      take_job_def finish_job_def halt_all_def Let_def assert_r_eq_Inr bind_r_eq_Inr split: if_splits option.splits)

text \<open>Only pruned jobs are dropped, and none is taken back.\<close>

lemma step_dropped:
  "ws_step pruned s s' \<Longrightarrow> ws_dropped s \<subseteq># ws_dropped s' \<and> (\<forall>x\<in>#ws_dropped s'. x \<in># ws_dropped s \<or> pruned x)"
  by (induction rule: ws_step.induct)
    (auto simp: dequeue_fast_def dequeue_round_def dequeue_steal_def dequeue_wait_def enqueue_count_def enqueue_push_def enqueue_notify_def
      take_job_def finish_job_def halt_all_def Let_def assert_r_eq_Inr bind_r_eq_Inr split: if_splits option.splits)

lemma spurious_dropped: "ws_spurious s s' \<Longrightarrow> ws_dropped s' = ws_dropped s"
  by (induction rule: ws_spurious.induct) simp

lemma reach_dropped: "ws_reach pruned n root s \<Longrightarrow> x \<in># ws_dropped s \<Longrightarrow> pruned x"
proof (induction rule: ws_reach.induct)
  case (reach_step s s')
  thus ?case using step_dropped by blast
qed (simp_all add: ws_start_def spurious_dropped)

lemma start_inv:
  assumes "0 < n"
  shows "ws_inv (ws_start n root)" "ws_counts (ws_start n root)" "length (ws_phase (ws_start n root)) = n"
proof -
  obtain m where n: "n = Suc m" using assms by (cases n) auto
  have "(\<Sum>w\<leftarrow>replicate n W_reset. held w) = {#}" by (induction n) (auto simp: held_def)
  moreover have "(\<Sum>q\<leftarrow>replicate m []. twq_jobs q) = {#}" by (induction m) auto
  ultimately have o: "ws_open (ws_start n root) = {#root#}" by (simp add: ws_open_def ws_start_def n held_def)
  show "ws_counts (ws_start n root)" using o by (auto simp: ws_counts_def) (auto simp: ws_start_def)
  show "ws_inv (ws_start n root)" by (auto simp: ws_inv_def worker_ok_def ws_start_def idle_phase_def nth_list_update twq_ok_Cons)
  show "length (ws_phase (ws_start n root)) = n" by (simp add: ws_start_def)
qed

lemma reach_inv:
  assumes "ws_reach pruned n root s" "0 < n"
  shows "ws_inv s \<and> ws_counts s \<and> length (ws_phase s) = n"
  using assms(1)
proof induction
  case reach_start
  show ?case using start_inv [OF assms(2)] by simp
next
  case (reach_step s s')
  thus ?case using inv_step counts_step step_length by metis
next
  case (reach_spurious s s')
  thus ?case using inv_spurious by metis
qed

text \<open>C16: the work-stealing scheduler neither loses nor repeats a job, under every interleaving of the
  workers: the jobs made are those executed, those that were pruned and dropped, and those in a queue or in
  the hands of a worker; the latter two are as many as are counted outstanding, only pruned jobs are
  dropped, and when all workers have stopped without an error, every job made was executed exactly once.\<close>

theorem jobs_executed_once:
  assumes "ws_reach pruned n root s" "0 < n"
  shows "ws_made s = ws_open s + ws_executed s + ws_dropped s \<and> ws_outstanding s = size (ws_open s) + size (ws_dropped s) \<and>
    (\<forall>x\<in>#ws_dropped s. pruned x) \<and>
    ((\<forall>w\<in>set (ws_phase s). w = W_stopped) \<longrightarrow> \<not> ws_error s \<longrightarrow> ws_executed s = ws_made s)"
proof -
  have i: "ws_counts s" "length (ws_phase s) = n" using reach_inv [OF assms] by simp_all
  have c: "ws_made s = ws_open s + ws_executed s + ws_dropped s" "ws_outstanding s = size (ws_open s) + size (ws_dropped s)"
    using i(1) by (simp_all add: ws_counts_def)
  have "ws_executed s = ws_made s" if "\<forall>w\<in>set (ws_phase s). w = W_stopped" "\<not> ws_error s"
  proof -
    have "ws_phase s ! 0 \<in> set (ws_phase s)" using i(2) assms(2) by (intro nth_mem) simp
    hence "ws_outstanding s = 0" using i(1) that by (auto simp: ws_counts_def)
    thus ?thesis using c by simp
  qed
  thus ?thesis using c reach_dropped [OF assms(1)] by blast
qed

section \<open>No worker waits for ever\<close>

lemma fast_returns:
  assumes "worker_ok n m d i (ws_queues s ! i) w"
  shows "\<exists>s'. dequeue_fast i s = Inr s' \<and> ws_made s' = ws_made s"
proof (cases "ws_queues s ! i = []")
  case False
  obtain j q where "twq_pop (ws_queues s ! i) = Inr (j, q)" using twq_pop_spec [OF _ False] assms unfolding worker_ok_def by blast
  thus ?thesis by (simp add: dequeue_fast_def)
qed (simp add: dequeue_fast_def)

lemma round_returns:
  assumes "worker_ok n m d i (ws_queues s ! i) w"
  shows "\<exists>s'. dequeue_round i order s = Inr s' \<and> ws_made s' = ws_made s"
proof (cases "ws_queues s ! i = []")
  case False
  obtain j q where "twq_pop (ws_queues s ! i) = Inr (j, q)" using twq_pop_spec [OF _ False] assms unfolding worker_ok_def by blast
  thus ?thesis by (simp add: dequeue_round_def)
qed (simp add: dequeue_round_def)

lemma steal_returns:
  assumes "ws_queues s ! i = []" "twq_ok (ws_queues s ! k)" "k \<noteq> i"
  shows "\<exists>s'. dequeue_steal i k ks s = Inr s' \<and> ws_made s' = ws_made s"
proof -
  obtain q1 q2 where st: "twq_steal [] (ws_queues s ! k) = Inr (ws_queues s ! k \<noteq> [], q1, q2)" "twq_ok q1" "ws_queues s ! k \<noteq> [] \<longrightarrow> q1 \<noteq> []"
    using twq_steal_spec [OF assms(2)] by blast
  show ?thesis using st assms(1,3) twq_pop_spec [OF st(2)] by (cases "ws_queues s ! k = []") (auto simp: dequeue_steal_def)
qed

text \<open>A worker outside the waits of the scheduler can go on, unless another one holds the lock it needs.\<close>

lemma active_step:
  assumes "ws_inv s" "ws_mutex s = None" "i < length (ws_phase s)" "ws_phase s ! i \<notin> {W_wait, W_stopped}"
  shows "\<exists>s'. ws_step pruned s s' \<and> ws_made s' = ws_made s"
proof -
  note w = inv_worker [OF assms(1,3)]
  have unlock: "\<exists>s'. ws_step pruned s s' \<and> ws_made s' = ws_made s" if "k < length (ws_phase s)" "ws_phase s ! k = W_halt \<or> ws_phase s ! k = W_unlock" for k
    using that st_halt [OF that(1) _ assms(2)] st_unlock [OF that(1)] by (fastforce simp: halt_all_def)
  show ?thesis
  proof (cases "ws_phase s ! i")
    case W_reset
    thus ?thesis using fast_returns [OF w] st_fast [OF assms(3)] by blast
  next
    case W_lock
    thus ?thesis using round_returns [OF w] st_round [OF assms(3) _ assms(2) refl] by blast
  next
    case (W_look ks)
    thus ?thesis using w assms(2) by (simp add: worker_ok_def)
  next
    case (W_got j)
    have "ws_made (take_job i False j s) = ws_made s" by (simp add: take_job_def split: option.split)
    thus ?thesis using st_got [OF assms(3) W_got, of False pruned] by blast
  next
    case (W_run cur)
    show ?thesis
    proof (cases "ws_driver s")
      case None
      have "ws_made (finish_job i cur False s) = ws_made s" by (simp add: finish_job_def Let_def)
      thus ?thesis using st_finish [OF assms(3) W_run None] by blast
    next
      case (Some k)
      hence "k < length (ws_phase s)" using assms(1) by (simp add: ws_inv_def)
      thus ?thesis using unlock inv_worker [OF assms(1)] Some by (simp add: worker_ok_def)
    qed
  next
    case (W_push cur j)
    thus ?thesis using st_push [OF assms(3)] by (fastforce simp: enqueue_push_def)
  next
    case (W_notify cur)
    show ?thesis
    proof (cases "W_wait \<in> set (ws_phase s)")
      case True
      then obtain k where k: "k < length (ws_phase s)" "ws_phase s ! k = W_wait" by (auto simp: in_set_conv_nth)
      have "ws_made (enqueue_notify i cur (Some k) s) = ws_made s" by (simp add: enqueue_notify_def)
      thus ?thesis using st_notify [OF assms(3) W_notify, of "Some k"] k by auto
    next
      case False
      have "ws_made (enqueue_notify i cur None s) = ws_made s" by (simp add: enqueue_notify_def)
      thus ?thesis using st_notify [OF assms(3) W_notify, of None] False by auto
    qed
  qed (use unlock assms(3,4) in auto)
qed

lemma all_idle_open:
  assumes "ws_inv s" "\<forall>w\<in>set (ws_phase s). w = W_wait"
  shows "ws_open s = {#}"
proof -
  have "q = []" if q: "q \<in> set (ws_queues s)" for q
  proof -
    obtain i where i: "i < length (ws_phase s)" "q = ws_queues s ! i" using q assms(1) by (auto simp: in_set_conv_nth ws_inv_def)
    have "ws_phase s ! i = W_wait" using assms(2) nth_mem [OF i(1)] by blast
    thus ?thesis using inv_worker [OF assms(1) i(1)] i(2) by (simp add: worker_ok_def idle_phase_def)
  qed
  moreover have "(\<Sum>q\<leftarrow>qs. twq_jobs q) = {#}" if "\<forall>q\<in>set qs. q = []" for qs using that by (induction qs) auto
  ultimately have "(\<Sum>q\<leftarrow>ws_queues s. twq_jobs q) = {#}" by blast
  moreover have "(\<Sum>w\<leftarrow>ws. held w) = {#}" if "\<forall>w\<in>set ws. w = W_wait" for ws using that by (induction ws) (auto simp: held_def)
  ultimately show ?thesis using assms(2) by (simp add: ws_open_def)
qed

text \<open>C17: no deadlock, no failed assertion and no lost wake-up but for pruned jobs: as long as a worker has not
  stopped, some worker can take a step other than making a further job, without a spurious wake-up,
  unless all workers wait, every job that was not pruned has been executed and a pruned one was dropped.\<close>

theorem workers_never_stuck:
  assumes "ws_reach pruned n root s" "0 < n" "\<exists>w\<in>set (ws_phase s). w \<noteq> W_stopped"
  shows "(\<exists>s'. ws_step pruned s s' \<and> ws_made s' = ws_made s) \<or>
    ((\<forall>w\<in>set (ws_phase s). w = W_wait) \<and> ws_dropped s \<noteq> {#} \<and> ws_made s = ws_executed s + ws_dropped s)"
proof -
  have inv: "ws_inv s" "ws_counts s" "length (ws_phase s) = n" using reach_inv [OF assms(1,2)] by simp_all
  show ?thesis
  proof (cases "ws_mutex s")
    case (Some k)
    hence k: "k < length (ws_phase s)" using inv(1) by (simp add: ws_inv_def)
    note w = inv_worker [OF inv(1) k, unfolded worker_ok_def]
    obtain ks where ks: "ws_phase s ! k = W_look ks" using w Some by blast
    show ?thesis
    proof (cases ks)
      case Nil
      thus ?thesis using st_wait [OF k] ks by (fastforce simp: dequeue_wait_def)
    next
      case (Cons j js)
      have "ws_queues s ! k = []" "j \<noteq> k" "j < length (ws_phase s)" using w ks Cons by (auto simp: idle_phase_def)
      thus ?thesis using steal_returns [of s k j js] inv_worker [OF inv(1)] st_steal [OF k] ks Cons by (metis worker_ok_def)
    qed
  next
    case None
    show ?thesis
    proof (cases "\<exists>i < length (ws_phase s). ws_phase s ! i \<notin> {W_wait, W_stopped}")
      case True
      thus ?thesis using active_step [OF inv(1) None] by blast
    next
      case False
      hence p: "w = W_wait \<or> w = W_stopped" if "w \<in> set (ws_phase s)" for w using that by (auto simp: in_set_conv_nth)
      have "W_wait \<in> set (ws_phase s)" using assms(3) p by auto
      hence h: "\<not> ws_halting s" using inv(2) by (auto simp: ws_counts_def)
      hence "W_stopped \<notin> set (ws_phase s)" using inv(2) by (auto simp: ws_counts_def)
      hence all: "\<forall>w\<in>set (ws_phase s). w = W_wait" using p by blast
      hence o: "ws_open s = {#}" using all_idle_open [OF inv(1)] by blast
      have "W_halt \<notin> set (ws_phase s)" using p by blast
      hence "ws_outstanding s \<noteq> 0" using inv(2) h by (auto simp: ws_counts_def)
      hence "ws_dropped s \<noteq> {#}" "ws_made s = ws_executed s + ws_dropped s" using inv(2) o by (auto simp: ws_counts_def)
      thus ?thesis using all by blast
    qed
  qed
qed

section \<open>Runs\<close>

text \<open>A run is given by its steps, so that it can be evaluated.\<close>

datatype ws_label = L_fast nat | L_round nat "nat list" | L_steal nat | L_wait nat | L_got nat bool | L_count nat job | L_push nat
  | L_notify nat "nat option" | L_finish nat bool | L_halt nat | L_unlock nat

definition res_option :: "wsched result \<Rightarrow> wsched option" where
  "res_option r = (case r of Inr s \<Rightarrow> Some s | Inl _ \<Rightarrow> None)"

fun ws_apply :: "(job \<Rightarrow> bool) \<Rightarrow> ws_label \<Rightarrow> wsched \<Rightarrow> wsched option" where
  "ws_apply pr (L_fast i) s = (if i < length (ws_phase s) \<and> ws_phase s ! i = W_reset then res_option (dequeue_fast i s) else None)"
| "ws_apply pr (L_round i ks) s =
     (if i < length (ws_phase s) \<and> ws_phase s ! i = W_lock \<and> ws_mutex s = None \<and> mset ks = mset (others_of (length (ws_queues s)) i)
      then res_option (dequeue_round i ks s) else None)"
| "ws_apply pr (L_steal i) s =
     (if i < length (ws_phase s) then (case ws_phase s ! i of W_look (k # ks) \<Rightarrow> res_option (dequeue_steal i k ks s) | _ \<Rightarrow> None) else None)"
| "ws_apply pr (L_wait i) s = (if i < length (ws_phase s) \<and> ws_phase s ! i = W_look [] then Some (dequeue_wait i s) else None)"
| "ws_apply pr (L_got i p) s =
     (if i < length (ws_phase s) then (case ws_phase s ! i of W_got j \<Rightarrow>
        if p \<longrightarrow> (case j of None \<Rightarrow> False | Some x \<Rightarrow> pr x) then Some (take_job i p j s) else None | _ \<Rightarrow> None) else None)"
| "ws_apply pr (L_count i j) s =
     (if i < length (ws_phase s) then (case ws_phase s ! i of W_run c \<Rightarrow> Some (enqueue_count i c j s) | _ \<Rightarrow> None) else None)"
| "ws_apply pr (L_push i) s =
     (if i < length (ws_phase s) then (case ws_phase s ! i of W_push c j \<Rightarrow> Some (enqueue_push i c j s) | _ \<Rightarrow> None) else None)"
| "ws_apply pr (L_notify i k) s =
     (if i < length (ws_phase s) \<and> (case k of None \<Rightarrow> W_wait \<notin> set (ws_phase s) | Some k \<Rightarrow> k < length (ws_phase s) \<and> ws_phase s ! k = W_wait)
      then (case ws_phase s ! i of W_notify c \<Rightarrow> Some (enqueue_notify i c k s) | _ \<Rightarrow> None) else None)"
| "ws_apply pr (L_finish i err) s =
     (if i < length (ws_phase s) \<and> ws_driver s = None then (case ws_phase s ! i of W_run c \<Rightarrow> Some (finish_job i c err s) | _ \<Rightarrow> None) else None)"
| "ws_apply pr (L_halt i) s = (if i < length (ws_phase s) \<and> ws_phase s ! i = W_halt \<and> ws_mutex s = None then Some (halt_all i s) else None)"
| "ws_apply pr (L_unlock i) s =
     (if i < length (ws_phase s) \<and> ws_phase s ! i = W_unlock then Some (ws_goto (s\<lparr>ws_driver := None\<rparr>) i W_reset) else None)"

lemma res_option_Some: "res_option r = Some s \<longleftrightarrow> r = Inr s"
  by (cases r) (auto simp: res_option_def)

lemma ws_apply_step: "ws_apply pr l s = Some s' \<Longrightarrow> ws_step pr s s'"
  by (cases l) (auto simp: res_option_Some split: if_splits wphase.splits list.splits option.splits intro: ws_step.intros)

fun ws_run :: "(job \<Rightarrow> bool) \<Rightarrow> ws_label list \<Rightarrow> wsched \<Rightarrow> wsched option" where
  "ws_run pr [] s = Some s"
| "ws_run pr (l # ls) s = (case ws_apply pr l s of None \<Rightarrow> None | Some s \<Rightarrow> ws_run pr ls s)"

lemma ws_run_reach: "ws_reach pr n root s \<Longrightarrow> ws_run pr ls s = Some s' \<Longrightarrow> ws_reach pr n root s'"
proof (induction ls arbitrary: s)
  case (Cons l ls)
  then obtain t where "ws_apply pr l s = Some t" "ws_run pr ls t = Some s'" by (auto split: option.splits)
  thus ?case using Cons.IH [OF reach_step [OF Cons.prems(1) ws_apply_step]] by blast
qed simp

text \<open>Two workers. The second one steals one of the two jobs that the first one made; both stop at the end.\<close>

definition demo_work :: "ws_label list" where
  "demo_work = [L_fast 0, L_got 0 False, L_count 0 (0, 1), L_push 0, L_notify 0 None, L_count 0 (0, 2), L_push 0,
     L_fast 1, L_round 1 [0], L_steal 1, L_got 1 False, L_notify 0 None, L_finish 0 False, L_unlock 0, L_fast 0, L_got 0 False,
     L_finish 1 False, L_unlock 1, L_fast 1, L_round 1 [0], L_steal 1, L_wait 1, L_finish 0 False, L_halt 0, L_unlock 0,
     L_round 1 [0], L_got 1 False, L_fast 0, L_got 0 False]"

lemma demo_work_run:
  "map_option (\<lambda>s. (ws_phase s, ws_error s)) (ws_run (\<lambda>_. False) demo_work (ws_start 2 (-1, 0))) = Some ([W_stopped, W_stopped], False)"
  "map_option (\<lambda>s. ws_phase s ! 1 = W_wait \<and> \<not> ws_halting s) (ws_run (\<lambda>_. False) (take 22 demo_work) (ws_start 2 (-1, 0))) = Some True"
  by code_simp+

theorem jobs_executed_once_witness:
  "\<exists>s. ws_reach (\<lambda>_. False) 2 (-1, 0) s \<and> ws_phase s = [W_stopped, W_stopped] \<and> ws_executed s = ws_made s"
proof -
  obtain s where s: "ws_run (\<lambda>_. False) demo_work (ws_start 2 (-1, 0)) = Some s" "ws_phase s = [W_stopped, W_stopped]" "\<not> ws_error s"
    using demo_work_run(1) by auto
  have r: "ws_reach (\<lambda>_. False) 2 (-1, 0) s" by (rule ws_run_reach [OF reach_start s(1)])
  show ?thesis using jobs_executed_once [OF r] r s(2,3) by auto
qed

theorem workers_never_stuck_witness:
  "\<exists>s s'. ws_reach (\<lambda>_. False) 2 (-1, 0) s \<and> ws_phase s ! 1 = W_wait \<and> ws_step (\<lambda>_. False) s s'"
proof -
  obtain s where s: "ws_run (\<lambda>_. False) (take 22 demo_work) (ws_start 2 (-1, 0)) = Some s" "ws_phase s ! 1 = W_wait"
    using demo_work_run(2) by auto
  have r: "ws_reach (\<lambda>_. False) 2 (-1, 0) s" by (rule ws_run_reach [OF reach_start s(1)])
  have "length (ws_phase s) = 2" using reach_inv [OF r] by simp
  hence "\<exists>w\<in>set (ws_phase s). w \<noteq> W_stopped" using s(2) nth_mem [of 1 "ws_phase s"] by force
  moreover have "\<not> ws_dropped s \<noteq> {#}" using reach_dropped [OF r] by (metis multiset_nonemptyE)
  ultimately show ?thesis using workers_never_stuck [OF r] r s(2) by auto
qed

section \<open>A pruned job\<close>

text \<open>The first worker makes a job that is pruned when it is taken.\<close>

definition demo_pruned :: "ws_label list" where
  "demo_pruned = [L_fast 0, L_got 0 False, L_count 0 (0, 1), L_push 0, L_notify 0 None, L_finish 0 False, L_unlock 0,
     L_fast 0, L_got 0 True, L_fast 0, L_round 0 [1], L_steal 0, L_wait 0, L_fast 1, L_round 1 [0], L_steal 1, L_wait 1]"

lemma waiting_stuck:
  assumes "\<forall>w\<in>set (ws_phase s). w = W_wait"
  shows "\<not> ws_step pr s s'"
proof
  assume "ws_step pr s s'"
  thus False by cases (use assms nth_mem in fastforce)+
qed

definition ws_any :: "(job \<Rightarrow> bool) \<Rightarrow> wsched \<Rightarrow> wsched \<Rightarrow> bool" where
  "ws_any pruned s s' = (ws_step pruned s s' \<or> ws_spurious s s')"

lemma any_dropped: "rtranclp (ws_any pruned) s s' \<Longrightarrow> ws_dropped s \<subseteq># ws_dropped s'"
proof (induction rule: rtranclp_induct)
  case (step t u)
  have "ws_dropped t \<subseteq># ws_dropped u" using step.hyps(2) step_dropped spurious_dropped unfolding ws_any_def by fastforce
  thus ?case using step.IH subset_mset.order_trans by blast
qed simp

lemma any_reach: "rtranclp (ws_any pruned) s s' \<Longrightarrow> ws_reach pruned n root s \<Longrightarrow> ws_reach pruned n root s'"
  by (induction rule: rtranclp_induct) (auto simp: ws_any_def intro: reach_step reach_spurious)

text \<open>C18: once \<open>reset\<close> has dropped a pruned job, the parallel search does not end unless a worker finds an error:
  the job is never counted as done, so that in no later state, spurious wake-ups included, the number of
  outstanding jobs is 0, the scheduler is halted or a worker has stopped; and where all workers wait, none can
  go on.\<close>

theorem pruned_job_hangs:
  assumes "ws_reach pruned n root s" "0 < n" "ws_dropped s \<noteq> {#}" "rtranclp (ws_any pruned) s s'" "\<not> ws_error s'"
  shows "0 < ws_outstanding s' \<and> \<not> ws_halting s' \<and> W_stopped \<notin> set (ws_phase s') \<and>
    ((\<forall>w\<in>set (ws_phase s'). w = W_wait) \<longrightarrow> (\<forall>u. \<not> ws_step pruned s' u))"
proof -
  have c: "ws_counts s'" using reach_inv [OF any_reach [OF assms(4,1)] assms(2)] by simp
  have "ws_dropped s' \<noteq> {#}" using any_dropped [OF assms(4)] assms(3) by auto
  hence "0 < ws_outstanding s'" using c by (auto simp: ws_counts_def)
  thus ?thesis using c assms(5) waiting_stuck by (auto simp: ws_counts_def)
qed

theorem pruned_job_hangs_witness:
  "\<exists>s. ws_reach (\<lambda>j. j = (0, 1)) 2 (-1, 0) s \<and> ws_phase s = [W_wait, W_wait] \<and> 0 < ws_outstanding s \<and>
     (\<forall>u. \<not> ws_step (\<lambda>j. j = (0, 1)) s u)"
proof -
  have "map_option (\<lambda>s. (ws_phase s, ws_dropped s = {#}, ws_error s))
      (ws_run (\<lambda>j. j = (0, 1)) demo_pruned (ws_start 2 (-1, 0))) = Some ([W_wait, W_wait], False, False)"
    by code_simp
  then obtain s where s: "ws_run (\<lambda>j. j = (0, 1)) demo_pruned (ws_start 2 (-1, 0)) = Some s" "ws_phase s = [W_wait, W_wait]"
    "ws_dropped s \<noteq> {#}" "\<not> ws_error s"
    by auto
  have r: "ws_reach (\<lambda>j. j = (0, 1)) 2 (-1, 0) s" by (rule ws_run_reach [OF reach_start s(1)])
  show ?thesis using pruned_job_hangs [OF r _ s(3) rtranclp.rtrancl_refl s(4)] r s(2) by auto
qed

section \<open>Depth first\<close>

text \<open>\<open>std::priority_queue\<close> gives one of the deepest nodes; which one is unspecified.\<close>

definition pq_enqueue :: "job list \<Rightarrow> job \<Rightarrow> job list" where
  "pq_enqueue q j = q @ [j]"

definition pq_tops :: "job list \<Rightarrow> (job \<times> job list) list" where
  "pq_tops q = map (\<lambda>j. (j, remove1 j q)) (filter (\<lambda>j. \<forall>x\<in>set q. fst x \<le> fst j) q)"

definition twq_tops :: "twq \<Rightarrow> (job \<times> twq) list" where
  "twq_tops q = (case twq_pop q of Inr r \<Rightarrow> [r] | Inl _ \<Rightarrow> [])"

text \<open>What both schedulers promise of the jobs of one thread.\<close>

locale job_pool =
  fixes jobs :: "'q \<Rightarrow> job multiset" and ok :: "'q \<Rightarrow> bool" and push :: "'q \<Rightarrow> job \<Rightarrow> 'q" and tops :: "'q \<Rightarrow> (job \<times> 'q) list"
  assumes push_ok: "ok q \<Longrightarrow> ok (push q j)"
    and push_jobs: "ok q \<Longrightarrow> jobs (push q j) = add_mset j (jobs q)"
    and tops_spec: "ok q \<Longrightarrow> (j, q') \<in> set (tops q) \<Longrightarrow> ok q' \<and> jobs q = add_mset j (jobs q') \<and> (\<forall>x. x \<in># jobs q \<longrightarrow> fst x \<le> fst j)"
    and tops_ex: "ok q \<Longrightarrow> jobs q \<noteq> {#} \<Longrightarrow> tops q \<noteq> []"
begin

lemma push_all: "ok q \<Longrightarrow> ok (foldl push q js) \<and> jobs (foldl push q js) = jobs q + mset js"
  by (induction js arbitrary: q) (auto simp: push_ok push_jobs)

lemma deeper_first:
  assumes "ok q" "js \<noteq> []" "\<forall>x\<in># jobs q. \<forall>j\<in>set js. fst x < fst j" "(k, q') \<in> set (tops (foldl push q js))"
  shows "k \<in> set js"
proof -
  have a: "ok (foldl push q js)" "jobs (foldl push q js) = jobs q + mset js" using push_all [OF assms(1)] by simp_all
  have t: "jobs q + mset js = add_mset k (jobs q')" "\<And>x. x \<in># jobs q + mset js \<Longrightarrow> fst x \<le> fst k" using tops_spec [OF a(1) assms(4)] unfolding a(2) by blast+
  have "k \<in># jobs q + mset js" unfolding t(1) by simp
  moreover have "hd js \<in> set js" using assms(2) by simp
  ultimately show ?thesis using assms(3) t(2) [of "hd js"] by fastforce
qed

end

interpretation twq: job_pool twq_jobs twq_ok twq_push twq_tops
proof
  show "twq_ok q' \<and> twq_jobs q = add_mset j (twq_jobs q') \<and> (\<forall>x. x \<in># twq_jobs q \<longrightarrow> fst x \<le> fst j)"
    if "twq_ok q" "(j, q') \<in> set (twq_tops q)" for q j q'
  proof -
    have "q \<noteq> []" using that(2) by (auto simp: twq_tops_def twq_pop_def)
    thus ?thesis using twq_pop_spec [OF that(1)] that(2) by (auto simp: twq_tops_def)
  qed
  show "twq_tops q \<noteq> []" if "twq_ok q" "twq_jobs q \<noteq> {#}" for q
    using twq_pop_spec [OF that(1)] twq_jobs_empty [OF that(1)] that(2) by (auto simp: twq_tops_def)
qed (simp_all add: twq_push_ok twq_push_jobs)

interpretation pq: job_pool mset "\<lambda>_. True" pq_enqueue pq_tops
proof
  show "pq_tops q \<noteq> []" if "mset q \<noteq> {#}" for q
  proof -
    have "Max (fst ` set q) \<in> fst ` set q" using that by (intro Max_in) auto
    then obtain j where j: "j \<in> set q" "fst j = Max (fst ` set q)" by auto
    have "\<forall>x\<in>set q. fst x \<le> fst j" unfolding j(2) by simp
    thus ?thesis using j(1) by (auto simp: pq_tops_def filter_empty_conv)
  qed
qed (auto simp: pq_enqueue_def pq_tops_def)



end
