(* ===== verification/VClock.thy ===== *)
theory VClock
  imports Prelude
begin

text \<open>
  Vector clocks over the integers (\<open>VClock<int>\<close> in \<open>VClock.h\<close> and \<open>VClock.cpp\<close>) and vectors of them
  in one block (\<open>VClockVec\<close>). A clock is the list of its elements; those behind its end are 0. What it
  means is a function from indices to integers. Indices are natural numbers: the accessors assert it.
\<close>

section \<open>Clocks\<close>

type_synonym vclock = "int list"

definition vc_at :: "vclock \<Rightarrow> nat \<Rightarrow> int" where
  "vc_at v i = (if i < length v then v ! i else 0)"

text \<open>\<open>vec.resize(n,0)\<close> where it does not shrink.\<close>

definition vc_grow :: "nat \<Rightarrow> vclock \<Rightarrow> vclock" where
  "vc_grow n v = v @ replicate (n - length v) 0"

text \<open>\<open>v[i] = x\<close>\<close>

definition vc_set :: "vclock \<Rightarrow> nat \<Rightarrow> int \<Rightarrow> vclock" where
  "vc_set v i x = (vc_grow (i + 1) v)[i := x]"

text \<open>From a vector, whose elements are asserted not to be negative.\<close>

definition vc_of_vector :: "int list \<Rightarrow> vclock result" where
  "vc_of_vector v = assert_r (list_all (\<lambda>x. x \<ge> 0) v) (Inr v)"

fun vc_trim :: "int list \<Rightarrow> int list" where
  "vc_trim [] = []"
| "vc_trim (x # xs) = (if x = 0 then vc_trim xs else x # xs)"

definition vc_size :: "vclock \<Rightarrow> nat" where
  "vc_size v = length (vc_trim (rev v))"

definition vc_size_ub :: "vclock \<Rightarrow> nat" where
  "vc_size_ub v = length v"

definition vc_includes :: "vclock \<Rightarrow> nat \<Rightarrow> int \<Rightarrow> bool" where
  "vc_includes v p i = (i \<le> vc_at v p)"

section \<open>Arithmetic\<close>

definition vc_plus :: "vclock \<Rightarrow> vclock \<Rightarrow> vclock" where
  "vc_plus a b = map (\<lambda>i. max (vc_at a i) (vc_at b i)) [0..<max (length a) (length b)]"

definition vc_minus :: "vclock \<Rightarrow> vclock \<Rightarrow> vclock" where
  "vc_minus a b = map (\<lambda>i. min (vc_at a i) (vc_at b i)) [0..<max (length a) (length b)]"

text \<open>The in-place operations go over the elements of the argument only.\<close>

fun vc_add_loop :: "vclock \<Rightarrow> vclock \<Rightarrow> nat list \<Rightarrow> vclock" where
  "vc_add_loop a b [] = a"
| "vc_add_loop a b (i # is) = vc_add_loop (if b ! i > a ! i then a[i := b ! i] else a) b is"

definition vc_add :: "vclock \<Rightarrow> vclock \<Rightarrow> vclock" where
  "vc_add a b = vc_add_loop (vc_grow (length b) a) b [0..<length b]"

fun vc_sub_loop :: "vclock \<Rightarrow> vclock \<Rightarrow> nat list \<Rightarrow> vclock" where
  "vc_sub_loop a b [] = a"
| "vc_sub_loop a b (i # is) = vc_sub_loop (if b ! i < a ! i then a[i := b ! i] else a) b is"

definition vc_sub :: "vclock \<Rightarrow> vclock \<Rightarrow> vclock" where
  "vc_sub a b = vc_sub_loop (vc_grow (length b) a) b [0..<length b]"

section \<open>Comparisons\<close>

definition vc_eq :: "vclock \<Rightarrow> vclock \<Rightarrow> bool" where
  "vc_eq a b = list_all (\<lambda>i. vc_at a i = vc_at b i) [0..<max (length a) (length b)]"

fun vc_less_loop :: "vclock \<Rightarrow> vclock \<Rightarrow> nat list \<Rightarrow> bool" where
  "vc_less_loop a b [] = False"
| "vc_less_loop a b (i # is) =
     (if vc_at a i < vc_at b i then True else if vc_at a i > vc_at b i then False else vc_less_loop a b is)"

definition vc_less :: "vclock \<Rightarrow> vclock \<Rightarrow> bool" where
  "vc_less a b = vc_less_loop a b [0..<max (length a) (length b)]"

definition vc_less_eq :: "vclock \<Rightarrow> vclock \<Rightarrow> bool" where
  "vc_less_eq a b = (\<not> vc_less b a)"

fun vc_lt_loop :: "vclock \<Rightarrow> vclock \<Rightarrow> nat list \<Rightarrow> bool \<Rightarrow> bool" where
  "vc_lt_loop a b [] strict = strict"
| "vc_lt_loop a b (i # is) strict =
     (if vc_at a i > vc_at b i then False else vc_lt_loop a b is (strict \<or> vc_at a i < vc_at b i))"

definition vc_lt :: "vclock \<Rightarrow> vclock \<Rightarrow> bool" where
  "vc_lt a b = vc_lt_loop a b [0..<max (length a) (length b)] False"

definition vc_leq :: "vclock \<Rightarrow> vclock \<Rightarrow> bool" where
  "vc_leq a b =
     (list_all (\<lambda>i. \<not> b ! i < a ! i) [0..<min (length a) (length b)] \<and>
      list_all (\<lambda>i. a ! i = 0) [min (length a) (length b)..<length a])"

definition vc_geq :: "vclock \<Rightarrow> vclock \<Rightarrow> bool" where
  "vc_geq a b = list_all (\<lambda>i. \<not> vc_at a i < vc_at b i) [0..<max (length a) (length b)]"

fun vc_gt_loop :: "vclock \<Rightarrow> vclock \<Rightarrow> nat list \<Rightarrow> bool \<Rightarrow> bool" where
  "vc_gt_loop a b [] strict = strict"
| "vc_gt_loop a b (i # is) strict =
     (if vc_at a i < vc_at b i then False else vc_gt_loop a b is (strict \<or> vc_at a i > vc_at b i))"

definition vc_gt :: "vclock \<Rightarrow> vclock \<Rightarrow> bool" where
  "vc_gt a b = vc_gt_loop a b [0..<max (length a) (length b)] False"

definition vc_to_string :: "vclock \<Rightarrow> string" where
  "vc_to_string v =
     ''['' @ concat (map (\<lambda>i. (if i \<noteq> 0 then '', '' else []) @ dec_int (v ! i)) [0..<vc_size v]) @ '']''"

section \<open>Vectors of clocks\<close>

record vclock_vec =
  vv_vec :: "int list"
  vv_clock_size :: nat

definition vv_make :: "nat \<Rightarrow> nat \<Rightarrow> vclock_vec" where
  "vv_make cs n = \<lparr>vv_vec = replicate (cs * n) 0, vv_clock_size = cs\<rparr>"

definition vv_get :: "vclock_vec \<Rightarrow> nat \<Rightarrow> int list result" where
  "vv_get v d = assert_r ((d + 1) * vv_clock_size v \<le> length (vv_vec v))
     (Inr (take (vv_clock_size v) (drop (d * vv_clock_size v) (vv_vec v))))"

text \<open>The elements a reference to the \<open>d\<close>-th clock designates are replaced.\<close>

definition vv_put :: "vclock_vec \<Rightarrow> nat \<Rightarrow> int list \<Rightarrow> vclock_vec" where
  "vv_put v d r = v\<lparr>vv_vec := take (d * vv_clock_size v) (vv_vec v) @ r @ drop ((d + 1) * vv_clock_size v) (vv_vec v)\<rparr>"

definition vr_assign :: "int list \<Rightarrow> vclock \<Rightarrow> int list" where
  "vr_assign r v = map (vc_at v) [0..<length r]"

definition vr_sub :: "int list \<Rightarrow> int list \<Rightarrow> int list result" where
  "vr_sub r q = assert_r (length q = length r) (Inr (map (\<lambda>i. if q ! i < r ! i then q ! i else r ! i) [0..<length r]))"

definition vr_lt :: "int list \<Rightarrow> int list \<Rightarrow> bool result" where
  "vr_lt r q = assert_r (length r = length q) (Inr (vc_lt_loop r q [0..<length r] False))"

fun vv_fill :: "vclock_vec \<Rightarrow> vclock \<Rightarrow> nat list \<Rightarrow> vclock_vec result" where
  "vv_fill v c [] = Inr v"
| "vv_fill v c (i # is) = bind_r (vv_get v i) (\<lambda>r. vv_fill (vv_put v i (vr_assign r c)) c is)"

definition vv_assign :: "vclock_vec \<Rightarrow> nat \<Rightarrow> nat \<Rightarrow> vclock \<Rightarrow> vclock_vec result" where
  "vv_assign v cs n c = assert_r (vc_size c \<le> cs)
     (vv_fill \<lparr>vv_vec = take (n * cs) (vc_grow (n * cs) (vv_vec v)), vv_clock_size = cs\<rparr> c [0..<n])"

section \<open>What the operations mean\<close>

definition vc_ok :: "vclock \<Rightarrow> bool" where
  "vc_ok v = (\<forall>i. 0 \<le> vc_at v i)"

lemma vc_at_out: "length v \<le> i \<Longrightarrow> vc_at v i = 0"
  by (simp add: vc_at_def)

lemma vc_at_nil [simp]: "vc_at [] i = 0"
  by (simp add: vc_at_def)

lemma vc_at_grow [simp]: "vc_at (vc_grow n v) i = vc_at v i"
  by (auto simp: vc_at_def vc_grow_def nth_append)

lemma length_grow [simp]: "length (vc_grow n v) = max n (length v)"
  by (auto simp: vc_grow_def)

lemma vc_at_set [simp]: "vc_at (vc_set v i x) j = (if j = i then x else vc_at v j)"
proof -
  have "vc_at (vc_set v i x) j = (if j = i then x else vc_at (vc_grow (i + 1) v) j)"
    by (auto simp: vc_at_def vc_set_def)
  thus ?thesis by simp
qed

lemma vc_at_map: "(\<And>i. n \<le> i \<Longrightarrow> f i = 0) \<Longrightarrow> vc_at (map f [0..<n]) i = f i"
  by (auto simp: vc_at_def)

lemma vc_at_plus [simp]: "vc_at (vc_plus a b) i = max (vc_at a i) (vc_at b i)"
  unfolding vc_plus_def by (rule vc_at_map) (simp add: vc_at_out)

lemma vc_at_minus [simp]: "vc_at (vc_minus a b) i = min (vc_at a i) (vc_at b i)"
  unfolding vc_minus_def by (rule vc_at_map) (simp add: vc_at_out)

lemma vc_add_loop_nth:
  "\<forall>i\<in>set is. i < length b \<and> i < length a \<Longrightarrow> distinct is \<Longrightarrow>
   length (vc_add_loop a b is) = length a \<and>
   (\<forall>j<length a. vc_add_loop a b is ! j = (if j \<in> set is then max (a ! j) (b ! j) else a ! j))"
proof (induction "is" arbitrary: a)
  case (Cons i "is")
  thus ?case using Cons.IH [of "if b ! i > a ! i then a[i := b ! i] else a"] by (auto simp: nth_list_update)
qed simp

lemma vc_sub_loop_nth:
  "\<forall>i\<in>set is. i < length b \<and> i < length a \<Longrightarrow> distinct is \<Longrightarrow>
   length (vc_sub_loop a b is) = length a \<and>
   (\<forall>j<length a. vc_sub_loop a b is ! j = (if j \<in> set is then min (a ! j) (b ! j) else a ! j))"
proof (induction "is" arbitrary: a)
  case (Cons i "is")
  thus ?case using Cons.IH [of "if b ! i < a ! i then a[i := b ! i] else a"] by (auto simp: nth_list_update)
qed simp

lemma grow_nth: "i < max n (length v) \<Longrightarrow> vc_grow n v ! i = vc_at v i"
  by (auto simp: vc_grow_def vc_at_def nth_append)

lemma vc_add_nth:
  "length (vc_add a b) = max (length a) (length b)"
  "i < max (length a) (length b) \<Longrightarrow> vc_add a b ! i = (if i < length b then max (vc_at a i) (vc_at b i) else vc_at a i)"
proof -
  have "\<forall>i\<in>set [0..<length b]. i < length b \<and> i < length (vc_grow (length b) a)" by auto
  note l = vc_add_loop_nth [OF this distinct_upt]
  show "length (vc_add a b) = max (length a) (length b)" using l by (simp add: vc_add_def max.commute [of "length b"])
  show "i < max (length a) (length b) \<Longrightarrow> vc_add a b ! i = (if i < length b then max (vc_at a i) (vc_at b i) else vc_at a i)"
    using l by (simp add: vc_add_def grow_nth max.commute [of "length b"] vc_at_def [of b])
qed

lemma vc_sub_nth:
  "length (vc_sub a b) = max (length a) (length b)"
  "i < max (length a) (length b) \<Longrightarrow> vc_sub a b ! i = (if i < length b then min (vc_at a i) (vc_at b i) else vc_at a i)"
proof -
  have "\<forall>i\<in>set [0..<length b]. i < length b \<and> i < length (vc_grow (length b) a)" by auto
  note l = vc_sub_loop_nth [OF this distinct_upt]
  show "length (vc_sub a b) = max (length a) (length b)" using l by (simp add: vc_sub_def max.commute [of "length b"])
  show "i < max (length a) (length b) \<Longrightarrow> vc_sub a b ! i = (if i < length b then min (vc_at a i) (vc_at b i) else vc_at a i)"
    using l by (simp add: vc_sub_def grow_nth max.commute [of "length b"] vc_at_def [of b])
qed

lemma vc_at_add: "vc_at (vc_add a b) i = (if i < length b then max (vc_at a i) (vc_at b i) else vc_at a i)"
  using vc_add_nth(1) [of a b] vc_add_nth(2) [of i a b] by (simp add: vc_at_def [of "vc_add a b"]) (auto simp: vc_at_out)

lemma vc_at_sub: "vc_at (vc_sub a b) i = (if i < length b then min (vc_at a i) (vc_at b i) else vc_at a i)"
  using vc_sub_nth(1) [of a b] vc_sub_nth(2) [of i a b] by (simp add: vc_at_def [of "vc_sub a b"]) (auto simp: vc_at_out)

lemma vc_at_add_ok [simp]: "vc_ok a \<Longrightarrow> vc_at (vc_add a b) i = max (vc_at a i) (vc_at b i)"
  by (auto simp: vc_at_add vc_ok_def vc_at_out)

text \<open>Comparisons look at all indices where one of the clocks may differ from 0.\<close>

lemma all_at_iff: "(\<forall>i<max (length a) (length b). P (vc_at a i) (vc_at b i)) \<longleftrightarrow> (\<forall>i. P (vc_at a i) (vc_at b i))"
  if "P 0 0"
  using that vc_at_out by (metis max.strict_coboundedI1 max.strict_coboundedI2 not_less)

lemma vc_eq_iff: "vc_eq a b \<longleftrightarrow> vc_at a = vc_at b"
  using all_at_iff [of "(=)" a b] by (auto simp: vc_eq_def list_all_iff fun_eq_iff)

lemma vc_geq_iff: "vc_geq a b \<longleftrightarrow> (\<forall>i. vc_at b i \<le> vc_at a i)"
  using all_at_iff [of "\<lambda>x y. y \<le> x" a b] by (auto simp: vc_geq_def list_all_iff not_less)

lemma vc_leq_iff:
  assumes "vc_ok a" "vc_ok b"
  shows "vc_leq a b \<longleftrightarrow> (\<forall>i. vc_at a i \<le> vc_at b i)"
proof
  assume l: "vc_leq a b"
  show "\<forall>i. vc_at a i \<le> vc_at b i"
  proof
    fix i
    consider "i < min (length a) (length b)" | "min (length a) (length b) \<le> i" "i < length a" | "length a \<le> i" by linarith
    thus "vc_at a i \<le> vc_at b i"
    proof cases
      case 1
      thus ?thesis using l by (auto simp: vc_leq_def list_all_iff vc_at_def not_less)
    next
      case 2
      hence "vc_at a i = 0" using l by (auto simp: vc_leq_def list_all_iff vc_at_def)
      thus ?thesis using assms(2) by (simp add: vc_ok_def)
    next
      case 3
      thus ?thesis using assms(2) by (simp add: vc_at_out vc_ok_def)
    qed
  qed
next
  assume r: "\<forall>i. vc_at a i \<le> vc_at b i"
  have "\<not> b ! i < a ! i" if "i < min (length a) (length b)" for i
    using spec [OF r, of i] that by (simp add: vc_at_def)
  moreover have "a ! i = 0" if "min (length a) (length b) \<le> i" "i < length a" for i
  proof -
    have "length b \<le> i" using that by linarith
    hence "vc_at a i \<le> 0" using spec [OF r, of i] by (simp add: vc_at_out)
    thus ?thesis using spec [OF assms(1) [unfolded vc_ok_def], of i] that(2) by (simp add: vc_at_def)
  qed
  ultimately show "vc_leq a b" by (auto simp: vc_leq_def list_all_iff)
qed

lemma vc_lt_loop_iff:
  "vc_lt_loop a b is l \<longleftrightarrow> (\<forall>i\<in>set is. vc_at a i \<le> vc_at b i) \<and> (l \<or> (\<exists>i\<in>set is. vc_at a i < vc_at b i))"
  by (induction "is" arbitrary: l) auto

lemma vc_gt_loop_eq: "vc_gt_loop a b is l = vc_lt_loop b a is l"
  by (induction "is" arbitrary: l) auto

lemma vc_lt_iff: "vc_lt a b \<longleftrightarrow> (\<forall>i. vc_at a i \<le> vc_at b i) \<and> vc_at a \<noteq> vc_at b"
proof -
  let ?n = "max (length a) (length b)"
  have all: "(\<forall>i<?n. vc_at a i \<le> vc_at b i) \<longleftrightarrow> (\<forall>i. vc_at a i \<le> vc_at b i)"
    using all_at_iff [of "(\<le>)" a b] by simp
  have "(\<exists>i<?n. vc_at a i < vc_at b i) \<longleftrightarrow> (\<exists>i. vc_at a i < vc_at b i)"
    using all_at_iff [of "\<lambda>x y. \<not> x < y" a b] by auto
  moreover have "(\<exists>i. vc_at a i < vc_at b i) \<longleftrightarrow> vc_at a \<noteq> vc_at b" if "\<forall>i. vc_at a i \<le> vc_at b i"
    using that unfolding fun_eq_iff by (metis less_le)
  ultimately show ?thesis using all by (auto simp: vc_lt_def vc_lt_loop_iff)
qed

lemma vc_gt_iff: "vc_gt a b = vc_lt b a"
  by (simp add: vc_gt_def vc_lt_def vc_gt_loop_eq max.commute)

text \<open>The total order: the first index where they differ decides.\<close>

definition vc_before :: "vclock \<Rightarrow> vclock \<Rightarrow> bool" where
  "vc_before a b = (\<exists>i. vc_at a i < vc_at b i \<and> (\<forall>j<i. vc_at a j = vc_at b j))"

lemma vc_less_loop_iff:
  "m \<le> n \<Longrightarrow> vc_less_loop a b [m..<n] \<longleftrightarrow>
   (\<exists>i. m \<le> i \<and> i < n \<and> vc_at a i < vc_at b i \<and> (\<forall>j. m \<le> j \<longrightarrow> j < i \<longrightarrow> vc_at a j = vc_at b j))"
proof (induction "n - m" arbitrary: m)
  case (Suc k)
  hence m: "m < n" "k = n - Suc m" "Suc m \<le> n" by simp_all
  note IH = Suc.hyps(1) [OF m(2,3)]
  show ?case
  proof (cases "vc_at a m = vc_at b m")
    case True
    hence "vc_less_loop a b [m..<n] = vc_less_loop a b [Suc m..<n]" using m(1) by (simp add: upt_rec)
    also have "\<dots> \<longleftrightarrow> (\<exists>i. m \<le> i \<and> i < n \<and> vc_at a i < vc_at b i \<and> (\<forall>j. m \<le> j \<longrightarrow> j < i \<longrightarrow> vc_at a j = vc_at b j))"
      unfolding IH using True by (metis Suc_le_eq le_neq_implies_less less_irrefl Suc_leD)
    finally show ?thesis .
  next
    case False
    hence "vc_less_loop a b [m..<n] \<longleftrightarrow> vc_at a m < vc_at b m" using m(1) by (auto simp: upt_rec)
    thus ?thesis using False m(1) by (metis le_neq_implies_less le_refl less_irrefl not_less_iff_gr_or_eq)
  qed
qed simp

lemma vc_less_iff: "vc_less a b \<longleftrightarrow> vc_before a b"
proof -
  have "i < max (length a) (length b)" if "vc_at a i < vc_at b i" for i
    using that by (metis less_irrefl max.strict_coboundedI1 max.strict_coboundedI2 not_less vc_at_out)
  thus ?thesis using vc_less_loop_iff [of 0 "max (length a) (length b)" a b] by (auto simp: vc_less_def vc_before_def)
qed

lemma vc_before_trans: "vc_before a b \<Longrightarrow> vc_before b d \<Longrightarrow> vc_before a d"
  unfolding vc_before_def
proof (elim exE conjE)
  fix i k
  assume "vc_at a i < vc_at b i" "\<forall>j<i. vc_at a j = vc_at b j" "vc_at b k < vc_at d k" "\<forall>j<k. vc_at b j = vc_at d j"
  thus "\<exists>i. vc_at a i < vc_at d i \<and> (\<forall>j<i. vc_at a j = vc_at d j)"
    by (intro exI [of _ "min i k"]) (cases i k rule: linorder_cases; auto)
qed

lemma vc_before_linear: "vc_at a \<noteq> vc_at b \<Longrightarrow> vc_before a b \<or> vc_before b a"
proof -
  assume "vc_at a \<noteq> vc_at b"
  then obtain i where "vc_at a i \<noteq> vc_at b i" by blast
  hence "\<exists>i. vc_at a i \<noteq> vc_at b i \<and> (\<forall>j<i. vc_at a j = vc_at b j)"
    by (induction i rule: less_induct) blast
  thus ?thesis unfolding vc_before_def by (metis linorder_neqE)
qed

lemma vc_before_irrefl: "\<not> vc_before a a"
  by (simp add: vc_before_def)

lemma trim_takes: "\<exists>n. rev (vc_trim (rev v)) = take n v \<and> (\<forall>i. vc_at (take n v) i = vc_at v i) \<and>
    n = length (vc_trim (rev v)) \<and> (n > 0 \<longrightarrow> vc_at v (n - 1) \<noteq> 0)"
proof (induction v rule: rev_induct)
  case (snoc x v)
  show ?case
  proof (cases "x = 0")
    case True
    then obtain n where n: "rev (vc_trim (rev v)) = take n v" "\<forall>i. vc_at (take n v) i = vc_at v i"
      "n = length (vc_trim (rev v))" "n > 0 \<longrightarrow> vc_at v (n - 1) \<noteq> 0" using snoc by blast
    have at: "vc_at (v @ [0]) i = vc_at v i" for i by (auto simp: vc_at_def nth_append)
    have "n \<le> length v" using n(1,3) by (metis length_rev length_take min.absorb_iff2 min.commute)
    thus ?thesis using n True at by (intro exI [of _ n]) simp
  next
    case False
    thus ?thesis by (intro exI [of _ "Suc (length v)"]) (simp add: vc_at_def)
  qed
qed simp

lemma vc_size_le: "vc_size v \<le> n \<longleftrightarrow> (\<forall>i\<ge>n. vc_at v i = 0)"
proof
  obtain m where m: "rev (vc_trim (rev v)) = take m v" "\<forall>i. vc_at (take m v) i = vc_at v i"
    "m = vc_size v" "m > 0 \<longrightarrow> vc_at v (m - 1) \<noteq> 0"
    using trim_takes [of v] unfolding vc_size_def by blast
  show "\<forall>i\<ge>n. vc_at v i = 0" if "vc_size v \<le> n"
    using that m(2,3) by (auto simp flip: m(2)) (auto simp: vc_at_def)
  show "vc_size v \<le> n" if "\<forall>i\<ge>n. vc_at v i = 0"
    using that m(3,4) by (cases "m = 0") (auto simp: not_less [symmetric])
qed

text \<open>The vectors: a block of clocks of one size.\<close>

definition vv_ok :: "nat \<Rightarrow> vclock_vec \<Rightarrow> bool" where
  "vv_ok n v = (length (vv_vec v) = n * vv_clock_size v)"

lemma vv_block_le: "d < n \<Longrightarrow> (d + 1) * c \<le> n * (c :: nat)"
  using mult_le_mono1 [of "d + 1" n c] by simp

lemma vv_get_ok:
  assumes "vv_ok n v" "d < n"
  shows "\<exists>r. vv_get v d = Inr r \<and> length r = vv_clock_size v"
  using vv_block_le [OF assms(2), of "vv_clock_size v"] assms(1) by (auto simp: vv_get_def vv_ok_def)

lemma vv_put_ok:
  assumes "vv_ok n v" "d < n" "length r = vv_clock_size v"
  shows "vv_ok n (vv_put v d r) \<and> vv_clock_size (vv_put v d r) = vv_clock_size v"
  using vv_block_le [OF assms(2), of "vv_clock_size v"] assms by (auto simp: vv_put_def vv_ok_def algebra_simps)

lemma take_drop_block:
  assumes "m + c \<le> l" "l \<le> length xs"
  shows "take c (drop m (take l xs @ q)) = take c (drop m xs)"
proof -
  have "drop m (take l xs @ q) = take (l - m) (drop m xs) @ q" using assms by (simp add: drop_take)
  moreover have "c \<le> length (take (l - m) (drop m xs))" "c \<le> l - m" using assms by auto
  ultimately show ?thesis by (simp add: min_absorb1)
qed

lemma vv_get_put:
  assumes "vv_ok n v" "d < n" "e < n" "length r = vv_clock_size v"
  shows "vv_get (vv_put v d r) e = (if e = d then Inr r else vv_get v e)"
proof -
  let ?c = "vv_clock_size v"
  have b: "(d + 1) * ?c \<le> length (vv_vec v)" "(e + 1) * ?c \<le> length (vv_vec v)"
    using vv_block_le [OF assms(2), of ?c] vv_block_le [OF assms(3), of ?c] assms(1) by (simp_all add: vv_ok_def)
  have len: "length (vv_vec (vv_put v d r)) = length (vv_vec v)"
    using b(1) assms(4) by (simp add: vv_put_def algebra_simps)
  have get: "vv_get (vv_put v d r) e = assert_r ((e + 1) * ?c \<le> length (vv_vec v))
      (Inr (take ?c (drop (e * ?c) (take (d * ?c) (vv_vec v) @ r @ drop ((d + 1) * ?c) (vv_vec v)))))"
    using len by (simp only: vv_get_def) (simp add: vv_put_def)
  consider "e = d" | "e < d" | "d < e" by linarith
  thus ?thesis
  proof cases
    case 1
    thus ?thesis using b(1) assms(4) by (subst get) (simp add: algebra_simps)
  next
    case 2
    hence "(e + 1) * ?c \<le> d * ?c" using vv_block_le by blast
    hence "take ?c (drop (e * ?c) (take (d * ?c) (vv_vec v) @ q)) = take ?c (drop (e * ?c) (vv_vec v))" for q
      using b(1) by (intro take_drop_block) simp_all
    thus ?thesis unfolding get using 2 by (simp only: vv_get_def if_not_P [OF less_imp_neq [OF 2]])
  next
    case 3
    then obtain k where k: "e = d + 1 + k" by (metis add.assoc less_iff_Suc_add plus_1_eq_Suc add.commute)
    have "drop (e * ?c) (take (d * ?c) (vv_vec v) @ r @ drop ((d + 1) * ?c) (vv_vec v)) = drop (e * ?c) (vv_vec v)"
      using b(1) assms(4) by (simp add: k algebra_simps)
    thus ?thesis unfolding get using 3 by (simp only: vv_get_def if_not_P [OF less_imp_neq [OF 3, symmetric]])
  qed
qed

lemma vv_fill_ok:
  assumes "vv_ok n v" "\<forall>i\<in>set is. i < n"
  shows "\<exists>w. vv_fill v c is = Inr w \<and> vv_ok n w \<and> vv_clock_size w = vv_clock_size v \<and>
    (\<forall>i<n. vv_get w i = (if i \<in> set is then Inr (map (vc_at c) [0..<vv_clock_size v]) else vv_get v i))"
  using assms
proof (induction "is" arbitrary: v)
  case (Cons d "is")
  hence d: "d < n" by simp
  obtain r where r: "vv_get v d = Inr r" "length r = vv_clock_size v" using vv_get_ok [OF Cons.prems(1) d] by blast
  let ?v = "vv_put v d (vr_assign r c)"
  have l: "length (vr_assign r c) = vv_clock_size v" "vr_assign r c = map (vc_at c) [0..<vv_clock_size v]"
    using r(2) by (simp_all add: vr_assign_def)
  note p = vv_put_ok [OF Cons.prems(1) d l(1)]
  obtain w where w: "vv_fill ?v c is = Inr w" "vv_ok n w" "vv_clock_size w = vv_clock_size ?v"
    "\<forall>i<n. vv_get w i = (if i \<in> set is then Inr (map (vc_at c) [0..<vv_clock_size ?v]) else vv_get ?v i)"
    using Cons.IH [of ?v] p Cons.prems(2) by auto
  have "\<forall>i<n. vv_get ?v i = (if i = d then Inr (vr_assign r c) else vv_get v i)"
    using vv_get_put [OF Cons.prems(1) d _ l(1)] by blast
  thus ?case using r w p l(2) by auto
qed simp

text \<open>\<open>assign\<close> sets every clock of the vector.\<close>

lemma vv_assign_sets:
  assumes "vc_size c \<le> cs"
  shows "\<exists>w. vv_assign v cs n c = Inr w \<and> (\<forall>i<n. vv_get w i = Inr (map (vc_at c) [0..<cs]))"
proof -
  let ?v = "\<lparr>vv_vec = take (n * cs) (vc_grow (n * cs) (vv_vec v)), vv_clock_size = cs\<rparr>"
  have "vv_ok n ?v" by (simp add: vv_ok_def)
  thus ?thesis using vv_fill_ok [of n ?v "[0..<n]" c] assms by (auto simp: vv_assign_def)
qed

section \<open>Properties\<close>

text \<open>C36: on clocks without negative elements the comparisons eq, leq, lt, geq and gt decide the pointwise
  order of the functions the clocks stand for, however many zeros the vectors end in; addition, in place
  or not, is the least upper bound, and the difference the greatest lower bound; \<open>size\<close> is the
  first index from which on everything is 0.\<close>

theorem vclock_lattice:
  assumes "vc_ok a" "vc_ok b"
  shows "vc_eq a b = (vc_at a = vc_at b) \<and> vc_leq a b = (\<forall>i. vc_at a i \<le> vc_at b i) \<and>
    vc_lt a b = (vc_leq a b \<and> \<not> vc_eq a b) \<and> vc_geq a b = vc_leq b a \<and> vc_gt a b = vc_lt b a \<and>
    vc_eq (vc_add a b) (vc_plus a b) \<and> vc_leq a (vc_plus a b) \<and> vc_leq b (vc_plus a b) \<and>
    vc_leq (vc_minus a b) a \<and> vc_leq (vc_minus a b) b \<and>
    (\<forall>d. vc_ok d \<longrightarrow> vc_leq a d \<longrightarrow> vc_leq b d \<longrightarrow> vc_leq (vc_plus a b) d) \<and>
    (\<forall>d. vc_ok d \<longrightarrow> vc_leq d a \<longrightarrow> vc_leq d b \<longrightarrow> vc_leq d (vc_minus a b)) \<and>
    (\<forall>n. vc_size a \<le> n \<longleftrightarrow> (\<forall>i\<ge>n. vc_at a i = 0))"
proof -
  have ok: "vc_ok (vc_plus a b)" "vc_ok (vc_minus a b)"
    using assms by (auto simp: vc_ok_def le_max_iff_disj)
  note leq = vc_leq_iff [OF assms] vc_leq_iff [OF assms(2,1)] vc_leq_iff [OF assms(1) ok(1)] vc_leq_iff [OF assms(2) ok(1)]
    vc_leq_iff [OF ok(2) assms(1)] vc_leq_iff [OF ok(2) assms(2)]
  have glb: "vc_leq (vc_plus a b) d" if "vc_ok d" "vc_leq a d" "vc_leq b d" for d
    using that by (simp add: vc_leq_iff [OF ok(1)] vc_leq_iff [OF assms(1)] vc_leq_iff [OF assms(2)])
  have lub: "vc_leq d (vc_minus a b)" if "vc_ok d" "vc_leq d a" "vc_leq d b" for d
    using that by (simp add: vc_leq_iff [OF _ ok(2)] vc_leq_iff [OF _ assms(1)] vc_leq_iff [OF _ assms(2)])
  have cmp: "vc_lt a b = (vc_leq a b \<and> \<not> vc_eq a b)" "vc_geq a b = vc_leq b a"
    by (simp_all only: leq vc_lt_iff vc_eq_iff vc_geq_iff)
  have add: "vc_eq (vc_add a b) (vc_plus a b)"
    by (simp add: vc_eq_iff fun_eq_iff vc_at_add_ok [OF assms(1)])
  have bounds: "vc_leq a (vc_plus a b)" "vc_leq b (vc_plus a b)" "vc_leq (vc_minus a b) a" "vc_leq (vc_minus a b) b"
    by (simp_all add: leq)
  show ?thesis
    by (intro conjI allI impI; (rule vc_eq_iff leq(1) cmp vc_gt_iff add bounds vc_size_le | (erule (2) glb) | (erule (2) lub)))
qed

lemma vc_ok_list: "list_all (\<lambda>x. 0 \<le> x) v \<Longrightarrow> vc_ok v"
  by (simp add: vc_ok_def vc_at_def list_all_length)

theorem vclock_lattice_witness:
  "vc_leq [1] (vc_plus [1] [0, 2]) \<and> vc_plus [1] [0, 2] = [1, 2] \<and> vc_eq (vc_add [1] [0, 2]) [1, 2, 0]"
proof (intro conjI)
  show "vc_leq [1] (vc_plus [1] [0, 2])" using vclock_lattice [of "[1]" "[0, 2]"] by (simp add: vc_ok_list)
qed code_simp+

text \<open>the operator \<open><\<close> is a strict total order on the functions the clocks stand for: irreflexive,
  transitive, and two clocks with different elements are ordered one way; \<open><=\<close> is its complement.\<close>

theorem vclock_total_order:
  "\<not> vc_less a a \<and> (vc_less a b \<and> vc_less b d \<longrightarrow> vc_less a d) \<and>
   (vc_eq a b \<or> vc_less a b \<or> vc_less b a) \<and> (vc_less a b \<longrightarrow> \<not> vc_eq a b \<and> \<not> vc_less b a) \<and>
   vc_less_eq a b = (vc_less a b \<or> vc_eq a b)"
proof -
  have ir: "vc_before a b \<Longrightarrow> vc_at a \<noteq> vc_at b" by (auto simp: vc_before_def)
  have as: "vc_before a b \<Longrightarrow> \<not> vc_before b a" using vc_before_trans vc_before_irrefl by blast
  have sy: "vc_at a = vc_at b \<Longrightarrow> \<not> vc_before b a" by (auto simp: vc_before_def)
  show ?thesis unfolding vc_less_iff vc_eq_iff vc_less_eq_def
    using ir as sy vc_before_irrefl vc_before_trans vc_before_linear by blast
qed

theorem vclock_total_order_witness: "vc_less [0, 5] [1] \<and> \<not> vc_less [1] [0, 5]"
  using vclock_total_order [of "[0, 5]" "[1]"] by code_simp

text \<open>subtraction in place leaves the elements behind the end of its argument as they are, where the
  minimum is 0, so that \<open>a -= b\<close> and \<open>a - b\<close> differ exactly when one of them is not 0.\<close>

theorem vclock_sub_differs:
  assumes "vc_ok a" "vc_ok b"
  shows "vc_eq (vc_sub a b) (vc_minus a b) = (\<forall>i\<ge>length b. vc_at a i = 0)"
proof -
  have "(\<forall>i. (if i < length b then min (vc_at a i) (vc_at b i) else vc_at a i) = min (vc_at a i) (vc_at b i)) =
    (\<forall>i\<ge>length b. vc_at a i = 0)"
    using assms(1) by (auto simp: vc_at_out vc_ok_def min_def not_less split: if_splits) (metis antisym)
  thus ?thesis by (simp add: vc_eq_iff fun_eq_iff vc_at_sub)
qed

theorem vclock_sub_differs_witness: "\<not> vc_eq (vc_sub [1, 1] [1]) (vc_minus [1, 1] [1])"
proof -
  have "vc_ok [1, 1]" "vc_ok [1]" by (simp_all add: vc_ok_list)
  thus ?thesis using vclock_sub_differs [of "[1, 1]" "[1]"] by (auto simp: vc_at_def intro!: exI [of _ 1])
qed

end
