(* ===== verification/SatGraph.thy ===== *)
theory SatGraph
  imports Prelude VClock Iid SymAddr "HOL-Library.AList"
begin

text \<open>
  The saturated graph (\<open>SaturatedGraph.h\<close>, \<open>SaturatedGraph.cpp\<close>): events of threads with program order,
  reads-from and other edges, their vector clocks, and the saturation that adds the edges every
  execution must respect or finds a cycle. \<open>gen::vector\<close> and \<open>gen::map\<close> are values here: their
  copy-on-write sharing is not visible. A map is iterated in the order in which its keys were first
  used. Identifiers of events in the graph are their positions.
\<close>

section \<open>State\<close>

datatype event_kind = K_NONE | K_STORE | K_LOAD | K_RMW

type_synonym ext_id = "int iid"

record sg_event =
  se_iid :: "nat iid"
  se_ext :: ext_id
  se_load :: bool
  se_store :: bool
  se_addr :: sym_addr
  se_from :: "nat option"
  se_readers :: "nat list"
  se_po :: "nat option"

record sat_graph =
  sg_ids :: "(ext_id \<times> nat) list"
  sg_events :: "sg_event list"
  sg_ins :: "nat list list"
  sg_outs :: "nat list list"
  sg_writes_at :: "(sym_addr \<times> (nat \<times> nat) list) list"
  sg_init_reads :: "(sym_addr \<times> nat list) list"
  sg_by_pid :: "nat list list"
  sg_clocks :: "vclock list"
  sg_writes_by :: "(sym_addr \<times> nat list) list list"
  sg_until :: nat
  sg_queue :: "nat list"
  sg_queued :: "bool list"

definition sg_empty :: sat_graph where
  "sg_empty = \<lparr>sg_ids = [], sg_events = [], sg_ins = [], sg_outs = [], sg_writes_at = [], sg_init_reads = [],
     sg_by_pid = [], sg_clocks = [], sg_writes_by = [], sg_until = 0, sg_queue = [], sg_queued = []\<rparr>"

definition enlarge :: "'a \<Rightarrow> nat \<Rightarrow> 'a list \<Rightarrow> 'a list" where
  "enlarge x n v = v @ replicate (n - length v) x"

definition sg_id :: "sat_graph \<Rightarrow> ext_id \<Rightarrow> nat result" where
  "sg_id g e = (case map_of (sg_ids g) e of Some i \<Rightarrow> Inr i | None \<Rightarrow> Inl Out_of_range)"

definition push_out :: "sat_graph \<Rightarrow> nat \<Rightarrow> nat \<Rightarrow> sat_graph result" where
  "push_out g i x = bind_r (mut_r (sg_outs g) i (\<lambda>v. v @ [x])) (\<lambda>v. Inr (g\<lparr>sg_outs := v\<rparr>))"

definition push_in :: "sat_graph \<Rightarrow> nat \<Rightarrow> nat \<Rightarrow> sat_graph result" where
  "push_in g i x = bind_r (mut_r (sg_ins g) i (\<lambda>v. v @ [x])) (\<lambda>v. Inr (g\<lparr>sg_ins := v\<rparr>))"

section \<open>The work queue\<close>

definition sg_is_queued :: "sat_graph \<Rightarrow> nat \<Rightarrow> bool" where
  "sg_is_queued g i = (i < length (sg_queued g) \<and> sg_queued g ! i)"

definition wq_add :: "sat_graph \<Rightarrow> nat \<Rightarrow> sat_graph" where
  "wq_add g i =
     (if sg_is_queued g i then g
      else g\<lparr>sg_queued := (enlarge False (i + 1) (sg_queued g))[i := True], sg_queue := sg_queue g @ [i]\<rparr>)"

definition wq_add_first :: "sat_graph \<Rightarrow> nat \<Rightarrow> sat_graph" where
  "wq_add_first g i =
     (if sg_is_queued g i then g
      else g\<lparr>sg_queued := (enlarge False (i + 1) (sg_queued g))[i := True], sg_queue := i # sg_queue g\<rparr>)"

definition wq_empty :: "sat_graph \<Rightarrow> bool" where
  "wq_empty g = (sg_queue g = [])"

definition wq_pop :: "sat_graph \<Rightarrow> (nat \<times> sat_graph) result" where
  "wq_pop g = assert_r (\<not> wq_empty g)
     (let i = hd (sg_queue g) in Inr (i, g\<lparr>sg_queue := tl (sg_queue g), sg_queued := (sg_queued g)[i := False]\<rparr>))"

section \<open>Adding events and edges\<close>

definition add_edge_internal :: "sat_graph \<Rightarrow> nat \<times> nat \<Rightarrow> sat_graph result" where
  "add_edge_internal g e = bind_r (push_out g (fst e) (snd e)) (\<lambda>g. bind_r (push_in g (snd e) (fst e)) (\<lambda>g. Inr (wq_add g (snd e))))"

definition add_edges :: "sat_graph \<Rightarrow> (nat \<times> nat) list \<Rightarrow> sat_graph result" where
  "add_edges g es = fold_r add_edge_internal g es"

definition add_edge :: "sat_graph \<Rightarrow> ext_id \<Rightarrow> ext_id \<Rightarrow> sat_graph result" where
  "add_edge g a b = bind_r (sg_id g a) (\<lambda>i. bind_r (sg_id g b) (\<lambda>j. add_edge_internal g (i, j)))"

text \<open>The thread's last event comes before the new one, whose index is one more.\<close>

definition add_po :: "sat_graph \<Rightarrow> nat \<Rightarrow> nat \<Rightarrow> (nat option \<times> nat \<times> sat_graph) result" where
  "add_po g p n =
     (let g = g\<lparr>sg_by_pid := enlarge [] (p + 1) (sg_by_pid g), sg_writes_by := enlarge [] (p + 1) (sg_writes_by g)\<rparr>;
          evs = sg_by_pid g ! p;
          g' = g\<lparr>sg_by_pid := (sg_by_pid g)[p := evs @ [n]]\<rparr> in
      if evs = [] then Inr (None, 1, g')
      else bind_r (at_r (sg_events g) (last evs)) (\<lambda>e.
           bind_r (push_out g' (last evs) n) (\<lambda>g. Inr (Some (last evs), iid_idx (se_iid e) + 1, g))))"

text \<open>A load of the initial value comes before the first write of each thread.\<close>

definition load_before_write :: "nat \<Rightarrow> sat_graph \<Rightarrow> nat \<Rightarrow> sat_graph result" where
  "load_before_write n g w =
     bind_r (push_out g n w) (\<lambda>g. bind_r (push_in g w n) (\<lambda>g. Inr (wq_add g w)))"

definition add_from :: "sat_graph \<Rightarrow> nat \<Rightarrow> bool \<Rightarrow> sym_addr \<Rightarrow> nat option \<Rightarrow> sat_graph result" where
  "add_from g n ld a rf =
     (case rf of
        Some w \<Rightarrow> bind_r (mut_r (sg_events g) w (\<lambda>e. e\<lparr>se_readers := se_readers e @ [n]\<rparr>)) (\<lambda>v. Inr (g\<lparr>sg_events := v\<rparr>))
      | None \<Rightarrow> if ld then fold_r (load_before_write n) g (map snd (map_get [] (sg_writes_at g) a)) else Inr g)"

definition write_after_read :: "nat \<Rightarrow> sat_graph \<Rightarrow> nat \<Rightarrow> sat_graph result" where
  "write_after_read n g r = bind_r (push_in g n r) (\<lambda>g. push_out g r n)"

definition add_write :: "sat_graph \<Rightarrow> nat \<Rightarrow> nat \<Rightarrow> sym_addr \<Rightarrow> sat_graph result" where
  "add_write g n p a =
     (let ws = map_get [] (sg_writes_at g) a in
      bind_r (if map_of ws p = None
              then bind_r (fold_r (write_after_read n) g (map_get [] (sg_init_reads g) a)) (\<lambda>g.
                     Inr (g\<lparr>sg_writes_at := AList.update a (AList.update p n ws) (sg_writes_at g)\<rparr>))
              else Inr g) (\<lambda>g.
      bind_r (mut_r (sg_writes_by g) p (\<lambda>m. AList.update a (map_get [] m a @ [n]) m)) (\<lambda>v. Inr (g\<lparr>sg_writes_by := v\<rparr>))))"

definition kind_load :: "event_kind \<Rightarrow> bool" where
  "kind_load k = (k = K_LOAD \<or> k = K_RMW)"

definition kind_store :: "event_kind \<Rightarrow> bool" where
  "kind_store k = (k = K_STORE \<or> k = K_RMW)"

definition add_happens_after :: "nat \<Rightarrow> sat_graph \<Rightarrow> ext_id \<Rightarrow> sat_graph result" where
  "add_happens_after n g e = bind_r (sg_id g e) (\<lambda>i. push_in g n i)"

definition add_event ::
  "sat_graph \<Rightarrow> nat \<Rightarrow> ext_id \<Rightarrow> event_kind \<Rightarrow> sym_addr \<Rightarrow> ext_id option \<Rightarrow> ext_id list \<Rightarrow> sat_graph result" where
  "add_event g p e k a ext_from after =
     (let n = length (sg_events g); ld = kind_load k; st = kind_store k; g = g\<lparr>sg_ids := AList.update e n (sg_ids g)\<rparr> in
      bind_r (add_po g p n) (\<lambda>(po, idx, g).
      bind_r (case ext_from of None \<Rightarrow> Inr None | Some x \<Rightarrow> bind_r (sg_id g x) (\<lambda>w. Inr (Some w))) (\<lambda>rf.
      assert_r (length (sg_ins g) = n \<and> length (sg_outs g) = n)
     (bind_r (fold_r (add_happens_after n) (g\<lparr>sg_outs := sg_outs g @ [[]], sg_ins := sg_ins g @ [[]]\<rparr>) after) (\<lambda>g.
      bind_r (add_from g n ld a rf) (\<lambda>g.
      bind_r (if st then add_write g n p a else Inr g) (\<lambda>g.
      bind_r (fold_r (\<lambda>g i. push_out g i n) g (sg_ins g ! n)) (\<lambda>g.
        let g = g\<lparr>sg_events := sg_events g @ [\<lparr>se_iid = IID p idx, se_ext = e, se_load = ld, se_store = st, se_addr = a,
                     se_from = rf, se_readers = [], se_po = po\<rparr>]\<rparr>;
            g = (if rf = None \<and> ld then g\<lparr>sg_init_reads := AList.update a (map_get [] (sg_init_reads g) a @ [n]) (sg_init_reads g)\<rparr> else g) in
        assert_r (length (sg_clocks g) = n) (Inr (wq_add (g\<lparr>sg_clocks := sg_clocks g @ [[]]\<rparr>) n))))))))))"

section \<open>Clocks\<close>

definition get_process_event :: "sat_graph \<Rightarrow> nat \<Rightarrow> nat \<Rightarrow> nat result" where
  "get_process_event g p i =
     assert_r (p < length (sg_by_pid g)) (assert_r (0 < i) (assert_r (i \<le> length (sg_by_pid g ! p)) (Inr (sg_by_pid g ! p ! (i - 1)))))"

definition maybe_get_process_event :: "sat_graph \<Rightarrow> nat \<Rightarrow> nat \<Rightarrow> nat option result" where
  "maybe_get_process_event g p i =
     assert_r (p < length (sg_by_pid g)) (assert_r (0 < i)
       (Inr (if i > length (sg_by_pid g ! p) then None else Some (sg_by_pid g ! p ! (i - 1)))))"

definition initial_vc :: "sg_event \<Rightarrow> vclock" where
  "initial_vc e = vc_set [] (iid_pid (se_iid e)) (int (iid_idx (se_iid e)))"

text \<open>What comes directly before an event: program order, the write it reads, the other edges.\<close>

definition pred_list :: "sg_event \<Rightarrow> nat list \<Rightarrow> nat list" where
  "pred_list e is = (case se_po e of Some i \<Rightarrow> [i] | None \<Rightarrow> []) @ (case se_from e of Some i \<Rightarrow> [i] | None \<Rightarrow> []) @ is"

definition recompute_vc_for_event :: "sat_graph \<Rightarrow> sg_event \<Rightarrow> nat list \<Rightarrow> vclock result" where
  "recompute_vc_for_event g e is =
     fold_r (\<lambda>v i. bind_r (at_r (sg_clocks g) i) (\<lambda>w. Inr (vc_add v w))) (initial_vc e) (pred_list e is)"

fun is_in_cycle :: "sat_graph \<Rightarrow> nat list \<Rightarrow> vclock \<Rightarrow> bool result" where
  "is_in_cycle g [] v = Inr False"
| "is_in_cycle g (i # is) v = bind_r (at_r (sg_clocks g) i) (\<lambda>w. if vc_eq w v then Inr True else is_in_cycle g is v)"

definition add_successors_to_wq :: "sat_graph \<Rightarrow> nat \<Rightarrow> sg_event \<Rightarrow> sat_graph result" where
  "add_successors_to_wq g i e =
     (let g = (if se_store e then fold (\<lambda>j g. wq_add g j) (se_readers e) g else g) in
      bind_r (at_r (sg_outs g) i) (\<lambda>os. Inr (fold (\<lambda>j g. wq_add g j) os g)))"

section \<open>Saturation\<close>

text \<open>\<open>std::upper_bound\<close> and \<open>std::lower_bound\<close> of a sorted vector.\<close>

definition upper_bound :: "nat list \<Rightarrow> nat \<Rightarrow> nat" where
  "upper_bound v x = length (takeWhile (\<lambda>y. y \<le> x) v)"

definition lower_bound :: "nat list \<Rightarrow> nat \<Rightarrow> nat" where
  "lower_bound v x = length (takeWhile (\<lambda>y. y < x) v)"

text \<open>The last write, other than the event itself, up to an event.\<close>

definition last_write :: "nat list \<Rightarrow> nat \<Rightarrow> nat \<Rightarrow> nat option" where
  "last_write writes visible i =
     (let ub = upper_bound writes visible in
      if ub = 0 then None
      else if writes ! (ub - 1) = i then (if ub - 1 = 0 then None else Some (writes ! (ub - 2)))
      else Some (writes ! (ub - 1)))"

definition from_read :: "nat \<Rightarrow> sg_event \<Rightarrow> sat_graph \<times> bool \<Rightarrow> nat \<Rightarrow> (sat_graph \<times> bool) result" where
  "from_read i e = (\<lambda>(g, new) r.
     if r = i then Inr (g, new)
     else bind_r (at_r (sg_events g) r) (\<lambda>re.
          assert_r (se_load re \<and> se_addr re = se_addr e)
            (bind_r (push_in g i r) (\<lambda>g. bind_r (push_out g r i) (\<lambda>g. Inr (g, True))))))"

text \<open>One thread: the flag says that a cycle was found.\<close>

definition saturate_pid ::
  "nat \<Rightarrow> sg_event \<Rightarrow> vclock \<Rightarrow> vclock \<Rightarrow> sat_graph \<times> bool \<times> (nat \<times> nat) list \<Rightarrow> nat \<Rightarrow>
   (bool \<times> sat_graph \<times> bool \<times> (nat \<times> nat) list) result" where
  "saturate_pid i e old vc = (\<lambda>(g, new, es) p.
     if vc_at old p = vc_at vc p then Inr (False, g, new, es)
     else assert_r (vc_at old p < vc_at vc p)
      (bind_r (at_r (sg_writes_by g) p) (\<lambda>m.
       bind_r (get_process_event g p (nat (vc_at vc p))) (\<lambda>visible.
         case last_write (map_get [] m (se_addr e)) visible i of
           None \<Rightarrow> Inr (False, g, new, es)
         | Some w \<Rightarrow> bind_r (at_r (sg_events g) w) (\<lambda>we.
             assert_r (w \<noteq> i)
              (if int (iid_idx (se_iid we)) \<le> vc_at old p then Inr (False, g, new, es)
               else assert_r (int (iid_idx (se_iid we)) \<le> vc_at vc p)
                (bind_r (if se_store e then fold_r (from_read i e) (g, new) (se_readers we) else Inr (g, new)) (\<lambda>(g, new).
                   if se_load e
                   then (case se_from e of
                           None \<Rightarrow> Inr (True, g, new, es)
                         | Some rf \<Rightarrow> Inr (False, g, new, if w \<noteq> rf then es @ [(w, rf)] else es))
                   else Inr (False, g, new, es)))))))))"

fun saturate_pids ::
  "nat \<Rightarrow> sg_event \<Rightarrow> vclock \<Rightarrow> vclock \<Rightarrow> sat_graph \<times> bool \<times> (nat \<times> nat) list \<Rightarrow> nat list \<Rightarrow>
   (bool \<times> sat_graph \<times> bool \<times> (nat \<times> nat) list) result" where
  "saturate_pids i e old vc s [] = Inr (False, s)"
| "saturate_pids i e old vc s (p # ps) =
     bind_r (saturate_pid i e old vc s p) (\<lambda>(cyc, s). if cyc then Inr (True, s) else saturate_pids i e old vc s ps)"

text \<open>One event off the queue: the flag says that a cycle was found.\<close>

definition saturate_one :: "sat_graph \<Rightarrow> (bool \<times> sat_graph) result" where
  "saturate_one g =
     bind_r (wq_pop g) (\<lambda>(i, g).
     bind_r (at_r (sg_events g) i) (\<lambda>e.
     bind_r (at_r (sg_ins g) i) (\<lambda>is.
     bind_r (recompute_vc_for_event g e is) (\<lambda>vc.
     bind_r (at_r (sg_clocks g) i) (\<lambda>old.
     bind_r (is_in_cycle g (pred_list e is) vc) (\<lambda>cyc.
       if cyc then Inr (True, g)
       else if vc_eq vc old then Inr (False, g)
       else bind_r (if se_load e \<or> se_store e then saturate_pids i e old vc (g, False, []) [0..<vc_size_ub vc]
                    else Inr (False, g, False, [])) (\<lambda>(cyc, g, new, es).
         if cyc then Inr (True, g)
         else bind_r (add_successors_to_wq g i e) (\<lambda>g.
              let g = g\<lparr>sg_clocks := (sg_clocks g)[i := vc]\<rparr>; g = (if new then wq_add_first g i else g) in
              bind_r (add_edges g es) (\<lambda>g. Inr (False, g))))))))))"

primrec saturate_loop :: "nat \<Rightarrow> sat_graph \<Rightarrow> (bool \<times> sat_graph) result" where
  "saturate_loop 0 g = Inl Out_of_fuel"
| "saturate_loop (Suc n) g =
     (if wq_empty g then Inr (True, g\<lparr>sg_queued := []\<rparr>)
      else bind_r (saturate_one g) (\<lambda>(cyc, g). if cyc then Inr (False, g) else saturate_loop n g))"

section \<open>Reverse saturation\<close>

text \<open>New readers of writes that were there at the last saturation: what comes after such a write
  must come after the read. The successors are visited depth first.\<close>

definition po_successor :: "sat_graph \<Rightarrow> nat \<Rightarrow> sg_event \<Rightarrow> nat option result" where
  "po_successor g i e =
     bind_r (at_r (sg_by_pid g) (iid_pid (se_iid e))) (\<lambda>evs.
       if evs = [] then Inl Out_of_range
       else if last evs = i then Inr None
       else bind_r (at_r evs (upper_bound evs i)) (\<lambda>s. Inr (Some s)))"

definition successors :: "sat_graph \<Rightarrow> nat \<Rightarrow> sg_event \<Rightarrow> nat list result" where
  "successors g i e =
     bind_r (po_successor g i e) (\<lambda>s. bind_r (at_r (sg_outs g) i) (\<lambda>os.
       Inr ((case s of Some j \<Rightarrow> [j] | None \<Rightarrow> []) @ se_readers e @ os)))"

type_synonym care = "bool list \<times> nat list"

primrec add_to_care :: "nat \<Rightarrow> sat_graph \<Rightarrow> care \<Rightarrow> nat \<Rightarrow> care result" where
  "add_to_care 0 g c i = Inl Out_of_fuel"
| "add_to_care (Suc k) g c i =
     bind_r (at_r (fst c) i) (\<lambda>seen.
       if seen then Inr c
       else bind_r (at_r (sg_events g) i) (\<lambda>e.
            bind_r (successors g i e) (\<lambda>ss.
            bind_r (fold_r (add_to_care k g) ((fst c)[i := True], snd c) ss) (\<lambda>c. Inr (fst c, snd c @ [i])))))"

definition care_event :: "sat_graph \<Rightarrow> care \<Rightarrow> nat \<Rightarrow> care result" where
  "care_event g c i =
     bind_r (at_r (sg_events g) i) (\<lambda>e.
       case se_from e of
         Some w \<Rightarrow> if se_load e \<and> w < sg_until g then add_to_care (length (sg_events g) + 1) g c w else Inr c
       | None \<Rightarrow> Inr c)"

definition reverse_care_set :: "sat_graph \<Rightarrow> care result" where
  "reverse_care_set g =
     fold_r (care_event g) (replicate (length (sg_events g)) False, []) [sg_until g..<length (sg_events g)]"

text \<open>Behind the last event of every thread.\<close>

definition sg_top :: "sat_graph \<Rightarrow> vclock result" where
  "sg_top g =
     assert_r (list_all (\<lambda>evs. evs \<noteq> [] \<longrightarrow> last evs < length (sg_events g) \<and>
                  iid_idx (se_iid (sg_events g ! last evs)) = length evs) (sg_by_pid g))
       (Inr (map (\<lambda>evs. int (length evs) + 1) (sg_by_pid g)))"

definition below_sub :: "nat \<Rightarrow> vclock_vec \<Rightarrow> nat \<Rightarrow> vclock_vec result" where
  "below_sub i below s =
     bind_r (vv_get below i) (\<lambda>r. bind_r (vv_get below s) (\<lambda>q. bind_r (vr_sub r q) (\<lambda>r. Inr (vv_put below i r))))"

definition below_clock :: "sat_graph \<Rightarrow> vclock \<Rightarrow> vclock_vec \<Rightarrow> nat \<Rightarrow> sg_event \<Rightarrow> vclock_vec result" where
  "below_clock g tp below i e =
     bind_r (vv_get below i) (\<lambda>r.
       let r = vr_assign r tp in
       bind_r (mut_r r (iid_pid (se_iid e)) (\<lambda>_. int (iid_idx (se_iid e)))) (\<lambda>r.
       bind_r (successors g i e) (\<lambda>ss. fold_r (below_sub i) (vv_put below i r) ss)))"

text \<open>The first write, other than the event itself, from an event on.\<close>

definition first_write :: "nat list \<Rightarrow> nat \<Rightarrow> nat \<Rightarrow> nat option" where
  "first_write writes visible i =
     (let lb = lower_bound writes visible in
      if lb = length writes then None
      else if writes ! lb = i then (if lb + 1 = length writes then None else Some (writes ! (lb + 1)))
      else Some (writes ! lb))"

definition reverse_pid :: "vclock_vec \<Rightarrow> nat \<Rightarrow> sg_event \<Rightarrow> nat list \<Rightarrow> sat_graph \<Rightarrow> nat \<Rightarrow> sat_graph result" where
  "reverse_pid below i e rs g p =
     bind_r (vv_get below i) (\<lambda>vc.
     bind_r (at_r (sg_writes_by g) p) (\<lambda>m.
     bind_r (at_r vc p) (\<lambda>x.
     bind_r (maybe_get_process_event g p (nat x)) (\<lambda>visible.
       case visible of
         None \<Rightarrow> Inr g
       | Some v \<Rightarrow> (case first_write (map_get [] m (se_addr e)) v i of
           None \<Rightarrow> Inr g
         | Some w \<Rightarrow>
             assert_r (w \<noteq> i)
              (bind_r (at_r (sg_events g) w) (\<lambda>we.
               bind_r (vv_get below w) (\<lambda>wc.
               bind_r (vr_lt vc wc) (\<lambda>lt.
                 assert_r (se_store we \<and> se_addr we = se_addr e \<and> lt)
                  (add_edges g (map (\<lambda>r. (r, w)) (filter (\<lambda>r. r \<noteq> w) rs)))))))))))) "

definition reverse_one :: "vclock \<Rightarrow> vclock_vec \<times> sat_graph \<Rightarrow> nat \<Rightarrow> (vclock_vec \<times> sat_graph) result" where
  "reverse_one tp = (\<lambda>(below, g) i.
     bind_r (at_r (sg_events g) i) (\<lambda>e.
     bind_r (below_clock g tp below i e) (\<lambda>below.
       let rs = filter (\<lambda>r. r \<ge> sg_until g) (se_readers e) in
       if se_store e \<and> rs \<noteq> []
       then bind_r (fold_r (reverse_pid below i e rs) g [0..<vv_clock_size below]) (\<lambda>g. Inr (below, g))
       else Inr (below, g))))"

definition reverse_saturate :: "sat_graph \<Rightarrow> sat_graph result" where
  "reverse_saturate g =
     bind_r (if sg_until g \<noteq> 0 \<and> sg_until g \<noteq> length (sg_events g)
             then bind_r (reverse_care_set g) (\<lambda>(_, care).
                    if care = [] then Inr g
                    else bind_r (sg_top g) (\<lambda>tp.
                         bind_r (fold_r (reverse_one tp) (vv_make (length (sg_by_pid g)) (length (sg_events g)), g) care) (\<lambda>(_, g). Inr g)))
             else Inr g) (\<lambda>g. Inr (g\<lparr>sg_until := length (sg_events g)\<rparr>))"

section \<open>The whole\<close>

definition check_event :: "sat_graph \<Rightarrow> nat \<Rightarrow> bool" where
  "check_event g i =
     (let e = sg_events g ! i; n = length (sg_events g) in
      list_all (\<lambda>j. j < length (sg_outs g) \<and> i \<in> set (sg_outs g ! j)) (sg_ins g ! i) \<and>
      (case se_from e of None \<Rightarrow> True | Some w \<Rightarrow>
         w < n \<and> se_store (sg_events g ! w) \<and> se_addr (sg_events g ! w) = se_addr e \<and> i \<in> set (se_readers (sg_events g ! w))) \<and>
      (case se_po e of None \<Rightarrow> True | Some j \<Rightarrow> j < length (sg_outs g) \<and> i \<in> set (sg_outs g ! j)) \<and>
      list_all (\<lambda>j. j < n \<and> (i \<in> set (sg_ins g ! j) \<or> se_po (sg_events g ! j) = Some i)) (sg_outs g ! i) \<and>
      (se_store e \<longrightarrow> list_all (\<lambda>r. r < n \<and> se_load (sg_events g ! r) \<and> se_from (sg_events g ! r) = Some i) (se_readers e)))"

definition check_graph_consistency :: "sat_graph \<Rightarrow> bool" where
  "check_graph_consistency g = list_all (check_event g) [0..<length (sg_events g)]"

text \<open>The bound of the loop: every event can grow its clock as often as there are events, and each time
  queues at most all events.\<close>

definition saturate_fuel :: "sat_graph \<Rightarrow> nat" where
  "saturate_fuel g = (let n = length (sg_events g) in (n * n + 1) * (n + 1) + 1)"

definition saturate :: "sat_graph \<Rightarrow> (bool \<times> sat_graph) result" where
  "saturate g =
     assert_r (check_graph_consistency g)
      (bind_r (reverse_saturate g) (\<lambda>g.
       bind_r (saturate_loop (saturate_fuel g) g) (\<lambda>(ok, g). assert_r (check_graph_consistency g) (Inr (ok, g)))))"

definition is_saturated :: "sat_graph \<Rightarrow> bool" where
  "is_saturated g = wq_empty g"

definition has_event :: "sat_graph \<Rightarrow> ext_id \<Rightarrow> bool" where
  "has_event g e = (map_of (sg_ids g) e \<noteq> None)"

definition event_is_store :: "sat_graph \<Rightarrow> ext_id \<Rightarrow> bool result" where
  "event_is_store g x = bind_r (sg_id g x) (\<lambda>i. bind_r (at_r (sg_events g) i) (\<lambda>e. Inr (se_store e)))"

definition event_addr :: "sat_graph \<Rightarrow> ext_id \<Rightarrow> sym_addr result" where
  "event_addr g x = bind_r (sg_id g x) (\<lambda>i. bind_r (at_r (sg_events g) i) (\<lambda>e. assert_r (se_load e \<or> se_store e) (Inr (se_addr e))))"

definition event_vc :: "sat_graph \<Rightarrow> ext_id \<Rightarrow> vclock result" where
  "event_vc g x = assert_r (is_saturated g) (bind_r (sg_id g x) (\<lambda>i. at_r (sg_clocks g) i))"

definition event_ids :: "sat_graph \<Rightarrow> ext_id list" where
  "event_ids g = map se_ext (sg_events g)"

definition event_in :: "sat_graph \<Rightarrow> ext_id \<Rightarrow> ext_id list result" where
  "event_in g x =
     bind_r (sg_id g x) (\<lambda>i. bind_r (at_r (sg_events g) i) (\<lambda>e. bind_r (at_r (sg_ins g) i) (\<lambda>is.
       fold_r (\<lambda>r j. bind_r (at_r (sg_events g) j) (\<lambda>e. Inr (r @ [se_ext e]))) []
         (is @ (case se_po e of Some j \<Rightarrow> [j] | None \<Rightarrow> []) @ (case se_from e of Some j \<Rightarrow> [j] | None \<Rightarrow> [])))))"

definition sg_size :: "sat_graph \<Rightarrow> nat" where
  "sg_size g = length (sg_events g)"

definition sg_clone :: "sat_graph \<Rightarrow> sat_graph result" where
  "sg_clone g = assert_r (wq_empty g) (Inr g)"

end
