(* ===== verification/SatInv.thy ===== *)
theory SatInv
  imports Prelude SatGraph
begin

text \<open>
  What a saturated graph means: its edges, the executions it allows, and the invariant its operations
  keep.
\<close>

section \<open>Edges and executions\<close>

abbreviation sg_n :: "sat_graph \<Rightarrow> nat" where
  "sg_n g \<equiv> length (sg_events g)"

abbreviation sg_ev :: "sat_graph \<Rightarrow> nat \<Rightarrow> sg_event" where
  "sg_ev g i \<equiv> sg_events g ! i"

abbreviation ev_pid_of :: "sat_graph \<Rightarrow> nat \<Rightarrow> nat" where
  "ev_pid_of g i \<equiv> iid_pid (se_iid (sg_ev g i))"

abbreviation ev_idx_of :: "sat_graph \<Rightarrow> nat \<Rightarrow> nat" where
  "ev_idx_of g i \<equiv> iid_idx (se_iid (sg_ev g i))"

definition sg_preds :: "sat_graph \<Rightarrow> nat \<Rightarrow> nat list" where
  "sg_preds g i = pred_list (sg_ev g i) (sg_ins g ! i)"

definition sg_edge :: "sat_graph \<Rightarrow> (nat \<times> nat) set" where
  "sg_edge g = {(j, i). i < sg_n g \<and> j \<in> set (sg_preds g i)}"

definition same_cell :: "sat_graph \<Rightarrow> nat \<Rightarrow> nat \<Rightarrow> bool" where
  "same_cell g i j = (se_addr (sg_ev g i) = se_addr (sg_ev g j))"

text \<open>The stores to the address of an event, other than the event itself.\<close>

definition rivals :: "sat_graph \<Rightarrow> nat \<Rightarrow> nat set" where
  "rivals g i = {w. w < sg_n g \<and> w \<noteq> i \<and> se_store (sg_ev g w) \<and> same_cell g w i}"

text \<open>An execution is an order of all events, given by their places in it: it respects the edges, and
  every load reads the last store to its address, or the initial value when there is none.\<close>

definition reads_ok :: "sat_graph \<Rightarrow> (nat \<Rightarrow> nat) \<Rightarrow> bool" where
  "reads_ok g pos = (\<forall>i < sg_n g. se_load (sg_ev g i) \<longrightarrow>
     (case se_from (sg_ev g i) of
        None \<Rightarrow> (\<forall>w\<in>rivals g i. pos i < pos w)
      | Some s \<Rightarrow> pos s < pos i \<and> (\<forall>w\<in>rivals g i. pos w < pos i \<longrightarrow> pos w \<le> pos s)))"

definition sg_exec :: "sat_graph \<Rightarrow> (nat \<Rightarrow> nat) \<Rightarrow> bool" where
  "sg_exec g pos = (inj_on pos {..<sg_n g} \<and> (\<forall>(i, j)\<in>sg_edge g. pos i < pos j) \<and> reads_ok g pos)"

lemma exec_edge: "sg_exec g pos \<Longrightarrow> (i, j) \<in> sg_edge g \<Longrightarrow> pos i < pos j"
  by (auto simp: sg_exec_def)

lemma exec_path: "sg_exec g pos \<Longrightarrow> (i, j) \<in> (sg_edge g)\<^sup>* \<Longrightarrow> pos i \<le> pos j"
  by (erule rtrancl_induct) (auto dest: exec_edge)

lemma exec_path_less: "sg_exec g pos \<Longrightarrow> (i, j) \<in> (sg_edge g)\<^sup>* \<Longrightarrow> i \<noteq> j \<Longrightarrow> pos i < pos j"
  by (meson exec_edge exec_path order_le_less_trans rtranclE)

text \<open>A cycle allows no execution.\<close>

lemma cycle_no_exec: "(i, j) \<in> (sg_edge g)\<^sup>* \<Longrightarrow> (j, i) \<in> sg_edge g \<Longrightarrow> \<not> sg_exec g pos"
  by (meson exec_edge exec_path not_less)

section \<open>Well-formed graphs\<close>

definition sg_lengths :: "sat_graph \<Rightarrow> bool" where
  "sg_lengths g =
     (length (sg_ins g) = sg_n g \<and> length (sg_outs g) = sg_n g \<and> length (sg_clocks g) = sg_n g \<and>
      length (sg_writes_by g) = length (sg_by_pid g) \<and> sg_until g \<le> sg_n g)"

text \<open>The events of a thread, in the order they were added, have the indices 1, 2, ...\<close>

definition sg_threads :: "sat_graph \<Rightarrow> bool" where
  "sg_threads g =
     ((\<forall>p<length (sg_by_pid g). sorted_wrt (<) (sg_by_pid g ! p) \<and>
        (\<forall>k<length (sg_by_pid g ! p). sg_by_pid g ! p ! k < sg_n g \<and> se_iid (sg_ev g (sg_by_pid g ! p ! k)) = IID p (k + 1))) \<and>
      (\<forall>i < sg_n g. ev_pid_of g i < length (sg_by_pid g) \<and> 0 < ev_idx_of g i \<and>
        ev_idx_of g i \<le> length (sg_by_pid g ! ev_pid_of g i) \<and> sg_by_pid g ! ev_pid_of g i ! (ev_idx_of g i - 1) = i \<and>
        se_po (sg_ev g i) = (if ev_idx_of g i = 1 then None else Some (sg_by_pid g ! ev_pid_of g i ! (ev_idx_of g i - 2)))))"

definition sg_froms :: "sat_graph \<Rightarrow> bool" where
  "sg_froms g = (\<forall>i < sg_n g.
     (\<forall>w. se_from (sg_ev g i) = Some w \<longrightarrow> w < i \<and> se_load (sg_ev g i) \<and> se_store (sg_ev g w) \<and> same_cell g w i) \<and>
     set (se_readers (sg_ev g i)) = {r. r < sg_n g \<and> se_from (sg_ev g r) = Some i})"

definition sg_edges_ok :: "sat_graph \<Rightarrow> bool" where
  "sg_edges_ok g = (\<forall>i < sg_n g. set (sg_ins g ! i) \<subseteq> {..<sg_n g} \<and>
     set (sg_outs g ! i) = {j. j < sg_n g \<and> (i \<in> set (sg_ins g ! j) \<or> se_po (sg_ev g j) = Some i)})"

definition sg_writes_ok :: "sat_graph \<Rightarrow> bool" where
  "sg_writes_ok g = (\<forall>p<length (sg_by_pid g). \<forall>a.
     map_get [] (sg_writes_by g ! p) a = filter (\<lambda>i. se_store (sg_ev g i) \<and> se_addr (sg_ev g i) = a) (sg_by_pid g ! p))"

definition sg_queue_ok :: "sat_graph \<Rightarrow> bool" where
  "sg_queue_ok g = (distinct (sg_queue g) \<and> (\<forall>i. i \<in> set (sg_queue g) \<longleftrightarrow> sg_is_queued g i) \<and> set (sg_queue g) \<subseteq> {..<sg_n g})"

definition sg_wf :: "sat_graph \<Rightarrow> bool" where
  "sg_wf g = (sg_lengths g \<and> sg_threads g \<and> sg_froms g \<and> sg_edges_ok g \<and> sg_writes_ok g \<and> sg_queue_ok g)"

lemma sg_wfD:
  assumes "sg_wf g"
  shows "sg_lengths g" "sg_threads g" "sg_froms g" "sg_edges_ok g" "sg_writes_ok g" "sg_queue_ok g"
  using assms by (simp_all add: sg_wf_def)

lemma wf_lengths:
  assumes "sg_wf g"
  shows "length (sg_ins g) = sg_n g" "length (sg_outs g) = sg_n g" "length (sg_clocks g) = sg_n g"
    "length (sg_writes_by g) = length (sg_by_pid g)" "sg_until g \<le> sg_n g"
  using sg_wfD(1) [OF assms] by (simp_all add: sg_lengths_def)

lemma wf_event:
  assumes "sg_wf g" "i < sg_n g"
  shows "ev_pid_of g i < length (sg_by_pid g)" "0 < ev_idx_of g i" "ev_idx_of g i \<le> length (sg_by_pid g ! ev_pid_of g i)"
    "sg_by_pid g ! ev_pid_of g i ! (ev_idx_of g i - 1) = i"
    "se_po (sg_ev g i) = (if ev_idx_of g i = 1 then None else Some (sg_by_pid g ! ev_pid_of g i ! (ev_idx_of g i - 2)))"
  using sg_wfD(2) [OF assms(1)] assms(2) by (simp_all add: sg_threads_def)

lemma wf_thread:
  assumes "sg_wf g" "p < length (sg_by_pid g)" "k < length (sg_by_pid g ! p)"
  shows "sg_by_pid g ! p ! k < sg_n g" "se_iid (sg_ev g (sg_by_pid g ! p ! k)) = IID p (k + 1)"
  using sg_wfD(2) [OF assms(1)] assms(2,3) by (simp_all add: sg_threads_def)

lemma wf_thread_sorted: "sg_wf g \<Longrightarrow> p < length (sg_by_pid g) \<Longrightarrow> sorted_wrt (<) (sg_by_pid g ! p)"
  using sg_wfD(2) by (simp add: sg_threads_def)

lemma wf_from:
  assumes "sg_wf g" "i < sg_n g" "se_from (sg_ev g i) = Some w"
  shows "w < i" "w < sg_n g" "se_load (sg_ev g i)" "se_store (sg_ev g w)" "same_cell g w i" "i \<in> set (se_readers (sg_ev g w))"
proof -
  show w: "w < i" "se_load (sg_ev g i)" "se_store (sg_ev g w)" "same_cell g w i"
    using sg_wfD(3) [OF assms(1)] assms(2,3) by (simp_all add: sg_froms_def)
  thus "w < sg_n g" using assms(2) by simp
  thus "i \<in> set (se_readers (sg_ev g w))" using sg_wfD(3) [OF assms(1)] assms(2,3) by (simp add: sg_froms_def)
qed

lemma wf_reader:
  assumes "sg_wf g" "w < sg_n g" "r \<in> set (se_readers (sg_ev g w))"
  shows "r < sg_n g" "se_from (sg_ev g r) = Some w" "se_load (sg_ev g r)" "se_store (sg_ev g w)" "same_cell g w r" "w \<noteq> r"
proof -
  show r: "r < sg_n g" "se_from (sg_ev g r) = Some w" using sg_wfD(3) [OF assms(1)] assms(2,3) by (auto simp: sg_froms_def)
  thus "se_load (sg_ev g r)" "se_store (sg_ev g w)" "same_cell g w r" "w \<noteq> r" using wf_from [OF assms(1) r] by auto
qed

lemma set_sg_preds:
  "j \<in> set (sg_preds g i) \<longleftrightarrow> se_po (sg_ev g i) = Some j \<or> se_from (sg_ev g i) = Some j \<or> j \<in> set (sg_ins g ! i)"
  by (auto simp: sg_preds_def pred_list_def split: option.splits)

lemma wf_po:
  assumes "sg_wf g" "i < sg_n g" "se_po (sg_ev g i) = Some j"
  shows "j < i" "ev_pid_of g j = ev_pid_of g i" "ev_idx_of g j + 1 = ev_idx_of g i"
proof -
  let ?p = "ev_pid_of g i" and ?k = "ev_idx_of g i"
  have k: "?k \<noteq> 1" "j = sg_by_pid g ! ?p ! (?k - 2)" using wf_event(5) [OF assms(1,2)] assms(3) by (auto split: if_splits)
  have l: "?k - 2 < ?k - 1" "?k - 1 < length (sg_by_pid g ! ?p)" using k(1) wf_event(2,3) [OF assms(1,2)] by linarith+
  have "j < sg_by_pid g ! ?p ! (?k - 1)"
    using sorted_wrt_less_nth_mono [OF wf_thread_sorted [OF assms(1) wf_event(1) [OF assms(1,2)]] l] k(2) by simp
  thus "j < i" using wf_event(4) [OF assms(1,2)] by simp
  have "se_iid (sg_ev g j) = IID ?p (?k - 2 + 1)"
    using wf_thread(2) [OF assms(1) wf_event(1) [OF assms(1,2)], of "?k - 2"] l k(2) by simp
  thus "ev_pid_of g j = ?p" "ev_idx_of g j + 1 = ?k" using k(1) wf_event(2) [OF assms(1,2)] by simp_all
qed

lemma wf_pred:
  assumes "sg_wf g" "(j, i) \<in> sg_edge g"
  shows "j < sg_n g" "i < sg_n g"
proof -
  show i: "i < sg_n g" using assms(2) by (simp add: sg_edge_def)
  have "j \<in> set (sg_preds g i)" using assms(2) by (simp add: sg_edge_def)
  thus "j < sg_n g"
    using wf_po(1) [OF assms(1) i] wf_from(2) [OF assms(1) i] sg_wfD(4) [OF assms(1)] i
    by (auto simp: set_sg_preds sg_edges_ok_def dest: less_trans)
qed

text \<open>The successors of an event: those it has an edge to.\<close>

lemma wf_succ:
  assumes "sg_wf g" "i < sg_n g"
  shows "(i, j) \<in> sg_edge g \<longleftrightarrow> j \<in> set (se_readers (sg_ev g i)) \<or> j \<in> set (sg_outs g ! i)"
  using sg_wfD(3,4) [OF assms(1)] assms(2)
  by (auto simp: sg_edge_def set_sg_preds sg_froms_def sg_edges_ok_def)

text \<open>Events of one thread are ordered by the edges.\<close>

lemma wf_thread_path:
  assumes "sg_wf g" "p < length (sg_by_pid g)" "k \<le> l" "l < length (sg_by_pid g ! p)"
  shows "(sg_by_pid g ! p ! k, sg_by_pid g ! p ! l) \<in> (sg_edge g)\<^sup>*"
  using assms(3,4)
proof (induction l)
  case (Suc l)
  show ?case
  proof (cases "k = Suc l")
    case False
    hence "(sg_by_pid g ! p ! k, sg_by_pid g ! p ! l) \<in> (sg_edge g)\<^sup>*" using Suc by simp
    moreover have "se_po (sg_ev g (sg_by_pid g ! p ! Suc l)) = Some (sg_by_pid g ! p ! l)"
      using wf_event(5) [OF assms(1) wf_thread(1) [OF assms(1,2) Suc.prems(2)]] wf_thread(2) [OF assms(1,2) Suc.prems(2)] by simp
    hence "(sg_by_pid g ! p ! l, sg_by_pid g ! p ! Suc l) \<in> sg_edge g"
      using wf_thread(1) [OF assms(1,2) Suc.prems(2)] by (simp add: sg_edge_def set_sg_preds)
    ultimately show ?thesis by simp
  qed simp
qed simp

lemma wf_same_thread_path:
  assumes "sg_wf g" "i < sg_n g" "j < sg_n g" "ev_pid_of g i = ev_pid_of g j" "ev_idx_of g i \<le> ev_idx_of g j"
  shows "(i, j) \<in> (sg_edge g)\<^sup>*"
proof -
  have "ev_idx_of g i - 1 \<le> ev_idx_of g j - 1" "ev_idx_of g j - 1 < length (sg_by_pid g ! ev_pid_of g j)"
    using assms(5) wf_event(2,3) [OF assms(1,3)] by linarith+
  thus ?thesis using wf_thread_path [OF assms(1) wf_event(1) [OF assms(1,3)]] wf_event(4) [OF assms(1,2)] wf_event(4) [OF assms(1,3)] assms(4)
    by metis
qed

section \<open>Sound clocks\<close>

abbreviation clock_at :: "sat_graph \<Rightarrow> nat \<Rightarrow> nat \<Rightarrow> int" where
  "clock_at g i p \<equiv> vc_at (sg_clocks g ! i) p"

text \<open>What a clock counts comes before the event.\<close>

definition vc_sound :: "sat_graph \<Rightarrow> nat \<Rightarrow> vclock \<Rightarrow> bool" where
  "vc_sound g i v = (length v \<le> length (sg_by_pid g) \<and> vc_ok v \<and>
     (\<forall>p k. 0 < k \<longrightarrow> int k \<le> vc_at v p \<longrightarrow> p < length (sg_by_pid g) \<and> k \<le> length (sg_by_pid g ! p) \<and>
        (sg_by_pid g ! p ! (k - 1), i) \<in> (sg_edge g)\<^sup>*))"

definition sg_sound :: "sat_graph \<Rightarrow> bool" where
  "sg_sound g = (\<forall>i < sg_n g. vc_sound g i (sg_clocks g ! i))"

text \<open>A clock counts no more than its event and those directly before it do.\<close>

definition sg_under :: "sat_graph \<Rightarrow> bool" where
  "sg_under g = (\<forall>i < sg_n g. \<forall>p. clock_at g i p \<le> vc_at (initial_vc (sg_ev g i)) p \<or>
     (\<exists>j. (j, i) \<in> sg_edge g \<and> clock_at g i p \<le> clock_at g j p))"

text \<open>Events that are not queued are up to date: they count themselves and what the events directly
  before them count, and more than each of those.\<close>

definition settled :: "sat_graph \<Rightarrow> nat \<Rightarrow> bool" where
  "settled g i = (int (ev_idx_of g i) \<le> clock_at g i (ev_pid_of g i) \<and>
     (\<forall>j. (j, i) \<in> sg_edge g \<longrightarrow> (\<forall>p. clock_at g j p \<le> clock_at g i p) \<and> vc_at (sg_clocks g ! j) \<noteq> vc_at (sg_clocks g ! i)))"

definition sg_settled :: "sat_graph \<Rightarrow> bool" where
  "sg_settled g = (\<forall>i < sg_n g. i \<notin> set (sg_queue g) \<longrightarrow> settled g i)"

lemma vc_at_initial [simp]:
  "vc_at (initial_vc e) p = (if p = iid_pid (se_iid e) then int (iid_idx (se_iid e)) else 0)"
  by (simp add: initial_vc_def)

lemma sound_event:
  assumes "sg_wf g" "vc_sound g i v" "w < sg_n g" "int (ev_idx_of g w) \<le> vc_at v (ev_pid_of g w)"
  shows "(w, i) \<in> (sg_edge g)\<^sup>*"
proof -
  have "(sg_by_pid g ! ev_pid_of g w ! (ev_idx_of g w - 1), i) \<in> (sg_edge g)\<^sup>*"
    using assms(2,4) wf_event(2) [OF assms(1,3)] by (simp add: vc_sound_def)
  thus ?thesis using wf_event(4) [OF assms(1,3)] by simp
qed

section \<open>Closure\<close>

text \<open>The write counted in the clock of another access.\<close>

definition seen_by :: "sat_graph \<Rightarrow> nat \<Rightarrow> nat \<Rightarrow> bool" where
  "seen_by g w i = (w \<in> rivals g i \<and> int (ev_idx_of g w) \<le> clock_at g i (ev_pid_of g w))"

text \<open>Writes a load has seen come before the one it reads; a load of the initial value has seen none.\<close>

definition sg_coherent :: "sat_graph \<Rightarrow> bool" where
  "sg_coherent g = (\<forall>i < sg_n g. se_load (sg_ev g i) \<longrightarrow> (\<forall>w. seen_by g w i \<longrightarrow>
     (\<exists>s. se_from (sg_ev g i) = Some s \<and> (w, s) \<in> (sg_edge g)\<^sup>*)))"

text \<open>Readers of a write that a store has seen come before the store: \<open>R\<close> are the readers concerned.\<close>

definition sg_from_read :: "nat set \<Rightarrow> sat_graph \<Rightarrow> bool" where
  "sg_from_read R g = (\<forall>i < sg_n g. se_store (sg_ev g i) \<longrightarrow> (\<forall>w. seen_by g w i \<longrightarrow>
     (\<forall>r\<in>set (se_readers (sg_ev g w)) \<inter> R. (r, i) \<in> (sg_edge g)\<^sup>*)))"

text \<open>In the course of saturation: those of a later write of the same thread.\<close>

definition sg_from_read_later :: "sat_graph \<Rightarrow> bool" where
  "sg_from_read_later g = (\<forall>i < sg_n g. se_store (sg_ev g i) \<longrightarrow> (\<forall>w. seen_by g w i \<longrightarrow>
     (\<exists>w'. seen_by g w' i \<and> ev_pid_of g w' = ev_pid_of g w \<and> ev_idx_of g w \<le> ev_idx_of g w' \<and>
        (\<forall>r\<in>set (se_readers (sg_ev g w')). (r, i) \<in> (sg_edge g)\<^sup>*))))"

end
