(* ===== verification/SatStep.thy ===== *)
theory SatStep
  imports Prelude SatInv
begin

text \<open>
  One step of saturation: an event is taken off the queue, its clock recomputed and the edges that
  follow are added. The step is described by the links it adds.
\<close>

section \<open>The queue\<close>

lemma wq_add_fields [simp]:
  "sg_ids (wq_add g i) = sg_ids g" "sg_events (wq_add g i) = sg_events g" "sg_ins (wq_add g i) = sg_ins g"
  "sg_outs (wq_add g i) = sg_outs g" "sg_writes_at (wq_add g i) = sg_writes_at g"
  "sg_init_reads (wq_add g i) = sg_init_reads g" "sg_by_pid (wq_add g i) = sg_by_pid g"
  "sg_clocks (wq_add g i) = sg_clocks g" "sg_writes_by (wq_add g i) = sg_writes_by g" "sg_until (wq_add g i) = sg_until g"
  by (simp_all add: wq_add_def)

lemma wq_add_first_fields [simp]:
  "sg_ids (wq_add_first g i) = sg_ids g" "sg_events (wq_add_first g i) = sg_events g" "sg_ins (wq_add_first g i) = sg_ins g"
  "sg_outs (wq_add_first g i) = sg_outs g" "sg_writes_at (wq_add_first g i) = sg_writes_at g"
  "sg_init_reads (wq_add_first g i) = sg_init_reads g" "sg_by_pid (wq_add_first g i) = sg_by_pid g"
  "sg_clocks (wq_add_first g i) = sg_clocks g" "sg_writes_by (wq_add_first g i) = sg_writes_by g"
  "sg_until (wq_add_first g i) = sg_until g"
  by (simp_all add: wq_add_first_def)

lemma enlarge_set:
  "j < length ((enlarge False (i + 1) v)[i := True]) \<and> (enlarge False (i + 1) v)[i := True] ! j \<longleftrightarrow> j = i \<or> (j < length v \<and> v ! j)"
  by (auto simp: enlarge_def nth_list_update nth_append)

lemma queued_wq_add: "sg_is_queued (wq_add g i) j \<longleftrightarrow> j = i \<or> sg_is_queued g j"
  using enlarge_set [of j i "sg_queued g"] by (auto simp: wq_add_def sg_is_queued_def)

lemma queued_wq_add_first: "sg_is_queued (wq_add_first g i) j \<longleftrightarrow> j = i \<or> sg_is_queued g j"
  using enlarge_set [of j i "sg_queued g"] by (auto simp: wq_add_first_def sg_is_queued_def)

lemma queue_wq_add:
  assumes "sg_queue_ok g" "i < sg_n g"
  shows "sg_queue_ok (wq_add g i)" "set (sg_queue (wq_add g i)) = insert i (set (sg_queue g))"
proof -
  show s: "set (sg_queue (wq_add g i)) = insert i (set (sg_queue g))"
    using assms(1) by (auto simp: wq_add_def sg_queue_ok_def)
  have "distinct (sg_queue (wq_add g i))" using assms(1) by (auto simp: wq_add_def sg_queue_ok_def)
  thus "sg_queue_ok (wq_add g i)" using assms s by (simp add: sg_queue_ok_def queued_wq_add)
qed

lemma queue_wq_add_first:
  assumes "sg_queue_ok g" "i < sg_n g"
  shows "sg_queue_ok (wq_add_first g i)" "set (sg_queue (wq_add_first g i)) = insert i (set (sg_queue g))"
proof -
  show s: "set (sg_queue (wq_add_first g i)) = insert i (set (sg_queue g))"
    using assms(1) by (auto simp: wq_add_first_def sg_queue_ok_def)
  have "distinct (sg_queue (wq_add_first g i))" using assms(1) by (auto simp: wq_add_first_def sg_queue_ok_def)
  thus "sg_queue_ok (wq_add_first g i)" using assms s by (simp add: sg_queue_ok_def queued_wq_add_first)
qed

section \<open>Extensions of a graph\<close>

text \<open>Same events, more edges.\<close>

definition sg_same :: "sat_graph \<Rightarrow> sat_graph \<Rightarrow> bool" where
  "sg_same g g' = (sg_ids g' = sg_ids g \<and> sg_events g' = sg_events g \<and> sg_by_pid g' = sg_by_pid g \<and>
     sg_writes_by g' = sg_writes_by g \<and> sg_writes_at g' = sg_writes_at g \<and> sg_init_reads g' = sg_init_reads g \<and>
     sg_until g' = sg_until g)"

lemma sg_same_refl [simp]: "sg_same g g"
  by (simp add: sg_same_def)

lemma sg_same_trans: "sg_same g g' \<Longrightarrow> sg_same g' g'' \<Longrightarrow> sg_same g g''"
  by (simp add: sg_same_def)

lemma sg_sameD:
  assumes "sg_same g g'"
  shows "sg_events g' = sg_events g" "sg_by_pid g' = sg_by_pid g" "sg_writes_by g' = sg_writes_by g" "sg_until g' = sg_until g"
    "sg_writes_at g' = sg_writes_at g" "sg_init_reads g' = sg_init_reads g" "sg_ids g' = sg_ids g"
  using assms by (simp_all add: sg_same_def)

lemma same_rivals: "sg_events g' = sg_events g \<Longrightarrow> rivals g' i = rivals g i"
  by (simp add: rivals_def same_cell_def)

lemma same_reads_ok:
  assumes "sg_events g' = sg_events g"
  shows "reads_ok g' pos = reads_ok g pos"
  unfolding reads_ok_def same_rivals [OF assms] assms by (rule refl)

lemma exec_more_edges:
  assumes "sg_events g' = sg_events g" "sg_edge g' = sg_edge g \<union> E" "\<forall>(i, j)\<in>E. pos i < pos j"
  shows "sg_exec g' pos = sg_exec g pos"
  unfolding sg_exec_def assms(1,2) same_reads_ok [OF assms(1)] using assms(3) by blast

lemma exec_fewer_edges:
  assumes "sg_events g' = sg_events g" "sg_edge g \<subseteq> sg_edge g'" "sg_exec g' pos"
  shows "sg_exec g pos"
  using assms(2,3) unfolding sg_exec_def assms(1) same_reads_ok [OF assms(1)] by blast

lemma exec_same: "sg_events g' = sg_events g \<Longrightarrow> sg_edge g' = sg_edge g \<Longrightarrow> sg_exec g' pos = sg_exec g pos"
  using exec_more_edges [of g' g "{}" pos] by simp

text \<open>One more edge, recorded at both ends.\<close>

definition sg_link :: "nat \<Rightarrow> nat \<Rightarrow> sat_graph \<Rightarrow> sat_graph" where
  "sg_link i r g = g\<lparr>sg_ins := (sg_ins g)[i := sg_ins g ! i @ [r]], sg_outs := (sg_outs g)[r := sg_outs g ! r @ [i]]\<rparr>"

lemma sg_link_fields [simp]:
  "sg_events (sg_link i r g) = sg_events g" "sg_by_pid (sg_link i r g) = sg_by_pid g"
  "sg_clocks (sg_link i r g) = sg_clocks g" "sg_writes_by (sg_link i r g) = sg_writes_by g"
  "sg_until (sg_link i r g) = sg_until g" "sg_queue (sg_link i r g) = sg_queue g" "sg_queued (sg_link i r g) = sg_queued g"
  "sg_is_queued (sg_link i r g) = sg_is_queued g" "sg_same g (sg_link i r g)"
  "length (sg_ins (sg_link i r g)) = length (sg_ins g)" "length (sg_outs (sg_link i r g)) = length (sg_outs g)"
  by (simp_all add: sg_link_def sg_is_queued_def [abs_def] sg_same_def)

lemma edge_link:
  assumes "i < sg_n g" "length (sg_ins g) = sg_n g"
  shows "sg_edge (sg_link i r g) = insert (r, i) (sg_edge g)"
  using assms by (auto simp: sg_edge_def sg_preds_def pred_list_def sg_link_def nth_list_update split: if_splits)

lemma edges_ok_link:
  assumes "sg_edges_ok g" "sg_lengths g" "i < sg_n g" "r < sg_n g"
  shows "sg_edges_ok (sg_link i r g)"
  unfolding sg_edges_ok_def
proof (intro allI impI conjI)
  fix j assume j: "j < sg_n (sg_link i r g)"
  hence o: "set (sg_ins g ! j) \<subseteq> {..<sg_n g}"
    "set (sg_outs g ! j) = {k. k < sg_n g \<and> (j \<in> set (sg_ins g ! k) \<or> se_po (sg_ev g k) = Some j)}"
    using assms(1) by (simp_all add: sg_edges_ok_def)
  have l: "length (sg_ins g) = sg_n g" "length (sg_outs g) = sg_n g" using assms(2) by (simp_all add: sg_lengths_def)
  show "set (sg_ins (sg_link i r g) ! j) \<subseteq> {..< sg_n (sg_link i r g)}"
    using o(1) assms(3,4) j l by (auto simp: sg_link_def nth_list_update)
  show "set (sg_outs (sg_link i r g) ! j) =
      {k. k < sg_n (sg_link i r g) \<and> (j \<in> set (sg_ins (sg_link i r g) ! k) \<or> se_po (sg_ev (sg_link i r g) k) = Some j)}"
    using o(2) assms(3,4) j l by (auto simp: sg_link_def nth_list_update)
qed

lemma wf_link:
  assumes "sg_wf g" "i < sg_n g" "r < sg_n g"
  shows "sg_wf (sg_link i r g)"
  using sg_wfD [OF assms(1)] edges_ok_link [OF _ _ assms(2,3)]
  by (simp add: sg_wf_def sg_lengths_def sg_threads_def sg_froms_def same_cell_def sg_writes_ok_def sg_queue_ok_def)

lemma wf_wq_add:
  assumes "sg_wf g" "i < sg_n g"
  shows "sg_wf (wq_add g i)" "sg_wf (wq_add_first g i)"
  using sg_wfD [OF assms(1)] queue_wq_add(1) [OF _ assms(2)] queue_wq_add_first(1) [OF _ assms(2)]
  by (simp_all add: sg_wf_def sg_lengths_def sg_threads_def sg_froms_def same_cell_def sg_writes_ok_def sg_edges_ok_def)

lemma wf_clocks:
  "sg_wf g \<Longrightarrow> sg_wf (g\<lparr>sg_clocks := (sg_clocks g)[i := v]\<rparr>)"
  by (simp add: sg_wf_def sg_lengths_def sg_threads_def sg_froms_def same_cell_def sg_writes_ok_def sg_edges_ok_def
      sg_queue_ok_def sg_is_queued_def)

lemma edge_wq_add [simp]: "sg_edge (wq_add g i) = sg_edge g" "sg_edge (wq_add_first g i) = sg_edge g"
  by (simp_all add: sg_edge_def sg_preds_def)

lemma edge_clocks [simp]: "sg_edge (g\<lparr>sg_clocks := v\<rparr>) = sg_edge g"
  by (simp add: sg_edge_def sg_preds_def)

lemma push_link:
  assumes "sg_lengths g" "i < sg_n g" "r < sg_n g"
  shows "bind_r (push_in g i r) (\<lambda>g. push_out g r i) = Inr (sg_link i r g)"
    "bind_r (push_out g r i) (\<lambda>g. push_in g i r) = Inr (sg_link i r g)"
  using assms by (simp_all add: push_in_def push_out_def sg_lengths_def sg_link_def)

text \<open>Several edges to one event.\<close>

definition sg_links :: "nat \<Rightarrow> nat list \<Rightarrow> sat_graph \<Rightarrow> sat_graph" where
  "sg_links i rs g = fold (sg_link i) rs g"

lemma sg_links_simps [simp]:
  "sg_links i [] g = g" "sg_links i (r # rs) g = sg_links i rs (sg_link i r g)" "sg_links i (rs @ rs') g = sg_links i rs' (sg_links i rs g)"
  by (simp_all add: sg_links_def)

lemma sg_links_fields [simp]:
  "sg_events (sg_links i rs g) = sg_events g" "sg_by_pid (sg_links i rs g) = sg_by_pid g"
  "sg_clocks (sg_links i rs g) = sg_clocks g" "sg_writes_by (sg_links i rs g) = sg_writes_by g"
  "sg_until (sg_links i rs g) = sg_until g" "sg_queue (sg_links i rs g) = sg_queue g" "sg_same g (sg_links i rs g)"
  by (induction rs arbitrary: g) (simp_all, meson sg_link_fields(9) sg_same_trans)

lemma wf_links:
  assumes "sg_wf g" "i < sg_n g" "set rs \<subseteq> {..<sg_n g}"
  shows "sg_wf (sg_links i rs g)" "sg_edge (sg_links i rs g) = sg_edge g \<union> (\<lambda>r. (r, i)) ` set rs"
  using assms
proof (induction rs arbitrary: g)
  case (Cons r rs)
  {
    case 1
    thus ?case using Cons.IH(1) [of "sg_link i r g"] wf_link [of g i r] by simp
  next
    case 2
    thus ?case using Cons.IH(2) [of "sg_link i r g"] wf_link [of g i r] edge_link [of i g r] wf_lengths(1) [of g] by simp
  }
qed simp_all

section \<open>Clocks\<close>

lemma length_initial: "length (initial_vc e) = iid_pid (se_iid e) + 1"
  by (simp add: initial_vc_def vc_set_def)

lemma initial_ok: "vc_ok (initial_vc e)"
  by (simp add: vc_ok_def)

lemma add_clocks:
  assumes "\<forall>j\<in>set js. j < length (sg_clocks g) \<and> vc_ok (sg_clocks g ! j) \<and> length (sg_clocks g ! j) \<le> n" "vc_ok v" "length v \<le> n"
  shows "\<exists>u. fold_r (\<lambda>v i. bind_r (at_r (sg_clocks g) i) (\<lambda>w. Inr (vc_add v w))) v js = Inr u \<and> vc_ok u \<and> length u \<le> n \<and>
    (\<forall>p x. x \<le> vc_at u p \<longleftrightarrow> x \<le> vc_at v p \<or> (\<exists>j\<in>set js. x \<le> clock_at g j p))"
  using assms
proof (induction js arbitrary: v)
  case (Cons j js)
  let ?v = "vc_add v (sg_clocks g ! j)"
  have "vc_ok ?v" using Cons.prems(1,2) by (auto simp: vc_ok_def le_max_iff_disj)
  moreover have "length ?v \<le> n" using Cons.prems(1,3) by (simp add: vc_add_nth(1))
  ultimately obtain u where "fold_r (\<lambda>v i. bind_r (at_r (sg_clocks g) i) (\<lambda>w. Inr (vc_add v w))) ?v js = Inr u" "vc_ok u" "length u \<le> n"
    "\<forall>p x. x \<le> vc_at u p \<longleftrightarrow> x \<le> vc_at ?v p \<or> (\<exists>j\<in>set js. x \<le> clock_at g j p)"
    using Cons.IH [of ?v] Cons.prems(1) by auto
  thus ?case using Cons.prems(1,2) by (auto simp: le_max_iff_disj)
qed simp

lemma recompute_vc:
  assumes "sg_wf g" "sg_sound g" "i < sg_n g"
  shows "\<exists>v. recompute_vc_for_event g (sg_ev g i) (sg_ins g ! i) = Inr v \<and> vc_sound g i v \<and>
    (\<forall>p x. x \<le> vc_at v p \<longleftrightarrow> x \<le> vc_at (initial_vc (sg_ev g i)) p \<or> (\<exists>j. (j, i) \<in> sg_edge g \<and> x \<le> clock_at g j p))"
proof -
  let ?P = "length (sg_by_pid g)"
  have e: "j \<in> set (sg_preds g i) \<longleftrightarrow> (j, i) \<in> sg_edge g" for j using assms(3) by (simp add: sg_edge_def)
  have s: "j < sg_n g \<and> vc_sound g j (sg_clocks g ! j)" if "(j, i) \<in> sg_edge g" for j
    using wf_pred(1) [OF assms(1) that] assms(2) by (simp add: sg_sound_def)
  hence c: "\<forall>j\<in>set (sg_preds g i). j < length (sg_clocks g) \<and> vc_ok (sg_clocks g ! j) \<and> length (sg_clocks g ! j) \<le> ?P"
    using wf_lengths(3) [OF assms(1)] by (simp add: e vc_sound_def)
  have "length (initial_vc (sg_ev g i)) \<le> ?P" using wf_event(1) [OF assms(1,3)] by (simp add: length_initial)
  then obtain v where v: "recompute_vc_for_event g (sg_ev g i) (sg_ins g ! i) = Inr v" "vc_ok v" "length v \<le> ?P"
    "\<forall>p x. x \<le> vc_at v p \<longleftrightarrow> x \<le> vc_at (initial_vc (sg_ev g i)) p \<or> (\<exists>j. (j, i) \<in> sg_edge g \<and> x \<le> clock_at g j p)"
    using add_clocks [OF c initial_ok] unfolding recompute_vc_for_event_def sg_preds_def [symmetric] Bex_def e by blast
  have "p < ?P \<and> k \<le> length (sg_by_pid g ! p) \<and> (sg_by_pid g ! p ! (k - 1), i) \<in> (sg_edge g)\<^sup>*"
    if k: "0 < k" "int k \<le> vc_at v p" for p k
  proof -
    consider "int k \<le> vc_at (initial_vc (sg_ev g i)) p" | j where "(j, i) \<in> sg_edge g" "int k \<le> clock_at g j p"
      using v(4) k(2) by blast
    thus ?thesis
    proof cases
      case 1
      hence p: "p = ev_pid_of g i" "k \<le> ev_idx_of g i" using k(1) by (auto split: if_splits)
      have l: "k \<le> length (sg_by_pid g ! p)" "k - 1 \<le> ev_idx_of g i - 1" "ev_idx_of g i - 1 < length (sg_by_pid g ! p)"
        using p wf_event(2,3) [OF assms(1,3)] by auto
      thus ?thesis using wf_thread_path [OF assms(1) wf_event(1) [OF assms(1,3)]] wf_event(1,4) [OF assms(1,3)] p(1) by metis
    next
      case 2
      thus ?thesis using s [OF 2(1)] k(1) by (auto simp: vc_sound_def intro: rtrancl_into_rtrancl)
    qed
  qed
  thus ?thesis using v by (auto simp: vc_sound_def)
qed

lemma is_in_cycle_iff:
  assumes "\<forall>j\<in>set js. j < length (sg_clocks g)"
  shows "is_in_cycle g js v = Inr (\<exists>j\<in>set js. vc_at (sg_clocks g ! j) = vc_at v)"
  using assms by (induction js) (auto simp: vc_eq_iff)

lemma in_cycle_no_exec:
  assumes "sg_wf g" "sg_sound g" "i < sg_n g" "(j, i) \<in> sg_edge g" "vc_at (sg_clocks g ! j) = vc_at v"
    "int (ev_idx_of g i) \<le> vc_at v (ev_pid_of g i)"
  shows "\<not> sg_exec g pos"
proof -
  have "vc_sound g j (sg_clocks g ! j)" using wf_pred(1) [OF assms(1,4)] assms(2) by (simp add: sg_sound_def)
  hence "(i, j) \<in> (sg_edge g)\<^sup>*" using sound_event [OF assms(1) _ assms(3)] assms(5,6) by simp
  thus ?thesis using assms(4) by (rule cycle_no_exec)
qed

section \<open>Searches in the writes of a thread\<close>

lemma takeWhile_sorted:
  assumes "sorted_wrt (<) (ws :: nat list)" "\<And>x y. x \<le> y \<Longrightarrow> P y \<Longrightarrow> P x"
  shows "takeWhile P ws = filter P ws"
  using assms(1)
proof (induction ws)
  case (Cons w ws)
  show ?case
  proof (cases "P w")
    case True
    thus ?thesis using Cons by simp
  next
    case False
    hence "\<forall>y\<in>set ws. \<not> P y" using Cons.prems assms(2) by (auto dest: less_imp_le)
    thus ?thesis using False by simp
  qed
qed simp

lemma last_write_spec:
  assumes "sorted_wrt (<) ws"
  shows "case last_write ws v i of
    None \<Rightarrow> \<forall>w\<in>set ws. w \<le> v \<longrightarrow> w = i
  | Some w \<Rightarrow> w \<in> set ws \<and> w \<noteq> i \<and> w \<le> v \<and> (\<forall>u\<in>set ws. u \<le> v \<longrightarrow> u \<noteq> i \<longrightarrow> u \<le> w)"
proof -
  let ?t = "takeWhile (\<lambda>y. y \<le> v) ws"
  have t: "set ?t = {w \<in> set ws. w \<le> v}" "sorted_wrt (<) ?t"
    using takeWhile_sorted [OF assms, of "\<lambda>y. y \<le> v"] sorted_wrt_filter [OF assms] by auto
  show ?thesis
  proof (cases ?t rule: rev_cases)
    case Nil
    hence "set ?t = {}" by simp
    thus ?thesis using Nil t(1) by (auto simp: last_write_def upper_bound_def)
  next
    case (snoc us x)
    have ub: "upper_bound ws v = length us + 1" by (simp add: upper_bound_def snoc)
    have nth: "ws ! k = ?t ! k" if "k < length ?t" for k using that by (simp add: takeWhile_nth)
    have x: "ws ! length us = x" using nth [of "length us"] snoc by simp
    have lt: "\<forall>u\<in>set us. u < x" using t(2) unfolding snoc by (simp add: sorted_wrt_append)
    have "set us \<union> {x} = {w \<in> set ws. w \<le> v}" using t(1) unfolding snoc by simp
    hence sx: "x \<in> set ws" "x \<le> v" "\<forall>u\<in>set us. u \<in> set ws \<and> u \<le> v" "\<forall>u\<in>set ws. u \<le> v \<longrightarrow> u = x \<or> u \<in> set us" by blast+
    show ?thesis
    proof (cases "x = i")
      case False
      hence lw: "last_write ws v i = Some x" by (simp add: last_write_def ub x)
      show ?thesis unfolding lw using False sx lt by (auto dest: less_imp_le)
    next
      case True
      show ?thesis
      proof (cases us rule: rev_cases)
        case Nil
        hence lw: "last_write ws v i = None" using ub x True by (simp add: last_write_def)
        show ?thesis unfolding lw using True Nil sx(4) by simp
      next
        case (snoc vs y)
        have "ws ! (length us - 1) = y" using nth [of "length vs"] \<open>?t = us @ [x]\<close> snoc by (simp add: nth_append)
        moreover have "\<forall>u\<in>set vs. u < y" "y < x" using t(2) unfolding \<open>?t = us @ [x]\<close> snoc by (auto simp: sorted_wrt_append)
        moreover have "last_write ws v i = Some (ws ! (length us - 1))" using ub x True snoc by (simp add: last_write_def)
        ultimately have lw: "last_write ws v i = Some y" "\<forall>u\<in>set us. u \<le> y" "y < x" "y \<in> set us" using snoc by (auto dest: less_imp_le)
        show ?thesis unfolding lw(1) using lw(2-4) True sx by auto
      qed
    qed
  qed
qed

lemma first_write_spec:
  assumes "sorted_wrt (<) ws"
  shows "case first_write ws v i of
    None \<Rightarrow> \<forall>w\<in>set ws. v \<le> w \<longrightarrow> w = i
  | Some w \<Rightarrow> w \<in> set ws \<and> w \<noteq> i \<and> v \<le> w \<and> (\<forall>u\<in>set ws. v \<le> u \<longrightarrow> u \<noteq> i \<longrightarrow> w \<le> u)"
proof -
  let ?d = "dropWhile (\<lambda>y. y < v) ws"
  have "takeWhile (\<lambda>y. y < v) ws = filter (\<lambda>y. y < v) ws" using takeWhile_sorted [OF assms, of "\<lambda>y. y < v"] by auto
  hence tk: "set (takeWhile (\<lambda>y. y < v) ws) = {w \<in> set ws. w < v}" by simp
  have ws: "ws = takeWhile (\<lambda>y. y < v) ws @ ?d" by simp
  hence so: "sorted_wrt (<) (takeWhile (\<lambda>y. y < v) ws @ ?d)" using assms by simp
  hence dw: "\<forall>x\<in>set ?d. v \<le> x"
  proof (cases ?d)
    case (Cons x xs)
    hence "\<not> x < v" using hd_dropWhile [of "\<lambda>y. y < v" ws] by force
    thus ?thesis using so Cons by (auto simp: sorted_wrt_append)
  next
    case Nil
    show ?thesis unfolding Nil by simp
  qed
  have "set ws = set (takeWhile (\<lambda>y. y < v) ws) \<union> set ?d" by (metis set_append takeWhile_dropWhile_id)
  hence sd: "set ?d = {w \<in> set ws. v \<le> w}" unfolding tk using dw not_le by blast
  have len: "length ws = lower_bound ws v + length ?d" using arg_cong [OF ws, of length] by (simp add: lower_bound_def del: takeWhile_dropWhile_id)
  have nth: "ws ! (lower_bound ws v + k) = ?d ! k" for k
    by (subst ws) (simp only: lower_bound_def nth_append_length_plus)
  show ?thesis
  proof (cases ?d)
    case Nil
    thus ?thesis using sd len by (auto simp: first_write_def)
  next
    case (Cons x xs)
    have x: "ws ! lower_bound ws v = x" "lower_bound ws v \<noteq> length ws" using nth [of 0] len Cons by simp_all
    have lt: "\<forall>u\<in>set xs. x < u" using so Cons by (auto simp: sorted_wrt_append)
    have "{x} \<union> set xs = {w \<in> set ws. v \<le> w}" using sd Cons by simp
    hence sx: "x \<in> set ws" "v \<le> x" "\<forall>u\<in>set xs. u \<in> set ws \<and> v \<le> u" "\<forall>u\<in>set ws. v \<le> u \<longrightarrow> u = x \<or> u \<in> set xs" by blast+
    show ?thesis
    proof (cases "x = i")
      case False
      hence lw: "first_write ws v i = Some x" by (simp add: first_write_def x)
      show ?thesis unfolding lw using False sx lt by (auto dest: less_imp_le)
    next
      case True
      show ?thesis
      proof (cases xs)
        case Nil
        hence lw: "first_write ws v i = None" using x True len Cons by (simp add: first_write_def)
        show ?thesis unfolding lw using True Nil sx(4) by simp
      next
        case c: (Cons y ys)
        have "ws ! (lower_bound ws v + 1) = y" "lower_bound ws v + 1 \<noteq> length ws" using nth [of 1] len Cons c by simp_all
        moreover have "\<forall>u\<in>set ys. y < u" "x < y" using so Cons c by (auto simp: sorted_wrt_append)
        ultimately have lw: "first_write ws v i = Some y" "\<forall>u\<in>set xs. y \<le> u" "x < y" "y \<in> set xs"
          using x True c by (auto simp: first_write_def dest: less_imp_le)
        show ?thesis unfolding lw(1) using lw(2-4) True sx by auto
      qed
    qed
  qed
qed

end
