(* ===== verification/SatLoop.thy ===== *)
theory SatLoop
  imports Prelude SatStep
begin

text \<open>
  The saturation loop: a step keeps the executions of the graph, or shows that there is none, and makes
  progress.
\<close>

section \<open>One thread\<close>

lemma from_read_links:
  assumes "sg_wf g" "i < sg_n g" "\<forall>r\<in>set rs. r < sg_n g \<and> se_load (sg_ev g r) \<and> same_cell g r i"
  shows "fold_r (from_read i (sg_ev g i)) (g, new) rs =
    Inr (sg_links i (filter (\<lambda>r. r \<noteq> i) rs) g, new \<or> filter (\<lambda>r. r \<noteq> i) rs \<noteq> [])"
  using assms
proof (induction rs arbitrary: g new)
  case (Cons r rs)
  have r: "r < sg_n g" "se_load (sg_ev g r)" "se_addr (sg_ev g r) = se_addr (sg_ev g i)"
    using Cons.prems(3) by (simp_all add: same_cell_def)
  show ?case
  proof (cases "r = i")
    case True
    thus ?thesis using Cons by (simp add: from_read_def)
  next
    case False
    have "bind_r (push_in g i r) (\<lambda>g. bind_r (push_out g r i) (\<lambda>g. Inr (g, True))) = Inr (sg_link i r g, True)"
      using push_link(1) [OF sg_wfD(1) [OF Cons.prems(1)] Cons.prems(2) r(1)] by (auto simp: bind_r_def split: sum.splits)
    hence "from_read i (sg_ev g i) (g, new) r = Inr (sg_link i r g, True)" using r False by (simp add: from_read_def)
    moreover have "fold_r (from_read i (sg_ev g i)) (sg_link i r g, True) rs = Inr (sg_links i (filter (\<lambda>r. r \<noteq> i) rs) (sg_link i r g), True)"
      using Cons.IH [of "sg_link i r g" True] wf_link [OF Cons.prems(1,2) r(1)] Cons.prems(2,3) by (simp add: same_cell_def)
    ultimately show ?thesis using False by simp
  qed
qed simp

text \<open>What the edges found for one thread are for: every write of the thread that the old clock did not
  count and the new one does is covered by a later write whose readers come before the event, and
  which is, or comes before, the write that the event reads.\<close>

definition covered :: "sat_graph \<Rightarrow> nat \<Rightarrow> vclock \<Rightarrow> vclock \<Rightarrow> nat \<Rightarrow> nat list \<Rightarrow> (nat \<times> nat) list \<Rightarrow> bool" where
  "covered g i old vc p rs es = (\<forall>w\<in>rivals g i. ev_pid_of g w = p \<longrightarrow> vc_at old p < int (ev_idx_of g w) \<longrightarrow>
     int (ev_idx_of g w) \<le> vc_at vc p \<longrightarrow>
     (\<exists>w'\<in>rivals g i. ev_pid_of g w' = p \<and> ev_idx_of g w \<le> ev_idx_of g w' \<and> int (ev_idx_of g w') \<le> vc_at vc p \<and>
        (se_store (sg_ev g i) \<longrightarrow> set (se_readers (sg_ev g w')) \<subseteq> insert i (set rs)) \<and>
        (se_load (sg_ev g i) \<longrightarrow> (\<exists>s. se_from (sg_ev g i) = Some s \<and> (w' = s \<or> (w', s) \<in> set es)))))"

definition forced :: "sat_graph \<Rightarrow> nat \<Rightarrow> nat list \<Rightarrow> (nat \<times> nat) list \<Rightarrow> bool" where
  "forced g i rs es = (set rs \<subseteq> {..<sg_n g} \<and> set es \<subseteq> {..<sg_n g} \<times> {..<sg_n g} \<and>
     (\<forall>pos. sg_exec g pos \<longrightarrow> (\<forall>r\<in>set rs. pos r < pos i) \<and> (\<forall>(a, b)\<in>set es. pos a < pos b)))"

lemma covered_mono:
  assumes "covered g i old vc p rs es" "set rs \<subseteq> set rs'" "set es \<subseteq> set es'"
  shows "covered g i old vc p rs' es'"
  unfolding covered_def
proof (intro ballI impI)
  fix w assume "w \<in> rivals g i" "ev_pid_of g w = p" "vc_at old p < int (ev_idx_of g w)" "int (ev_idx_of g w) \<le> vc_at vc p"
  then obtain u where u: "u \<in> rivals g i" "ev_pid_of g u = p" "ev_idx_of g w \<le> ev_idx_of g u" "int (ev_idx_of g u) \<le> vc_at vc p"
    "se_store (sg_ev g i) \<longrightarrow> set (se_readers (sg_ev g u)) \<subseteq> insert i (set rs)"
    "se_load (sg_ev g i) \<longrightarrow> (\<exists>s. se_from (sg_ev g i) = Some s \<and> (u = s \<or> (u, s) \<in> set es))"
    using assms(1) unfolding covered_def by blast
  show "\<exists>w'\<in>rivals g i. ev_pid_of g w' = p \<and> ev_idx_of g w \<le> ev_idx_of g w' \<and> int (ev_idx_of g w') \<le> vc_at vc p \<and>
      (se_store (sg_ev g i) \<longrightarrow> set (se_readers (sg_ev g w')) \<subseteq> insert i (set rs')) \<and>
      (se_load (sg_ev g i) \<longrightarrow> (\<exists>s. se_from (sg_ev g i) = Some s \<and> (w' = s \<or> (w', s) \<in> set es')))"
    using u assms(2,3) by (intro bexI [of _ u]) blast+
qed

lemma covered_same:
  assumes "sg_events g' = sg_events g"
  shows "covered g' i old vc p rs es = covered g i old vc p rs es"
  unfolding covered_def same_rivals [OF assms] assms by (rule refl)

lemma rivals_iff: "w \<in> rivals g i \<longleftrightarrow> w < sg_n g \<and> w \<noteq> i \<and> se_store (sg_ev g w) \<and> se_addr (sg_ev g w) = se_addr (sg_ev g i)"
  by (auto simp: rivals_def same_cell_def)

text \<open>In an execution a write that the event has seen comes before it; its readers come before the event
  if that is a store, and the write itself no later than the one the event reads.\<close>

lemma exec_rival:
  assumes "sg_exec g pos" "sg_wf g" "vc_sound g i vc" "i < sg_n g" "w \<in> rivals g i" "int (ev_idx_of g w) \<le> vc_at vc (ev_pid_of g w)"
  shows "pos w < pos i"
    "se_store (sg_ev g i) \<Longrightarrow> r \<in> set (se_readers (sg_ev g w)) \<Longrightarrow> r \<noteq> i \<Longrightarrow> pos r < pos i"
    "se_load (sg_ev g i) \<Longrightarrow> \<exists>s. se_from (sg_ev g i) = Some s \<and> pos w \<le> pos s"
proof -
  have w: "w < sg_n g" "w \<noteq> i" "se_store (sg_ev g w)" "same_cell g w i" using assms(5) by (simp_all add: rivals_def)
  show wi: "pos w < pos i" using exec_path_less [OF assms(1) sound_event [OF assms(2,3) w(1) assms(6)] w(2)] .
  {
    assume st: "se_store (sg_ev g i)" and r: "r \<in> set (se_readers (sg_ev g w))" "r \<noteq> i"
    note rd = wf_reader [OF assms(2) w(1) r(1)]
    have "i \<in> rivals g r" using assms(4) r(2) st w(4) rd(5) by (simp add: rivals_def same_cell_def)
    hence "pos i < pos r \<longrightarrow> pos i \<le> pos w" using assms(1) rd(1-3) by (auto simp: sg_exec_def reads_ok_def)
    moreover have "pos i \<noteq> pos r" using assms(1,4) rd(1) r(2) by (auto simp: sg_exec_def inj_on_def)
    ultimately show "pos r < pos i" using wi by linarith
  }
  assume ld: "se_load (sg_ev g i)"
  have "reads_ok g pos" using assms(1) by (simp add: sg_exec_def)
  hence "case se_from (sg_ev g i) of None \<Rightarrow> \<forall>w\<in>rivals g i. pos i < pos w
      | Some s \<Rightarrow> pos s < pos i \<and> (\<forall>w\<in>rivals g i. pos w < pos i \<longrightarrow> pos w \<le> pos s)"
    using ld assms(4) by (simp add: reads_ok_def)
  thus "\<exists>s. se_from (sg_ev g i) = Some s \<and> pos w \<le> pos s"
    using assms(5) wi by (cases "se_from (sg_ev g i)") auto
qed

lemma thread_writes:
  assumes "sg_wf g" "p < length (sg_by_pid g)"
  shows "sorted_wrt (<) (map_get [] (sg_writes_by g ! p) (se_addr (sg_ev g i)))"
    "w \<noteq> i \<and> w \<in> set (map_get [] (sg_writes_by g ! p) (se_addr (sg_ev g i))) \<longleftrightarrow> w \<in> rivals g i \<and> ev_pid_of g w = p"
proof -
  have eq: "map_get [] (sg_writes_by g ! p) (se_addr (sg_ev g i)) =
      filter (\<lambda>w. se_store (sg_ev g w) \<and> se_addr (sg_ev g w) = se_addr (sg_ev g i)) (sg_by_pid g ! p)"
    using sg_wfD(5) [OF assms(1)] assms(2) by (simp add: sg_writes_ok_def)
  show "sorted_wrt (<) (map_get [] (sg_writes_by g ! p) (se_addr (sg_ev g i)))"
    unfolding eq using wf_thread_sorted [OF assms] by (rule sorted_wrt_filter)
  have "w \<in> set (sg_by_pid g ! p) \<longleftrightarrow> w < sg_n g \<and> ev_pid_of g w = p"
  proof
    assume "w \<in> set (sg_by_pid g ! p)"
    then obtain k where "k < length (sg_by_pid g ! p)" "w = sg_by_pid g ! p ! k" by (metis in_set_conv_nth)
    thus "w < sg_n g \<and> ev_pid_of g w = p" using wf_thread [OF assms] by simp
  next
    assume "w < sg_n g \<and> ev_pid_of g w = p"
    moreover have "ev_idx_of g w - 1 < length (sg_by_pid g ! ev_pid_of g w)" if "w < sg_n g"
      using wf_event(2,3) [OF assms(1) that] by linarith
    ultimately show "w \<in> set (sg_by_pid g ! p)" using wf_event(4) [OF assms(1), of w] by (metis nth_mem)
  qed
  thus "w \<noteq> i \<and> w \<in> set (map_get [] (sg_writes_by g ! p) (se_addr (sg_ev g i))) \<longleftrightarrow> w \<in> rivals g i \<and> ev_pid_of g w = p"
    unfolding eq rivals_iff by auto
qed

text \<open>Identifiers grow with indices in a thread.\<close>

lemma thread_le_iff:
  assumes "sg_wf g" "u < sg_n g" "w < sg_n g" "ev_pid_of g u = ev_pid_of g w"
  shows "u \<le> w \<longleftrightarrow> ev_idx_of g u \<le> ev_idx_of g w"
proof -
  let ?v = "sg_by_pid g ! ev_pid_of g w"
  note u = wf_event [OF assms(1,2), unfolded assms(4)] and w = wf_event [OF assms(1,3)]
  have l: "ev_idx_of g u - 1 < length ?v" "ev_idx_of g w - 1 < length ?v" using u(2,3) w(2,3) by linarith+
  have "?v ! (ev_idx_of g w - 1) < ?v ! (ev_idx_of g u - 1) \<longleftrightarrow> ev_idx_of g w - 1 < ev_idx_of g u - 1"
    using sorted_wrt_less_nth_less_iff [OF wf_thread_sorted [OF assms(1) w(1)] l(2,1)] .
  thus ?thesis using u(2,4) w(2,4) by (auto simp: not_less [symmetric])
qed

lemma process_event:
  assumes "sg_wf g" "p < length (sg_by_pid g)" "0 < k" "k \<le> length (sg_by_pid g ! p)"
  shows "\<exists>v. get_process_event g p k = Inr v \<and> v < sg_n g \<and> ev_pid_of g v = p \<and> ev_idx_of g v = k"
proof -
  have "k - 1 < length (sg_by_pid g ! p)" using assms(3,4) by linarith
  thus ?thesis using wf_thread [OF assms(1,2), of "k - 1"] assms by (simp add: get_process_event_def)
qed

lemma saturate_pid:
  assumes "sg_wf g" "i < sg_n g" "vc_sound g i vc" "p < length (sg_by_pid g)" "0 \<le> vc_at old p" "vc_at old p \<le> vc_at vc p"
  shows "\<exists>cyc rs es'. saturate_pid i (sg_ev g i) old vc (g, new, es) p = Inr (cyc, sg_links i rs g, new \<or> rs \<noteq> [], es @ es') \<and>
    (if cyc then \<forall>pos. \<not> sg_exec g pos else covered g i old vc p rs es') \<and> forced g i rs es'"
proof (cases "vc_at old p = vc_at vc p")
  case True
  hence "saturate_pid i (sg_ev g i) old vc (g, new, es) p = Inr (False, sg_links i [] g, new \<or> [] \<noteq> ([] :: nat list), es @ [])"
    by (simp add: saturate_pid_def)
  moreover have "covered g i old vc p [] []" "forced g i [] []" using True by (simp_all add: covered_def forced_def)
  ultimately show ?thesis by (intro exI [of _ False] exI [of _ "[]"]) simp
next
  case False
  define m where "m = map_get [] (sg_writes_by g ! p) (se_addr (sg_ev g i))"
  have lt: "vc_at old p < vc_at vc p" using False assms(6) by simp
  hence k: "0 < nat (vc_at vc p)" "int (nat (vc_at vc p)) = vc_at vc p" using assms(5) by simp_all
  have kl: "nat (vc_at vc p) \<le> length (sg_by_pid g ! p)" using assms(3) k unfolding vc_sound_def by (metis order_refl)
  obtain v where v: "get_process_event g p (nat (vc_at vc p)) = Inr v" "v < sg_n g" "ev_pid_of g v = p" "ev_idx_of g v = nat (vc_at vc p)"
    using process_event [OF assms(1,4) k(1) kl] by blast
  note tw = thread_writes [OF assms(1,4), where i = i, folded m_def]
  note lw = last_write_spec [OF tw(1), of v i]
  have seen: "int (ev_idx_of g w) \<le> vc_at vc p \<longleftrightarrow> w \<le> v" if "w \<in> rivals g i" "ev_pid_of g w = p" for w
    using thread_le_iff [OF assms(1) _ v(2)] that v(3,4) k(1) by (simp add: rivals_def le_nat_iff)
  have step: "saturate_pid i (sg_ev g i) old vc (g, new, es) p = (case last_write m v i of
           None \<Rightarrow> Inr (False, g, new, es)
         | Some w \<Rightarrow> bind_r (at_r (sg_events g) w) (\<lambda>we.
             assert_r (w \<noteq> i)
              (if int (iid_idx (se_iid we)) \<le> vc_at old p then Inr (False, g, new, es)
               else assert_r (int (iid_idx (se_iid we)) \<le> vc_at vc p)
                (bind_r (if se_store (sg_ev g i) then fold_r (from_read i (sg_ev g i)) (g, new) (se_readers we) else Inr (g, new)) (\<lambda>(h, new).
                   if se_load (sg_ev g i)
                   then (case se_from (sg_ev g i) of
                           None \<Rightarrow> Inr (True, h, new, es)
                         | Some rf \<Rightarrow> Inr (False, h, new, if w \<noteq> rf then es @ [(w, rf)] else es))
                   else Inr (False, h, new, es))))))"
    using False lt v(1) assms(4) wf_lengths(4) [OF assms(1)] by (simp add: saturate_pid_def m_def)
  have idle: ?thesis if "saturate_pid i (sg_ev g i) old vc (g, new, es) p = Inr (False, g, new, es)"
    "\<And>w. w \<in> rivals g i \<Longrightarrow> ev_pid_of g w = p \<Longrightarrow> vc_at old p < int (ev_idx_of g w) \<Longrightarrow> int (ev_idx_of g w) \<le> vc_at vc p \<Longrightarrow> False"
  proof -
    have "covered g i old vc p [] []" using that(2) unfolding covered_def by blast
    moreover have "forced g i [] []" by (simp add: forced_def)
    ultimately show ?thesis using that(1) by (intro exI [of _ False] exI [of _ "[]"]) simp
  qed
  show ?thesis
  proof (cases "last_write m v i")
    case None
    show ?thesis
    proof (rule idle)
      show "saturate_pid i (sg_ev g i) old vc (g, new, es) p = Inr (False, g, new, es)" using step None by simp
      fix w assume w: "w \<in> rivals g i" "ev_pid_of g w = p" "int (ev_idx_of g w) \<le> vc_at vc p"
      thus False using lw None seen tw(2) [of w] by auto
    qed
  next
    case (Some w)
    hence w: "w \<in> rivals g i" "ev_pid_of g w = p" "w \<le> v" and wmax: "\<And>u. u \<in> set m \<Longrightarrow> u \<le> v \<Longrightarrow> u \<noteq> i \<Longrightarrow> u \<le> w"
      using lw tw(2) [of w] by auto
    have wn: "w < sg_n g" "w \<noteq> i" "se_store (sg_ev g w)" "same_cell g w i" using w(1) by (simp_all add: rivals_def)
    have wv: "int (ev_idx_of g w) \<le> vc_at vc p" using seen [OF w(1,2)] w(3) by simp
    have below: "ev_idx_of g u \<le> ev_idx_of g w" if "u \<in> rivals g i" "ev_pid_of g u = p" "int (ev_idx_of g u) \<le> vc_at vc p" for u
      using wmax [of u] tw(2) [of u] seen [OF that(1,2)] thread_le_iff [OF assms(1) _ wn(1)] that w(2) by (auto simp: rivals_def)
    show ?thesis
    proof (cases "int (ev_idx_of g w) \<le> vc_at old p")
      case True
      show ?thesis
      proof (rule idle)
        show "saturate_pid i (sg_ev g i) old vc (g, new, es) p = Inr (False, g, new, es)" using step Some True wn by simp
        fix u assume "u \<in> rivals g i" "ev_pid_of g u = p" "vc_at old p < int (ev_idx_of g u)" "int (ev_idx_of g u) \<le> vc_at vc p"
        thus False using below [of u] True by simp
      qed
    next
      case n: False
      define rs where "rs = (if se_store (sg_ev g i) then filter (\<lambda>r. r \<noteq> i) (se_readers (sg_ev g w)) else [])"
      define es' where "es' = (if se_load (sg_ev g i) then (case se_from (sg_ev g i) of Some s \<Rightarrow> if w \<noteq> s then [(w, s)] else [] | None \<Rightarrow> []) else [])"
      have rd: "\<forall>r\<in>set (se_readers (sg_ev g w)). r < sg_n g \<and> se_load (sg_ev g r) \<and> same_cell g r i"
        using wf_reader [OF assms(1) wn(1)] wn(4) by (auto simp: same_cell_def)
      have links: "(if se_store (sg_ev g i) then fold_r (from_read i (sg_ev g i)) (g, new) (se_readers (sg_ev g w)) else Inr (g, new)) =
          Inr (sg_links i rs g, new \<or> rs \<noteq> [])"
        using from_read_links [OF assms(1,2) rd] by (simp add: rs_def)
      have res: "saturate_pid i (sg_ev g i) old vc (g, new, es) p =
          Inr (se_load (sg_ev g i) \<and> se_from (sg_ev g i) = None, sg_links i rs g, new \<or> rs \<noteq> [], es @ es')"
        using step Some n wn wv links by (auto simp: es'_def split: option.splits)
      have ex: "pos w < pos i \<and> (\<forall>r\<in>set rs. pos r < pos i) \<and> (se_load (sg_ev g i) \<longrightarrow> (\<exists>s. se_from (sg_ev g i) = Some s \<and> pos w \<le> pos s))"
        if "sg_exec g pos" for pos
        using exec_rival [OF that assms(1,3,2) w(1)] wv w(2) by (auto simp: rs_def)
      have inj: "pos w \<noteq> pos s" if "sg_exec g pos" "s < sg_n g" "w \<noteq> s" for pos s
        using that wn(1) by (auto simp: sg_exec_def inj_on_def)
      have es: "pos a < pos b" if "sg_exec g pos" "(a, b) \<in> set es'" for pos a b
      proof -
        have ab: "se_load (sg_ev g i)" "se_from (sg_ev g i) = Some b" "w \<noteq> b" "a = w"
          using that(2) unfolding es'_def
          by (cases "se_load (sg_ev g i)"; cases "se_from (sg_ev g i)"; simp split: if_splits)+
        thus ?thesis using ex [OF that(1)] inj [OF that(1) wf_from(2) [OF assms(1,2) ab(2)] ab(3)] by auto
      qed
      have "set es' \<subseteq> {..<sg_n g} \<times> {..<sg_n g}"
        using wn(1) wf_from(2) [OF assms(1,2)] unfolding es'_def
        by (cases "se_load (sg_ev g i)"; cases "se_from (sg_ev g i)") auto
      moreover have "set rs \<subseteq> {..<sg_n g}" using rd by (auto simp: rs_def)
      ultimately have "forced g i rs es'" using ex es unfolding forced_def by blast
      moreover have "\<not> sg_exec g pos" if "se_load (sg_ev g i)" "se_from (sg_ev g i) = None" for pos
        using ex [of pos] that by auto
      moreover have "covered g i old vc p rs es'" if c: "\<not> (se_load (sg_ev g i) \<and> se_from (sg_ev g i) = None)"
        unfolding covered_def
      proof (intro ballI impI)
        fix u assume "u \<in> rivals g i" "ev_pid_of g u = p" "int (ev_idx_of g u) \<le> vc_at vc p"
        hence "ev_idx_of g u \<le> ev_idx_of g w" by (rule below)
        moreover have "set (se_readers (sg_ev g w)) \<subseteq> insert i (set rs)" if "se_store (sg_ev g i)" using that by (auto simp: rs_def)
        moreover have "\<exists>s. se_from (sg_ev g i) = Some s \<and> (w = s \<or> (w, s) \<in> set es')" if "se_load (sg_ev g i)"
          using that c unfolding es'_def by (cases "se_from (sg_ev g i)") simp_all
        ultimately show "\<exists>w'\<in>rivals g i. ev_pid_of g w' = p \<and> ev_idx_of g u \<le> ev_idx_of g w' \<and> int (ev_idx_of g w') \<le> vc_at vc p \<and>
            (se_store (sg_ev g i) \<longrightarrow> set (se_readers (sg_ev g w')) \<subseteq> insert i (set rs)) \<and>
            (se_load (sg_ev g i) \<longrightarrow> (\<exists>s. se_from (sg_ev g i) = Some s \<and> (w' = s \<or> (w', s) \<in> set es')))"
          using w wv by blast
      qed
      ultimately have "(if se_load (sg_ev g i) \<and> se_from (sg_ev g i) = None then \<forall>pos. \<not> sg_exec g pos else covered g i old vc p rs es') \<and>
          forced g i rs es'" by simp
      thus ?thesis using res by blast
    qed
  qed
qed

section \<open>All threads\<close>

lemma sound_mono:
  assumes "vc_sound g i v" "sg_by_pid g' = sg_by_pid g" "sg_edge g \<subseteq> sg_edge g'"
  shows "vc_sound g' i v"
  using assms(1) rtrancl_mono [OF assms(3)] unfolding vc_sound_def assms(2) by blast

lemma forced_links:
  assumes "forced g i rs es" "sg_wf g" "i < sg_n g"
  shows "sg_exec (sg_links i rs g) pos = sg_exec g pos"
proof -
  have "set rs \<subseteq> {..<sg_n g}" using assms(1) by (simp add: forced_def)
  note e = wf_links(2) [OF assms(2,3) this]
  have "sg_edge g \<subseteq> sg_edge (sg_links i rs g)" unfolding e by blast
  hence "sg_exec (sg_links i rs g) pos \<Longrightarrow> sg_exec g pos" using exec_fewer_edges [of "sg_links i rs g" g pos] by simp
  moreover have "sg_exec (sg_links i rs g) pos" if "sg_exec g pos"
  proof -
    have "\<forall>(a, b)\<in>(\<lambda>r. (r, i)) ` set rs. pos a < pos b" using assms(1) that by (auto simp: forced_def)
    thus ?thesis using exec_more_edges [OF _ e] that by simp
  qed
  ultimately show ?thesis by blast
qed

lemma saturate_pids:
  assumes "sg_wf g" "i < sg_n g" "vc_sound g i vc" "set ps \<subseteq> {..<length (sg_by_pid g)}" "\<forall>p. 0 \<le> vc_at old p \<and> vc_at old p \<le> vc_at vc p"
  shows "\<exists>cyc rs es'. saturate_pids i (sg_ev g i) old vc (g, new, es) ps = Inr (cyc, sg_links i rs g, new \<or> rs \<noteq> [], es @ es') \<and>
    (if cyc then \<forall>pos. \<not> sg_exec g pos else \<forall>p\<in>set ps. covered g i old vc p rs es') \<and> forced g i rs es'"
  using assms(1-4)
proof (induction ps arbitrary: g new es)
  case Nil
  show ?case by (intro exI [of _ False] exI [of _ "[]"]) (simp add: forced_def)
next
  case (Cons p ps)
  have p: "p < length (sg_by_pid g)" using Cons.prems(4) by simp
  obtain cyc rs es1 where 1: "saturate_pid i (sg_ev g i) old vc (g, new, es) p = Inr (cyc, sg_links i rs g, new \<or> rs \<noteq> [], es @ es1)"
    "if cyc then \<forall>pos. \<not> sg_exec g pos else covered g i old vc p rs es1" "forced g i rs es1"
    using saturate_pid [OF Cons.prems(1-3) p, of old new es] assms(5) by blast
  show ?case
  proof (cases cyc)
    case True
    thus ?thesis using 1 by (intro exI [of _ True] exI [of _ rs] exI [of _ es1]) simp
  next
    case False
    let ?g = "sg_links i rs g"
    have rs: "set rs \<subseteq> {..<sg_n g}" using 1(3) by (simp add: forced_def)
    note wf = wf_links [OF Cons.prems(1,2) rs]
    have vs: "vc_sound ?g i vc" by (rule sound_mono [OF Cons.prems(3)]) (use wf(2) in auto)
    have "sg_wf ?g" "i < sg_n ?g" "set ps \<subseteq> {..<length (sg_by_pid ?g)}" using wf Cons.prems(2,4) by simp_all
    then obtain cyc' rs' es' where 2: "saturate_pids i (sg_ev ?g i) old vc (?g, new \<or> rs \<noteq> [], es @ es1) ps =
        Inr (cyc', sg_links i rs' ?g, (new \<or> rs \<noteq> []) \<or> rs' \<noteq> [], (es @ es1) @ es')"
      "if cyc' then \<forall>pos. \<not> sg_exec ?g pos else \<forall>p\<in>set ps. covered ?g i old vc p rs' es'" "forced ?g i rs' es'"
      using Cons.IH [of ?g "new \<or> rs \<noteq> []" "es @ es1"] vs by blast
    have ex: "sg_exec ?g pos = sg_exec g pos" for pos by (rule forced_links [OF 1(3) Cons.prems(1,2)])
    have "saturate_pids i (sg_ev g i) old vc (g, new, es) (p # ps) =
        Inr (cyc', sg_links i (rs @ rs') g, new \<or> rs @ rs' \<noteq> [], es @ (es1 @ es'))"
      using 1(1) 2(1) False by auto
    moreover have "forced g i (rs @ rs') (es1 @ es')" using 1(3) 2(3) unfolding forced_def ex by auto
    moreover have "if cyc' then \<forall>pos. \<not> sg_exec g pos else \<forall>q\<in>set (p # ps). covered g i old vc q (rs @ rs') (es1 @ es')"
    proof (cases cyc')
      case True
      thus ?thesis using 2(2) ex by simp
    next
      case f: False
      have "covered g i old vc p (rs @ rs') (es1 @ es')" using 1(2) False by (auto intro: covered_mono)
      moreover have "covered g i old vc q (rs @ rs') (es1 @ es')" if "q \<in> set ps" for q
        using 2(2) f that covered_same [of ?g g] by (auto intro: covered_mono)
      ultimately show ?thesis using f by simp
    qed
    ultimately show ?thesis by blast
  qed
qed

end
