(* ===== verification/SatFix.thy ===== *)
theory SatFix
  imports Prelude SatLoop
begin

text \<open>
  The invariant of the saturation loop, its progress, and what holds when it ends.
\<close>

section \<open>Operations of a step\<close>

lemma wf_pop:
  assumes "sg_wf g" "sg_queue g \<noteq> []"
  defines "i \<equiv> hd (sg_queue g)"
  defines "g' \<equiv> g\<lparr>sg_queue := tl (sg_queue g), sg_queued := (sg_queued g)[i := False]\<rparr>"
  shows "wq_pop g = Inr (i, g')" "i < sg_n g" "sg_wf g'" "set (sg_queue g') = set (sg_queue g) - {i}" "sg_edge g' = sg_edge g"
    "length (sg_queue g') < length (sg_queue g)"
proof -
  show "wq_pop g = Inr (i, g')" using assms(2) by (simp add: wq_pop_def wq_empty_def g'_def i_def Let_def)
  have q: "distinct (sg_queue g)" "\<And>j. j \<in> set (sg_queue g) \<longleftrightarrow> sg_is_queued g j" "set (sg_queue g) \<subseteq> {..<sg_n g}"
    using sg_wfD(6) [OF assms(1)] by (auto simp: sg_queue_ok_def)
  obtain js where js: "sg_queue g = i # js" using assms(2) by (cases "sg_queue g") (simp_all add: i_def)
  show i: "i < sg_n g" using q(3) js by simp
  show s: "set (sg_queue g') = set (sg_queue g) - {i}" using q(1) js by (auto simp: g'_def)
  have "sg_is_queued g' j \<longleftrightarrow> sg_is_queued g j \<and> j \<noteq> i" for j
    by (cases "i < length (sg_queued g)") (auto simp: sg_is_queued_def g'_def nth_list_update)
  hence "sg_queue_ok g'" using s q js by (auto simp: sg_queue_ok_def g'_def)
  thus "sg_wf g'" using sg_wfD [OF assms(1)]
    by (simp add: sg_wf_def sg_lengths_def sg_threads_def sg_froms_def same_cell_def sg_writes_ok_def sg_edges_ok_def g'_def)
  show "sg_edge g' = sg_edge g" by (simp add: g'_def sg_edge_def sg_preds_def)
  show "length (sg_queue g') < length (sg_queue g)" using js by (simp add: g'_def)
qed

lemma fold_wq_add_all:
  assumes "sg_wf g" "set js \<subseteq> {..<sg_n g}" "g' = fold (\<lambda>j g. wq_add g j) js g"
  shows "sg_wf g' \<and> set (sg_queue g') = set (sg_queue g) \<union> set js \<and> sg_edge g' = sg_edge g \<and> sg_same g g' \<and>
    sg_clocks g' = sg_clocks g \<and> sg_outs g' = sg_outs g"
  using assms
proof (induction js arbitrary: g)
  case (Cons j js)
  have j: "j < sg_n g" using Cons.prems by simp
  note q = queue_wq_add(2) [OF sg_wfD(6) [OF Cons.prems(1)] j] and w = wf_wq_add(1) [OF Cons.prems(1) j]
  have s: "sg_same g (wq_add g j)" by (simp add: sg_same_def)
  have "sg_wf g' \<and> set (sg_queue g') = set (sg_queue (wq_add g j)) \<union> set js \<and> sg_edge g' = sg_edge (wq_add g j) \<and> sg_same (wq_add g j) g' \<and>
      sg_clocks g' = sg_clocks (wq_add g j) \<and> sg_outs g' = sg_outs (wq_add g j)"
    using Cons.IH [OF w] Cons.prems(2,3) by simp
  thus ?case using q sg_same_trans [OF s] by simp
qed simp

lemma fold_wq_add:
  assumes "sg_wf g" "set js \<subseteq> {..<sg_n g}"
  defines "g' \<equiv> fold (\<lambda>j g. wq_add g j) js g"
  shows "sg_wf g'" "set (sg_queue g') = set (sg_queue g) \<union> set js" "sg_edge g' = sg_edge g" "sg_same g g'"
    "sg_clocks g' = sg_clocks g" "sg_outs g' = sg_outs g"
  using fold_wq_add_all [OF assms(1,2)] by (simp_all add: g'_def)

lemma add_successors:
  assumes "sg_wf g" "i < sg_n g"
  shows "\<exists>g'. add_successors_to_wq g i (sg_ev g i) = Inr g' \<and> sg_wf g' \<and> sg_edge g' = sg_edge g \<and> sg_same g g' \<and>
    sg_clocks g' = sg_clocks g \<and> set (sg_queue g') = set (sg_queue g) \<union> {j. (i, j) \<in> sg_edge g}"
proof -
  define js where "js = (if se_store (sg_ev g i) then se_readers (sg_ev g i) else [])"
  let ?os = "sg_outs g ! i"
  have rd: "set js = set (se_readers (sg_ev g i))"
  proof (cases "se_store (sg_ev g i)")
    case False
    hence "\<forall>r. r \<notin> set (se_readers (sg_ev g i))" using wf_reader(4) [OF assms] by blast
    hence "se_readers (sg_ev g i) = []" by simp
    thus ?thesis using False by (simp add: js_def)
  qed (simp add: js_def)
  have js: "set js \<subseteq> {..<sg_n g}" unfolding rd using wf_reader(1) [OF assms] by blast
  define g1 where "g1 = fold (\<lambda>j g. wq_add g j) js g"
  note f = fold_wq_add [OF assms(1) js, folded g1_def]
  have os: "set ?os \<subseteq> {..<sg_n g1}" using sg_wfD(4) [OF assms(1)] assms(2) sg_sameD(1) [OF f(4)] by (auto simp: sg_edges_ok_def)
  define g2 where "g2 = fold (\<lambda>j g. wq_add g j) ?os g1"
  note h = fold_wq_add [OF f(1) os, folded g2_def]
  have "(if se_store (sg_ev g i) then fold (\<lambda>j g. wq_add g j) (se_readers (sg_ev g i)) g else g) = g1"
    by (simp add: g1_def js_def)
  hence "add_successors_to_wq g i (sg_ev g i) = Inr g2"
    using assms(2) f(6) wf_lengths(2) [OF assms(1)] by (simp add: add_successors_to_wq_def g2_def)
  moreover have "set js \<union> set ?os = {j. (i, j) \<in> sg_edge g}" unfolding rd using wf_succ [OF assms] by auto
  ultimately show ?thesis using f h sg_same_trans [OF f(4) h(4)] by (intro exI [of _ g2]) auto
qed

lemma add_edge_link:
  assumes "sg_wf g" "a < sg_n g" "b < sg_n g"
  shows "add_edge_internal g (a, b) = Inr (wq_add (sg_link b a g) b)"
  using push_link(2) [OF sg_wfD(1) [OF assms(1)] assms(3,2)] by (auto simp: add_edge_internal_def bind_r_def split: sum.splits)

lemma add_edges:
  assumes "sg_wf g" "set es \<subseteq> {..<sg_n g} \<times> {..<sg_n g}"
  shows "\<exists>g'. add_edges g es = Inr g' \<and> sg_wf g' \<and> sg_edge g' = sg_edge g \<union> set es \<and> sg_same g g' \<and>
    sg_clocks g' = sg_clocks g \<and> set (sg_queue g') = set (sg_queue g) \<union> snd ` set es"
  using assms
proof (induction es arbitrary: g)
  case Nil
  thus ?case by (simp add: add_edges_def)
next
  case (Cons e es)
  obtain a b where e: "e = (a, b)" "a < sg_n g" "b < sg_n g" using Cons.prems(2) by (cases e) auto
  let ?g = "wq_add (sg_link b a g) b"
  have l: "sg_wf (sg_link b a g)" "sg_edge (sg_link b a g) = insert (a, b) (sg_edge g)"
    using wf_link [OF Cons.prems(1) e(3,2)] edge_link [OF e(3) wf_lengths(1) [OF Cons.prems(1)]] by simp_all
  have w: "sg_wf ?g" "set (sg_queue ?g) = insert b (set (sg_queue g))"
    using wf_wq_add(1) [OF l(1)] queue_wq_add(2) [OF sg_wfD(6) [OF l(1)]] e(3) by simp_all
  have s: "sg_same g ?g" using sg_link_fields(9) [of g b a] by (simp add: sg_same_def)
  obtain g' where "add_edges ?g es = Inr g'" "sg_wf g'" "sg_edge g' = sg_edge ?g \<union> set es" "sg_same ?g g'"
    "sg_clocks g' = sg_clocks ?g" "set (sg_queue g') = set (sg_queue ?g) \<union> snd ` set es"
    using Cons.IH [OF w(1)] Cons.prems(2) by auto
  thus ?case using add_edge_link [OF Cons.prems(1) e(2,3)] l(2) w(2) sg_same_trans [OF s] e(1) by (auto simp: add_edges_def)
qed

section \<open>The invariant\<close>

definition sat_inv :: "sat_graph \<Rightarrow> bool" where
  "sat_inv g = (sg_wf g \<and> sg_sound g \<and> sg_under g \<and> sg_settled g \<and> sg_coherent g \<and> sg_from_read_later g)"

text \<open>How much the clocks count.\<close>

definition counted :: "sat_graph \<Rightarrow> nat \<Rightarrow> nat set" where
  "counted g i = {j. j < sg_n g \<and> int (ev_idx_of g j) \<le> clock_at g i (ev_pid_of g j)}"

definition weight :: "sat_graph \<Rightarrow> nat" where
  "weight g = (\<Sum>i < sg_n g. card (counted g i))"

lemma weight_le: "weight g \<le> sg_n g * sg_n g"
proof -
  have "card (counted g i) \<le> sg_n g" for i
    using card_mono [of "{..<sg_n g}" "counted g i"] by (auto simp: counted_def)
  hence "weight g \<le> (\<Sum>i < sg_n g. sg_n g)" unfolding weight_def by (intro sum_mono)
  thus ?thesis by simp
qed

text \<open>What a step has done when it did not find a cycle: \<open>g\<close> is the graph without the event taken
  off the queue, \<open>vc\<close> the new clock.\<close>

definition growing_step ::
  "sat_graph \<Rightarrow> sat_graph \<Rightarrow> nat \<Rightarrow> vclock \<Rightarrow> nat list \<Rightarrow> (nat \<times> nat) list \<Rightarrow> bool" where
  "growing_step g g' i vc rs es =
    (sg_wf g \<and>
     sg_wf g' \<and>
     sg_same g g' \<and>
     sg_sound g \<and>
     sg_under g \<and>
     sg_coherent g \<and>
     sg_from_read_later g \<and>
     (\<forall>j<length (sg_events g). j \<notin> set (sg_queue g) \<longrightarrow> j \<noteq> i \<longrightarrow> settled g j) \<and>
     i < sg_n g \<and>
     vc_sound g i vc \<and>
     (\<forall>p x. x \<le> vc_at vc p \<longleftrightarrow> x \<le> vc_at (initial_vc (sg_ev g i)) p \<or> (\<exists>j. (j, i) \<in> sg_edge g \<and> x \<le> clock_at g j p)) \<and>
     (\<forall>j. (j, i) \<in> sg_edge g \<longrightarrow> vc_at (sg_clocks g ! j) \<noteq> vc_at vc) \<and>
     sg_clocks g' = (sg_clocks g)[i := vc] \<and>
     sg_edge g' = sg_edge g \<union> (\<lambda>r. (r, i)) ` set rs \<union> set es \<and>
     set (sg_queue g') = set (sg_queue g) \<union> {j. (i, j) \<in> sg_edge g \<union> (\<lambda>r. (r, i)) ` set rs} \<union>
        (if rs \<noteq> [] then {i} else {}) \<union> snd ` set es \<and>
     (se_load (sg_ev g i) \<or> se_store (sg_ev g i) \<longrightarrow> (\<forall>p<length (sg_by_pid g). covered g i (sg_clocks g ! i) vc p rs es)))"

lemma growing_stepD:
  assumes "growing_step g g' i vc rs es"
  shows "sg_wf g"
    "sg_wf g'"
    "sg_same g g'"
    "sg_sound g"
    "sg_under g"
    "sg_coherent g"
    "sg_from_read_later g"
    "\<forall>j<length (sg_events g). j \<notin> set (sg_queue g) \<longrightarrow> j \<noteq> i \<longrightarrow> settled g j"
    "i < sg_n g"
    "vc_sound g i vc"
    "\<forall>p x. x \<le> vc_at vc p \<longleftrightarrow> x \<le> vc_at (initial_vc (sg_ev g i)) p \<or> (\<exists>j. (j, i) \<in> sg_edge g \<and> x \<le> clock_at g j p)"
    "\<forall>j. (j, i) \<in> sg_edge g \<longrightarrow> vc_at (sg_clocks g ! j) \<noteq> vc_at vc"
    "sg_clocks g' = (sg_clocks g)[i := vc]"
    "sg_edge g' = sg_edge g \<union> (\<lambda>r. (r, i)) ` set rs \<union> set es"
    "set (sg_queue g') = set (sg_queue g) \<union> {j. (i, j) \<in> sg_edge g \<union> (\<lambda>r. (r, i)) ` set rs} \<union>
        (if rs \<noteq> [] then {i} else {}) \<union> snd ` set es"
    "(se_load (sg_ev g i) \<or> se_store (sg_ev g i) \<longrightarrow> (\<forall>p<length (sg_by_pid g). covered g i (sg_clocks g ! i) vc p rs es))"
  by (insert assms, unfold growing_step_def, elim conjE, assumption)+

lemmas gs_wf = growing_stepD(1)
lemmas gs_sound = growing_stepD(4)
lemmas gs_event = growing_stepD(9)
lemmas gs_vc = growing_stepD(11) [rule_format]
lemmas gs_edges = growing_stepD(14)
lemmas gs_queue = growing_stepD(15)

lemma gs_same:
  assumes "growing_step g g' i vc rs es"
  shows "sg_events g' = sg_events g" "sg_by_pid g' = sg_by_pid g" "rivals g' j = rivals g j"
  using sg_sameD(1,2) [OF growing_stepD(3) [OF assms]] same_rivals [OF sg_sameD(1) [OF growing_stepD(3) [OF assms]]] by blast+

lemma gs_edge_mono: "growing_step g g' i vc rs es \<Longrightarrow> sg_edge g \<subseteq> sg_edge g'"
  unfolding gs_edges by blast

lemma gs_path_mono: "growing_step g g' i vc rs es \<Longrightarrow> (a, b) \<in> (sg_edge g)\<^sup>* \<Longrightarrow> (a, b) \<in> (sg_edge g')\<^sup>*"
  using rtrancl_mono [OF gs_edge_mono] by blast

lemma gs_clock:
  "growing_step g g' i vc rs es \<Longrightarrow> j < sg_n g \<Longrightarrow> sg_clocks g' ! j = (if j = i then vc else sg_clocks g ! j)"
  using wf_lengths(3) [OF gs_wf] by (simp add: growing_stepD(13))

lemma gs_old_le:
  assumes "growing_step g g' i vc rs es"
  shows "clock_at g i p \<le> vc_at vc p"
  using growing_stepD(5) [OF assms] gs_event [OF assms] gs_vc [OF assms, of "clock_at g i p" p] unfolding sg_under_def by blast

lemma gs_clock_mono: "growing_step g g' i vc rs es \<Longrightarrow> j < sg_n g \<Longrightarrow> clock_at g j p \<le> clock_at g' j p"
  using gs_old_le by (simp add: gs_clock)

lemma gs_pred_in: "growing_step g g' i vc rs es \<Longrightarrow> (k, j) \<in> sg_edge g \<Longrightarrow> k < sg_n g \<and> j < sg_n g"
  using wf_pred [OF gs_wf] by blast

lemma gs_sound':
  assumes s: "growing_step g g' i vc rs es"
  shows "sg_sound g'"
  unfolding sg_sound_def
proof (intro allI impI)
  fix j assume "j < sg_n g'"
  hence "vc_sound g j (sg_clocks g' ! j)"
    using gs_clock [OF s] gs_sound [OF s] growing_stepD(10) [OF s] by (simp add: sg_sound_def gs_same [OF s])
  thus "vc_sound g' j (sg_clocks g' ! j)" by (rule sound_mono [OF _ gs_same(2) [OF s] gs_edge_mono [OF s]])
qed

lemma gs_under':
  assumes s: "growing_step g g' i vc rs es"
  shows "sg_under g'"
  unfolding sg_under_def
proof (intro allI impI)
  fix j p assume "j < sg_n g'"
  hence j: "j < sg_n g" by (simp add: gs_same [OF s])
  have "clock_at g' j p \<le> vc_at (initial_vc (sg_ev g j)) p \<or> (\<exists>k. (k, j) \<in> sg_edge g \<and> clock_at g' j p \<le> clock_at g k p)"
  proof (cases "j = i")
    case True
    thus ?thesis using gs_vc [OF s, of "vc_at vc p" p] gs_clock [OF s j] by simp
  next
    case False
    thus ?thesis using growing_stepD(5) [OF s] j gs_clock [OF s j] by (simp add: sg_under_def)
  qed
  moreover have "\<exists>k. (k, j) \<in> sg_edge g' \<and> clock_at g' j p \<le> clock_at g' k p"
    if "(k, j) \<in> sg_edge g" "clock_at g' j p \<le> clock_at g k p" for k
    using that gs_edge_mono [OF s] gs_clock_mono [OF s, of k p] gs_pred_in [OF s] order_trans by blast
  ultimately show "clock_at g' j p \<le> vc_at (initial_vc (sg_ev g' j)) p \<or> (\<exists>k. (k, j) \<in> sg_edge g' \<and> clock_at g' j p \<le> clock_at g' k p)"
    unfolding gs_same(1) [OF s] by blast
qed

lemma gs_settled':
  assumes s: "growing_step g g' i vc rs es"
  shows "sg_settled g'"
  unfolding sg_settled_def
proof (intro allI impI)
  fix j assume "j < sg_n g'" and q: "j \<notin> set (sg_queue g')"
  hence j: "j < sg_n g" by (simp add: gs_same [OF s])
  have old: "k \<noteq> i" "(k, j) \<in> sg_edge g" if "(k, j) \<in> sg_edge g'" for k
  proof -
    have "(k, j) \<notin> set es" using q unfolding gs_queue [OF s] by force
    moreover have rs: "j \<noteq> i \<or> rs = []" using q unfolding gs_queue [OF s] by (auto split: if_splits)
    ultimately show e: "(k, j) \<in> sg_edge g" using that unfolding gs_edges [OF s] by auto
    show "k \<noteq> i" using q e unfolding gs_queue [OF s] by blast
  qed
  have same: "sg_clocks g' ! k = sg_clocks g ! k" if "(k, j) \<in> sg_edge g'" for k
    using gs_clock [OF s] gs_pred_in [OF s old(2) [OF that]] old(1) [OF that] by simp
  show "settled g' j"
  proof (cases "j = i")
    case False
    have "settled g j" using growing_stepD(8) [OF s] j q False unfolding gs_queue [OF s] by blast
    thus ?thesis using gs_clock [OF s j] False old(2) same by (simp add: settled_def gs_same [OF s])
  next
    case True
    have "int (ev_idx_of g i) \<le> vc_at vc (ev_pid_of g i)" using gs_vc [OF s, of "int (ev_idx_of g i)" "ev_pid_of g i"] by simp
    moreover have "clock_at g k p \<le> vc_at vc p" if "(k, i) \<in> sg_edge g" for k p using gs_vc [OF s] that by blast
    ultimately show ?thesis using gs_clock [OF s j] True old(2) same growing_stepD(12) [OF s] by (simp add: settled_def gs_same [OF s])
  qed
qed

lemma gs_seen_split:
  assumes s: "growing_step g g' i vc rs es" and "seen_by g' w j" "j < sg_n g"
  shows "seen_by g w j \<or> (j = i \<and> w \<in> rivals g i \<and> clock_at g i (ev_pid_of g w) < int (ev_idx_of g w) \<and>
     int (ev_idx_of g w) \<le> vc_at vc (ev_pid_of g w))"
  using assms(2) gs_clock [OF s assms(3)] by (auto simp: seen_by_def gs_same [OF s] split: if_splits)

lemma gs_newly_seen:
  assumes s: "growing_step g g' i vc rs es"
    and w: "w \<in> rivals g i" "clock_at g i (ev_pid_of g w) < int (ev_idx_of g w)" "int (ev_idx_of g w) \<le> vc_at vc (ev_pid_of g w)"
    and a: "se_load (sg_ev g i) \<or> se_store (sg_ev g i)"
  obtains u where "ev_pid_of g u = ev_pid_of g w" "ev_idx_of g w \<le> ev_idx_of g u" "seen_by g' u i"
    "se_store (sg_ev g i) \<longrightarrow> set (se_readers (sg_ev g u)) \<subseteq> insert i (set rs)"
    "se_load (sg_ev g i) \<longrightarrow> (\<exists>s. se_from (sg_ev g i) = Some s \<and> (u = s \<or> (u, s) \<in> set es))"
    "(w, u) \<in> (sg_edge g')\<^sup>*"
proof -
  have wn: "w < sg_n g" using w(1) by (simp add: rivals_def)
  have "covered g i (sg_clocks g ! i) vc (ev_pid_of g w) rs es"
    using growing_stepD(16) [OF s] a wf_event(1) [OF gs_wf [OF s] wn] by blast
  then obtain u where u: "u \<in> rivals g i" "ev_pid_of g u = ev_pid_of g w" "ev_idx_of g w \<le> ev_idx_of g u"
    "int (ev_idx_of g u) \<le> vc_at vc (ev_pid_of g w)"
    "se_store (sg_ev g i) \<longrightarrow> set (se_readers (sg_ev g u)) \<subseteq> insert i (set rs)"
    "se_load (sg_ev g i) \<longrightarrow> (\<exists>s. se_from (sg_ev g i) = Some s \<and> (u = s \<or> (u, s) \<in> set es))"
    using w unfolding covered_def by blast
  have "seen_by g' u i" using u(1,2,4) gs_clock [OF s gs_event [OF s]] by (simp add: seen_by_def gs_same [OF s])
  moreover have "(w, u) \<in> (sg_edge g)\<^sup>*"
    using wf_same_thread_path [OF gs_wf [OF s] wn] u(1-3) by (simp add: rivals_def)
  ultimately show ?thesis using that [OF u(2,3) _ u(5,6)] gs_path_mono [OF s] by blast
qed

lemma gs_coherent':
  assumes s: "growing_step g g' i vc rs es"
  shows "sg_coherent g'"
  unfolding sg_coherent_def
proof (intro allI impI)
  fix j w assume "j < sg_n g'" "se_load (sg_ev g' j)" and sn: "seen_by g' w j"
  hence j: "j < sg_n g" "se_load (sg_ev g j)" by (simp_all add: gs_same [OF s])
  consider "seen_by g w j" | "j = i" "w \<in> rivals g i" "clock_at g i (ev_pid_of g w) < int (ev_idx_of g w)"
    "int (ev_idx_of g w) \<le> vc_at vc (ev_pid_of g w)" using gs_seen_split [OF s sn j(1)] by blast
  hence "\<exists>s. se_from (sg_ev g j) = Some s \<and> (w, s) \<in> (sg_edge g')\<^sup>*"
  proof cases
    case 1
    thus ?thesis using growing_stepD(6) [OF s] j gs_path_mono [OF s] unfolding sg_coherent_def by blast
  next
    case 2
    have ld: "se_load (sg_ev g i)" using j(2) 2(1) by simp
    obtain u where u: "se_load (sg_ev g i) \<longrightarrow> (\<exists>s. se_from (sg_ev g i) = Some s \<and> (u = s \<or> (u, s) \<in> set es))"
      "(w, u) \<in> (sg_edge g')\<^sup>*"
      using gs_newly_seen [OF s 2(2-4) disjI1 [OF ld]] by blast
    moreover have "(u, s) \<in> sg_edge g'" if "(u, s) \<in> set es" for u s using that unfolding gs_edges [OF s] by blast
    ultimately show ?thesis using 2(1) ld by (auto intro: rtrancl_into_rtrancl)
  qed
  thus "\<exists>s. se_from (sg_ev g' j) = Some s \<and> (w, s) \<in> (sg_edge g')\<^sup>*" unfolding gs_same(1) [OF s] .
qed

lemma gs_later':
  assumes s: "growing_step g g' i vc rs es"
  shows "sg_from_read_later g'"
  unfolding sg_from_read_later_def
proof (intro allI impI)
  fix j w assume "j < sg_n g'" "se_store (sg_ev g' j)" and sn: "seen_by g' w j"
  hence j: "j < sg_n g" "se_store (sg_ev g j)" by (simp_all add: gs_same [OF s])
  consider "seen_by g w j" | "j = i" "w \<in> rivals g i" "clock_at g i (ev_pid_of g w) < int (ev_idx_of g w)"
    "int (ev_idx_of g w) \<le> vc_at vc (ev_pid_of g w)" using gs_seen_split [OF s sn j(1)] by blast
  hence "\<exists>w'. seen_by g' w' j \<and> ev_pid_of g w' = ev_pid_of g w \<and> ev_idx_of g w \<le> ev_idx_of g w' \<and>
      (\<forall>r\<in>set (se_readers (sg_ev g w')). (r, j) \<in> (sg_edge g')\<^sup>*)"
  proof cases
    case 1
    then obtain w' where w': "seen_by g w' j" "ev_pid_of g w' = ev_pid_of g w" "ev_idx_of g w \<le> ev_idx_of g w'"
      "\<forall>r\<in>set (se_readers (sg_ev g w')). (r, j) \<in> (sg_edge g)\<^sup>*"
      using growing_stepD(7) [OF s] j unfolding sg_from_read_later_def by blast
    have "seen_by g' w' j"
      using w'(1) order_trans [OF _ gs_clock_mono [OF s j(1)]] by (simp add: seen_by_def gs_same [OF s])
    thus ?thesis using w' gs_path_mono [OF s] by blast
  next
    case 2
    have st: "se_store (sg_ev g i)" using j(2) 2(1) by simp
    obtain u where u: "ev_pid_of g u = ev_pid_of g w" "ev_idx_of g w \<le> ev_idx_of g u" "seen_by g' u i"
      "se_store (sg_ev g i) \<longrightarrow> set (se_readers (sg_ev g u)) \<subseteq> insert i (set rs)"
      using gs_newly_seen [OF s 2(2-4) disjI2 [OF st]] by blast
    have "(r, i) \<in> (sg_edge g')\<^sup>*" if "r \<in> set (se_readers (sg_ev g u))" for r
    proof (cases "r = i")
      case False
      hence "(r, i) \<in> sg_edge g'" using that u(4) st unfolding gs_edges [OF s] by blast
      thus ?thesis by blast
    qed simp
    thus ?thesis using u(1-3) 2(1) by (intro exI [of _ u]) simp
  qed
  thus "\<exists>w'. seen_by g' w' j \<and> ev_pid_of g' w' = ev_pid_of g' w \<and> ev_idx_of g' w \<le> ev_idx_of g' w' \<and>
      (\<forall>r\<in>set (se_readers (sg_ev g' w')). (r, j) \<in> (sg_edge g')\<^sup>*)" unfolding gs_same(1) [OF s] .
qed

lemma growing_step_inv:
  assumes "growing_step g g' i vc rs es"
  shows "sat_inv g'"
  using growing_stepD(2) [OF assms] gs_sound' [OF assms] gs_under' [OF assms] gs_settled' [OF assms] gs_coherent' [OF assms]
    gs_later' [OF assms] by (simp add: sat_inv_def)

text \<open>The new clock counts more.\<close>

lemma finite_counted [simp]: "finite (counted g i)"
  by (simp add: counted_def)

lemma growing_step_weight:
  assumes s: "growing_step g g' i vc rs es" and "vc_at vc \<noteq> vc_at (sg_clocks g ! i)"
  shows "weight g < weight g'"
proof -
  note event = gs_event [OF s]
  obtain p where p: "vc_at vc p \<noteq> clock_at g i p" using assms(2) by blast
  hence lt: "clock_at g i p < vc_at vc p" using gs_old_le [OF s, of p] by simp
  moreover have "0 \<le> clock_at g i p" using gs_sound [OF s] event by (simp add: sg_sound_def vc_sound_def vc_ok_def)
  ultimately have k: "0 < nat (vc_at vc p)" "int (nat (vc_at vc p)) = vc_at vc p" by simp_all
  hence "p < length (sg_by_pid g)" "nat (vc_at vc p) \<le> length (sg_by_pid g ! p)"
    using growing_stepD(10) [OF s] unfolding vc_sound_def by (metis order_refl)+
  then obtain v where v: "v < sg_n g" "ev_pid_of g v = p" "ev_idx_of g v = nat (vc_at vc p)"
    using process_event [OF gs_wf [OF s] _ k(1)] by blast
  have sub: "counted g j \<subseteq> counted g' j" if "j < sg_n g" for j
    using order_trans [OF _ gs_clock_mono [OF s that]] by (auto simp: counted_def gs_same [OF s])
  have "v \<in> counted g' i" "v \<notin> counted g i" using v k lt gs_clock [OF s event] by (simp_all add: counted_def gs_same [OF s])
  hence "counted g i \<subset> counted g' i" using sub [OF event] by blast
  hence "card (counted g i) < card (counted g' i)" by (rule psubset_card_mono [OF finite_counted])
  moreover have "card (counted g j) \<le> card (counted g' j)" if "j < sg_n g" for j by (rule card_mono [OF finite_counted sub [OF that]])
  ultimately show ?thesis unfolding weight_def gs_same(1) [OF s] using event by (intro sum_strict_mono_ex1) auto
qed

section \<open>The step and the loop\<close>

lemma sat_invD:
  assumes "sat_inv g"
  shows "sg_wf g" "sg_sound g" "sg_under g" "sg_settled g" "sg_coherent g" "sg_from_read_later g"
  using assms by (simp_all add: sat_inv_def)

text \<open>An event is taken off the queue, nothing else.\<close>

lemma inv_pop:
  assumes "sat_inv g" "sg_queue g \<noteq> []"
  defines "i \<equiv> hd (sg_queue g)"
  defines "g' \<equiv> g\<lparr>sg_queue := tl (sg_queue g), sg_queued := (sg_queued g)[i := False]\<rparr>"
  shows "sg_sound g'" "sg_under g'" "sg_coherent g'" "sg_from_read_later g'"
    "\<forall>j < sg_n g'. j \<notin> set (sg_queue g') \<longrightarrow> j \<noteq> i \<longrightarrow> settled g' j" "sg_exec g' pos = sg_exec g pos" "weight g' = weight g" "sg_same g g'"
proof -
  note p = wf_pop [OF sat_invD(1) [OF assms(1)] assms(2), folded i_def, folded g'_def]
  have f: "sg_events g' = sg_events g" "sg_clocks g' = sg_clocks g" "sg_by_pid g' = sg_by_pid g" by (simp_all add: g'_def)
  have r: "rivals g' j = rivals g j" "seen_by g' w j = seen_by g w j" for j w by (simp_all add: rivals_def same_cell_def seen_by_def f)
  note inv = sat_invD [OF assms(1)]
  show "sg_sound g'" using inv(2) by (simp add: sg_sound_def vc_sound_def f p(5))
  show "sg_under g'" using inv(3) by (simp add: sg_under_def f p(5))
  show "sg_coherent g'" using inv(5) by (simp add: sg_coherent_def f r p(5))
  show "sg_from_read_later g'" using inv(6) by (simp add: sg_from_read_later_def f r p(5))
  show "\<forall>j < sg_n g'. j \<notin> set (sg_queue g') \<longrightarrow> j \<noteq> i \<longrightarrow> settled g' j"
    using inv(4) p(4) by (auto simp: sg_settled_def settled_def f p(5))
  show "sg_exec g' pos = sg_exec g pos" by (rule exec_same [OF f(1) p(5)])
  show "weight g' = weight g" by (simp add: weight_def counted_def f)
  show "sg_same g g'" by (simp add: sg_same_def g'_def)
qed

lemma saturate_one_step:
  assumes "sat_inv g" "sg_queue g \<noteq> []"
  shows "\<exists>cyc g'. saturate_one g = Inr (cyc, g') \<and> sg_same g g' \<and> sg_wf g' \<and> sg_edge g \<subseteq> sg_edge g' \<and>
    (if cyc then \<forall>pos. \<not> sg_exec g pos
     else sat_inv g' \<and> (\<forall>pos. sg_exec g' pos = sg_exec g pos) \<and>
       (weight g < weight g' \<or> weight g' = weight g \<and> length (sg_queue g') < length (sg_queue g)))"
proof -
  define i where "i = hd (sg_queue g)"
  define g0 where "g0 = g\<lparr>sg_queue := tl (sg_queue g), sg_queued := (sg_queued g)[i := False]\<rparr>"
  note pop = wf_pop [OF sat_invD(1) [OF assms(1)] assms(2), folded i_def, folded g0_def]
  note inv = inv_pop [OF assms, folded i_def, folded g0_def]
  have i: "i < sg_n g0" using pop(2) sg_sameD(1) [OF inv(8)] by simp
  obtain vc where vc: "recompute_vc_for_event g0 (sg_ev g0 i) (sg_ins g0 ! i) = Inr vc" "vc_sound g0 i vc"
    "\<forall>p x. x \<le> vc_at vc p \<longleftrightarrow> x \<le> vc_at (initial_vc (sg_ev g0 i)) p \<or> (\<exists>j. (j, i) \<in> sg_edge g0 \<and> x \<le> clock_at g0 j p)"
    using recompute_vc [OF pop(3) inv(1) i] by blast
  define old where "old = sg_clocks g0 ! i"
  define cyc where "cyc = (\<exists>j\<in>set (sg_preds g0 i). vc_at (sg_clocks g0 ! j) = vc_at vc)"
  have pr: "j \<in> set (sg_preds g0 i) \<longleftrightarrow> (j, i) \<in> sg_edge g0" for j using i by (simp add: sg_edge_def)
  have "\<forall>j\<in>set (sg_preds g0 i). j < length (sg_clocks g0)" using wf_pred(1) [OF pop(3)] wf_lengths(3) [OF pop(3)] pr by simp
  hence ic: "is_in_cycle g0 (pred_list (sg_ev g0 i) (sg_ins g0 ! i)) vc = Inr cyc"
    unfolding sg_preds_def [symmetric] cyc_def by (rule is_in_cycle_iff)
  have len: "length (sg_ins g0) = sg_n g0" "length (sg_clocks g0) = sg_n g0" using wf_lengths [OF pop(3)] by simp_all
  have edge0: "sg_edge g \<subseteq> sg_edge g0" using pop(5) by simp
  have run: "saturate_one g =
      (if cyc then Inr (True, g0)
       else if vc_eq vc old then Inr (False, g0)
       else bind_r (if se_load (sg_ev g0 i) \<or> se_store (sg_ev g0 i)
                    then saturate_pids i (sg_ev g0 i) old vc (g0, False, []) [0..<vc_size_ub vc]
                    else Inr (False, g0, False, [])) (\<lambda>(cyc, g, new, es).
         if cyc then Inr (True, g)
         else bind_r (add_successors_to_wq g i (sg_ev g0 i)) (\<lambda>g.
              let g = g\<lparr>sg_clocks := (sg_clocks g)[i := vc]\<rparr>; g = (if new then wq_add_first g i else g) in
              bind_r (add_edges g es) (\<lambda>g. Inr (False, g)))))"
    using pop(1) vc(1) ic i len by (simp add: saturate_one_def old_def)
  have le: "vc_at old p \<le> vc_at vc p" for p
    using inv(2) i vc(3) unfolding sg_under_def old_def by blast
  have nonneg: "0 \<le> vc_at old p" for p using inv(1) i by (simp add: sg_sound_def vc_sound_def vc_ok_def old_def)
  consider "cyc" | "\<not> cyc" "vc_eq vc old" | "\<not> cyc" "\<not> vc_eq vc old" by blast
  thus ?thesis
  proof cases
    case 1
    then obtain j where j: "(j, i) \<in> sg_edge g0" "vc_at (sg_clocks g0 ! j) = vc_at vc" unfolding cyc_def pr [symmetric] by blast
    have "int (ev_idx_of g0 i) \<le> vc_at vc (ev_pid_of g0 i)"
      using vc(3) [rule_format, of "int (ev_idx_of g0 i)" "ev_pid_of g0 i"] by simp
    hence "\<not> sg_exec g0 pos" for pos by (rule in_cycle_no_exec [OF pop(3) inv(1) i j])
    thus ?thesis using run 1 inv(6,8) pop(3) edge0 by (intro exI [of _ True] exI [of _ g0]) simp
  next
    case 2
    have eq: "vc_at old = vc_at vc" using 2(2) by (simp add: vc_eq_iff)
    have "settled g0 i" unfolding settled_def old_def [symmetric] eq
      using vc(3) [rule_format, of "int (ev_idx_of g0 i)" "ev_pid_of g0 i"] vc(3) 2(1) unfolding cyc_def Bex_def pr by auto
    hence "sg_settled g0" using inv(5) unfolding sg_settled_def by blast
    hence "sat_inv g0" using pop(3) inv(1-4) by (simp add: sat_inv_def)
    thus ?thesis using run 2 inv(6-8) pop(3,6) edge0 by (intro exI [of _ False] exI [of _ g0]) simp
  next
    case 3
    let ?ps = "[0..<vc_size_ub vc]"
    have P: "set ?ps \<subseteq> {..<length (sg_by_pid g0)}" using vc(2) by (auto simp: vc_size_ub_def vc_sound_def)
    define pids where "pids = (if se_load (sg_ev g0 i) \<or> se_store (sg_ev g0 i)
        then saturate_pids i (sg_ev g0 i) old vc (g0, False, []) ?ps else Inr (False, g0, False, []))"
    have "\<exists>c rs es. pids = Inr (c, sg_links i rs g0, rs \<noteq> [], es) \<and> forced g0 i rs es \<and>
        (if c then \<forall>pos. \<not> sg_exec g0 pos
         else se_load (sg_ev g0 i) \<or> se_store (sg_ev g0 i) \<longrightarrow> (\<forall>p\<in>set ?ps. covered g0 i old vc p rs es))"
    proof (cases "se_load (sg_ev g0 i) \<or> se_store (sg_ev g0 i)")
      case True
      have "\<forall>p. 0 \<le> vc_at old p \<and> vc_at old p \<le> vc_at vc p" using le nonneg by blast
      then obtain c rs es where c: "saturate_pids i (sg_ev g0 i) old vc (g0, False, []) ?ps = Inr (c, sg_links i rs g0, False \<or> rs \<noteq> [], [] @ es)"
        "if c then \<forall>pos. \<not> sg_exec g0 pos else \<forall>p\<in>set ?ps. covered g0 i old vc p rs es" "forced g0 i rs es"
        using saturate_pids [OF pop(3) i vc(2) P, of old False "[]"] by blast
      have "pids = Inr (c, sg_links i rs g0, rs \<noteq> [], es)" using c(1) True by (simp add: pids_def)
      moreover have "if c then \<forall>pos. \<not> sg_exec g0 pos
         else se_load (sg_ev g0 i) \<or> se_store (sg_ev g0 i) \<longrightarrow> (\<forall>p\<in>set ?ps. covered g0 i old vc p rs es)" using c(2) by simp
      ultimately show ?thesis using c(3) by blast
    next
      case False
      hence "pids = Inr (False, sg_links i [] g0, ([] :: nat list) \<noteq> [], [])" by (simp add: pids_def)
      moreover have "forced g0 i [] []" by (simp add: forced_def)
      ultimately show ?thesis using False by (intro exI [of _ False] exI [of _ "[]"] exI [of _ "[]"]) simp
    qed
    then obtain c rs es where c: "pids = Inr (c, sg_links i rs g0, rs \<noteq> [], es)" "forced g0 i rs es"
      "if c then \<forall>pos. \<not> sg_exec g0 pos
       else se_load (sg_ev g0 i) \<or> se_store (sg_ev g0 i) \<longrightarrow> (\<forall>p\<in>set ?ps. covered g0 i old vc p rs es)" by blast
    let ?g1 = "sg_links i rs g0"
    have rs: "set rs \<subseteq> {..<sg_n g0}" and es: "set es \<subseteq> {..<sg_n g0} \<times> {..<sg_n g0}" using c(2) by (simp_all add: forced_def)
    note w1 = wf_links [OF pop(3) i rs]
    have s1: "sg_same g ?g1" by (rule sg_same_trans [OF inv(8)]) simp
    have run2: "saturate_one g = (if c then Inr (True, ?g1)
         else bind_r (add_successors_to_wq ?g1 i (sg_ev g0 i)) (\<lambda>g.
              let g = g\<lparr>sg_clocks := (sg_clocks g)[i := vc]\<rparr>; g = (if rs \<noteq> [] then wq_add_first g i else g) in
              bind_r (add_edges g es) (\<lambda>g. Inr (False, g))))"
      using run 3 c(1) unfolding pids_def [symmetric] by simp
    show ?thesis
    proof (cases c)
      case True
      have "saturate_one g = Inr (True, ?g1)" "\<forall>pos. \<not> sg_exec g pos" using run2 c(3) inv(6) True by simp_all
      moreover have "sg_edge g \<subseteq> sg_edge ?g1" using w1(2) edge0 by blast
      ultimately show ?thesis using s1 w1(1) by (intro exI [of _ True] exI [of _ ?g1]) (simp only: if_True simp_thms)
    next
      case False
      have i1: "i < sg_n ?g1" using i by simp
      obtain g2 where g2: "add_successors_to_wq ?g1 i (sg_ev ?g1 i) = Inr g2" "sg_wf g2" "sg_edge g2 = sg_edge ?g1" "sg_same ?g1 g2"
        "sg_clocks g2 = sg_clocks ?g1" "set (sg_queue g2) = set (sg_queue ?g1) \<union> {j. (i, j) \<in> sg_edge ?g1}"
        using add_successors [OF w1(1) i1] by blast
      let ?g3 = "g2\<lparr>sg_clocks := (sg_clocks g2)[i := vc]\<rparr>"
      let ?g4 = "if rs \<noteq> [] then wq_add_first ?g3 i else ?g3"
      have w3: "sg_wf ?g3" by (rule wf_clocks [OF g2(2)])
      have i3: "i < sg_n ?g3" using i1 sg_sameD(1) [OF g2(4)] by simp
      have w4: "sg_wf ?g4" using wf_wq_add(2) [OF w3 i3] w3 by simp
      have q4: "set (sg_queue ?g4) = set (sg_queue g2) \<union> (if rs \<noteq> [] then {i} else {})"
        using queue_wq_add_first(2) [OF sg_wfD(6) [OF w3] i3] by simp
      have f4: "sg_edge ?g4 = sg_edge g2" "sg_clocks ?g4 = (sg_clocks g0)[i := vc]" "sg_same ?g1 ?g4"
        using g2(4,5) by (auto simp: sg_same_def)
      have "set es \<subseteq> {..<sg_n ?g4} \<times> {..<sg_n ?g4}" using es sg_sameD(1) [OF f4(3)] by simp
      then obtain g5 where g5: "add_edges ?g4 es = Inr g5" "sg_wf g5" "sg_edge g5 = sg_edge ?g4 \<union> set es" "sg_same ?g4 g5"
        "sg_clocks g5 = sg_clocks ?g4" "set (sg_queue g5) = set (sg_queue ?g4) \<union> snd ` set es"
        using add_edges [OF w4] by blast
      have res: "saturate_one g = Inr (False, g5)" using run2 False g2(1) g5(1) by (simp add: Let_def)
      have e5: "sg_edge g5 = sg_edge g0 \<union> (\<lambda>r. (r, i)) ` set rs \<union> set es" using g5(3) f4(1) g2(3) w1(2) by simp
      have s05: "sg_same g0 g5" using sg_same_trans [OF _ sg_same_trans [OF f4(3) g5(4)], of g0] by simp
      have cov: "se_load (sg_ev g0 i) \<or> se_store (sg_ev g0 i) \<longrightarrow> (\<forall>p<length (sg_by_pid g0). covered g0 i old vc p rs es)"
      proof (intro impI allI)
        fix p assume a: "se_load (sg_ev g0 i) \<or> se_store (sg_ev g0 i)"
        show "covered g0 i old vc p rs es"
        proof (cases "p < vc_size_ub vc")
          case True
          thus ?thesis using c(3) False a by simp
        next
          case out: False
          hence "vc_at vc p = 0" by (simp add: vc_at_out vc_size_ub_def)
          thus ?thesis using nonneg [of p] by (simp add: covered_def)
        qed
      qed
      have gs: "growing_step g0 g5 i vc rs es"
        unfolding growing_step_def old_def [symmetric]
      proof (intro conjI)
        show "\<forall>j. (j, i) \<in> sg_edge g0 \<longrightarrow> vc_at (sg_clocks g0 ! j) \<noteq> vc_at vc" using 3(1) unfolding cyc_def Bex_def pr by blast
        show "set (sg_queue g5) = set (sg_queue g0) \<union> {j. (i, j) \<in> sg_edge g0 \<union> (\<lambda>r. (r, i)) ` set rs} \<union>
            (if rs \<noteq> [] then {i} else {}) \<union> snd ` set es"
          using g5(6) q4 g2(6) w1(2) by auto
      qed (use pop(3) g5(2,5) s05 inv(1-5) i vc(2,3) f4(2) e5 cov in simp_all)
      have ex: "sg_exec g5 pos = sg_exec g pos" for pos
      proof -
        have "sg_exec g5 pos = sg_exec g0 pos"
        proof
          show "sg_exec g5 pos \<Longrightarrow> sg_exec g0 pos" by (rule exec_fewer_edges [OF sg_sameD(1) [OF s05] gs_edge_mono [OF gs]])
          assume x: "sg_exec g0 pos"
          have "\<forall>(a, b)\<in>(\<lambda>r. (r, i)) ` set rs \<union> set es. pos a < pos b" using c(2) x by (auto simp: forced_def)
          thus "sg_exec g5 pos" using exec_more_edges [OF sg_sameD(1) [OF s05]] e5 x by (simp add: Un_assoc)
        qed
        thus ?thesis using inv(6) by simp
      qed
      have "vc_at vc \<noteq> vc_at (sg_clocks g0 ! i)" using 3(2) by (simp add: vc_eq_iff old_def)
      hence "weight g < weight g5" using growing_step_weight [OF gs] inv(7) by simp
      thus ?thesis using res sg_same_trans [OF inv(8) s05] g5(2) growing_step_inv [OF gs] ex gs_edge_mono [OF gs] edge0
        by (intro exI [of _ False] exI [of _ g5]) auto
    qed
  qed
qed

text \<open>With enough fuel the loop ends: the weight can grow as often as there are pairs of events, and
  between two times it grows at most all events are taken off the queue.\<close>

lemma queue_length: "sg_wf g \<Longrightarrow> length (sg_queue g) \<le> sg_n g"
  using card_mono [of "{..<sg_n g}" "set (sg_queue g)"] sg_wfD(6) [of g] by (simp add: sg_queue_ok_def distinct_card)

lemma saturate_loop_ends:
  assumes "sat_inv g" "(sg_n g * sg_n g - weight g) * (sg_n g + 1) + length (sg_queue g) < n"
  shows "\<exists>ok g'. saturate_loop n g = Inr (ok, g') \<and> sg_same g g' \<and> sg_wf g' \<and> sg_edge g \<subseteq> sg_edge g' \<and>
    (if ok then sat_inv g' \<and> sg_queue g' = [] \<and> (\<forall>pos. sg_exec g' pos = sg_exec g pos) else \<forall>pos. \<not> sg_exec g pos)"
  using assms
proof (induction n arbitrary: g)
  case (Suc n)
  show ?case
  proof (cases "sg_queue g = []")
    case True
    let ?g = "g\<lparr>sg_queued := []\<rparr>"
    have e: "sg_edge ?g = sg_edge g" by (simp add: sg_edge_def sg_preds_def)
    have q: "sg_queue_ok ?g" using True by (simp add: sg_queue_ok_def sg_is_queued_def)
    hence w: "sg_wf ?g" using sat_invD(1) [OF Suc.prems(1)]
      by (simp add: sg_wf_def sg_lengths_def sg_threads_def sg_froms_def same_cell_def sg_writes_ok_def sg_edges_ok_def)
    have r: "rivals ?g = rivals g" "seen_by ?g = seen_by g" "settled ?g = settled g" "vc_sound ?g = vc_sound g"
      by (intro ext; simp add: rivals_def same_cell_def seen_by_def settled_def vc_sound_def e)+
    have "sat_inv ?g" using sat_invD [OF Suc.prems(1)] w
      by (simp add: sat_inv_def sg_sound_def sg_under_def sg_settled_def sg_coherent_def sg_from_read_later_def e r)
    moreover have "sg_exec ?g pos = sg_exec g pos" for pos by (rule exec_same [OF _ e]) simp
    ultimately show ?thesis using True w e by (intro exI [of _ True] exI [of _ ?g]) (simp add: wq_empty_def sg_same_def)
  next
    case False
    obtain cyc g' where 1: "saturate_one g = Inr (cyc, g')" "sg_same g g'" "sg_wf g'" "sg_edge g \<subseteq> sg_edge g'"
      "if cyc then \<forall>pos. \<not> sg_exec g pos
       else sat_inv g' \<and> (\<forall>pos. sg_exec g' pos = sg_exec g pos) \<and>
         (weight g < weight g' \<or> weight g' = weight g \<and> length (sg_queue g') < length (sg_queue g))"
      using saturate_one_step [OF Suc.prems(1) False] by blast
    show ?thesis
    proof (cases cyc)
      case True
      thus ?thesis using 1 False by (intro exI [of _ False] exI [of _ g']) (simp add: wq_empty_def)
    next
      case c: False
      have n: "sg_n g' = sg_n g" using sg_sameD(1) [OF 1(2)] by simp
      let ?m = "sg_n g"
      have "(?m * ?m - weight g') * (?m + 1) + length (sg_queue g') < n"
      proof (cases "weight g < weight g'")
        case True
        have "weight g' \<le> ?m * ?m" using weight_le [of g'] n by simp
        hence "?m * ?m - weight g' + 1 \<le> ?m * ?m - weight g" using True by arith
        hence "(?m * ?m - weight g' + 1) * (?m + 1) \<le> (?m * ?m - weight g) * (?m + 1)" by (rule mult_le_mono1)
        moreover have "length (sg_queue g') \<le> ?m" using queue_length [OF 1(3)] n by simp
        ultimately have "(?m * ?m - weight g') * (?m + 1) + length (sg_queue g') < (?m * ?m - weight g) * (?m + 1)"
          by (simp add: algebra_simps)
        thus ?thesis using Suc.prems(2) by linarith
      next
        case False
        thus ?thesis using 1(5) c Suc.prems(2) by auto
      qed
      then obtain ok g'' where 2: "saturate_loop n g' = Inr (ok, g'')" "sg_same g' g''" "sg_wf g''" "sg_edge g' \<subseteq> sg_edge g''"
        "if ok then sat_inv g'' \<and> sg_queue g'' = [] \<and> (\<forall>pos. sg_exec g'' pos = sg_exec g' pos) else \<forall>pos. \<not> sg_exec g' pos"
        using Suc.IH [of g'] 1(5) c n by auto
      have "saturate_loop (Suc n) g = Inr (ok, g'')" using 1(1) 2(1) c False by (simp add: wq_empty_def)
      moreover have "sg_same g g''" "sg_edge g \<subseteq> sg_edge g''" using sg_same_trans [OF 1(2) 2(2)] 1(4) 2(4) by auto
      ultimately show ?thesis using 2(3,5) 1(5) c by (intro exI [of _ ok] exI [of _ g'']) auto
    qed
  qed
qed simp

lemma saturate_fuel_enough:
  assumes "sat_inv g"
  shows "(sg_n g * sg_n g - weight g) * (sg_n g + 1) + length (sg_queue g) < saturate_fuel g"
proof -
  let ?m = "sg_n g"
  have "(?m * ?m - weight g) * (?m + 1) \<le> ?m * ?m * (?m + 1)" by (intro mult_le_mono1) simp
  moreover have "length (sg_queue g) \<le> ?m" using queue_length [OF sat_invD(1) [OF assms]] .
  ultimately show ?thesis by (simp add: saturate_fuel_def Let_def algebra_simps)
qed

end
