(* ===== verification/SatReverse.thy ===== *)
theory SatReverse
  imports Prelude SatFix
begin

text \<open>
  Reverse saturation on graphs without cycles: the depth-first search yields the events in an order in
  which successors come first, the clocks from below are exact, no assertion fails, and the
  readers that were added since the last saturation come before the writes they must come before.
\<close>

section \<open>Successors\<close>

lemma upper_bound_nth:
  assumes "sorted_wrt (<) (xs :: nat list)" "k < length xs"
  shows "upper_bound xs (xs ! k) = k + 1"
proof -
  have "takeWhile (\<lambda>y. y \<le> xs ! k) xs = takeWhile (\<lambda>y. y \<le> xs ! k) (take (k + 1) xs @ drop (k + 1) xs)" by simp
  also have "\<dots> = take (k + 1) xs @ takeWhile (\<lambda>y. y \<le> xs ! k) (drop (k + 1) xs)"
  proof (rule takeWhile_append2)
    fix x assume "x \<in> set (take (k + 1) xs)"
    then obtain l where "l \<le> k" "l < length xs" "x = xs ! l" by (auto simp: in_set_conv_nth less_Suc_eq_le)
    thus "x \<le> xs ! k" using assms by (metis le_neq_implies_less less_imp_le order_refl sorted_wrt_less_nth_mono)
  qed
  also have "takeWhile (\<lambda>y. y \<le> xs ! k) (drop (k + 1) xs) = []"
  proof (cases "k + 1 < length xs")
    case True
    hence "xs ! k < xs ! (k + 1)" using sorted_wrt_less_nth_mono [OF assms(1), of k "k + 1"] by simp
    thus ?thesis using True by (simp add: Cons_nth_drop_Suc [symmetric])
  qed simp
  finally show ?thesis using assms(2) by (simp add: upper_bound_def)
qed

lemma successors_spec:
  assumes "sg_wf g" "i < sg_n g"
  shows "\<exists>ss. successors g i (sg_ev g i) = Inr ss \<and> set ss = {s. (i, s) \<in> sg_edge g}"
proof -
  let ?evs = "sg_by_pid g ! ev_pid_of g i" and ?k = "ev_idx_of g i"
  note e = wf_event [OF assms]
  have k: "?k - 1 < length ?evs" using e(2,3) by linarith
  have ne: "?evs \<noteq> []" using k by auto
  have so: "sorted_wrt (<) ?evs" by (rule wf_thread_sorted [OF assms(1) e(1)])
  have ub: "upper_bound ?evs i = ?k" using upper_bound_nth [OF so k] e(2,4) by simp
  have outs: "set (sg_outs g ! i) = {j. j < sg_n g \<and> (i \<in> set (sg_ins g ! j) \<or> se_po (sg_ev g j) = Some i)}"
    using sg_wfD(4) [OF assms(1)] assms(2) by (simp add: sg_edges_ok_def)
  have "\<exists>s. po_successor g i (sg_ev g i) = Inr s \<and> (\<forall>j. s = Some j \<longrightarrow> j \<in> set (sg_outs g ! i))"
  proof (cases "last ?evs = i")
    case True
    thus ?thesis using e(1) ne by (simp add: po_successor_def)
  next
    case False
    have "?k \<noteq> length ?evs" using False e(4) ne by (auto simp: last_conv_nth)
    hence l: "?k < length ?evs" using e(3) by simp
    note t = wf_thread [OF assms(1) e(1) l]
    have "se_po (sg_ev g (?evs ! ?k)) = Some i" using wf_event(5) [OF assms(1) t(1)] t(2) e(2,4) by simp
    hence "?evs ! ?k \<in> set (sg_outs g ! i)" unfolding outs using t(1) by simp
    thus ?thesis using False e(1) ne ub l by (simp add: po_successor_def)
  qed
  then obtain s where "po_successor g i (sg_ev g i) = Inr s" "\<forall>j. s = Some j \<longrightarrow> j \<in> set (sg_outs g ! i)" by blast
  thus ?thesis using wf_succ [OF assms] assms(2) wf_lengths(2) [OF assms(1)] by (auto simp: successors_def split: option.splits)
qed

section \<open>The depth-first search\<close>

definition succ_first :: "sat_graph \<Rightarrow> nat list \<Rightarrow> bool" where
  "succ_first g v = (\<forall>xs i ys. v = xs @ i # ys \<longrightarrow> {s. (i, s) \<in> sg_edge g} \<subseteq> set xs)"

lemma succ_first_Nil [simp]: "succ_first g []"
  by (simp add: succ_first_def)

lemma succ_first_snoc:
  assumes "succ_first g v" "{s. (i, s) \<in> sg_edge g} \<subseteq> set v"
  shows "succ_first g (v @ [i])"
  unfolding succ_first_def
proof (intro allI impI)
  fix xs j ys assume eq: "v @ [i] = xs @ j # ys"
  show "{s. (j, s) \<in> sg_edge g} \<subseteq> set xs"
  proof (cases ys rule: rev_cases)
    case Nil
    thus ?thesis using eq assms(2) by simp
  next
    case (snoc zs z)
    hence "v = xs @ j # zs" using eq by simp
    thus ?thesis using assms(1) unfolding succ_first_def by blast
  qed
qed

text \<open>The marked events are those in the list and those on the way down to the current one.\<close>

definition care_inv :: "sat_graph \<Rightarrow> nat set \<Rightarrow> care \<Rightarrow> bool" where
  "care_inv g S c = (length (fst c) = sg_n g \<and> (\<forall>j < sg_n g. fst c ! j \<longleftrightarrow> j \<in> set (snd c) \<union> S) \<and> set (snd c) \<subseteq> {..<sg_n g} \<and>
     distinct (snd c) \<and> set (snd c) \<inter> S = {} \<and> succ_first g (snd c))"

definition unmarked :: "sat_graph \<Rightarrow> care \<Rightarrow> nat set" where
  "unmarked g c = {j. j < sg_n g \<and> \<not> fst c ! j}"

lemma finite_unmarked [simp]: "finite (unmarked g c)"
  by (simp add: unmarked_def)

lemma fold_care:
  assumes "\<And>c s. s \<in> set ss \<Longrightarrow> care_inv g S c \<Longrightarrow> card (unmarked g c) < k \<Longrightarrow>
      \<exists>c'. f c s = Inr c' \<and> care_inv g S c' \<and> set (snd c) \<subseteq> set (snd c') \<and> s \<in> set (snd c')"
    "care_inv g S c" "card (unmarked g c) < k"
  shows "\<exists>c'. fold_r f c ss = Inr c' \<and> care_inv g S c' \<and> set (snd c) \<subseteq> set (snd c') \<and> set ss \<subseteq> set (snd c')"
  using assms
proof (induction ss arbitrary: c)
  case (Cons s ss)
  obtain d where d: "f c s = Inr d" "care_inv g S d" "set (snd c) \<subseteq> set (snd d)" "s \<in> set (snd d)"
    using Cons.prems(1) [of s c] Cons.prems(2,3) by auto
  have "unmarked g d \<subseteq> unmarked g c" using d(2,3) Cons.prems(2) by (auto simp: unmarked_def care_inv_def)
  hence "card (unmarked g d) < k" using card_mono [OF finite_unmarked] Cons.prems(3) le_less_trans by blast
  then obtain c' where "fold_r f d ss = Inr c'" "care_inv g S c'" "set (snd d) \<subseteq> set (snd c')" "set ss \<subseteq> set (snd c')"
    using Cons.IH [OF _ d(2)] Cons.prems(1) by (metis list.set_intros(2))
  thus ?case using d by auto
qed simp

lemma add_to_care:
  assumes "sg_wf g" "acyclic (sg_edge g)" "i < sg_n g" "care_inv g S c" "\<forall>s\<in>S. (s, i) \<in> (sg_edge g)\<^sup>+" "card (unmarked g c) < k"
  shows "\<exists>c'. add_to_care k g c i = Inr c' \<and> care_inv g S c' \<and> set (snd c) \<subseteq> set (snd c') \<and> i \<in> set (snd c')"
  using assms(3-6)
proof (induction k arbitrary: i c S)
  case (Suc k)
  have len: "i < length (fst c)" using Suc.prems(1,2) by (simp add: care_inv_def)
  show ?case
  proof (cases "fst c ! i")
    case True
    have "i \<notin> S" using Suc.prems(3) assms(2) by (auto simp: acyclic_def)
    hence "i \<in> set (snd c)" using True Suc.prems(1,2) by (auto simp: care_inv_def)
    thus ?thesis using True len Suc.prems(2) by simp
  next
    case False
    obtain ss where ss: "successors g i (sg_ev g i) = Inr ss" "set ss = {s. (i, s) \<in> sg_edge g}"
      using successors_spec [OF assms(1) Suc.prems(1)] by blast
    let ?c = "((fst c)[i := True], snd c)"
    have i: "i \<notin> set (snd c)" using False Suc.prems(1,2) by (auto simp: care_inv_def)
    have inv: "care_inv g (insert i S) ?c"
      using Suc.prems(1,2) i by (auto simp: care_inv_def nth_list_update)
    have "unmarked g ?c \<subset> unmarked g c"
      using False Suc.prems(1) len by (auto simp: unmarked_def nth_list_update split: if_splits)
    hence un: "card (unmarked g ?c) < k" using psubset_card_mono [OF finite_unmarked] Suc.prems(4) by (meson less_Suc_eq_le less_le_trans)
    have "\<exists>c'. add_to_care k g d s = Inr c' \<and> care_inv g (insert i S) c' \<and> set (snd d) \<subseteq> set (snd c') \<and> s \<in> set (snd c')"
      if "s \<in> set ss" "care_inv g (insert i S) d" "card (unmarked g d) < k" for d s
    proof (rule Suc.IH [OF _ that(2) _ that(3)])
      have e: "(i, s) \<in> sg_edge g" using that(1) ss(2) by simp
      show "s < sg_n g" using wf_pred(2) [OF assms(1) e] .
      show "\<forall>t\<in>insert i S. (t, s) \<in> (sg_edge g)\<^sup>+" using Suc.prems(3) e by (auto intro: trancl_into_trancl)
    qed
    hence step: "\<And>d s. s \<in> set ss \<Longrightarrow> care_inv g (insert i S) d \<Longrightarrow> card (unmarked g d) < k \<Longrightarrow>
        \<exists>c'. add_to_care k g d s = Inr c' \<and> care_inv g (insert i S) c' \<and> set (snd d) \<subseteq> set (snd c') \<and> s \<in> set (snd c')"
      by blast
    obtain c' where c': "fold_r (add_to_care k g) ?c ss = Inr c'" "care_inv g (insert i S) c'"
      "set (snd c) \<subseteq> set (snd c')" "set ss \<subseteq> set (snd c')"
      using fold_care [where f = "add_to_care k g" and ss = ss, OF step inv un] by auto
    have "i \<notin> set (snd c')" using c'(2) by (auto simp: care_inv_def)
    hence "care_inv g S (fst c', snd c' @ [i])"
      using c'(2,4) Suc.prems(1) False Suc.prems(2) succ_first_snoc [of g "snd c'" i] ss(2) by (auto simp: care_inv_def)
    thus ?thesis using False len Suc.prems(1) ss(1) c'(1,3) by (intro exI [of _ "(fst c', snd c' @ [i])"]) auto
  qed
qed simp

definition new_readers :: "sat_graph \<Rightarrow> nat \<Rightarrow> nat list" where
  "new_readers g i = filter (\<lambda>r. r \<ge> sg_until g) (se_readers (sg_ev g i))"

lemma reverse_care_set:
  assumes "sg_wf g" "acyclic (sg_edge g)"
  shows "\<exists>seen v. reverse_care_set g = Inr (seen, v) \<and> set v \<subseteq> {..<sg_n g} \<and> distinct v \<and> succ_first g v \<and>
    (\<forall>i < sg_until g. new_readers g i \<noteq> [] \<longrightarrow> i \<in> set v)"
proof -
  let ?n = "sg_n g"
  let ?c0 = "(replicate ?n False, []) :: care"
  have c0: "care_inv g {} ?c0" by (simp add: care_inv_def)
  have small: "card (unmarked g c) < ?n + 1" for c
    using card_mono [of "{..<?n}" "unmarked g c"] by (auto simp: unmarked_def less_Suc_eq_le)
  have step: "\<exists>c'. care_event g c i = Inr c' \<and> care_inv g {} c' \<and> set (snd c) \<subseteq> set (snd c') \<and>
      (\<forall>w. se_from (sg_ev g i) = Some w \<longrightarrow> w < sg_until g \<longrightarrow> w \<in> set (snd c'))"
    if "i < ?n" "care_inv g {} c" for i c
  proof (cases "se_from (sg_ev g i)")
    case None
    thus ?thesis using that by (simp add: care_event_def)
  next
    case (Some w)
    note w = wf_from [OF assms(1) that(1) Some]
    show ?thesis
    proof (cases "w < sg_until g")
      case True
      thus ?thesis using add_to_care [OF assms w(2) that(2) _ small] that(1) Some w(3) by (auto simp: care_event_def)
    next
      case False
      thus ?thesis using Some that by (simp add: care_event_def)
    qed
  qed
  have "\<exists>c'. fold_r (care_event g) c is = Inr c' \<and> care_inv g {} c' \<and> set (snd c) \<subseteq> set (snd c') \<and>
      (\<forall>i\<in>set is. \<forall>w. se_from (sg_ev g i) = Some w \<longrightarrow> w < sg_until g \<longrightarrow> w \<in> set (snd c'))"
    if "\<forall>i\<in>set is. i < ?n" "care_inv g {} c" for "is" c
    using that
  proof (induction "is" arbitrary: c)
    case (Cons i "is")
    obtain d where d: "care_event g c i = Inr d" "care_inv g {} d" "set (snd c) \<subseteq> set (snd d)"
      "\<forall>w. se_from (sg_ev g i) = Some w \<longrightarrow> w < sg_until g \<longrightarrow> w \<in> set (snd d)"
      using step [of i c] Cons.prems by auto
    obtain c' where "fold_r (care_event g) d is = Inr c'" "care_inv g {} c'" "set (snd d) \<subseteq> set (snd c')"
      "\<forall>i\<in>set is. \<forall>w. se_from (sg_ev g i) = Some w \<longrightarrow> w < sg_until g \<longrightarrow> w \<in> set (snd c')"
      using Cons.IH [OF _ d(2)] Cons.prems(1) by auto
    thus ?case using d by auto
  qed simp
  from this [OF _ c0, of "[sg_until g..<?n]"] obtain seen v where v: "reverse_care_set g = Inr (seen, v)" "care_inv g {} (seen, v)"
    "\<forall>i\<in>set [sg_until g..<?n]. \<forall>w. se_from (sg_ev g i) = Some w \<longrightarrow> w < sg_until g \<longrightarrow> w \<in> set v"
    by (auto simp: reverse_care_set_def)
  have "i \<in> set v" if i: "i < sg_until g" "new_readers g i \<noteq> []" for i
  proof -
    obtain r where r: "r \<in> set (se_readers (sg_ev g i))" "sg_until g \<le> r"
      using i(2) by (auto simp: new_readers_def filter_empty_conv)
    have "i < ?n" using i(1) wf_lengths(5) [OF assms(1)] by simp
    thus ?thesis using v(3) wf_reader(1,2) [OF assms(1) _ r(1)] r(2) i(1) by simp
  qed
  thus ?thesis using v(1,2) by (auto simp: care_inv_def)
qed

section \<open>Clocks from below\<close>

text \<open>For each thread the index of its first event that is reached.\<close>

definition exact_row :: "sat_graph \<Rightarrow> nat \<Rightarrow> int list \<Rightarrow> bool" where
  "exact_row g i r = (length r = length (sg_by_pid g) \<and> (\<forall>p<length (sg_by_pid g). 0 < r ! p \<and>
     (\<forall>x. r ! p \<le> int x \<longleftrightarrow> length (sg_by_pid g ! p) < x \<or>
        (\<exists>k. 0 < k \<and> k \<le> x \<and> k \<le> length (sg_by_pid g ! p) \<and> (i, sg_by_pid g ! p ! (k - 1)) \<in> (sg_edge g)\<^sup>*))))"

lemma exact_row_event:
  assumes "sg_wf g" "exact_row g i r" "w < sg_n g" "(i, w) \<in> (sg_edge g)\<^sup>*"
  shows "r ! ev_pid_of g w \<le> int (ev_idx_of g w)"
  using wf_event [OF assms(1,3)] assms(2,4) unfolding exact_row_def by (metis order_refl)

lemma exact_row_below:
  assumes "sg_wf g" "acyclic (sg_edge g)" "exact_row g i r" "exact_row g w q" "(i, w) \<in> (sg_edge g)\<^sup>+" "i < sg_n g"
  shows "vr_lt r q = Inr True"
proof -
  let ?P = "length (sg_by_pid g)"
  have len: "length r = ?P" "length q = ?P" using assms(3,4) by (simp_all add: exact_row_def)
  have le: "r ! p \<le> q ! p" if p: "p < ?P" for p
  proof -
    have q: "0 < q ! p" using assms(4) p by (simp add: exact_row_def)
    hence "q ! p \<le> int (nat (q ! p))" by simp
    hence "length (sg_by_pid g ! p) < nat (q ! p) \<or> (\<exists>k. 0 < k \<and> k \<le> nat (q ! p) \<and> k \<le> length (sg_by_pid g ! p) \<and>
        (w, sg_by_pid g ! p ! (k - 1)) \<in> (sg_edge g)\<^sup>*)"
      using assms(4) p unfolding exact_row_def by blast
    hence "length (sg_by_pid g ! p) < nat (q ! p) \<or> (\<exists>k. 0 < k \<and> k \<le> nat (q ! p) \<and> k \<le> length (sg_by_pid g ! p) \<and>
        (i, sg_by_pid g ! p ! (k - 1)) \<in> (sg_edge g)\<^sup>*)"
      using trancl_into_rtrancl [OF assms(5)] by (meson rtrancl_trans)
    hence "r ! p \<le> int (nat (q ! p))" using assms(3) p unfolding exact_row_def by blast
    thus ?thesis using q by simp
  qed
  let ?p = "ev_pid_of g i" and ?k = "ev_idx_of g i"
  note e = wf_event [OF assms(1,6)]
  have "\<not> q ! ?p \<le> int ?k"
  proof
    assume "q ! ?p \<le> int ?k"
    then obtain k where k: "0 < k" "k \<le> ?k" "(w, sg_by_pid g ! ?p ! (k - 1)) \<in> (sg_edge g)\<^sup>*"
      using assms(4) e(1,3) unfolding exact_row_def by (metis not_less)
    have "(sg_by_pid g ! ?p ! (k - 1), i) \<in> (sg_edge g)\<^sup>*"
      using wf_thread_path [OF assms(1) e(1), of "k - 1" "?k - 1"] k(1,2) e(3,4) by simp
    hence "(i, i) \<in> (sg_edge g)\<^sup>+" using assms(5) k(3) by (meson rtrancl_trans trancl_rtrancl_trancl)
    thus False using assms(2) by (auto simp: acyclic_def)
  qed
  moreover have "r ! ?p \<le> int ?k" using exact_row_event [OF assms(1,3,6)] by simp
  ultimately have "r ! ?p < q ! ?p" by simp
  hence "\<exists>p\<in>set [0..<?P]. vc_at r p < vc_at q p" using e(1) len by (intro bexI [of _ ?p]) (simp_all add: vc_at_def)
  moreover have "\<forall>p\<in>set [0..<?P]. vc_at r p \<le> vc_at q p" using le len by (simp add: vc_at_def)
  ultimately show ?thesis using len by (simp add: vr_lt_def vc_lt_loop_iff)
qed

text \<open>The rows of the events in a list are exact.\<close>

definition rows_ok :: "sat_graph \<Rightarrow> nat set \<Rightarrow> vclock_vec \<Rightarrow> bool" where
  "rows_ok g S b = (vv_ok (sg_n g) b \<and> vv_clock_size b = length (sg_by_pid g) \<and>
     (\<forall>j\<in>S. \<exists>r. vv_get b j = Inr r \<and> exact_row g j r))"

lemma fold_below:
  assumes "vv_ok n b" "vv_clock_size b = m" "i < n" "\<forall>s\<in>set ss. s < n \<and> s \<noteq> i" "vv_get b i = Inr r" "length r = m"
  shows "\<exists>b' r'. fold_r (below_sub i) b ss = Inr b' \<and> vv_ok n b' \<and> vv_clock_size b' = m \<and> vv_get b' i = Inr r' \<and> length r' = m \<and>
    (\<forall>j<n. j \<noteq> i \<longrightarrow> vv_get b' j = vv_get b j) \<and>
    (\<forall>p<m. \<forall>x. r' ! p \<le> x \<longleftrightarrow> r ! p \<le> x \<or> (\<exists>s\<in>set ss. \<exists>q. vv_get b s = Inr q \<and> q ! p \<le> x))"
  using assms
proof (induction ss arbitrary: b r)
  case (Cons s ss)
  have s: "s < n" "s \<noteq> i" using Cons.prems(4) by simp_all
  obtain q where q: "vv_get b s = Inr q" "length q = m" using vv_get_ok [OF Cons.prems(1) s(1)] Cons.prems(2) by auto
  define r1 where "r1 = map (\<lambda>i. if q ! i < r ! i then q ! i else r ! i) [0..<length r]"
  let ?b = "vv_put b i r1"
  have l1: "length r1 = vv_clock_size b" using Cons.prems(2,6) by (simp add: r1_def)
  have step: "below_sub i b s = Inr ?b" using q Cons.prems(5,6) by (simp add: below_sub_def vr_sub_def r1_def)
  note ok = vv_put_ok [OF Cons.prems(1,3) l1] and get = vv_get_put [OF Cons.prems(1,3) _ l1]
  have "vv_get ?b i = Inr r1" using get [OF Cons.prems(3)] by simp
  then obtain b' r' where b': "fold_r (below_sub i) ?b ss = Inr b'" "vv_ok n b'" "vv_clock_size b' = m" "vv_get b' i = Inr r'"
    "length r' = m" "\<forall>j<n. j \<noteq> i \<longrightarrow> vv_get b' j = vv_get ?b j"
    "\<forall>p<m. \<forall>x. r' ! p \<le> x \<longleftrightarrow> r1 ! p \<le> x \<or> (\<exists>s\<in>set ss. \<exists>q. vv_get ?b s = Inr q \<and> q ! p \<le> x)"
    using Cons.IH [of ?b r1] ok l1 Cons.prems(2,3,4) by auto
  have other: "vv_get ?b j = vv_get b j" if "j < n" "j \<noteq> i" for j using get [OF that(1)] that(2) by simp
  have "r' ! p \<le> x \<longleftrightarrow> r ! p \<le> x \<or> (\<exists>t\<in>set (s # ss). \<exists>q. vv_get b t = Inr q \<and> q ! p \<le> x)" if "p < m" for p x
  proof -
    have "r1 ! p \<le> x \<longleftrightarrow> r ! p \<le> x \<or> q ! p \<le> x" using that Cons.prems(6) by (auto simp: r1_def)
    moreover have "(\<exists>t\<in>set ss. \<exists>q. vv_get ?b t = Inr q \<and> q ! p \<le> x) \<longleftrightarrow> (\<exists>t\<in>set ss. \<exists>q. vv_get b t = Inr q \<and> q ! p \<le> x)"
      using other Cons.prems(4) by (metis list.set_intros(2))
    ultimately show ?thesis using b'(7) that q(1) by auto
  qed
  thus ?case using step b' other by (intro exI [of _ b'] exI [of _ r']) simp
qed simp

lemma sg_top_spec:
  assumes "sg_wf g"
  shows "sg_top g = Inr (map (\<lambda>evs. int (length evs) + 1) (sg_by_pid g))"
proof -
  have "last evs < sg_n g \<and> ev_idx_of g (last evs) = length evs" if evs: "evs \<in> set (sg_by_pid g)" "evs \<noteq> []" for evs
  proof -
    obtain p where p: "p < length (sg_by_pid g)" "evs = sg_by_pid g ! p" using evs(1) by (metis in_set_conv_nth)
    have "length evs - 1 < length (sg_by_pid g ! p)" using evs(2) p(2) by (cases evs) simp_all
    thus ?thesis using wf_thread [OF assms p(1)] evs(2) p(2) by (auto simp: last_conv_nth)
  qed
  thus ?thesis by (simp add: sg_top_def list_all_iff)
qed

lemma rtrancl_first: "(a, b) \<in> R\<^sup>* \<longleftrightarrow> a = b \<or> (\<exists>c. (a, c) \<in> R \<and> (c, b) \<in> R\<^sup>*)"
  by (meson converse_rtranclE converse_rtrancl_into_rtrancl rtrancl.rtrancl_refl)

text \<open>\<open>h\<close> is the graph as it is then, \<open>g\<close> the graph at the start: they have the same edges out of the
  event.\<close>

lemma below_clock:
  assumes "sg_wf g" "acyclic (sg_edge g)" "sg_wf h" "sg_same g h" "i < sg_n g" "rows_ok g S b" "i \<notin> S"
    "{s. (i, s) \<in> sg_edge h} = {s. (i, s) \<in> sg_edge g}" "{s. (i, s) \<in> sg_edge g} \<subseteq> S" "S \<subseteq> {..<sg_n g}"
  shows "\<exists>b'. below_clock h (map (\<lambda>evs. int (length evs) + 1) (sg_by_pid g)) b i (sg_ev h i) = Inr b' \<and> rows_ok g (insert i S) b'"
proof -
  let ?n = "sg_n g" and ?P = "length (sg_by_pid g)" and ?top = "map (\<lambda>evs. int (length evs) + 1) (sg_by_pid g)"
  note same = sg_sameD [OF assms(4)]
  have b: "vv_ok ?n b" "vv_clock_size b = ?P" using assms(6) by (simp_all add: rows_ok_def)
  obtain r where r: "vv_get b i = Inr r" "length r = ?P" using vv_get_ok [OF b(1) assms(5)] b(2) by auto
  define r0 where "r0 = (vr_assign r ?top)[ev_pid_of g i := int (ev_idx_of g i)]"
  let ?b = "vv_put b i r0"
  have l0: "length r0 = vv_clock_size b" using r(2) b(2) by (simp add: r0_def vr_assign_def)
  obtain ss where ss: "successors h i (sg_ev h i) = Inr ss" "set ss = {s. (i, s) \<in> sg_edge g}"
    using successors_spec [OF assms(3), of i] assms(5,8) same(1) by auto
  have run: "below_clock h ?top b i (sg_ev h i) = fold_r (below_sub i) ?b ss"
    using r ss(1) wf_event(1) [OF assms(1,5)] same(1) by (simp add: below_clock_def r0_def vr_assign_def)
  note ok = vv_put_ok [OF b(1) assms(5) l0] and get = vv_get_put [OF b(1) assms(5) _ l0]
  have sin: "\<forall>s\<in>set ss. s < ?n \<and> s \<noteq> i" using ss(2) assms(7,9,10) by auto
  have ok': "vv_ok ?n ?b" "vv_clock_size ?b = ?P" "vv_get ?b i = Inr r0" "length r0 = ?P"
    using ok b(2) get [OF assms(5)] l0 by simp_all
  obtain b' r' where b': "fold_r (below_sub i) ?b ss = Inr b'" "vv_ok ?n b'" "vv_clock_size b' = ?P" "vv_get b' i = Inr r'"
    "length r' = ?P" "\<forall>j<?n. j \<noteq> i \<longrightarrow> vv_get b' j = vv_get ?b j"
    "\<forall>p<?P. \<forall>x. r' ! p \<le> x \<longleftrightarrow> r0 ! p \<le> x \<or> (\<exists>s\<in>set ss. \<exists>q. vv_get ?b s = Inr q \<and> q ! p \<le> x)"
    using fold_below [OF ok'(1,2) assms(5) sin ok'(3,4)] by blast
  have other: "vv_get b' j = vv_get b j" if "j \<in> S" for j
  proof -
    have "j < ?n" "j \<noteq> i" using that assms(7,10) by auto
    thus ?thesis using b'(6) get [of j] by simp
  qed
  have row0: "r0 ! p = (if p = ev_pid_of g i then int (ev_idx_of g i) else int (length (sg_by_pid g ! p)) + 1)" if "p < ?P" for p
    using that r(2) by (simp add: r0_def vr_assign_def vc_at_def nth_list_update)
  have rows: "r' ! p \<le> x \<longleftrightarrow> r0 ! p \<le> x \<or> (\<exists>s q. (i, s) \<in> sg_edge g \<and> vv_get b s = Inr q \<and> exact_row g s q \<and> q ! p \<le> x)" if p: "p < ?P" for p x
  proof -
    have "(\<exists>q. vv_get ?b s = Inr q \<and> q ! p \<le> x) \<longleftrightarrow> (\<exists>q. vv_get b s = Inr q \<and> exact_row g s q \<and> q ! p \<le> x)" if "s \<in> set ss" for s
    proof -
      have "s \<in> S" "s < ?n" "s \<noteq> i" using that ss(2) assms(9) sin by auto
      moreover obtain q where "vv_get b s = Inr q" "exact_row g s q" using assms(6) \<open>s \<in> S\<close> by (auto simp: rows_ok_def)
      ultimately show ?thesis using get [of s] by auto
    qed
    hence "(\<exists>s\<in>set ss. \<exists>q. vv_get ?b s = Inr q \<and> q ! p \<le> x) \<longleftrightarrow> (\<exists>s\<in>set ss. \<exists>q. vv_get b s = Inr q \<and> exact_row g s q \<and> q ! p \<le> x)"
      by (rule bex_cong [OF refl])
    thus ?thesis unfolding b'(7) [rule_format, OF p] ss(2) by blast
  qed
  have "exact_row g i r'"
    unfolding exact_row_def
  proof (intro conjI allI impI)
    show "length r' = ?P" by (rule b'(5))
    fix p assume p: "p < ?P"
    have "\<not> r' ! p \<le> 0"
    proof
      assume "r' ! p \<le> 0"
      then consider "r0 ! p \<le> 0" | s q where "exact_row g s q" "q ! p \<le> 0" using rows [OF p] by blast
      thus False
      proof cases
        case 1
        thus False using row0 [OF p] wf_event(2) [OF assms(1,5)] by (auto split: if_splits)
      next
        case 2
        thus False using p unfolding exact_row_def by (metis not_less)
      qed
    qed
    thus "0 < r' ! p" by simp
    fix x
    let ?T = "sg_by_pid g ! p"
    let ?hit = "\<lambda>j. \<exists>k. 0 < k \<and> k \<le> x \<and> k \<le> length ?T \<and> (j, ?T ! (k - 1)) \<in> (sg_edge g)\<^sup>*"
    have ex: "q ! p \<le> int x \<longleftrightarrow> length ?T < x \<or> ?hit s" if "exact_row g s q" for s q using that p by (simp add: exact_row_def)
    have all: "\<exists>q. vv_get b s = Inr q \<and> exact_row g s q" if "(i, s) \<in> sg_edge g" for s
    proof -
      have "s \<in> S" using assms(9) that by blast
      thus ?thesis using assms(6) by (simp add: rows_ok_def)
    qed
    have own: "r0 ! p \<le> int x \<longleftrightarrow> length ?T < x \<or> (\<exists>k. 0 < k \<and> k \<le> x \<and> k \<le> length ?T \<and> ?T ! (k - 1) = i)"
    proof (cases "p = ev_pid_of g i")
      case True
      note e = wf_event [OF assms(1,5), folded True]
      have u: "k = ev_idx_of g i" if "0 < k" "k \<le> length ?T" "?T ! (k - 1) = i" for k
        using wf_thread(2) [OF assms(1) p, of "k - 1"] that by simp
      have "ev_idx_of g i \<le> x \<longleftrightarrow> length ?T < x \<or> (\<exists>k. 0 < k \<and> k \<le> x \<and> k \<le> length ?T \<and> ?T ! (k - 1) = i)"
      proof
        show "ev_idx_of g i \<le> x" if h: "length ?T < x \<or> (\<exists>k. 0 < k \<and> k \<le> x \<and> k \<le> length ?T \<and> ?T ! (k - 1) = i)"
        proof (cases "length ?T < x")
          case True
          thus ?thesis using e(3) by simp
        next
          case False
          then obtain k where "0 < k" "k \<le> x" "k \<le> length ?T" "?T ! (k - 1) = i" using h by blast
          thus ?thesis using u [of k] by metis
        qed
      qed (use e(2-4) in blast)
      thus ?thesis using row0 [OF p] True by simp
    next
      case False
      have "ev_pid_of g (?T ! (k - 1)) = p" if "0 < k" "k \<le> length ?T" for k
        using wf_thread(2) [OF assms(1) p, of "k - 1"] that by simp
      thus ?thesis using row0 [OF p] False by auto
    qed
    have "(\<exists>q. vv_get b s = Inr q \<and> exact_row g s q \<and> q ! p \<le> int x) \<longleftrightarrow> length ?T < x \<or> ?hit s" if s: "(i, s) \<in> sg_edge g" for s
    proof -
      obtain q where q: "vv_get b s = Inr q" "exact_row g s q" using all [OF s] by blast
      show ?thesis unfolding ex [OF q(2), symmetric] using q by auto
    qed
    hence "(\<exists>s q. (i, s) \<in> sg_edge g \<and> vv_get b s = Inr q \<and> exact_row g s q \<and> q ! p \<le> int x) \<longleftrightarrow>
        (\<exists>s. (i, s) \<in> sg_edge g \<and> (length ?T < x \<or> ?hit s))" by (metis (no_types, lifting))
    hence "r' ! p \<le> int x \<longleftrightarrow> r0 ! p \<le> int x \<or> (\<exists>s. (i, s) \<in> sg_edge g \<and> (length ?T < x \<or> ?hit s))"
      unfolding rows [OF p] by simp
    also have "\<dots> \<longleftrightarrow> length ?T < x \<or> ?hit i"
    proof -
      have "?hit i \<longleftrightarrow> (\<exists>k. 0 < k \<and> k \<le> x \<and> k \<le> length ?T \<and>
          (i = ?T ! (k - 1) \<or> (\<exists>s. (i, s) \<in> sg_edge g \<and> (s, ?T ! (k - 1)) \<in> (sg_edge g)\<^sup>*)))"
        by (intro ex_cong1 conj_cong refl rtrancl_first)
      also have "\<dots> \<longleftrightarrow> (\<exists>k. 0 < k \<and> k \<le> x \<and> k \<le> length ?T \<and> ?T ! (k - 1) = i) \<or> (\<exists>s. (i, s) \<in> sg_edge g \<and> ?hit s)"
        by (safe; blast)
      finally show ?thesis using own by blast
    qed
    finally show "r' ! p \<le> int x \<longleftrightarrow> length ?T < x \<or> ?hit i" .
  qed
  hence "rows_ok g (insert i S) b'" using b'(2-4) other assms(6) unfolding rows_ok_def by auto
  thus ?thesis using run b'(1) by auto
qed

end
