(* ===== verification/SatMissed.thy ===== *)
theory SatMissed
  imports Prelude SatReverse
begin

text \<open>
  The edges reverse saturation adds, and its whole: on a graph without cycles it fails no assertion,
  keeps the executions, and puts the new readers of old writes in place.
\<close>

section \<open>Edges that keep the executions\<close>

definition rev_ext :: "sat_graph \<Rightarrow> sat_graph \<Rightarrow> bool" where
  "rev_ext g h = (sg_same g h \<and> sg_wf h \<and> sg_clocks h = sg_clocks g \<and> sg_edge g \<subseteq> sg_edge h \<and>
     (\<forall>pos. sg_exec h pos = sg_exec g pos) \<and> set (sg_queue g) \<subseteq> set (sg_queue h) \<and>
     (\<forall>(a, b)\<in>sg_edge h - sg_edge g. b \<in> set (sg_queue h)))"

lemma rev_extD:
  assumes "rev_ext g h"
  shows "sg_same g h" "sg_wf h" "sg_clocks h = sg_clocks g" "sg_edge g \<subseteq> sg_edge h" "sg_exec h pos = sg_exec g pos"
    "set (sg_queue g) \<subseteq> set (sg_queue h)" "(a, b) \<in> sg_edge h \<Longrightarrow> (a, b) \<notin> sg_edge g \<Longrightarrow> b \<in> set (sg_queue h)"
  using assms by (auto simp: rev_ext_def)

lemma rev_ext_refl: "sg_wf g \<Longrightarrow> rev_ext g g"
  by (simp add: rev_ext_def)

lemma rev_ext_add_edges:
  assumes "rev_ext g h" "set es \<subseteq> {..<sg_n g} \<times> {..<sg_n g}" "\<forall>pos a b. sg_exec g pos \<longrightarrow> (a, b) \<in> set es \<longrightarrow> pos a < pos b"
  shows "\<exists>h'. add_edges h es = Inr h' \<and> rev_ext g h' \<and> sg_edge h' = sg_edge h \<union> set es"
proof -
  note e = rev_extD [OF assms(1)] and same = sg_sameD [OF rev_extD(1) [OF assms(1)]]
  obtain h' where h': "add_edges h es = Inr h'" "sg_wf h'" "sg_edge h' = sg_edge h \<union> set es" "sg_same h h'"
    "sg_clocks h' = sg_clocks h" "set (sg_queue h') = set (sg_queue h) \<union> snd ` set es"
    using add_edges [OF e(2), of es] assms(2) same(1) by auto
  have "sg_exec h' pos = sg_exec g pos" for pos
  proof
    show "sg_exec h' pos \<Longrightarrow> sg_exec g pos"
      using exec_fewer_edges [OF sg_sameD(1) [OF h'(4)], of pos] h'(3) e(5) by blast
    assume x: "sg_exec g pos"
    hence "\<forall>(a, b)\<in>set es. pos a < pos b" using assms(3) by blast
    thus "sg_exec h' pos" using exec_more_edges [OF sg_sameD(1) [OF h'(4)] h'(3)] e(5) x by blast
  qed
  moreover have "b \<in> set (sg_queue h')" if "(a, b) \<in> sg_edge h'" "(a, b) \<notin> sg_edge g" for a b
    using that e(7) h'(3,6) by force
  ultimately have "rev_ext g h'" using h' e sg_same_trans [OF e(1) h'(4)] by (auto simp: rev_ext_def)
  thus ?thesis using h'(1,3) by blast
qed

text \<open>Readers of a write come before what comes after the write and overwrites it.\<close>

lemma exec_reader:
  assumes "sg_exec g pos" "sg_wf g" "i < sg_n g" "r \<in> set (se_readers (sg_ev g i))" "w \<in> rivals g i" "(i, w) \<in> (sg_edge g)\<^sup>*" "r \<noteq> w"
  shows "pos r < pos w"
proof -
  note rd = wf_reader [OF assms(2-4)]
  have w: "w < sg_n g" "w \<noteq> i" "se_store (sg_ev g w)" "same_cell g w i" using assms(5) by (simp_all add: rivals_def)
  have iw: "pos i < pos w" using exec_path_less [OF assms(1,6)] w(2) by simp
  have "w \<in> rivals g r" using w(1,3,4) rd(5) assms(7) by (simp add: rivals_def same_cell_def)
  hence "pos w < pos r \<longrightarrow> pos w \<le> pos i" using assms(1) rd(1-3) by (auto simp: sg_exec_def reads_ok_def)
  moreover have "pos w \<noteq> pos r" using assms(1,7) rd(1) w(1) by (auto simp: sg_exec_def inj_on_def)
  ultimately show ?thesis using iw by linarith
qed

text \<open>The new readers of a write come before the stores of a thread that must follow the write.\<close>

definition readers_before :: "sat_graph \<Rightarrow> sat_graph \<Rightarrow> nat \<Rightarrow> nat \<Rightarrow> bool" where
  "readers_before g h i p = (\<forall>w\<in>rivals g i. ev_pid_of g w = p \<longrightarrow> (i, w) \<in> (sg_edge g)\<^sup>* \<longrightarrow>
     (\<forall>r\<in>set (new_readers g i). (r, w) \<in> (sg_edge h)\<^sup>*))"

lemma readers_before_mono:
  assumes "readers_before g h i p" "sg_edge h \<subseteq> sg_edge h'"
  shows "readers_before g h' i p"
  using assms(1) rtrancl_mono [OF assms(2)] unfolding readers_before_def by blast

lemma reach_closed:
  assumes "succ_first g (xs @ i # ys)" "(i, w) \<in> (sg_edge g)\<^sup>*"
  shows "w \<in> insert i (set xs)"
  using assms(2)
proof (induction rule: rtrancl_induct)
  case (step v w)
  have "{s. (i, s) \<in> sg_edge g} \<subseteq> set xs" using assms(1) unfolding succ_first_def by blast
  moreover have "{s. (v, s) \<in> sg_edge g} \<subseteq> set xs" if v: "v \<in> set xs"
  proof -
    obtain as bs where "xs = as @ v # bs" using split_list [OF v] by blast
    hence "xs @ i # ys = as @ v # (bs @ i # ys)" by simp
    hence "{s. (v, s) \<in> sg_edge g} \<subseteq> set as" using assms(1) unfolding succ_first_def by blast
    thus ?thesis using \<open>xs = as @ v # bs\<close> by auto
  qed
  ultimately show ?case using step by blast
qed simp

lemma reverse_pid:
  assumes "sg_wf g" "acyclic (sg_edge g)" "rev_ext g h" "i < sg_n g" "rows_ok g S b" "i \<in> S"
    "\<forall>w. (i, w) \<in> (sg_edge g)\<^sup>* \<longrightarrow> w \<in> S" "p < length (sg_by_pid g)"
  shows "\<exists>h'. reverse_pid b i (sg_ev g i) (new_readers g i) h p = Inr h' \<and> rev_ext g h' \<and>
    (\<exists>E. sg_edge h' = sg_edge h \<union> E \<and> E \<subseteq> set (se_readers (sg_ev g i)) \<times> UNIV) \<and> readers_before g h' i p"
proof -
  note e = rev_extD [OF assms(3)] and same = sg_sameD [OF rev_extD(1) [OF assms(3)]]
  let ?T = "sg_by_pid g ! p"
  obtain r where r: "vv_get b i = Inr r" "exact_row g i r" using assms(5,6) by (auto simp: rows_ok_def)
  define x where "x = nat (r ! p)"
  have rpos: "0 < r ! p" using r(2) assms(8) by (simp add: exact_row_def)
  hence x: "0 < x" "r ! p = int x" by (simp_all add: x_def)
  have nx: "nat (r ! p) = x" by (simp add: x_def)
  have len: "length r = length (sg_by_pid g)" using r(2) by (simp add: exact_row_def)
  have reach: "int x \<le> int y \<longleftrightarrow> length ?T < y \<or> (\<exists>k. 0 < k \<and> k \<le> y \<and> k \<le> length ?T \<and> (i, ?T ! (k - 1)) \<in> (sg_edge g)\<^sup>*)" for y
    using r(2) assms(8) unfolding exact_row_def x(2) [symmetric] by blast
  define m where "m = map_get [] (sg_writes_by g ! p) (se_addr (sg_ev g i))"
  note tw = thread_writes [OF assms(1,8), where i = i, folded m_def]
  have run: "reverse_pid b i (sg_ev g i) (new_readers g i) h p =
      (if x > length ?T then Inr h
       else case first_write m (?T ! (x - 1)) i of
           None \<Rightarrow> Inr h
         | Some w \<Rightarrow>
             assert_r (w \<noteq> i)
              (bind_r (at_r (sg_events h) w) (\<lambda>we.
               bind_r (vv_get b w) (\<lambda>wc.
               bind_r (vr_lt r wc) (\<lambda>lt.
                 assert_r (se_store we \<and> se_addr we = se_addr (sg_ev g i) \<and> lt)
                  (add_edges h (map (\<lambda>r. (r, w)) (filter (\<lambda>r. r \<noteq> w) (new_readers g i)))))))))"
    using r(1) assms(8) rpos nx len same wf_lengths(4) [OF assms(1)]
    by (simp add: reverse_pid_def maybe_get_process_event_def m_def)
  have idle: ?thesis if "reverse_pid b i (sg_ev g i) (new_readers g i) h p = Inr h"
    "\<And>w. w \<in> rivals g i \<Longrightarrow> ev_pid_of g w = p \<Longrightarrow> (i, w) \<in> (sg_edge g)\<^sup>* \<Longrightarrow> False"
  proof -
    have "readers_before g h i p" using that(2) unfolding readers_before_def by blast
    thus ?thesis using that(1) assms(3) by (intro exI [of _ h]) auto
  qed
  have late: "?T ! (x - 1) \<le> w \<and> x \<le> length ?T" if w: "w \<in> rivals g i" "ev_pid_of g w = p" "(i, w) \<in> (sg_edge g)\<^sup>*" for w
  proof -
    have wn: "w < sg_n g" using w(1) by (simp add: rivals_def)
    note ew = wf_event [OF assms(1) wn, unfolded w(2)]
    have "x \<le> ev_idx_of g w" using exact_row_event [OF assms(1) r(2) wn w(3)] w(2) x(2) by simp
    moreover have "?T ! (x - 1) \<le> ?T ! (ev_idx_of g w - 1)"
    proof (cases "x = ev_idx_of g w")
      case False
      hence "x - 1 < ev_idx_of g w - 1" "ev_idx_of g w - 1 < length ?T" using \<open>x \<le> ev_idx_of g w\<close> x(1) ew(2,3) by linarith+
      thus ?thesis using sorted_wrt_less_nth_mono [OF wf_thread_sorted [OF assms(1,8)]] less_imp_le by blast
    qed simp
    ultimately show ?thesis using ew(3,4) by simp
  qed
  show ?thesis
  proof (cases "x > length ?T")
    case True
    show ?thesis
    proof (rule idle)
      show "reverse_pid b i (sg_ev g i) (new_readers g i) h p = Inr h" using run True by simp
    qed (use late True in force)
  next
    case False
    let ?v = "?T ! (x - 1)"
    have "\<exists>k. 0 < k \<and> k \<le> x \<and> k \<le> length ?T \<and> (i, ?T ! (k - 1)) \<in> (sg_edge g)\<^sup>*" using reach [of x] False by simp
    moreover have "\<not> (\<exists>k. 0 < k \<and> k \<le> x - 1 \<and> k \<le> length ?T \<and> (i, ?T ! (k - 1)) \<in> (sg_edge g)\<^sup>*)"
      using reach [of "x - 1"] x(1) by simp
    ultimately have "\<exists>k. k = x \<and> (i, ?T ! (k - 1)) \<in> (sg_edge g)\<^sup>*"
      by (metis One_nat_def Suc_pred le_neq_implies_less less_Suc_eq_le x(1))
    hence iv: "(i, ?v) \<in> (sg_edge g)\<^sup>*" by simp
    have xl: "x - 1 < length ?T" using False x(1) by linarith
    note v = wf_thread [OF assms(1,8) xl]
    note fw = first_write_spec [OF tw(1), of ?v i]
    show ?thesis
    proof (cases "first_write m ?v i")
      case None
      show ?thesis
      proof (rule idle)
        show "reverse_pid b i (sg_ev g i) (new_readers g i) h p = Inr h" using run False None by simp
        fix w assume "w \<in> rivals g i" "ev_pid_of g w = p" "(i, w) \<in> (sg_edge g)\<^sup>*"
        thus False using fw None late [of w] tw(2) [of w] by auto
      qed
    next
      case (Some w)
      hence w: "w \<in> rivals g i" "ev_pid_of g w = p" "?v \<le> w" and wmin: "\<And>u. u \<in> set m \<Longrightarrow> ?v \<le> u \<Longrightarrow> u \<noteq> i \<Longrightarrow> w \<le> u"
        using fw tw(2) [of w] by auto
      have wn: "w < sg_n g" "w \<noteq> i" "se_store (sg_ev g w)" "se_addr (sg_ev g w) = se_addr (sg_ev g i)"
        using w(1) by (simp_all add: rivals_iff)
      have "ev_idx_of g ?v \<le> ev_idx_of g w" using thread_le_iff [OF assms(1) v(1) wn(1)] v(2) w(2,3) by simp
      hence "(?v, w) \<in> (sg_edge g)\<^sup>*" using wf_same_thread_path [OF assms(1) v(1) wn(1)] v(2) w(2) by simp
      hence iw: "(i, w) \<in> (sg_edge g)\<^sup>*" using iv by (rule rtrancl_trans [rotated])
      obtain q where q: "vv_get b w = Inr q" "exact_row g w q" using assms(5,7) iw by (auto simp: rows_ok_def)
      have "vr_lt r q = Inr True"
        using exact_row_below [OF assms(1,2) r(2) q(2) _ assms(4)] iw wn(2) by (metis rtranclD)
      let ?es = "map (\<lambda>r. (r, w)) (filter (\<lambda>r. r \<noteq> w) (new_readers g i))"
      have nr: "u \<in> set (se_readers (sg_ev g i))" if "u \<in> set (new_readers g i)" for u using that by (simp add: new_readers_def)
      have res: "reverse_pid b i (sg_ev g i) (new_readers g i) h p = add_edges h ?es"
        using run False Some wn q(1) \<open>vr_lt r q = Inr True\<close> same(1) by simp
      have es: "set ?es \<subseteq> {..<sg_n g} \<times> {..<sg_n g}" using nr wf_reader(1) [OF assms(1,4)] wn(1) by auto
      have ex: "pos a < pos c" if "sg_exec g pos" "(a, c) \<in> set ?es" for pos a c
      proof -
        have "c = w" "a \<in> set (se_readers (sg_ev g i))" "a \<noteq> w" using that(2) nr by auto
        thus ?thesis using exec_reader [OF that(1) assms(1,4) _ w(1) iw] by simp
      qed
      obtain h' where h': "add_edges h ?es = Inr h'" "rev_ext g h'" "sg_edge h' = sg_edge h \<union> set ?es"
        using rev_ext_add_edges [OF assms(3) es] ex by blast
      have "readers_before g h' i p"
        unfolding readers_before_def
      proof (intro ballI impI)
        fix u r assume u: "u \<in> rivals g i" "ev_pid_of g u = p" "(i, u) \<in> (sg_edge g)\<^sup>*" and r: "r \<in> set (new_readers g i)"
        have un: "u < sg_n g" "u \<noteq> i" using u(1) by (simp_all add: rivals_def)
        have "w \<le> u" using wmin [of u] tw(2) [of u] u late [OF u] un by simp
        hence "ev_idx_of g w \<le> ev_idx_of g u" using thread_le_iff [OF assms(1) wn(1) un(1)] u(2) w(2) by simp
        hence "(w, u) \<in> (sg_edge g)\<^sup>*" using wf_same_thread_path [OF assms(1) wn(1) un(1)] u(2) w(2) by simp
        hence "(w, u) \<in> (sg_edge h')\<^sup>*" using rtrancl_mono [OF rev_extD(4) [OF h'(2)]] by blast
        moreover have "r = w \<or> (r, w) \<in> sg_edge h'" using r h'(3) by auto
        ultimately show "(r, u) \<in> (sg_edge h')\<^sup>*" by (auto intro: converse_rtrancl_into_rtrancl)
      qed
      moreover have "set ?es \<subseteq> set (se_readers (sg_ev g i)) \<times> UNIV" using nr by auto
      ultimately show ?thesis using res h' by metis
    qed
  qed
qed

section \<open>The loop\<close>

lemma reverse_pids:
  assumes "sg_wf g" "acyclic (sg_edge g)" "rev_ext g h" "i < sg_n g" "rows_ok g S b" "i \<in> S"
    "\<forall>w. (i, w) \<in> (sg_edge g)\<^sup>* \<longrightarrow> w \<in> S" "set ps \<subseteq> {..<length (sg_by_pid g)}"
  shows "\<exists>h'. fold_r (reverse_pid b i (sg_ev g i) (new_readers g i)) h ps = Inr h' \<and> rev_ext g h' \<and>
    (\<exists>E. sg_edge h' = sg_edge h \<union> E \<and> E \<subseteq> set (se_readers (sg_ev g i)) \<times> UNIV) \<and> (\<forall>p\<in>set ps. readers_before g h' i p)"
  using assms(3,8)
proof (induction ps arbitrary: h)
  case Nil
  thus ?case by (intro exI [of _ h]) auto
next
  case (Cons p ps)
  have p: "p < length (sg_by_pid g)" using Cons.prems(2) by simp
  obtain h1 E1 where 1: "reverse_pid b i (sg_ev g i) (new_readers g i) h p = Inr h1" "rev_ext g h1"
    "sg_edge h1 = sg_edge h \<union> E1" "E1 \<subseteq> set (se_readers (sg_ev g i)) \<times> UNIV" "readers_before g h1 i p"
    using reverse_pid [OF assms(1,2) Cons.prems(1) assms(4-7) p] by blast
  obtain h2 E2 where 2: "fold_r (reverse_pid b i (sg_ev g i) (new_readers g i)) h1 ps = Inr h2" "rev_ext g h2"
    "sg_edge h2 = sg_edge h1 \<union> E2" "E2 \<subseteq> set (se_readers (sg_ev g i)) \<times> UNIV" "\<forall>p\<in>set ps. readers_before g h2 i p"
    using Cons.IH [OF 1(2)] Cons.prems(2) by auto
  have "readers_before g h2 i p" using readers_before_mono [OF 1(5)] 2(3) by blast
  moreover have "sg_edge h2 = sg_edge h \<union> (E1 \<union> E2)" "E1 \<union> E2 \<subseteq> set (se_readers (sg_ev g i)) \<times> UNIV" using 1(3,4) 2(3,4) by auto
  moreover have "fold_r (reverse_pid b i (sg_ev g i) (new_readers g i)) h (p # ps) = Inr h2" using 1(1) 2(1) by simp
  ultimately show ?case using 2(2,5) by (intro exI [of _ h2]) (metis list.set_cases set_ConsD)
qed

definition in_place :: "sat_graph \<Rightarrow> sat_graph \<Rightarrow> nat \<Rightarrow> bool" where
  "in_place g h i = (se_store (sg_ev g i) \<longrightarrow> (\<forall>p<length (sg_by_pid g). readers_before g h i p))"

lemma reverse_one:
  assumes "sg_wf g" "acyclic (sg_edge g)" "rev_ext g h" "rows_ok g (set xs) b" "succ_first g (xs @ i # ys)" "distinct (xs @ i # ys)"
    "set (xs @ i # ys) \<subseteq> {..<sg_n g}" "sg_edge h - sg_edge g \<subseteq> set xs \<times> UNIV"
  shows "\<exists>b' h'. reverse_one (map (\<lambda>evs. int (length evs) + 1) (sg_by_pid g)) (b, h) i = Inr (b', h') \<and> rev_ext g h' \<and>
    rows_ok g (insert i (set xs)) b' \<and> sg_edge h' - sg_edge g \<subseteq> insert i (set xs) \<times> UNIV \<and> sg_edge h \<subseteq> sg_edge h' \<and> in_place g h' i"
proof -
  note e = rev_extD [OF assms(3)] and same = sg_sameD [OF rev_extD(1) [OF assms(3)]]
  have i: "i < sg_n g" "i \<notin> set xs" using assms(6,7) by simp_all
  have sub: "{s. (i, s) \<in> sg_edge g} \<subseteq> set xs" using assms(5) unfolding succ_first_def by blast
  have "(i, s) \<in> sg_edge h \<longleftrightarrow> (i, s) \<in> sg_edge g" for s using assms(8) i(2) e(4) by blast
  hence eq: "{s. (i, s) \<in> sg_edge h} = {s. (i, s) \<in> sg_edge g}" by simp
  have xs: "set xs \<subseteq> {..<sg_n g}" using assms(7) by simp
  obtain b' where b': "below_clock h (map (\<lambda>evs. int (length evs) + 1) (sg_by_pid g)) b i (sg_ev h i) = Inr b'" "rows_ok g (insert i (set xs)) b'"
    using below_clock [OF assms(1,2) e(2,1) i(1) assms(4) i(2) eq sub xs] by blast
  have nr: "filter (\<lambda>r. r \<ge> sg_until h) (se_readers (sg_ev h i)) = new_readers g i" using same by (simp add: new_readers_def)
  have run: "reverse_one (map (\<lambda>evs. int (length evs) + 1) (sg_by_pid g)) (b, h) i =
      (if se_store (sg_ev g i) \<and> new_readers g i \<noteq> []
       then bind_r (fold_r (reverse_pid b' i (sg_ev g i) (new_readers g i)) h [0..<vv_clock_size b']) (\<lambda>g. Inr (b', g)) else Inr (b', h))"
    using b'(1) i(1) same(1) nr by (simp add: reverse_one_def Let_def)
  show ?thesis
  proof (cases "se_store (sg_ev g i) \<and> new_readers g i \<noteq> []")
    case False
    hence "in_place g h i" by (auto simp: in_place_def readers_before_def)
    thus ?thesis using run False b'(2) assms(3,8) by (intro exI [of _ b'] exI [of _ h]) auto
  next
    case True
    have cs: "vv_clock_size b' = length (sg_by_pid g)" using b'(2) by (simp add: rows_ok_def)
    have reach: "\<forall>w. (i, w) \<in> (sg_edge g)\<^sup>* \<longrightarrow> w \<in> insert i (set xs)" using reach_closed [OF assms(5)] by blast
    have ps: "set [0..<vv_clock_size b'] \<subseteq> {..<length (sg_by_pid g)}" using cs by auto
    obtain h' E where h': "fold_r (reverse_pid b' i (sg_ev g i) (new_readers g i)) h [0..<vv_clock_size b'] = Inr h'" "rev_ext g h'"
      "sg_edge h' = sg_edge h \<union> E" "E \<subseteq> set (se_readers (sg_ev g i)) \<times> UNIV" "\<forall>p\<in>set [0..<vv_clock_size b']. readers_before g h' i p"
      using reverse_pids [OF assms(1-3) i(1) b'(2) insertI1 reach ps] by blast
    have "r \<in> set xs" if "r \<in> set (se_readers (sg_ev g i))" for r using sub that wf_succ [OF assms(1) i(1)] by blast
    hence "sg_edge h' - sg_edge g \<subseteq> insert i (set xs) \<times> UNIV" using assms(8) h'(3,4) by blast
    moreover have "in_place g h' i" using h'(5) cs by (simp add: in_place_def)
    ultimately show ?thesis using run True h'(1-3) b'(2) by (intro exI [of _ b'] exI [of _ h']) auto
  qed
qed

lemma in_place_mono: "in_place g h i \<Longrightarrow> sg_edge h \<subseteq> sg_edge h' \<Longrightarrow> in_place g h' i"
  using readers_before_mono unfolding in_place_def by blast

lemma reverse_loop:
  assumes "sg_wf g" "acyclic (sg_edge g)" "rev_ext g h" "rows_ok g (set xs) b" "succ_first g (xs @ ys)" "distinct (xs @ ys)"
    "set (xs @ ys) \<subseteq> {..<sg_n g}" "sg_edge h - sg_edge g \<subseteq> set xs \<times> UNIV"
  shows "\<exists>b' h'. fold_r (reverse_one (map (\<lambda>evs. int (length evs) + 1) (sg_by_pid g))) (b, h) ys = Inr (b', h') \<and> rev_ext g h' \<and>
    sg_edge h \<subseteq> sg_edge h' \<and> (\<forall>i\<in>set ys. in_place g h' i)"
  using assms(3-8)
proof (induction ys arbitrary: xs b h)
  case (Cons i ys)
  obtain b1 h1 where 1: "reverse_one (map (\<lambda>evs. int (length evs) + 1) (sg_by_pid g)) (b, h) i = Inr (b1, h1)" "rev_ext g h1"
    "rows_ok g (insert i (set xs)) b1" "sg_edge h1 - sg_edge g \<subseteq> insert i (set xs) \<times> UNIV" "sg_edge h \<subseteq> sg_edge h1" "in_place g h1 i"
    using reverse_one [OF assms(1,2) Cons.prems] by blast
  obtain b2 h2 where 2: "fold_r (reverse_one (map (\<lambda>evs. int (length evs) + 1) (sg_by_pid g))) (b1, h1) ys = Inr (b2, h2)" "rev_ext g h2"
    "sg_edge h1 \<subseteq> sg_edge h2" "\<forall>i\<in>set ys. in_place g h2 i"
    using Cons.IH [OF 1(2), of "xs @ [i]" b1] 1(3,4) Cons.prems(3-5) by auto
  thus ?case using 1(1,5) in_place_mono [OF 1(6) 2(3)] by auto
qed auto

section \<open>The whole\<close>

text \<open>The graph between two saturations: what the clocks count was there at the last one, and the
  readers from then are in place.\<close>

definition counted_old :: "sat_graph \<Rightarrow> bool" where
  "counted_old g = (\<forall>i < sg_n g. counted g i \<subseteq> {..<sg_until g})"

definition sat_ready :: "sat_graph \<Rightarrow> bool" where
  "sat_ready g = (sg_wf g \<and> sg_sound g \<and> sg_under g \<and> sg_settled g \<and> sg_coherent g \<and> counted_old g \<and> sg_from_read {..<sg_until g} g)"

lemma sat_readyD:
  assumes "sat_ready g"
  shows "sg_wf g" "sg_sound g" "sg_under g" "sg_settled g" "sg_coherent g" "counted_old g" "sg_from_read {..<sg_until g} g"
  using assms by (simp_all add: sat_ready_def)

text \<open>More edges whose ends are queued leave the clocks valid.\<close>

lemma ready_grown:
  assumes "sat_ready g" "sg_same g h" "sg_wf h" "sg_clocks h = sg_clocks g" "sg_edge g \<subseteq> sg_edge h" "set (sg_queue g) \<subseteq> set (sg_queue h)"
    "\<forall>(a, b)\<in>sg_edge h - sg_edge g. b \<in> set (sg_queue h)"
  shows "sg_sound h" "sg_under h" "sg_settled h" "sg_coherent h" "sat_ready h"
proof -
  note same = sg_sameD [OF assms(2)] and r = sat_readyD [OF assms(1)]
  have seen: "seen_by h w j = seen_by g w j" for w j by (simp add: seen_by_def same_rivals [OF same(1)] same(1) assms(4))
  have path: "(a, b) \<in> (sg_edge g)\<^sup>* \<Longrightarrow> (a, b) \<in> (sg_edge h)\<^sup>*" for a b using rtrancl_mono [OF assms(5)] by blast
  show so: "sg_sound h" using r(2) sound_mono [OF _ same(2) assms(5)] by (simp add: sg_sound_def same(1) assms(4))
  show un: "sg_under h" using r(3) assms(5) unfolding sg_under_def same(1) assms(4) by blast
  show se: "sg_settled h"
    unfolding sg_settled_def
  proof (intro allI impI)
    fix i assume i: "i < sg_n h" "i \<notin> set (sg_queue h)"
    have "settled g i" using r(4) i assms(6) same(1) by (auto simp: sg_settled_def)
    moreover have "(j, i) \<in> sg_edge g" if "(j, i) \<in> sg_edge h" for j using assms(7) that i(2) by blast
    ultimately show "settled h i" by (auto simp: settled_def same(1) assms(4))
  qed
  show co: "sg_coherent h" using r(5) path unfolding sg_coherent_def seen same(1) by blast
  have "sg_from_read {..<sg_until h} h" using r(7) path unfolding sg_from_read_def seen same(1,4) by blast
  moreover have "counted_old h" using r(6) by (simp add: counted_old_def counted_def same(1,4) assms(4))
  ultimately show "sat_ready h" using assms(3) so un se co by (simp add: sat_ready_def)
qed

lemma ready_ext:
  assumes "sat_ready g" "rev_ext g h"
  shows "sg_sound h" "sg_under h" "sg_settled h" "sg_coherent h"
  using ready_grown(1-4) [OF assms(1)] assms(2) unfolding rev_ext_def by blast+

lemma from_read_later:
  assumes "sg_from_read UNIV g"
  shows "sg_from_read_later g"
  using assms unfolding sg_from_read_def sg_from_read_later_def by blast

lemma until_inv:
  assumes "sg_wf h" "sg_sound h" "sg_under h" "sg_settled h" "sg_coherent h" "sg_from_read UNIV h"
  defines "g' \<equiv> h\<lparr>sg_until := sg_n h\<rparr>"
  shows "sat_inv g'" "sg_edge g' = sg_edge h" "sg_exec g' pos = sg_exec h pos"
proof -
  show e: "sg_edge g' = sg_edge h" by (simp add: g'_def sg_edge_def sg_preds_def)
  have f: "sg_events g' = sg_events h" "sg_clocks g' = sg_clocks h" "sg_by_pid g' = sg_by_pid h" "sg_queue g' = sg_queue h"
    by (simp_all add: g'_def)
  have r: "rivals g' j = rivals h j" "seen_by g' w j = seen_by h w j" "settled g' j = settled h j" "vc_sound g' j v = vc_sound h j v" for j w v
    by (simp_all add: rivals_def same_cell_def seen_by_def settled_def vc_sound_def f e)
  have "sg_wf g'" using sg_wfD [OF assms(1)]
    by (simp add: sg_wf_def sg_lengths_def sg_threads_def sg_froms_def same_cell_def sg_writes_ok_def sg_edges_ok_def
        sg_queue_ok_def sg_is_queued_def g'_def)
  thus "sat_inv g'" using assms(2-5) from_read_later [OF assms(6)]
    by (simp add: sat_inv_def sg_sound_def sg_under_def sg_settled_def sg_coherent_def sg_from_read_later_def f e r)
  show "sg_exec g' pos = sg_exec h pos" by (rule exec_same [OF f(1) e])
qed

lemma reverse_saturate_ready:
  assumes "sat_ready g" "acyclic (sg_edge g) \<or> sg_until g = 0 \<or> sg_until g = sg_n g"
  shows "\<exists>g'. reverse_saturate g = Inr g' \<and> sat_inv g' \<and> sg_same (g\<lparr>sg_until := sg_n g\<rparr>) g' \<and>
    sg_edge g \<subseteq> sg_edge g' \<and> (\<forall>pos. sg_exec g' pos = sg_exec g pos)"
proof -
  note r = sat_readyD [OF assms(1)]
  have "\<exists>h. (if sg_until g \<noteq> 0 \<and> sg_until g \<noteq> sg_n g
             then bind_r (reverse_care_set g) (\<lambda>(_, care).
                    if care = [] then Inr g
                    else bind_r (sg_top g) (\<lambda>tp.
                         bind_r (fold_r (reverse_one tp) (vv_make (length (sg_by_pid g)) (sg_n g), g) care) (\<lambda>(_, g). Inr g)))
             else Inr g) = Inr h \<and> rev_ext g h \<and> sg_from_read UNIV h"
  proof (cases "sg_until g \<noteq> 0 \<and> sg_until g \<noteq> sg_n g")
    case False
    have "sg_from_read UNIV g"
    proof (cases "sg_until g = 0")
      case True
      have "\<not> seen_by g w i" if "i < sg_n g" for w i
        using r(6) True that by (auto simp: counted_old_def counted_def seen_by_def rivals_def)
      thus ?thesis by (simp add: sg_from_read_def)
    next
      case f: False
      hence u: "sg_until g = sg_n g" using False by simp
      show ?thesis
        unfolding sg_from_read_def
      proof (intro allI impI ballI)
        fix i w x assume i: "i < sg_n g" "se_store (sg_ev g i)" "seen_by g w i" "x \<in> set (se_readers (sg_ev g w)) \<inter> UNIV"
        have "x < sg_n g" using wf_reader(1) [OF r(1)] i(3,4) by (auto simp: seen_by_def rivals_def)
        thus "(x, i) \<in> (sg_edge g)\<^sup>*" using r(7) i unfolding sg_from_read_def u by blast
      qed
    qed
    thus ?thesis using False rev_ext_refl [OF r(1)] by (intro exI [of _ g]) auto
  next
    case True
    hence ac: "acyclic (sg_edge g)" using assms(2) by simp
    obtain seen v where v: "reverse_care_set g = Inr (seen, v)" "set v \<subseteq> {..<sg_n g}" "distinct v" "succ_first g v"
      "\<forall>i < sg_until g. new_readers g i \<noteq> [] \<longrightarrow> i \<in> set v"
      using reverse_care_set [OF r(1) ac] by blast
    have "vv_ok (sg_n g) (vv_make (length (sg_by_pid g)) (sg_n g))" by (simp add: vv_ok_def vv_make_def)
    hence rows: "rows_ok g (set []) (vv_make (length (sg_by_pid g)) (sg_n g))" by (simp add: rows_ok_def vv_make_def)
    obtain b h where h: "fold_r (reverse_one (map (\<lambda>evs. int (length evs) + 1) (sg_by_pid g))) (vv_make (length (sg_by_pid g)) (sg_n g), g) v = Inr (b, h)"
      "rev_ext g h" "\<forall>i\<in>set v. in_place g h i"
      using reverse_loop [OF r(1) ac rev_ext_refl [OF r(1)] rows, of v] v(2-4) by auto
    have run: "bind_r (reverse_care_set g) (\<lambda>(_, care).
                    if care = [] then Inr g
                    else bind_r (sg_top g) (\<lambda>tp.
                         bind_r (fold_r (reverse_one tp) (vv_make (length (sg_by_pid g)) (sg_n g), g) care) (\<lambda>(_, g). Inr g))) = Inr h"
      using v(1) h(1) sg_top_spec [OF r(1)] by (cases v) auto
    note same = sg_sameD [OF rev_extD(1) [OF h(2)]] and e = rev_extD [OF h(2)]
    have "(x, i) \<in> (sg_edge h)\<^sup>*"
      if i: "i < sg_n g" "se_store (sg_ev g i)" and s: "seen_by g w i" and x: "x \<in> set (se_readers (sg_ev g w))" for i w x
    proof (cases "x < sg_until g")
      case True
      hence "(x, i) \<in> (sg_edge g)\<^sup>*" using r(7) i s x unfolding sg_from_read_def by blast
      thus ?thesis using rtrancl_mono [OF e(4)] by blast
    next
      case False
      have w: "w < sg_n g" "w \<in> rivals g i" "int (ev_idx_of g w) \<le> clock_at g i (ev_pid_of g w)"
        using s by (simp_all add: seen_by_def rivals_def)
      have "w \<in> counted g i" using w by (simp add: counted_def)
      hence "w < sg_until g" using r(6) i(1) by (auto simp: counted_old_def)
      moreover have "x \<in> set (new_readers g w)" using False x by (simp add: new_readers_def)
      ultimately have "in_place g h w" using h(3) v(5) by force
      hence rb: "readers_before g h w (ev_pid_of g i)"
        using w(2) wf_event(1) [OF r(1) i(1)] by (simp add: in_place_def rivals_def)
      have "(w, i) \<in> (sg_edge g)\<^sup>*" using sound_event [OF r(1) _ w(1,3)] r(2) i(1) by (simp add: sg_sound_def)
      moreover have "i \<in> rivals g w" using w(2) i by (auto simp: rivals_def same_cell_def)
      ultimately show ?thesis using rb \<open>x \<in> set (new_readers g w)\<close> unfolding readers_before_def by blast
    qed
    hence "sg_from_read UNIV h" unfolding sg_from_read_def seen_by_def same_rivals [OF same(1)] same(1) e(3) by blast
    thus ?thesis using True run h(2) by simp
  qed
  then obtain h where h: "reverse_saturate g = Inr (h\<lparr>sg_until := sg_n h\<rparr>)" "rev_ext g h" "sg_from_read UNIV h"
    by (auto simp: reverse_saturate_def)
  note same = sg_sameD [OF rev_extD(1) [OF h(2)]] and e = rev_extD [OF h(2)]
  note u = until_inv [OF e(2) ready_ext [OF assms(1) h(2)] h(3)]
  have "sg_same (g\<lparr>sg_until := sg_n g\<rparr>) (h\<lparr>sg_until := sg_n h\<rparr>)" using same by (simp add: sg_same_def)
  thus ?thesis using h(1) u e(4,5) by (intro exI [of _ "h\<lparr>sg_until := sg_n h\<rparr>"]) simp
qed

end
