(* ===== verification/SatFinal.thy ===== *)
theory SatFinal
  imports Prelude SatMissed
begin

text \<open>
  The result of a saturation: a graph without cycles whose clocks are exact and whose edges are closed,
  or no execution.
\<close>

section \<open>At the end of the loop\<close>

lemma final_edge:
  assumes "sat_inv g" "sg_queue g = []" "(j, i) \<in> sg_edge g"
  shows "\<forall>p. clock_at g j p \<le> clock_at g i p" "vc_at (sg_clocks g ! j) \<noteq> vc_at (sg_clocks g ! i)"
proof -
  have "settled g i" using sat_invD(4) [OF assms(1)] wf_pred(2) [OF sat_invD(1) [OF assms(1)] assms(3)] assms(2) by (simp add: sg_settled_def)
  thus "\<forall>p. clock_at g j p \<le> clock_at g i p" "vc_at (sg_clocks g ! j) \<noteq> vc_at (sg_clocks g ! i)"
    using assms(3) by (simp_all add: settled_def)
qed

lemma final_path:
  assumes "sat_inv g" "sg_queue g = []" "(j, i) \<in> (sg_edge g)\<^sup>*"
  shows "clock_at g j p \<le> clock_at g i p"
  using assms(3) by (induction) (use final_edge(1) [OF assms(1,2)] order_trans in blast)+

lemma final_acyclic:
  assumes "sat_inv g" "sg_queue g = []"
  shows "acyclic (sg_edge g)"
  unfolding acyclic_def
proof (intro allI notI)
  fix i assume "(i, i) \<in> (sg_edge g)\<^sup>+"
  then obtain j where j: "(i, j) \<in> (sg_edge g)\<^sup>*" "(j, i) \<in> sg_edge g" by (meson tranclD2)
  have "vc_at (sg_clocks g ! j) = vc_at (sg_clocks g ! i)"
    using final_path [OF assms j(1)] final_edge(1) [OF assms j(2)] by (intro ext antisym) auto
  thus False using final_edge(2) [OF assms j(2)] by blast
qed

text \<open>The clock of an event counts exactly the events that come before it.\<close>

lemma final_exact:
  assumes "sat_inv g" "sg_queue g = []" "w < sg_n g" "i < sg_n g"
  shows "(w, i) \<in> (sg_edge g)\<^sup>* \<longleftrightarrow> int (ev_idx_of g w) \<le> clock_at g i (ev_pid_of g w)"
proof
  assume p: "(w, i) \<in> (sg_edge g)\<^sup>*"
  have "settled g w" using sat_invD(4) [OF assms(1)] assms(2,3) by (simp add: sg_settled_def)
  thus "int (ev_idx_of g w) \<le> clock_at g i (ev_pid_of g w)"
    using final_path [OF assms(1,2) p, of "ev_pid_of g w"] by (simp add: settled_def)
next
  assume "int (ev_idx_of g w) \<le> clock_at g i (ev_pid_of g w)"
  moreover have "vc_sound g i (sg_clocks g ! i)" using sat_invD(2) [OF assms(1)] assms(4) by (simp add: sg_sound_def)
  ultimately show "(w, i) \<in> (sg_edge g)\<^sup>*"
    using sound_event [OF sat_invD(1) [OF assms(1)] _ assms(3)] by blast
qed

lemma finite_edges: "sg_wf g \<Longrightarrow> finite (sg_edge g)"
  by (rule finite_subset [of _ "{..<sg_n g} \<times> {..<sg_n g}"]) (auto dest: wf_pred)

lemma final_from_read:
  assumes "sat_inv g" "sg_queue g = []"
  shows "sg_from_read UNIV g"
proof -
  have wf: "wf ((sg_edge g)\<^sup>+)"
    using finite_acyclic_wf [OF finite_edges [OF sat_invD(1) [OF assms(1)]] final_acyclic [OF assms]] by (rule wf_trancl)
  have "\<forall>w r. i < sg_n g \<longrightarrow> se_store (sg_ev g i) \<longrightarrow> seen_by g w i \<longrightarrow> r \<in> set (se_readers (sg_ev g w)) \<longrightarrow> (r, i) \<in> (sg_edge g)\<^sup>*" for i
    using wf
  proof (induction i rule: wf_induct_rule)
    case (less i)
    show ?case
    proof (intro allI impI)
      fix w r assume i: "i < sg_n g" "se_store (sg_ev g i)" and s: "seen_by g w i" and r: "r \<in> set (se_readers (sg_ev g w))"
      obtain u where u: "seen_by g u i" "ev_pid_of g u = ev_pid_of g w" "ev_idx_of g w \<le> ev_idx_of g u"
        "\<forall>r\<in>set (se_readers (sg_ev g u)). (r, i) \<in> (sg_edge g)\<^sup>*"
        using sat_invD(6) [OF assms(1)] i s unfolding sg_from_read_later_def by blast
      show "(r, i) \<in> (sg_edge g)\<^sup>*"
      proof (cases "w = u")
        case True
        thus ?thesis using u(4) r by blast
      next
        case False
        have wn: "w < sg_n g" "u < sg_n g" "se_store (sg_ev g u)" "u \<noteq> i" "same_cell g w u" "se_store (sg_ev g w)"
          using s u(1) by (simp_all add: seen_by_def rivals_def same_cell_def)
        have ui: "(u, i) \<in> (sg_edge g)\<^sup>*" using u(1) final_exact [OF assms wn(2) i(1)] by (simp add: seen_by_def)
        hence "(u, i) \<in> (sg_edge g)\<^sup>+" using wn(4) by (meson rtranclD)
        moreover have "(w, u) \<in> (sg_edge g)\<^sup>*" using wf_same_thread_path [OF sat_invD(1) [OF assms(1)] wn(1,2)] u(2,3) by simp
        hence "seen_by g w u" using final_exact [OF assms wn(1,2)] wn False by (simp add: seen_by_def rivals_def)
        ultimately have "(r, u) \<in> (sg_edge g)\<^sup>*" using less wn(2,3) r by blast
        thus ?thesis using ui by (rule rtrancl_trans)
      qed
    qed
  qed
  thus ?thesis unfolding sg_from_read_def by blast
qed

section \<open>Consistency checks\<close>

lemma wf_consistent:
  assumes "sg_wf g"
  shows "check_graph_consistency g"
proof -
  have "check_event g i" if i: "i < sg_n g" for i
  proof -
    have o: "set (sg_ins g ! j) \<subseteq> {..<sg_n g}"
      "set (sg_outs g ! j) = {k. k < sg_n g \<and> (j \<in> set (sg_ins g ! k) \<or> se_po (sg_ev g k) = Some j)}" if "j < sg_n g" for j
      using sg_wfD(4) [OF assms] that by (simp_all add: sg_edges_ok_def)
    have "list_all (\<lambda>j. j < length (sg_outs g) \<and> i \<in> set (sg_outs g ! j)) (sg_ins g ! i)"
      using o(1) [OF i] o(2) i wf_lengths(2) [OF assms] by (auto simp: list_all_iff)
    moreover have "case se_from (sg_ev g i) of None \<Rightarrow> True | Some w \<Rightarrow>
         w < sg_n g \<and> se_store (sg_ev g w) \<and> se_addr (sg_ev g w) = se_addr (sg_ev g i) \<and> i \<in> set (se_readers (sg_ev g w))"
      using wf_from [OF assms i] by (auto simp: same_cell_def split: option.splits)
    moreover have "case se_po (sg_ev g i) of None \<Rightarrow> True | Some j \<Rightarrow> j < length (sg_outs g) \<and> i \<in> set (sg_outs g ! j)"
      using wf_po(1) [OF assms i] o(2) i wf_lengths(2) [OF assms] by (auto split: option.splits dest: less_trans)
    moreover have "list_all (\<lambda>j. j < sg_n g \<and> (i \<in> set (sg_ins g ! j) \<or> se_po (sg_ev g j) = Some i)) (sg_outs g ! i)"
      using o(2) [OF i] by (auto simp: list_all_iff)
    moreover have "list_all (\<lambda>r. r < sg_n g \<and> se_load (sg_ev g r) \<and> se_from (sg_ev g r) = Some i) (se_readers (sg_ev g i))"
      using wf_reader(1-3) [OF assms i] by (auto simp: list_all_iff)
    ultimately show ?thesis by (simp add: check_event_def Let_def)
  qed
  thus ?thesis by (simp add: check_graph_consistency_def list_all_iff)
qed

section \<open>Saturation\<close>

lemma counted_all: "counted g i \<subseteq> {..<sg_n g}"
  by (auto simp: counted_def)

lemma saturate_ready:
  assumes "sat_ready g" "acyclic (sg_edge g) \<or> sg_until g = 0 \<or> sg_until g = sg_n g"
  shows "\<exists>ok g'. saturate g = Inr (ok, g') \<and> sg_same (g\<lparr>sg_until := sg_n g\<rparr>) g' \<and> sg_edge g \<subseteq> sg_edge g' \<and>
    (if ok then sat_inv g' \<and> sat_ready g' \<and> sg_queue g' = [] \<and> (\<forall>pos. sg_exec g' pos = sg_exec g pos) else \<forall>pos. \<not> sg_exec g pos)"
proof -
  obtain h where h: "reverse_saturate g = Inr h" "sat_inv h" "sg_same (g\<lparr>sg_until := sg_n g\<rparr>) h"
    "sg_edge g \<subseteq> sg_edge h" "\<forall>pos. sg_exec h pos = sg_exec g pos"
    using reverse_saturate_ready [OF assms] by blast
  obtain ok g' where g': "saturate_loop (saturate_fuel h) h = Inr (ok, g')" "sg_same h g'" "sg_wf g'" "sg_edge h \<subseteq> sg_edge g'"
    "if ok then sat_inv g' \<and> sg_queue g' = [] \<and> (\<forall>pos. sg_exec g' pos = sg_exec h pos) else \<forall>pos. \<not> sg_exec h pos"
    using saturate_loop_ends [OF h(2) saturate_fuel_enough [OF h(2)]] by blast
  have same: "sg_same (g\<lparr>sg_until := sg_n g\<rparr>) g'" using h(3) g'(2) by (rule sg_same_trans)
  have "saturate g = Inr (ok, g')"
    using h(1) g'(1) wf_consistent [OF sat_readyD(1) [OF assms(1)]] wf_consistent [OF g'(3)] by (simp add: saturate_def)
  moreover have "sat_ready g'" if "sat_inv g'" "sg_queue g' = []"
  proof -
    have "counted_old g'" using counted_all [of g'] sg_sameD(1,4) [OF same] by (simp add: counted_old_def)
    moreover have "sg_from_read {..<sg_until g'} g'" using final_from_read [OF that] unfolding sg_from_read_def by blast
    ultimately show ?thesis using sat_invD [OF that(1)] by (simp add: sat_ready_def)
  qed
  ultimately show ?thesis using same g'(4,5) h(4,5) by (intro exI [of _ ok] exI [of _ g']) auto
qed

end
