(* ===== verification/SatAdd.thy ===== *)
theory SatAdd
  imports Prelude SatFinal
begin

text \<open>
  Adding an event: what \<open>add_event\<close> changes in a well-formed graph, and that the graph stays ready for
  saturation.
\<close>

section \<open>The maps of a graph\<close>

text \<open>The events by their external identifiers, the first store of each thread to an address, and the
  loads of initial values.\<close>

definition sg_ids_ok :: "sat_graph \<Rightarrow> bool" where
  "sg_ids_ok g = (\<forall>e i. map_of (sg_ids g) e = Some i \<longleftrightarrow> i < sg_n g \<and> se_ext (sg_ev g i) = e)"

definition thread_writes :: "sat_graph \<Rightarrow> nat \<Rightarrow> sym_addr \<Rightarrow> nat list" where
  "thread_writes g p a = (if p < length (sg_by_pid g) then filter (\<lambda>i. se_store (sg_ev g i) \<and> se_addr (sg_ev g i) = a) (sg_by_pid g ! p) else [])"

definition sg_firsts_ok :: "sat_graph \<Rightarrow> bool" where
  "sg_firsts_ok g = (\<forall>a p. map_of (map_get [] (sg_writes_at g) a) p =
     (case thread_writes g p a of [] \<Rightarrow> None | w # _ \<Rightarrow> Some w) \<and> distinct (map fst (map_get [] (sg_writes_at g) a)))"

definition init_load :: "sat_graph \<Rightarrow> nat \<Rightarrow> bool" where
  "init_load g i = (se_load (sg_ev g i) \<and> se_from (sg_ev g i) = None)"

definition sg_inits_ok :: "sat_graph \<Rightarrow> bool" where
  "sg_inits_ok g = (\<forall>a. set (map_get [] (sg_init_reads g) a) = {i. i < sg_n g \<and> init_load g i \<and> se_addr (sg_ev g i) = a})"

definition sg_maps :: "sat_graph \<Rightarrow> bool" where
  "sg_maps g = (sg_ids_ok g \<and> sg_firsts_ok g \<and> sg_inits_ok g)"

lemma map_get_update: "map_get d (AList.update k v m) k' = (if k' = k then v else map_get d m k')"
  by (simp add: map_get_def update_conv')

text \<open>What stands in the map of first stores are stores to the address.\<close>

lemma first_write_of:
  assumes "sg_wf g" "sg_maps g" "(p, w) \<in> set (map_get [] (sg_writes_at g) a)"
  shows "w < sg_n g" "se_store (sg_ev g w)" "se_addr (sg_ev g w) = a" "ev_pid_of g w = p" "\<exists>ws. thread_writes g p a = w # ws"
proof -
  have f: "map_of (map_get [] (sg_writes_at g) a) p = (case thread_writes g p a of [] \<Rightarrow> None | w # _ \<Rightarrow> Some w)"
    "distinct (map fst (map_get [] (sg_writes_at g) a))"
    using assms(2) unfolding sg_maps_def sg_firsts_ok_def by blast+
  have "map_of (map_get [] (sg_writes_at g) a) p = Some w" using map_of_is_SomeI [OF f(2) assms(3)] .
  with f(1) obtain ws where ws: "thread_writes g p a = w # ws" by (auto split: list.splits)
  thus "\<exists>ws. thread_writes g p a = w # ws" by blast
  have "w \<in> set (thread_writes g p a)" using ws by simp
  hence p: "p < length (sg_by_pid g)" "w \<in> set (sg_by_pid g ! p)" "se_store (sg_ev g w)" "se_addr (sg_ev g w) = a"
    by (auto simp: thread_writes_def split: if_splits)
  then obtain k where "k < length (sg_by_pid g ! p)" "w = sg_by_pid g ! p ! k" by (auto simp: in_set_conv_nth)
  thus "w < sg_n g" "ev_pid_of g w = p" using wf_thread [OF assms(1) p(1)] by simp_all
  show "se_store (sg_ev g w)" "se_addr (sg_ev g w) = a" using p(3,4) .
qed

lemma init_read_of:
  assumes "sg_maps g" "r \<in> set (map_get [] (sg_init_reads g) a)"
  shows "r < sg_n g" "init_load g r" "se_addr (sg_ev g r) = a"
  using assms by (simp_all add: sg_maps_def sg_inits_ok_def)

section \<open>Edges pushed\<close>

text \<open>\<open>h\<close> is \<open>g\<close> with more entries in the vectors of incoming and outgoing edges, and more events queued.\<close>

definition pushed :: "(nat \<times> nat) set \<Rightarrow> (nat \<times> nat) set \<Rightarrow> nat set \<Rightarrow> sat_graph \<Rightarrow> sat_graph \<Rightarrow> bool" where
  "pushed I O' Q g h = (sg_same g h \<and> sg_clocks h = sg_clocks g \<and> length (sg_ins h) = length (sg_ins g) \<and> length (sg_outs h) = length (sg_outs g) \<and>
     (\<forall>j<length (sg_ins g). set (sg_ins h ! j) = set (sg_ins g ! j) \<union> {i. (i, j) \<in> I}) \<and>
     (\<forall>i<length (sg_outs g). set (sg_outs h ! i) = set (sg_outs g ! i) \<union> {j. (i, j) \<in> O'}) \<and>
     (sg_queue_ok g \<longrightarrow> sg_queue_ok h \<and> set (sg_queue h) = set (sg_queue g) \<union> Q))"

lemma pushed_refl: "pushed {} {} {} g g"
  by (simp add: pushed_def)

lemma pushed_trans:
  assumes "pushed I1 O1 Q1 g h" "pushed I2 O2 Q2 h k"
  shows "pushed (I1 \<union> I2) (O1 \<union> O2) (Q1 \<union> Q2) g k"
  using assms sg_same_trans [of g h k] unfolding pushed_def by auto

lemma push_in_pushed:
  assumes "n < length (sg_ins g)"
  shows "\<exists>h. push_in g n i = Inr h \<and> pushed {(i, n)} {} {} g h"
  using assms by (auto simp: push_in_def pushed_def sg_same_def nth_list_update sg_queue_ok_def sg_is_queued_def)

lemma push_out_pushed:
  assumes "i < length (sg_outs g)"
  shows "\<exists>h. push_out g i n = Inr h \<and> pushed {} {(i, n)} {} g h"
  using assms by (auto simp: push_out_def pushed_def sg_same_def nth_list_update sg_queue_ok_def sg_is_queued_def)

lemma wq_add_pushed:
  assumes "w < sg_n g"
  shows "pushed {} {} {w} g (wq_add g w)"
  using queue_wq_add [OF _ assms] by (auto simp: pushed_def sg_same_def)

lemma fold_pushed:
  assumes "\<forall>x\<in>set xs. \<forall>h. length (sg_ins h) = length (sg_ins g) \<longrightarrow> length (sg_outs h) = length (sg_outs g) \<longrightarrow> sg_same g h \<longrightarrow>
      (\<exists>h'. f h x = Inr h' \<and> pushed (I x) (U x) (Q x) h h')"
  shows "\<exists>h. fold_r f g xs = Inr h \<and> pushed (\<Union>x\<in>set xs. I x) (\<Union>x\<in>set xs. U x) (\<Union>x\<in>set xs. Q x) g h"
  using assms
proof (induction xs arbitrary: g)
  case Nil
  thus ?case by (simp add: pushed_refl)
next
  case (Cons x xs)
  obtain h where h: "f g x = Inr h" "pushed (I x) (U x) (Q x) g h" using Cons.prems by auto
  have l: "length (sg_ins h) = length (sg_ins g)" "length (sg_outs h) = length (sg_outs g)" "sg_same g h" using h(2) by (simp_all add: pushed_def)
  have "\<exists>k. fold_r f h xs = Inr k \<and> pushed (\<Union>x\<in>set xs. I x) (\<Union>x\<in>set xs. U x) (\<Union>x\<in>set xs. Q x) h k"
    by (rule Cons.IH) (use Cons.prems l sg_same_trans [OF l(3)] in simp)
  then obtain k where k: "fold_r f h xs = Inr k" "pushed (\<Union>x\<in>set xs. I x) (\<Union>x\<in>set xs. U x) (\<Union>x\<in>set xs. Q x) h k" by blast
  show ?case using h(1) k(1) pushed_trans [OF h(2) k(2)] by (intro exI [of _ k]) simp
qed

lemma load_before_write_pushed:
  assumes "w < length (sg_ins g)" "n < length (sg_outs g)" "w < sg_n g"
  shows "\<exists>h. load_before_write n g w = Inr h \<and> pushed {(n, w)} {(n, w)} {w} g h"
proof -
  obtain h where h: "push_out g n w = Inr h" "pushed {} {(n, w)} {} g h" using push_out_pushed [OF assms(2)] by blast
  have "w < length (sg_ins h)" "sg_same g h" using h(2) assms(1) by (simp_all add: pushed_def)
  then obtain k where k: "push_in h w n = Inr k" "pushed {(n, w)} {} {} h k" using push_in_pushed by blast
  have "w < sg_n k" using h(2) k(2) assms(3) by (simp add: pushed_def sg_same_def)
  hence q: "pushed {} {} {w} k (wq_add k w)" by (rule wq_add_pushed)
  show ?thesis using h(1) k(1) pushed_trans [OF pushed_trans [OF h(2) k(2)] q]
    by (intro exI [of _ "wq_add k w"]) (simp add: load_before_write_def)
qed

lemma write_after_read_pushed:
  assumes "n < length (sg_ins g)" "r < length (sg_outs g)"
  shows "\<exists>h. write_after_read n g r = Inr h \<and> pushed {(r, n)} {(r, n)} {} g h"
proof -
  obtain h where h: "push_in g n r = Inr h" "pushed {(r, n)} {} {} g h" using push_in_pushed [OF assms(1)] by blast
  have "r < length (sg_outs h)" using h(2) assms(2) by (simp add: pushed_def)
  then obtain k where k: "push_out h r n = Inr k" "pushed {} {(r, n)} {} h k" using push_out_pushed by blast
  show ?thesis using h(1) k(1) pushed_trans [OF h(2) k(2)] by (intro exI [of _ k]) (simp add: write_after_read_def)
qed

lemma add_happens_after_pushed:
  assumes "map_of (sg_ids g) e = Some i" "n < length (sg_ins g)"
  shows "\<exists>h. add_happens_after n g e = Inr h \<and> pushed {(i, n)} {} {} g h"
  using push_in_pushed [OF assms(2), of i] assms(1) by (simp add: add_happens_after_def sg_id_def)

section \<open>The new graph\<close>

definition with_reader :: "nat \<Rightarrow> nat option \<Rightarrow> nat \<Rightarrow> sg_event \<Rightarrow> sg_event" where
  "with_reader n rf i e = (if rf = Some i then e\<lparr>se_readers := se_readers e @ [n]\<rparr> else e)"

text \<open>\<open>A\<close> are the events the new one happens after, \<open>rf\<close> the write it reads; \<open>F\<close> and \<open>R\<close> the first stores that
  come after it, and the loads that come before it.\<close>

definition new_event :: "sat_graph \<Rightarrow> nat \<Rightarrow> ext_id \<Rightarrow> event_kind \<Rightarrow> sym_addr \<Rightarrow> nat option \<Rightarrow> sg_event" where
  "new_event g p e k a rf =
     (let evs = (if p < length (sg_by_pid g) then sg_by_pid g ! p else []) in
      \<lparr>se_iid = IID p (length evs + 1), se_ext = e, se_load = kind_load k, se_store = kind_store k, se_addr = a,
       se_from = rf, se_readers = [], se_po = if evs = [] then None else Some (last evs)\<rparr>)"

definition added ::
  "sat_graph \<Rightarrow> nat \<Rightarrow> ext_id \<Rightarrow> event_kind \<Rightarrow> sym_addr \<Rightarrow> nat option \<Rightarrow> nat set \<Rightarrow> nat set \<Rightarrow> nat set \<Rightarrow> sat_graph \<Rightarrow> bool" where
  "added g p e k a rf A F R g' =
    (let n = sg_n g; x = new_event g p e k a rf; B = enlarge [] (p + 1) (sg_by_pid g); W = enlarge [] (p + 1) (sg_writes_by g) in
     sg_ids g' = AList.update e n (sg_ids g) \<and>
     sg_n g' = n + 1 \<and> (\<forall>i<n. sg_ev g' i = with_reader n rf i (sg_ev g i)) \<and> sg_ev g' n = x \<and>
     sg_by_pid g' = B[p := B ! p @ [n]] \<and>
     sg_writes_by g' = W[p := if se_store x then AList.update a (map_get [] (W ! p) a @ [n]) (W ! p) else W ! p] \<and>
     length (sg_ins g') = n + 1 \<and> length (sg_outs g') = n + 1 \<and> sg_clocks g' = sg_clocks g @ [[]] \<and> sg_until g' = sg_until g \<and>
     (\<forall>j<n. set (sg_ins g' ! j) = set (sg_ins g ! j) \<union> {i. i = n \<and> j \<in> F}) \<and> set (sg_ins g' ! n) = A \<union> R \<and>
     (\<forall>i<n. set (sg_outs g' ! i) = set (sg_outs g ! i) \<union> {j. j = n \<and> (se_po x = Some i \<or> i \<in> A \<union> R)}) \<and> set (sg_outs g' ! n) = F \<and>
     sg_queue_ok g' \<and> set (sg_queue g') = set (sg_queue g) \<union> F \<union> {n} \<and>
     sg_writes_at g' = (if se_store x \<and> thread_writes g p a = []
        then AList.update a (AList.update p n (map_get [] (sg_writes_at g) a)) (sg_writes_at g) else sg_writes_at g) \<and>
     sg_init_reads g' = (if se_load x \<and> rf = None
        then AList.update a (map_get [] (sg_init_reads g) a @ [n]) (sg_init_reads g) else sg_init_reads g) \<and>
     F = (if rf = None \<and> se_load x then snd ` set (map_get [] (sg_writes_at g) a) else {}) \<and>
     R = (if se_store x \<and> thread_writes g p a = [] then set (map_get [] (sg_init_reads g) a) else {}))"

text \<open>Its parts, one after the other.\<close>

lemma add_po_spec:
  assumes "sg_wf g" "x = new_event g p e k a rf"
  shows "\<exists>h. add_po g p (sg_n g) = Inr (se_po x, iid_idx (se_iid x), h) \<and>
    (\<exists>v. h = g\<lparr>sg_by_pid := (enlarge [] (p + 1) (sg_by_pid g))[p := enlarge [] (p + 1) (sg_by_pid g) ! p @ [sg_n g]],
       sg_writes_by := enlarge [] (p + 1) (sg_writes_by g), sg_outs := v\<rparr> \<and> length v = length (sg_outs g) \<and>
       (\<forall>i<length v. set (v ! i) = set (sg_outs g ! i) \<union> {j. j = sg_n g \<and> se_po x = Some i}))"
proof -
  define evs where "evs = (if p < length (sg_by_pid g) then sg_by_pid g ! p else [])"
  have B: "enlarge [] (p + 1) (sg_by_pid g) ! p = evs" by (auto simp: enlarge_def nth_append evs_def)
  show ?thesis
  proof (cases "evs = []")
    case True
    thus ?thesis using B by (intro exI [of _ "g\<lparr>sg_by_pid := (enlarge [] (p + 1) (sg_by_pid g))[p := [sg_n g]],
           sg_writes_by := enlarge [] (p + 1) (sg_writes_by g), sg_outs := sg_outs g\<rparr>"] exI [of _ "sg_outs g"] conjI) (simp_all add: add_po_def Let_def assms(2) new_event_def evs_def [symmetric])
  next
    case False
    hence p: "p < length (sg_by_pid g)" "evs = sg_by_pid g ! p" by (auto simp: evs_def split: if_splits)
    have l: "length evs - 1 < length evs" "evs ! (length evs - 1) = last evs" using False by (simp_all add: last_conv_nth)
    have i: "last evs < sg_n g" "se_iid (sg_ev g (last evs)) = IID p (length evs)"
      using wf_thread [OF assms(1) p(1), of "length evs - 1"] l p(2) by simp_all
    let ?v = "(sg_outs g)[last evs := sg_outs g ! last evs @ [sg_n g]]"
    show ?thesis using B False i wf_lengths(2) [OF assms(1)]
      by (intro exI [of _ "g\<lparr>sg_by_pid := (enlarge [] (p + 1) (sg_by_pid g))[p := evs @ [sg_n g]],
           sg_writes_by := enlarge [] (p + 1) (sg_writes_by g), sg_outs := ?v\<rparr>"] conjI exI [of _ ?v])
        (auto simp: add_po_def Let_def push_out_def assms(2) new_event_def evs_def [symmetric] nth_list_update)
  qed
qed

lemma pushed_fields:
  assumes "pushed I U Q g h"
  shows "sg_same g h" "sg_clocks h = sg_clocks g" "length (sg_ins h) = length (sg_ins g)" "length (sg_outs h) = length (sg_outs g)"
    "j < length (sg_ins g) \<Longrightarrow> set (sg_ins h ! j) = set (sg_ins g ! j) \<union> {i. (i, j) \<in> I}"
    "i < length (sg_outs g) \<Longrightarrow> set (sg_outs h ! i) = set (sg_outs g ! i) \<union> {j. (i, j) \<in> U}"
    "sg_queue_ok g \<Longrightarrow> sg_queue_ok h" "sg_queue_ok g \<Longrightarrow> set (sg_queue h) = set (sg_queue g) \<union> Q"
  using assms by (simp_all add: pushed_def)

lemma add_after_spec:
  assumes "\<forall>x\<in>set after. \<exists>i. map_of (sg_ids g) x = Some i" "n < length (sg_ins g)"
  shows "\<exists>h. fold_r (add_happens_after n) g after = Inr h \<and> pushed ((\<lambda>x. (the (map_of (sg_ids g) x), n)) ` set after) {} {} g h"
proof -
  have "\<exists>h. fold_r (add_happens_after n) g after = Inr h \<and>
      pushed (\<Union>x\<in>set after. {(the (map_of (sg_ids g) x), n)}) (\<Union>x\<in>set after. {}) (\<Union>x\<in>set after. {}) g h"
  proof (rule fold_pushed, intro ballI allI impI)
    fix x h assume x: "x \<in> set after" and h: "length (sg_ins h) = length (sg_ins g)" "sg_same g h"
    obtain i where i: "map_of (sg_ids g) x = Some i" using assms(1) x by blast
    hence "map_of (sg_ids h) x = Some i" using h(2) by (simp add: sg_same_def)
    thus "\<exists>k. add_happens_after n h x = Inr k \<and> pushed {(the (map_of (sg_ids g) x), n)} {} {} h k"
      using add_happens_after_pushed [of h x i n] assms(2) h(1) i by simp
  qed
  thus ?thesis by (simp add: UNION_singleton_eq_range)
qed

lemma add_from_spec:
  fixes ld :: bool and rf :: "nat option" and a :: sym_addr and g :: sat_graph
  assumes "length (sg_ins g) = n + 1" "length (sg_outs g) = n + 1" "sg_n g = n" "\<forall>w. rf = Some w \<longrightarrow> w < n"
    "snd ` set (map_get [] (sg_writes_at g) a) \<subseteq> {..<n}"
  defines "F \<equiv> (if rf = None \<and> ld then snd ` set (map_get [] (sg_writes_at g) a) else {})"
  shows "\<exists>h v. add_from g n ld a rf = Inr (h\<lparr>sg_events := v\<rparr>) \<and> pushed ({n} \<times> F) ({n} \<times> F) F g h \<and>
    length v = n \<and> (\<forall>i<n. v ! i = with_reader n rf i (sg_ev g i))"
proof (cases rf)
  case (Some w)
  let ?v = "(sg_events g)[w := (sg_ev g w)\<lparr>se_readers := se_readers (sg_ev g w) @ [n]\<rparr>]"
  have "add_from g n ld a rf = Inr (g\<lparr>sg_events := ?v\<rparr>)" using Some assms(3,4) by (simp add: add_from_def)
  moreover have "pushed ({n} \<times> F) ({n} \<times> F) F g g" using Some pushed_refl by (simp add: F_def)
  moreover have "length ?v = n \<and> (\<forall>i<n. ?v ! i = with_reader n rf i (sg_ev g i))"
    using Some assms(3) by (simp add: with_reader_def nth_list_update)
  ultimately show ?thesis by blast
next
  case None
  have "\<exists>h. add_from g n ld a rf = Inr h \<and> pushed ({n} \<times> F) ({n} \<times> F) F g h"
  proof (cases ld)
    case True
    let ?ws = "map snd (map_get [] (sg_writes_at g) a)"
    have F: "F = set ?ws" using None True by (simp add: F_def)
    have "\<exists>h. fold_r (load_before_write n) g ?ws = Inr h \<and>
        pushed (\<Union>w\<in>set ?ws. {(n, w)}) (\<Union>w\<in>set ?ws. {(n, w)}) (\<Union>w\<in>set ?ws. {w}) g h"
    proof (rule fold_pushed, intro ballI allI impI)
      fix w h assume w: "w \<in> set ?ws" and h: "length (sg_ins h) = length (sg_ins g)" "length (sg_outs h) = length (sg_outs g)" "sg_same g h"
      have "w < n" using w assms(5) by auto
      thus "\<exists>k. load_before_write n h w = Inr k \<and> pushed {(n, w)} {(n, w)} {w} h k"
        using load_before_write_pushed [of w h n] h assms(1-3) by (simp add: sg_same_def)
    qed
    moreover have "(\<Union>w\<in>set ?ws. {(n, w)}) = {n} \<times> F" "(\<Union>w\<in>set ?ws. {w}) = F" unfolding F by auto
    ultimately show ?thesis using None True by (simp add: add_from_def)
  next
    case False
    thus ?thesis using None pushed_refl by (simp add: add_from_def F_def)
  qed
  then obtain h where h: "add_from g n ld a rf = Inr h" "pushed ({n} \<times> F) ({n} \<times> F) F g h" by blast
  have "h = h\<lparr>sg_events := sg_events g\<rparr>" using h(2) by (simp add: pushed_def sg_same_def)
  thus ?thesis using h None assms(3) by (intro exI [of _ h] exI [of _ "sg_events g"]) (simp add: with_reader_def)
qed

lemma add_write_spec:
  fixes st :: bool and a :: sym_addr and g :: sat_graph and p :: nat
  assumes "length (sg_ins g) = n + 1" "length (sg_outs g) = n + 1" "p < length (sg_writes_by g)"
    "set (map_get [] (sg_init_reads g) a) \<subseteq> {..<n}"
  defines "first \<equiv> map_of (map_get [] (sg_writes_at g) a) p = None"
  defines "R \<equiv> (if st \<and> first then set (map_get [] (sg_init_reads g) a) else {})"
  shows "\<exists>h. (if st then add_write g n p a else Inr g) =
      Inr (h\<lparr>sg_writes_at := if st \<and> first then AList.update a (AList.update p n (map_get [] (sg_writes_at g) a)) (sg_writes_at g) else sg_writes_at g,
             sg_writes_by := if st then (sg_writes_by g)[p := AList.update a (map_get [] (sg_writes_by g ! p) a @ [n]) (sg_writes_by g ! p)] else sg_writes_by g\<rparr>) \<and>
    pushed (R \<times> {n}) (R \<times> {n}) {} g h"
proof -
  have "\<exists>h. (if st \<and> first then fold_r (write_after_read n) g (map_get [] (sg_init_reads g) a) else Inr g) = Inr h \<and> pushed (R \<times> {n}) (R \<times> {n}) {} g h"
  proof (cases "st \<and> first")
    case True
    let ?rs = "map_get [] (sg_init_reads g) a"
    have R: "R = set ?rs" using True by (simp add: R_def)
    have "\<exists>h. fold_r (write_after_read n) g ?rs = Inr h \<and> pushed (\<Union>r\<in>set ?rs. {(r, n)}) (\<Union>r\<in>set ?rs. {(r, n)}) (\<Union>r\<in>set ?rs. {}) g h"
    proof (rule fold_pushed, intro ballI allI impI)
      fix r and h :: sat_graph assume r: "r \<in> set ?rs" and h: "length (sg_ins h) = length (sg_ins g)" "length (sg_outs h) = length (sg_outs g)"
      have "r < n" using r assms(4) by auto
      thus "\<exists>k. write_after_read n h r = Inr k \<and> pushed {(r, n)} {(r, n)} {} h k"
        using write_after_read_pushed [of n h r] h assms(1,2) by simp
    qed
    moreover have "(\<Union>r\<in>set ?rs. {(r, n)}) = R \<times> {n}" unfolding R by auto
    ultimately show ?thesis using True by simp
  next
    case False
    hence nf: "(st \<and> first) = False" by blast
    show ?thesis using pushed_refl [of g] unfolding R_def nf by simp
  qed
  then obtain h where h: "(if st \<and> first then fold_r (write_after_read n) g (map_get [] (sg_init_reads g) a) else Inr g) = Inr h"
    "pushed (R \<times> {n}) (R \<times> {n}) {} g h" by blast
  have s: "sg_writes_at h = sg_writes_at g" "sg_writes_by h = sg_writes_by g" using pushed_fields(1) [OF h(2)] by (simp_all add: sg_same_def)
  hence e: "h = h\<lparr>sg_writes_at := sg_writes_at g, sg_writes_by := sg_writes_by g\<rparr>" by simp
  show ?thesis
  proof (cases st)
    case True
    show ?thesis
    proof (cases first)
      case f: True
      thus ?thesis using True h s assms(3) by (auto simp: add_write_def Let_def first_def)
    next
      case f: False
      hence "add_write g n p a = Inr (g\<lparr>sg_writes_by := (sg_writes_by g)[p := AList.update a (map_get [] (sg_writes_by g ! p) a @ [n]) (sg_writes_by g ! p)]\<rparr>)"
        using assms(3) by (auto simp: add_write_def Let_def first_def)
      moreover have "h = g" using h(1) f by simp
      ultimately show ?thesis using True f h(2) by (intro exI [of _ g]) simp
    qed
  next
    case False
    thus ?thesis using h e by (intro exI [of _ h]) simp
  qed
qed

lemma add_out_spec:
  assumes "set is \<subseteq> {..<length (sg_outs g)}"
  shows "\<exists>h. fold_r (\<lambda>g i. push_out g i n) g is = Inr h \<and> pushed {} (set is \<times> {n}) {} g h"
proof -
  have "\<exists>h. fold_r (\<lambda>g i. push_out g i n) g is = Inr h \<and>
      pushed (\<Union>i\<in>set is. {}) (\<Union>i\<in>set is. {(i, n)}) (\<Union>i\<in>set is. {}) g h"
  proof (rule fold_pushed, intro ballI allI impI)
    fix i and h :: sat_graph assume i: "i \<in> set is" and h: "length (sg_outs h) = length (sg_outs g)"
    thus "\<exists>k. push_out h i n = Inr k \<and> pushed {} {(i, n)} {} h k" using push_out_pushed [of i h n] assms by auto
  qed
  moreover have "(\<Union>i\<in>set is. {(i, n)}) = set is \<times> {n}" by auto
  ultimately show ?thesis by simp
qed

text \<open>The whole.\<close>

lemma add_event_added:
  assumes "sg_wf g" "sg_maps g" "map_of (sg_ids g) e = None"
    "\<forall>x\<in>set after. map_of (sg_ids g) x \<noteq> None" "\<forall>x. from = Some x \<longrightarrow> map_of (sg_ids g) x \<noteq> None"
  defines "A \<equiv> (\<lambda>x. the (map_of (sg_ids g) x)) ` set after"
  defines "rf \<equiv> map_option (\<lambda>x. the (map_of (sg_ids g) x)) from"
  shows "\<exists>F R g'. add_event g p e k a from after = Inr g' \<and> added g p e k a rf A F R g' \<and> A \<subseteq> {..<sg_n g}"
proof -
  define n where "n = sg_n g"
  define x where "x = new_event g p e k a rf"
  define ids where "ids = AList.update e n (sg_ids g)"
  define B where "B = enlarge [] (p + 1) (sg_by_pid g)"
  define W where "W = enlarge [] (p + 1) (sg_writes_by g)"
  define first where "first = (map_of (map_get [] (sg_writes_at g) a) p = None)"
  have first: "first \<longleftrightarrow> thread_writes g p a = []"
    using assms(2) unfolding first_def sg_maps_def sg_firsts_ok_def by (auto split: list.splits)
  have len: "length (sg_ins g) = n" "length (sg_outs g) = n" "length (sg_clocks g) = n" using wf_lengths [OF assms(1)] by (simp_all add: n_def)
  have known: "map_of ids y = map_of (sg_ids g) y" "the (map_of (sg_ids g) y) < n" if y: "map_of (sg_ids g) y \<noteq> None" for y
  proof -
    have "y \<noteq> e" using y assms(3) by auto
    thus "map_of ids y = map_of (sg_ids g) y" by (simp add: ids_def update_conv')
    obtain i where i: "map_of (sg_ids g) y = Some i" using y by blast
    moreover have "i < n" using i assms(2) unfolding sg_maps_def sg_ids_ok_def n_def by blast
    ultimately show "the (map_of (sg_ids g) y) < n" by simp
  qed
  have A: "A \<subseteq> {..<n}" using known(2) assms(4) by (auto simp: A_def)
  have rf: "rf = Some w \<Longrightarrow> w < n" for w using known(2) assms(5) unfolding rf_def map_option_eq_Some by blast
  let ?g0 = "g\<lparr>sg_ids := ids\<rparr>"
  have "sg_wf ?g0" using sg_wfD [OF assms(1)]
    by (simp add: sg_wf_def sg_lengths_def sg_threads_def sg_froms_def same_cell_def sg_writes_ok_def sg_edges_ok_def sg_queue_ok_def sg_is_queued_def)
  moreover have "x = new_event ?g0 p e k a rf" by (simp add: x_def new_event_def)
  ultimately obtain h1 v where h1: "add_po ?g0 p n = Inr (se_po x, iid_idx (se_iid x), h1)"
    "h1 = ?g0\<lparr>sg_by_pid := B[p := B ! p @ [n]], sg_writes_by := W, sg_outs := v\<rparr>" "length v = n"
    "\<forall>i<n. set (v ! i) = set (sg_outs g ! i) \<union> {j. j = n \<and> se_po x = Some i}"
    using add_po_spec [of ?g0 x p e k a rf] len by (auto simp: B_def W_def n_def)
  define g2 where "g2 = h1\<lparr>sg_outs := sg_outs h1 @ [[]], sg_ins := sg_ins h1 @ [[]]\<rparr>"
  have g2: "sg_ids g2 = ids" "sg_events g2 = sg_events g" "sg_ins g2 = sg_ins g @ [[]]" "sg_outs g2 = v @ [[]]"
    "sg_writes_at g2 = sg_writes_at g" "sg_init_reads g2 = sg_init_reads g" "sg_by_pid g2 = B[p := B ! p @ [n]]"
    "sg_clocks g2 = sg_clocks g" "sg_writes_by g2 = W" "sg_until g2 = sg_until g" "sg_queue g2 = sg_queue g" "sg_queued g2 = sg_queued g"
    by (simp_all add: g2_def h1(2))
  have q2: "sg_queue_ok g2" using sg_wfD(6) [OF assms(1)] by (simp add: sg_queue_ok_def sg_is_queued_def g2)
  have "\<forall>y\<in>set after. \<exists>i. map_of (sg_ids g2) y = Some i" using assms(4) known(1) by (auto simp: g2)
  then obtain h3 where h3: "fold_r (add_happens_after n) g2 after = Inr h3"
    "pushed ((\<lambda>y. (the (map_of (sg_ids g2) y), n)) ` set after) {} {} g2 h3"
    using add_after_spec [of after g2 n] len by (auto simp: g2)
  have "(\<lambda>y. (the (map_of (sg_ids g2) y), n)) ` set after = A \<times> {n}" using assms(4) known(1) by (force simp: g2 A_def)
  note p3 = h3(2) [unfolded this]
  have s3: "sg_same g2 h3" "sg_clocks h3 = sg_clocks g" "length (sg_ins h3) = n + 1" "length (sg_outs h3) = n + 1"
    using pushed_fields(1-4) [OF p3] len h1(3) by (simp_all add: g2)
  note e3 = sg_sameD [OF s3(1), unfolded g2]
  define F where "F = (if rf = None \<and> kind_load k then snd ` set (map_get [] (sg_writes_at g) a) else {})"
  have "snd ` set (map_get [] (sg_writes_at g) a) \<subseteq> {..<n}" using first_write_of(1) [OF assms(1,2)] by (auto simp: n_def)
  moreover have "\<forall>w. rf = Some w \<longrightarrow> w < n" using rf by blast
  moreover have "sg_n g = n" by (simp add: n_def)
  ultimately have "\<exists>h v. add_from h3 n (kind_load k) a rf = Inr (h\<lparr>sg_events := v\<rparr>) \<and> pushed ({n} \<times> F) ({n} \<times> F) F h3 h \<and>
      length v = n \<and> (\<forall>i<n. v ! i = with_reader n rf i (sg_ev g i))"
    by (intro add_from_spec [of h3 n rf a "kind_load k", OF s3(3,4), unfolded e3(1,5), folded F_def])
  then obtain h4 v4 where h4: "add_from h3 n (kind_load k) a rf = Inr (h4\<lparr>sg_events := v4\<rparr>)" "pushed ({n} \<times> F) ({n} \<times> F) F h3 h4"
    "length v4 = n" "\<forall>i<n. v4 ! i = with_reader n rf i (sg_ev g i)"
    by blast
  have s4: "sg_same h3 h4" "sg_clocks h4 = sg_clocks g" "length (sg_ins h4) = n + 1" "length (sg_outs h4) = n + 1"
    using pushed_fields(1-4) [OF h4(2)] s3 by simp_all
  note e4 = sg_sameD [OF s4(1), unfolded e3]
  let ?k4 = "h4\<lparr>sg_events := v4\<rparr>"
  define R where "R = (if kind_store k \<and> first then set (map_get [] (sg_init_reads g) a) else {})"
  have pW: "p < length W" by (simp add: W_def enlarge_def)
  have k4: "sg_writes_at ?k4 = sg_writes_at g" "sg_writes_by ?k4 = W" "sg_init_reads ?k4 = sg_init_reads g"
    "length (sg_ins ?k4) = n + 1" "length (sg_outs ?k4) = n + 1"
    using s4 by (simp_all add: e4)
  have "set (map_get [] (sg_init_reads g) a) \<subseteq> {..<n}" using init_read_of(1) [OF assms(2)] by (auto simp: n_def)
  then obtain h5 where h5: "(if kind_store k then add_write ?k4 n p a else Inr ?k4) =
      Inr (h5\<lparr>sg_writes_at := if kind_store k \<and> first then AList.update a (AList.update p n (map_get [] (sg_writes_at g) a)) (sg_writes_at g) else sg_writes_at g,
             sg_writes_by := if kind_store k then W[p := AList.update a (map_get [] (W ! p) a @ [n]) (W ! p)] else W\<rparr>)"
    "pushed (R \<times> {n}) (R \<times> {n}) {} ?k4 h5"
    using add_write_spec [of ?k4 n p a "kind_store k", OF k4(4,5), unfolded k4(1-3), folded first_def R_def, OF pW] by blast
  let ?k5 = "h5\<lparr>sg_writes_at := if kind_store k \<and> first then AList.update a (AList.update p n (map_get [] (sg_writes_at g) a)) (sg_writes_at g) else sg_writes_at g,
             sg_writes_by := if kind_store k then W[p := AList.update a (map_get [] (W ! p) a @ [n]) (W ! p)] else W\<rparr>"
  have s5: "sg_same ?k4 h5" "sg_clocks h5 = sg_clocks g" "length (sg_ins h5) = n + 1" "length (sg_outs h5) = n + 1"
    using pushed_fields(1-4) [OF h5(2)] s4 by simp_all
  have e5: "sg_ids h5 = ids" "sg_events h5 = v4" "sg_init_reads h5 = sg_init_reads g" "sg_by_pid h5 = B[p := B ! p @ [n]]" "sg_until h5 = sg_until g"
    using sg_sameD [OF s5(1)] by (simp_all add: e4)
  have FR: "F \<subseteq> {..<n}" "R \<subseteq> {..<n}"
    using first_write_of(1) [OF assms(1,2)] init_read_of(1) [OF assms(2)] by (auto simp: F_def R_def n_def split: if_splits)
  have nth2: "sg_ins g2 ! n = []" "sg_outs g2 ! n = []" "\<And>j. j < n \<Longrightarrow> sg_ins g2 ! j = sg_ins g ! j" "\<And>j. j < n \<Longrightarrow> sg_outs g2 ! j = v ! j"
    using len h1(3) by (simp_all add: g2 nth_append)
  have l2: "length (sg_ins g2) = n + 1" "length (sg_outs g2) = n + 1" using len h1(3) by (simp_all add: g2)
  have ins: "set (sg_ins h5 ! j) = set (sg_ins g2 ! j) \<union> {i. (i, j) \<in> A \<times> {n}} \<union> {i. (i, j) \<in> {n} \<times> F} \<union> {i. (i, j) \<in> R \<times> {n}}" if "j \<le> n" for j
    using pushed_fields(5) [OF p3, of j] pushed_fields(5) [OF h4(2), of j] pushed_fields(5) [OF h5(2), of j] that l2 s3 s4 by simp
  have outs: "set (sg_outs h5 ! i) = set (sg_outs g2 ! i) \<union> {j. (i, j) \<in> {n} \<times> F} \<union> {j. (i, j) \<in> R \<times> {n}}" if "i \<le> n" for i
    using pushed_fields(6) [OF p3, of i] pushed_fields(6) [OF h4(2), of i] pushed_fields(6) [OF h5(2), of i] that l2 s3 s4 by simp
  have insn: "set (sg_ins ?k5 ! n) = A \<union> R" using ins [of n] FR(1) by (auto simp: nth2)
  have "set (sg_ins ?k5 ! n) \<subseteq> {..<length (sg_outs ?k5)}" unfolding insn using A FR(2) s5(4) by auto
  then obtain h6 where h6: "fold_r (\<lambda>g i. push_out g i n) ?k5 (sg_ins ?k5 ! n) = Inr h6" "pushed {} (set (sg_ins ?k5 ! n) \<times> {n}) {} ?k5 h6"
    using add_out_spec by blast
  note s6 = pushed_fields [OF h6(2), unfolded insn]
  have e6: "sg_ids h6 = ids" "sg_events h6 = v4" "sg_init_reads h6 = sg_init_reads g" "sg_by_pid h6 = B[p := B ! p @ [n]]" "sg_until h6 = sg_until g"
    "sg_writes_at h6 = sg_writes_at ?k5" "sg_writes_by h6 = sg_writes_by ?k5" "sg_clocks h6 = sg_clocks g"
    using sg_sameD [OF s6(1)] e5 s6(2) s5(2) by simp_all
  have "sg_queue_ok h3" "set (sg_queue h3) = set (sg_queue g)" using pushed_fields(7,8) [OF p3 q2] by (simp_all add: g2)
  hence "sg_queue_ok h4" "set (sg_queue h4) = set (sg_queue g) \<union> F" using pushed_fields(7,8) [OF h4(2)] by simp_all
  moreover have "sg_n h4 = n" using e4(1) by (simp add: n_def)
  ultimately have "sg_queue_ok ?k4" "set (sg_queue ?k4) = set (sg_queue g) \<union> F" using h4(3) by (simp_all add: sg_queue_ok_def sg_is_queued_def)
  hence "sg_queue_ok h5" "set (sg_queue h5) = set (sg_queue g) \<union> F" using pushed_fields(7,8) [OF h5(2)] by simp_all
  hence "sg_queue_ok ?k5" "set (sg_queue ?k5) = set (sg_queue g) \<union> F" by (simp_all add: sg_queue_ok_def sg_is_queued_def)
  hence q6: "sg_queue_ok h6" "set (sg_queue h6) = set (sg_queue g) \<union> F" using s6(7,8) by simp_all
  define h7 where "h7 = h6\<lparr>sg_events := v4 @ [x],
      sg_init_reads := if rf = None \<and> kind_load k then AList.update a (map_get [] (sg_init_reads g) a @ [n]) (sg_init_reads g) else sg_init_reads g,
      sg_clocks := sg_clocks g @ [[]]\<rparr>"
  have n7: "sg_n h7 = n + 1" "n < sg_n h7" using h4(3) by (simp_all add: h7_def)
  have "sg_queue_ok h7" using q6(1) h4(3) e6(2) by (auto simp: sg_queue_ok_def sg_is_queued_def h7_def)
  note q7 = queue_wq_add [OF this n7(2)]
  have x: "se_load x = kind_load k" "se_store x = kind_store k" "\<lparr>se_iid = IID p (iid_idx (se_iid x)), se_ext = e, se_load = kind_load k, se_store = kind_store k,
      se_addr = a, se_from = rf, se_readers = [], se_po = se_po x\<rparr> = x"
    by (simp_all add: x_def new_event_def Let_def)
  have rfr: "(case from of None \<Rightarrow> Inr None | Some y \<Rightarrow> bind_r (sg_id h1 y) (\<lambda>w. Inr (Some w))) = Inr rf"
    using assms(5) known(1) by (cases "from") (auto simp: rf_def sg_id_def h1(2))
  have "add_event g p e k a from after = Inr (wq_add h7 n)"
  proof -
    have l1: "(length (sg_ins h1) = n \<and> length (sg_outs h1) = n) = True" using len h1(2,3) by simp
    have l6: "(length (sg_clocks g) = n) = True" using len by simp
    have "(if rf = None \<and> kind_load k
        then h6\<lparr>sg_events := v4 @ [x], sg_init_reads := AList.update a (map_get [] (sg_init_reads g) a @ [n]) (sg_init_reads g)\<rparr>
        else h6\<lparr>sg_events := v4 @ [x]\<rparr>)\<lparr>sg_clocks := sg_clocks g @ [[]]\<rparr> = h7"
      unfolding h7_def by (simp add: e6(3) [symmetric])
    thus ?thesis
      unfolding add_event_def Let_def n_def [symmetric] ids_def [symmetric]
      by (simp only: h1(1) bind_r_simps prod.case rfr l1 assert_r_simps g2_def [symmetric] h3(1) h4(1) h5(1) h6(1) x(3))
        (cases "rf = None \<and> kind_load k"; auto simp: e6(2,3,8) len)
  qed
  moreover have "added g p e k a rf A F R (wq_add h7 n)"
    unfolding added_def Let_def n_def [symmetric] x_def [symmetric] ids_def [symmetric] B_def [symmetric] W_def [symmetric]
  proof (intro conjI allI impI)
    show "F = (if rf = None \<and> se_load x then snd ` set (map_get [] (sg_writes_at g) a) else {})" by (simp add: F_def x)
    show "R = (if se_store x \<and> thread_writes g p a = [] then set (map_get [] (sg_init_reads g) a) else {})" by (simp add: R_def x first)
    fix i assume i: "i < n"
    show "set (sg_ins (wq_add h7 n) ! i) = set (sg_ins g ! i) \<union> {ia. ia = n \<and> i \<in> F}"
      using s6(5) [of i] ins [of i] i s5(3) by (auto simp: h7_def nth2)
    show "set (sg_outs (wq_add h7 n) ! i) = set (sg_outs g ! i) \<union> {j. j = n \<and> (se_po x = Some i \<or> i \<in> A \<union> R)}"
      using s6(6) [of i] outs [of i] i s5(4) h1(3,4) by (auto simp: h7_def nth2)
  next
    show "set (sg_ins (wq_add h7 n) ! n) = A \<union> R" using s6(5) [of n] insn s5(3) by (simp add: h7_def)
    show "set (sg_outs (wq_add h7 n) ! n) = F" using s6(6) [of n] outs [of n] s5(4) A FR by (auto simp: h7_def nth2)
  qed (use e6 h4(3,4) s5 s6(3,4) q7 q6 n7 in \<open>simp_all add: h7_def nth_append x first\<close>)
  ultimately show ?thesis using A unfolding n_def [symmetric] by blast
qed

end
