(* ===== verification/SatApi.thy ===== *)
theory SatApi
  imports Prelude SatAdd
begin

text \<open>
  The public operations: adding events and edges keeps the graph ready for saturation, and saturation
  decides whether the graph has an execution as far as its rules go.
\<close>

section \<open>The graph after an event was added\<close>

definition thread_events :: "sat_graph \<Rightarrow> nat \<Rightarrow> nat list" where
  "thread_events g p = (if p < length (sg_by_pid g) then sg_by_pid g ! p else [])"

definition add_ok :: "sat_graph \<Rightarrow> event_kind \<Rightarrow> sym_addr \<Rightarrow> nat option \<Rightarrow> nat set \<Rightarrow> bool" where
  "add_ok g k a rf A = (A \<subseteq> {..<sg_n g} \<and>
     (\<forall>w. rf = Some w \<longrightarrow> w < sg_n g \<and> kind_load k \<and> se_store (sg_ev g w) \<and> se_addr (sg_ev g w) = a))"

lemma thread_events_nth:
  assumes "sg_wf g" "k < length (thread_events g p)"
  shows "p < length (sg_by_pid g)" "thread_events g p ! k < sg_n g" "se_iid (sg_ev g (thread_events g p ! k)) = IID p (k + 1)"
  using wf_thread [OF assms(1)] assms(2) by (simp_all add: thread_events_def split: if_splits)

lemma thread_events_sorted: "sg_wf g \<Longrightarrow> sorted_wrt (<) (thread_events g p)"
  using wf_thread_sorted by (simp add: thread_events_def)

lemma nth_enlarge: "q < length v \<or> q < n \<Longrightarrow> enlarge [] n v ! q = (if q < length v then v ! q else [])"
  by (auto simp: enlarge_def nth_append)

lemma length_enlarge [simp]: "length (enlarge x n v) = max n (length v)"
  by (auto simp: enlarge_def)

lemma new_event_fields:
  defines "x \<equiv> \<lambda>g p e k a rf. new_event g p e k a rf"
  shows "se_iid (x g p e k a rf) = IID p (length (thread_events g p) + 1)" "se_load (x g p e k a rf) = kind_load k" "se_store (x g p e k a rf) = kind_store k"
    "se_addr (x g p e k a rf) = a" "se_from (x g p e k a rf) = rf" "se_readers (x g p e k a rf) = []" "se_ext (x g p e k a rf) = e"
    "se_po (x g p e k a rf) = (if thread_events g p = [] then None else Some (last (thread_events g p)))"
  by (simp_all add: x_def new_event_def thread_events_def Let_def)

lemma added_fields:
  assumes "added g p e k a rf A F R g'"
  shows "sg_n g' = sg_n g + 1" "sg_ev g' (sg_n g) = new_event g p e k a rf" "i < sg_n g \<Longrightarrow> sg_ev g' i = with_reader (sg_n g) rf i (sg_ev g i)"
    "length (sg_ins g') = sg_n g + 1" "length (sg_outs g') = sg_n g + 1" "sg_clocks g' = sg_clocks g @ [[]]" "sg_until g' = sg_until g"
    "j < sg_n g \<Longrightarrow> set (sg_ins g' ! j) = set (sg_ins g ! j) \<union> {i. i = sg_n g \<and> j \<in> F}" "set (sg_ins g' ! sg_n g) = A \<union> R"
    "i < sg_n g \<Longrightarrow> set (sg_outs g' ! i) = set (sg_outs g ! i) \<union> {j. j = sg_n g \<and> (se_po (new_event g p e k a rf) = Some i \<or> i \<in> A \<union> R)}"
    "set (sg_outs g' ! sg_n g) = F" "sg_queue_ok g'" "set (sg_queue g') = set (sg_queue g) \<union> F \<union> {sg_n g}"
    "F = (if rf = None \<and> kind_load k then snd ` set (map_get [] (sg_writes_at g) a) else {})"
    "R = (if kind_store k \<and> thread_writes g p a = [] then set (map_get [] (sg_init_reads g) a) else {})"
    "sg_ids g' = AList.update e (sg_n g) (sg_ids g)"
    "sg_writes_at g' = (if kind_store k \<and> thread_writes g p a = []
        then AList.update a (AList.update p (sg_n g) (map_get [] (sg_writes_at g) a)) (sg_writes_at g) else sg_writes_at g)"
    "sg_init_reads g' = (if kind_load k \<and> rf = None
        then AList.update a (map_get [] (sg_init_reads g) a @ [sg_n g]) (sg_init_reads g) else sg_init_reads g)"
  by (insert assms [unfolded added_def Let_def new_event_fields(2,3)])
    ((elim conjE, assumption) | (elim conjE, erule allE, erule (1) mp))+

lemma added_threads:
  assumes "added g p e k a rf A F R g'"
  shows "length (sg_by_pid g') = max (length (sg_by_pid g)) (p + 1)"
    "q < length (sg_by_pid g') \<Longrightarrow> sg_by_pid g' ! q = thread_events g q @ (if q = p then [sg_n g] else [])"
    "thread_events g' q = thread_events g q @ (if q = p then [sg_n g] else [])"
proof -
  have b: "sg_by_pid g' = (enlarge [] (p + 1) (sg_by_pid g))[p := enlarge [] (p + 1) (sg_by_pid g) ! p @ [sg_n g]]"
    using assms unfolding added_def Let_def by blast
  thus l: "length (sg_by_pid g') = max (length (sg_by_pid g)) (p + 1)" by (simp add: max.commute)
  show q: "sg_by_pid g' ! q = thread_events g q @ (if q = p then [sg_n g] else [])" if "q < length (sg_by_pid g')" for q
    using that unfolding l by (auto simp: b nth_list_update nth_enlarge thread_events_def)
  show "thread_events g' q = thread_events g q @ (if q = p then [sg_n g] else [])"
    using q l by (auto simp: thread_events_def)
qed

lemma added_event:
  assumes "added g p e k a rf A F R g'" "i < sg_n g"
  shows "se_iid (sg_ev g' i) = se_iid (sg_ev g i)" "se_ext (sg_ev g' i) = se_ext (sg_ev g i)" "se_load (sg_ev g' i) = se_load (sg_ev g i)"
    "se_store (sg_ev g' i) = se_store (sg_ev g i)" "se_addr (sg_ev g' i) = se_addr (sg_ev g i)" "se_from (sg_ev g' i) = se_from (sg_ev g i)"
    "se_po (sg_ev g' i) = se_po (sg_ev g i)"
    "set (se_readers (sg_ev g' i)) = set (se_readers (sg_ev g i)) \<union> {r. r = sg_n g \<and> rf = Some i}"
  using added_fields(3) [OF assms] by (auto simp: with_reader_def)

lemma added_new:
  assumes "added g p e k a rf A F R g'"
  shows "se_iid (sg_ev g' (sg_n g)) = IID p (length (thread_events g p) + 1)" "se_load (sg_ev g' (sg_n g)) = kind_load k" "se_store (sg_ev g' (sg_n g)) = kind_store k"
    "se_addr (sg_ev g' (sg_n g)) = a" "se_from (sg_ev g' (sg_n g)) = rf" "se_readers (sg_ev g' (sg_n g)) = []" "se_ext (sg_ev g' (sg_n g)) = e"
    "se_po (sg_ev g' (sg_n g)) = (if thread_events g p = [] then None else Some (last (thread_events g p)))"
  unfolding added_fields(2) [OF assms] by (rule new_event_fields)+

lemma last_thread_event:
  assumes "sg_wf g" "thread_events g p \<noteq> []"
  shows "last (thread_events g p) < sg_n g" "se_iid (sg_ev g (last (thread_events g p))) = IID p (length (thread_events g p))"
proof -
  have l: "length (thread_events g p) - 1 < length (thread_events g p)" "last (thread_events g p) = thread_events g p ! (length (thread_events g p) - 1)"
    using assms(2) by (simp_all add: last_conv_nth)
  show "last (thread_events g p) < sg_n g" "se_iid (sg_ev g (last (thread_events g p))) = IID p (length (thread_events g p))"
    using thread_events_nth [OF assms(1) l(1)] l by simp_all
qed

lemma added_wf_threads:
  assumes "sg_wf g" "added g p e k a rf A F R g'"
  shows "sg_threads g'"
  unfolding sg_threads_def
proof (intro conjI allI impI)
  note t = added_threads [OF assms(2)] and ev = added_event [OF assms(2)] and nw = added_new [OF assms(2)] and n = added_fields(1) [OF assms(2)]
  fix q assume q: "q < length (sg_by_pid g')"
  have lt: "\<forall>i\<in>set (thread_events g q). i < sg_n g" using thread_events_nth(2) [OF assms(1)] by (auto simp: in_set_conv_nth)
  show "sorted_wrt (<) (sg_by_pid g' ! q)" using t(2) [OF q] thread_events_sorted [OF assms(1), of q] lt by (simp add: sorted_wrt_append)
  fix j assume j: "j < length (sg_by_pid g' ! q)"
  have "sg_by_pid g' ! q ! j < sg_n g' \<and> se_iid (sg_ev g' (sg_by_pid g' ! q ! j)) = IID q (j + 1)"
  proof (cases "j < length (thread_events g q)")
    case True
    thus ?thesis using thread_events_nth [OF assms(1) True] ev(1) t(2) [OF q] n by (simp add: nth_append)
  next
    case False
    hence "q = p" "j = length (thread_events g q)" using j t(2) [OF q] by (auto split: if_splits)
    thus ?thesis using t(2) [OF q] nw(1) n by simp
  qed
  thus "sg_by_pid g' ! q ! j < sg_n g'" "se_iid (sg_ev g' (sg_by_pid g' ! q ! j)) = IID q (j + 1)" by simp_all
next
  note t = added_threads [OF assms(2)] and ev = added_event [OF assms(2)] and nw = added_new [OF assms(2)] and n = added_fields(1) [OF assms(2)]
  fix i assume i: "i < sg_n g'"
  have "ev_pid_of g' i < length (sg_by_pid g') \<and> 0 < ev_idx_of g' i \<and>
        ev_idx_of g' i \<le> length (sg_by_pid g' ! ev_pid_of g' i) \<and> sg_by_pid g' ! ev_pid_of g' i ! (ev_idx_of g' i - 1) = i \<and>
        se_po (sg_ev g' i) = (if ev_idx_of g' i = 1 then None else Some (sg_by_pid g' ! ev_pid_of g' i ! (ev_idx_of g' i - 2)))"
  proof (cases "i < sg_n g")
    case True
    note w = wf_event [OF assms(1) True]
    have p: "ev_pid_of g i < length (sg_by_pid g')" using w(1) t(1) by simp
    have e: "thread_events g (ev_pid_of g i) = sg_by_pid g ! ev_pid_of g i" using w(1) by (simp add: thread_events_def)
    have l: "ev_idx_of g i - 1 < length (sg_by_pid g ! ev_pid_of g i)" "ev_idx_of g i - 2 < length (sg_by_pid g ! ev_pid_of g i)" using w(2,3) by linarith+
    show ?thesis using w p l t(2) [OF p] by (simp add: ev(1,7) [OF True] e nth_append)
  next
    case False
    hence e: "i = sg_n g" using i n by simp
    have p: "p < length (sg_by_pid g')" using t(1) by simp
    show ?thesis using p t(2) [OF p] by (auto simp: e nw nth_append last_conv_nth)
  qed
  thus "ev_pid_of g' i < length (sg_by_pid g')" "0 < ev_idx_of g' i" "ev_idx_of g' i \<le> length (sg_by_pid g' ! ev_pid_of g' i)"
    "sg_by_pid g' ! ev_pid_of g' i ! (ev_idx_of g' i - 1) = i"
    "se_po (sg_ev g' i) = (if ev_idx_of g' i = 1 then None else Some (sg_by_pid g' ! ev_pid_of g' i ! (ev_idx_of g' i - 2)))" by blast+
qed

lemma added_cell:
  assumes "added g p e k a rf A F R g'" "i \<le> sg_n g"
  shows "se_addr (sg_ev g' i) = (if i = sg_n g then a else se_addr (sg_ev g i))" "se_store (sg_ev g' i) = (if i = sg_n g then kind_store k else se_store (sg_ev g i))"
    "se_load (sg_ev g' i) = (if i = sg_n g then kind_load k else se_load (sg_ev g i))" "se_from (sg_ev g' i) = (if i = sg_n g then rf else se_from (sg_ev g i))"
  using added_event(3-6) [OF assms(1), of i] added_new [OF assms(1)] assms(2) by auto

lemma added_wf_froms:
  assumes "sg_wf g" "added g p e k a rf A F R g'" "add_ok g k a rf A"
  shows "sg_froms g'"
  unfolding sg_froms_def
proof (intro allI impI)
  note c = added_cell [OF assms(2)] and n = added_fields(1) [OF assms(2)]
  fix i assume i: "i < sg_n g'"
  have old: "set (se_readers (sg_ev g j)) = {r. r < sg_n g \<and> se_from (sg_ev g r) = Some j}" if "j < sg_n g" for j
    using sg_wfD(3) [OF assms(1)] that by (simp add: sg_froms_def)
  have "w < i \<and> se_load (sg_ev g' i) \<and> se_store (sg_ev g' w) \<and> same_cell g' w i" if w: "se_from (sg_ev g' i) = Some w" for w
  proof (cases "i = sg_n g")
    case True
    hence rf: "rf = Some w" using w c(4) [of i] by simp
    hence "w < sg_n g" "kind_load k" "se_store (sg_ev g w)" "se_addr (sg_ev g w) = a" using assms(3) by (simp_all add: add_ok_def)
    thus ?thesis using True c [of i] c [of w] by (simp add: same_cell_def)
  next
    case False
    hence i': "i < sg_n g" using i n by simp
    hence "se_from (sg_ev g i) = Some w" using w c(4) [of i] by simp
    note wf_from [OF assms(1) i' this]
    thus ?thesis using i' c [of i] c [of w] by (simp add: same_cell_def)
  qed
  moreover have "set (se_readers (sg_ev g' i)) = {r. r < sg_n g' \<and> se_from (sg_ev g' r) = Some i}"
  proof (cases "i = sg_n g")
    case True
    have "se_from (sg_ev g' r) \<noteq> Some i" if "r < sg_n g'" for r
      using that c(4) [of r] assms(3) wf_from(2) [OF assms(1), of r i] n True by (cases "r = sg_n g") (auto simp: add_ok_def)
    thus ?thesis using True added_new(6) [OF assms(2)] by auto
  next
    case False
    hence i': "i < sg_n g" using i n by simp
    have "r < sg_n g' \<and> se_from (sg_ev g' r) = Some i \<longleftrightarrow> (r < sg_n g \<and> se_from (sg_ev g r) = Some i) \<or> (r = sg_n g \<and> rf = Some i)" for r
      using c(4) [of r] n by (cases "r = sg_n g") auto
    thus ?thesis using added_event(8) [OF assms(2) i'] old [OF i'] by auto
  qed
  ultimately show "(\<forall>w. se_from (sg_ev g' i) = Some w \<longrightarrow> w < i \<and> se_load (sg_ev g' i) \<and> se_store (sg_ev g' w) \<and> same_cell g' w i) \<and>
     set (se_readers (sg_ev g' i)) = {r. r < sg_n g' \<and> se_from (sg_ev g' r) = Some i}" by blast
qed

lemma added_near:
  assumes "sg_wf g" "sg_maps g" "added g p e k a rf A F R g'"
  shows "F \<subseteq> {..<sg_n g}" "R \<subseteq> {..<sg_n g}"
  using first_write_of(1) [OF assms(1,2)] init_read_of(1) [OF assms(2)] added_fields(14,15) [OF assms(3)] by (auto split: if_splits)

lemma added_wf_edges:
  assumes "sg_wf g" "sg_maps g" "added g p e k a rf A F R g'" "add_ok g k a rf A"
  shows "sg_edges_ok g'"
  unfolding sg_edges_ok_def
proof (intro allI impI)
  note f = added_fields [OF assms(3)] and ev = added_event [OF assms(3)] and near = added_near [OF assms(1-3)]
  let ?n = "sg_n g" and ?x = "new_event g p e k a rf"
  have A: "A \<subseteq> {..<?n}" using assms(4) by (simp add: add_ok_def)
  have old: "set (sg_ins g ! j) \<subseteq> {..<?n}" "set (sg_outs g ! j) = {i. i < ?n \<and> (j \<in> set (sg_ins g ! i) \<or> se_po (sg_ev g i) = Some j)}" if "j < ?n" for j
    using sg_wfD(4) [OF assms(1)] that by (simp_all add: sg_edges_ok_def)
  have po: "j < ?n" if "se_po ?x = Some j" for j
    using that last_thread_event(1) [OF assms(1)] by (auto simp: new_event_fields split: if_splits)
  fix i assume i: "i < sg_n g'"
  have "set (sg_ins g' ! i) \<subseteq> {..<sg_n g'}"
  proof (cases "i = ?n")
    case True
    thus ?thesis using f(9) A near(2) f(1) by auto
  next
    case False
    hence "i < ?n" using i f(1) by simp
    thus ?thesis using f(8) [of i] old(1) [of i] f(1) by auto
  qed
  moreover have "set (sg_outs g' ! i) = {j. j < sg_n g' \<and> (i \<in> set (sg_ins g' ! j) \<or> se_po (sg_ev g' j) = Some i)}"
  proof (cases "i = ?n")
    case True
    have "?n \<in> set (sg_ins g' ! j) \<longleftrightarrow> j \<in> F" if "j < ?n" for j using f(8) [OF that] old(1) [OF that] by auto
    moreover have "se_po (sg_ev g' j) \<noteq> Some ?n" if "j < ?n" for j
      unfolding ev(7) [OF that] using wf_po(1) [OF assms(1) that] that by (metis order_less_asym)
    moreover have "?n \<notin> set (sg_ins g' ! ?n)" "se_po (sg_ev g' ?n) \<noteq> Some ?n" using f(2,9) A near(2) po by auto
    ultimately have "j < sg_n g' \<and> (?n \<in> set (sg_ins g' ! j) \<or> se_po (sg_ev g' j) = Some ?n) \<longleftrightarrow> j \<in> F" for j
      using f(1) near(1) less_Suc_eq by (cases "j < ?n"; cases "j = ?n") auto
    thus ?thesis using True f(11) by simp
  next
    case False
    hence i': "i < ?n" using i f(1) by simp
    have "j < sg_n g' \<and> (i \<in> set (sg_ins g' ! j) \<or> se_po (sg_ev g' j) = Some i) \<longleftrightarrow>
        (j < ?n \<and> (i \<in> set (sg_ins g ! j) \<or> se_po (sg_ev g j) = Some i)) \<or> (j = ?n \<and> (se_po ?x = Some i \<or> i \<in> A \<union> R))" for j
    proof (cases "j < ?n")
      case True
      thus ?thesis unfolding f(1) f(8) [OF True] ev(7) [OF True] using i' by auto
    next
      case False
      thus ?thesis using f(1,2,9) by (cases "j = ?n") auto
    qed
    thus ?thesis unfolding f(10) [OF i'] old(2) [OF i'] by blast
  qed
  ultimately show "set (sg_ins g' ! i) \<subseteq> {..<sg_n g'} \<and> set (sg_outs g' ! i) = {j. j < sg_n g' \<and> (i \<in> set (sg_ins g' ! j) \<or> se_po (sg_ev g' j) = Some i)}" by blast
qed

lemma added_thread_writes:
  assumes "sg_wf g" "added g p e k a rf A F R g'"
  shows "thread_writes g' q b = thread_writes g q b @ (if q = p \<and> kind_store k \<and> b = a then [sg_n g] else [])"
proof -
  note t = added_threads [OF assms(2)] and c = added_cell [OF assms(2)]
  have w: "thread_writes h q b = filter (\<lambda>i. se_store (sg_ev h i) \<and> se_addr (sg_ev h i) = b) (thread_events h q)" for h
    by (simp add: thread_writes_def thread_events_def)
  have lt: "\<forall>i\<in>set (thread_events g q). i < sg_n g" using thread_events_nth(2) [OF assms(1)] by (auto simp: in_set_conv_nth)
  have "filter (\<lambda>i. se_store (sg_ev g' i) \<and> se_addr (sg_ev g' i) = b) (thread_events g q) =
        filter (\<lambda>i. se_store (sg_ev g i) \<and> se_addr (sg_ev g i) = b) (thread_events g q)"
    using lt c(1,2) by (intro filter_cong) auto
  thus ?thesis unfolding w t(3) using c(1,2) [of "sg_n g"] by auto
qed

lemma added_wf_writes:
  assumes "sg_wf g" "added g p e k a rf A F R g'"
  shows "sg_writes_ok g'" "length (sg_writes_by g') = length (sg_by_pid g')"
proof -
  note t = added_threads [OF assms(2)]
  let ?W = "enlarge [] (p + 1) (sg_writes_by g)"
  have w: "sg_writes_by g' = ?W[p := if kind_store k then AList.update a (map_get [] (?W ! p) a @ [sg_n g]) (?W ! p) else ?W ! p]"
    using assms(2) unfolding added_def Let_def new_event_fields(2,3) by (elim conjE)
  have l: "length (sg_writes_by g) = length (sg_by_pid g)" using wf_lengths(4) [OF assms(1)] .
  thus l': "length (sg_writes_by g') = length (sg_by_pid g')" by (simp add: w t(1) max.commute)
  have old: "map_get [] (?W ! q) b = thread_writes g q b" if q: "q < length (sg_by_pid g')" for q b
  proof -
    have "?W ! q = (if q < length (sg_by_pid g) then sg_writes_by g ! q else [])" using nth_enlarge [of q "sg_writes_by g" "p + 1"] q l t(1) by auto
    thus ?thesis using sg_wfD(5) [OF assms(1)] by (auto simp: sg_writes_ok_def thread_writes_def map_get_def)
  qed
  show "sg_writes_ok g'"
    unfolding sg_writes_ok_def
  proof (intro allI impI)
    fix q b assume q: "q < length (sg_by_pid g')"
    hence "q < length ?W" using l l' by (simp add: w)
    hence "map_get [] (sg_writes_by g' ! q) b = thread_writes g q b @ (if q = p \<and> kind_store k \<and> b = a then [sg_n g] else [])"
      using old [OF q] by (auto simp: w nth_list_update map_get_update)
    thus "map_get [] (sg_writes_by g' ! q) b = filter (\<lambda>i. se_store (sg_ev g' i) \<and> se_addr (sg_ev g' i) = b) (sg_by_pid g' ! q)"
      using added_thread_writes [OF assms, of q b] q by (simp add: thread_writes_def)
  qed
qed

lemma added_wf:
  assumes "sg_wf g" "sg_maps g" "added g p e k a rf A F R g'" "add_ok g k a rf A"
  shows "sg_wf g'"
  using added_wf_threads [OF assms(1,3)] added_wf_froms [OF assms(1,3,4)] added_wf_edges [OF assms] added_wf_writes [OF assms(1,3)]
    added_fields(12) [OF assms(3)] added_fields(1,4,5,6,7) [OF assms(3)] wf_lengths [OF assms(1)]
  by (simp add: sg_wf_def sg_lengths_def)

section \<open>Ready again\<close>

lemma added_edge:
  assumes "sg_wf g" "sg_maps g" "added g p e k a rf A F R g'" "add_ok g k a rf A"
  shows "sg_edge g' = sg_edge g \<union> {sg_n g} \<times> F \<union>
    {j. j \<in> A \<union> R \<or> (thread_events g p \<noteq> [] \<and> j = last (thread_events g p)) \<or> rf = Some j} \<times> {sg_n g}"
proof -
  note f = added_fields [OF assms(3)] and ev = added_event [OF assms(3)] and nw = added_new [OF assms(3)]
  let ?n = "sg_n g"
  have F: "F \<subseteq> {..<?n}" using added_near [OF assms(1-3)] by simp
  define P where "P = {j. j \<in> A \<union> R \<or> (thread_events g p \<noteq> [] \<and> j = last (thread_events g p)) \<or> rf = Some j}"
  have e: "(j, i) \<in> sg_edge h \<longleftrightarrow> i < sg_n h \<and> (se_po (sg_ev h i) = Some j \<or> se_from (sg_ev h i) = Some j \<or> j \<in> set (sg_ins h ! i))" for h j i
    by (simp add: sg_edge_def set_sg_preds)
  have old: "(j, i) \<in> sg_edge g' \<longleftrightarrow> (j, i) \<in> sg_edge g \<or> (j = ?n \<and> i \<in> F)" if i: "i < ?n" for i j
    unfolding e f(1) ev(6,7) [OF i] f(8) [OF i] using i by auto
  have new: "(j, ?n) \<in> sg_edge g' \<longleftrightarrow> j \<in> P" for j unfolding e f(1,9) nw(5,8) P_def by auto
  have "(j, i) \<in> sg_edge g' \<longleftrightarrow> (j, i) \<in> sg_edge g \<or> (j = ?n \<and> i \<in> F) \<or> (i = ?n \<and> j \<in> P)" for j i
  proof (cases i ?n rule: linorder_cases)
    case less
    thus ?thesis using old [OF less] by simp
  next
    case equal
    thus ?thesis using new F e [of j i g] by auto
  next
    case greater
    thus ?thesis using F e [of j i g] e [of j i g'] f(1) by auto
  qed
  hence "sg_edge g' = sg_edge g \<union> {?n} \<times> F \<union> P \<times> {?n}" by auto
  thus ?thesis by (simp add: P_def)
qed

lemma added_sound:
  assumes "vc_sound g i v" "added g p e k a rf A F R g'" "sg_edge g \<subseteq> sg_edge g'"
  shows "vc_sound g' i v"
proof -
  note t = added_threads [OF assms(2)]
  have "q < length (sg_by_pid g') \<and> l \<le> length (sg_by_pid g' ! q) \<and> (sg_by_pid g' ! q ! (l - 1), i) \<in> (sg_edge g')\<^sup>*"
    if l: "0 < l" "int l \<le> vc_at v q" for q l
  proof -
    have o: "q < length (sg_by_pid g)" "l \<le> length (sg_by_pid g ! q)" "(sg_by_pid g ! q ! (l - 1), i) \<in> (sg_edge g)\<^sup>*"
      using assms(1) l unfolding vc_sound_def by blast+
    have q: "q < length (sg_by_pid g')" using o(1) t(1) by simp
    have "l - 1 < length (sg_by_pid g ! q)" using l(1) o(2) by linarith
    thus ?thesis using q o t(2) [OF q] rtrancl_mono [OF assms(3)] by (auto simp: thread_events_def nth_append)
  qed
  thus ?thesis using assms(1) t(1) unfolding vc_sound_def by auto
qed

lemma added_seen:
  assumes "sg_wf g" "sg_sound g" "added g p e k a rf A F R g'" "w < sg_n g'" "i < sg_n g'" "int (ev_idx_of g' w) \<le> clock_at g' i (ev_pid_of g' w)"
  shows "w < sg_n g" "i < sg_n g" "int (ev_idx_of g w) \<le> clock_at g i (ev_pid_of g w)"
proof -
  note f = added_fields [OF assms(3)] and ev = added_event [OF assms(3)] and nw = added_new [OF assms(3)]
  have l: "length (sg_clocks g) = sg_n g" using wf_lengths(3) [OF assms(1)] .
  have pos: "0 < ev_idx_of g' w" using ev(1) [of w] nw(1) wf_event(2) [OF assms(1), of w] assms(4) f(1) by (cases "w = sg_n g") auto
  show i: "i < sg_n g"
  proof (rule ccontr)
    assume "\<not> i < sg_n g"
    hence "sg_clocks g' ! i = []" using assms(5) f(1,6) l by (simp add: nth_append)
    thus False using assms(6) pos by (simp add: vc_at_out)
  qed
  hence c: "sg_clocks g' ! i = sg_clocks g ! i" using f(6) l by (simp add: nth_append)
  show w: "w < sg_n g"
  proof (rule ccontr)
    assume "\<not> w < sg_n g"
    hence "w = sg_n g" using assms(4) f(1) by simp
    hence "int (length (thread_events g p) + 1) \<le> clock_at g i p" using assms(6) nw(1) c by simp
    moreover have "vc_sound g i (sg_clocks g ! i)" using assms(2) i by (simp add: sg_sound_def)
    ultimately show False unfolding vc_sound_def thread_events_def by fastforce
  qed
  show "int (ev_idx_of g w) \<le> clock_at g i (ev_pid_of g w)" using assms(6) ev(1) [OF w] c by simp
qed

lemma added_ready:
  assumes "sat_ready g" "sg_maps g" "added g p e k a rf A F R g'" "add_ok g k a rf A"
  shows "sat_ready g'"
proof -
  note r = sat_readyD [OF assms(1)] and f = added_fields [OF assms(3)] and ev = added_event [OF assms(3)] and nw = added_new [OF assms(3)]
  note ed = added_edge [OF r(1) assms(2-4)] and near = added_near [OF r(1) assms(2,3)]
  let ?n = "sg_n g"
  have sub: "sg_edge g \<subseteq> sg_edge g'" unfolding ed by blast
  have path: "(x, y) \<in> (sg_edge g)\<^sup>* \<Longrightarrow> (x, y) \<in> (sg_edge g')\<^sup>*" for x y using rtrancl_mono [OF sub] by blast
  have l: "length (sg_clocks g) = ?n" using wf_lengths(3) [OF r(1)] .
  have cl: "i < ?n \<Longrightarrow> sg_clocks g' ! i = sg_clocks g ! i" "sg_clocks g' ! ?n = []" for i using f(6) l by (simp_all add: nth_append)
  have cell: "se_addr (sg_ev g' i) = se_addr (sg_ev g i)" "se_store (sg_ev g' i) = se_store (sg_ev g i)" "se_load (sg_ev g' i) = se_load (sg_ev g i)"
    "se_from (sg_ev g' i) = se_from (sg_ev g i)" "se_iid (sg_ev g' i) = se_iid (sg_ev g i)" if "i < ?n" for i
    using ev [OF that] by simp_all
  have seen: "i < ?n \<and> seen_by g w i" if "i < sg_n g'" "seen_by g' w i" for w i
  proof -
    have "w < sg_n g'" "int (ev_idx_of g' w) \<le> clock_at g' i (ev_pid_of g' w)" using that(2) by (simp_all add: seen_by_def rivals_def)
    note s = added_seen [OF r(1,2) assms(3) this(1) that(1) this(2)]
    thus ?thesis using that(2) cell [OF s(1)] cell [OF s(2)] by (simp add: seen_by_def rivals_def same_cell_def)
  qed
  have "vc_sound g' ?n []" by (simp add: vc_sound_def vc_at_out vc_ok_def)
  hence "sg_sound g'" using r(2) added_sound [OF _ assms(3) sub] cl f(1) by (auto simp: sg_sound_def less_Suc_eq)
  moreover have "sg_under g'"
    unfolding sg_under_def
  proof (intro allI impI)
    fix i q assume i: "i < sg_n g'"
    show "clock_at g' i q \<le> vc_at (initial_vc (sg_ev g' i)) q \<or> (\<exists>j. (j, i) \<in> sg_edge g' \<and> clock_at g' i q \<le> clock_at g' j q)"
    proof (cases "i = ?n")
      case True
      thus ?thesis using cl(2) by (simp add: vc_at_out)
    next
      case False
      hence i': "i < ?n" using i f(1) by simp
      consider "clock_at g i q \<le> vc_at (initial_vc (sg_ev g i)) q" | j where "(j, i) \<in> sg_edge g" "clock_at g i q \<le> clock_at g j q"
        using r(3) i' unfolding sg_under_def by blast
      thus ?thesis
      proof cases
        case 1
        hence "clock_at g' i q \<le> vc_at (initial_vc (sg_ev g' i)) q" unfolding cl(1) [OF i'] initial_vc_def cell(5) [OF i'] .
        thus ?thesis by blast
      next
        case 2
        have "j < ?n" using wf_pred(1) [OF r(1) 2(1)] .
        thus ?thesis using 2 sub cl(1) [OF i'] cl(1) [of j] by auto
      qed
    qed
  qed
  moreover have "sg_settled g'"
    unfolding sg_settled_def
  proof (intro allI impI)
    fix i assume i: "i < sg_n g'" "i \<notin> set (sg_queue g')"
    hence i': "i < ?n" "i \<notin> set (sg_queue g)" "i \<notin> F" using f(1,13) by auto
    have "settled g i" using r(4) i' by (simp add: sg_settled_def)
    moreover have "(j, i) \<in> sg_edge g \<and> sg_clocks g' ! j = sg_clocks g ! j" if "(j, i) \<in> sg_edge g'" for j
    proof -
      have "(j, i) \<in> sg_edge g" using that i' unfolding ed by auto
      thus ?thesis using cl(1) [OF wf_pred(1) [OF r(1)]] by blast
    qed
    ultimately show "settled g' i" unfolding settled_def cl(1) [OF i'(1)] cell(5) [OF i'(1)] by simp
  qed
  moreover have "sg_coherent g'"
    unfolding sg_coherent_def
  proof (intro allI impI)
    fix i w assume i: "i < sg_n g'" "se_load (sg_ev g' i)" "seen_by g' w i"
    have s: "i < ?n" "seen_by g w i" using seen [OF i(1,3)] by simp_all
    obtain v where "se_from (sg_ev g i) = Some v" "(w, v) \<in> (sg_edge g)\<^sup>*"
      using r(5) s i(2) cell(3) [OF s(1)] unfolding sg_coherent_def by blast
    thus "\<exists>v. se_from (sg_ev g' i) = Some v \<and> (w, v) \<in> (sg_edge g')\<^sup>*" using cell(4) [OF s(1)] path by auto
  qed
  moreover have "counted_old g'"
  proof -
    have "j < sg_until g" if "i < sg_n g'" "j < sg_n g'" "int (ev_idx_of g' j) \<le> clock_at g' i (ev_pid_of g' j)" for i j
    proof -
      note s = added_seen [OF r(1,2) assms(3) that(2,1,3)]
      thus ?thesis using r(6) by (auto simp: counted_old_def counted_def)
    qed
    thus ?thesis by (auto simp: counted_old_def counted_def f(7))
  qed
  moreover have "sg_from_read {..<sg_until g'} g'"
    unfolding sg_from_read_def
  proof (intro allI impI ballI)
    fix i w x assume i: "i < sg_n g'" "se_store (sg_ev g' i)" "seen_by g' w i" "x \<in> set (se_readers (sg_ev g' w)) \<inter> {..<sg_until g'}"
    have s: "i < ?n" "seen_by g w i" using seen [OF i(1,3)] by simp_all
    hence w: "w < ?n" by (simp add: seen_by_def rivals_def)
    have "x \<noteq> ?n" using i(4) f(7) wf_lengths(5) [OF r(1)] by auto
    hence "x \<in> set (se_readers (sg_ev g w)) \<inter> {..<sg_until g}" using i(4) ev(8) [OF w] f(7) by auto
    hence "(x, i) \<in> (sg_edge g)\<^sup>*" using r(7) s i(2) cell(2) [OF s(1)] unfolding sg_from_read_def by blast
    thus "(x, i) \<in> (sg_edge g')\<^sup>*" by (rule path)
  qed
  ultimately show ?thesis using added_wf [OF r(1) assms(2-4)] by (simp add: sat_ready_def)
qed

text \<open>A load of the initial value comes before all stores to its address.\<close>

definition sg_init_first :: "sat_graph \<Rightarrow> bool" where
  "sg_init_first g = (\<forall>i < sg_n g. init_load g i \<longrightarrow> (\<forall>w\<in>rivals g i. (i, w) \<in> (sg_edge g)\<^sup>*))"

lemma added_maps:
  assumes "sg_wf g" "sg_maps g" "added g p e k a rf A F R g'" "map_of (sg_ids g) e = None"
  shows "sg_maps g'"
proof -
  note f = added_fields [OF assms(3)] and ev = added_event [OF assms(3)] and nw = added_new [OF assms(3)]
  let ?n = "sg_n g"
  have old: "sg_ids_ok g" "sg_firsts_ok g" "sg_inits_ok g" using assms(2) by (simp_all add: sg_maps_def)
  have "map_of (sg_ids g') x = Some i \<longleftrightarrow> i < sg_n g' \<and> se_ext (sg_ev g' i) = x" for x i
  proof -
    have o: "map_of (sg_ids g) y = Some j \<longleftrightarrow> j < ?n \<and> se_ext (sg_ev g j) = y" for y j using old(1) by (simp add: sg_ids_ok_def)
    have "map_of (sg_ids g') x = (if x = e then Some ?n else map_of (sg_ids g) x)" by (simp add: f(16) update_conv')
    moreover have "\<not> (j < ?n \<and> se_ext (sg_ev g j) = e)" for j using o [of e j] assms(4) by simp
    ultimately show ?thesis using o [of x i] ev(2) [of i] nw(7) f(1) by (cases i ?n rule: linorder_cases) auto
  qed
  hence "sg_ids_ok g'" by (simp add: sg_ids_ok_def)
  moreover have "sg_firsts_ok g'"
    unfolding sg_firsts_ok_def
  proof (intro allI conjI)
    fix b q
    have o: "map_of (map_get [] (sg_writes_at g) b) q = (case thread_writes g q b of [] \<Rightarrow> None | w # _ \<Rightarrow> Some w)" for q b
      using old(2) by (simp add: sg_firsts_ok_def)
    have d: "distinct (map fst (map_get [] (sg_writes_at g) b))" for b using old(2) by (simp add: sg_firsts_ok_def)
    have m: "map_get [] (sg_writes_at g') b = (if kind_store k \<and> thread_writes g p a = [] \<and> b = a
        then AList.update p ?n (map_get [] (sg_writes_at g) a) else map_get [] (sg_writes_at g) b)"
      by (simp add: f(17) map_get_update)
    show "distinct (map fst (map_get [] (sg_writes_at g') b))" using d distinct_update [OF d] by (simp add: m)
    show "map_of (map_get [] (sg_writes_at g') b) q = (case thread_writes g' q b of [] \<Rightarrow> None | w # _ \<Rightarrow> Some w)"
      unfolding m added_thread_writes [OF assms(1,3)] using o
      by (cases "kind_store k \<and> b = a \<and> q = p") (auto simp: update_conv' split: list.splits)
  qed
  moreover have "sg_inits_ok g'"
    unfolding sg_inits_ok_def
  proof (intro allI)
    fix b
    have o: "set (map_get [] (sg_init_reads g) b) = {i. i < ?n \<and> init_load g i \<and> se_addr (sg_ev g i) = b}" for b
      using old(3) by (simp add: sg_inits_ok_def)
    have m: "set (map_get [] (sg_init_reads g') b) = set (map_get [] (sg_init_reads g) b) \<union> {i. i = ?n \<and> kind_load k \<and> rf = None \<and> b = a}"
      by (auto simp: f(18) map_get_update)
    have "i < sg_n g' \<and> init_load g' i \<and> se_addr (sg_ev g' i) = b \<longleftrightarrow>
        (i < ?n \<and> init_load g i \<and> se_addr (sg_ev g i) = b) \<or> (i = ?n \<and> kind_load k \<and> rf = None \<and> b = a)" for i
      using ev(3,5,6) [of i] nw(2,4,5) f(1) by (cases i ?n rule: linorder_cases) (auto simp: init_load_def)
    thus "set (map_get [] (sg_init_reads g') b) = {i. i < sg_n g' \<and> init_load g' i \<and> se_addr (sg_ev g' i) = b}"
      unfolding m o by blast
  qed
  ultimately show ?thesis by (simp add: sg_maps_def)
qed

lemma thread_write_first:
  assumes "sg_wf g" "w < sg_n g" "se_store (sg_ev g w)"
  shows "\<exists>u us. thread_writes g (ev_pid_of g w) (se_addr (sg_ev g w)) = u # us \<and> u < sg_n g \<and> se_store (sg_ev g u) \<and>
    se_addr (sg_ev g u) = se_addr (sg_ev g w) \<and> ev_pid_of g u = ev_pid_of g w \<and> (u, w) \<in> (sg_edge g)\<^sup>*"
proof -
  let ?p = "ev_pid_of g w" and ?evs = "sg_by_pid g ! ev_pid_of g w"
  let ?P = "\<lambda>i. se_store (sg_ev g i) \<and> se_addr (sg_ev g i) = se_addr (sg_ev g w)"
  note e = wf_event [OF assms(1,2)]
  have tw: "thread_writes g ?p (se_addr (sg_ev g w)) = filter ?P ?evs" using e(1) by (simp add: thread_writes_def)
  have we: "w \<in> set ?evs" using e(2-4) by (metis One_nat_def Suc_le_eq diff_less less_le_trans nth_mem zero_less_one)
  hence "w \<in> set (filter ?P ?evs)" using assms(3) by simp
  then obtain u us where u: "filter ?P ?evs = u # us" by (cases "filter ?P ?evs") auto
  hence "u \<in> set (filter ?P ?evs)" by simp
  hence ue: "u \<in> set ?evs" "?P u" by simp_all
  have "sorted_wrt (<) (filter ?P ?evs)" using wf_thread_sorted [OF assms(1) e(1)] by (rule sorted_wrt_filter)
  hence "u \<le> w" using u \<open>w \<in> set (filter ?P ?evs)\<close> by (auto simp: order.order_iff_strict)
  obtain i j where ij: "i < length ?evs" "?evs ! i = u" "j < length ?evs" "?evs ! j = w" using ue(1) we by (auto simp: in_set_conv_nth)
  have "i \<le> j" using sorted_wrt_less_nth_less_iff [OF wf_thread_sorted [OF assms(1) e(1)] ij(3,1)] ij(2,4) \<open>u \<le> w\<close> by (simp add: not_less [symmetric])
  hence "(u, w) \<in> (sg_edge g)\<^sup>*" using wf_thread_path [OF assms(1) e(1) _ ij(3), of i] ij(2,4) by simp
  thus ?thesis using u tw ue(2) wf_thread [OF assms(1) e(1) ij(1)] ij(2) by auto
qed

lemma added_init_first:
  assumes "sg_wf g" "sg_maps g" "sg_init_first g" "added g p e k a rf A F R g'" "add_ok g k a rf A"
  shows "sg_init_first g'"
  unfolding sg_init_first_def
proof (intro allI impI ballI)
  note f = added_fields [OF assms(4)] and ev = added_event [OF assms(4)] and nw = added_new [OF assms(4)] and c = added_cell [OF assms(4)]
  note ed = added_edge [OF assms(1,2,4,5)] and wf = added_wf [OF assms(1,2,4,5)]
  let ?n = "sg_n g"
  have path: "(x, y) \<in> (sg_edge g)\<^sup>* \<Longrightarrow> (x, y) \<in> (sg_edge g')\<^sup>*" for x y using rtrancl_mono [of "sg_edge g" "sg_edge g'"] ed by blast
  fix i w assume i: "i < sg_n g'" "init_load g' i" and "w \<in> rivals g' i"
  hence w: "w < sg_n g'" "w \<noteq> i" "se_store (sg_ev g' w)" "se_addr (sg_ev g' w) = se_addr (sg_ev g' i)" by (simp_all add: rivals_def same_cell_def)
  consider (new) "i = ?n" "w < ?n" | (old) "i < ?n" "w < ?n" | (store) "i < ?n" "w = ?n" using i(1) w(1,2) f(1) by linarith
  thus "(i, w) \<in> (sg_edge g')\<^sup>*"
  proof cases
    case old
    hence "init_load g i" "w \<in> rivals g i" using i(2) w c [of i] c [of w] by (simp_all add: init_load_def rivals_def same_cell_def)
    thus ?thesis using assms(3) old(1) path unfolding sg_init_first_def by blast
  next
    case new
    have a: "kind_load k" "rf = None" "se_store (sg_ev g w)" "se_addr (sg_ev g w) = a" using new i(2) w c [of i] c [of w] by (auto simp: init_load_def)
    obtain u us where u: "thread_writes g (ev_pid_of g w) a = u # us" "(u, w) \<in> (sg_edge g)\<^sup>*"
      using thread_write_first [OF assms(1) new(2) a(3)] a(4) by blast
    have "map_of (map_get [] (sg_writes_at g) a) (ev_pid_of g w) = Some u" using assms(2) u(1) by (simp add: sg_maps_def sg_firsts_ok_def)
    hence "u \<in> F" using f(14) a(1,2) by (force dest: map_of_SomeD)
    hence "(i, u) \<in> sg_edge g'" unfolding ed new(1) by simp
    thus ?thesis using path [OF u(2)] by (rule converse_rtrancl_into_rtrancl)
  next
    case store
    have a: "kind_store k" "init_load g i" "se_addr (sg_ev g i) = a" using store i(2) w c [of i] c [of w] by (auto simp: init_load_def)
    show ?thesis
    proof (cases "thread_writes g p a")
      case Nil
      have "i \<in> R" using f(15) a Nil assms(2) store(1) by (simp add: sg_maps_def sg_inits_ok_def)
      thus ?thesis unfolding ed store(2) by blast
    next
      case (Cons u us)
      have "map_of (map_get [] (sg_writes_at g) a) p = Some u" using assms(2) Cons by (simp add: sg_maps_def sg_firsts_ok_def)
      hence us: "u < ?n" "se_store (sg_ev g u)" "se_addr (sg_ev g u) = a" "ev_pid_of g u = p"
        using first_write_of(1-4) [OF assms(1,2) map_of_SomeD] by blast+
      have pid: "ev_pid_of g' u = ev_pid_of g' ?n" using ev(1) [OF us(1)] nw(1) us(4) by simp
      have "ev_idx_of g' u \<le> ev_idx_of g' ?n"
        using ev(1) [OF us(1)] nw(1) wf_event(1,3) [OF assms(1) us(1)] us(4) by (simp add: thread_events_def)
      hence "(u, ?n) \<in> (sg_edge g')\<^sup>*" using wf_same_thread_path [OF wf, of u ?n] us(1) f(1) pid by simp
      moreover have "(i, u) \<in> (sg_edge g')\<^sup>*"
      proof (cases "u = i")
        case False
        hence "u \<in> rivals g i" using us a(3) by (simp add: rivals_def same_cell_def)
        thus ?thesis using assms(3) store(1) a(2) path unfolding sg_init_first_def by blast
      qed simp
      ultimately show ?thesis unfolding store(2) by simp
    qed
  qed
qed

end
