(* ===== verification/SatReach.thy ===== *)
theory SatReach
  imports Prelude SatApi
begin

text \<open>
  Graphs built by the public operations, and what saturation decides about them.
\<close>

section \<open>The specification\<close>

text \<open>The executions asked for: orders of the events that respect the given constraints and in which
  every load reads what the graph says. None of the edges that the graph derives is mentioned.\<close>

definition spec_exec :: "sat_graph \<Rightarrow> (nat \<times> nat) set \<Rightarrow> (nat \<Rightarrow> nat) \<Rightarrow> bool" where
  "spec_exec g C pos = (inj_on pos {..<sg_n g} \<and> (\<forall>(i, j)\<in>C. pos i < pos j) \<and> reads_ok g pos)"

definition id_of :: "sat_graph \<Rightarrow> ext_id \<Rightarrow> nat" where
  "id_of g x = the (map_of (sg_ids g) x)"

text \<open>What a new event must come after: the last event of its thread and the events named.\<close>

definition before_new :: "sat_graph \<Rightarrow> nat \<Rightarrow> ext_id list \<Rightarrow> nat set" where
  "before_new g p after = id_of g ` set after \<union> (if thread_events g p = [] then {} else {last (thread_events g p)})"

definition reads_store :: "sat_graph \<Rightarrow> event_kind \<Rightarrow> sym_addr \<Rightarrow> ext_id option \<Rightarrow> bool" where
  "reads_store g k a from = (case from of None \<Rightarrow> True | Some x \<Rightarrow>
     has_event g x \<and> kind_load k \<and> event_is_store g x = Inr True \<and> se_addr (sg_ev g (id_of g x)) = a)"

text \<open>Reverse saturation expects a graph without cycles; it has nothing to do on a graph that was
  never saturated or has no new events.\<close>

definition reverse_safe :: "sat_graph \<Rightarrow> bool" where
  "reverse_safe g = (acyclic (sg_edge g) \<or> sg_until g = 0 \<or> sg_until g = sg_n g)"

inductive sg_reach :: "sat_graph \<Rightarrow> (nat \<times> nat) set \<Rightarrow> bool" where
  reach_empty: "sg_reach sg_empty {}"
| reach_event: "sg_reach g C \<Longrightarrow> \<not> has_event g e \<Longrightarrow> \<forall>x\<in>set after. has_event g x \<Longrightarrow> reads_store g k a from \<Longrightarrow>
    add_event g p e k a from after = Inr g' \<Longrightarrow> sg_reach g' (C \<union> before_new g p after \<times> {sg_n g})"
| reach_edge: "sg_reach g C \<Longrightarrow> has_event g x \<Longrightarrow> has_event g y \<Longrightarrow> add_edge g x y = Inr g' \<Longrightarrow>
    sg_reach g' (insert (id_of g x, id_of g y) C)"
| reach_saturate: "sg_reach g C \<Longrightarrow> reverse_safe g \<Longrightarrow> saturate g = Inr (True, g') \<Longrightarrow> sg_reach g' C"

lemma known_event:
  assumes "sg_maps g" "has_event g x"
  shows "map_of (sg_ids g) x = Some (id_of g x)" "id_of g x < sg_n g" "sg_id g x = Inr (id_of g x)"
proof -
  show m: "map_of (sg_ids g) x = Some (id_of g x)" using assms(2) by (auto simp: has_event_def id_of_def)
  thus "sg_id g x = Inr (id_of g x)" by (simp add: sg_id_def)
  show "id_of g x < sg_n g" using assms(1) m unfolding sg_maps_def sg_ids_ok_def by blast
qed

section \<open>Executions after an event was added\<close>

lemma reads_init: "reads_ok g pos \<Longrightarrow> i < sg_n g \<Longrightarrow> se_load (sg_ev g i) \<Longrightarrow> se_from (sg_ev g i) = None \<Longrightarrow> w \<in> rivals g i \<Longrightarrow> pos i < pos w"
  unfolding reads_ok_def by (metis (no_types, lifting) option.simps(4))

lemma reads_from: "reads_ok g pos \<Longrightarrow> i < sg_n g \<Longrightarrow> se_load (sg_ev g i) \<Longrightarrow> se_from (sg_ev g i) = Some v \<Longrightarrow> pos v < pos i"
  unfolding reads_ok_def by (metis (no_types, lifting) option.simps(5))

lemma exec_iff: "sg_exec g pos \<longleftrightarrow> spec_exec g (sg_edge g) pos"
  by (simp add: sg_exec_def spec_exec_def)

lemma added_reads_old:
  assumes "added g p e k a rf A F R g'" "reads_ok g' pos" "sg_wf g"
  shows "reads_ok g pos"
  unfolding reads_ok_def
proof (intro allI impI)
  note f = added_fields [OF assms(1)] and c = added_cell [OF assms(1)]
  fix i assume i: "i < sg_n g" "se_load (sg_ev g i)"
  have sub: "rivals g i \<subseteq> rivals g' i"
  proof
    fix w assume "w \<in> rivals g i"
    thus "w \<in> rivals g' i" using c [of i] c [of w] i f(1) by (auto simp: rivals_def same_cell_def)
  qed
  have "case se_from (sg_ev g' i) of None \<Rightarrow> (\<forall>w\<in>rivals g' i. pos i < pos w)
      | Some s \<Rightarrow> pos s < pos i \<and> (\<forall>w\<in>rivals g' i. pos w < pos i \<longrightarrow> pos w \<le> pos s)"
    using assms(2) i f(1) c(3) [of i] by (simp add: reads_ok_def)
  moreover have "se_from (sg_ev g' i) = se_from (sg_ev g i)" using c(4) [of i] i by simp
  ultimately show "case se_from (sg_ev g i) of None \<Rightarrow> (\<forall>w\<in>rivals g i. pos i < pos w)
      | Some s \<Rightarrow> pos s < pos i \<and> (\<forall>w\<in>rivals g i. pos w < pos i \<longrightarrow> pos w \<le> pos s)"
    using sub by (cases "se_from (sg_ev g i)") auto
qed

lemma added_exec:
  assumes "sg_wf g" "sg_maps g" "added g p e k a rf A F R g'" "add_ok g k a rf A"
  shows "sg_exec g' pos \<longleftrightarrow> sg_exec g pos \<and> inj_on pos {..<sg_n g'} \<and> reads_ok g' pos \<and>
    (\<forall>j\<in>A \<union> (if thread_events g p = [] then {} else {last (thread_events g p)}). pos j < pos (sg_n g))"
proof -
  note f = added_fields [OF assms(3)] and c = added_cell [OF assms(3)] and ed = added_edge [OF assms] and near = added_near [OF assms(1-3)]
  let ?n = "sg_n g" and ?P = "if thread_events g p = [] then {} else {last (thread_events g p)}"
  have frm: "pos ?n < pos w" if "reads_ok g' pos" "w \<in> F" for w
  proof -
    have a: "rf = None" "kind_load k" "w \<in> snd ` set (map_get [] (sg_writes_at g) a)" using that(2) f(14) by (auto split: if_splits)
    then obtain q where "(q, w) \<in> set (map_get [] (sg_writes_at g) a)" by auto
    note fw = first_write_of(1-3) [OF assms(1,2) this]
    have "w \<in> rivals g' ?n" using fw c [of w] c [of ?n] f(1) by (simp add: rivals_def same_cell_def)
    thus ?thesis using reads_init [OF that(1)] a c [of ?n] f(1) by simp
  qed
  have fromr: "pos r < pos ?n" if "reads_ok g' pos" "r \<in> R" for r
  proof -
    have a: "kind_store k" "r \<in> set (map_get [] (sg_init_reads g) a)" using that(2) f(15) by (auto split: if_splits)
    note ir = init_read_of [OF assms(2) a(2)]
    have "?n \<in> rivals g' r" using ir a(1) c [of r] c [of ?n] f(1) by (simp add: rivals_def same_cell_def)
    thus ?thesis using reads_init [OF that(1)] ir c [of r] f(1) by (simp add: init_load_def)
  qed
  have fromw: "pos w < pos ?n" if "reads_ok g' pos" "rf = Some w" for w
    using reads_from [OF that(1)] that(2) assms(4) c [of ?n] f(1) by (simp add: add_ok_def)
  have "(\<forall>(i, j)\<in>sg_edge g'. pos i < pos j) \<longleftrightarrow> (\<forall>(i, j)\<in>sg_edge g. pos i < pos j) \<and> (\<forall>j\<in>A \<union> ?P. pos j < pos ?n)"
    if r: "reads_ok g' pos"
  proof -
    have "(\<forall>(i, j)\<in>sg_edge g'. pos i < pos j) \<longleftrightarrow> (\<forall>(i, j)\<in>sg_edge g. pos i < pos j) \<and> (\<forall>w\<in>F. pos ?n < pos w) \<and>
        (\<forall>j\<in>A \<union> ?P \<union> R \<union> {w. rf = Some w}. pos j < pos ?n)"
      unfolding ed by auto
    thus ?thesis using frm [OF r] fromr [OF r] fromw [OF r] by blast
  qed
  moreover have "reads_ok g pos" if "reads_ok g' pos" using added_reads_old [OF assms(3) that assms(1)] .
  moreover have "inj_on pos {..<?n}" if "inj_on pos {..<sg_n g'}" using that f(1) by (auto intro: inj_on_subset)
  ultimately show ?thesis unfolding sg_exec_def by blast
qed

section \<open>Every reachable graph\<close>

lemma reads_store_ok:
  assumes "sg_maps g" "reads_store g k a from" "\<forall>x\<in>set after. has_event g x"
  shows "add_ok g k a (map_option (id_of g) from) (id_of g ` set after)"
    "\<forall>x. from = Some x \<longrightarrow> map_of (sg_ids g) x \<noteq> None" "\<forall>x\<in>set after. map_of (sg_ids g) x \<noteq> None"
proof -
  note k = known_event(2) [OF assms(1)]
  have s: "w < sg_n g \<and> kind_load k \<and> se_store (sg_ev g w) \<and> se_addr (sg_ev g w) = a" if w: "map_option (id_of g) from = Some w" for w
  proof -
    obtain x where x: "from = Some x" "w = id_of g x" using w by (cases "from") auto
    have h: "has_event g x" "kind_load k" "event_is_store g x = Inr True" "se_addr (sg_ev g w) = a"
      using assms(2) x by (simp_all add: reads_store_def)
    have "sg_id g x = Inr w" using known_event(3) [OF assms(1) h(1)] x(2) by simp
    hence "se_store (sg_ev g w)" using h(3) k [OF h(1)] x(2) by (simp add: event_is_store_def)
    thus ?thesis using h k [OF h(1)] x(2) by simp
  qed
  show "add_ok g k a (map_option (id_of g) from) (id_of g ` set after)" using s k assms(3) by (auto simp: add_ok_def)
  show "\<forall>x. from = Some x \<longrightarrow> map_of (sg_ids g) x \<noteq> None" using assms(2) by (auto simp: reads_store_def has_event_def)
  show "\<forall>x\<in>set after. map_of (sg_ids g) x \<noteq> None" using assms(3) by (simp add: has_event_def)
qed

lemma add_event_spec:
  assumes "sg_wf g" "sg_maps g" "\<not> has_event g e" "\<forall>x\<in>set after. has_event g x" "reads_store g k a from"
  shows "\<exists>F R g'. add_event g p e k a from after = Inr g' \<and>
    added g p e k a (map_option (id_of g) from) (id_of g ` set after) F R g' \<and>
    add_ok g k a (map_option (id_of g) from) (id_of g ` set after)"
proof -
  note o = reads_store_ok [OF assms(2,5,4)]
  have "map_of (sg_ids g) e = None" using assms(3) by (simp add: has_event_def)
  thus ?thesis using add_event_added [OF assms(1,2) _ o(3,2), of e p k a, folded id_of_def] o(1) unfolding id_of_def [symmetric] by blast
qed

lemma maps_same:
  assumes "sg_maps g" "sg_events h = sg_events g" "sg_ids h = sg_ids g" "sg_writes_at h = sg_writes_at g" "sg_init_reads h = sg_init_reads g"
    "sg_by_pid h = sg_by_pid g"
  shows "sg_maps h"
  using assms(1) unfolding sg_maps_def sg_ids_ok_def sg_firsts_ok_def sg_inits_ok_def thread_writes_def init_load_def assms(2-6) .

lemma init_first_more:
  assumes "sg_init_first g" "sg_events h = sg_events g" "sg_edge g \<subseteq> sg_edge h"
  shows "sg_init_first h"
  using assms(1) rtrancl_mono [OF assms(3)] unfolding sg_init_first_def init_load_def same_rivals [OF assms(2)] assms(2) by blast

lemma reads_ok_same: "sg_events h = sg_events g \<Longrightarrow> spec_exec h C pos = spec_exec g C pos"
  using same_reads_ok [of h g pos] by (simp add: spec_exec_def)

definition sg_good :: "sat_graph \<Rightarrow> (nat \<times> nat) set \<Rightarrow> bool" where
  "sg_good g C = (sat_ready g \<and> sg_maps g \<and> sg_init_first g \<and> (\<forall>pos. sg_exec g pos = spec_exec g C pos))"

lemma good_empty: "sg_good sg_empty {}"
  by (simp add: sg_good_def sat_ready_def sg_wf_def sg_lengths_def sg_threads_def sg_froms_def sg_edges_ok_def sg_writes_ok_def
      sg_queue_ok_def sg_is_queued_def sg_sound_def sg_under_def sg_settled_def sg_coherent_def counted_old_def sg_from_read_def
      sg_maps_def sg_ids_ok_def sg_firsts_ok_def sg_inits_ok_def thread_writes_def map_get_def sg_init_first_def sg_exec_def
      spec_exec_def sg_edge_def sg_empty_def)

lemma good_event:
  assumes "sg_good g C" "\<not> has_event g e" "\<forall>x\<in>set after. has_event g x" "reads_store g k a from" "add_event g p e k a from after = Inr g'"
  shows "sg_good g' (C \<union> before_new g p after \<times> {sg_n g})"
proof -
  have g: "sat_ready g" "sg_maps g" "sg_init_first g" "\<And>pos. sg_exec g pos = spec_exec g C pos" using assms(1) by (simp_all add: sg_good_def)
  note wf = sat_readyD(1) [OF g(1)]
  obtain F R where ad: "added g p e k a (map_option (id_of g) from) (id_of g ` set after) F R g'"
    and ok: "add_ok g k a (map_option (id_of g) from) (id_of g ` set after)"
    using add_event_spec [OF wf g(2) assms(2-4), of p] assms(5) by auto
  have n: "map_of (sg_ids g) e = None" using assms(2) by (simp add: has_event_def)
  have "sg_exec g' pos = spec_exec g' (C \<union> before_new g p after \<times> {sg_n g}) pos" for pos
    unfolding added_exec [OF wf g(2) ad ok] g(4) before_new_def spec_exec_def
    using added_reads_old [OF ad _ wf, of pos] added_fields(1) [OF ad] by (auto intro: inj_on_subset)
  thus ?thesis using added_ready [OF g(1,2) ad ok] added_maps [OF wf g(2) ad n] added_init_first [OF wf g(2,3) ad ok]
    by (simp add: sg_good_def)
qed

lemma good_edge:
  assumes "sg_good g C" "has_event g x" "has_event g y"
  shows "\<exists>g'. add_edge g x y = Inr g' \<and> sg_good g' (insert (id_of g x, id_of g y) C) \<and> sg_same g g' \<and>
    sg_edge g' = insert (id_of g x, id_of g y) (sg_edge g) \<and> sg_queue g' \<noteq> []"
proof -
  have g: "sat_ready g" "sg_maps g" "sg_init_first g" "\<And>pos. sg_exec g pos = spec_exec g C pos" using assms(1) by (simp_all add: sg_good_def)
  note wf = sat_readyD(1) [OF g(1)]
  have k: "sg_id g z = Inr (id_of g z) \<and> id_of g z < sg_n g" if "has_event g z" for z
    using known_event [OF g(2) that] by simp
  let ?i = "id_of g x" and ?j = "id_of g y"
  obtain g' where g': "add_edges g [(?i, ?j)] = Inr g'" "sg_wf g'" "sg_edge g' = insert (?i, ?j) (sg_edge g)" "sg_same g g'"
    "sg_clocks g' = sg_clocks g" "set (sg_queue g') = insert ?j (set (sg_queue g))"
    using add_edges [OF wf, of "[(?i, ?j)]"] k [OF assms(2)] k [OF assms(3)] by auto
  have e: "add_edge g x y = Inr g'" using g'(1) k [OF assms(2)] k [OF assms(3)]
    by (auto simp: add_edge_def add_edges_def bind_r_def split: sum.splits)
  note same = sg_sameD [OF g'(4)]
  have "sat_ready g'" by (rule ready_grown(5) [OF g(1) g'(4,2,5)]) (use g'(3,6) in auto)
  moreover have "sg_maps g'" by (rule maps_same [OF g(2)]) (simp_all add: same)
  moreover have "sg_init_first g'" by (rule init_first_more [OF g(3) same(1)]) (use g'(3) in auto)
  moreover have "sg_exec g' pos = spec_exec g' (insert (?i, ?j) C) pos" for pos
  proof -
    have "sg_exec g' pos \<longleftrightarrow> sg_exec g pos \<and> pos ?i < pos ?j"
      unfolding sg_exec_def g'(3) same_reads_ok [OF same(1)] same(1) by auto
    thus ?thesis unfolding g(4) spec_exec_def same_reads_ok [OF same(1)] same(1) by auto
  qed
  moreover have "sg_queue g' \<noteq> []" using g'(6) by auto
  ultimately show ?thesis using e g'(3,4) by (auto simp: sg_good_def)
qed

lemma good_saturate:
  assumes "sg_good g C" "reverse_safe g"
  shows "\<exists>ok g'. saturate g = Inr (ok, g') \<and> sg_same (g\<lparr>sg_until := sg_n g\<rparr>) g' \<and> sg_edge g \<subseteq> sg_edge g' \<and>
    (if ok then sg_good g' C \<and> sat_inv g' \<and> sg_queue g' = [] else \<forall>pos. \<not> spec_exec g C pos)"
proof -
  have g: "sat_ready g" "sg_maps g" "sg_init_first g" "\<And>pos. sg_exec g pos = spec_exec g C pos" using assms(1) by (simp_all add: sg_good_def)
  obtain ok g' where s: "saturate g = Inr (ok, g')" "sg_same (g\<lparr>sg_until := sg_n g\<rparr>) g'" "sg_edge g \<subseteq> sg_edge g'"
    "if ok then sat_inv g' \<and> sat_ready g' \<and> sg_queue g' = [] \<and> (\<forall>pos. sg_exec g' pos = sg_exec g pos) else \<forall>pos. \<not> sg_exec g pos"
    using saturate_ready [OF g(1)] assms(2) unfolding reverse_safe_def by blast
  note same = sg_sameD [OF s(2), simplified]
  have "sg_good g' C" if ok
  proof -
    have "sg_maps g'" by (rule maps_same [OF g(2)]) (simp_all add: same)
    moreover have "sg_init_first g'" by (rule init_first_more [OF g(3) same(1) s(3)])
    ultimately show ?thesis using s(4) that g(4) reads_ok_same [OF same(1)] by (simp add: sg_good_def)
  qed
  thus ?thesis using s g(4) by (intro exI [of _ ok] exI [of _ g']) auto
qed

lemma reach_good: "sg_reach g C \<Longrightarrow> sg_good g C"
proof (induction rule: sg_reach.induct)
  case reach_empty
  show ?case by (rule good_empty)
next
  case (reach_event g C e after k a "from" p g')
  show ?case by (rule good_event [OF reach_event.IH reach_event.hyps(2-5)])
next
  case (reach_edge g C x y g')
  show ?case using good_edge [OF reach_edge.IH reach_edge.hyps(2,3)] reach_edge.hyps(4) by auto
next
  case (reach_saturate g C g')
  show ?case using good_saturate [OF reach_saturate.IH reach_saturate.hyps(2)] reach_saturate.hyps(3) by auto
qed

lemma reach_parts:
  assumes "sg_reach g C"
  shows "sat_ready g" "sg_wf g" "sg_maps g" "sg_init_first g" "sg_exec g pos = spec_exec g C pos"
  using reach_good [OF assms] sat_readyD(1) by (simp_all add: sg_good_def)

section \<open>What saturation decides\<close>

text \<open>The rules of saturation: what comes before a load and writes its address comes before the store it
  reads; what comes after that store and writes the address comes after the load; a load of the initial
  value comes before all stores to its address.\<close>

definition rules_closed :: "sat_graph \<Rightarrow> bool" where
  "rules_closed g = (\<forall>i < sg_n g. se_load (sg_ev g i) \<longrightarrow> (\<forall>w\<in>rivals g i.
     (case se_from (sg_ev g i) of
        None \<Rightarrow> (i, w) \<in> (sg_edge g)\<^sup>* \<and> (w, i) \<notin> (sg_edge g)\<^sup>*
      | Some s \<Rightarrow> ((w, i) \<in> (sg_edge g)\<^sup>* \<longrightarrow> (w, s) \<in> (sg_edge g)\<^sup>*) \<and>
                 (w \<noteq> s \<longrightarrow> (s, w) \<in> (sg_edge g)\<^sup>* \<longrightarrow> (i, w) \<in> (sg_edge g)\<^sup>*))))"

definition clocks_exact :: "sat_graph \<Rightarrow> bool" where
  "clocks_exact g = (\<forall>i < sg_n g. \<forall>w < sg_n g. (w, i) \<in> (sg_edge g)\<^sup>* \<longleftrightarrow> int (ev_idx_of g w) \<le> clock_at g i (ev_pid_of g w))"

lemma final_closed:
  assumes "sat_inv g" "sg_queue g = []" "sg_init_first g"
  shows "rules_closed g"
  unfolding rules_closed_def
proof (intro allI impI ballI)
  fix i w assume i: "i < sg_n g" "se_load (sg_ev g i)" and w: "w \<in> rivals g i"
  have wn: "w < sg_n g" "se_store (sg_ev g w)" "same_cell g w i" "w \<noteq> i" using w by (simp_all add: rivals_def)
  have seen: "seen_by g w i" if "(w, i) \<in> (sg_edge g)\<^sup>*" using that final_exact [OF assms(1,2) wn(1) i(1)] w by (simp add: seen_by_def)
  have co: "\<exists>s. se_from (sg_ev g i) = Some s \<and> (w, s) \<in> (sg_edge g)\<^sup>*" if "(w, i) \<in> (sg_edge g)\<^sup>*"
    using sat_invD(5) [OF assms(1)] i seen [OF that] unfolding sg_coherent_def by blast
  show "case se_from (sg_ev g i) of None \<Rightarrow> (i, w) \<in> (sg_edge g)\<^sup>* \<and> (w, i) \<notin> (sg_edge g)\<^sup>*
      | Some s \<Rightarrow> ((w, i) \<in> (sg_edge g)\<^sup>* \<longrightarrow> (w, s) \<in> (sg_edge g)\<^sup>*) \<and> (w \<noteq> s \<longrightarrow> (s, w) \<in> (sg_edge g)\<^sup>* \<longrightarrow> (i, w) \<in> (sg_edge g)\<^sup>*)"
  proof (cases "se_from (sg_ev g i)")
    case None
    thus ?thesis using assms(3) i w co by (auto simp: sg_init_first_def init_load_def)
  next
    case (Some s)
    note f = wf_from [OF sat_invD(1) [OF assms(1)] i(1) Some]
    have "(i, w) \<in> (sg_edge g)\<^sup>*" if "w \<noteq> s" "(s, w) \<in> (sg_edge g)\<^sup>*"
    proof -
      have "seen_by g s w" using that f wn final_exact [OF assms(1,2) f(2) wn(1)] by (simp add: seen_by_def rivals_def same_cell_def)
      thus ?thesis using final_from_read [OF assms(1,2)] wn(1,2) f(6) unfolding sg_from_read_def by blast
    qed
    thus ?thesis using Some co by auto
  qed
qed

text \<open>C11: Saturation decides whether the events, the constraints given and the reads can be ordered as far as
  its rules go, on a graph built by the public operations that is acyclic, was never saturated or got no
  new events since: it ends without a failed assertion. When it answers \<open>false\<close>, no order of the events
  respects the constraints and the reads. When it answers \<open>true\<close>, the edges are acyclic, every order asked
  for respects them and no other, the clock of every event counts exactly the events before it, and the
  edges are closed under the rules of saturation. On other graphs, saturated before and cyclic by events
  added later, an assertion may fail instead (\<open>saturate_cyclic_asserts\<close>).\<close>

theorem saturate_decides:
  assumes "sg_reach g C" "reverse_safe g"
  shows "\<exists>ok g'. saturate g = Inr (ok, g') \<and> sg_events g' = sg_events g \<and>
    (if ok then is_saturated g' \<and> acyclic (sg_edge g') \<and> clocks_exact g' \<and> rules_closed g' \<and>
       (\<forall>pos. sg_exec g' pos = spec_exec g C pos)
     else \<forall>pos. \<not> spec_exec g C pos)"
proof -
  obtain ok g' where s': "saturate g = Inr (ok, g')" "sg_same (g\<lparr>sg_until := sg_n g\<rparr>) g'"
    "if ok then sg_good g' C \<and> sat_inv g' \<and> sg_queue g' = [] else \<forall>pos. \<not> spec_exec g C pos"
    using good_saturate [OF reach_good [OF assms(1)] assms(2)] by blast
  note s = s'(1) sg_sameD(1) [OF s'(2), simplified] s'(3)
  have "is_saturated g' \<and> acyclic (sg_edge g') \<and> clocks_exact g' \<and> rules_closed g' \<and> (\<forall>pos. sg_exec g' pos = spec_exec g C pos)" if ok
  proof -
    have g': "sg_good g' C" "sat_inv g'" "sg_queue g' = []" using s(3) that by simp_all
    thus ?thesis using final_acyclic [OF g'(2,3)] final_exact [OF g'(2,3)] final_closed [OF g'(2,3)] reads_ok_same [OF s(2)]
      by (simp add: is_saturated_def wq_empty_def clocks_exact_def sg_good_def)
  qed
  thus ?thesis using s by (intro exI [of _ ok] exI [of _ g']) auto
qed

text \<open>A store to \<open>x\<close> by one thread, which another one reads after a store of its own to \<open>x\<close>.\<close>

definition demo_addr :: "nat \<Rightarrow> sym_addr" where
  "demo_addr k = \<lparr>sa_block = \<lparr>mb_pid = 65535, mb_alloc = word_of_nat k\<rparr>, sa_offset = 0\<rparr>"

definition demo_ext :: "nat \<Rightarrow> ext_id" where
  "demo_ext k = IID 0 k"

primrec demo_run :: "sat_graph \<Rightarrow> (nat \<times> nat \<times> event_kind \<times> nat \<times> nat option) list \<Rightarrow> sat_graph result" where
  "demo_run g [] = Inr g"
| "demo_run g (x # xs) = (case x of (p, e, k, a, rf) \<Rightarrow>
     bind_r (add_event g p (demo_ext e) k (demo_addr a) (map_option demo_ext rf) []) (\<lambda>g. demo_run g xs))"

definition demo_ok :: "sat_graph \<Rightarrow> nat \<times> nat \<times> event_kind \<times> nat \<times> nat option \<Rightarrow> bool" where
  "demo_ok g x = (case x of (p, e, k, a, rf) \<Rightarrow> \<not> has_event g (demo_ext e) \<and> reads_store g k (demo_addr a) (map_option demo_ext rf))"

primrec demo_runs :: "sat_graph \<Rightarrow> (nat \<times> nat \<times> event_kind \<times> nat \<times> nat option) list \<Rightarrow> bool" where
  "demo_runs g [] = True"
| "demo_runs g (x # xs) = (case x of (p, e, k, a, rf) \<Rightarrow> demo_ok g x \<and>
     (case add_event g p (demo_ext e) k (demo_addr a) (map_option demo_ext rf) [] of Inr g' \<Rightarrow> demo_runs g' xs | Inl _ \<Rightarrow> False))"

lemma demo_reach: "sg_reach g C \<Longrightarrow> demo_runs g xs \<Longrightarrow> \<exists>g' C'. demo_run g xs = Inr g' \<and> sg_reach g' C'"
proof (induction xs arbitrary: g C)
  case (Cons x xs)
  obtain p e k a rf where x: "x = (p, e, k, a, rf)" by (cases x) auto
  obtain h where h: "add_event g p (demo_ext e) k (demo_addr a) (map_option demo_ext rf) [] = Inr h" "demo_runs h xs" "demo_ok g x"
    using Cons.prems(2) x by (auto split: sum.splits)
  have o: "\<not> has_event g (demo_ext e)" "reads_store g k (demo_addr a) (map_option demo_ext rf)" using h(3) x by (simp_all add: demo_ok_def)
  have "sg_reach h (C \<union> before_new g p [] \<times> {sg_n g})" using reach_event [OF Cons.prems(1) o(1) _ o(2) h(1)] by simp
  thus ?case using Cons.IH [OF _ h(2)] h(1) x by auto
qed auto

definition demo_graph :: "(nat \<times> nat \<times> event_kind \<times> nat \<times> nat option) list \<Rightarrow> sat_graph" where
  "demo_graph xs = (case demo_run sg_empty xs of Inr g \<Rightarrow> g | Inl _ \<Rightarrow> sg_empty)"

lemma demo_graph_reach: "demo_runs sg_empty xs \<Longrightarrow> \<exists>C. sg_reach (demo_graph xs) C"
  using demo_reach [OF sg_reach.reach_empty, of xs] by (auto simp: demo_graph_def)

definition demo_cross :: "(nat \<times> nat \<times> event_kind \<times> nat \<times> nat option) list" where
  "demo_cross = [(0, 1, K_STORE, 1, None), (0, 2, K_STORE, 0, None), (1, 3, K_LOAD, 0, Some 2), (1, 4, K_LOAD, 1, None)]"

lemma demo_cross_runs:
  "demo_runs sg_empty demo_cross" "sg_until (demo_graph demo_cross) = 0"
  "map_sum id fst (saturate (demo_graph demo_cross)) = Inr False"
  by code_simp+

theorem saturate_decides_witness:
  "\<exists>C. sg_reach (demo_graph demo_cross) C \<and> (\<forall>pos. \<not> spec_exec (demo_graph demo_cross) C pos)"
proof -
  obtain C where C: "sg_reach (demo_graph demo_cross) C" using demo_graph_reach [OF demo_cross_runs(1)] by blast
  have "reverse_safe (demo_graph demo_cross)" using demo_cross_runs(2) by (simp add: reverse_safe_def)
  from saturate_decides [OF C this] obtain ok g' where s: "saturate (demo_graph demo_cross) = Inr (ok, g')"
    "\<not> ok \<Longrightarrow> \<forall>pos. \<not> spec_exec (demo_graph demo_cross) C pos" by (auto split: if_splits)
  have "\<not> ok" using demo_cross_runs(3) s(1) by simp
  thus ?thesis using C s(2) by blast
qed

text \<open>C12: The edges a graph derives when events and edges are added and when it is saturated never
  exclude an execution and never allow one: the orders that respect all edges of a reachable graph and
  its reads are those that respect program order, the happens-before edges given by the caller and the
  reads.\<close>

theorem derived_edges_conservative:
  assumes "sg_reach g C"
  shows "sg_exec g pos \<longleftrightarrow> spec_exec g C pos"
  by (rule reach_parts(5) [OF assms])

theorem derived_edges_conservative_witness:
  "\<exists>C. sg_reach (demo_graph demo_cross) C \<and> (\<forall>pos. sg_exec (demo_graph demo_cross) pos \<longleftrightarrow> spec_exec (demo_graph demo_cross) C pos)"
proof -
  obtain C where C: "sg_reach (demo_graph demo_cross) C" using demo_graph_reach [OF demo_cross_runs(1)] by blast
  thus ?thesis using derived_edges_conservative [OF C] by blast
qed

text \<open>C13: Adding an event to a reachable graph succeeds when its identifier is new, the events it
  happens after are known and it reads nothing or a known store to its address. The event gets the next
  position, the next index of its thread and the thread's last event as its predecessor; the events
  before it are unchanged but for the reader added to the store it reads; the graph has to be saturated
  again.\<close>

theorem add_event_appends:
  assumes "sg_reach g C" "\<not> has_event g e" "\<forall>x\<in>set after. has_event g x" "reads_store g k a from"
  shows "\<exists>g'. add_event g p e k a from after = Inr g' \<and> sg_size g' = sg_size g + 1 \<and> id_of g' e = sg_size g \<and>
    sg_ev g' (sg_size g) = new_event g p e k a (map_option (id_of g) from) \<and>
    (\<forall>i < sg_size g. sg_ev g' i = with_reader (sg_size g) (map_option (id_of g) from) i (sg_ev g i)) \<and>
    sg_reach g' (C \<union> before_new g p after \<times> {sg_size g}) \<and> \<not> is_saturated g'"
proof -
  obtain F R g' where g': "add_event g p e k a from after = Inr g'"
    "added g p e k a (map_option (id_of g) from) (id_of g ` set after) F R g'"
    using add_event_spec [OF reach_parts(2,3) [OF assms(1)] assms(2-4), of p] by blast
  note f = added_fields [OF g'(2)]
  have "set (sg_queue g') \<noteq> {}" using f(13) by simp
  hence "\<not> is_saturated g'" by (simp add: is_saturated_def wq_empty_def)
  moreover have "id_of g' e = sg_n g" by (simp add: id_of_def f(16) update_conv')
  ultimately show ?thesis using g'(1) f(1-3) reach_event [OF assms g'(1)] by (simp add: sg_size_def)
qed

theorem add_event_appends_witness:
  "\<exists>g'. add_event (demo_graph demo_cross) 1 (demo_ext 5) K_RMW (demo_addr 1) (Some (demo_ext 1)) [demo_ext 2] = Inr g' \<and> sg_size g' = 5"
proof -
  obtain C where C: "sg_reach (demo_graph demo_cross) C" using demo_graph_reach [OF demo_cross_runs(1)] by blast
  have h: "\<not> has_event (demo_graph demo_cross) (demo_ext 5)" "list_all (has_event (demo_graph demo_cross)) [demo_ext 2]"
    "reads_store (demo_graph demo_cross) K_RMW (demo_addr 1) (Some (demo_ext 1))" "sg_size (demo_graph demo_cross) = 4" by code_simp+
  have "\<forall>x\<in>set [demo_ext 2]. has_event (demo_graph demo_cross) x" using h(2) by (simp add: list_all_iff)
  thus ?thesis using add_event_appends [OF C h(1) _ h(3), of "[demo_ext 2]" 1] h(4) by auto
qed

text \<open>Every reachable graph passes the consistency check that the code runs before and after
  saturation: the vectors of incoming and outgoing edges mirror each other, stores list their readers,
  and loads name stores to their own address.\<close>

theorem reachable_consistent:
  assumes "sg_reach g C"
  shows "check_graph_consistency g"
  by (rule wf_consistent [OF reach_parts(2) [OF assms]])

theorem reachable_consistent_witness: "check_graph_consistency (demo_graph demo_cross)"
proof -
  obtain C where C: "sg_reach (demo_graph demo_cross) C" using demo_graph_reach [OF demo_cross_runs(1)] by blast
  show ?thesis by (rule reachable_consistent [OF C])
qed

text \<open>C14: Saturation ends: on a graph built by the public operations that is acyclic, was never saturated or got
  no new events since, its loop over the work queue needs no more iterations than the bound allows,
  \<open>(n * n + 1) * (n + 1)\<close> for \<open>n\<close> events, and then returns an answer.\<close>

theorem saturation_ends:
  assumes "sg_reach g C" "reverse_safe g"
  shows "\<exists>h. reverse_saturate g = Inr h \<and> (\<forall>k\<ge>saturate_fuel g. \<exists>r. saturate_loop k h = Inr r)"
proof -
  obtain h where h: "reverse_saturate g = Inr h" "sat_inv h" "sg_same (g\<lparr>sg_until := sg_n g\<rparr>) h"
    using reverse_saturate_ready [OF reach_parts(1) [OF assms(1)]] assms(2) unfolding reverse_safe_def by blast
  have "saturate_fuel h = saturate_fuel g" using sg_sameD(1) [OF h(3)] by (simp add: saturate_fuel_def)
  hence "\<exists>r. saturate_loop k h = Inr r" if "saturate_fuel g \<le> k" for k
    using saturate_loop_ends [OF h(2) less_le_trans [OF saturate_fuel_enough [OF h(2)]], of k] that by auto
  thus ?thesis using h(1) by blast
qed

theorem saturation_ends_witness:
  "\<exists>h. reverse_saturate (demo_graph demo_cross) = Inr h \<and> (\<forall>k\<ge>86. \<exists>r. saturate_loop k h = Inr r)"
proof -
  obtain C where C: "sg_reach (demo_graph demo_cross) C" using demo_graph_reach [OF demo_cross_runs(1)] by blast
  have "reverse_safe (demo_graph demo_cross)" using demo_cross_runs(2) by (simp add: reverse_safe_def)
  moreover have "saturate_fuel (demo_graph demo_cross) = 86" by code_simp
  ultimately show ?thesis using saturation_ends [OF C] by simp
qed

text \<open>A graph that became cyclic by its reads is not always answered with \<open>false\<close>. When its events are
  added before the first saturation the answer is \<open>false\<close>; when the two stores were saturated before the
  two loads are added, reverse saturation looks for the event with index 0 and the assertion that an
  index is positive fails.\<close>

theorem saturate_cyclic_asserts:
  "map_sum id fst (saturate (demo_graph demo_cross)) = Inr False \<and>
   bind_r (saturate (demo_graph (take 2 demo_cross))) (\<lambda>(ok, g). bind_r (demo_run g (drop 2 demo_cross)) saturate) = Inl Assert_failed"
  by (rule conjI; code_simp)

end
