(* ===== verification/PrefixHeur.thy ===== *)
theory PrefixHeur
  imports Prelude SatReach
begin

text \<open>
  The prefix heuristic (\<open>PrefixHeuristic.cpp\<close>): it completes a saturated graph by guessing the coherence
  order of the stores to every address, saturating after each guess, and sorts the result
  topologically. The flag stands for the option \<open>--no-heuristic\<close>.
\<close>

section \<open>The code\<close>

text \<open>\<open>std::find\<close>\<close>

definition find_pos :: "'a list \<Rightarrow> 'a \<Rightarrow> nat" where
  "find_pos xs x = length (takeWhile (\<lambda>y. y \<noteq> x) xs)"

primrec topo_visit :: "nat \<Rightarrow> sat_graph \<Rightarrow> ext_id list \<times> ext_id list \<Rightarrow> ext_id \<Rightarrow> (ext_id list \<times> ext_id list) result" where
  "topo_visit 0 g c x = Inl Out_of_fuel"
| "topo_visit (Suc k) g c x =
     (if x \<in> set (fst c) then Inr c
      else bind_r (event_in g x) (\<lambda>is.
           bind_r (fold_r (topo_visit k g) (fst c @ [x], snd c) is) (\<lambda>c. Inr (fst c, snd c @ [x]))))"

definition toposort :: "sat_graph \<Rightarrow> ext_id list \<Rightarrow> ext_id list result" where
  "toposort g ids = bind_r (fold_r (topo_visit (sg_size g + 1) g) ([], []) ids) (\<lambda>c. Inr (snd c))"

text \<open>The place of a store among the stores to its address: behind the last one that does not
  have to come after it.\<close>

fun ins_point :: "sat_graph \<Rightarrow> ext_id list \<Rightarrow> ext_id \<Rightarrow> vclock \<Rightarrow> ext_id list \<Rightarrow> nat \<Rightarrow> nat result" where
  "ins_point g ex w wc co 0 = Inr 0"
| "ins_point g ex w wc co (Suc p) =
     bind_r (event_vc g (co ! p)) (\<lambda>ic.
       assert_r (find_pos ex (co ! p) < find_pos ex w)
         (if \<not> vc_leq wc ic then Inr (Suc p) else ins_point g ex w wc co p))"

definition guess_coherence :: "sat_graph \<Rightarrow> ext_id list \<Rightarrow> ext_id \<Rightarrow> ext_id list \<Rightarrow> (ext_id list \<times> sat_graph) result" where
  "guess_coherence g ex w co =
     bind_r (event_vc g w) (\<lambda>wc.
     bind_r (ins_point g ex w wc co (length co)) (\<lambda>p.
     bind_r (if p \<noteq> 0 then add_edge g (co ! (p - 1)) w else Inr g) (\<lambda>g.
     bind_r (if p \<noteq> length co then add_edge g w (co ! p) else Inr g) (\<lambda>g.
       Inr (take p co @ w # drop p co, g)))))"

fun heur_loop :: "ext_id list \<Rightarrow> sat_graph \<Rightarrow> (sym_addr \<times> ext_id list) list \<Rightarrow> ext_id list \<Rightarrow> sat_graph option result" where
  "heur_loop ex g co [] = Inr (Some g)"
| "heur_loop ex g co (w # ws) =
     bind_r (event_is_store g w) (\<lambda>st.
       if \<not> st then heur_loop ex g co ws
       else bind_r (event_addr g w) (\<lambda>a.
            bind_r (guess_coherence g ex w (map_get [] co a)) (\<lambda>(l, g).
            bind_r (saturate g) (\<lambda>(ok, g).
              if ok then heur_loop ex g (AList.update a l co) ws else Inr None))))"

definition try_generate_prefix :: "bool \<Rightarrow> sat_graph \<Rightarrow> ext_id list \<Rightarrow> ext_id list option result" where
  "try_generate_prefix no_heuristic g ex =
     (if no_heuristic then Inr None
      else let ids = filter (has_event g) ex in
        bind_r (heur_loop ex g [] ids) (\<lambda>r.
          case r of None \<Rightarrow> Inr None | Some g \<Rightarrow> bind_r (toposort g ids) (\<lambda>v. Inr (Some v))))"

section \<open>Saturated graphs that can be reached\<close>

lemma reach_saturated:
  assumes "sg_reach g C" "is_saturated g"
  shows "sat_inv g" "sg_queue g = []" "sg_until g = sg_n g"
proof -
  have "sg_queue g = [] \<longrightarrow> sat_inv g \<and> sg_until g = sg_n g"
    using assms(1)
  proof (induction rule: sg_reach.induct)
    case reach_empty
    have "sat_inv sg_empty"
      by (simp add: sat_inv_def sg_wf_def sg_lengths_def sg_threads_def sg_froms_def sg_edges_ok_def sg_writes_ok_def
          sg_queue_ok_def sg_is_queued_def sg_sound_def sg_under_def sg_settled_def sg_coherent_def sg_from_read_later_def sg_empty_def)
    thus ?case by (simp add: sg_empty_def)
  next
    case (reach_event g C e after k a "from" p g')
    obtain F R where ad: "added g p e k a (map_option (id_of g) from) (id_of g ` set after) F R g'"
      using add_event_spec [OF reach_parts(2,3) [OF reach_event.hyps(1)] reach_event.hyps(2-4), of p] reach_event.hyps(5) by auto
    have "set (sg_queue g') \<noteq> {}" unfolding added_fields(13) [OF ad] by simp
    thus ?case by simp
  next
    case (reach_edge g C x y g')
    show ?case using good_edge [OF reach_good [OF reach_edge.hyps(1)] reach_edge.hyps(2,3)] reach_edge.hyps(4) by auto
  next
    case (reach_saturate g C g')
    obtain ok h where h: "saturate g = Inr (ok, h)" "sg_same (g\<lparr>sg_until := sg_n g\<rparr>) h"
      "if ok then sat_inv h \<and> sat_ready h \<and> sg_queue h = [] \<and> (\<forall>pos. sg_exec h pos = sg_exec g pos) else \<forall>pos. \<not> sg_exec g pos"
      using saturate_ready [OF reach_parts(1) [OF reach_saturate.hyps(1)]] reach_saturate.hyps(2) unfolding reverse_safe_def by blast
    thus ?case using reach_saturate.hyps(3) sg_sameD(1,4) [OF h(2)] by auto
  qed
  thus "sat_inv g" "sg_queue g = []" "sg_until g = sg_n g" using assms(2) by (simp_all add: is_saturated_def wq_empty_def)
qed

section \<open>The topological order\<close>

lemma known_ext:
  assumes "sg_maps g" "i < sg_n g"
  shows "has_event g (se_ext (sg_ev g i))" "id_of g (se_ext (sg_ev g i)) = i" "sg_id g (se_ext (sg_ev g i)) = Inr i"
proof -
  have "map_of (sg_ids g) (se_ext (sg_ev g i)) = Some i" using assms by (simp add: sg_maps_def sg_ids_ok_def)
  thus "has_event g (se_ext (sg_ev g i))" "id_of g (se_ext (sg_ev g i)) = i" "sg_id g (se_ext (sg_ev g i)) = Inr i"
    by (simp_all add: has_event_def id_of_def sg_id_def)
qed

lemma known_ext_id:
  assumes "sg_maps g" "has_event g x"
  shows "se_ext (sg_ev g (id_of g x)) = x"
  using known_event(1) [OF assms] assms(1) unfolding sg_maps_def sg_ids_ok_def by blast

lemma event_in_spec:
  assumes "sg_wf g" "sg_maps g" "i < sg_n g"
  shows "\<exists>js. event_in g (se_ext (sg_ev g i)) = Inr (map (\<lambda>j. se_ext (sg_ev g j)) js) \<and> set js = {j. (j, i) \<in> sg_edge g}"
proof -
  let ?e = "sg_ev g i"
  define js where "js = sg_ins g ! i @ (case se_po ?e of Some j \<Rightarrow> [j] | None \<Rightarrow> []) @ (case se_from ?e of Some j \<Rightarrow> [j] | None \<Rightarrow> [])"
  have s: "set js = {j. (j, i) \<in> sg_edge g}"
    using assms(3) by (auto simp: js_def sg_edge_def set_sg_preds split: option.splits)
  have "\<forall>j\<in>set js. j < sg_n g" using wf_pred(1) [OF assms(1)] s by blast
  hence "fold_r (\<lambda>r j. bind_r (at_r (sg_events g) j) (\<lambda>e. Inr (r @ [se_ext e]))) r js = Inr (r @ map (\<lambda>j. se_ext (sg_ev g j)) js)" for r
    by (induction js arbitrary: r) auto
  thus ?thesis using s known_ext(3) [OF assms(2,3)] assms(3) wf_lengths(1) [OF assms(1)]
    by (intro exI [of _ js]) (simp add: event_in_def js_def [symmetric])
qed

text \<open>Positions: a list of events in which what comes directly before an event stands before it.\<close>

definition preds_first :: "sat_graph \<Rightarrow> nat list \<Rightarrow> bool" where
  "preds_first g v = (\<forall>xs i ys. v = xs @ i # ys \<longrightarrow> {j. (j, i) \<in> sg_edge g} \<subseteq> set xs)"

lemma preds_first_Nil [simp]: "preds_first g []"
  by (simp add: preds_first_def)

lemma preds_first_snoc:
  assumes "preds_first g v" "{j. (j, i) \<in> sg_edge g} \<subseteq> set v"
  shows "preds_first g (v @ [i])"
  unfolding preds_first_def
proof (intro allI impI)
  fix xs k ys assume eq: "v @ [i] = xs @ k # ys"
  show "{j. (j, k) \<in> sg_edge g} \<subseteq> set xs"
  proof (cases ys rule: rev_cases)
    case Nil
    thus ?thesis using eq assms(2) by simp
  next
    case (snoc zs z)
    thus ?thesis using assms(1) eq unfolding preds_first_def by auto
  qed
qed

text \<open>The state of the search is given by the marked events, \<open>S\<close> being those on the way to the current one,
  and the order so far.\<close>

definition topo_state :: "sat_graph \<Rightarrow> nat list \<Rightarrow> nat list \<Rightarrow> ext_id list \<times> ext_id list" where
  "topo_state g m v = (map (\<lambda>i. se_ext (sg_ev g i)) m, map (\<lambda>i. se_ext (sg_ev g i)) v)"

definition topo_inv :: "sat_graph \<Rightarrow> nat set \<Rightarrow> nat list \<Rightarrow> nat list \<Rightarrow> bool" where
  "topo_inv g S m v = (set m = set v \<union> S \<and> set m \<subseteq> {..<sg_n g} \<and> distinct v \<and> set v \<inter> S = {} \<and> preds_first g v)"

lemma marked_iff:
  assumes "sg_maps g" "set m \<subseteq> {..<sg_n g}" "i < sg_n g"
  shows "se_ext (sg_ev g i) \<in> set (fst (topo_state g m v)) \<longleftrightarrow> i \<in> set m"
proof
  assume "se_ext (sg_ev g i) \<in> set (fst (topo_state g m v))"
  then obtain j where j: "j \<in> set m" "se_ext (sg_ev g i) = se_ext (sg_ev g j)" by (auto simp: topo_state_def)
  hence "i = j" using known_ext(2) [OF assms(1,3)] known_ext(2) [OF assms(1), of j] assms(2) by auto
  thus "i \<in> set m" using j(1) by simp
qed (simp add: topo_state_def)

lemma fold_topo:
  assumes "\<And>m v j. j \<in> set js \<Longrightarrow> topo_inv g S m v \<Longrightarrow> sg_n g - card (set m) < k \<Longrightarrow>
      \<exists>m' v'. f (topo_state g m v) (se_ext (sg_ev g j)) = Inr (topo_state g m' v') \<and> topo_inv g S m' v' \<and> set v \<subseteq> set v' \<and> j \<in> set v'"
    "topo_inv g S m v" "sg_n g - card (set m) < k"
  shows "\<exists>m' v'. fold_r f (topo_state g m v) (map (\<lambda>j. se_ext (sg_ev g j)) js) = Inr (topo_state g m' v') \<and> topo_inv g S m' v' \<and>
    set v \<subseteq> set v' \<and> set js \<subseteq> set v'"
  using assms
proof (induction js arbitrary: m v)
  case (Cons j js)
  obtain m1 v1 where 1: "f (topo_state g m v) (se_ext (sg_ev g j)) = Inr (topo_state g m1 v1)" "topo_inv g S m1 v1" "set v \<subseteq> set v1" "j \<in> set v1"
    using Cons.prems(1) [of j m v] Cons.prems(2,3) by auto
  have "set m \<subseteq> set m1" using 1(2,3) Cons.prems(2) by (auto simp: topo_inv_def)
  hence "card (set m) \<le> card (set m1)" by (intro card_mono) simp_all
  hence "sg_n g - card (set m1) < k" using Cons.prems(3) by linarith
  then obtain m2 v2 where "fold_r f (topo_state g m1 v1) (map (\<lambda>j. se_ext (sg_ev g j)) js) = Inr (topo_state g m2 v2)"
    "topo_inv g S m2 v2" "set v1 \<subseteq> set v2" "set js \<subseteq> set v2"
    using Cons.IH [OF _ 1(2)] Cons.prems(1) by (metis list.set_intros(2))
  thus ?case using 1 by (intro exI [of _ m2] exI [of _ v2]) auto
qed auto

lemma topo_visit:
  assumes "sg_wf g" "sg_maps g" "acyclic (sg_edge g)" "i < sg_n g" "topo_inv g S m v" "\<forall>s\<in>S. (i, s) \<in> (sg_edge g)\<^sup>+"
    "sg_n g - card (set m) < k"
  shows "\<exists>m' v'. topo_visit k g (topo_state g m v) (se_ext (sg_ev g i)) = Inr (topo_state g m' v') \<and> topo_inv g S m' v' \<and>
    set v \<subseteq> set v' \<and> i \<in> set v'"
  using assms(4-7)
proof (induction k arbitrary: i m v S)
  case (Suc k)
  have m: "set m \<subseteq> {..<sg_n g}" "set m = set v \<union> S" using Suc.prems(2) unfolding topo_inv_def by blast+
  note mk = marked_iff [OF assms(2) m(1) Suc.prems(1), of v]
  show ?case
  proof (cases "i \<in> set m")
    case True
    have "i \<notin> S" using Suc.prems(3) assms(3) by (auto simp: acyclic_def)
    hence "i \<in> set v" using True m(2) by blast
    thus ?thesis using True mk Suc.prems(2) by auto
  next
    case False
    obtain js where js: "event_in g (se_ext (sg_ev g i)) = Inr (map (\<lambda>j. se_ext (sg_ev g j)) js)" "set js = {j. (j, i) \<in> sg_edge g}"
      using event_in_spec [OF assms(1,2) Suc.prems(1)] by blast
    have inv: "topo_inv g (insert i S) (m @ [i]) v" using Suc.prems(1,2) False m by (auto simp: topo_inv_def)
    have "card (set (m @ [i])) = card (set m) + 1" "card (set m) < sg_n g"
      using False psubset_card_mono [of "{..<sg_n g}" "set m"] m(1) Suc.prems(1) by auto
    hence un: "sg_n g - card (set (m @ [i])) < k" using Suc.prems(4) by linarith
    have step: "\<exists>m' v'. topo_visit k g (topo_state g m v) (se_ext (sg_ev g j)) = Inr (topo_state g m' v') \<and>
        topo_inv g (insert i S) m' v' \<and> set v \<subseteq> set v' \<and> j \<in> set v'"
      if "j \<in> set js" "topo_inv g (insert i S) m v" "sg_n g - card (set m) < k" for m v j
    proof (rule Suc.IH [OF _ that(2) _ that(3)])
      have e: "(j, i) \<in> sg_edge g" using that(1) js(2) by simp
      show "j < sg_n g" using wf_pred(1) [OF assms(1) e] .
      show "\<forall>s\<in>insert i S. (j, s) \<in> (sg_edge g)\<^sup>+" using Suc.prems(3) e by (auto intro: trancl_into_trancl2)
    qed
    obtain m' v' where r: "fold_r (topo_visit k g) (topo_state g (m @ [i]) v) (map (\<lambda>j. se_ext (sg_ev g j)) js) = Inr (topo_state g m' v')"
      "topo_inv g (insert i S) m' v'" "set v \<subseteq> set v'" "set js \<subseteq> set v'"
      using fold_topo [where js = js and k = k and f = "topo_visit k g", OF _ inv un] step by auto
    have "topo_inv g S m' (v' @ [i])"
      using r(2,4) js(2) preds_first_snoc [of g v' i] Suc.prems(2) False m by (auto simp: topo_inv_def)
    moreover have "topo_visit (Suc k) g (topo_state g m v) (se_ext (sg_ev g i)) = Inr (topo_state g m' (v' @ [i]))"
      using False mk js(1) r(1) by (simp add: topo_state_def)
    ultimately show ?thesis using r(3) by (intro exI [of _ m'] exI [of _ "v' @ [i]"]) auto
  qed
qed simp

lemma toposort_spec:
  assumes "sg_wf g" "sg_maps g" "acyclic (sg_edge g)" "set js = {..<sg_n g}"
  shows "\<exists>v. toposort g (map (\<lambda>j. se_ext (sg_ev g j)) js) = Inr (map (\<lambda>j. se_ext (sg_ev g j)) v) \<and> distinct v \<and> set v = {..<sg_n g} \<and> preds_first g v"
proof -
  have step: "\<exists>m' v'. topo_visit (sg_n g + 1) g (topo_state g m v) (se_ext (sg_ev g j)) = Inr (topo_state g m' v') \<and>
        topo_inv g {} m' v' \<and> set v \<subseteq> set v' \<and> j \<in> set v'"
    if "j \<in> set js" "topo_inv g {} m v" "sg_n g - card (set m) < sg_n g + 1" for m v j
    using topo_visit [OF assms(1-3) _ that(2) _ that(3), of j] that(1) assms(4) by auto
  have inv: "topo_inv g {} [] []" by (simp add: topo_inv_def)
  obtain m v where "fold_r (topo_visit (sg_n g + 1) g) (topo_state g [] []) (map (\<lambda>j. se_ext (sg_ev g j)) js) = Inr (topo_state g m v)"
    "topo_inv g {} m v" "set js \<subseteq> set v"
    using fold_topo [where js = js and k = "sg_n g + 1" and f = "topo_visit (sg_n g + 1) g", OF _ inv] step by auto
  thus ?thesis using assms(4) by (intro exI [of _ v]) (auto simp: toposort_def topo_state_def topo_inv_def sg_size_def)
qed

section \<open>The guessed coherence order\<close>

text \<open>Between two rounds the graph is saturated; the guesses made so far are constraints too.\<close>

definition heur_graph :: "sat_graph \<Rightarrow> (nat \<times> nat) set \<Rightarrow> bool" where
  "heur_graph g C = (sg_good g C \<and> sat_inv g \<and> sg_queue g = [] \<and> sg_until g = sg_n g)"

definition path_ids :: "sat_graph \<Rightarrow> ext_id \<Rightarrow> ext_id \<Rightarrow> bool" where
  "path_ids g x y = ((id_of g x, id_of g y) \<in> (sg_edge g)\<^sup>*)"

lemma path_ids_trans: "path_ids g x y \<Longrightarrow> path_ids g y z \<Longrightarrow> path_ids g x z"
  by (simp add: path_ids_def)

lemma path_ids_more:
  assumes "path_ids g x y" "sg_ids h = sg_ids g" "sg_edge g \<subseteq> sg_edge h"
  shows "path_ids h x y"
  using assms(1,2) rtrancl_mono [OF assms(3)] by (auto simp: path_ids_def id_of_def)

lemma heur_graphD:
  assumes "heur_graph g C"
  shows "sg_good g C" "sat_inv g" "sg_queue g = []" "sg_until g = sg_n g" "sg_wf g" "sg_maps g" "is_saturated g"
  using assms sat_invD(1) by (auto simp: heur_graph_def sg_good_def is_saturated_def wq_empty_def)

lemma event_vc_known:
  assumes "heur_graph g C" "has_event g x"
  shows "event_vc g x = Inr (sg_clocks g ! id_of g x)"
  using known_event [OF heur_graphD(6) [OF assms(1)] assms(2)] heur_graphD(7) [OF assms(1)] wf_lengths [OF heur_graphD(5) [OF assms(1)]]
  by (simp add: event_vc_def)

lemma leq_path:
  assumes "heur_graph g C" "has_event g x" "has_event g y" "vc_leq (sg_clocks g ! id_of g x) (sg_clocks g ! id_of g y)"
  shows "path_ids g x y"
proof -
  note h = heur_graphD [OF assms(1)]
  have n: "id_of g x < sg_n g" "id_of g y < sg_n g" using known_event(2) [OF h(6)] assms(2,3) by blast+
  have s: "vc_ok (sg_clocks g ! i)" "settled g i" if "i < sg_n g" for i
    using sat_invD(2,4) [OF h(2)] h(3) that by (simp_all add: sg_sound_def vc_sound_def sg_settled_def)
  have "\<forall>p. clock_at g (id_of g x) p \<le> clock_at g (id_of g y) p" using assms(4) vc_leq_iff [OF s(1) [OF n(1)] s(1) [OF n(2)]] by simp
  hence "int (ev_idx_of g (id_of g x)) \<le> clock_at g (id_of g y) (ev_pid_of g (id_of g x))"
    using s(2) [OF n(1)] order_trans unfolding settled_def by blast
  thus ?thesis using final_exact [OF h(2,3) n] by (simp add: path_ids_def)
qed

lemma ins_point_spec:
  assumes "heur_graph g C" "has_event g w" "\<forall>x\<in>set (take p co). has_event g x \<and> find_pos ex x < find_pos ex w" "p \<le> length co"
  shows "\<exists>q\<le>p. ins_point g ex w (sg_clocks g ! id_of g w) co p = Inr q \<and> (\<forall>j. q \<le> j \<longrightarrow> j < p \<longrightarrow> path_ids g w (co ! j))"
  using assms(3,4)
proof (induction p)
  case (Suc p)
  have m: "co ! p \<in> set (take (Suc p) co)" using Suc.prems(2) by (auto simp: in_set_conv_nth intro!: exI [of _ p])
  have t: "set (take p co) \<subseteq> set (take (Suc p) co)" by (rule set_take_subset_set_take) simp
  have e: "has_event g (co ! p)" "find_pos ex (co ! p) < find_pos ex w" using Suc.prems(1) m by auto
  show ?case
  proof (cases "vc_leq (sg_clocks g ! id_of g w) (sg_clocks g ! id_of g (co ! p))")
    case True
    have pt: "path_ids g w (co ! p)" by (rule leq_path [OF assms(1,2) e(1) True])
    obtain q where q: "q \<le> p" "ins_point g ex w (sg_clocks g ! id_of g w) co p = Inr q" "\<forall>j. q \<le> j \<longrightarrow> j < p \<longrightarrow> path_ids g w (co ! j)"
      using Suc.IH Suc.prems t by auto
    show ?thesis using q pt e True event_vc_known [OF assms(1) e(1)] by (intro exI [of _ q]) (auto simp: less_Suc_eq)
  next
    case False
    thus ?thesis using e event_vc_known [OF assms(1) e(1)] by (intro exI [of _ "Suc p"]) auto
  qed
qed simp

lemma add_edge_guess:
  assumes "sg_good g C" "has_event g x" "has_event g y"
  shows "\<exists>g' C'. add_edge g x y = Inr g' \<and> sg_good g' C' \<and> C \<subseteq> C' \<and> sg_same g g' \<and> sg_edge g \<subseteq> sg_edge g' \<and> path_ids g' x y"
proof -
  obtain g' where g': "add_edge g x y = Inr g'" "sg_good g' (insert (id_of g x, id_of g y) C)" "sg_same g g'"
    "sg_edge g' = insert (id_of g x, id_of g y) (sg_edge g)"
    using good_edge [OF assms] by blast
  have "path_ids g' x y" using g'(4) sg_sameD(7) [OF g'(3)] by (auto simp: path_ids_def id_of_def)
  thus ?thesis using g' by (intro exI [of _ g'] exI [of _ "insert (id_of g x, id_of g y) C"]) auto
qed

lemma same_has_event: "sg_same g h \<Longrightarrow> has_event h = has_event g" "sg_same g h \<Longrightarrow> id_of h = id_of g"
  by (auto simp: has_event_def id_of_def sg_same_def)

lemma chain_insert:
  assumes "\<And>x y z. R x y \<Longrightarrow> R y z \<Longrightarrow> R x z" "sorted_wrt R co" "p \<le> length co" "p \<noteq> 0 \<longrightarrow> R (co ! (p - 1)) w"
    "p \<noteq> length co \<longrightarrow> R w (co ! p)"
  shows "sorted_wrt R (take p co @ w # drop p co)"
proof -
  have co: "sorted_wrt R (take p co)" "sorted_wrt R (drop p co)" "\<forall>x\<in>set (take p co). \<forall>y\<in>set (drop p co). R x y"
    using assms(2) sorted_wrt_append [of R "take p co" "drop p co"] by simp_all
  have l: "R x w" if x: "x \<in> set (take p co)" for x
  proof -
    obtain k where k: "k < p" "k < length co" "x = co ! k" using x by (auto simp: in_set_conv_nth)
    have "R x (co ! (p - 1))" if "k \<noteq> p - 1"
    proof -
      have "k < p - 1" using k that by linarith
      thus ?thesis using sorted_wrt_nth_less [OF assms(2), of k "p - 1"] k assms(3) by simp
    qed
    thus ?thesis using assms(1,4) k by (metis not_less_zero)
  qed
  have r: "R w x" if x: "x \<in> set (drop p co)" for x
  proof -
    obtain k where k: "p \<le> k" "k < length co" "x = co ! k" using x by (auto simp: in_set_conv_nth) (metis add.commute less_diff_conv le_add1)
    have "R (co ! p) x" if "k \<noteq> p" using sorted_wrt_nth_less [OF assms(2), of p k] k that by simp
    thus ?thesis using assms(1,5) k by (metis le_less_trans less_irrefl)
  qed
  show ?thesis using co l r by (auto simp: sorted_wrt_append)
qed

lemma guess_coherence_spec:
  assumes "heur_graph g C" "has_event g w" "\<forall>x\<in>set co. has_event g x \<and> find_pos ex x < find_pos ex w" "sorted_wrt (path_ids g) co"
  shows "\<exists>l g' C'. guess_coherence g ex w co = Inr (l, g') \<and> sg_good g' C' \<and> C \<subseteq> C' \<and> sg_same g g' \<and> sg_edge g \<subseteq> sg_edge g' \<and>
    sorted_wrt (path_ids g') l \<and> set l = insert w (set co)"
proof -
  obtain p where p: "p \<le> length co" "ins_point g ex w (sg_clocks g ! id_of g w) co (length co) = Inr p"
    using ins_point_spec [OF assms(1,2), of "length co" co ex] assms(3) by auto
  obtain g1 C1 where 1: "(if p \<noteq> 0 then add_edge g (co ! (p - 1)) w else Inr g) = Inr g1" "sg_good g1 C1" "C \<subseteq> C1" "sg_same g g1"
    "sg_edge g \<subseteq> sg_edge g1" "p \<noteq> 0 \<longrightarrow> path_ids g1 (co ! (p - 1)) w"
  proof (cases "p = 0")
    case True
    thus ?thesis using that [of g C] heur_graphD(1) [OF assms(1)] by simp
  next
    case False
    hence "has_event g (co ! (p - 1))" using p(1) assms(3) by simp
    thus ?thesis using add_edge_guess [OF heur_graphD(1) [OF assms(1)] _ assms(2)] False that by fastforce
  qed
  obtain g2 C2 where 2: "(if p \<noteq> length co then add_edge g1 w (co ! p) else Inr g1) = Inr g2" "sg_good g2 C2" "C1 \<subseteq> C2" "sg_same g1 g2"
    "sg_edge g1 \<subseteq> sg_edge g2" "p \<noteq> length co \<longrightarrow> path_ids g2 w (co ! p)"
  proof (cases "p = length co")
    case True
    thus ?thesis using that [of g1 C1] 1(2) by simp
  next
    case False
    hence "has_event g1 w" "has_event g1 (co ! p)" using p(1) assms(2,3) same_has_event(1) [OF 1(4)] by simp_all
    thus ?thesis using add_edge_guess [OF 1(2)] False that by fastforce
  qed
  have up: "path_ids g2 x y" if "path_ids g x y" for x y
    by (rule path_ids_more [OF path_ids_more [OF that sg_sameD(7) [OF 1(4)] 1(5)] sg_sameD(7) [OF 2(4)] 2(5)])
  have "sorted_wrt (path_ids g2) (take p co @ w # drop p co)"
  proof (rule chain_insert [OF path_ids_trans _ p(1)])
    show "sorted_wrt (path_ids g2) co" using assms(4) up by (rule sorted_wrt_mono_rel [rotated])
    show "p \<noteq> 0 \<longrightarrow> path_ids g2 (co ! (p - 1)) w" using 1(6) path_ids_more [OF _ sg_sameD(7) [OF 2(4)] 2(5)] by blast
  qed (use 2(6) in auto)
  moreover have "guess_coherence g ex w co = Inr (take p co @ w # drop p co, g2)"
    by (simp only: guess_coherence_def event_vc_known [OF assms(1,2)] bind_r_simps p(2) 1(1) 2(1))
  moreover have "set (take p co @ w # drop p co) = insert w (set co)" by (metis append_take_drop_id list.simps(15) set_append Un_insert_right)
  ultimately show ?thesis using 2(2,4,5) 1(3-5) 2(3) sg_same_trans by (intro exI [of _ "take p co @ w # drop p co"] exI [of _ g2] exI [of _ C2]) blast
qed

text \<open>The list kept for an address holds the stores to it among the events handled so far, in an order
  that the edges of the graph enforce.\<close>

definition stores_at :: "sat_graph \<Rightarrow> sym_addr \<Rightarrow> ext_id set \<Rightarrow> ext_id set" where
  "stores_at g a D = {x\<in>D. se_store (sg_ev g (id_of g x)) \<and> se_addr (sg_ev g (id_of g x)) = a}"

definition coherence :: "sat_graph \<Rightarrow> (sym_addr \<Rightarrow> ext_id list) \<Rightarrow> ext_id set \<Rightarrow> bool" where
  "coherence g co D = (\<forall>a. sorted_wrt (path_ids g) (co a) \<and> set (co a) = stores_at g a D)"

lemma coherence_skip:
  assumes "coherence g co D" "\<not> se_store (sg_ev g (id_of g w))"
  shows "coherence g co (insert w D)"
  using assms by (auto simp: coherence_def stores_at_def)

lemma coherence_next:
  assumes "coherence g co D" "sg_same g h" "sg_edge g \<subseteq> sg_edge h" "sorted_wrt (path_ids h) l" "set l = insert w (set (co a))"
    "se_store (sg_ev g (id_of g w))" "se_addr (sg_ev g (id_of g w)) = a"
  shows "coherence h (co(a := l)) (insert w D)"
  unfolding coherence_def
proof
  fix b
  note same = same_has_event(2) [OF assms(2)] sg_sameD(1) [OF assms(2)]
  have m: "path_ids h x y" if "path_ids g x y" for x y by (rule path_ids_more [OF that sg_sameD(7) [OF assms(2)] assms(3)])
  have c: "sorted_wrt (path_ids g) (co b)" "set (co b) = stores_at g b D" for b using assms(1) by (simp_all add: coherence_def)
  have st: "stores_at h b X = stores_at g b X" for b X by (simp add: stores_at_def same)
  show "sorted_wrt (path_ids h) ((co(a := l)) b) \<and> set ((co(a := l)) b) = stores_at h b (insert w D)"
  proof (cases "b = a")
    case True
    thus ?thesis using assms(4-7) c(2) [of a] unfolding st by (auto simp: stores_at_def)
  next
    case False
    have "sorted_wrt (path_ids h) (co b)" using c(1) m by (rule sorted_wrt_mono_rel [rotated])
    thus ?thesis using False assms(7) c(2) [of b] unfolding st by (auto simp: stores_at_def)
  qed
qed

lemma coherence_more:
  assumes "coherence g co D" "sg_same g h" "sg_edge g \<subseteq> sg_edge h"
  shows "coherence h co D"
proof -
  note same = same_has_event(2) [OF assms(2)] sg_sameD(1) [OF assms(2)]
  have m: "path_ids h x y" if "path_ids g x y" for x y by (rule path_ids_more [OF that sg_sameD(7) [OF assms(2)] assms(3)])
  show ?thesis using assms(1) sorted_wrt_mono_rel [of _ "path_ids g" "path_ids h"] m by (simp add: coherence_def stores_at_def same)
qed

lemma heur_loop_spec:
  assumes "heur_graph g C" "\<forall>w\<in>D \<union> set ws. has_event g w \<and> (se_store (sg_ev g (id_of g w)) \<longrightarrow> event_addr g w = Inr (se_addr (sg_ev g (id_of g w))))"
    "\<forall>x\<in>D. \<forall>w\<in>set ws. find_pos ex x < find_pos ex w" "sorted_wrt (\<lambda>x w. find_pos ex x < find_pos ex w) ws"
    "coherence g (map_get [] co) D"
  shows "\<exists>r. heur_loop ex g co ws = Inr r \<and> (\<forall>h. r = Some h \<longrightarrow>
     (\<exists>C' co'. heur_graph h C' \<and> C \<subseteq> C' \<and> sg_same g h \<and> coherence h co' (D \<union> set ws)))"
  using assms
proof (induction ws arbitrary: g C co D)
  case Nil
  thus ?case by (auto intro!: exI [of _ C] exI [of _ "map_get [] co"])
next
  case (Cons w ws)
  note h = heur_graphD [OF Cons.prems(1)]
  have w: "has_event g w" using Cons.prems(2) by simp
  note k = known_event [OF h(6) w]
  have st: "event_is_store g w = Inr (se_store (sg_ev g (id_of g w)))" using k by (simp add: event_is_store_def)
  show ?case
  proof (cases "se_store (sg_ev g (id_of g w))")
    case False
    have "\<exists>r. heur_loop ex g co ws = Inr r \<and> (\<forall>h. r = Some h \<longrightarrow>
        (\<exists>C' co'. heur_graph h C' \<and> C \<subseteq> C' \<and> sg_same g h \<and> coherence h co' (insert w D \<union> set ws)))"
      by (rule Cons.IH [OF Cons.prems(1) _ _ _ coherence_skip [OF Cons.prems(5) False]]) (use Cons.prems(2-4) in auto)
    thus ?thesis using False st by simp
  next
    case True
    let ?a = "se_addr (sg_ev g (id_of g w))" and ?co = "map_get [] co (se_addr (sg_ev g (id_of g w)))"
    have a: "event_addr g w = Inr ?a" using True Cons.prems(2) by simp
    have co: "sorted_wrt (path_ids g) ?co" "set ?co \<subseteq> D" using Cons.prems(5) by (auto simp: coherence_def stores_at_def)
    have ord: "\<forall>x\<in>set ?co. has_event g x \<and> find_pos ex x < find_pos ex w" using co(2) Cons.prems(2,3) by auto
    obtain l g1 C1 where 1: "guess_coherence g ex w ?co = Inr (l, g1)" "sg_good g1 C1" "C \<subseteq> C1" "sg_same g g1" "sg_edge g \<subseteq> sg_edge g1"
      "sorted_wrt (path_ids g1) l" "set l = insert w (set ?co)"
      using guess_coherence_spec [OF Cons.prems(1) w ord co(1)] by blast
    have u1: "sg_until g1 = sg_n g1" using h(4) sg_sameD(1,4) [OF 1(4)] by simp
    hence rs: "reverse_safe g1" "g1\<lparr>sg_until := sg_n g1\<rparr> = g1" by (simp_all add: reverse_safe_def)
    obtain ok g2 where 2: "saturate g1 = Inr (ok, g2)" "sg_same g1 g2" "sg_edge g1 \<subseteq> sg_edge g2"
      "if ok then sg_good g2 C1 \<and> sat_inv g2 \<and> sg_queue g2 = [] else \<forall>pos. \<not> spec_exec g1 C1 pos"
      using good_saturate [OF 1(2) rs(1)] unfolding rs(2) by blast
    show ?thesis
    proof (cases ok)
      case False
      thus ?thesis using True st a 1(1) 2(1) by simp
    next
      case ok: True
      note same = sg_same_trans [OF 1(4) 2(2)]
      have g2: "heur_graph g2 C1" using ok 2(4) u1 sg_sameD(1,4) [OF 2(2)] by (simp add: heur_graph_def)
      have c2: "coherence g2 (map_get [] (AList.update ?a l co)) (insert w D)"
      proof -
        have "coherence g1 ((map_get [] co)(?a := l)) (insert w D)"
          by (rule coherence_next [OF Cons.prems(5) 1(4,5,6,7) True refl])
        moreover have "map_get [] (AList.update ?a l co) = (map_get [] co)(?a := l)" by (auto simp: map_get_update)
        ultimately show ?thesis using coherence_more [OF _ 2(2,3)] by simp
      qed
      have ev: "\<forall>w\<in>insert w D \<union> set ws. has_event g2 w \<and> (se_store (sg_ev g2 (id_of g2 w)) \<longrightarrow> event_addr g2 w = Inr (se_addr (sg_ev g2 (id_of g2 w))))"
        using Cons.prems(2) same_has_event [OF same] sg_sameD(1,7) [OF same] by (auto simp: event_addr_def sg_id_def)
      have "\<exists>r. heur_loop ex g2 (AList.update ?a l co) ws = Inr r \<and> (\<forall>h. r = Some h \<longrightarrow>
          (\<exists>C' co'. heur_graph h C' \<and> C1 \<subseteq> C' \<and> sg_same g2 h \<and> coherence h co' (insert w D \<union> set ws)))"
        by (rule Cons.IH [OF g2 ev _ _ c2]) (use Cons.prems(3,4) in auto)
      then obtain r where r: "heur_loop ex g2 (AList.update ?a l co) ws = Inr r" "\<forall>h. r = Some h \<longrightarrow>
          (\<exists>C' co'. heur_graph h C' \<and> C1 \<subseteq> C' \<and> sg_same g2 h \<and> coherence h co' (insert w D \<union> set ws))" by blast
      have "heur_loop ex g co (w # ws) = Inr r" using True st a 1(1) 2(1) ok r(1) by simp
      moreover have "\<exists>C' co'. heur_graph h C' \<and> C \<subseteq> C' \<and> sg_same g h \<and> coherence h co' (D \<union> set (w # ws))" if "r = Some h" for h
        using r(2) that 1(3) sg_same_trans [OF same] by (metis Un_insert_left Un_insert_right list.simps(15) subset_trans)
      ultimately show ?thesis by blast
    qed
  qed
qed

section \<open>The order is an execution\<close>

lemma find_pos_split: "x \<notin> set xs \<Longrightarrow> find_pos (xs @ x # ys) x = length xs"
  by (induction xs) (auto simp: find_pos_def)

lemma find_pos_prefix: "x \<in> set xs \<Longrightarrow> find_pos (xs @ ys) x < length xs"
  by (induction xs) (auto simp: find_pos_def)

lemma find_pos_inj: "x \<in> set xs \<Longrightarrow> y \<in> set xs \<Longrightarrow> find_pos xs x = find_pos xs y \<Longrightarrow> x = y"
  by (induction xs) (auto simp: find_pos_def split: if_splits)

lemma find_pos_map: "inj_on f (insert x (set xs)) \<Longrightarrow> find_pos (map f xs) (f x) = find_pos xs x"
  unfolding find_pos_def by (induction xs) (auto simp: inj_on_def)

lemma find_pos_sorted: "distinct xs \<Longrightarrow> sorted_wrt (\<lambda>x y. find_pos xs x < find_pos xs y) xs"
proof (rule sorted_wrt_iff_nth_less [THEN iffD2], intro allI impI)
  fix i j assume d: "distinct xs" and ij: "i < j" "j < length xs"
  have "find_pos xs (xs ! k) = k" if "k < length xs" for k
  proof -
    have "xs ! k \<notin> set (take k xs)" using d that by (auto simp: in_set_conv_nth nth_eq_iff_index_eq)
    thus ?thesis using find_pos_split [of "xs ! k" "take k xs" "drop (Suc k) xs"] id_take_nth_drop [OF that] that by simp
  qed
  thus "find_pos xs (xs ! i) < find_pos xs (xs ! j)" using ij by simp
qed

lemma preds_first_pos:
  assumes "preds_first g v" "set v = {..<sg_n g}" "sg_wf g" "(j, i) \<in> sg_edge g"
  shows "find_pos v j < find_pos v i"
proof -
  have "i \<in> set v" using wf_pred(2) [OF assms(3,4)] assms(2) by simp
  then obtain xs ys where v: "v = xs @ i # ys" "i \<notin> set xs" using split_list_first by metis
  have "j \<in> set xs" using assms(1,4) v(1) unfolding preds_first_def by blast
  thus ?thesis using find_pos_prefix [of j xs "i # ys"] find_pos_split [OF v(2), of ys] v(1) by simp
qed

lemma coherence_total:
  assumes "coherence g co (set (event_ids g))" "sg_maps g" "w \<in> rivals g i" "s < sg_n g" "se_store (sg_ev g s)" "same_cell g s i"
  shows "(w, s) \<in> (sg_edge g)\<^sup>* \<or> (s, w) \<in> (sg_edge g)\<^sup>*"
proof -
  let ?a = "se_addr (sg_ev g i)"
  have c: "sorted_wrt (path_ids g) (co ?a)" "set (co ?a) = stores_at g ?a (set (event_ids g))" using assms(1) by (simp_all add: coherence_def)
  have "se_ext (sg_ev g x) \<in> set (co ?a)" if "x < sg_n g" "se_store (sg_ev g x)" "same_cell g x i" for x
    using that known_ext(2) [OF assms(2) that(1)] c(2) by (auto simp: stores_at_def event_ids_def same_cell_def)
  hence "se_ext (sg_ev g w) \<in> set (co ?a)" "se_ext (sg_ev g s) \<in> set (co ?a)" using assms(3-6) by (auto simp: rivals_def)
  then obtain k l where kl: "k < length (co ?a)" "co ?a ! k = se_ext (sg_ev g w)" "l < length (co ?a)" "co ?a ! l = se_ext (sg_ev g s)"
    by (auto simp: in_set_conv_nth)
  have id: "id_of g (se_ext (sg_ev g w)) = w" "id_of g (se_ext (sg_ev g s)) = s"
    using known_ext(2) [OF assms(2)] assms(3,4) by (auto simp: rivals_def)
  show ?thesis
  proof (cases k l rule: linorder_cases)
    case less
    thus ?thesis using sorted_wrt_nth_less [OF c(1) less kl(3)] kl(2,4) id by (simp add: path_ids_def)
  next
    case equal
    thus ?thesis using kl(2,4) id by auto
  next
    case greater
    thus ?thesis using sorted_wrt_nth_less [OF c(1) greater kl(1)] kl(2,4) id by (simp add: path_ids_def)
  qed
qed

lemma coherent_exec:
  assumes "heur_graph g C" "coherence g co (set (event_ids g))" "inj_on pos {..<sg_n g}" "\<And>i j. (i, j) \<in> sg_edge g \<Longrightarrow> pos i < pos j"
  shows "spec_exec g C pos"
proof -
  note h = heur_graphD [OF assms(1)]
  have good: "sg_init_first g" "sg_exec g pos = spec_exec g C pos" using h(1) by (simp_all add: sg_good_def)
  note rules = final_closed [OF h(2,3) good(1), unfolded rules_closed_def, rule_format]
  have path: "pos i \<le> pos j" if "(i, j) \<in> (sg_edge g)\<^sup>*" for i j
    using that by induction (use assms(4) in force)+
  have strict: "pos i < pos j" if "(i, j) \<in> (sg_edge g)\<^sup>*" "i \<noteq> j" for i j
    using that assms(4) path by (metis le_less_trans not_le rtranclE)
  have "reads_ok g pos"
    unfolding reads_ok_def
  proof (intro allI impI)
    fix i assume i: "i < sg_n g" "se_load (sg_ev g i)"
    show "case se_from (sg_ev g i) of None \<Rightarrow> \<forall>w\<in>rivals g i. pos i < pos w
        | Some s \<Rightarrow> pos s < pos i \<and> (\<forall>w\<in>rivals g i. pos w < pos i \<longrightarrow> pos w \<le> pos s)"
    proof (cases "se_from (sg_ev g i)")
      case None
      have "pos i < pos w" if "w \<in> rivals g i" for w using rules [OF i that] None strict that by (auto simp: rivals_def)
      thus ?thesis using None by simp
    next
      case (Some s)
      note f = wf_from [OF h(5) i(1) Some]
      have e: "(s, i) \<in> sg_edge g" using i(1) Some by (simp add: sg_edge_def set_sg_preds)
      have "pos w \<le> pos s" if w: "w \<in> rivals g i" and lt: "pos w < pos i" for w
      proof -
        have "(w, s) \<in> (sg_edge g)\<^sup>* \<or> (s, w) \<in> (sg_edge g)\<^sup>*"
          using coherence_total [OF assms(2) h(6) w f(2)] f by (auto simp: same_cell_def)
        moreover have "(i, w) \<in> (sg_edge g)\<^sup>*" if "w \<noteq> s" "(s, w) \<in> (sg_edge g)\<^sup>*" using rules [OF i w] Some that by simp
        ultimately show ?thesis using path lt by (metis le_refl not_le)
      qed
      thus ?thesis using Some assms(4) [OF e] by simp
    qed
  qed
  hence "sg_exec g pos" using assms(3,4) by (auto simp: sg_exec_def)
  thus ?thesis using good(2) by simp
qed

lemma spec_exec_less:
  assumes "spec_exec h C' pos" "C \<subseteq> C'" "sg_same g h"
  shows "spec_exec g C pos"
proof -
  have "spec_exec h C pos" using assms(1,2) by (auto simp: spec_exec_def)
  thus ?thesis using reads_ok_same [OF sg_sameD(1) [OF assms(3)]] by simp
qed

text \<open>C15: what the heuristic returns is an execution.\<close>

theorem heuristic_sound:
  assumes "sg_reach g C" "is_saturated g" "distinct ex" "set (event_ids g) \<subseteq> set ex"
  shows "\<exists>r. try_generate_prefix off g ex = Inr r \<and>
    (\<forall>order. r = Some order \<longrightarrow> distinct order \<and> set order = set (event_ids g) \<and> spec_exec g C (\<lambda>i. find_pos order (se_ext (sg_ev g i))))"
proof (cases off)
  case True
  thus ?thesis by (simp add: try_generate_prefix_def)
next
  case False
  have g: "heur_graph g C" using reach_good [OF assms(1)] reach_saturated [OF assms(1,2)] by (simp add: heur_graph_def)
  note h = heur_graphD [OF g]
  let ?ids = "filter (has_event g) ex"
  have ev: "event_ids g = map (\<lambda>i. se_ext (sg_ev g i)) [0..<sg_n g]" by (rule nth_equalityI) (simp_all add: event_ids_def)
  have ids: "set ?ids = set (event_ids g)"
    using assms(4) known_ext(1) [OF h(6)] known_event(2) [OF h(6)] known_ext_id [OF h(6)] unfolding ev by force
  have kn: "\<forall>w\<in>{} \<union> set ?ids. has_event g w \<and> (se_store (sg_ev g (id_of g w)) \<longrightarrow> event_addr g w = Inr (se_addr (sg_ev g (id_of g w))))"
    using known_event [OF h(6)] by (auto simp: event_addr_def)
  have so: "sorted_wrt (\<lambda>x w. find_pos ex x < find_pos ex w) ?ids" using sorted_wrt_filter [OF find_pos_sorted [OF assms(3)]] .
  obtain r where r: "heur_loop ex g [] ?ids = Inr r" "\<forall>h. r = Some h \<longrightarrow>
      (\<exists>C' co'. heur_graph h C' \<and> C \<subseteq> C' \<and> sg_same g h \<and> coherence h co' ({} \<union> set ?ids))"
    using heur_loop_spec [OF g kn _ so, of "[]"] by (auto simp: coherence_def stores_at_def map_get_def)
  show ?thesis
  proof (cases r)
    case None
    thus ?thesis using r(1) False by (simp add: try_generate_prefix_def)
  next
    case (Some g')
    obtain C' co where c: "heur_graph g' C'" "C \<subseteq> C'" "sg_same g g'" "coherence g' co (set ?ids)" using r(2) Some by auto
    note h' = heur_graphD [OF c(1)] and ev' = sg_sameD(1) [OF c(3)]
    let ?x = "\<lambda>i. se_ext (sg_ev g i)"
    define js where "js = map (id_of g) ?ids"
    have "map (?x \<circ> id_of g) ?ids = ?ids" by (rule map_idI) (use known_ext_id [OF h(6)] in simp)
    hence js: "?ids = map ?x js" by (simp add: js_def)
    have "set js = id_of g ` ?x ` {..<sg_n g}" using ids unfolding js_def ev by (simp add: atLeast0LessThan)
    also have "\<dots> = {..<sg_n g}" using known_ext(2) [OF h(6)] by (force simp: image_image)
    finally have sj: "set js = {..<sg_n g'}" unfolding ev' .
    obtain v where v: "toposort g' (map ?x js) = Inr (map ?x v)" "distinct v" "set v = {..<sg_n g}" "preds_first g' v"
      using toposort_spec [OF h'(5,6) final_acyclic [OF h'(2,3)] sj] unfolding ev' by blast
    have inj: "inj_on ?x {..<sg_n g}" by (rule inj_on_inverseI [of _ "id_of g"]) (use known_ext(2) [OF h(6)] in simp)
    have pos: "find_pos (map ?x v) (?x i) = find_pos v i" if "i < sg_n g" for i
      by (rule find_pos_map) (use inj that v(3) in \<open>simp add: insert_absorb\<close>)
    have "spec_exec g' C' (\<lambda>i. find_pos (map ?x v) (?x i))"
    proof (rule coherent_exec [OF c(1)])
      show "coherence g' co (set (event_ids g'))" using c(4) ids by (simp add: event_ids_def ev')
      show "inj_on (\<lambda>i. find_pos (map ?x v) (?x i)) {..<sg_n g'}"
        using find_pos_inj [of _ v] v(3) pos unfolding ev' by (auto intro!: inj_onI)
      show "find_pos (map ?x v) (?x i) < find_pos (map ?x v) (?x j)" if "(i, j) \<in> sg_edge g'" for i j
        using preds_first_pos [OF v(4) _ h'(5) that] v(3) pos wf_pred [OF h'(5) that] unfolding ev' by simp
    qed
    hence "spec_exec g C (\<lambda>i. find_pos (map ?x v) (?x i))" using spec_exec_less c(2,3) by blast
    moreover have "distinct (map ?x v)" "set (map ?x v) = set (event_ids g)" using v(2,3) inj by (auto simp: distinct_map ev)
    moreover have "try_generate_prefix off g ex = Inr (Some (map ?x v))"
      using r(1) Some False v(1) js by (simp add: try_generate_prefix_def)
    ultimately show ?thesis by (intro exI [of _ "Some (map ?x v)"]) simp
  qed
qed

text \<open>Three threads store to one address; the second one then reads the store of the first, which therefore
  comes after its own.\<close>

definition demo_stores :: "(nat \<times> nat \<times> event_kind \<times> nat \<times> nat option) list" where
  "demo_stores = [(0, 1, K_STORE, 0, None), (1, 2, K_STORE, 0, None), (1, 3, K_LOAD, 0, Some 1), (2, 4, K_STORE, 0, None)]"

definition demo_saturated :: sat_graph where
  "demo_saturated = (case saturate (demo_graph demo_stores) of Inr (True, g) \<Rightarrow> g | _ \<Rightarrow> sg_empty)"

lemma demo_stores_runs:
  "demo_runs sg_empty demo_stores" "sg_until (demo_graph demo_stores) = 0"
  "(case saturate (demo_graph demo_stores) of Inr (True, g) \<Rightarrow> is_saturated g | _ \<Rightarrow> False)"
  "set (event_ids demo_saturated) = demo_ext ` {1, 2, 3, 4}"
  "try_generate_prefix False demo_saturated (map demo_ext [1, 2, 3, 4]) = Inr (Some (map demo_ext [2, 1, 3, 4]))"
  by code_simp+

theorem heuristic_sound_witness:
  "\<exists>C. sg_reach demo_saturated C \<and> spec_exec demo_saturated C (\<lambda>i. find_pos (map demo_ext [2, 1, 3, 4]) (se_ext (sg_ev demo_saturated i)))"
proof -
  obtain C where C: "sg_reach (demo_graph demo_stores) C" using demo_graph_reach [OF demo_stores_runs(1)] by blast
  have safe: "reverse_safe (demo_graph demo_stores)" using demo_stores_runs(2) by (simp add: reverse_safe_def)
  have s: "saturate (demo_graph demo_stores) = Inr (True, demo_saturated)" "is_saturated demo_saturated"
    using demo_stores_runs(3) by (auto simp: demo_saturated_def split: sum.splits prod.splits bool.splits)
  have r: "sg_reach demo_saturated C" by (rule reach_saturate [OF C safe s(1)])
  have "distinct (map demo_ext [1, 2, 3, 4])" "set (event_ids demo_saturated) \<subseteq> set (map demo_ext [1, 2, 3, 4])"
    using demo_stores_runs(4) by (simp_all add: demo_ext_def)
  from heuristic_sound [OF r s(2) this, of False] show ?thesis using r demo_stores_runs(5) by auto
qed

end
