(* ===== verification/RfscDecision.thy ===== *)
theory RfscDecision
  imports RfscSched SymEv PrefixHeur
begin

text \<open>
  The decision tree of the reads-from algorithm (\<open>RFSCDecisionTree.h\<close>, \<open>RFSCDecisionTree.cpp\<close>). A node is a place in
  a list, pointers to nodes are places; nodes are kept after the last pointer to them is gone, which
  nothing can tell. The set of unfolding nodes that a node holds for its children is a list in the order
  of insertion, the null pointer is \<open>None\<close>. The functions that lock a mutex are atomic.
\<close>

section \<open>Leaves\<close>

record branch =
  br_pid :: nat
  br_size :: int
  br_decision :: int
  br_pinned :: bool
  br_sym :: sym_ev

text \<open>The leaf without a prefix is the vector without capacity; a copy of an empty vector has no capacity
  either.\<close>

datatype leaf = Bottom | Prefix "branch list"

definition leaf_copy :: "leaf \<Rightarrow> leaf" where
  "leaf_copy l = (case l of Bottom \<Rightarrow> Bottom | Prefix bs \<Rightarrow> if bs = [] then Bottom else Prefix bs)"

definition is_bottom :: "leaf \<Rightarrow> bool" where
  "is_bottom l = (l = Bottom)"

section \<open>Nodes\<close>

record dnode =
  dn_depth :: int
  dn_unfold :: "nat option"
  dn_leaf :: leaf
  dn_parent :: "nat option"
  dn_pruned :: bool
  dn_cached :: bool
  dn_children :: "nat option list"
  dn_graph :: sat_graph

record dtree =
  dt_nodes :: "dnode list"
  dt_enqueued :: "nat list"

definition dn_root :: dnode where
  "dn_root = \<lparr>dn_depth = -1, dn_unfold = None, dn_leaf = Prefix [], dn_parent = None, dn_pruned = False, dn_cached = True,
     dn_children = [], dn_graph = sg_empty\<rparr>"

text \<open>The constructor of the tree enqueues the root.\<close>

definition dt_init :: dtree where
  "dt_init = \<lparr>dt_nodes = [dn_root], dt_enqueued = [0]\<rparr>"

definition dt_node :: "dtree \<Rightarrow> nat \<Rightarrow> dnode result" where
  "dt_node t d = (if d < length (dt_nodes t) then Inr (dt_nodes t ! d) else Inl Bad_deref)"

definition dt_parent :: "dtree \<Rightarrow> nat \<Rightarrow> nat result" where
  "dt_parent t d = bind_r (dt_node t d) (\<lambda>n. case dn_parent n of None \<Rightarrow> Inl Bad_deref | Some p \<Rightarrow> Inr p)"

definition dt_update :: "nat \<Rightarrow> (dnode \<Rightarrow> dnode) \<Rightarrow> dtree \<Rightarrow> dtree result" where
  "dt_update d f t = bind_r (dt_node t d) (\<lambda>n. Inr (t\<lparr>dt_nodes := (dt_nodes t)[d := f n]\<rparr>))"

definition dt_add :: "dnode \<Rightarrow> dtree \<Rightarrow> nat \<times> dtree" where
  "dt_add n t = (length (dt_nodes t), t\<lparr>dt_nodes := dt_nodes t @ [n]\<rparr>)"

text \<open>The constructors for nodes on the path of an execution and for new siblings.\<close>

definition dn_path :: "dnode \<Rightarrow> nat \<Rightarrow> dnode" where
  "dn_path n d = \<lparr>dn_depth = dn_depth n + 1, dn_unfold = None, dn_leaf = Bottom, dn_parent = Some d, dn_pruned = False,
     dn_cached = False, dn_children = [], dn_graph = sg_empty\<rparr>"

definition dn_sibling :: "dnode \<Rightarrow> nat \<Rightarrow> nat option \<Rightarrow> leaf \<Rightarrow> dnode" where
  "dn_sibling n d unf l = \<lparr>dn_depth = dn_depth n + 1, dn_unfold = unf, dn_leaf = leaf_copy l, dn_parent = Some d, dn_pruned = False,
     dn_cached = False, dn_children = [], dn_graph = sg_empty\<rparr>"

definition try_alloc_unf :: "nat \<Rightarrow> nat option \<Rightarrow> dtree \<Rightarrow> (bool \<times> dtree) result" where
  "try_alloc_unf d unf t =
     bind_r (dt_parent t d) (\<lambda>p. bind_r (dt_node t p) (\<lambda>n.
       if unf \<in> set (dn_children n) then Inr (False, t)
       else bind_r (dt_update p (\<lambda>n. n\<lparr>dn_children := dn_children n @ [unf]\<rparr>) t) (\<lambda>t. Inr (True, t))))"

definition alloc_unf :: "nat \<Rightarrow> nat option \<Rightarrow> dtree \<Rightarrow> dtree result" where
  "alloc_unf d unf t = bind_r (try_alloc_unf d unf t) (\<lambda>(b, t). assert_r b (Inr t))"

definition make_sibling :: "nat \<Rightarrow> nat option \<Rightarrow> leaf \<Rightarrow> dtree \<Rightarrow> (nat \<times> dtree) result" where
  "make_sibling d unf l t = bind_r (dt_parent t d) (\<lambda>p. bind_r (dt_node t p) (\<lambda>n. Inr (dt_add (dn_sibling n p unf l) t)))"

definition prune_decisions :: "nat \<Rightarrow> dtree \<Rightarrow> dtree result" where
  "prune_decisions d t = dt_update d (\<lambda>n. n\<lparr>dn_pruned := True\<rparr>) t"

text \<open>The loops go up to the parent; there are fewer rounds than nodes.\<close>

primrec is_pruned_loop :: "nat \<Rightarrow> dtree \<Rightarrow> nat \<Rightarrow> bool result" where
  "is_pruned_loop 0 t d = Inl Out_of_fuel"
| "is_pruned_loop (Suc k) t d = bind_r (dt_node t d) (\<lambda>n.
     if dn_depth n = -1 then Inr False
     else if dn_pruned n then Inr True
     else bind_r (dt_parent t d) (\<lambda>p. is_pruned_loop k t p))"

definition is_pruned :: "dtree \<Rightarrow> nat \<Rightarrow> bool result" where
  "is_pruned t d = is_pruned_loop (length (dt_nodes t)) t d"

primrec get_ancestor :: "nat \<Rightarrow> dtree \<Rightarrow> nat \<Rightarrow> int \<Rightarrow> nat result" where
  "get_ancestor 0 t d wanted = Inl Out_of_fuel"
| "get_ancestor (Suc k) t d wanted = bind_r (dt_parent t d) (\<lambda>p. bind_r (dt_node t p) (\<lambda>n.
     if dn_depth n \<noteq> wanted then get_ancestor k t p wanted else Inr p))"

definition find_ancestor :: "dtree \<Rightarrow> nat \<Rightarrow> int \<Rightarrow> nat result" where
  "find_ancestor t d wanted = bind_r (dt_node t d) (\<lambda>n. assert_r (dn_depth n \<ge> wanted)
     (if dn_depth n = wanted then Inr d else get_ancestor (length (dt_nodes t)) t d wanted))"

text \<open>The nearest cached graph on the way up, from \<open>d\<close>; the empty one when there is none below the root.\<close>

primrec cached_above :: "nat \<Rightarrow> dtree \<Rightarrow> nat \<Rightarrow> sat_graph \<Rightarrow> sat_graph result" where
  "cached_above 0 t d g = Inl Out_of_fuel"
| "cached_above (Suc k) t d g = bind_r (dt_node t d) (\<lambda>n.
     if dn_cached n then sg_clone (dn_graph n)
     else bind_r (dt_parent t d) (\<lambda>p. bind_r (dt_node t p) (\<lambda>m.
       if dn_depth m \<noteq> -1 then cached_above k t p g else Inr g)))"

definition get_saturated_graph :: "(sat_graph \<Rightarrow> sat_graph result) \<Rightarrow> nat \<Rightarrow> dtree \<Rightarrow> (sat_graph \<times> dtree) result" where
  "get_saturated_graph cons d t =
     bind_r (dt_node t d) (\<lambda>dn. bind_r (dt_parent t d) (\<lambda>p. bind_r (dt_node t p) (\<lambda>n.
       if dn_cached n then assert_r (sg_size (dn_graph n) \<noteq> 0 \<or> dn_depth dn = 0) (Inr (dn_graph n, t))
       else assert_r (dn_depth dn > 0 \<and> sg_size (dn_graph n) = 0)
         (bind_r (cached_above (length (dt_nodes t)) t p (dn_graph n)) (\<lambda>g. bind_r (cons g) (\<lambda>g.
           bind_r (dt_update p (\<lambda>n. n\<lparr>dn_cached := True, dn_graph := g\<rparr>) t) (\<lambda>t. Inr (g, t))))))))"

section \<open>The tree\<close>

definition new_decision_node :: "nat \<Rightarrow> nat option \<Rightarrow> dtree \<Rightarrow> (nat \<times> dtree) result" where
  "new_decision_node parent unf t =
     bind_r (dt_node t parent) (\<lambda>n.
       let (d, t) = dt_add (dn_path n parent) t in bind_r (alloc_unf d unf t) (\<lambda>t. Inr (d, t)))"

definition construct_sibling :: "nat \<Rightarrow> nat option \<Rightarrow> leaf \<Rightarrow> dtree \<Rightarrow> dtree result" where
  "construct_sibling d unf l t = bind_r (make_sibling d unf l t) (\<lambda>(s, t). Inr (t\<lparr>dt_enqueued := dt_enqueued t @ [s]\<rparr>))"

text \<open>What the scheduler sees of a node.\<close>

definition dt_job :: "dtree \<Rightarrow> nat \<Rightarrow> job" where
  "dt_job t d = (dn_depth (dt_nodes t ! d), d)"

section \<open>Well-formed trees\<close>

definition dt_wf :: "dtree \<Rightarrow> bool" where
  "dt_wf t = (dt_nodes t \<noteq> [] \<and> dn_parent (dt_nodes t ! 0) = None \<and> dn_depth (dt_nodes t ! 0) = -1 \<and>
     (\<forall>d < length (dt_nodes t). d \<noteq> 0 \<longrightarrow> (\<exists>p < d. dn_parent (dt_nodes t ! d) = Some p \<and> dn_depth (dt_nodes t ! d) = dn_depth (dt_nodes t ! p) + 1)) \<and>
     (\<forall>n\<in>set (dt_nodes t). distinct (dn_children n)))"

text \<open>The nodes on the way up.\<close>

inductive_set dt_above :: "dtree \<Rightarrow> (nat \<times> nat) set" for t where
  "d < length (dt_nodes t) \<Longrightarrow> dn_parent (dt_nodes t ! d) = Some p \<Longrightarrow> (d, p) \<in> dt_above t"

lemma wf_node:
  assumes "dt_wf t" "d < length (dt_nodes t)" "d \<noteq> 0"
  obtains p where "p < d" "dn_parent (dt_nodes t ! d) = Some p" "dn_depth (dt_nodes t ! d) = dn_depth (dt_nodes t ! p) + 1"
    "dt_parent t d = Inr p" "dt_node t d = Inr (dt_nodes t ! d)" "(d, p) \<in> dt_above t"
proof -
  obtain p where "p < d" "dn_parent (dt_nodes t ! d) = Some p" "dn_depth (dt_nodes t ! d) = dn_depth (dt_nodes t ! p) + 1"
    using assms unfolding dt_wf_def by blast
  thus thesis using that [of p] assms(2) by (simp add: dt_parent_def dt_node_def dt_above.intros)
qed

lemma wf_depth: "dt_wf t \<Longrightarrow> d < length (dt_nodes t) \<Longrightarrow> dn_depth (dt_nodes t ! d) \<ge> -1 \<and> (dn_depth (dt_nodes t ! d) = -1 \<longleftrightarrow> d = 0)"
proof (induction d rule: less_induct)
  case (less d)
  show ?case
  proof (cases "d = 0")
    case True
    thus ?thesis using less.prems by (simp add: dt_wf_def)
  next
    case False
    obtain p where p: "p < d" "dn_depth (dt_nodes t ! d) = dn_depth (dt_nodes t ! p) + 1" by (rule wf_node [OF less.prems False])
    thus ?thesis using less.IH [OF p(1) less.prems(1)] less.prems(2) False by auto
  qed
qed

lemma above_less: "dt_wf t \<Longrightarrow> (d, p) \<in> dt_above t \<Longrightarrow> p < d \<and> d \<noteq> 0"
  by (erule dt_above.cases) (cases "d = 0"; force simp: dt_wf_def)

lemma above_down:
  assumes "dt_wf t" "(d, p) \<in> (dt_above t)\<^sup>*"
  shows "p \<le> d"
  using assms(2) by induction (use above_less [OF assms(1)] in fastforce)+

text \<open>Reachable ancestors of a node: itself or those of its parent.\<close>

lemma above_cases:
  assumes "dt_wf t" "d < length (dt_nodes t)" "d \<noteq> 0" "(d, p) \<in> dt_above t"
  shows "(d, a) \<in> (dt_above t)\<^sup>* \<longleftrightarrow> a = d \<or> (p, a) \<in> (dt_above t)\<^sup>*"
proof
  assume "(d, a) \<in> (dt_above t)\<^sup>*"
  thus "a = d \<or> (p, a) \<in> (dt_above t)\<^sup>*"
    by (cases rule: converse_rtranclE) (use assms(4) in \<open>auto elim!: dt_above.cases\<close>)
qed (use assms(4) in \<open>auto intro: converse_rtrancl_into_rtrancl\<close>)

lemma is_pruned_loop_spec:
  assumes "dt_wf t" "d < length (dt_nodes t)" "d < k"
  shows "is_pruned_loop k t d = Inr (\<exists>a. (d, a) \<in> (dt_above t)\<^sup>* \<and> a \<noteq> 0 \<and> dn_pruned (dt_nodes t ! a))"
  using assms(2,3)
proof (induction k arbitrary: d)
  case (Suc k)
  show ?case
  proof (cases "d = 0")
    case True
    have "a = 0" if "(d, a) \<in> (dt_above t)\<^sup>*" for a using above_down [OF assms(1) that] True by simp
    thus ?thesis using True Suc.prems wf_depth [OF assms(1) Suc.prems(1)] by (auto simp: dt_node_def)
  next
    case False
    obtain p where p: "p < d" "dt_parent t d = Inr p" "dt_node t d = Inr (dt_nodes t ! d)" "(d, p) \<in> dt_above t"
      by (rule wf_node [OF assms(1) Suc.prems(1) False])
    have "is_pruned_loop k t p = Inr (\<exists>a. (p, a) \<in> (dt_above t)\<^sup>* \<and> a \<noteq> 0 \<and> dn_pruned (dt_nodes t ! a))"
      using Suc.IH [of p] Suc.prems p(1) by simp
    moreover have "(\<exists>a. (d, a) \<in> (dt_above t)\<^sup>* \<and> a \<noteq> 0 \<and> dn_pruned (dt_nodes t ! a)) \<longleftrightarrow>
        dn_pruned (dt_nodes t ! d) \<or> (\<exists>a. (p, a) \<in> (dt_above t)\<^sup>* \<and> a \<noteq> 0 \<and> dn_pruned (dt_nodes t ! a))"
      unfolding above_cases [OF assms(1) Suc.prems(1) False p(4)] using False by blast
    ultimately show ?thesis using p(2,3) wf_depth [OF assms(1) Suc.prems(1)] False by simp
  qed
qed simp

lemma get_ancestor_spec:
  assumes "dt_wf t" "d < length (dt_nodes t)" "-1 \<le> wanted" "wanted < dn_depth (dt_nodes t ! d)" "d \<le> k"
  shows "\<exists>a. get_ancestor k t d wanted = Inr a \<and> (d, a) \<in> (dt_above t)\<^sup>* \<and> dn_depth (dt_nodes t ! a) = wanted"
  using assms(2,4,5)
proof (induction k arbitrary: d)
  case 0
  hence "d = 0" by simp
  thus ?case using 0 wf_depth [OF assms(1) "0.prems"(1)] assms(3) by simp
next
  case (Suc k)
  have d0: "d \<noteq> 0" using Suc.prems wf_depth [OF assms(1) Suc.prems(1)] assms(3) by auto
  obtain p where p: "p < d" "dt_parent t d = Inr p" "(d, p) \<in> dt_above t" "dn_depth (dt_nodes t ! d) = dn_depth (dt_nodes t ! p) + 1"
    by (rule wf_node [OF assms(1) Suc.prems(1) d0])
  have n: "dt_node t p = Inr (dt_nodes t ! p)" using p(1) Suc.prems(1) by (simp add: dt_node_def)
  show ?case
  proof (cases "dn_depth (dt_nodes t ! p) = wanted")
    case True
    thus ?thesis using p(2,3) n by auto
  next
    case False
    obtain a where "get_ancestor k t p wanted = Inr a" "(p, a) \<in> (dt_above t)\<^sup>*" "dn_depth (dt_nodes t ! a) = wanted"
      using Suc.IH [of p] Suc.prems p(1,4) False by auto
    thus ?thesis using p(2,3) n False by (auto intro: converse_rtrancl_into_rtrancl)
  qed
qed

text \<open>C21: \<open>is_pruned\<close> finds out whether the node or a node above it, other than the root, is pruned, and \<open>find_ancestor\<close> finds the
  node above at every depth from the root to the node itself.\<close>

theorem ancestors_found:
  assumes "dt_wf t" "d < length (dt_nodes t)" "-1 \<le> wanted" "wanted \<le> dn_depth (dt_nodes t ! d)"
  shows "is_pruned t d = Inr (\<exists>a. (d, a) \<in> (dt_above t)\<^sup>* \<and> a \<noteq> 0 \<and> dn_pruned (dt_nodes t ! a)) \<and>
    (\<exists>a. find_ancestor t d wanted = Inr a \<and> (d, a) \<in> (dt_above t)\<^sup>* \<and> dn_depth (dt_nodes t ! a) = wanted)"
proof -
  have n: "dt_node t d = Inr (dt_nodes t ! d)" using assms(2) by (simp add: dt_node_def)
  have "\<exists>a. find_ancestor t d wanted = Inr a \<and> (d, a) \<in> (dt_above t)\<^sup>* \<and> dn_depth (dt_nodes t ! a) = wanted"
    using get_ancestor_spec [OF assms(1-3), of "length (dt_nodes t)"] assms(2,4) n by (auto simp: find_ancestor_def)
  thus ?thesis using is_pruned_loop_spec [OF assms(1,2,2)] by (simp add: is_pruned_def)
qed

section \<open>The trees that executions make\<close>

text \<open>The workers extend their paths, allocate alternatives and make a sibling for an alternative they
  allocated, in any interleaving. \<open>P\<close> are the alternatives allocated by a worker that has not made a sibling
  for them (it may never do).\<close>

inductive dt_reach :: "dtree \<Rightarrow> (nat \<times> nat option) set \<Rightarrow> bool" where
  tree_init: "dt_reach dt_init {}"
| tree_path: "dt_reach t P \<Longrightarrow> new_decision_node d unf t = Inr (e, t') \<Longrightarrow> dt_reach t' P"
| tree_alloc: "dt_reach t P \<Longrightarrow> dt_parent t d = Inr p \<Longrightarrow> try_alloc_unf d unf t = Inr (b, t') \<Longrightarrow> dt_reach t' (if b then insert (p, unf) P else P)"
| tree_sibling: "dt_reach t P \<Longrightarrow> dt_parent t d = Inr p \<Longrightarrow> (p, unf) \<in> P \<Longrightarrow> bs \<noteq> [] \<Longrightarrow> construct_sibling d unf (Prefix bs) t = Inr t' \<Longrightarrow>
    dt_reach t' (P - {(p, unf)})"
| tree_prune: "dt_reach t P \<Longrightarrow> prune_decisions d t = Inr t' \<Longrightarrow> dt_reach t' P"
| tree_graph: "dt_reach t P \<Longrightarrow> get_saturated_graph cons d t = Inr (g, t') \<Longrightarrow> dt_reach t' P"

definition alternative_ok :: "dtree \<Rightarrow> (nat \<times> nat option) set \<Rightarrow> nat \<Rightarrow> bool" where
  "alternative_ok t P a = (a < length (dt_nodes t) \<and> dn_leaf (dt_nodes t ! a) \<noteq> Bottom \<and>
     (a \<noteq> 0 \<longrightarrow> (\<exists>p. dn_parent (dt_nodes t ! a) = Some p \<and> dn_unfold (dt_nodes t ! a) \<in> set (dn_children (dt_nodes t ! p)) \<and>
        (p, dn_unfold (dt_nodes t ! a)) \<notin> P)))"

definition same_alternative :: "dtree \<Rightarrow> nat \<Rightarrow> nat \<Rightarrow> bool" where
  "same_alternative t a b = (a \<noteq> 0 \<and> b \<noteq> 0 \<and> dn_parent (dt_nodes t ! a) = dn_parent (dt_nodes t ! b) \<and>
     dn_unfold (dt_nodes t ! a) = dn_unfold (dt_nodes t ! b))"

definition dt_alternatives :: "dtree \<Rightarrow> (nat \<times> nat option) set \<Rightarrow> bool" where
  "dt_alternatives t P = ((\<forall>(p, u)\<in>P. p < length (dt_nodes t) \<and> u \<in> set (dn_children (dt_nodes t ! p))) \<and>
     distinct (dt_enqueued t) \<and> (\<forall>a\<in>set (dt_enqueued t). alternative_ok t P a) \<and>
     (\<forall>a\<in>set (dt_enqueued t). \<forall>b\<in>set (dt_enqueued t). same_alternative t a b \<longrightarrow> a = b))"

text \<open>A change of a node that keeps its place and adds to its alternatives at most.\<close>

definition node_grows :: "dnode \<Rightarrow> dnode \<Rightarrow> bool" where
  "node_grows n m = (dn_depth m = dn_depth n \<and> dn_parent m = dn_parent n \<and> dn_unfold m = dn_unfold n \<and> dn_leaf m = dn_leaf n \<and>
     set (dn_children n) \<subseteq> set (dn_children m) \<and> (distinct (dn_children n) \<longrightarrow> distinct (dn_children m)))"

lemma update_wf:
  assumes "dt_wf t" "dt_update d f t = Inr t'" "\<And>n. node_grows n (f n)"
  shows "dt_wf t'" "dt_alternatives t P \<Longrightarrow> dt_alternatives t' P" "dt_enqueued t' = dt_enqueued t" "length (dt_nodes t') = length (dt_nodes t)"
    "dt_nodes t' ! d = f (dt_nodes t ! d)"
proof -
  have t': "t' = t\<lparr>dt_nodes := (dt_nodes t)[d := f (dt_nodes t ! d)]\<rparr>" "d < length (dt_nodes t)"
    using assms(2) by (auto simp: dt_update_def dt_node_def split: if_splits)
  show "dt_enqueued t' = dt_enqueued t" "length (dt_nodes t') = length (dt_nodes t)" "dt_nodes t' ! d = f (dt_nodes t ! d)" using t' by simp_all
  have g: "node_grows (dt_nodes t ! e) (dt_nodes t' ! e)" for e
    using assms(3) t' by (cases "e = d") (simp_all add: node_grows_def)
  hence f: "dn_depth (dt_nodes t' ! e) = dn_depth (dt_nodes t ! e)" "dn_parent (dt_nodes t' ! e) = dn_parent (dt_nodes t ! e)"
    "dn_unfold (dt_nodes t' ! e) = dn_unfold (dt_nodes t ! e)" "dn_leaf (dt_nodes t' ! e) = dn_leaf (dt_nodes t ! e)"
    "set (dn_children (dt_nodes t ! e)) \<subseteq> set (dn_children (dt_nodes t' ! e))" for e
    by (simp_all add: node_grows_def)
  have l: "length (dt_nodes t') = length (dt_nodes t)" "dt_enqueued t' = dt_enqueued t" using t' by simp_all
  have "distinct (dn_children n)" if n: "n \<in> set (dt_nodes t')" for n
  proof -
    obtain e where e: "e < length (dt_nodes t)" "n = dt_nodes t' ! e" using n l(1) by (metis in_set_conv_nth)
    have "\<forall>n\<in>set (dt_nodes t). distinct (dn_children n)" using assms(1) by (simp add: dt_wf_def)
    hence "distinct (dn_children (dt_nodes t ! e))" using nth_mem [OF e(1)] by (rule bspec)
    thus ?thesis using g [of e] e(2) by (simp add: node_grows_def)
  qed
  moreover have "dt_nodes t' \<noteq> []" using l(1) assms(1) by (auto simp: dt_wf_def)
  ultimately show "dt_wf t'" using assms(1) by (simp add: dt_wf_def f(1,2) l(1))
  show "dt_alternatives t' P" if a: "dt_alternatives t P"
  proof -
    have "alternative_ok t' P a" if "alternative_ok t P a" for a using that f(5) unfolding alternative_ok_def f(1-4) l(1) by blast
    moreover have "same_alternative t' = same_alternative t" by (intro ext) (simp add: same_alternative_def f)
    moreover have "p < length (dt_nodes t') \<and> u \<in> set (dn_children (dt_nodes t' ! p))" if "(p, u) \<in> P" for p u
    proof -
      have "p < length (dt_nodes t)" "u \<in> set (dn_children (dt_nodes t ! p))" using a that by (auto simp: dt_alternatives_def)
      thus ?thesis using f(5) l(1) by auto
    qed
    ultimately show ?thesis using a l(2) by (auto simp: dt_alternatives_def)
  qed
qed

lemma add_wf:
  assumes "dt_wf t" "d < length (dt_nodes t)" "dn_parent n = Some d" "dn_depth n = dn_depth (dt_nodes t ! d) + 1" "distinct (dn_children n)"
    "t' = t\<lparr>dt_nodes := dt_nodes t @ [n]\<rparr>"
  shows "dt_wf t'" "dt_alternatives t P \<Longrightarrow> dt_alternatives t' P"
proof -
  have "\<exists>p < e. dn_parent (dt_nodes t' ! e) = Some p \<and> dn_depth (dt_nodes t' ! e) = dn_depth (dt_nodes t' ! p) + 1"
    if e: "e < length (dt_nodes t')" "e \<noteq> 0" for e
  proof (cases "e = length (dt_nodes t)")
    case True
    thus ?thesis using assms(2-4) by (auto simp: assms(6) nth_append)
  next
    case False
    hence "e < length (dt_nodes t)" using e(1) by (simp add: assms(6))
    moreover then obtain p where "p < e" "dn_parent (dt_nodes t ! e) = Some p" "dn_depth (dt_nodes t ! e) = dn_depth (dt_nodes t ! p) + 1"
      using assms(1) e(2) unfolding dt_wf_def by blast
    ultimately show ?thesis by (intro exI [of _ p]) (simp add: assms(6) nth_append)
  qed
  moreover have "dt_nodes t \<noteq> []" "dn_parent (dt_nodes t ! 0) = None" "dn_depth (dt_nodes t ! 0) = -1"
    "\<forall>n\<in>set (dt_nodes t). distinct (dn_children n)" using assms(1) by (simp_all add: dt_wf_def)
  ultimately show "dt_wf t'" using assms(5) unfolding dt_wf_def by (simp add: assms(6) nth_append)
  show "dt_alternatives t' P" if a: "dt_alternatives t P"
  proof -
    have o: "dt_nodes t' ! e = dt_nodes t ! e" if "e < length (dt_nodes t)" for e using that by (simp add: assms(6) nth_append)
    have l: "dt_enqueued t' = dt_enqueued t" "length (dt_nodes t') = Suc (length (dt_nodes t))" by (simp_all add: assms(6))
    have q: "alternative_ok t P a" if "a \<in> set (dt_enqueued t)" for a using a that by (simp add: dt_alternatives_def)
    have "alternative_ok t' P a" if "alternative_ok t P a" for a
    proof -
      have "dn_parent (dt_nodes t ! a) = Some p \<Longrightarrow> a \<noteq> 0 \<Longrightarrow> p < length (dt_nodes t)" for p
        using that wf_node [OF assms(1), of a] unfolding alternative_ok_def by (metis less_trans option.inject)
      thus ?thesis using that o unfolding alternative_ok_def l(2) by (metis less_SucI)
    qed
    moreover have "same_alternative t' a b = same_alternative t a b" if "a \<in> set (dt_enqueued t)" "b \<in> set (dt_enqueued t)" for a b
      using q [OF that(1)] q [OF that(2)] o by (simp add: same_alternative_def alternative_ok_def)
    moreover have "\<forall>(p, u)\<in>P. p < length (dt_nodes t') \<and> u \<in> set (dn_children (dt_nodes t' ! p))" using a o l(2) by (auto simp: dt_alternatives_def)
    ultimately show ?thesis using a l(1) by (simp add: dt_alternatives_def)
  qed
qed

lemma parent_place: "dt_wf t \<Longrightarrow> dt_parent t d = Inr p \<Longrightarrow> p < d \<and> d < length (dt_nodes t) \<and> dn_parent (dt_nodes t ! d) = Some p \<and>
    dn_depth (dt_nodes t ! d) = dn_depth (dt_nodes t ! p) + 1"
proof -
  assume w: "dt_wf t" and p: "dt_parent t d = Inr p"
  have d: "d < length (dt_nodes t)" "dn_parent (dt_nodes t ! d) = Some p"
    using p by (auto simp: dt_parent_def dt_node_def split: if_splits option.splits)
  moreover have "d \<noteq> 0" using w d(2) unfolding dt_wf_def by (metis option.distinct(1))
  ultimately show ?thesis using wf_node [OF w d(1)] by (metis option.inject)
qed

lemma try_alloc_spec:
  assumes "dt_wf t" "dt_parent t d = Inr p" "try_alloc_unf d unf t = Inr (b, t')"
  shows "dt_wf t'" "b \<longleftrightarrow> unf \<notin> set (dn_children (dt_nodes t ! p))" "unf \<in> set (dn_children (dt_nodes t' ! p))"
    "dt_alternatives t P \<Longrightarrow> dt_alternatives t' (if b then insert (p, unf) P else P)"
proof -
  let ?f = "\<lambda>n. if unf \<in> set (dn_children n) then n else n\<lparr>dn_children := dn_children n @ [unf]\<rparr>"
  have pl: "p < length (dt_nodes t)" using parent_place [OF assms(1,2)] by linarith
  have g: "node_grows n (?f n)" for n by (auto simp: node_grows_def)
  have "b \<longleftrightarrow> unf \<notin> set (dn_children (dt_nodes t ! p))" "dt_update p ?f t = Inr t'"
    using assms(3) pl by (auto simp: try_alloc_unf_def assms(2) dt_update_def dt_node_def bind_r_eq_Inr split: if_splits)
  note u = update_wf [OF assms(1) this(2) g] and b = this(1)
  show "dt_wf t'" by (rule u(1))
  show "b \<longleftrightarrow> unf \<notin> set (dn_children (dt_nodes t ! p))" by (rule b)
  show m: "unf \<in> set (dn_children (dt_nodes t' ! p))" unfolding u(5) by simp
  show "dt_alternatives t' (if b then insert (p, unf) P else P)" if a: "dt_alternatives t P"
  proof (cases b)
    case True
    have a': "dt_alternatives t' P" by (rule u(2) [OF a])
    have f: "dn_parent (dt_nodes t' ! x) = dn_parent (dt_nodes t ! x)" "dn_unfold (dt_nodes t' ! x) = dn_unfold (dt_nodes t ! x)" for x
      using \<open>dt_update p ?f t = Inr t'\<close> by (cases "x = p"; auto simp: dt_update_def dt_node_def pl)+
    have "alternative_ok t' (insert (p, unf) P) x" if x: "x \<in> set (dt_enqueued t')" for x
    proof -
      have e: "x \<in> set (dt_enqueued t)" using x u(3) by simp
      hence "alternative_ok t P x" using a by (simp add: dt_alternatives_def)
      hence "x \<noteq> 0 \<longrightarrow> dn_parent (dt_nodes t ! x) \<noteq> Some p \<or> dn_unfold (dt_nodes t ! x) \<noteq> unf"
        using b True by (auto simp: alternative_ok_def)
      moreover have "alternative_ok t' P x" using a' x by (simp add: dt_alternatives_def)
      ultimately show ?thesis using f by (auto simp: alternative_ok_def)
    qed
    thus ?thesis using a' m pl True u(4) by (simp add: dt_alternatives_def)
  next
    case False
    thus ?thesis using u(2) [OF a] by simp
  qed
qed

lemma sibling_spec:
  assumes "dt_wf t" "dt_parent t d = Inr p" "dt_alternatives t P" "(p, unf) \<in> P" "bs \<noteq> []" "construct_sibling d unf (Prefix bs) t = Inr t'"
  shows "dt_wf t'" "dt_alternatives t' (P - {(p, unf)})"
proof -
  have pl: "p < length (dt_nodes t)" using parent_place [OF assms(1,2)] by linarith
  let ?s = "length (dt_nodes t)" and ?n = "dn_sibling (dt_nodes t ! p) p unf (Prefix bs)" and ?t = "t\<lparr>dt_nodes := dt_nodes t @ [dn_sibling (dt_nodes t ! p) p unf (Prefix bs)]\<rparr>"
  have t': "t' = ?t\<lparr>dt_enqueued := dt_enqueued t @ [?s]\<rparr>"
    using assms(6) pl by (auto simp: construct_sibling_def make_sibling_def assms(2) dt_node_def dt_add_def)
  have n: "dn_parent ?n = Some p" "dn_depth ?n = dn_depth (dt_nodes t ! p) + 1" "distinct (dn_children ?n)" by (simp_all add: dn_sibling_def)
  note a = add_wf [OF assms(1) pl n refl]
  show "dt_wf t'" using a(1) by (simp add: t' dt_wf_def)
  have al: "dt_alternatives ?t P" by (rule a(2) [OF assms(3)])
  have q: "x < ?s" if "x \<in> set (dt_enqueued t)" for x using assms(3) that by (simp add: dt_alternatives_def alternative_ok_def)
  have u: "unf \<in> set (dn_children (dt_nodes t ! p))" using assms(3,4) by (auto simp: dt_alternatives_def)
  have leaf: "dn_leaf ?n \<noteq> Bottom" "dn_unfold ?n = unf" using assms(5) by (simp_all add: dn_sibling_def leaf_copy_def)
  have o: "dt_nodes t' ! x = dt_nodes t ! x" if "x < ?s" for x using that by (simp add: t' nth_append)
  have new: "dt_nodes t' ! ?s = ?n" "dt_enqueued t' = dt_enqueued t @ [?s]" "length (dt_nodes t') = Suc ?s" by (simp_all add: t' nth_append)
  note A = assms(3) [unfolded dt_alternatives_def]
  have ok: "alternative_ok t P x" if "x \<in> set (dt_enqueued t)" for x using A that by blast
  have ne: "dn_parent (dt_nodes t ! x) \<noteq> Some p \<or> dn_unfold (dt_nodes t ! x) \<noteq> unf" if "x \<in> set (dt_enqueued t)" "x \<noteq> 0" for x
    using ok [OF that(1)] assms(4) that(2) unfolding alternative_ok_def by (metis option.inject)
  have okT: "alternative_ok t' (P - {(p, unf)}) x" if "x \<in> set (dt_enqueued t)" for x
  proof -
    have "alternative_ok ?t P x" using al that by (simp add: dt_alternatives_def)
    moreover have "dt_nodes t' = dt_nodes ?t" by (simp add: t')
    ultimately show ?thesis by (auto simp: alternative_ok_def)
  qed
  have okN: "alternative_ok t' (P - {(p, unf)}) ?s" using new n(1) leaf u pl o [OF pl] by (auto simp: alternative_ok_def)
  have same: "x = y" if x: "x \<in> set (dt_enqueued t')" and y: "y \<in> set (dt_enqueued t')" and s: "same_alternative t' x y" for x y
  proof (cases "x = ?s"; cases "y = ?s")
    assume "x \<noteq> ?s" "y \<noteq> ?s"
    hence e: "x \<in> set (dt_enqueued t)" "y \<in> set (dt_enqueued t)" using x y new(2) by simp_all
    hence "same_alternative t x y" using s q o by (simp add: same_alternative_def)
    thus ?thesis using A e by blast
  next
    assume h: "x = ?s" "y \<noteq> ?s"
    hence e: "y \<in> set (dt_enqueued t)" "y \<noteq> 0" using y new(2) s by (simp_all add: same_alternative_def)
    thus ?thesis using ne [OF e] s h o [OF q [OF e(1)]] new(1) n(1) leaf(2) by (auto simp: same_alternative_def)
  next
    assume h: "x \<noteq> ?s" "y = ?s"
    hence e: "x \<in> set (dt_enqueued t)" "x \<noteq> 0" using x new(2) s by (simp_all add: same_alternative_def)
    thus ?thesis using ne [OF e] s h o [OF q [OF e(1)]] new(1) n(1) leaf(2) by (auto simp: same_alternative_def)
  qed simp
  have "\<forall>(p, u)\<in>P - {(p, unf)}. p < length (dt_nodes t') \<and> u \<in> set (dn_children (dt_nodes t' ! p))" using A o new(3) by auto
  moreover have "distinct (dt_enqueued t')" using A q new(2) by auto
  ultimately show "dt_alternatives t' (P - {(p, unf)})" using okT okN same new(2) unfolding dt_alternatives_def by simp
qed

text \<open>A path node is not enqueued.\<close>

lemma path_spec:
  assumes "dt_wf t" "new_decision_node d unf t = Inr (e, t')"
  shows "dt_wf t'" "dt_alternatives t P \<Longrightarrow> dt_alternatives t' P" "unf \<notin> set (dn_children (dt_nodes t ! d))" "d < length (dt_nodes t)"
    "e = length (dt_nodes t)" "dt_enqueued t' = dt_enqueued t" "length (dt_nodes t') = Suc e"
    "dn_depth (dt_nodes t' ! e) = dn_depth (dt_nodes t ! d) + 1" "dn_parent (dt_nodes t' ! e) = Some d"
proof -
  let ?n = "dn_path (dt_nodes t ! d) d" and ?e = "length (dt_nodes t)"
  let ?t = "t\<lparr>dt_nodes := dt_nodes t @ [dn_path (dt_nodes t ! d) d]\<rparr>"
  have d: "d < length (dt_nodes t)" using assms(2) by (auto simp: new_decision_node_def dt_node_def split: if_splits)
  have a: "alloc_unf ?e unf ?t = Inr t'" "e = ?e"
    using assms(2) d by (auto simp: new_decision_node_def dt_node_def dt_add_def bind_r_eq_Inr)
  have n: "dn_parent ?n = Some d" "dn_depth ?n = dn_depth (dt_nodes t ! d) + 1" "distinct (dn_children ?n)" by (simp_all add: dn_path_def)
  note w = add_wf [OF assms(1) d n refl]
  have p: "dt_parent ?t ?e = Inr d" using n(1) by (simp add: dt_parent_def dt_node_def)
  have al: "try_alloc_unf ?e unf ?t = Inr (True, t')" using a(1) by (auto simp: alloc_unf_def bind_r_eq_Inr assert_r_eq_Inr)
  note s = try_alloc_spec [OF w(1) p al]
  show "dt_wf t'" by (rule s(1))
  have nd: "dt_nodes ?t ! d = dt_nodes t ! d" using d by (simp add: nth_append)
  thus u: "unf \<notin> set (dn_children (dt_nodes t ! d))" using s(2) by simp
  show "d < length (dt_nodes t)" "e = length (dt_nodes t)" by (rule d, rule a(2))
  have f: "t' = ?t\<lparr>dt_nodes := (dt_nodes ?t)[d := (dt_nodes t ! d)\<lparr>dn_children := dn_children (dt_nodes t ! d) @ [unf]\<rparr>]\<rparr>"
    using al p u d nd by (simp add: try_alloc_unf_def dt_node_def dt_update_def)
  show "dt_enqueued t' = dt_enqueued t" "length (dt_nodes t') = Suc e" using f a(2) by simp_all
  show "dn_depth (dt_nodes t' ! e) = dn_depth (dt_nodes t ! d) + 1" "dn_parent (dt_nodes t' ! e) = Some d"
    using f a(2) d n by (simp_all add: nth_append)
  show "dt_alternatives t P \<Longrightarrow> dt_alternatives t' P"
    using s(4) [OF w(2), of P] by (auto simp: dt_alternatives_def alternative_ok_def)
qed

lemma graph_update:
  assumes "get_saturated_graph cons d t = Inr (g, t')"
  shows "t' = t \<or> (\<exists>p. dt_update p (\<lambda>n. n\<lparr>dn_cached := True, dn_graph := g\<rparr>) t = Inr t')"
  using assms by (auto simp: get_saturated_graph_def bind_r_eq_Inr assert_r_eq_Inr split: if_splits)

lemma reach_tree: "dt_reach t P \<Longrightarrow> dt_wf t \<and> dt_alternatives t P"
proof (induction rule: dt_reach.induct)
  case tree_init
  show ?case by (simp add: dt_wf_def dt_alternatives_def alternative_ok_def same_alternative_def dt_init_def dn_root_def)
next
  case (tree_path t P d unf e t')
  thus ?case using path_spec(1,2) by blast
next
  case (tree_alloc t P d p unf b t')
  thus ?case using try_alloc_spec(1,4) by blast
next
  case (tree_sibling t P d p unf bs t')
  thus ?case using sibling_spec by blast
next
  case (tree_prune t P d t')
  have "node_grows n (n\<lparr>dn_pruned := True\<rparr>)" for n :: dnode by (simp add: node_grows_def)
  thus ?case using update_wf(1,2) tree_prune unfolding prune_decisions_def by blast
next
  case (tree_graph t P cons d g t')
  have "node_grows n (n\<lparr>dn_cached := True, dn_graph := g\<rparr>)" for n :: dnode by (simp add: node_grows_def)
  thus ?case using graph_update [OF tree_graph.hyps(2)] update_wf(1,2) tree_graph.IH by blast
qed

text \<open>C20: no alternative is explored twice: in whatever way the steps of the workers interleave, two siblings
  that are handed to the scheduler differ in their parent or in their unfolding node, no node is handed
  over twice, and each has a prefix to replay.\<close>

theorem alternatives_once:
  assumes "dt_reach t P" "a \<in> set (dt_enqueued t)" "b \<in> set (dt_enqueued t)" "a \<noteq> 0" "b \<noteq> 0"
  shows "distinct (dt_enqueued t) \<and> dn_leaf (dt_nodes t ! a) \<noteq> Bottom \<and>
    (dn_parent (dt_nodes t ! a) = dn_parent (dt_nodes t ! b) \<and> dn_unfold (dt_nodes t ! a) = dn_unfold (dt_nodes t ! b) \<longleftrightarrow> a = b)"
proof -
  have "dt_alternatives t P" using reach_tree [OF assms(1)] by blast
  thus ?thesis using assms(2-5) unfolding dt_alternatives_def alternative_ok_def same_alternative_def by blast
qed

text \<open>The graph of a decision is made once: the siblings of the node it was made for get it.\<close>

lemma graph_made_once:
  assumes "dt_wf t" "get_saturated_graph cons d t = Inr (g, t')" "sg_size g \<noteq> 0" "dt_parent t d = Inr p" "dt_parent t e = Inr p"
  shows "get_saturated_graph cons' e t' = Inr (g, t')"
proof -
  have p: "p < length (dt_nodes t)" "p < d" "p < e" "e < length (dt_nodes t)" "dn_parent (dt_nodes t ! e) = Some p"
    using parent_place [OF assms(1,4)] parent_place [OF assms(1,5)] by simp_all
  have "dt_parent t' e = Inr p \<and> dt_node t' p = Inr (dt_nodes t' ! p) \<and> dt_node t' e = Inr (dt_nodes t' ! e) \<and>
      dn_cached (dt_nodes t' ! p) \<and> dn_graph (dt_nodes t' ! p) = g"
    using assms(2,4) p by (auto simp: get_saturated_graph_def bind_r_eq_Inr assert_r_eq_Inr dt_node_def dt_update_def dt_parent_def split: if_splits)
  thus ?thesis using assms(3) by (simp add: get_saturated_graph_def)
qed

text \<open>An execution makes one decision; two alternatives are found.\<close>

definition demo_branch :: branch where
  "demo_branch = \<lparr>br_pid = 0, br_size = 1, br_decision = 0, br_pinned = False, br_sym = sev_none\<rparr>"

definition demo_step :: "nat option \<Rightarrow> dtree \<Rightarrow> dtree" where
  "demo_step u t = (case bind_r (try_alloc_unf 1 u t) (\<lambda>(b, t). construct_sibling 1 u (Prefix [demo_branch]) t) of Inr t \<Rightarrow> t | Inl _ \<Rightarrow> t)"

definition demo_path :: dtree where
  "demo_path = (case new_decision_node 0 (Some 0) dt_init of Inr (_, t) \<Rightarrow> t | Inl _ \<Rightarrow> dt_init)"

lemma demo_step_reach:
  assumes "dt_reach t P" "u \<notin> set (dn_children (dt_nodes t ! 0))" "dt_parent t 1 = Inr 0"
  shows "\<exists>P. dt_reach (demo_step u t) P"
proof -
  have w: "dt_wf t" using reach_tree [OF assms(1)] by blast
  have z: "0 < length (dt_nodes t)" "1 < length (dt_nodes t)" using parent_place [OF w assms(3)] by linarith+
  define t1 where "t1 = t\<lparr>dt_nodes := (dt_nodes t)[0 := (dt_nodes t ! 0)\<lparr>dn_children := dn_children (dt_nodes t ! 0) @ [u]\<rparr>]\<rparr>"
  have a: "try_alloc_unf 1 u t = Inr (True, t1)" using assms(2,3) z by (simp add: try_alloc_unf_def dt_node_def dt_update_def t1_def)
  have r1: "dt_reach t1 (insert (0, u) P)" using tree_alloc [OF assms(1,3) a] by simp
  have p1: "dt_parent t1 1 = Inr 0" using assms(3) z by (simp add: t1_def dt_parent_def dt_node_def)
  obtain t2 where t2: "construct_sibling 1 u (Prefix [demo_branch]) t1 = Inr t2"
    using p1 z by (simp add: construct_sibling_def make_sibling_def dt_node_def t1_def dt_add_def)
  have "dt_reach t2 (insert (0, u) P - {(0, u)})" by (rule tree_sibling [OF r1 p1 _ _ t2]) simp_all
  moreover have "demo_step u t = t2" using a t2 by (simp add: demo_step_def)
  ultimately show ?thesis by auto
qed

lemma demo_path_eq: "demo_path = \<lparr>dt_nodes = [dn_root\<lparr>dn_children := [Some 0]\<rparr>, dn_path dn_root 0], dt_enqueued = [0]\<rparr>"
  by (simp add: demo_path_def new_decision_node_def dt_init_def dn_root_def dt_node_def dt_add_def Let_def alloc_unf_def try_alloc_unf_def
      dt_parent_def dt_update_def dn_path_def)

lemma demo_step_eq:
  assumes "t = \<lparr>dt_nodes = dn_root\<lparr>dn_children := us\<rparr> # dn_path dn_root 0 # ns, dt_enqueued = q\<rparr>" "u \<notin> set us"
  shows "demo_step u t = \<lparr>dt_nodes = dn_root\<lparr>dn_children := us @ [u]\<rparr> # dn_path dn_root 0 # ns @ [dn_sibling dn_root 0 u (Prefix [demo_branch])],
    dt_enqueued = q @ [length ns + 2]\<rparr>"
  using assms(2) by (simp add: assms(1) demo_step_def try_alloc_unf_def construct_sibling_def make_sibling_def dt_parent_def dt_node_def dt_update_def
      dt_add_def dn_path_def dn_root_def dn_sibling_def)

lemma demo_step1: "demo_step None demo_path = \<lparr>dt_nodes = [dn_root\<lparr>dn_children := [Some 0, None]\<rparr>, dn_path dn_root 0,
    dn_sibling dn_root 0 None (Prefix [demo_branch])], dt_enqueued = [0, 2]\<rparr>"
  using demo_step_eq [OF demo_path_eq, of None] by simp

lemma demo_step2: "demo_step (Some 7) (demo_step None demo_path) = \<lparr>dt_nodes = [dn_root\<lparr>dn_children := [Some 0, None, Some 7]\<rparr>, dn_path dn_root 0,
    dn_sibling dn_root 0 None (Prefix [demo_branch]), dn_sibling dn_root 0 (Some 7) (Prefix [demo_branch])], dt_enqueued = [0, 2, 3]\<rparr>"
  using demo_step_eq [OF demo_step1, of "Some 7"] by simp

lemma demo_tree:
  "new_decision_node 0 (Some 0) dt_init = Inr (1, demo_path)" "dt_parent demo_path 1 = Inr 0" "dt_parent (demo_step None demo_path) 1 = Inr 0"
  "dn_children (dt_nodes demo_path ! 0) = [Some 0]" "dn_children (dt_nodes (demo_step None demo_path) ! 0) = [Some 0, None]"
proof -
  show "new_decision_node 0 (Some 0) dt_init = Inr (1, demo_path)"
    by (simp add: demo_path_eq new_decision_node_def dt_init_def dn_root_def dt_node_def dt_add_def Let_def alloc_unf_def try_alloc_unf_def
      dt_parent_def dt_update_def dn_path_def)
qed (simp_all only: demo_step1, simp_all add: demo_path_eq dt_parent_def dt_node_def dn_path_def)

lemma demo_tree_end:
  "dt_enqueued (demo_step (Some 7) (demo_step None demo_path)) = [0, 2, 3]"
  "dn_depth (dt_nodes (demo_step (Some 7) (demo_step None demo_path)) ! 2) = 0" "length (dt_nodes (demo_step (Some 7) (demo_step None demo_path))) = 4"
  by (simp_all only: demo_step2) (simp_all add: dn_root_def dn_sibling_def)

lemma demo_tree_reach: "\<exists>P. dt_reach (demo_step (Some 7) (demo_step None demo_path)) P"
proof -
  have 0: "dt_reach demo_path {}" by (rule tree_path [OF tree_init demo_tree(1)])
  have "None \<notin> set (dn_children (dt_nodes demo_path ! 0))" unfolding demo_tree(4) by simp
  then obtain P where 1: "dt_reach (demo_step None demo_path) P" using demo_step_reach [OF 0 _ demo_tree(2)] by blast
  have "Some 7 \<notin> set (dn_children (dt_nodes (demo_step None demo_path) ! 0))" unfolding demo_tree(5) by simp
  thus ?thesis by (rule demo_step_reach [OF 1 _ demo_tree(3)])
qed

theorem alternatives_once_witness:
  "\<exists>t. t = demo_step (Some 7) (demo_step None demo_path) \<and> distinct (dt_enqueued t) \<and> dn_leaf (dt_nodes t ! 2) \<noteq> Bottom \<and>
    \<not> (dn_parent (dt_nodes t ! 2) = dn_parent (dt_nodes t ! 3) \<and> dn_unfold (dt_nodes t ! 2) = dn_unfold (dt_nodes t ! 3))"
proof -
  obtain P where "dt_reach (demo_step (Some 7) (demo_step None demo_path)) P" using demo_tree_reach by blast
  from alternatives_once [OF this, of 2 3] demo_tree_end(1) show ?thesis by simp
qed

theorem ancestors_found_witness:
  "is_pruned (demo_step (Some 7) (demo_step None demo_path)) 2 =
     Inr (\<exists>a. (2, a) \<in> (dt_above (demo_step (Some 7) (demo_step None demo_path)))\<^sup>* \<and> a \<noteq> 0 \<and>
       dn_pruned (dt_nodes (demo_step (Some 7) (demo_step None demo_path)) ! a)) \<and>
   (\<exists>a. find_ancestor (demo_step (Some 7) (demo_step None demo_path)) 2 (-1) = Inr a)"
proof -
  obtain P where "dt_reach (demo_step (Some 7) (demo_step None demo_path)) P" using demo_tree_reach by blast
  hence w: "dt_wf (demo_step (Some 7) (demo_step None demo_path))" using reach_tree by blast
  have l: "2 < length (dt_nodes (demo_step (Some 7) (demo_step None demo_path)))"
    "-1 \<le> dn_depth (dt_nodes (demo_step (Some 7) (demo_step None demo_path)) ! 2)"
    unfolding demo_tree_end(2,3) by simp_all
  show ?thesis using ancestors_found [OF w l(1) _ l(2)] by auto
qed

end
