(* ===== verification/RfscUnfold.thy ===== *)
theory RfscUnfold
  imports Prelude Cpid "HOL-Library.Word" "HOL-Library.AList"
begin

text \<open>
  The unfolding tree of the reads-from algorithm (\<open>RFSCUnfoldingTree.h\<close>, \<open>RFSCUnfoldingTree.cpp\<close>, \<open>Seqno.h\<close>). Its nodes
  are shared by all worker threads. A node is kept alive by the pointers to it; its parent lists it by a
  weak pointer, which is empty once the node is gone. A node is an address here, a weak pointer the address
  of a node that may be gone, and no address is used twice.
\<close>

section \<open>Nodes\<close>

record unf_node =
  un_parent :: "nat option"
  un_read_from :: "nat option"
  un_children :: "nat list"
  un_seqno :: "32 word"

record unf_tree =
  ut_nodes :: "(nat \<times> unf_node) list"
  ut_roots :: "(cpid \<times> nat list) list"
  ut_next :: nat
  ut_ctr :: "nat \<Rightarrow> nat"

definition unf_empty :: unf_tree where
  "unf_empty = \<lparr>ut_nodes = [], ut_roots = [], ut_next = 0, ut_ctr = (\<lambda>_. 0)\<rparr>"

text \<open>\<open>std::weak_ptr::lock\<close>\<close>

definition unf_lock :: "unf_tree \<Rightarrow> nat \<Rightarrow> unf_node option" where
  "unf_lock t c = map_of (ut_nodes t) c"

text \<open>\<open>operator ++\<close> of the counter of a thread; the node keeps 32 bits of it.\<close>

definition seqno_value :: "nat \<Rightarrow> nat \<Rightarrow> 64 word" where
  "seqno_value tid n = word_of_nat n * 1024 + word_of_nat tid"

definition next_seqno :: "nat \<Rightarrow> unf_tree \<Rightarrow> 64 word \<times> unf_tree" where
  "next_seqno tid t = (seqno_value tid (ut_ctr t tid + 1), t\<lparr>ut_ctr := (ut_ctr t)(tid := ut_ctr t tid + 1)\<rparr>)"

text \<open>The search drops the empty pointers it meets: the last one takes their place.\<close>

function goc_loop :: "unf_tree \<Rightarrow> nat option \<Rightarrow> nat option \<Rightarrow> nat list \<Rightarrow> nat \<Rightarrow> (nat list \<times> nat option) result" where
  "goc_loop t parent rf l ci =
     (if ci < length l then
        (case unf_lock t (l ! ci) of
           None \<Rightarrow> goc_loop t parent rf (butlast (l[ci := last l])) ci
         | Some c \<Rightarrow> if un_read_from c = rf then assert_r (parent = un_parent c) (Inr (l, Some (l ! ci)))
             else goc_loop t parent rf l (ci + 1))
      else Inr (l, None))"
  by auto
termination by (relation "measure (\<lambda>(t, parent, rf, l, ci). length l - ci)") auto

declare goc_loop.simps [simp del]

definition get_or_create :: "nat \<Rightarrow> nat list \<Rightarrow> nat option \<Rightarrow> nat option \<Rightarrow> unf_tree \<Rightarrow> (nat \<times> nat list \<times> unf_tree) result" where
  "get_or_create tid l parent rf t =
     bind_r (goc_loop t parent rf l 0) (\<lambda>(l, found).
       case found of
         Some c \<Rightarrow> Inr (c, l, t)
       | None \<Rightarrow>
           let (q, t) = next_seqno tid t; c = ut_next t;
               node = \<lparr>un_parent = parent, un_read_from = rf, un_children = [], un_seqno = ucast q\<rparr>
           in Inr (c, l @ [c], t\<lparr>ut_nodes := ut_nodes t @ [(c, node)], ut_next := c + 1\<rparr>))"

definition set_children :: "nat \<Rightarrow> nat list \<Rightarrow> unf_tree \<Rightarrow> unf_tree" where
  "set_children p l t = t\<lparr>ut_nodes := map (\<lambda>(c, n). (c, if c = p then n\<lparr>un_children := l\<rparr> else n)) (ut_nodes t)\<rparr>"

text \<open>\<open>get_unfolding_root\<close> makes the list of a thread when it is asked for the first time.\<close>

definition set_root :: "cpid \<Rightarrow> nat list \<Rightarrow> unf_tree \<Rightarrow> unf_tree" where
  "set_root cpid l t = t\<lparr>ut_roots := AList.update cpid l (ut_roots t)\<rparr>"

definition find_unfolding_node :: "nat \<Rightarrow> cpid \<Rightarrow> nat option \<Rightarrow> nat option \<Rightarrow> unf_tree \<Rightarrow> (nat \<times> unf_tree) result" where
  "find_unfolding_node tid cpid parent rf t =
     (case parent of
        Some p \<Rightarrow> (case unf_lock t p of
            None \<Rightarrow> Inl Bad_deref
          | Some n \<Rightarrow> bind_r (get_or_create tid (un_children n) parent rf t) (\<lambda>(c, l, t). Inr (c, set_children p l t)))
      | None \<Rightarrow> bind_r (get_or_create tid (map_get [] (ut_roots t) cpid) parent rf t) (\<lambda>(c, l, t). Inr (c, set_root cpid l t)))"

text \<open>The last pointer to a node goes away.\<close>

definition unf_release :: "nat \<Rightarrow> unf_tree \<Rightarrow> unf_tree" where
  "unf_release c t = t\<lparr>ut_nodes := filter (\<lambda>(d, n). d \<noteq> c) (ut_nodes t)\<rparr>"

definition live :: "unf_tree \<Rightarrow> nat option \<Rightarrow> bool" where
  "live t c = (case c of None \<Rightarrow> True | Some c \<Rightarrow> unf_lock t c \<noteq> None)"

inductive unf_step :: "unf_tree \<Rightarrow> unf_tree \<Rightarrow> bool" where
  unf_find: "live t parent \<Longrightarrow> live t rf \<Longrightarrow> find_unfolding_node tid cpid parent rf t = Inr (c, t') \<Longrightarrow> unf_step t t'"
| unf_gone: "\<forall>(d, n)\<in>set (ut_nodes t). un_parent n \<noteq> Some c \<and> un_read_from n \<noteq> Some c \<Longrightarrow> unf_step t (unf_release c t)"

definition unf_reach :: "unf_tree \<Rightarrow> bool" where
  "unf_reach t = unf_step\<^sup>*\<^sup>* unf_empty t"

section \<open>The invariant\<close>

text \<open>A node is listed by its owner: a thread for first events, a node for the others.\<close>

type_synonym unf_owner = "cpid + nat"

definition owner_of :: "cpid \<Rightarrow> nat option \<Rightarrow> unf_owner" where
  "owner_of cpid parent = (case parent of None \<Rightarrow> Inl cpid | Some p \<Rightarrow> Inr p)"

definition listed_by :: "unf_tree \<Rightarrow> unf_owner \<Rightarrow> nat list" where
  "listed_by t k = (case k of Inl q \<Rightarrow> map_get [] (ut_roots t) q | Inr p \<Rightarrow> (case unf_lock t p of Some n \<Rightarrow> un_children n | None \<Rightarrow> []))"

definition owner_parent :: "unf_owner \<Rightarrow> nat option" where
  "owner_parent k = (case k of Inl _ \<Rightarrow> None | Inr p \<Rightarrow> Some p)"

text \<open>What never changes of a live node: its parent and what it reads from.\<close>

definition unf_key :: "unf_tree \<Rightarrow> nat \<Rightarrow> (nat option \<times> nat option) option" where
  "unf_key t c = map_option (\<lambda>n. (un_parent n, un_read_from n)) (unf_lock t c)"

definition unf_has :: "unf_tree \<Rightarrow> unf_owner \<Rightarrow> nat option \<Rightarrow> nat \<Rightarrow> bool" where
  "unf_has t k rf c = (c \<in> set (listed_by t k) \<and> unf_key t c = Some (owner_parent k, rf))"

definition unf_ok :: "unf_tree \<Rightarrow> bool" where
  "unf_ok t = ((\<forall>c. unf_key t c \<noteq> None \<longrightarrow> c < ut_next t) \<and>
     (\<forall>k. \<forall>c\<in>set (listed_by t k). c < ut_next t \<and> (unf_key t c = None \<or> fst (the (unf_key t c)) = owner_parent k)) \<and>
     (\<forall>k k' rf rf' c d. unf_has t k rf c \<longrightarrow> unf_has t k' rf' d \<longrightarrow> (c = d \<longleftrightarrow> k = k' \<and> rf = rf')))"

section \<open>The search\<close>

lemma butlast_swap:
  assumes "i < length l"
  shows "set (butlast (l[i := last l])) \<subseteq> set l" "x \<in> set l \<Longrightarrow> x \<noteq> l ! i \<Longrightarrow> x \<in> set (butlast (l[i := last l]))"
    "k < i \<Longrightarrow> butlast (l[i := last l]) ! k = l ! k"
proof -
  obtain ys y where l: "l = ys @ [y]" using assms by (metis append_butlast_last_id length_0_conv not_less_zero)
  have b: "butlast (l[i := last l]) = (if i < length ys then ys[i := y] else ys)"
    using assms l by (simp add: list_update_append butlast_append)
  show "set (butlast (l[i := last l])) \<subseteq> set l" unfolding b using l set_update_subset_insert [of ys i y] by auto
  show "x \<in> set (butlast (l[i := last l]))" if "x \<in> set l" "x \<noteq> l ! i"
  proof (cases "i < length ys")
    case True
    have "x = y \<or> (\<exists>k < length ys. ys ! k = x \<and> k \<noteq> i)" using that l True by (auto simp: in_set_conv_nth nth_append split: if_splits)
    moreover have "y \<in> set (ys[i := y])" by (rule set_update_memI [OF True])
    ultimately show ?thesis unfolding b using True by (auto simp: in_set_conv_nth)
  next
    case False
    hence "i = length ys" using assms l by simp
    thus ?thesis unfolding b using that l by simp
  qed
  show "butlast (l[i := last l]) ! k = l ! k" if "k < i" unfolding b using that l assms by (simp add: nth_append)
qed

lemma goc_loop_spec:
  assumes "\<forall>c\<in>set l. \<forall>n. unf_lock t c = Some n \<longrightarrow> un_parent n = parent"
    "\<forall>k < ci. k < length l \<longrightarrow> (\<exists>n. unf_lock t (l ! k) = Some n \<and> un_read_from n \<noteq> rf)" "ci \<le> length l"
  shows "\<exists>l' r. goc_loop t parent rf l ci = Inr (l', r) \<and> set l' \<subseteq> set l \<and> (\<forall>c\<in>set l. unf_lock t c \<noteq> None \<longrightarrow> c \<in> set l') \<and>
    (case r of Some c \<Rightarrow> c \<in> set l' \<and> (\<exists>n. unf_lock t c = Some n \<and> un_read_from n = rf)
       | None \<Rightarrow> \<forall>c\<in>set l. \<forall>n. unf_lock t c = Some n \<longrightarrow> un_read_from n \<noteq> rf)"
  using assms
proof (induction t parent rf l ci rule: goc_loop.induct)
  case (1 t parent rf l ci)
  show ?case
  proof (cases "ci < length l")
    case False
    hence "\<forall>c\<in>set l. \<exists>n. unf_lock t c = Some n \<and> un_read_from n \<noteq> rf" using "1.prems"(2,3) by (auto simp: in_set_conv_nth)
    thus ?thesis using False by (auto simp: goc_loop.simps [of t parent rf l ci])
  next
    case True
    note sw = butlast_swap [OF True]
    show ?thesis
    proof (cases "unf_lock t (l ! ci)")
      case None
      let ?l = "butlast (l[ci := last l])"
      have "\<exists>l' r. goc_loop t parent rf ?l ci = Inr (l', r) \<and> set l' \<subseteq> set ?l \<and> (\<forall>c\<in>set ?l. unf_lock t c \<noteq> None \<longrightarrow> c \<in> set l') \<and>
        (case r of Some c \<Rightarrow> c \<in> set l' \<and> (\<exists>n. unf_lock t c = Some n \<and> un_read_from n = rf)
           | None \<Rightarrow> \<forall>c\<in>set ?l. \<forall>n. unf_lock t c = Some n \<longrightarrow> un_read_from n \<noteq> rf)"
        by (rule "1.IH"(1) [OF True None]) (use "1.prems" sw True in \<open>auto simp: subset_iff\<close>)
      then obtain l' r where r: "goc_loop t parent rf ?l ci = Inr (l', r)" "set l' \<subseteq> set ?l" "\<forall>c\<in>set ?l. unf_lock t c \<noteq> None \<longrightarrow> c \<in> set l'"
        "case r of Some c \<Rightarrow> c \<in> set l' \<and> (\<exists>n. unf_lock t c = Some n \<and> un_read_from n = rf)
           | None \<Rightarrow> \<forall>c\<in>set ?l. \<forall>n. unf_lock t c = Some n \<longrightarrow> un_read_from n \<noteq> rf" by blast
      have m: "c \<in> set ?l" if "c \<in> set l" "unf_lock t c \<noteq> None" for c using sw(2) [OF that(1)] that(2) None by metis
      have "case r of Some c \<Rightarrow> c \<in> set l' \<and> (\<exists>n. unf_lock t c = Some n \<and> un_read_from n = rf)
           | None \<Rightarrow> \<forall>c\<in>set l. \<forall>n. unf_lock t c = Some n \<longrightarrow> un_read_from n \<noteq> rf" using r(4) m by (auto split: option.splits)
      moreover have "goc_loop t parent rf l ci = Inr (l', r)" using True None r(1) by (simp add: goc_loop.simps [of t parent rf l ci])
      ultimately show ?thesis using r(2,3) m sw(1) by (intro exI [of _ l'] exI [of _ r]) blast
    next
      case (Some n)
      have p: "un_parent n = parent" using "1.prems"(1) Some True by auto
      show ?thesis
      proof (cases "un_read_from n = rf")
        case eq: True
        thus ?thesis using True Some p by (intro exI [of _ l] exI [of _ "Some (l ! ci)"]) (simp add: goc_loop.simps [of t parent rf l ci])
      next
        case False
        have "goc_loop t parent rf l ci = goc_loop t parent rf l (ci + 1)" using True Some False by (simp add: goc_loop.simps [of t parent rf l ci])
        moreover have "\<forall>k < ci + 1. k < length l \<longrightarrow> (\<exists>n. unf_lock t (l ! k) = Some n \<and> un_read_from n \<noteq> rf)"
          using "1.prems"(2) Some False by (auto simp: less_Suc_eq)
        ultimately show ?thesis using "1.IH"(2) [OF True Some False "1.prems"(1)] True by simp
      qed
    qed
  qed
qed

section \<open>What the operations change\<close>

lemma unf_key_lock: "unf_key t c = None \<longleftrightarrow> unf_lock t c = None"
  "unf_key t c = Some (p, rf) \<longleftrightarrow> (\<exists>n. unf_lock t c = Some n \<and> un_parent n = p \<and> un_read_from n = rf)"
  by (auto simp: unf_key_def)

lemma map_of_map_key: "map_of (map (\<lambda>(c, n). (c, g c n)) xs) d = map_option (g d) (map_of xs d)"
  by (induction xs) auto

lemma lock_set_children: "unf_lock (set_children p l t) d = map_option (\<lambda>n. if d = p then n\<lparr>un_children := l\<rparr> else n) (unf_lock t d)"
proof -
  have "(\<lambda>(c, n). (c, if c = p then n\<lparr>un_children := l\<rparr> else n)) = (\<lambda>(c, n). (c, (\<lambda>c n. if c = p then n\<lparr>un_children := l\<rparr> else n) c n))" by simp
  thus ?thesis unfolding unf_lock_def set_children_def by (simp add: map_of_map_key)
qed

lemma key_set_children [simp]: "unf_key (set_children p l t) = unf_key t"
  by (auto simp: unf_key_def lock_set_children option.map_comp intro!: ext map_option_cong split: if_splits)

lemma key_set_root [simp]: "unf_key (set_root q l t) = unf_key t"
  by (auto simp: unf_key_def unf_lock_def set_root_def)

lemma listed_set_children: "unf_lock t p \<noteq> None \<Longrightarrow> listed_by (set_children p l t) k = (if k = Inr p then l else listed_by t k)"
  by (auto simp: listed_by_def lock_set_children split: sum.splits option.splits) (simp_all add: set_children_def)

lemma listed_set_root: "listed_by (set_root q l t) k = (if k = Inl q then l else listed_by t k)"
  by (auto simp: listed_by_def set_root_def unf_lock_def map_get_def update_conv' split: sum.splits)

text \<open>\<open>get_or_create\<close> on the list of an owner.\<close>

definition found_or_new :: "unf_tree \<Rightarrow> unf_owner \<Rightarrow> nat option \<Rightarrow> nat \<Rightarrow> unf_tree \<Rightarrow> bool" where
  "found_or_new t k rf c t' =
     ((unf_key t' = unf_key t \<and> unf_has t k rf c \<and> ut_next t' = ut_next t) \<or>
      (unf_key t' = (unf_key t)(c \<mapsto> (owner_parent k, rf)) \<and> c = ut_next t \<and> ut_next t' = Suc c \<and>
         (\<forall>d\<in>set (listed_by t k). unf_key t d \<noteq> Some (owner_parent k, rf))))"

lemma get_or_create_spec:
  assumes "unf_ok t"
  shows "\<exists>c l t'. get_or_create tid (listed_by t k) (owner_parent k) rf t = Inr (c, l, t') \<and> found_or_new t k rf c t' \<and> c \<in> set l \<and>
    set l \<subseteq> insert c (set (listed_by t k)) \<and> (\<forall>d\<in>set (listed_by t k). unf_key t d \<noteq> None \<longrightarrow> d \<in> set l) \<and>
    (\<forall>k. listed_by t' k = listed_by t k) \<and> (\<forall>p. unf_lock t p \<noteq> None \<longrightarrow> unf_lock t' p \<noteq> None)"
proof -
  let ?l = "listed_by t k"
  have own: "\<forall>c\<in>set ?l. \<forall>n. unf_lock t c = Some n \<longrightarrow> un_parent n = owner_parent k"
  proof (intro ballI allI impI)
    fix c n assume c: "c \<in> set ?l" "unf_lock t c = Some n"
    have "unf_key t c = None \<or> fst (the (unf_key t c)) = owner_parent k" using assms c(1) unfolding unf_ok_def by blast
    thus "un_parent n = owner_parent k" using c(2) by (simp add: unf_key_def)
  qed
  obtain l r where g: "goc_loop t (owner_parent k) rf ?l 0 = Inr (l, r)" "set l \<subseteq> set ?l" "\<forall>c\<in>set ?l. unf_lock t c \<noteq> None \<longrightarrow> c \<in> set l"
    "case r of Some c \<Rightarrow> c \<in> set l \<and> (\<exists>n. unf_lock t c = Some n \<and> un_read_from n = rf)
       | None \<Rightarrow> \<forall>c\<in>set ?l. \<forall>n. unf_lock t c = Some n \<longrightarrow> un_read_from n \<noteq> rf"
    using goc_loop_spec [OF own, of 0 rf] by auto
  show ?thesis
  proof (cases r)
    case (Some c)
    have "found_or_new t k rf c t" using g(2,4) Some own by (auto simp: found_or_new_def unf_has_def unf_key_lock)
    thus ?thesis using g Some by (intro exI [of _ c] exI [of _ l] exI [of _ t]) (auto simp: get_or_create_def unf_key_lock)
  next
    case None
    let ?c = "ut_next t"
    define t' where "t' = (snd (next_seqno tid t))\<lparr>ut_nodes := ut_nodes t @ [(?c, \<lparr>un_parent = owner_parent k, un_read_from = rf,
        un_children = [], un_seqno = ucast (fst (next_seqno tid t))\<rparr>)], ut_next := ?c + 1\<rparr>"
    have n: "unf_lock t ?c = None" using assms unf_key_lock(1) [of t ?c] unfolding unf_ok_def by blast
    have lk: "unf_lock t' d = (if d = ?c then Some \<lparr>un_parent = owner_parent k, un_read_from = rf, un_children = [],
        un_seqno = ucast (fst (next_seqno tid t))\<rparr> else unf_lock t d)" for d
      using n by (auto simp: unf_lock_def t'_def map_add_def split: option.splits)
    have f: "ut_next t' = Suc ?c" "ut_roots t' = ut_roots t" by (simp_all add: t'_def next_seqno_def)
    have r: "get_or_create tid ?l (owner_parent k) rf t = Inr (?c, l @ [?c], t')"
      using g(1) None by (simp add: get_or_create_def t'_def next_seqno_def Let_def)
    have key: "unf_key t' = (unf_key t)(?c \<mapsto> (owner_parent k, rf))" by (auto simp: unf_key_def lk)
    have li: "listed_by t' k' = listed_by t k'" for k'
      using n by (auto simp: listed_by_def lk f split: sum.splits)
    have "found_or_new t k rf ?c t'" using key f g(4) None by (auto simp: found_or_new_def unf_key_lock)
    thus ?thesis using r g(2,3) li lk by (intro exI [of _ ?c] exI [of _ "l @ [?c]"] exI [of _ t']) (auto simp: unf_key_lock)
  qed
qed

lemma find_spec:
  fixes cpid :: cpid and parent :: "nat option"
  defines "k \<equiv> owner_of cpid parent"
  assumes "unf_ok t" "live t parent"
  shows "\<exists>c t'. find_unfolding_node tid cpid parent rf t = Inr (c, t') \<and> found_or_new t k rf c t' \<and> c \<in> set (listed_by t' k) \<and>
    set (listed_by t' k) \<subseteq> insert c (set (listed_by t k)) \<and> (\<forall>d\<in>set (listed_by t k). unf_key t d \<noteq> None \<longrightarrow> d \<in> set (listed_by t' k)) \<and>
    (\<forall>k'. k' \<noteq> k \<longrightarrow> listed_by t' k' = listed_by t k')"
proof -
  obtain c l t1 where g: "get_or_create tid (listed_by t k) (owner_parent k) rf t = Inr (c, l, t1)" "found_or_new t k rf c t1" "c \<in> set l"
    "set l \<subseteq> insert c (set (listed_by t k))" "\<forall>d\<in>set (listed_by t k). unf_key t d \<noteq> None \<longrightarrow> d \<in> set l"
    "\<forall>k. listed_by t1 k = listed_by t k" "\<forall>p. unf_lock t p \<noteq> None \<longrightarrow> unf_lock t1 p \<noteq> None"
    using get_or_create_spec [OF assms(2)] by blast
  show ?thesis
  proof (cases parent)
    case None
    have k: "k = Inl cpid" "owner_parent k = None" by (simp_all add: k_def owner_of_def None owner_parent_def)
    have "find_unfolding_node tid cpid parent rf t = Inr (c, set_root cpid l t1)"
      using g(1) k by (simp add: find_unfolding_node_def None listed_by_def)
    moreover have "found_or_new t k rf c (set_root cpid l t1)" using g(2) by (simp add: found_or_new_def) (simp add: set_root_def)
    ultimately show ?thesis using g(3-6) k by (intro exI [of _ c] exI [of _ "set_root cpid l t1"]) (simp add: listed_set_root)
  next
    case (Some p)
    have k: "k = Inr p" "owner_parent k = Some p" by (simp_all add: k_def owner_of_def Some owner_parent_def)
    obtain n where n: "unf_lock t p = Some n" using assms(3) Some by (auto simp: live_def)
    have "find_unfolding_node tid cpid parent rf t = Inr (c, set_children p l t1)"
      using g(1) k n by (simp add: find_unfolding_node_def Some listed_by_def)
    moreover have "found_or_new t k rf c (set_children p l t1)" using g(2) by (simp add: found_or_new_def) (simp add: set_children_def)
    moreover have "listed_by (set_children p l t1) k' = (if k' = k then l else listed_by t k')" for k'
      using g(6,7) n k by (simp add: listed_set_children)
    ultimately show ?thesis using g(3-5) by (intro exI [of _ c] exI [of _ "set_children p l t1"]) simp
  qed
qed

lemma lock_release: "unf_lock (unf_release c t) d = (if d = c then None else unf_lock t d)"
proof -
  have "map_of (filter (\<lambda>(d, n). d \<noteq> c) xs) d = (if d = c then None else map_of xs d)" for xs :: "(nat \<times> unf_node) list"
    by (induction xs) auto
  thus ?thesis by (simp add: unf_lock_def unf_release_def)
qed

lemma key_release: "unf_key (unf_release c t) d = (if d = c then None else unf_key t d)"
  by (simp add: unf_key_def lock_release)

lemma listed_release: "listed_by (unf_release c t) k = (if k = Inr c then [] else listed_by t k)"
  by (auto simp: listed_by_def lock_release split: sum.splits) (simp add: unf_release_def)

lemma find_ok:
  assumes "unf_ok t" "live t parent" "live t rf" "find_unfolding_node tid cpid parent rf t = Inr (c, t')"
  shows "unf_ok t'" "unf_has t' (owner_of cpid parent) rf c" "unf_has t k' rf' d \<Longrightarrow> unf_has t' k' rf' d"
proof -
  let ?k = "owner_of cpid parent"
  have f: "found_or_new t ?k rf c t'" "c \<in> set (listed_by t' ?k)"
    "set (listed_by t' ?k) \<subseteq> insert c (set (listed_by t ?k))" "\<forall>d\<in>set (listed_by t ?k). unf_key t d \<noteq> None \<longrightarrow> d \<in> set (listed_by t' ?k)"
    "\<forall>k'. k' \<noteq> ?k \<longrightarrow> listed_by t' k' = listed_by t k'"
    using find_spec [OF assms(1,2), where cpid = cpid and rf = rf and tid = tid] assms(4) by auto
  have ok: "\<And>c. unf_key t c \<noteq> None \<Longrightarrow> c < ut_next t"
    "\<And>k c. c \<in> set (listed_by t k) \<Longrightarrow> c < ut_next t \<and> (unf_key t c = None \<or> fst (the (unf_key t c)) = owner_parent k)"
    "\<And>k k' rf rf' c d. unf_has t k rf c \<Longrightarrow> unf_has t k' rf' d \<Longrightarrow> (c = d \<longleftrightarrow> k = k' \<and> rf = rf')"
    using assms(1) unfolding unf_ok_def by blast+
  have c: "unf_key t' c = Some (owner_parent ?k, rf)" using f(1) by (auto simp: found_or_new_def unf_has_def)
  show has: "unf_has t' ?k rf c" using c f(2) by (simp add: unf_has_def)
  have key: "unf_key t' d = unf_key t d" if "d \<noteq> c" for d using f(1) that by (auto simp: found_or_new_def)
  have keep: "unf_has t' k' rf' d" if h: "unf_has t k' rf' d" for k' rf' d
  proof -
    have "d \<in> set (listed_by t' k')" using h f(4,5) by (cases "k' = ?k") (auto simp: unf_has_def)
    moreover have "unf_key t' d = unf_key t d"
      using h f(1) ok(1) [of d] key [of d] by (auto simp: found_or_new_def unf_has_def)
    ultimately show ?thesis using h by (simp add: unf_has_def)
  qed
  thus "unf_has t k' rf' d \<Longrightarrow> unf_has t' k' rf' d" .
  have key': "unf_key t' d = unf_key t d" if "d < ut_next t" for d
  proof (cases "d = c")
    case True
    thus ?thesis using f(1) that by (auto simp: found_or_new_def)
  qed (rule key)
  have old: "unf_has t k' rf' d \<or> (k' = ?k \<and> rf' = rf \<and> d = c)" if h: "unf_has t' k' rf' d" for k' rf' d
  proof (cases "k' = ?k \<and> d = c")
    case True
    thus ?thesis using h c by (simp add: unf_has_def)
  next
    case False
    hence d: "d \<in> set (listed_by t k')" using h f(3,5) by (cases "k' = ?k") (auto simp: unf_has_def)
    hence "unf_key t' d = unf_key t d" using ok(2) key' by blast
    thus ?thesis using h d by (simp add: unf_has_def)
  qed
  have le: "ut_next t \<le> ut_next t'" "c < ut_next t'" using f(1) ok(2) by (auto simp: found_or_new_def unf_has_def)
  have uniq: "c = d \<longleftrightarrow> ?k = k' \<and> rf = rf'" if "unf_has t k' rf' d" for k' rf' d
  proof (cases "unf_has t ?k rf c")
    case True
    thus ?thesis using ok(3) that by blast
  next
    case False
    hence "c = ut_next t" "\<forall>d\<in>set (listed_by t ?k). unf_key t d \<noteq> Some (owner_parent ?k, rf)" using f(1) by (auto simp: found_or_new_def)
    moreover have "d < ut_next t" using that ok(2) by (auto simp: unf_has_def)
    ultimately show ?thesis using that by (auto simp: unf_has_def)
  qed
  show "unf_ok t'"
    unfolding unf_ok_def
  proof (intro conjI allI impI ballI)
    fix d assume "unf_key t' d \<noteq> None"
    thus "d < ut_next t'" using ok(1) [of d] key [of d] le by (cases "d = c") auto
  next
    fix k' d assume d: "d \<in> set (listed_by t' k')"
    have 1: "k' = ?k \<and> d = c \<or> d \<in> set (listed_by t k')" using d f(3,5) by (cases "k' = ?k") auto
    show "d < ut_next t'" using 1 ok(2) le by fastforce
    show "unf_key t' d = None \<or> fst (the (unf_key t' d)) = owner_parent k'" using 1 c ok(2) key' by (metis fst_conv option.sel)
  next
    fix k1 k2 r1 r2 c1 c2 assume h: "unf_has t' k1 r1 c1" "unf_has t' k2 r2 c2"
    show "c1 = c2 \<longleftrightarrow> k1 = k2 \<and> r1 = r2"
      using old [OF h(1)] old [OF h(2)] ok(3) uniq [of k1 r1 c1] uniq [of k2 r2 c2] by metis
  qed
qed

lemma release_ok:
  assumes "unf_ok t"
  shows "unf_ok (unf_release c t)" "unf_has t k rf d \<Longrightarrow> unf_lock (unf_release c t) d \<noteq> None \<Longrightarrow> k \<noteq> Inr c \<Longrightarrow> unf_has (unf_release c t) k rf d"
proof -
  have h: "unf_has (unf_release c t) k rf d \<Longrightarrow> unf_has t k rf d" for k rf d
    by (auto simp: unf_has_def key_release listed_release split: if_splits)
  have "ut_next (unf_release c t) = ut_next t" by (simp add: unf_release_def)
  thus "unf_ok (unf_release c t)"
    using assms h unfolding unf_ok_def by (simp add: key_release listed_release)
  show "unf_has t k rf d \<Longrightarrow> unf_lock (unf_release c t) d \<noteq> None \<Longrightarrow> k \<noteq> Inr c \<Longrightarrow> unf_has (unf_release c t) k rf d"
    by (auto simp: unf_has_def key_release listed_release lock_release split: if_splits)
qed

lemma step_ok: "unf_step t t' \<Longrightarrow> unf_ok t \<Longrightarrow> unf_ok t'"
  by (induction rule: unf_step.induct) (blast intro: find_ok release_ok)+

lemma reach_ok: "unf_reach t \<Longrightarrow> unf_ok t"
proof -
  have e: "unf_ok unf_empty" by (simp add: unf_ok_def unf_has_def unf_key_def unf_lock_def unf_empty_def listed_by_def map_get_def split: sum.splits)
  show "unf_reach t \<Longrightarrow> unf_ok t" unfolding unf_reach_def
    by (induction rule: rtranclp_induct) (auto intro: e step_ok)
qed

text \<open>A node stays what it is as long as it is alive.\<close>

lemma step_keeps:
  assumes "unf_step t t'" "unf_ok t" "unf_has t k rf c" "unf_lock t' c \<noteq> None"
  shows "unf_has t' k rf c"
  using assms(1)
proof cases
  case (unf_find parent rf' tid cpid d)
  thus ?thesis using find_ok(3) [OF assms(2)] assms(3) by blast
next
  case (unf_gone d)
  have "k \<noteq> Inr d"
  proof
    assume k: "k = Inr d"
    obtain n where n: "unf_lock t c = Some n" "un_parent n = Some d" using assms(3) k by (auto simp: unf_has_def unf_key_lock owner_parent_def)
    hence "(c, n) \<in> set (ut_nodes t)" by (auto simp: unf_lock_def dest: map_of_SomeD)
    thus False using unf_gone(2) n(2) by auto
  qed
  thus ?thesis using release_ok(2) [OF assms(2,3)] assms(4) unf_gone(1) by simp
qed

lemma step_dead:
  assumes "unf_step t t'" "unf_ok t" "c < ut_next t" "unf_lock t' c \<noteq> None"
  shows "unf_lock t c \<noteq> None"
  using assms(1)
proof cases
  case (unf_find parent rf tid cpid d)
  have "found_or_new t (owner_of cpid parent) rf d t'"
    using find_spec [OF assms(2) unf_find(1), where cpid = cpid and rf = rf and tid = tid] unf_find(3) by auto
  hence "unf_key t' c = unf_key t c" using assms(3) by (auto simp: found_or_new_def)
  thus ?thesis using assms(4) unf_key_lock(1) by metis
next
  case (unf_gone d)
  thus ?thesis using assms(4) by (simp add: lock_release split: if_splits)
qed

lemma step_next: "unf_step t t' \<Longrightarrow> unf_ok t \<Longrightarrow> ut_next t \<le> ut_next t'"
proof (induction rule: unf_step.induct)
  case (unf_find t parent rf tid cpid c t')
  thus ?case using find_spec [OF unf_find.prems unf_find.hyps(1), where cpid = cpid and rf = rf and tid = tid] by (auto simp: found_or_new_def)
qed (simp add: unf_release_def)

lemma steps_keep:
  assumes "unf_step\<^sup>*\<^sup>* t t'" "unf_ok t" "unf_has t k rf c" "unf_lock t' c \<noteq> None"
  shows "unf_has t' k rf c"
proof -
  have n: "c < ut_next t" using assms(2,3) unfolding unf_ok_def unf_has_def by blast
  have "unf_ok t' \<and> c < ut_next t' \<and> (unf_lock t' c \<noteq> None \<longrightarrow> unf_has t' k rf c)"
    using assms(1)
  proof (induction rule: rtranclp_induct)
    case base
    show ?case using assms(2,3) n by simp
  next
    case (step u v)
    thus ?case using step_ok step_next step_dead step_keeps by (metis less_le_trans)
  qed
  thus ?thesis using assms(4) by blast
qed

text \<open>C22: events are identified by their nodes: a call of \<open>find_unfolding_node\<close> succeeds, and as long as the node
  it returned is alive, whatever other calls are made and nodes deleted in between, a later call returns
  the same node exactly when it asks for the same parent (and the same thread, for first events) and the
  same node to read from.\<close>

theorem unfolding_nodes_canonical:
  assumes "unf_reach t" "live t parent" "live t rf"
  shows "\<exists>c t'. find_unfolding_node tid cpid parent rf t = Inr (c, t') \<and>
    (\<forall>u tid' cpid' parent' rf'. unf_step\<^sup>*\<^sup>* t' u \<longrightarrow> unf_lock u c \<noteq> None \<longrightarrow> live u parent' \<longrightarrow> live u rf' \<longrightarrow>
      (\<exists>d u'. find_unfolding_node tid' cpid' parent' rf' u = Inr (d, u') \<and>
         (d = c \<longleftrightarrow> owner_of cpid' parent' = owner_of cpid parent \<and> rf' = rf)))"
proof -
  note ok = reach_ok [OF assms(1)]
  obtain c t' where f: "find_unfolding_node tid cpid parent rf t = Inr (c, t')" using find_spec [OF ok assms(2), where cpid = cpid and rf = rf] by blast
  have later: "\<exists>d u'. find_unfolding_node tid' cpid' parent' rf' u = Inr (d, u') \<and> (d = c \<longleftrightarrow> owner_of cpid' parent' = owner_of cpid parent \<and> rf' = rf)"
    if u: "unf_step\<^sup>*\<^sup>* t' u" "unf_lock u c \<noteq> None" "live u parent'" "live u rf'" for u tid' cpid' parent' rf'
  proof -
    note t' = find_ok [OF ok assms(2,3) f]
    have okU: "unf_ok u" using u(1) t'(1) by (induction rule: rtranclp_induct) (auto intro: step_ok)
    have h: "unf_has u (owner_of cpid parent) rf c" by (rule steps_keep [OF u(1) t'(1,2) u(2)])
    obtain d u' where d: "find_unfolding_node tid' cpid' parent' rf' u = Inr (d, u')"
      using find_spec [OF okU u(3), where cpid = cpid' and rf = rf'] by blast
    note u' = find_ok [OF okU u(3,4) d]
    have "d = c \<longleftrightarrow> owner_of cpid' parent' = owner_of cpid parent \<and> rf' = rf"
      using u'(1) u'(2) u'(3) [OF h] unfolding unf_ok_def by blast
    thus ?thesis using d by blast
  qed
  show ?thesis using f later by blast
qed

definition demo_cpid :: cpid where
  "demo_cpid = pid_init"

definition demo_find :: "nat option \<Rightarrow> nat option \<Rightarrow> unf_tree \<Rightarrow> unf_tree" where
  "demo_find parent rf t = (case find_unfolding_node 1 demo_cpid parent rf t of Inr (c, t) \<Rightarrow> t | Inl _ \<Rightarrow> t)"

definition demo_unf :: unf_tree where
  "demo_unf = demo_find (Some 0) (Some 0) (demo_find (Some 0) None (demo_find None None unf_empty))"

lemma demo_unf_reach: "unf_reach demo_unf"
proof -
  have s: "unf_step t (demo_find parent rf t)" if "live t parent" "live t rf" "\<exists>r. find_unfolding_node 1 demo_cpid parent rf t = Inr r" for t parent rf
    using unf_find [OF that(1,2)] that(3) by (auto simp: demo_find_def)
  let ?t1 = "demo_find None None unf_empty"
  let ?t2 = "demo_find (Some 0) None ?t1"
  have 1: "unf_step unf_empty ?t1" by (rule s) (simp_all add: live_def find_unfolding_node_def get_or_create_def goc_loop.simps Let_def next_seqno_def map_get_def unf_empty_def)
  have r: "\<exists>r. find_unfolding_node 1 demo_cpid parent rf t = Inr r" if "unf_ok t" "live t parent" for t parent rf
    using find_spec [OF that, where cpid = demo_cpid and rf = rf and tid = 1] by blast
  have k: "unf_ok unf_empty" using reach_ok [of unf_empty] by (simp add: unf_reach_def)
  have l1: "live ?t1 (Some 0)" by code_simp
  have 2: "unf_step ?t1 ?t2" by (rule s [OF l1 _ r [OF step_ok [OF 1 k] l1]]) (simp add: live_def)
  have l2: "live ?t2 (Some 0)" by code_simp
  have "unf_step ?t2 demo_unf" unfolding demo_unf_def by (rule s [OF l2 l2 r [OF step_ok [OF 2 step_ok [OF 1 k]] l2]])
  thus ?thesis using 1 2 unfolding unf_reach_def by (metis rtranclp.rtrancl_into_rtrancl rtranclp.rtrancl_refl)
qed

lemma demo_unf_live: "live demo_unf (Some 0)" "live demo_unf (Some 1)"
  "map_sum id fst (find_unfolding_node 1 demo_cpid (Some 0) (Some 1) demo_unf) = Inr 3"
  by code_simp+

text \<open>The node of the third event is deleted between two calls for the fourth.\<close>

theorem unfolding_nodes_canonical_witness:
  "\<exists>t'. find_unfolding_node 1 demo_cpid (Some 0) (Some 1) demo_unf = Inr (3, t') \<and>
    (\<exists>u'. find_unfolding_node 2 demo_cpid (Some 0) (Some 1) (unf_release 2 t') = Inr (3, u'))"
proof -
  obtain t' where t': "find_unfolding_node 1 demo_cpid (Some 0) (Some 1) demo_unf = Inr (3, t')"
    using demo_unf_live(3) by (cases "find_unfolding_node 1 demo_cpid (Some 0) (Some 1) demo_unf") auto
  have e: "(case find_unfolding_node 1 demo_cpid (Some 0) (Some 1) demo_unf of Inr (c, t) \<Rightarrow>
      (\<forall>(d, n)\<in>set (ut_nodes t). un_parent n \<noteq> Some 2 \<and> un_read_from n \<noteq> Some 2) \<and> unf_lock (unf_release 2 t) 3 \<noteq> None \<and>
      live (unf_release 2 t) (Some 0) \<and> live (unf_release 2 t) (Some 1) | Inl _ \<Rightarrow> False)"
    by code_simp
  have u: "unf_step t' (unf_release 2 t')" "unf_lock (unf_release 2 t') 3 \<noteq> None" "live (unf_release 2 t') (Some 0)" "live (unf_release 2 t') (Some 1)"
    using e t' by (auto intro: unf_gone)
  have uu: "unf_step\<^sup>*\<^sup>* t' (unf_release 2 t')" using u(1) by (rule r_into_rtranclp)
  have later: "\<forall>u tid' cpid' parent' rf'. unf_step\<^sup>*\<^sup>* t' u \<longrightarrow> unf_lock u 3 \<noteq> None \<longrightarrow> live u parent' \<longrightarrow> live u rf' \<longrightarrow>
      (\<exists>d u'. find_unfolding_node tid' cpid' parent' rf' u = Inr (d, u') \<and>
         (d = 3 \<longleftrightarrow> owner_of cpid' parent' = owner_of demo_cpid (Some 0) \<and> rf' = Some 1))"
    using unfolding_nodes_canonical [OF demo_unf_reach demo_unf_live(1,2), of 1 demo_cpid] t' by auto
  show ?thesis using t' later [rule_format, OF uu u(2-4), of 2 demo_cpid] by auto
qed

section \<open>Sequence numbers\<close>

text \<open>The numbers of up to 1024 threads differ until a node's 32 bits wrap around, after about four million nodes
  of a thread; they are printed only.\<close>

lemma seqno_distinct:
  assumes "0 < i" "i \<le> 1024" "0 < j" "j \<le> 1024" "m < 2 ^ 22 - 1" "n < 2 ^ 22 - 1" "(ucast (seqno_value i m) :: 32 word) = ucast (seqno_value j n)"
  shows "i = j \<and> m = n"
proof -
  have v: "(ucast (seqno_value i m) :: 32 word) = word_of_nat (m * 1024 + i)" for i m
  proof -
    have "seqno_value i m = word_of_nat (m * 1024 + i)" by (simp add: seqno_value_def)
    moreover have "(ucast (word_of_nat k :: 64 word) :: 32 word) = word_of_nat k" for k
      by (simp add: unsigned_of_nat word_of_nat_eq_iff)
    ultimately show ?thesis by metis
  qed
  have b: "m * 1024 + i < 2 ^ 32" "n * 1024 + j < 2 ^ 32" using assms(2,4-6) by simp_all
  have "(word_of_nat (m * 1024 + i) :: 32 word) = word_of_nat (n * 1024 + j)" using assms(7) unfolding v .
  hence "m * 1024 + i = n * 1024 + j" using b unfolding word_of_nat_eq_iff by (simp add: take_bit_nat_eq_self)
  thus ?thesis using assms(1-4) by (cases m n rule: linorder_cases) linarith+
qed

end
