(* ===== verification/Spec2Isabelle.thy ===== *)
theory Spec2Isabelle
  imports VecSet Iid SopFormula ViewHash ViewRmw ViewLitmus RfscDecision RfscUnfold
begin

text \<open>
  A verification development for the stateless model checker Nidhugg with the view-equivalence
  algorithm ViEqui (files under \<open>src/src/\<close>).

  \<^bold>\<open>The program.\<close> Nidhugg interprets an LLVM program (\<open>Interpreter.cpp\<close>, \<open>Execution.cpp\<close>) and asks a
  trace builder which thread runs next; the driver (\<open>DPORDriver.cpp\<close>) repeats executions until the builder
  has none left. \<open>ViewEqTraceBuilder\<close> explores one execution per class of executions in which all reads
  read the same values: global accesses are peeked before they are executed and kept enabled; at each
  state the builder computes leads (sequences to explore, with values that reads must not take), unites
  them with those it has, and at the end of an execution resumes at the deepest state with an unexplored
  lead. The reads-from algorithm (\<open>RFSCTraceBuilder\<close>) asks a saturated graph whether reads-from choices
  are consistent.

  \<^bold>\<open>Values and containers.\<close> \<open>Prelude\<close> (errors as values, checked access to vectors, folds), \<open>VecSet\<close>
  (\<open>vecset.h/.tcc\<close>), \<open>Iid\<close> (\<open>IID.h/.tcc\<close>), \<open>Cpid\<close> (\<open>CPid.h/.cpp\<close>), \<open>SymAddr\<close> and \<open>SymEv\<close> (the files of these
  names), \<open>VClock\<close> (\<open>VClock.h/.cpp\<close>: clocks over integers and vectors of them), \<open>ViewHash\<close> (the hash
  functions of \<open>ViewEqTraceBuilder.h\<close>). The lemmas give each operation its reference meaning: sets,
  orders, sets of identifiers, byte sets, lattices, polynomials.

  \<^bold>\<open>Formulas.\<close> \<open>SopFormula\<close> (\<open>SOPFormula.h/.cpp\<close>): sums of products of (read, value) pairs, with their meaning
  under an assignment of values to reads.

  \<^bold>\<open>Sequences and leads.\<close> \<open>ViewEvent\<close> (events, values of read-modify-writes, summaries of spawns and joins),
  \<open>ViewSequence\<close> (view adjustment, consistent merge), \<open>ViewEventSeq\<close> (sequences with values and their
  comparison), \<open>ViewCausal\<close> (causal order), \<open>ViewBackseq\<close> (causal prefixes, view starts), \<open>ViewLead\<close> (leads
  and the leads of a state): the nested classes of \<open>ViewEqTraceBuilder\<close>. The lemmas say that
  rearranging and merging keep events, program order and the values read, and what the comparison of leads
  decides.

  \<^bold>\<open>The builder.\<close> \<open>ViewBuilder\<close> (state, searches for influencers and witnesses), \<open>ViewUnion\<close>
  (\<open>consistent_union\<close>, forwarding), \<open>ViewAnalysis\<close> (forward and backward analysis), \<open>ViewSchedule\<close>
  (\<open>schedule\<close>), \<open>ViewOps\<close> (callbacks, reports, \<open>reset\<close>). \<open>ViewSkeleton\<close> is an abstract machine of the
  bookkeeping, \<open>ViewRefine\<close> shows that every call is one of its steps, \<open>ViewReach\<close> concludes the invariants of
  every reachable state, \<open>ViewReset\<close> that no lead is lost at the end of an execution.

  \<^bold>\<open>The loop around it.\<close> \<open>ViewInterp\<close> (\<open>Interpreter::run\<close>, the handlers of \<open>Execution.cpp\<close> that call the
  builder, \<open>DPORDriver\<close>), \<open>ViewThreads\<close> (the threads of interpreter and builder agree), \<open>ViewRmw\<close> (predicted
  and written values of read-modify-writes agree), \<open>ViewLitmus\<close> (small programs explored to the end
  against their interleavings, by evaluation).

  \<^bold>\<open>The saturated graph.\<close> \<open>SatGraph\<close> holds the definitions (\<open>SaturatedGraph.h/.cpp\<close>), \<open>SatInv\<close> the invariant and
  what an execution of a graph is, \<open>SatStep\<close>, \<open>SatLoop\<close> and \<open>SatFix\<close> the steps, the loop and its end,
  \<open>SatReverse\<close> and \<open>SatMissed\<close> reverse saturation, \<open>SatFinal\<close> the result, \<open>SatAdd\<close> and \<open>SatApi\<close> the addition
  of events, \<open>SatReach\<close> the graphs that can be built and the theorems on them.

  \<^bold>\<open>Conventions.\<close> A failed assertion, an access out of range, a dereferenced end iterator and fuel that ran out
  are values of \<open>error\<close>. The records of the builder carry a configuration: \<open>vf_dbg\<close> and \<open>vf_seq_dbg\<close> say which
  assertions are compiled in (the code violates one of its own in \<open>backseq\<close>, and one does not compile),
  \<open>vf_fuel\<close> bounds the loops of leads, \<open>vf_sched\<close> is the order in which the iterations of an OpenMP loop
  enter its critical section; the theorems hold for every such order. Unordered containers are lists in
  order of insertion. \<open>gen::vector\<close> and \<open>gen::map\<close> are values.

  \<^bold>\<open>Fuel.\<close> \<open>consistent_merge\<close> and the loops built on it take fuel: a run that ends gives the same result with
  more fuel, and no other error occurs. The run of an execution and the exploration take fuel, since a
  program need not end. The loop of \<open>saturate\<close> runs at most \<open>(n * n + 1) * (n + 1) + 1\<close> times for \<open>n\<close> events
  (\<open>saturation_ends\<close>); the depth-first search of reverse saturation is at most as deep as there are events.

  \<^bold>\<open>The litmus programs\<close> are run with the constants of the code. That the initial value of a variable is never
  a value to go back to (\<open>litmus_missed\<close>) is the behaviour of the code as it is; the regression suite
  initialises its variables by stores in \<open>main\<close> before the threads start.

  \<^bold>\<open>Not modelled.\<close> The semantics of LLVM instructions apart from those that call the builder; mutexes,
  condition variables and \<open>assume\<close> under ViEqui (the builder asserts that they are not used); the other
  memory models and algorithms (TSO, PSO, POWER, ARM, the rest of RFSC); the transformation passes on
  LLVM modules; options, printing of traces, SMT output, timing and the Python front end. Non-zero
  initial values of globals are in the memory of the interpreter, the memory of the builder starts at 0.

  \<^bold>\<open>Plan.\<close> The decision and unfolding trees and the trace builder of the reads-from algorithm on top of the
  saturated graph; the lazy clocks of \<open>FBVClock\<close>; wakeup trees and the store buffers of \<open>TSOTraceBuilder\<close>.
\<close>

end
